(* ===== verification/Charm_Prelude.thy ===== *)
theory Charm_Prelude
  imports Complex_Main "HOL-Library.Multiset" "HOL-Library.Word"
begin

text \<open>
  Shared vocabulary of the development: the types that stand for C scalars and pointers,
  the named theorem collections, and the generic list, multiset and option lemmas that the
  component theories rely on.
\<close>

text \<open>
  A \<^verbatim>\<open>void *\<close> that the code only stores and compares is an \<^typ>\<open>'m option\<close>, with
  \<^term>\<open>None\<close> for the null pointer.
\<close>

type_synonym 'm ptr = "'m option"

type_synonym u16 = "16 word"
type_synonym u32 = "32 word"
type_synonym u64 = "64 word"

named_theorems arr_simps
named_theorems chain_simps

subsection \<open>Lists read and written by index\<close>

lemma take_Suc_snoc: "n < length xs \<Longrightarrow> take (Suc n) xs = take n xs @ [xs ! n]"
  by (rule take_Suc_conv_app_nth)

lemma drop_nth_Cons: "n < length xs \<Longrightarrow> drop n xs = xs ! n # drop (Suc n) xs"
  by (rule Cons_nth_drop_Suc [symmetric])

lemma drop_take_snoc:
  assumes "h \<le> t" "t < length xs"
  shows "drop h (take (Suc t) (xs[t := x])) = drop h (take t xs) @ [x]"
  using assms by (simp add: take_Suc_snoc)

lemma drop_take_Cons:
  assumes "h < t" "t \<le> length xs"
  shows "drop h (take t xs) = xs ! h # drop (Suc h) (take t xs)"
  using assms by (simp add: drop_nth_Cons)

lemma nth_take_drop_update:
  "i < length xs \<Longrightarrow> take i xs @ x # drop (Suc i) xs = xs[i := x]"
  by (rule upd_conv_take_nth_drop [symmetric])

lemma drop_update_at: "i < length xs \<Longrightarrow> drop i (xs[i := x]) = x # drop (Suc i) xs"
  by (simp add: drop_nth_Cons)

lemma nth_update_proj: "g e = g (es ! i) \<Longrightarrow> g (es[i := e] ! j) = g (es ! j)"
  by (cases "i < length es"; cases "i = j") (auto simp: list_update_beyond)

subsection \<open>Multisets of list entries\<close>

lemma mset_swap_entries:
  assumes "i < length xs" "j < length xs"
  shows "mset (xs[i := xs ! j, j := xs ! i]) = mset xs"
  using assms by (simp add: mset_swap)

lemma mset_update_entry:
  "i < length xs \<Longrightarrow> add_mset (xs ! i) (mset (xs[i := x])) = add_mset x (mset xs)"
  by (simp add: mset_update)

lemma mset_exchange:
  assumes "A' + X = A + X'" "add_mset p X' = add_mset n X"
  shows "add_mset p A' = add_mset n A"
proof -
  have "add_mset p A' + X = A + add_mset p X'" using assms(1) by simp
  also have "\<dots> = add_mset n A + X" using assms(2) by simp
  finally show ?thesis by (rule add_right_imp_eq)
qed

lemma filter_unique:
  "distinct xs \<Longrightarrow> a \<in> set xs \<Longrightarrow> (\<And>x. x \<in> set xs \<Longrightarrow> P x \<longleftrightarrow> x = a) \<Longrightarrow> filter P xs = [a]"
proof (induction xs)
  case Nil
  then show ?case by simp
next
  case (Cons y ys)
  show ?case
  proof (cases "y = a")
    case True
    with Cons.prems have "\<forall>x \<in> set ys. \<not> P x" by auto
    then have "filter P ys = []" by (simp add: filter_empty_conv)
    with True Cons.prems(3) [of y] show ?thesis by simp
  next
    case False
    with Cons show ?thesis by simp
  qed
qed

subsection \<open>Arrays of C code\<close>

text \<open>
  Reading and updating an array at an index that may be out of range: \<^term>\<open>None\<close> is the
  undefined behaviour.
\<close>

definition arr_get :: "'e list \<Rightarrow> int \<Rightarrow> 'e option" where
  "arr_get es i = (if 0 \<le> i \<and> nat i < length es then Some (es ! nat i) else None)"

definition arr_upd :: "'e list \<Rightarrow> int \<Rightarrow> ('e \<Rightarrow> 'e) \<Rightarrow> 'e list option" where
  "arr_upd es i f = (if 0 \<le> i \<and> nat i < length es then Some (es[nat i := f (es ! nat i)]) else None)"

lemma arr_get_nat [simp, arr_simps]: "arr_get es (int i) = (if i < length es then Some (es ! i) else None)"
  by (simp add: arr_get_def)

lemma arr_upd_nat [simp, arr_simps]: "arr_upd es (int i) f = (if i < length es then Some (es[i := f (es ! i)]) else None)"
  by (simp add: arr_upd_def)

lemma arr_get_add [simp, arr_simps]: "arr_get es (int a + int b) = (if a + b < length es then Some (es ! (a + b)) else None)"
  using arr_get_nat [of es "a + b"] by simp

lemma arr_upd_pred [simp, arr_simps]:
  "0 < n \<Longrightarrow> arr_upd es (int n - 1) f = (if n - 1 < length es then Some (es[n - 1 := f (es ! (n - 1))]) else None)"
  using arr_upd_nat [of es "n - 1" f] by simp

lemma arr_get_pred [simp, arr_simps]:
  "0 < n \<Longrightarrow> arr_get es (int n - 1) = (if n - 1 < length es then Some (es ! (n - 1)) else None)"
  using arr_get_nat [of es "n - 1"] by simp

lemma arr_get_succ [simp, arr_simps]: "arr_get es (1 + int n) = (if n + 1 < length es then Some (es ! (n + 1)) else None)"
  using arr_get_nat [of es "n + 1"] by simp

lemma arr_get_neg [simp, arr_simps]: "arr_get es (- 1) = None"
  by (simp add: arr_get_def)

subsection \<open>Machine integers\<close>

text \<open>
  The value that a C \<open>int\<close> of 32 bits has after an operation with the mathematical result \<open>x\<close>,
  in two's complement.
\<close>

definition c_int :: "int \<Rightarrow> int" where
  "c_int x = signed_take_bit 31 x"

lemma c_int_id [simp]: "- (2 ^ 31) \<le> x \<Longrightarrow> x < 2 ^ 31 \<Longrightarrow> c_int x = x"
  unfolding c_int_def by (rule signed_take_bit_int_eq_self)

lemma c_int_range: "- (2 ^ 31) \<le> c_int x" "c_int x < 2 ^ 31"
  using signed_take_bit_int_greater_eq_minus_exp [of 31 x] signed_take_bit_int_less_exp [of 31 x] by (simp_all add: c_int_def)

lemma sint_small:
  assumes "unat (w :: u32) < 2 ^ 31"
  shows "sint w = int (unat w)"
proof -
  have "int (unat w) < int (2 ^ 31)" using assms unfolding of_nat_less_iff .
  then have "uint w < 2 ^ 31" by simp
  moreover have "- (2 ^ 31) \<le> uint w" by (rule order_trans [of _ 0]) simp_all
  ultimately have "signed_take_bit 31 (uint w) = uint w" by (rule signed_take_bit_int_eq_self [rotated])
  then show ?thesis by (simp add: sint_uint)
qed

end
