(* ===== verification/Cqs_Deq.thy ===== *)
theory Cqs_Deq
  imports Charm_Prelude
begin

text \<open>
  The double ended queue of \<^verbatim>\<open>src/conv-core/queueing.C\<close>: a circular buffer of message
  pointers that doubles when it fills up. The theory states the queue contract as a locale
  over the list of stored pointers, defines the operations as the code writes them, and
  interprets the locale on them.
\<close>

section \<open>The contract of a double ended queue\<close>

locale deque =
  fixes empty :: "'q"
    and enq_back :: "'q \<Rightarrow> 'a \<Rightarrow> 'q"
    and enq_front :: "'q \<Rightarrow> 'a \<Rightarrow> 'q"
    and deq_front :: "'q \<Rightarrow> 'a \<times> 'q"
    and is_empty :: "'q \<Rightarrow> bool"
    and contents :: "'q \<Rightarrow> 'a list"
    and invar :: "'q \<Rightarrow> bool"
  assumes contents_empty: "contents empty = []"
    and contents_back: "invar q \<Longrightarrow> contents (enq_back q x) = contents q @ [x]"
    and contents_front: "invar q \<Longrightarrow> contents (enq_front q x) = x # contents q"
    and is_empty_iff: "invar q \<Longrightarrow> is_empty q \<longleftrightarrow> contents q = []"
    and deq_contents: "invar q \<Longrightarrow> contents q = x # xs \<Longrightarrow>
      fst (deq_front q) = x \<and> contents (snd (deq_front q)) = xs"
    and invar_empty: "invar empty"
    and invar_back: "invar q \<Longrightarrow> invar (enq_back q x)"
    and invar_front: "invar q \<Longrightarrow> invar (enq_front q x)"
    and invar_deq: "invar q \<Longrightarrow> invar (snd (deq_front q))"
begin

lemma fold_back:
  assumes "invar q"
  shows "contents (fold (\<lambda>x q. enq_back q x) xs q) = contents q @ xs"
    and "invar (fold (\<lambda>x q. enq_back q x) xs q)"
proof -
  have "contents (fold (\<lambda>x q. enq_back q x) xs q) = contents q @ xs
      \<and> invar (fold (\<lambda>x q. enq_back q x) xs q)"
    using assms by (induction xs arbitrary: q) (simp_all add: contents_back invar_back)
  then show "contents (fold (\<lambda>x q. enq_back q x) xs q) = contents q @ xs"
    and "invar (fold (\<lambda>x q. enq_back q x) xs q)" by simp_all
qed

primrec drain :: "nat \<Rightarrow> 'q \<Rightarrow> 'a list \<times> 'q" where
  "drain 0 q = ([], q)"
| "drain (Suc n) q = (let (x, q') = deq_front q; (xs, q'') = drain n q' in (x # xs, q''))"

lemma drain_contents:
  "invar q \<Longrightarrow> contents q = xs @ ys \<Longrightarrow>
    fst (drain (length xs) q) = xs \<and> contents (snd (drain (length xs) q)) = ys"
proof (induction xs arbitrary: q)
  case Nil
  then show ?case by simp
next
  case (Cons x xs)
  obtain y q' where d: "deq_front q = (y, q')" by fastforce
  with Cons.prems deq_contents [of q x "xs @ ys"] invar_deq [of q]
  have "y = x" "contents q' = xs @ ys" "invar q'" by simp_all
  with Cons.IH [of q'] d show ?case by (auto simp: split_beta)
qed

lemma fifo_order:
  assumes "invar q" "is_empty q"
  shows "fst (drain (length xs) (fold (\<lambda>x q. enq_back q x) xs q)) = xs"
  using drain_contents [of "fold (\<lambda>x q. enq_back q x) xs q" xs "[]"] fold_back [of q xs]
    assms is_empty_iff by simp

lemma lifo_next:
  assumes "invar q"
  shows "fst (deq_front (enq_front q x)) = x"
    and "contents (snd (deq_front (enq_front q x))) = contents q"
  using deq_contents [of "enq_front q x" x "contents q"] assms
  by (simp_all add: contents_front invar_front)

end

section \<open>The circular buffer\<close>

text \<open>
  \<open>deq_struct\<close>: the slots between \<open>bgn\<close> and \<open>end\<close> are the list \<open>buf\<close>, the pointers
  \<open>head\<close> and \<open>tail\<close> are offsets from \<open>bgn\<close>, and \<open>in_space\<close> tells whether \<open>bgn\<close> is
  the embedded array \<open>space\<close> (which is not freed). Slots that hold no message have
  unspecified contents in C; the model fills fresh slots with null.
\<close>

record 'm deq =
  buf :: "'m ptr list"
  head :: nat
  tail :: nat
  in_space :: bool

definition CqsDeqInit :: "'m deq" where
  "CqsDeqInit = \<lparr>buf = replicate 4 None, head = 0, tail = 0, in_space = True\<rparr>"

text \<open>
  The allocator aborts the program when the new vector has more bytes than an \<open>int\<close> counts, that is when \<open>2 ^ 27\<close> entries or
  more are doubled; what follows describes the expansions that succeed.
\<close>

definition CqsDeqExpand :: "'m deq \<Rightarrow> 'm deq" where
  "CqsDeqExpand d =
    (let oldsize = length (buf d);
         rsize = oldsize - head d;
         lsize = head d;
         newsize = oldsize * 2
     in d\<lparr>buf := take rsize (drop (head d) (buf d)) @ take lsize (buf d)
              @ replicate (newsize - rsize - lsize) None,
          head := 0, tail := oldsize, in_space := False\<rparr>)"

definition CqsDeqEnqueueFifo :: "'m deq \<Rightarrow> 'm ptr \<Rightarrow> 'm deq" where
  "CqsDeqEnqueueFifo d data =
    (let b = (buf d)[tail d := data];
         t = Suc (tail d);
         t = (if t = length (buf d) then 0 else t);
         d' = d\<lparr>buf := b, tail := t\<rparr>
     in if t = head d then CqsDeqExpand d' else d')"

definition CqsDeqEnqueueLifo :: "'m deq \<Rightarrow> 'm ptr \<Rightarrow> 'm deq" where
  "CqsDeqEnqueueLifo d data =
    (let h = (if head d = 0 then length (buf d) else head d);
         h = h - 1;
         d' = d\<lparr>buf := (buf d)[h := data], head := h\<rparr>
     in if h = tail d then CqsDeqExpand d' else d')"

definition CqsDeqDequeue :: "'m deq \<Rightarrow> 'm ptr \<times> 'm deq" where
  "CqsDeqDequeue d =
    (if head d = tail d then (None, d)
     else let data = buf d ! head d;
              h = Suc (head d);
              h = (if h = length (buf d) then 0 else h)
          in (data, d\<lparr>head := h\<rparr>))"

text \<open>The test \<open>head == tail\<close> that the callers make.\<close>

definition deq_is_empty :: "'m deq \<Rightarrow> bool" where
  "deq_is_empty d \<longleftrightarrow> head d = tail d"

text \<open>
  The two walks from \<open>head\<close> to \<open>tail\<close>: one collects the entries, one looks for a
  pointer. The second argument is the number of slots, so the walk returns in at most
  that many steps.
\<close>

fun deq_walk :: "'m deq \<Rightarrow> nat \<Rightarrow> nat \<Rightarrow> 'm ptr list" where
  "deq_walk d 0 h = []"
| "deq_walk d (Suc n) h =
    (if h = tail d then []
     else buf d ! h # deq_walk d n (if Suc h = length (buf d) then 0 else Suc h))"

definition CqsEnumerateDeq :: "'m deq \<Rightarrow> 'm ptr list \<times> nat" where
  "CqsEnumerateDeq d =
    (let result = deq_walk d (length (buf d)) (head d) in (result, length result))"

fun deq_find :: "'m deq \<Rightarrow> nat \<Rightarrow> nat \<Rightarrow> 'm ptr \<Rightarrow> nat option" where
  "deq_find d 0 h p = None"
| "deq_find d (Suc n) h p =
    (if h = tail d then None
     else if buf d ! h = p then Some h
     else deq_find d n (if Suc h = length (buf d) then 0 else Suc h) p)"

text \<open>The store that would null the entry is commented out in the source.\<close>

definition CqsRemoveSpecificDeq :: "'m deq \<Rightarrow> 'm ptr \<Rightarrow> nat" where
  "CqsRemoveSpecificDeq d p =
    (case deq_find d (length (buf d)) (head d) p of None \<Rightarrow> 0 | Some _ \<Rightarrow> 1)"

section \<open>Invariant and list view\<close>

definition deq_inv :: "'m deq \<Rightarrow> bool" where
  "deq_inv d \<longleftrightarrow> 1 < length (buf d) \<and> head d < length (buf d) \<and> tail d < length (buf d)"

definition deq_list :: "'m deq \<Rightarrow> 'm ptr list" where
  "deq_list d =
    (if head d \<le> tail d then drop (head d) (take (tail d) (buf d))
     else drop (head d) (buf d) @ take (tail d) (buf d))"

lemmas deq_op_defs = CqsDeqInit_def CqsDeqEnqueueFifo_def CqsDeqEnqueueLifo_def
  CqsDeqDequeue_def deq_is_empty_def deq_inv_def Let_def

lemma deq_inv_init [simp]: "deq_inv CqsDeqInit"
  by (simp add: deq_op_defs)

lemma deq_list_init [simp]: "deq_list CqsDeqInit = []"
  by (simp add: deq_op_defs deq_list_def)

text \<open>
  Expansion is called when the slot just written made head and tail meet: the buffer then
  holds \<open>length\<close> messages, which the list view of that transient state cannot show.
\<close>

lemma deq_expand:
  assumes "1 < length (buf d)" "head d < length (buf d)"
  shows "deq_inv (CqsDeqExpand d)"
    and "deq_list (CqsDeqExpand d) = drop (head d) (buf d) @ take (head d) (buf d)"
  using assms by (auto simp: CqsDeqExpand_def deq_inv_def deq_list_def Let_def)

lemma deq_inv_fifo [simp]: "deq_inv d \<Longrightarrow> deq_inv (CqsDeqEnqueueFifo d x)"
  by (auto simp: CqsDeqEnqueueFifo_def Let_def intro!: deq_expand(1)) (auto simp: deq_inv_def)

lemma deq_inv_lifo [simp]: "deq_inv d \<Longrightarrow> deq_inv (CqsDeqEnqueueLifo d x)"
  by (auto simp: CqsDeqEnqueueLifo_def Let_def intro!: deq_expand(1)) (auto simp: deq_inv_def)

lemma deq_inv_dequeue [simp]: "deq_inv d \<Longrightarrow> deq_inv (snd (CqsDeqDequeue d))"
  by (auto simp: deq_op_defs)

lemma deq_list_fifo:
  assumes "deq_inv d"
  shows "deq_list (CqsDeqEnqueueFifo d x) = deq_list d @ [x]"
proof -
  let ?n = "length (buf d)" and ?b = "(buf d)[tail d := x]"
  let ?t = "if Suc (tail d) = ?n then 0 else Suc (tail d)"
  have bounds: "1 < ?n" "head d < ?n" "tail d < ?n" using assms by (auto simp: deq_inv_def)
  show ?thesis
  proof (cases "?t = head d")
    case True
    then have eq: "CqsDeqEnqueueFifo d x = CqsDeqExpand (d\<lparr>buf := ?b, tail := ?t\<rparr>)"
      by (simp add: CqsDeqEnqueueFifo_def Let_def)
    have "deq_list (CqsDeqEnqueueFifo d x) = drop (head d) ?b @ take (head d) ?b"
      unfolding eq using deq_expand(2) [of "d\<lparr>buf := ?b, tail := ?t\<rparr>"] bounds by simp
    also have "\<dots> = deq_list d @ [x]"
    proof (cases "Suc (tail d) = ?n")
      case True
      with \<open>?t = head d\<close> have h: "head d = 0" by simp
      have "?b = take (tail d) (buf d) @ [x]"
        using True bounds upd_conv_take_nth_drop [of "tail d" "buf d" x] by simp
      with h bounds show ?thesis by (simp add: deq_list_def)
    next
      case False
      with \<open>?t = head d\<close> have h: "head d = Suc (tail d)" by simp
      then show ?thesis using bounds by (simp add: deq_list_def take_Suc_snoc)
    qed
    finally show ?thesis .
  next
    case False
    then have eq: "CqsDeqEnqueueFifo d x = d\<lparr>buf := ?b, tail := ?t\<rparr>"
      by (simp add: CqsDeqEnqueueFifo_def Let_def)
    show ?thesis
    proof (cases "Suc (tail d) = ?n")
      case True
      with False have "head d \<noteq> 0" by simp
      moreover have "?b = take (tail d) (buf d) @ [x]"
        using True bounds upd_conv_take_nth_drop [of "tail d" "buf d" x] by simp
      ultimately show ?thesis using True bounds unfolding eq by (simp add: deq_list_def)
    next
      case False
      with \<open>?t \<noteq> head d\<close> show ?thesis
        using bounds unfolding eq by (auto simp: deq_list_def take_Suc_snoc)
    qed
  qed
qed

lemma deq_list_lifo:
  assumes "deq_inv d"
  shows "deq_list (CqsDeqEnqueueLifo d x) = x # deq_list d"
proof -
  let ?n = "length (buf d)"
  let ?h = "(if head d = 0 then ?n else head d) - 1"
  let ?b = "(buf d)[?h := x]"
  have bounds: "1 < ?n" "head d < ?n" "tail d < ?n" using assms by (auto simp: deq_inv_def)
  then have h: "?h < ?n" by auto
  have drop_h: "drop ?h ?b = x # drop (Suc ?h) (buf d)" using h by (rule drop_update_at)
  show ?thesis
  proof (cases "?h = tail d")
    case True
    then have eq: "CqsDeqEnqueueLifo d x = CqsDeqExpand (d\<lparr>buf := ?b, head := ?h\<rparr>)"
      by (simp add: CqsDeqEnqueueLifo_def Let_def)
    have "deq_list (CqsDeqEnqueueLifo d x) = drop ?h ?b @ take ?h ?b"
      unfolding eq using deq_expand(2) [of "d\<lparr>buf := ?b, head := ?h\<rparr>"] bounds h by simp
    also have "\<dots> = x # deq_list d"
    proof (cases "head d = 0")
      case h0: True
      with True have "Suc (tail d) = ?n" using bounds by simp
      with h0 True drop_h show ?thesis by (simp add: deq_list_def)
    next
      case h0: False
      with True have "head d = Suc (tail d)" by simp
      with True drop_h show ?thesis by (simp add: deq_list_def)
    qed
    finally show ?thesis .
  next
    case False
    then have eq: "CqsDeqEnqueueLifo d x = d\<lparr>buf := ?b, head := ?h\<rparr>"
      by (simp add: CqsDeqEnqueueLifo_def Let_def)
    show ?thesis
    proof (cases "head d = 0")
      case True
      then show ?thesis using False bounds drop_h unfolding eq by (auto simp: deq_list_def)
    next
      case h0: False
      show ?thesis
      proof (cases "head d \<le> tail d")
        case True
        with h0 have "drop ?h (take (tail d) ?b) = x # drop (head d) (take (tail d) (buf d))"
          using bounds by (simp add: drop_update_at take_update_swap)
        with True h0 show ?thesis unfolding eq by (auto simp: deq_list_def)
      next
        case nle: False
        with False h0 have "tail d < ?h" by auto
        then show ?thesis using nle h0 drop_h unfolding eq by (simp add: deq_list_def)
      qed
    qed
  qed
qed

lemma deq_list_empty_iff: "deq_inv d \<Longrightarrow> deq_list d = [] \<longleftrightarrow> deq_is_empty d"
  by (auto simp: deq_inv_def deq_list_def deq_is_empty_def)

lemma deq_list_dequeue:
  assumes "deq_inv d" "deq_list d = x # xs"
  shows "fst (CqsDeqDequeue d) = x" "deq_list (snd (CqsDeqDequeue d)) = xs"
proof -
  let ?n = "length (buf d)"
  have bounds: "1 < ?n" "head d < ?n" "tail d < ?n" using assms by (auto simp: deq_inv_def)
  have ne: "head d \<noteq> tail d"
    using assms deq_list_empty_iff [of d] by (simp add: deq_is_empty_def)
  have hd: "deq_list d = buf d ! head d #
     (if head d < tail d then drop (Suc (head d)) (take (tail d) (buf d))
      else drop (Suc (head d)) (buf d) @ take (tail d) (buf d))"
    using ne bounds by (auto simp: deq_list_def drop_nth_Cons)
  then show "fst (CqsDeqDequeue d) = x" using assms(2) ne by (simp add: CqsDeqDequeue_def Let_def)
  show "deq_list (snd (CqsDeqDequeue d)) = xs"
  proof (cases "Suc (head d) = ?n")
    case True
    then show ?thesis using hd assms(2) ne bounds
      by (auto simp: CqsDeqDequeue_def Let_def deq_list_def)
  next
    case False
    then show ?thesis using hd assms(2) ne bounds
      by (auto simp: CqsDeqDequeue_def Let_def deq_list_def split: if_splits)
  qed
qed

lemma deq_dequeue_empty: "deq_is_empty d \<Longrightarrow> CqsDeqDequeue d = (None, d)"
  by (simp add: CqsDeqDequeue_def deq_is_empty_def)

section \<open>The walks over the buffer\<close>

text \<open>Entry \<open>k\<close> of the list view sits \<open>k\<close> slots after the head, modulo the size.\<close>

definition deq_slot :: "'m deq \<Rightarrow> nat \<Rightarrow> nat" where
  "deq_slot d k = (head d + k) mod length (buf d)"

lemma length_deq_list:
  "deq_inv d \<Longrightarrow> length (deq_list d) =
    (if head d \<le> tail d then tail d - head d else length (buf d) - head d + tail d)"
  by (auto simp: deq_inv_def deq_list_def)

lemma deq_slot_wrap:
  assumes "deq_inv d" "k < length (deq_list d)"
  shows "deq_slot d k =
    (if head d + k < length (buf d) then head d + k else head d + k - length (buf d))"
  using assms length_deq_list [OF assms(1)]
  by (auto simp: deq_slot_def deq_inv_def le_mod_geq split: if_splits)

lemma deq_list_nth:
  assumes "deq_inv d" "k < length (deq_list d)"
  shows "deq_list d ! k = buf d ! deq_slot d k"
  using assms length_deq_list [OF assms(1)] deq_slot_wrap [OF assms]
  by (auto simp: deq_list_def deq_inv_def nth_append add.commute split: if_splits)

lemma deq_slot_inj:
  assumes "deq_inv d" "k < length (deq_list d)" "j < length (deq_list d)"
    "deq_slot d k = deq_slot d j"
  shows "k = j"
  using assms deq_slot_wrap [OF assms(1,2)] deq_slot_wrap [OF assms(1,3)]
    length_deq_list [OF assms(1)]
  by (auto simp: deq_inv_def split: if_splits)

lemma deq_list_update:
  assumes "deq_inv d" "k < length (deq_list d)"
  shows "deq_list (d\<lparr>buf := (buf d)[deq_slot d k := y]\<rparr>) = (deq_list d)[k := y]"
proof (rule nth_equalityI)
  let ?d = "d\<lparr>buf := (buf d)[deq_slot d k := y]\<rparr>"
  have inv: "deq_inv ?d" using assms(1) by (simp add: deq_inv_def)
  then show len: "length (deq_list ?d) = length ((deq_list d)[k := y])"
    using assms(1) by (simp add: length_deq_list)
  have slot: "deq_slot ?d j = deq_slot d j" for j by (simp add: deq_slot_def)
  have lt: "deq_slot d k < length (buf d)" using assms(1) by (auto simp: deq_slot_def deq_inv_def intro!: mod_less_divisor)
  fix j assume "j < length (deq_list ?d)"
  with inv len assms lt show "deq_list ?d ! j = (deq_list d)[k := y] ! j"
    using deq_slot_inj [OF assms(1), of k j]
    by (auto simp: deq_list_nth slot nth_list_update)
qed

text \<open>One step of either walk moves to the state a dequeue leaves.\<close>

lemma deq_walk_step:
  assumes "deq_inv (d\<lparr>head := h\<rparr>)" "h \<noteq> tail d"
  defines "h' \<equiv> (if Suc h = length (buf d) then 0 else Suc h)"
  shows "deq_inv (d\<lparr>head := h'\<rparr>)"
    and "deq_list (d\<lparr>head := h\<rparr>) = buf d ! h # deq_list (d\<lparr>head := h'\<rparr>)"
proof -
  let ?d = "d\<lparr>head := h\<rparr>"
  have d': "CqsDeqDequeue ?d = (buf d ! h, d\<lparr>head := h'\<rparr>)"
    using assms(2) by (simp add: CqsDeqDequeue_def h'_def)
  then show "deq_inv (d\<lparr>head := h'\<rparr>)" using deq_inv_dequeue [OF assms(1)] by simp
  have "deq_list ?d \<noteq> []" using assms(1,2) by (simp add: deq_list_empty_iff deq_is_empty_def)
  then obtain x xs where "deq_list ?d = x # xs" by (cases "deq_list ?d") auto
  with deq_list_dequeue [OF assms(1)] d'
  show "deq_list ?d = buf d ! h # deq_list (d\<lparr>head := h'\<rparr>)" by simp
qed

lemma deq_list_nil: "deq_list (d\<lparr>head := tail d\<rparr>) = []"
  by (simp add: deq_list_def)

lemma deq_walk_list:
  "deq_inv (d\<lparr>head := h\<rparr>) \<Longrightarrow> length (deq_list (d\<lparr>head := h\<rparr>)) \<le> n \<Longrightarrow>
    deq_walk d n h = deq_list (d\<lparr>head := h\<rparr>)"
proof (induction n arbitrary: h)
  case 0
  then show ?case by simp
next
  case (Suc n)
  show ?case
  proof (cases "h = tail d")
    case True
    then show ?thesis by (simp add: deq_list_nil)
  next
    case False
    from deq_walk_step [OF Suc.prems(1) False] Suc False show ?thesis by simp
  qed
qed

lemma length_deq_list_less: "deq_inv d \<Longrightarrow> length (deq_list d) < length (buf d)"
  by (auto simp: length_deq_list deq_inv_def)

lemma CqsEnumerateDeq_list:
  "deq_inv d \<Longrightarrow> CqsEnumerateDeq d = (deq_list d, length (deq_list d))"
  using deq_walk_list [of "head d" d "length (buf d)"] length_deq_list_less [of d]
  by (simp add: CqsEnumerateDeq_def Let_def)

lemma deq_find_None:
  "deq_inv (d\<lparr>head := h\<rparr>) \<Longrightarrow> length (deq_list (d\<lparr>head := h\<rparr>)) \<le> n \<Longrightarrow>
    deq_find d n h p = None \<longleftrightarrow> p \<notin> set (deq_list (d\<lparr>head := h\<rparr>))"
proof (induction n arbitrary: h)
  case 0
  then show ?case by simp
next
  case (Suc n)
  show ?case
  proof (cases "h = tail d")
    case True
    then show ?thesis by (simp add: deq_list_nil)
  next
    case False
    from deq_walk_step [OF Suc.prems(1) False] Suc False show ?thesis by auto
  qed
qed

text \<open>The slot found holds the first occurrence in queue order.\<close>

lemma deq_find_Some:
  "deq_inv (d\<lparr>head := h\<rparr>) \<Longrightarrow> deq_find d n h p = Some i \<Longrightarrow>
    \<exists>k < length (deq_list (d\<lparr>head := h\<rparr>)). i = deq_slot (d\<lparr>head := h\<rparr>) k
      \<and> deq_list (d\<lparr>head := h\<rparr>) ! k = p \<and> p \<notin> set (take k (deq_list (d\<lparr>head := h\<rparr>)))"
proof (induction n arbitrary: h)
  case 0
  then show ?case by simp
next
  case (Suc n)
  let ?h' = "if Suc h = length (buf d) then 0 else Suc h"
  have ne: "h \<noteq> tail d" using Suc.prems(2) by auto
  note step = deq_walk_step [OF Suc.prems(1) ne]
  have hlt: "h < length (buf d)" using Suc.prems(1) by (simp add: deq_inv_def)
  show ?case
  proof (cases "buf d ! h = p")
    case True
    with Suc.prems(2) ne have "i = h" by simp
    with step True hlt show ?thesis by (intro exI [of _ 0]) (simp add: deq_slot_def)
  next
    case False
    with Suc.prems(2) ne have "deq_find d n ?h' p = Some i" by simp
    from Suc.IH [OF step(1) this] obtain k where
      k: "k < length (deq_list (d\<lparr>head := ?h'\<rparr>))" "i = deq_slot (d\<lparr>head := ?h'\<rparr>) k"
        "deq_list (d\<lparr>head := ?h'\<rparr>) ! k = p" "p \<notin> set (take k (deq_list (d\<lparr>head := ?h'\<rparr>)))"
      by blast
    have "(?h' + k) mod length (buf d) = (h + Suc k) mod length (buf d)"
      using mod_add_left_eq [of "Suc h" "length (buf d)" k] by auto
    with k step(2) False show ?thesis
      by (intro exI [of _ "Suc k"]) (simp add: deq_slot_def)
  qed
qed

lemma CqsRemoveSpecificDeq_iff:
  "deq_inv d \<Longrightarrow> CqsRemoveSpecificDeq d p = (if p \<in> set (deq_list d) then 1 else 0)"
  using deq_find_None [of "head d" d "length (buf d)" p] length_deq_list_less [of d]
  by (auto simp: CqsRemoveSpecificDeq_def split: option.splits)

text \<open>A way of putting message \<open>x\<close> into a deque: \<open>ins\<close> says where it lands.\<close>

definition deq_put ::
  "('m deq \<Rightarrow> 'm ptr \<Rightarrow> 'm deq) \<Rightarrow> 'm ptr \<Rightarrow> ('m ptr list \<Rightarrow> 'm ptr list) \<Rightarrow> bool" where
  "deq_put put x ins \<longleftrightarrow> (\<forall>d. deq_inv d \<longrightarrow> deq_inv (put d x) \<and> deq_list (put d x) = ins (deq_list d))
    \<and> (\<forall>l. mset (ins l) = add_mset x (mset l))"

lemma deq_put_fifo: "deq_put CqsDeqEnqueueFifo x (\<lambda>l. l @ [x])"
  by (simp add: deq_put_def deq_list_fifo)

lemma deq_put_lifo: "deq_put CqsDeqEnqueueLifo x ((#) x)"
  by (simp add: deq_put_def deq_list_lifo)

interpretation cqs_deq: deque CqsDeqInit CqsDeqEnqueueFifo CqsDeqEnqueueLifo CqsDeqDequeue
  deq_is_empty deq_list deq_inv
  by unfold_locales
    (auto simp: deq_list_fifo deq_list_lifo deq_list_empty_iff deq_list_dequeue)

end
