(* ===== verification/Cqs_Prio.thy ===== *)
theory Cqs_Prio
  imports Charm_Prelude "HOL-Library.List_Lexorder"
begin

unbundle bit_operations_syntax

text \<open>
  Message priorities of \<^verbatim>\<open>src/conv-core/queueing.C\<close>: bit vectors of arbitrary length,
  compared word by word as unsigned integers, and the hash that spreads them over the
  bucket table.
\<close>

text \<open>\<open>prio_struct\<close>: \<open>bits\<close> and \<open>ints\<close> are unsigned shorts, \<open>data\<close> a trailing array.\<close>

record prio =
  bits :: u16
  ints :: u16
  pdata :: "u32 list"

fun CqsPrioGT_ints :: "nat \<Rightarrow> u32 list \<Rightarrow> nat \<Rightarrow> u32 list \<Rightarrow> bool" where
  "CqsPrioGT_ints ints1 data1 ints2 data2 =
    (if ints1 = 0 then False
     else if ints2 = 0 then True
     else if hd data1 < hd data2 then False
     else if hd data1 > hd data2 then True
     else CqsPrioGT_ints (ints1 - 1) (tl data1) (ints2 - 1) (tl data2))"

declare CqsPrioGT_ints.simps [simp del]

text \<open>The loop of \<open>CqsPrioGT\<close> is the one of \<open>CqsPrioGT_ints\<close> (\<open>CqsPrioGT_\<close> in the source), on the fields of two structs.\<close>

definition CqsPrioGT :: "prio \<Rightarrow> prio \<Rightarrow> bool" where
  "CqsPrioGT prio1 prio2 =
    CqsPrioGT_ints (unat (ints prio1)) (pdata prio1) (unat (ints prio2)) (pdata prio2)"

definition PRIOQ_TABSIZE :: nat where
  "PRIOQ_TABSIZE = 1017"

text \<open>
  \<open>hashval\<close>: the bit count and all words combined by exclusive or, without the sign bit,
  modulo the table size.
\<close>

definition prio_hash :: "u32 \<Rightarrow> u32 list \<Rightarrow> nat \<Rightarrow> nat" where
  "prio_hash b ws sz = unat (fold (\<lambda>w h. h XOR w) ws b AND 0x7FFFFFFF) mod sz"

text \<open>\<open>(priobits+CINTBITS-1)/CINTBITS\<close> in unsigned arithmetic.\<close>

definition prio_ints :: "u32 \<Rightarrow> nat" where
  "prio_ints priobits = unat ((priobits + 32 - 1) div 32)"

section \<open>The order of priorities\<close>

text \<open>The words that the comparison reads; lists are ordered lexicographically.\<close>

definition prio_key :: "prio \<Rightarrow> u32 list" where
  "prio_key p = take (unat (ints p)) (pdata p)"

definition prio_wf :: "prio \<Rightarrow> bool" where
  "prio_wf p \<longleftrightarrow> unat (ints p) \<le> length (pdata p)"

lemma CqsPrioGT_ints_lex:
  "n1 \<le> length d1 \<Longrightarrow> n2 \<le> length d2 \<Longrightarrow> CqsPrioGT_ints n1 d1 n2 d2 \<longleftrightarrow> take n2 d2 < take n1 d1"
proof (induction n1 d1 n2 d2 rule: CqsPrioGT_ints.induct)
  case (1 n1 d1 n2 d2)
  show ?case
  proof (cases "n1 = 0 \<or> n2 = 0")
    case True
    with "1.prems" show ?thesis
      by (subst CqsPrioGT_ints.simps) (cases d1; cases n1; auto)
  next
    case False
    then obtain m1 m2 where m: "n1 = Suc m1" "n2 = Suc m2" by (meson not0_implies_Suc)
    with "1.prems" obtain x xs y ys where d: "d1 = x # xs" "d2 = y # ys"
      by (cases d1; cases d2) auto
    show ?thesis
      using "1.IH" "1.prems" m d
      by (auto simp: CqsPrioGT_ints.simps [of "Suc m1" "x # xs" "Suc m2" "y # ys"])
  qed
qed

lemma CqsPrioGT_key:
  "prio_wf p \<Longrightarrow> prio_wf q \<Longrightarrow> CqsPrioGT p q \<longleftrightarrow> prio_key q < prio_key p"
  by (simp add: CqsPrioGT_def CqsPrioGT_ints_lex prio_key_def prio_wf_def)

lemma prio_hash_less: "0 < sz \<Longrightarrow> prio_hash b ws sz < sz"
  by (simp add: prio_hash_def)

lemma PRIOQ_TABSIZE_pos [simp]: "0 < PRIOQ_TABSIZE"
  by (simp add: PRIOQ_TABSIZE_def)

lemma prio_ints_32: "prio_ints 32 = 1"
  by (simp add: prio_ints_def)

lemma prio_ints_64: "prio_ints 64 = 2"
  by (simp add: prio_ints_def)

lemma prio_ints_less: "prio_ints b < 2 ^ 27"
proof -
  have "unat ((b + 32 - 1) div 32) = unat (b + 32 - 1) div 32"
    by (simp add: unat_div)
  moreover have "unat (b + 32 - 1) < 2 ^ 32" using unsigned_less [of "b + 32 - 1", where ?'a = nat] by simp
  ultimately show ?thesis by (simp add: prio_ints_def)
qed

lemma prio_ints_le: "prio_ints b \<le> (unat b + 31) div 32"
proof -
  have "unat ((b + 32 - 1) div 32) = unat (31 + b) div 32" by (simp add: unat_div)
  moreover have "unat (31 + b) \<le> 31 + unat b" by (simp add: unat_word_ariths)
  ultimately show ?thesis by (simp add: prio_ints_def div_le_mono add.commute)
qed

end
