(* ===== verification/Cqs_Hash.thy ===== *)
theory Cqs_Hash
  imports Cqs_Deq Cqs_Prio
begin

text \<open>
  The bucket table of a priority queue in \<^verbatim>\<open>src/conv-core/queueing.C\<close>: buckets are
  heap objects that the hash chains link in both directions (\<open>ht_next\<close> forward, \<open>ht_handle\<close>
  back to whatever pointer points here). The store is explicit: a map from addresses to
  buckets.
\<close>

type_synonym addr = nat

text \<open>
  \<open>ht_handle\<close> is the address of a bucket pointer: an entry of the table, or the \<open>ht_next\<close>
  field of another bucket.
\<close>

datatype ht_ref = HTab nat | HNext addr

record 'm prioqelt =
  elt_data :: "'m deq"
  ht_next :: "addr option"
  ht_handle :: ht_ref
  pri :: prio

type_synonym 'm elts = "addr \<rightharpoonup> 'm prioqelt"

definition upd_elt :: "addr \<Rightarrow> ('m prioqelt \<Rightarrow> 'm prioqelt) \<Rightarrow> 'm elts \<Rightarrow> 'm elts" where
  "upd_elt a f st = st(a := map_option f (st a))"

lemma upd_elt_same [simp]: "upd_elt a f st a = map_option f (st a)"
  by (simp add: upd_elt_def)

lemma upd_elt_other [simp]: "b \<noteq> a \<Longrightarrow> upd_elt a f st b = st b"
  by (simp add: upd_elt_def)

lemma dom_upd_elt [simp]: "dom (upd_elt a f st) = dom st"
  by (auto simp: upd_elt_def split: if_splits)

section \<open>Operations\<close>

text \<open>Insert bucket \<open>pe\<close> at the front of chain \<open>hashval\<close>.\<close>

definition ht_link :: "addr \<Rightarrow> nat \<Rightarrow> 'm elts \<times> addr option list \<Rightarrow> 'm elts \<times> addr option list"
where
  "ht_link pe hashval = (\<lambda>(st, tab).
    let next = tab ! hashval;
        st = upd_elt pe (\<lambda>e. e\<lparr>ht_next := next, ht_handle := HTab hashval\<rparr>) st;
        st = (case next of None \<Rightarrow> st
              | Some n \<Rightarrow> upd_elt n (\<lambda>e. e\<lparr>ht_handle := HNext pe\<rparr>) st)
    in (st, tab[hashval := Some pe]))"

text \<open>\<open>*handle = v\<close>\<close>

fun ht_store :: "ht_ref \<Rightarrow> addr option \<Rightarrow> 'm elts \<times> addr option list \<Rightarrow> 'm elts \<times> addr option list"
where
  "ht_store (HTab i) v (st, tab) = (st, tab[i := v])"
| "ht_store (HNext a) v (st, tab) = (upd_elt a (\<lambda>e. e\<lparr>ht_next := v\<rparr>) st, tab)"

text \<open>Take bucket \<open>pe\<close> out of its chain.\<close>

definition ht_unlink :: "addr \<Rightarrow> 'm elts \<times> addr option list \<Rightarrow> 'm elts \<times> addr option list" where
  "ht_unlink pe = (\<lambda>(st, tab).
    case st pe of None \<Rightarrow> (st, tab)
    | Some e \<Rightarrow>
        let next = ht_next e; handle = ht_handle e;
            st = (case next of None \<Rightarrow> st
                  | Some n \<Rightarrow> upd_elt n (\<lambda>e. e\<lparr>ht_handle := handle\<rparr>) st)
        in ht_store handle next (st, tab))"

text \<open>
  Walk a chain until a bucket matches. The first argument bounds the steps; chains of a
  well-formed table are shorter than the bound the callers give.
\<close>

fun ht_scan :: "nat \<Rightarrow> 'm elts \<Rightarrow> (prio \<Rightarrow> bool) \<Rightarrow> addr option \<Rightarrow> addr option" where
  "ht_scan n st m None = None"
| "ht_scan 0 st m (Some a) = None"
| "ht_scan (Suc n) st m (Some a) =
    (case st a of None \<Rightarrow> None
     | Some e \<Rightarrow> if m (pri e) then Some a else ht_scan n st m (ht_next e))"

text \<open>Move every bucket of one old chain into the new table.\<close>

fun rehash_chain ::
  "nat \<Rightarrow> nat \<Rightarrow> addr option \<Rightarrow> 'm elts \<times> addr option list \<Rightarrow> 'm elts \<times> addr option list"
where
  "rehash_chain n sz None t = t"
| "rehash_chain 0 sz (Some pe) t = t"
| "rehash_chain (Suc n) sz (Some pe) t =
    (case fst t pe of None \<Rightarrow> t
     | Some e \<Rightarrow>
        rehash_chain n sz (ht_next e)
          (ht_link pe (prio_hash (ucast (bits (pri e))) (prio_key (pri e)) sz) t))"

section \<open>Well-formed tables\<close>

fun chain :: "'m elts \<Rightarrow> ht_ref \<Rightarrow> addr option \<Rightarrow> addr list \<Rightarrow> bool" where
  "chain st r p [] \<longleftrightarrow> p = None"
| "chain st r p (a # as) \<longleftrightarrow> p = Some a \<and>
    (case st a of None \<Rightarrow> False
     | Some e \<Rightarrow> ht_handle e = r \<and> chain st (HNext a) (ht_next e) as)"

definition chains :: "'m elts \<Rightarrow> addr option list \<Rightarrow> addr list list \<Rightarrow> bool" where
  "chains st tab cs \<longleftrightarrow> length cs = length tab \<and> distinct (concat cs) \<and>
    (\<forall>i < length tab. chain st (HTab i) (tab ! i) (cs ! i))"

definition links :: "'m prioqelt \<Rightarrow> addr option \<times> ht_ref" where
  "links e = (ht_next e, ht_handle e)"

lemma chain_cong:
  assumes "chain st r p as" "\<And>a. a \<in> set as \<Longrightarrow> map_option links (st' a) = map_option links (st a)"
  shows "chain st' r p as"
  using assms
proof (induction as arbitrary: r p)
  case Nil
  then show ?case by simp
next
  case (Cons a as)
  from Cons.prems(1) obtain e where e: "st a = Some e" by (auto split: option.splits)
  with Cons.prems(2) [of a] obtain e' where e': "st' a = Some e'" "links e' = links e" by auto
  with Cons e show ?case by (auto simp: links_def)
qed

lemma chain_dom: "chain st r p as \<Longrightarrow> set as \<subseteq> dom st"
  by (induction as arbitrary: r p) (auto split: option.splits)

lemma chains_dom: "chains st tab cs \<Longrightarrow> set (concat cs) \<subseteq> dom st"
  using chain_dom by (fastforce simp: chains_def in_set_conv_nth)

lemma mset_concat_update:
  "i < length cs \<Longrightarrow> mset (concat (cs[i := xs])) + mset (cs ! i) = mset (concat cs) + mset xs"
proof (induction cs arbitrary: i)
  case Nil
  then show ?case by simp
next
  case (Cons c cs)
  then show ?case by (cases i) (auto simp: algebra_simps)
qed

lemma concat_disjoint_less:
  assumes "distinct (concat cs)" "i < j" "j < length cs"
  shows "set (cs ! i) \<inter> set (cs ! j) = {}"
proof -
  have "cs = take j cs @ cs ! j # drop (Suc j) cs"
    using assms(3) by (rule id_take_nth_drop)
  then have "concat cs = concat (take j cs) @ cs ! j @ concat (drop (Suc j) cs)"
    by (metis concat.simps(2) concat_append)
  with assms(1) have "set (concat (take j cs)) \<inter> set (cs ! j) = {}" by auto
  moreover have "cs ! i \<in> set (take j cs)"
    using assms(2,3) by (auto simp: in_set_conv_nth intro!: exI [of _ i])
  ultimately show ?thesis by auto
qed

lemma concat_disjoint:
  assumes "distinct (concat cs)" "i < length cs" "j < length cs" "i \<noteq> j"
  shows "set (cs ! i) \<inter> set (cs ! j) = {}"
  using assms concat_disjoint_less [of cs i j] concat_disjoint_less [of cs j i]
  by (cases "i < j") auto

lemma concat_notin_nth: "x \<notin> set (concat cs) \<Longrightarrow> i < length cs \<Longrightarrow> x \<notin> set (cs ! i)"
  by (auto dest: nth_mem)

lemma chain_handle:
  "chain st r (Some a) (a # as) \<Longrightarrow> \<exists>e. st a = Some e \<and> ht_handle e = r"
  by (auto split: option.splits)

section \<open>Linking\<close>

lemma ht_link_chains:
  assumes ok: "chains st tab cs" and hv: "hv < length tab"
    and pe: "pe \<notin> set (concat cs)" "pe \<in> dom st"
    and eq: "ht_link pe hv (st, tab) = (st', tab')"
  shows "chains st' tab' (cs[hv := pe # cs ! hv])"
proof -
  let ?next = "tab ! hv" and ?cs = "cs[hv := pe # cs ! hv]"
  let ?st1 = "upd_elt pe (\<lambda>e. e\<lparr>ht_next := ?next, ht_handle := HTab hv\<rparr>) st"
  have len: "length cs = length tab" and dist: "distinct (concat cs)"
    and ch: "\<And>i. i < length tab \<Longrightarrow> chain st (HTab i) (tab ! i) (cs ! i)"
    using ok by (auto simp: chains_def)
  have st': "st' = (case ?next of None \<Rightarrow> ?st1
      | Some n \<Rightarrow> upd_elt n (\<lambda>e. e\<lparr>ht_handle := HNext pe\<rparr>) ?st1)"
    and tab': "tab' = tab[hv := Some pe]"
    using eq by (simp_all add: ht_link_def Let_def)
  have next_in: "n \<in> set (cs ! hv)" "\<exists>as. cs ! hv = n # as" if "?next = Some n" for n
    using ch [OF hv] that by (cases "cs ! hv"; auto)+
  have next_ne: "?next \<noteq> Some pe"
    using next_in(1) concat_notin_nth [OF pe(1)] hv len by fastforce
  have same: "st' a = st a" if "a \<noteq> pe" "?next \<noteq> Some a" for a
    using that by (auto simp: st' split: option.splits)
  have chain_other: "chain st' (HTab i) (tab' ! i) (?cs ! i)" if i: "i < length tab" "i \<noteq> hv" for i
  proof -
    have "a \<noteq> pe \<and> ?next \<noteq> Some a" if "a \<in> set (cs ! i)" for a
      using that next_in(1) concat_disjoint [OF dist, of i hv] concat_notin_nth [OF pe(1), of i] i hv len
      by auto
    then have "chain st' (HTab i) (tab ! i) (cs ! i)"
      using chain_cong [OF ch [OF i(1)], of st'] same by auto
    with i show ?thesis by (simp add: tab')
  qed
  have rest: "chain st' (HNext pe) ?next (cs ! hv)"
  proof (cases "cs ! hv")
    case Nil
    with ch [OF hv] show ?thesis by simp
  next
    case (Cons n as)
    with ch [OF hv] obtain e where n: "?next = Some n" "st n = Some e"
      and rest: "chain st (HNext n) (ht_next e) as"
      by (auto split: option.splits)
    have "distinct (cs ! hv)" using dist hv len by (auto simp: distinct_concat_iff dest: nth_mem)
    with Cons have "n \<notin> set as" by simp
    have "pe \<notin> set as" using concat_notin_nth [OF pe(1), of hv] hv len Cons by simp
    have "chain st' (HNext n) (ht_next e) as"
    proof (rule chain_cong [OF rest])
      fix a assume "a \<in> set as"
      with \<open>n \<notin> set as\<close> \<open>pe \<notin> set as\<close> have "a \<noteq> pe" "?next \<noteq> Some a" using n(1) by auto
      then show "map_option links (st' a) = map_option links (st a)" by (simp add: same)
    qed
    moreover have "st' n = Some (e\<lparr>ht_handle := HNext pe\<rparr>)"
      using n next_ne by (auto simp: st')
    ultimately show ?thesis using Cons n(1) by simp
  qed
  have "\<exists>e. st' pe = Some e \<and> ht_next e = ?next \<and> ht_handle e = HTab hv"
    using pe(2) next_ne by (auto simp: st' split: option.splits)
  with rest have "chain st' (HTab hv) (tab' ! hv) (?cs ! hv)"
    using hv len by (auto simp: tab')
  with chain_other have all: "chain st' (HTab i) (tab' ! i) (?cs ! i)" if "i < length tab" for i
    using that by (cases "i = hv") auto
  have "mset (concat ?cs) = mset (pe # concat cs)"
    using mset_concat_update [of hv cs "pe # cs ! hv"] hv len by simp
  then have "distinct (concat ?cs)"
    using mset_eq_imp_distinct_iff [of "concat ?cs" "pe # concat cs"] pe(1) dist by simp
  with all len show ?thesis by (simp add: chains_def tab')
qed

lemma ht_link_length: "ht_link pe hv (st, tab) = (st', tab') \<Longrightarrow> length tab' = length tab"
  by (auto simp: ht_link_def Let_def)

text \<open>Linking and unlinking never touch the payload of a bucket.\<close>

definition payload :: "'m prioqelt \<Rightarrow> 'm deq \<times> prio" where
  "payload e = (elt_data e, pri e)"

lemma payload_links [simp]:
  "payload (e\<lparr>ht_next := n\<rparr>) = payload e" "payload (e\<lparr>ht_handle := r\<rparr>) = payload e"
  by (simp_all add: payload_def)

lemma upd_elt_payload:
  "(\<And>e. payload (f e) = payload e) \<Longrightarrow> map_option payload (upd_elt b f st a) = map_option payload (st a)"
  by (cases "a = b") (auto simp: option.map_comp comp_def)

lemma ht_link_payload:
  "ht_link pe hv (st, tab) = (st', tab') \<Longrightarrow> map_option payload (st' a) = map_option payload (st a)"
  by (auto simp: ht_link_def Let_def upd_elt_payload split: option.splits)

lemma ht_unlink_payload:
  assumes "ht_unlink pe (st, tab) = (st', tab')"
  shows "map_option payload (st' a) = map_option payload (st a)"
proof (cases "st pe")
  case None
  with assms show ?thesis by (simp add: ht_unlink_def)
next
  case (Some e)
  with assms show ?thesis
    by (cases "ht_handle e") (auto simp: ht_unlink_def Let_def upd_elt_payload split: option.splits)
qed

lemma payload_dom:
  assumes "\<And>a. map_option payload (st' a) = map_option payload (st a)"
  shows "dom st' = dom st"
proof -
  have "st' a = None \<longleftrightarrow> st a = None" for a using assms [of a] by (metis option.map_disc_iff)
  then show ?thesis by (auto simp: dom_def)
qed

lemma ht_link_dom: "ht_link pe hv (st, tab) = (st', tab') \<Longrightarrow> dom st' = dom st"
  by (rule payload_dom) (rule ht_link_payload)

lemma ht_unlink_dom: "ht_unlink pe (st, tab) = (st', tab') \<Longrightarrow> dom st' = dom st"
  by (rule payload_dom) (rule ht_unlink_payload)

section \<open>Unlinking\<close>

definition fix_next :: "'m prioqelt \<Rightarrow> 'm elts \<Rightarrow> 'm elts" where
  "fix_next e st = (case ht_next e of None \<Rightarrow> st
    | Some n \<Rightarrow> upd_elt n (\<lambda>x. x\<lparr>ht_handle := ht_handle e\<rparr>) st)"

lemma fix_next_other: "ht_next e \<noteq> Some b \<Longrightarrow> fix_next e st b = st b"
  by (auto simp: fix_next_def split: option.splits)

lemma unlink_first:
  assumes "chain st r p (a # ys)" "distinct (a # ys)" "st a = Some e"
  shows "ht_handle e = r" "chain (fix_next e st) r (ht_next e) ys"
proof -
  from assms show r: "ht_handle e = r" by simp
  from assms have c: "chain st (HNext a) (ht_next e) ys" by simp
  show "chain (fix_next e st) r (ht_next e) ys"
  proof (cases ys)
    case Nil
    with c show ?thesis by simp
  next
    case (Cons n zs)
    with c obtain f where n: "ht_next e = Some n" "st n = Some f"
      and f: "chain st (HNext n) (ht_next f) zs" by (auto split: option.splits)
    have "chain (fix_next e st) (HNext n) (ht_next f) zs"
    proof (rule chain_cong [OF f])
      fix b assume "b \<in> set zs"
      with assms(2) Cons n(1) have "ht_next e \<noteq> Some b" by auto
      then show "map_option links (fix_next e st b) = map_option links (st b)"
        by (simp add: fix_next_other)
    qed
    with n r Cons show ?thesis by (simp add: fix_next_def)
  qed
qed

lemma chain_first_in: "chain st r (Some n) as \<Longrightarrow> n \<in> set as"
  by (cases as) auto

lemma chain_append_next:
  "chain st r p (xs @ a # ys) \<Longrightarrow> st a = Some e \<Longrightarrow> ht_next e = Some n \<Longrightarrow> n \<in> set ys"
proof (induction xs arbitrary: r p)
  case Nil
  then show ?case using chain_first_in [of st "HNext a" n ys] by simp
next
  case (Cons x xs)
  then show ?case by (auto split: option.splits)
qed

lemma unlink_inner:
  assumes "chain st r p (xs @ a # ys)" "distinct (xs @ a # ys)" "st a = Some e" "xs \<noteq> []"
  shows "ht_handle e = HNext (last xs) \<and>
    chain (upd_elt (last xs) (\<lambda>x. x\<lparr>ht_next := ht_next e\<rparr>) (fix_next e st)) r p (xs @ ys)"
  using assms
proof (induction xs arbitrary: r p)
  case Nil
  then show ?case by simp
next
  case (Cons x xs)
  let ?st = "\<lambda>b. upd_elt b (\<lambda>x. x\<lparr>ht_next := ht_next e\<rparr>) (fix_next e st)"
  from Cons.prems(1) obtain ex where p: "p = Some x" and ex: "st x = Some ex" "ht_handle ex = r"
    and rest: "chain st (HNext x) (ht_next ex) (xs @ a # ys)"
    by (auto split: option.splits)
  have "ht_next e \<noteq> Some x"
    using chain_append_next [OF rest Cons.prems(3)] Cons.prems(2) by auto
  then have fx: "fix_next e st x = Some ex" by (simp add: fix_next_other ex)
  show ?case
  proof (cases "xs = []")
    case True
    with rest have first: "chain st (HNext x) (ht_next ex) (a # ys)" by simp
    note uf = unlink_first [OF first _ Cons.prems(3)]
    have "chain (?st x) (HNext x) (ht_next e) ys"
    proof (rule chain_cong [OF uf(2)])
      fix b assume "b \<in> set ys"
      with Cons.prems(2) have "b \<noteq> x" by auto
      then show "map_option links (?st x b) = map_option links (fix_next e st b)" by simp
    qed (use Cons.prems(2) in auto)
    with True p fx ex uf(1) Cons.prems(2) show ?thesis by simp
  next
    case False
    with Cons.IH [OF rest] Cons.prems have IH: "ht_handle e = HNext (last xs)"
      "chain (?st (last xs)) (HNext x) (ht_next ex) (xs @ ys)" by auto
    have "last xs \<noteq> x" using False Cons.prems(2) last_in_set [of xs] by auto
    with IH False p fx ex show ?thesis by simp
  qed
qed

lemma unlink_concat:
  assumes "i < length cs" "a \<in> set (cs ! i)"
  shows "mset (a # concat (cs[i := remove1 a (cs ! i)])) = mset (concat cs)"
proof -
  have "mset (concat (cs[i := remove1 a (cs ! i)])) + mset (cs ! i)
      = mset (concat cs) + mset (remove1 a (cs ! i))"
    using assms(1) by (rule mset_concat_update)
  moreover obtain M where "mset (remove1 a (cs ! i)) = M" "mset (cs ! i) = add_mset a M"
    using assms(2) by (metis in_multiset_in_set insert_DiffM mset_remove1)
  ultimately show ?thesis by simp
qed

lemma ht_unlink_chains:
  assumes ok: "chains st tab cs" and i: "i < length tab" and a: "a \<in> set (cs ! i)"
    and eq: "ht_unlink a (st, tab) = (st', tab')"
  shows "chains st' tab' (cs[i := remove1 a (cs ! i)])"
proof -
  let ?cs = "cs[i := remove1 a (cs ! i)]"
  have len: "length cs = length tab" and dist: "distinct (concat cs)"
    and ch: "\<And>j. j < length tab \<Longrightarrow> chain st (HTab j) (tab ! j) (cs ! j)"
    using ok by (auto simp: chains_def)
  have di: "distinct (cs ! i)" using dist i len by (auto simp: distinct_concat_iff dest: nth_mem)
  obtain xs ys where xs: "cs ! i = xs @ a # ys" "a \<notin> set xs"
    using split_list_first [OF a] by blast
  then have rem: "remove1 a (cs ! i) = xs @ ys" by (simp add: remove1_append)
  obtain e where e: "st a = Some e" using chain_dom [OF ch [OF i]] a by auto
  note chi = ch [OF i, unfolded xs(1)] and dxs = di [unfolded xs(1)]
  have next_in: "ht_next e = Some n \<Longrightarrow> n \<in> set (cs ! i)" for n
    using chain_append_next [OF chi e] xs(1) by simp
  have un: "ht_unlink a (st, tab) = ht_store (ht_handle e) (ht_next e) (fix_next e st, tab)"
    by (simp add: ht_unlink_def e fix_next_def Let_def)
  have main: "chain st' (HTab i) (tab' ! i) (xs @ ys)
      \<and> (\<forall>b. b \<notin> set (cs ! i) \<longrightarrow> st' b = st b) \<and> (\<forall>j. j \<noteq> i \<longrightarrow> tab' ! j = tab ! j)
      \<and> length tab' = length tab"
  proof (cases "xs = []")
    case True
    with chi have "chain st (HTab i) (tab ! i) (a # ys)" by simp
    note uf = unlink_first [OF this _ e]
    from True dxs have "distinct (a # ys)" by simp
    with uf un eq have "st' = fix_next e st" "tab' = tab[i := ht_next e]" by auto
    moreover have "fix_next e st b = st b" if "b \<notin> set (cs ! i)" for b
      using that next_in by (intro fix_next_other) auto
    ultimately show ?thesis using uf(2) [OF \<open>distinct (a # ys)\<close>] True i by simp
  next
    case False
    note ui = unlink_inner [OF chi dxs e False]
    then have "st' = upd_elt (last xs) (\<lambda>x. x\<lparr>ht_next := ht_next e\<rparr>) (fix_next e st)" "tab' = tab"
      using un eq by auto
    moreover have "upd_elt (last xs) f (fix_next e st) b = st b" if "b \<notin> set (cs ! i)" for b f
    proof -
      have "b \<noteq> last xs" using that False xs(1) by auto
      moreover have "ht_next e \<noteq> Some b" using that next_in by auto
      ultimately show ?thesis by (simp add: fix_next_other)
    qed
    ultimately show ?thesis using ui by simp
  qed
  have all: "chain st' (HTab j) (tab' ! j) (?cs ! j)" if j: "j < length tab" for j
  proof (cases "j = i")
    case True
    with main rem i len show ?thesis by simp
  next
    case False
    have "chain st' (HTab j) (tab ! j) (cs ! j)"
    proof (rule chain_cong [OF ch [OF j]])
      fix b assume "b \<in> set (cs ! j)"
      with concat_disjoint [OF dist, of i j] i j len False have "b \<notin> set (cs ! i)" by auto
      with main show "map_option links (st' b) = map_option links (st b)" by simp
    qed
    with main False show ?thesis by simp
  qed
  have "mset (a # concat ?cs) = mset (concat cs)"
    by (rule unlink_concat [OF _ a]) (use i len in simp)
  then have "distinct (a # concat ?cs)" using dist mset_eq_imp_distinct_iff by blast
  with all main len show ?thesis by (simp add: chains_def)
qed

section \<open>Scanning\<close>

lemma ht_scan_find:
  "chain st r p as \<Longrightarrow> length as \<le> n \<Longrightarrow> ht_scan n st m p = find (\<lambda>a. m (pri (the (st a)))) as"
proof (induction as arbitrary: r p n)
  case Nil
  then show ?case by simp
next
  case (Cons a as)
  then obtain k where "n = Suc k" by (cases n) auto
  with Cons show ?case by (auto split: option.splits)
qed

lemma distinct_less_length: "distinct as \<Longrightarrow> (\<And>a. a \<in> set as \<Longrightarrow> a < n) \<Longrightarrow> length as \<le> n"
  using card_mono [of "{..<n}" "set as"] by (auto simp: distinct_card)

section \<open>Rehashing\<close>

text \<open>The chain a bucket belongs to in a table of size \<open>sz\<close>.\<close>

definition home :: "prio \<Rightarrow> nat \<Rightarrow> nat" where
  "home p sz = prio_hash (ucast (bits p)) (prio_key p) sz"

definition placed :: "'m elts \<Rightarrow> nat \<Rightarrow> addr list list \<Rightarrow> bool" where
  "placed st sz cs \<longleftrightarrow>
    (\<forall>i < length cs. \<forall>a \<in> set (cs ! i). \<forall>e. st a = Some e \<longrightarrow> home (pri e) sz = i)"

lemma placed_payload:
  assumes "placed st sz cs" "\<And>a. map_option payload (st' a) = map_option payload (st a)"
  shows "placed st' sz cs"
  unfolding placed_def
proof (intro allI impI ballI)
  fix i a e assume i: "i < length cs" "a \<in> set (cs ! i)" and e: "st' a = Some e"
  with assms(2) [of a] obtain f where "st a = Some f" "payload f = payload e"
    by (cases "st a") auto
  moreover from assms(1) i \<open>st a = Some f\<close> have "home (pri f) sz = i" by (simp add: placed_def)
  ultimately show "home (pri e) sz = i" by (simp add: payload_def)
qed

lemma placed_link:
  assumes "placed st sz cs" "st pe = Some e" "home (pri e) sz = hv" "hv < length cs"
  shows "placed st sz (cs[hv := pe # cs ! hv])"
  using assms by (auto simp: placed_def nth_list_update split: if_splits)

lemma rehash_chain_ok:
  assumes "chain st r p as" "distinct as" "length as \<le> n"
    and "chains st tab cs" "placed st sz cs" "length tab = sz" "0 < sz"
    and "set as \<inter> set (concat cs) = {}"
    and "rehash_chain n sz p (st, tab) = (st', tab')"
  shows "\<exists>cs'. chains st' tab' cs' \<and> placed st' sz cs' \<and> length tab' = sz
      \<and> set (concat cs') = set (concat cs) \<union> set as
      \<and> (\<forall>b. b \<notin> set as \<and> b \<notin> set (concat cs) \<longrightarrow> st' b = st b)
      \<and> (\<forall>b. map_option payload (st' b) = map_option payload (st b))"
  using assms
proof (induction as arbitrary: r p n st tab cs)
  case Nil
  then show ?case by auto
next
  case (Cons a as)
  obtain k where n: "n = Suc k" using Cons.prems(3) by (cases n) auto
  obtain e where p: "p = Some a" and e: "st a = Some e"
    and rest: "chain st (HNext a) (ht_next e) as"
    using Cons.prems(1) by (auto split: option.splits)
  let ?hv = "home (pri e) sz"
  obtain st1 tab1 where l: "ht_link a ?hv (st, tab) = (st1, tab1)" by fastforce
  have hv: "?hv < length tab" using Cons.prems(6,7) by (simp add: home_def prio_hash_less)
  have len: "length cs = length tab" using Cons.prems(4) by (simp add: chains_def)
  have a: "a \<notin> set (concat cs)" "a \<in> dom st" using Cons.prems(8) e by auto
  let ?cs = "cs[?hv := a # cs ! ?hv]"
  have mcs: "mset (concat ?cs) = mset (a # concat cs)"
    using mset_concat_update [of ?hv cs "a # cs ! ?hv"] hv len by simp
  then have scs: "set (concat ?cs) = insert a (set (concat cs))"
    using mset_eq_setD [OF mcs] by simp
  have same: "st1 b = st b" if "b \<noteq> a" "b \<notin> set (concat cs)" for b
  proof -
    have "tab ! ?hv \<noteq> Some b"
    proof
      assume "tab ! ?hv = Some b"
      then have "b \<in> set (cs ! ?hv)"
        using Cons.prems(4) hv chain_first_in by (fastforce simp: chains_def)
      with that(2) concat_notin_nth hv len show False by metis
    qed
    with that(1) l show ?thesis
      by (auto simp: ht_link_def Let_def split: option.splits)
  qed
  have c1: "chains st1 tab1 ?cs"
    using ht_link_chains [OF Cons.prems(4) hv a l] .
  have p1: "placed st1 sz ?cs"
    using placed_payload [OF placed_link [OF Cons.prems(5) e refl] ht_link_payload [OF l]] hv len
    by simp
  have r1: "chain st1 (HNext a) (ht_next e) as"
  proof (rule chain_cong [OF rest])
    fix b assume "b \<in> set as"
    with Cons.prems(2,8) have "b \<noteq> a" "b \<notin> set (concat cs)" by auto
    then show "map_option links (st1 b) = map_option links (st b)" by (simp add: same)
  qed
  have step: "rehash_chain k sz (ht_next e) (st1, tab1) = (st', tab')"
    using Cons.prems(9) n p e l by (simp add: home_def)
  have "set as \<inter> set (concat ?cs) = {}" using scs Cons.prems(2,8) by auto
  from Cons.IH [OF r1 _ _ c1 p1 _ _ this step] Cons.prems n ht_link_length [OF l]
  obtain cs' where cs': "chains st' tab' cs'" "placed st' sz cs'" "length tab' = sz"
      "set (concat cs') = set (concat ?cs) \<union> set as"
      "\<And>b. b \<notin> set as \<Longrightarrow> b \<notin> set (concat ?cs) \<Longrightarrow> st' b = st1 b"
      "\<And>b. map_option payload (st' b) = map_option payload (st1 b)"
    by auto
  show ?case
  proof (intro exI [of _ cs'] conjI allI impI)
    show "set (concat cs') = set (concat cs) \<union> set (a # as)" using cs'(4) scs by auto
  next
    fix b assume b: "b \<notin> set (a # as) \<and> b \<notin> set (concat cs)"
    then have "b \<notin> set as" "b \<notin> set (concat ?cs)" unfolding scs by simp_all
    then have "st' b = st1 b" by (rule cs'(5))
    with b show "st' b = st b" by (simp add: same)
  next
    fix b
    show "map_option payload (st' b) = map_option payload (st b)"
      using cs'(6) ht_link_payload [OF l] by simp
  qed (use cs' in auto)
qed

text \<open>All chains of the old table, one after the other.\<close>

lemma rehash_chains_ok:
  assumes "length ps = length olds"
    and "\<And>i. i < length ps \<Longrightarrow> chain st (HTab (k + i)) (ps ! i) (olds ! i)"
    and "distinct (concat olds)" "\<And>c. c \<in> set olds \<Longrightarrow> length c \<le> n"
    and "chains st tab cs" "placed st sz cs" "length tab = sz" "0 < sz"
    and "set (concat olds) \<inter> set (concat cs) = {}"
    and "fold (rehash_chain n sz) ps (st, tab) = (st', tab')"
  shows "\<exists>cs'. chains st' tab' cs' \<and> placed st' sz cs' \<and> length tab' = sz
      \<and> set (concat cs') = set (concat cs) \<union> set (concat olds)
      \<and> (\<forall>b. map_option payload (st' b) = map_option payload (st b))"
  using assms
proof (induction ps arbitrary: olds st tab cs k)
  case Nil
  then show ?case by auto
next
  case (Cons p ps)
  obtain c olds' where ol: "olds = c # olds'" using Cons.prems(1) by (cases olds) auto
  obtain st1 tab1 where s1: "rehash_chain n sz p (st, tab) = (st1, tab1)" by fastforce
  have ch0: "chain st (HTab k) p c" using Cons.prems(2) [of 0] ol by simp
  have c: "distinct c" "length c \<le> n" "set c \<inter> set (concat cs) = {}"
    using Cons.prems(3,4,9) ol by auto
  from rehash_chain_ok [OF ch0 c(1,2) Cons.prems(5,6,7,8) c(3) s1] obtain cs1 where cs1: "chains st1 tab1 cs1" "placed st1 sz cs1" "length tab1 = sz"
      "set (concat cs1) = set (concat cs) \<union> set c"
      "\<And>b. b \<notin> set c \<Longrightarrow> b \<notin> set (concat cs) \<Longrightarrow> st1 b = st b"
      "\<And>b. map_option payload (st1 b) = map_option payload (st b)"
    by metis
  have rest: "chain st1 (HTab (Suc k + i)) (ps ! i) (olds' ! i)" if i: "i < length ps" for i
  proof (rule chain_cong)
    show "chain st (HTab (Suc k + i)) (ps ! i) (olds' ! i)"
      using Cons.prems(2) [of "Suc i"] i ol by simp
    fix b assume b: "b \<in> set (olds' ! i)"
    moreover have "i < length olds'" using i ol Cons.prems(1) by simp
    ultimately have "b \<in> set (concat olds')" by (auto dest: nth_mem)
    with Cons.prems(3,9) ol have "b \<notin> set c" "b \<notin> set (concat cs)" by auto
    then show "map_option links (st1 b) = map_option links (st b)" by (simp add: cs1(5))
  qed
  have "set (concat olds') \<inter> set (concat cs1) = {}"
    using cs1(4) Cons.prems(3,9) ol by auto
  moreover have "length ps = length olds'" "distinct (concat olds')"
    "\<And>c. c \<in> set olds' \<Longrightarrow> length c \<le> n" "fold (rehash_chain n sz) ps (st1, tab1) = (st', tab')"
    using Cons.prems(1,3,4,10) ol s1 by simp_all
  ultimately obtain cs' where "chains st' tab' cs'" "placed st' sz cs'" "length tab' = sz"
      "set (concat cs') = set (concat cs1) \<union> set (concat olds')"
      "\<And>b. map_option payload (st' b) = map_option payload (st1 b)"
    using Cons.IH [OF _ rest _ _ cs1(1,2,3) Cons.prems(8)] by metis
  then show ?case using cs1(4,6) ol by (intro exI [of _ cs']) auto
qed

end
