(* ===== verification/Array_Heap.thy ===== *)
theory Array_Heap
  imports Charm_Prelude
begin

text \<open>
  Binary heaps stored in an array, as the scheduler queue, the timer callbacks and the load
  balancers keep them. The locale fixes the index arithmetic (first index \<open>lo\<close>, \<open>parent\<close>)
  and a total preorder on the entries; it provides the steps of sifting up and down as
  swaps of a list, so that each component only relates its own loop to these steps.
\<close>

definition swap :: "'a list \<Rightarrow> nat \<Rightarrow> nat \<Rightarrow> 'a list" where
  "swap h i j = h[i := h ! j, j := h ! i]"

lemma length_swap [simp]: "length (swap h i j) = length h"
  by (simp add: swap_def)

lemma nth_swap:
  "i < length h \<Longrightarrow> j < length h \<Longrightarrow>
    swap h i j ! k = (if k = i then h ! j else if k = j then h ! i else h ! k)"
  by (auto simp: swap_def nth_list_update)

text \<open>The occupied part of the array, between the first index and the next free one.\<close>

definition slice :: "nat \<Rightarrow> nat \<Rightarrow> 'a list \<Rightarrow> 'a list" where
  "slice lo hi h = drop lo (take hi h)"

lemma length_slice [simp]: "length (slice lo hi h) = min hi (length h) - lo"
  by (simp add: slice_def)

lemma nth_slice: "lo + k < hi \<Longrightarrow> hi \<le> length h \<Longrightarrow> slice lo hi h ! k = h ! (lo + k)"
  by (simp add: slice_def)

lemma slice_map: "hi \<le> length h \<Longrightarrow> slice lo hi h = map ((!) h) [lo..<hi]"
  by (rule nth_equalityI) (auto simp: nth_slice)

lemma set_slice:
  "hi \<le> length h \<Longrightarrow> set (slice lo hi h) = {h ! i | i. lo \<le> i \<and> i < hi}"
proof (intro set_eqI iffI)
  fix x assume hi: "hi \<le> length h" and "x \<in> set (slice lo hi h)"
  then obtain k where "k < length (slice lo hi h)" "x = slice lo hi h ! k"
    by (auto simp: in_set_conv_nth)
  with hi show "x \<in> {h ! i | i. lo \<le> i \<and> i < hi}"
    by (intro CollectI exI [of _ "lo + k"]) (auto simp: nth_slice)
next
  fix x assume hi: "hi \<le> length h" and "x \<in> {h ! i | i. lo \<le> i \<and> i < hi}"
  then obtain i where "lo \<le> i" "i < hi" "x = h ! i" by auto
  with hi show "x \<in> set (slice lo hi h)"
    by (auto simp: in_set_conv_nth nth_slice intro!: exI [of _ "i - lo"])
qed

lemma nth_in_slice: "lo \<le> i \<Longrightarrow> i < hi \<Longrightarrow> hi \<le> length h \<Longrightarrow> h ! i \<in> set (slice lo hi h)"
  by (auto simp: set_slice)

lemma slice_update_in:
  "lo \<le> i \<Longrightarrow> i < hi \<Longrightarrow> slice lo hi (h[i := x]) = (slice lo hi h)[i - lo := x]"
  by (simp add: slice_def take_update_swap drop_update_swap)

lemma slice_update_out: "hi \<le> i \<Longrightarrow> slice lo hi (h[i := x]) = slice lo hi h"
  by (simp add: slice_def)

lemma slice_Suc: "lo \<le> hi \<Longrightarrow> hi < length h \<Longrightarrow> slice lo (Suc hi) h = slice lo hi h @ [h ! hi]"
  by (simp add: slice_def take_Suc_snoc)

lemma slice_empty [simp]: "slice lo lo h = []"
  by (simp add: slice_def)

lemma mset_slice_swap:
  assumes "lo \<le> i" "i < hi" "lo \<le> j" "j < hi" "hi \<le> length h"
  shows "mset (slice lo hi (swap h i j)) = mset (slice lo hi h)"
proof -
  have "slice lo hi (swap h i j)
      = (slice lo hi h)[i - lo := slice lo hi h ! (j - lo), j - lo := slice lo hi h ! (i - lo)]"
    using assms by (simp add: swap_def slice_update_in nth_slice)
  then show ?thesis using assms by (simp add: mset_swap_entries)
qed

locale array_heap =
  fixes lo :: nat
    and parent :: "nat \<Rightarrow> nat"
    and le :: "'a \<Rightarrow> 'a \<Rightarrow> bool"
  assumes parent_less: "lo < i \<Longrightarrow> parent i < i"
    and parent_ge: "lo < i \<Longrightarrow> lo \<le> parent i"
    and le_trans: "le x y \<Longrightarrow> le y z \<Longrightarrow> le x z"
    and le_total: "le x y \<or> le y x"
begin

lemma le_refl: "le x x"
  using le_total [of x x] by simp

definition heap_ok :: "'a list \<Rightarrow> nat \<Rightarrow> bool" where
  "heap_ok h hi \<longleftrightarrow> (\<forall>i. lo < i \<and> i < hi \<longrightarrow> le (h ! parent i) (h ! i))"

text \<open>The heap order holds but for the edge above \<open>p\<close>, or but for the edges below \<open>p\<close>.\<close>

definition up_ok :: "'a list \<Rightarrow> nat \<Rightarrow> nat \<Rightarrow> bool" where
  "up_ok h hi p \<longleftrightarrow>
    (\<forall>i. lo < i \<and> i < hi \<and> i \<noteq> p \<longrightarrow> le (h ! parent i) (h ! i)) \<and>
    (lo < p \<longrightarrow> (\<forall>c. lo < c \<and> c < hi \<and> parent c = p \<longrightarrow> le (h ! parent p) (h ! c)))"

definition down_ok :: "'a list \<Rightarrow> nat \<Rightarrow> nat \<Rightarrow> bool" where
  "down_ok h hi p \<longleftrightarrow>
    (\<forall>i. lo < i \<and> i < hi \<and> parent i \<noteq> p \<longrightarrow> le (h ! parent i) (h ! i)) \<and>
    (lo < p \<longrightarrow> (\<forall>c. lo < c \<and> c < hi \<and> parent c = p \<longrightarrow> le (h ! parent p) (h ! c)))"

lemma heap_root_le:
  assumes "heap_ok h hi" "lo \<le> i" "i < hi"
  shows "le (h ! lo) (h ! i)"
  using assms(2,3)
proof (induction i rule: less_induct)
  case (less i)
  show ?case
  proof (cases "i = lo")
    case True
    then show ?thesis by (simp add: le_refl)
  next
    case False
    with less.prems have i: "lo < i" by simp
    with less parent_less [OF i] parent_ge [OF i] have "le (h ! lo) (h ! parent i)" by simp
    moreover have "le (h ! parent i) (h ! i)" using assms(1) i less.prems by (simp add: heap_ok_def)
    ultimately show ?thesis by (rule le_trans)
  qed
qed

lemma up_done:
  assumes "up_ok h hi p" "p = lo \<or> le (h ! parent p) (h ! p)"
  shows "heap_ok h hi"
  unfolding heap_ok_def
proof (intro allI impI)
  fix i assume i: "lo < i \<and> i < hi"
  show "le (h ! parent i) (h ! i)"
    using assms i by (cases "i = p") (auto simp: up_ok_def)
qed

lemma up_step:
  assumes "up_ok h hi p" "lo < p" "p < hi" "hi \<le> length h" "le (h ! p) (h ! parent p)"
  shows "up_ok (swap h p (parent p)) hi (parent p)"
proof -
  let ?q = "parent p" and ?h = "swap h p (parent p)"
  have q: "?q < p" "lo \<le> ?q" using assms(2) parent_less parent_ge by auto
  have nth: "?h ! k = (if k = p then h ! ?q else if k = ?q then h ! p else h ! k)" for k
    using assms q by (intro nth_swap) auto
  have ok: "lo < i \<Longrightarrow> i < hi \<Longrightarrow> i \<noteq> p \<Longrightarrow> le (h ! parent i) (h ! i)" for i
    using assms(1) by (simp add: up_ok_def)
  have ch: "lo < c \<Longrightarrow> c < hi \<Longrightarrow> parent c = p \<Longrightarrow> le (h ! ?q) (h ! c)" for c
    using assms(1,2) by (simp add: up_ok_def)
  have "le (?h ! parent i) (?h ! i)" if i: "lo < i" "i < hi" "i \<noteq> ?q" for i
  proof (cases "i = p")
    case True
    then show ?thesis using assms(5) q by (simp add: nth)
  next
    case ip: False
    show ?thesis
    proof (cases "parent i = p")
      case True
      then show ?thesis using ch i ip by (simp add: nth)
    next
      case False
      then show ?thesis
        using ok [OF i(1,2) ip] ip i le_trans [OF assms(5)] by (auto simp: nth)
    qed
  qed
  moreover have "le (?h ! parent ?q) (?h ! c)"
    if "lo < ?q" and c: "lo < c" "c < hi" "parent c = ?q" for c
  proof -
    have pq: "parent ?q < ?q" "lo \<le> parent ?q" using that(1) parent_less parent_ge by auto
    have up: "le (h ! parent ?q) (h ! ?q)" using ok [of ?q] that(1) q assms(3) by simp
    show ?thesis
    proof (cases "c = p")
      case True
      then show ?thesis using up q pq by (simp add: nth)
    next
      case False
      have "le (h ! ?q) (h ! c)" using ok [OF c(1,2) False] c(3) by simp
      then have "le (h ! parent ?q) (h ! c)" using le_trans up by blast
      moreover have "c \<noteq> ?q" using parent_less [OF c(1)] c(3) by auto
      ultimately show ?thesis using False q pq by (simp add: nth)
    qed
  qed
  ultimately show ?thesis by (simp add: up_ok_def)
qed

lemma down_done:
  assumes "down_ok h hi p"
    and "\<And>c. lo < c \<Longrightarrow> c < hi \<Longrightarrow> parent c = p \<Longrightarrow> le (h ! p) (h ! c)"
  shows "heap_ok h hi"
  unfolding heap_ok_def
proof (intro allI impI)
  fix i assume i: "lo < i \<and> i < hi"
  show "le (h ! parent i) (h ! i)"
    using assms i by (cases "parent i = p") (auto simp: down_ok_def)
qed

lemma down_step:
  assumes "down_ok h hi p" "lo \<le> p" "hi \<le> length h"
    and c: "lo < c" "c < hi" "parent c = p" "le (h ! c) (h ! p)"
    and min: "\<And>c'. lo < c' \<Longrightarrow> c' < hi \<Longrightarrow> parent c' = p \<Longrightarrow> le (h ! c) (h ! c')"
  shows "down_ok (swap h p c) hi c"
proof -
  let ?h = "swap h p c"
  have p: "p < c" using parent_less [OF c(1)] c(3) by simp
  have nth: "?h ! k = (if k = p then h ! c else if k = c then h ! p else h ! k)" for k
    using assms p by (intro nth_swap) auto
  have ok: "lo < i \<Longrightarrow> i < hi \<Longrightarrow> parent i \<noteq> p \<Longrightarrow> le (h ! parent i) (h ! i)" for i
    using assms(1) by (simp add: down_ok_def)
  have up: "lo < p \<Longrightarrow> le (h ! parent p) (h ! c)"
    using assms(1) c by (simp add: down_ok_def)
  have "le (?h ! parent i) (?h ! i)" if i: "lo < i" "i < hi" "parent i \<noteq> c" for i
  proof (cases "i = p")
    case True
    then have "lo < p" using i by simp
    moreover have "parent p \<noteq> p" using parent_less [OF \<open>lo < p\<close>] by simp
    ultimately show ?thesis using up True i p by (simp add: nth)
  next
    case ip: False
    show ?thesis
    proof (cases "parent i = p")
      case True
      then show ?thesis using min [of i] i c ip by (auto simp: nth)
    next
      case False
      then show ?thesis using ok [OF i(1,2) False] ip i c by (auto simp: nth)
    qed
  qed
  moreover have "le (?h ! parent c) (?h ! d)"
    if d: "lo < d" "d < hi" "parent d = c" for d
  proof -
    have "le (h ! c) (h ! d)" using ok [OF d(1,2)] d(3) p by simp
    moreover have "d \<noteq> p" "d \<noteq> c" using parent_less [OF d(1)] d(3) p by auto
    ultimately show ?thesis using c(3) by (simp add: nth)
  qed
  ultimately show ?thesis by (simp add: down_ok_def)
qed

text \<open>Appending an entry, and replacing the root by the last entry.\<close>

lemma up_ok_append:
  assumes "heap_ok h hi" "lo \<le> hi" "hi < length h"
  shows "up_ok (h[hi := x]) (Suc hi) hi"
  unfolding up_ok_def
proof (intro conjI allI impI)
  fix i assume i: "lo < i \<and> i < Suc hi \<and> i \<noteq> hi"
  then have "parent i < i" using parent_less by simp
  with i assms show "le (h[hi := x] ! parent i) (h[hi := x] ! i)" by (simp add: heap_ok_def)
next
  fix c assume "lo < hi" and c: "lo < c \<and> c < Suc hi \<and> parent c = hi"
  then show "le (h[hi := x] ! parent hi) (h[hi := x] ! c)" using parent_less [of c] by simp
qed

lemma heap_ok_shrink: "heap_ok h hi \<Longrightarrow> hi' \<le> hi \<Longrightarrow> heap_ok h hi'"
  by (simp add: heap_ok_def)

lemma down_ok_root:
  assumes "heap_ok h hi" "lo < length h"
  shows "down_ok (h[lo := x]) hi lo"
  using assms parent_less by (auto simp: heap_ok_def down_ok_def nth_list_update)

end

section \<open>The two index schemes of the code\<close>

text \<open>Entries from index 1, children at \<open>2*i\<close> and \<open>2*i+1\<close>.\<close>

lemma parent1_iff: "(1::nat) < c \<Longrightarrow> c div 2 = p \<longleftrightarrow> c = 2 * p \<or> c = 2 * p + 1"
  by auto

text \<open>Entries from index 0, children at \<open>2*i+1\<close> and \<open>2*i+2\<close>.\<close>

lemma parent0_iff: "(0::nat) < c \<Longrightarrow> (c - 1) div 2 = p \<longleftrightarrow> c = 2 * p + 1 \<or> c = 2 * p + 2"
  by auto

end
