(* ===== verification/Cqs_Prioq.thy ===== *)
theory Cqs_Prioq
  imports Cqs_Hash Array_Heap
begin

text \<open>
  The priority queue of \<^verbatim>\<open>src/conv-core/queueing.C\<close>: one bucket (a deque) per priority,
  found through the hash table and ordered by a binary heap. The compile time variant
  \<^verbatim>\<open>FASTQ\<close> is off in the header, so the hash chains are the singly scanned lists of
  \<open>Cqs_Hash\<close>.
\<close>

section \<open>State and operations\<close>

text \<open>
  \<open>prioq_struct\<close>, together with the buckets it owns (\<open>elts\<close>) and the next address that
  the allocator hands out (\<open>brk\<close>; addresses are never reused). Entry 0 of \<open>heap\<close> is unused.
\<close>

record 'm prioq =
  heapsize :: nat
  heapnext :: nat
  heap :: "addr list"
  hashtab :: "addr option list"
  hash_key_size :: nat
  hash_entry_size :: nat
  elts :: "'m elts"
  brk :: addr

definition CqsPrioqInit :: "'m prioq" where
  "CqsPrioqInit = \<lparr>heapsize = 100, heapnext = 1, heap = replicate 100 0,
     hashtab = replicate PRIOQ_TABSIZE None, hash_key_size = PRIOQ_TABSIZE,
     hash_entry_size = 0, elts = Map.empty, brk = 0\<rparr>"

definition CqsPrioqExpand :: "'m prioq \<Rightarrow> 'm prioq" where
  "CqsPrioqExpand pq =
    (let oldsize = heapsize pq; newsize = oldsize * 2
     in pq\<lparr>heap := take oldsize (heap pq) @ replicate (newsize - oldsize) 0, heapsize := newsize\<rparr>)"

definition CqsPrioqRehash :: "'m prioq \<Rightarrow> 'm prioq" where
  "CqsPrioqRehash pq =
    (let newHsize = hash_key_size pq * 2;
         (st, nhashtab) = fold (rehash_chain (brk pq) newHsize) (hashtab pq)
           (elts pq, replicate newHsize None)
     in pq\<lparr>elts := st, hashtab := nhashtab, hash_key_size := newHsize\<rparr>)"

definition elt_pri :: "'m elts \<Rightarrow> addr \<Rightarrow> prio" where
  "elt_pri st a = pri (the (st a))"

text \<open>The loop that moves parents down until the place of the new bucket is found.\<close>

fun heap_up :: "(addr \<Rightarrow> prio) \<Rightarrow> addr \<Rightarrow> addr list \<Rightarrow> nat \<Rightarrow> addr list" where
  "heap_up P pe hp heappos =
    (if heappos > 1 then
       let parentpos = heappos div 2; parent = hp ! parentpos
       in if CqsPrioGT (P pe) (P parent) then hp[heappos := pe]
          else heap_up P pe (hp[heappos := parent]) parentpos
     else hp[heappos := pe])"

declare heap_up.simps [simp del]

text \<open>The loop that moves the smaller child up; \<open>heappos\<close> starts at 1.\<close>

function heap_down :: "(addr \<Rightarrow> prio) \<Rightarrow> addr \<Rightarrow> addr list \<Rightarrow> nat \<Rightarrow> nat \<Rightarrow> addr list" where
  "heap_down P pe hp next heappos =
    (let childpos1 = heappos * 2; childpos2 = childpos1 + 1 in
     if heappos = 0 \<or> childpos1 \<ge> next then hp[heappos := pe]
     else
       let childpos = (if childpos2 \<ge> next then childpos1
                       else if CqsPrioGT (P (hp ! childpos1)) (P (hp ! childpos2)) then childpos2
                       else childpos1);
           child = hp ! childpos
       in if CqsPrioGT (P child) (P pe) then hp[heappos := pe]
          else heap_down P pe (hp[heappos := child]) next childpos)"
  by pat_completeness auto
termination
  by (relation "measure (\<lambda>(P, pe, hp, next, pos). next - pos)")
    (auto simp: Let_def split: if_splits)

declare heap_down.simps [simp del]

definition prio_match :: "u32 \<Rightarrow> u32 list \<Rightarrow> prio \<Rightarrow> bool" where
  "prio_match priobits priodata p \<longleftrightarrow>
    priobits = ucast (bits p) \<and> take (length priodata) (pdata p) = priodata"

text \<open>Put a bucket that is already in the table into the heap.\<close>

definition prioq_heap_insert :: "addr \<Rightarrow> 'm prioq \<Rightarrow> 'm prioq" where
  "prioq_heap_insert pe pq =
    (let heappos = heapnext pq;
         pq = pq\<lparr>heapnext := heappos + 1\<rparr>;
         pq = (if heappos = heapsize pq then CqsPrioqExpand pq else pq)
     in pq\<lparr>heap := heap_up (elt_pri (elts pq)) pe (heap pq) heappos\<rparr>)"

text \<open>Allocate a bucket for a priority that is not in the table and link it in.\<close>

definition prioq_new_bucket :: "'m prioq \<Rightarrow> u32 \<Rightarrow> u32 list \<Rightarrow> addr \<times> 'm prioq" where
  "prioq_new_bucket pq priobits priodata =
    (let pe = brk pq;
         e = \<lparr>elt_data = CqsDeqInit, ht_next = None, ht_handle = HTab 0,
              pri = \<lparr>bits = ucast priobits, ints = of_nat (length priodata), pdata = priodata\<rparr>\<rparr>;
         hashval = prio_hash priobits priodata PRIOQ_TABSIZE;
         (st, tab) = ht_link pe hashval ((elts pq)(pe \<mapsto> e), hashtab pq);
         pq = pq\<lparr>elts := st, hashtab := tab, brk := pe + 1,
                 hash_entry_size := hash_entry_size pq + 1\<rparr>;
         pq = (if hash_entry_size pq > 2 * hash_key_size pq then CqsPrioqRehash pq else pq)
     in (pe, prioq_heap_insert pe pq))"

text \<open>
  \<open>CqsPrioqGetDeq\<close> returns the address of the bucket whose deque the C code returns a
  pointer to. The table index is computed with the constant \<open>PRIOQ_TABSIZE\<close>, also after
  a rehash.
\<close>

definition CqsPrioqGetDeq :: "'m prioq \<Rightarrow> u32 \<Rightarrow> u32 list \<Rightarrow> addr \<times> 'm prioq" where
  "CqsPrioqGetDeq pq priobits prioptr =
    (let priodata = take (prio_ints priobits) prioptr;
         hashval = prio_hash priobits priodata PRIOQ_TABSIZE
     in case ht_scan (brk pq) (elts pq) (prio_match priobits priodata) (hashtab pq ! hashval) of
          Some pe \<Rightarrow> (pe, pq)
        | None \<Rightarrow> prioq_new_bucket pq priobits priodata)"

text \<open>Enqueue through the pointer that \<open>CqsPrioqGetDeq\<close> returned.\<close>

definition prioq_enqueue ::
  "('m deq \<Rightarrow> 'm ptr \<Rightarrow> 'm deq) \<Rightarrow> 'm prioq \<Rightarrow> u32 \<Rightarrow> u32 list \<Rightarrow> 'm ptr \<Rightarrow> 'm prioq" where
  "prioq_enqueue put pq priobits prioptr data =
    (let (pe, pq) = CqsPrioqGetDeq pq priobits prioptr
     in pq\<lparr>elts := upd_elt pe (\<lambda>e. e\<lparr>elt_data := put (elt_data e) data\<rparr>) (elts pq)\<rparr>)"

text \<open>Unlink and free the bucket at the top of the heap once it is empty.\<close>

definition prioq_drop_top :: "'m prioq \<Rightarrow> 'm prioq" where
  "prioq_drop_top pq =
    (let old = heap pq ! 1;
         (st, tab) = ht_unlink old (elts pq, hashtab pq);
         next = heapnext pq - 1;
         pe = heap pq ! next;
         hp = heap_down (elt_pri st) pe (heap pq) next 1
     in pq\<lparr>elts := st(old := None), hashtab := tab, hash_entry_size := hash_entry_size pq - 1,
           heapnext := next, heap := hp\<rparr>)"

definition CqsPrioqDequeue :: "'m prioq \<Rightarrow> 'm ptr \<times> 'm prioq" where
  "CqsPrioqDequeue pq =
    (if heapnext pq = 1 then (None, pq)
     else
       let pe = heap pq ! 1;
           (data, d) = CqsDeqDequeue (elt_data (the (elts pq pe)));
           pq = pq\<lparr>elts := upd_elt pe (\<lambda>e. e\<lparr>elt_data := d\<rparr>) (elts pq)\<rparr>
       in (data, if deq_is_empty d then prioq_drop_top pq else pq))"

section \<open>The heap loops\<close>

interpretation pqh: array_heap "Suc 0" "\<lambda>i. i div 2" "\<lambda>a b. prio_key (P a) \<le> prio_key (P b)"
  for P :: "addr \<Rightarrow> prio"
  by unfold_locales auto

lemma swap_hole:
  "i \<noteq> j \<Longrightarrow> i < length hp \<Longrightarrow> j < length hp \<Longrightarrow>
    (hp[i := hp ! j])[j := x] = swap (hp[i := x]) i j"
  by (auto simp: swap_def list_eq_iff_nth_eq nth_list_update)

lemma heap_up_ok:
  assumes "1 \<le> pos" "pos < hi" "hi \<le> length hp" "pqh.up_ok P (hp[pos := pe]) hi pos"
    and "\<And>a. a \<in> set (slice (Suc 0) hi (hp[pos := pe])) \<Longrightarrow> prio_wf (P a)"
  shows "pqh.heap_ok P (heap_up P pe hp pos) hi \<and> length (heap_up P pe hp pos) = length hp
    \<and> mset (slice (Suc 0) hi (heap_up P pe hp pos)) = mset (slice (Suc 0) hi (hp[pos := pe]))"
  using assms
proof (induction P pe hp pos rule: heap_up.induct)
  case (1 P pe hp pos)
  let ?q = "pos div 2" and ?h = "hp[pos := pe]"
  show ?case
  proof (cases "pos > 1")
    case False
    with 1 have "pos = 1" by simp
    moreover have "heap_up P pe hp pos = ?h" using False by (simp add: heap_up.simps)
    ultimately show ?thesis using pqh.up_done [OF "1.prems"(4)] by simp
  next
    case True
    then have q: "1 \<le> ?q" "?q < pos" by auto
    have "?h ! pos \<in> set (slice (Suc 0) hi ?h)" "?h ! ?q \<in> set (slice (Suc 0) hi ?h)"
      using "1.prems"(2,3) True q by (intro nth_in_slice; simp)+
    with "1.prems"(2,3,5) q have wf: "prio_wf (P pe)" "prio_wf (P (hp ! ?q))" by auto
    show ?thesis
    proof (cases "CqsPrioGT (P pe) (P (hp ! ?q))")
      case gt: True
      then have "prio_key (P (?h ! ?q)) \<le> prio_key (P (?h ! pos))"
        using wf q "1.prems" by (simp add: CqsPrioGT_key)
      with "1.prems" True gt show ?thesis
        by (simp add: heap_up.simps [of P pe hp pos] Let_def pqh.up_done)
    next
      case gt: False
      have sw: "(hp[pos := hp ! ?q])[?q := pe] = swap ?h pos ?q"
        using q "1.prems" by (intro swap_hole) auto
      have "prio_key (P (?h ! pos)) \<le> prio_key (P (?h ! ?q))"
        using wf q gt "1.prems" by (simp add: CqsPrioGT_key)
      then have up: "pqh.up_ok P (swap ?h pos ?q) hi ?q"
        using pqh.up_step [OF "1.prems"(4)] True "1.prems" by simp
      have ms: "mset (slice (Suc 0) hi (swap ?h pos ?q)) = mset (slice (Suc 0) hi ?h)"
        using q "1.prems" by (intro mset_slice_swap) auto
      then have "set (slice (Suc 0) hi (swap ?h pos ?q)) = set (slice (Suc 0) hi ?h)"
        by (rule mset_eq_setD)
      then have "\<And>a. a \<in> set (slice (Suc 0) hi (swap ?h pos ?q)) \<Longrightarrow> prio_wf (P a)"
        using "1.prems"(5) by simp
      with "1.IH" [OF True refl refl gt] q "1.prems" up ms sw True gt
      show ?thesis
        by (simp add: heap_up.simps [of P pe hp pos] Let_def)
    qed
  qed
qed

lemma heap_down_ok:
  assumes "1 \<le> pos" "pos < hi" "hi \<le> length hp" "pqh.down_ok P (hp[pos := pe]) hi pos"
    and "\<And>a. a \<in> set (slice (Suc 0) hi (hp[pos := pe])) \<Longrightarrow> prio_wf (P a)"
  shows "pqh.heap_ok P (heap_down P pe hp hi pos) hi
    \<and> length (heap_down P pe hp hi pos) = length hp
    \<and> mset (slice (Suc 0) hi (heap_down P pe hp hi pos)) = mset (slice (Suc 0) hi (hp[pos := pe]))"
  using assms
proof (induction P pe hp hi pos rule: heap_down.induct)
  case (1 P pe hp hi pos)
  let ?c1 = "pos * 2" and ?h = "hp[pos := pe]"
  let ?c2 = "?c1 + 1"
  have pos: "pos \<noteq> 0" "pos < length hp" using "1.prems" by auto
  have children: "c = ?c1 \<or> c = ?c2" if "Suc 0 < c" "c div 2 = pos" for c
    using that by auto
  have wf: "prio_wf (P (?h ! i))" if "1 \<le> i" "i < hi" for i
    using that "1.prems"(3,5) nth_in_slice [of "Suc 0" i hi ?h] by simp
  show ?case
  proof (cases "?c1 \<ge> hi")
    case True
    have "heap_down P pe hp hi pos = ?h"
      using True by (subst heap_down.simps) (simp add: Let_def)
    moreover have "pqh.heap_ok P ?h hi"
      using pqh.down_done [OF "1.prems"(4)] children True by fastforce
    ultimately show ?thesis by simp
  next
    case False
    define c where "c = (if ?c2 \<ge> hi then ?c1
      else if CqsPrioGT (P (hp ! ?c1)) (P (hp ! ?c2)) then ?c2 else ?c1)"
    have c: "pos < c" "c < hi" "c div 2 = pos" "1 < c" using False pos by (auto simp: c_def)
    have hc: "?h ! c = hp ! c" "?h ! ?c1 = hp ! ?c1" "?h ! ?c2 = hp ! ?c2" using c(1) pos by auto
    have wf1: "prio_wf (P (hp ! ?c1))" using wf [of ?c1] False pos hc by simp
    have wf2: "?c2 < hi \<Longrightarrow> prio_wf (P (hp ! ?c2))" using wf [of ?c2] hc by simp
    have min: "prio_key (P (?h ! c)) \<le> prio_key (P (?h ! d))"
      if "Suc 0 < d" "d < hi" "d div 2 = pos" for d
    proof -
      have "d = ?c1 \<or> d = ?c2" using children that by simp
      then show ?thesis
        using that(2) wf1 wf2 hc by (auto simp: c_def CqsPrioGT_key not_less split: if_splits)
    qed
    have wfc: "prio_wf (P (hp ! c))" "prio_wf (P pe)"
      using wf [of c] wf [of pos] c "1.prems" hc by simp_all
    have unfold: "heap_down P pe hp hi pos =
        (if CqsPrioGT (P (hp ! c)) (P pe) then ?h
         else heap_down P pe (hp[pos := hp ! c]) hi c)"
      using False pos by (subst heap_down.simps) (simp add: Let_def c_def)
    show ?thesis
    proof (cases "CqsPrioGT (P (hp ! c)) (P pe)")
      case True
      have "prio_key (P (?h ! pos)) \<le> prio_key (P (?h ! d))"
        if "Suc 0 < d" "d < hi" "d div 2 = pos" for d
        using min [OF that] True wfc hc pos by (simp add: CqsPrioGT_key)
      then have "pqh.heap_ok P ?h hi" by (rule pqh.down_done [OF "1.prems"(4)])
      with True unfold show ?thesis by simp
    next
      case gt: False
      have sw: "(hp[pos := hp ! c])[c := pe] = swap ?h pos c"
        using c "1.prems" by (intro swap_hole) auto
      have "prio_key (P (?h ! c)) \<le> prio_key (P (?h ! pos))"
        using gt wfc hc pos by (simp add: CqsPrioGT_key)
      then have dn: "pqh.down_ok P (swap ?h pos c) hi c"
        using pqh.down_step [OF "1.prems"(4), of c] c min "1.prems" by simp
      have ms: "mset (slice (Suc 0) hi (swap ?h pos c)) = mset (slice (Suc 0) hi ?h)"
        using c "1.prems" by (intro mset_slice_swap) auto
      then have "set (slice (Suc 0) hi (swap ?h pos c)) = set (slice (Suc 0) hi ?h)"
        by (rule mset_eq_setD)
      then have wfs: "\<And>a. a \<in> set (slice (Suc 0) hi (swap ?h pos c)) \<Longrightarrow> prio_wf (P a)"
        using "1.prems"(5) by simp
      have "\<not> (pos = 0 \<or> hi \<le> ?c1)" using False pos by simp
      from "1.IH" [OF refl refl this c_def refl gt] c "1.prems" dn wfs
      have "pqh.heap_ok P (heap_down P pe (hp[pos := hp ! c]) hi c) hi
        \<and> length (heap_down P pe (hp[pos := hp ! c]) hi c) = length hp
        \<and> mset (slice (Suc 0) hi (heap_down P pe (hp[pos := hp ! c]) hi c))
          = mset (slice (Suc 0) hi (swap ?h pos c))"
        by (simp add: sw)
      with ms gt unfold show ?thesis by simp
    qed
  qed
qed

end
