(* ===== verification/Cqs_Prioq_Inv.thy ===== *)
theory Cqs_Prioq_Inv
  imports Cqs_Prioq
begin

text \<open>
  The invariant of the priority queue (heap order, hash chains, and their agreement with the
  buckets that are allocated) and that every operation of \<open>Cqs_Prioq\<close> keeps it.
\<close>

section \<open>Invariant\<close>

definition elt_list :: "'m elts \<Rightarrow> addr \<Rightarrow> 'm ptr list" where
  "elt_list st a = deq_list (elt_data (the (st a)))"

definition live :: "'m prioq \<Rightarrow> addr list" where
  "live pq = slice (Suc 0) (heapnext pq) (heap pq)"

text \<open>What identifies a priority, and the shape of the structs that the callers build.\<close>

definition prio_id :: "prio \<Rightarrow> u16 \<times> u32 list" where
  "prio_id p = (bits p, pdata p)"

definition prio_norm :: "prio \<Rightarrow> bool" where
  "prio_norm p \<longleftrightarrow> unat (ints p) = length (pdata p) \<and> length (pdata p) = prio_ints (ucast (bits p))"

lemma prio_norm_wf: "prio_norm p \<Longrightarrow> prio_wf p"
  by (simp add: prio_norm_def prio_wf_def)

lemma prio_norm_key: "prio_norm p \<Longrightarrow> prio_key p = pdata p"
  by (simp add: prio_norm_def prio_key_def)

text \<open>
  The table links every bucket. In the \<open>strict\<close> form, which holds as long as the table was
  never enlarged, every bucket is in the chain its priority hashes to and no two buckets have
  the same priority.
\<close>

definition hash_inv :: "bool \<Rightarrow> 'm prioq \<Rightarrow> addr list list \<Rightarrow> bool" where
  "hash_inv strict pq cs \<longleftrightarrow>
    chains (elts pq) (hashtab pq) cs \<and> set (concat cs) = dom (elts pq) \<and>
    (strict \<longrightarrow> hash_key_size pq = PRIOQ_TABSIZE \<and> placed (elts pq) PRIOQ_TABSIZE cs
      \<and> inj_on (\<lambda>a. prio_id (elt_pri (elts pq) a)) (dom (elts pq)))"

definition heap_inv :: "'m prioq \<Rightarrow> bool" where
  "heap_inv pq \<longleftrightarrow> length (heap pq) = heapsize pq \<and> 0 < heapnext pq \<and> heapnext pq \<le> heapsize pq
    \<and> 1 < heapsize pq \<and> distinct (live pq)
    \<and> pqh.heap_ok (elt_pri (elts pq)) (heap pq) (heapnext pq)
    \<and> (\<forall>e \<in> ran (elts pq). deq_inv (elt_data e) \<and> prio_norm (pri e))"

definition prioq_inv :: "bool \<Rightarrow> 'm prioq \<Rightarrow> bool" where
  "prioq_inv strict pq \<longleftrightarrow> heap_inv pq \<and> set (live pq) = dom (elts pq)
    \<and> (\<forall>a \<in> dom (elts pq). a < brk pq)
    \<and> length (hashtab pq) = hash_key_size pq \<and> PRIOQ_TABSIZE \<le> hash_key_size pq
    \<and> hash_entry_size pq = heapnext pq - 1
    \<and> (\<exists>cs. hash_inv strict pq cs)"

lemma prioq_inv_weaken: "prioq_inv strict pq \<Longrightarrow> prioq_inv False pq"
  by (auto simp: prioq_inv_def hash_inv_def)

lemma prioq_inv_init: "prioq_inv strict CqsPrioqInit"
proof -
  have "concat (replicate n []) = ([] :: addr list)" for n by (induction n) auto
  then have "hash_inv strict CqsPrioqInit (replicate PRIOQ_TABSIZE [])"
    by (simp add: hash_inv_def CqsPrioqInit_def chains_def placed_def)
  moreover have "heap_inv (CqsPrioqInit :: 'a prioq)"
    by (simp add: heap_inv_def CqsPrioqInit_def live_def pqh.heap_ok_def)
  ultimately show ?thesis
    by (auto simp: prioq_inv_def) (auto simp: CqsPrioqInit_def live_def)
qed

subsection \<open>What only depends on the payload of the buckets\<close>

lemma payload_eqD:
  assumes "map_option payload (st' a) = map_option payload (st a)"
  shows "elt_pri st' a = elt_pri st a" "elt_list st' a = elt_list st a"
  using assms by (cases "st a"; cases "st' a"; simp add: elt_pri_def elt_list_def payload_def)+

lemma payload_ran:
  assumes "\<And>a. map_option payload (st' a) = map_option payload (st a)"
    and "\<forall>e \<in> ran st. Q (elt_data e) (pri e)"
  shows "\<forall>e \<in> ran st'. Q (elt_data e) (pri e)"
proof
  fix e assume "e \<in> ran st'"
  then obtain a where "st' a = Some e" by (auto simp: ran_def)
  with assms(1) [of a] obtain f where "st a = Some f" "payload f = payload e"
    by (cases "st a") auto
  with assms(2) show "Q (elt_data e) (pri e)" by (auto simp: ran_def payload_def)
qed

lemma elt_pri_data [simp]: "elt_pri (upd_elt b (\<lambda>e. e\<lparr>elt_data := f e\<rparr>) st) a = elt_pri st a"
  by (cases "a = b"; cases "st b"; simp add: elt_pri_def)

lemma elt_list_data_same:
  "b \<in> dom st \<Longrightarrow> elt_list (upd_elt b (\<lambda>e. e\<lparr>elt_data := f (elt_data e)\<rparr>) st) b
    = deq_list (f (elt_data (the (st b))))"
  by (auto simp: elt_list_def)

lemma elt_list_data_other: "a \<noteq> b \<Longrightarrow> elt_list (upd_elt b f st) a = elt_list st a"
  by (simp add: elt_list_def)

lemma chains_upd_data:
  assumes "chains st tab cs"
  shows "chains (upd_elt b (\<lambda>e. e\<lparr>elt_data := f e\<rparr>) st) tab cs"
proof -
  let ?st = "upd_elt b (\<lambda>e. e\<lparr>elt_data := f e\<rparr>) st"
  have lnk: "map_option links (?st a) = map_option links (st a)" for a
    by (cases "a = b"; cases "st b"; simp add: links_def)
  have "chain ?st r p as" if "chain st r p as" for r p as
    by (rule chain_cong [OF that]) (rule lnk)
  with assms show ?thesis by (simp add: chains_def)
qed

lemma placed_elt_pri:
  "placed st sz cs \<longleftrightarrow>
    (\<forall>i < length cs. \<forall>a \<in> set (cs ! i). a \<in> dom st \<longrightarrow> home (elt_pri st a) sz = i)"
proof -
  have "(\<forall>e. st a = Some e \<longrightarrow> home (pri e) sz = i) \<longleftrightarrow> (a \<in> dom st \<longrightarrow> home (elt_pri st a) sz = i)" for a i
    by (cases "st a") (auto simp: elt_pri_def)
  then show ?thesis by (simp add: placed_def)
qed

lemma prioq_inv_upd_data:
  assumes "prioq_inv strict pq" "\<And>e. deq_inv (elt_data e) \<Longrightarrow> deq_inv (f e)"
  shows "prioq_inv strict (pq\<lparr>elts := upd_elt b (\<lambda>e. e\<lparr>elt_data := f e\<rparr>) (elts pq)\<rparr>)"
proof -
  let ?st = "upd_elt b (\<lambda>e. e\<lparr>elt_data := f e\<rparr>) (elts pq)"
  have pri: "elt_pri ?st = elt_pri (elts pq)" by (rule ext) simp
  have "deq_inv (elt_data e) \<and> prio_norm (Cqs_Hash.pri e)" if e: "e \<in> ran ?st" for e
  proof -
    from e obtain a where a: "?st a = Some e" by (auto simp: ran_def)
    have old: "\<forall>e \<in> ran (elts pq). deq_inv (elt_data e) \<and> prio_norm (Cqs_Hash.pri e)"
      using assms(1) by (simp add: prioq_inv_def heap_inv_def)
    show ?thesis
    proof (cases "a = b")
      case True
      with a obtain e' where e': "elts pq b = Some e'" "e = e'\<lparr>elt_data := f e'\<rparr>" by auto
      then have "deq_inv (elt_data e') \<and> prio_norm (Cqs_Hash.pri e')" using old by (auto simp: ran_def)
      with e' assms(2) show ?thesis by simp
    next
      case False
      with a old show ?thesis by (auto simp: ran_def)
    qed
  qed
  moreover from assms(1) obtain cs where "hash_inv strict pq cs" by (auto simp: prioq_inv_def)
  then have "hash_inv strict (pq\<lparr>elts := ?st\<rparr>) cs"
    by (simp add: hash_inv_def chains_upd_data placed_elt_pri)
  ultimately show ?thesis
    using assms(1) by (auto simp: prioq_inv_def heap_inv_def live_def pri)
qed

subsection \<open>Inserting a bucket into the heap\<close>

lemma live_expand: "heapnext pq \<le> length (heap pq) \<Longrightarrow> length (heap pq) = heapsize pq \<Longrightarrow>
    live (CqsPrioqExpand pq) = live pq"
  by (simp add: live_def CqsPrioqExpand_def Let_def slice_def)

lemma heap_insert_ok:
  assumes "heap_inv pq" "pe \<in> dom (elts pq)" "set (live pq) = dom (elts pq) - {pe}"
  defines "pq' \<equiv> prioq_heap_insert pe pq"
  shows "heap_inv pq'" "mset (live pq') = add_mset pe (mset (live pq))"
    and "heapnext pq' = heapnext pq + 1" "elts pq' = elts pq" "hashtab pq' = hashtab pq"
    and "hash_key_size pq' = hash_key_size pq" "hash_entry_size pq' = hash_entry_size pq"
    and "brk pq' = brk pq"
proof -
  let ?n = "heapnext pq" and ?P = "elt_pri (elts pq)"
  define q where "q = (if ?n = heapsize pq then CqsPrioqExpand (pq\<lparr>heapnext := ?n + 1\<rparr>)
    else pq\<lparr>heapnext := ?n + 1\<rparr>)"
  have bounds: "length (heap pq) = heapsize pq" "0 < ?n" "?n \<le> heapsize pq" "1 < heapsize pq"
    using assms(1) by (auto simp: heap_inv_def)
  have q: "heapnext q = ?n + 1" "elts q = elts pq" "hashtab q = hashtab pq"
    "hash_key_size q = hash_key_size pq" "hash_entry_size q = hash_entry_size pq" "brk q = brk pq"
    "length (heap q) = heapsize q" "?n < heapsize q" "1 < heapsize q"
    "take ?n (heap q) = take ?n (heap pq)"
    using bounds by (auto simp: q_def CqsPrioqExpand_def Let_def)
  have pq': "pq' = q\<lparr>heap := heap_up ?P pe (heap q) ?n\<rparr>"
    unfolding pq'_def prioq_heap_insert_def Let_def using q(2) by (simp add: q_def)
  have nth: "heap q ! i = heap pq ! i" if "i < ?n" for i
    using q(10) that by (metis nth_take)
  have ok: "pqh.heap_ok ?P (heap q) ?n"
    unfolding pqh.heap_ok_def
  proof (intro allI impI)
    fix i assume "Suc 0 < i \<and> i < ?n"
    moreover from this have "i div 2 < ?n" by auto
    ultimately show "prio_key (?P (heap q ! (i div 2))) \<le> prio_key (?P (heap q ! i))"
      using assms(1) nth by (simp add: heap_inv_def pqh.heap_ok_def)
  qed
  have up: "pqh.up_ok ?P ((heap q)[?n := pe]) (Suc ?n) ?n"
    using pqh.up_ok_append [OF ok] bounds q by simp
  have sl: "slice (Suc 0) (Suc ?n) ((heap q)[?n := pe]) = live pq @ [pe]"
    using bounds q(7,8,10) by (simp add: live_def slice_def take_Suc_snoc)
  have wf: "prio_wf (?P a)" if "a \<in> set (slice (Suc 0) (Suc ?n) ((heap q)[?n := pe]))" for a
  proof -
    from that sl assms(2,3) have "a \<in> dom (elts pq)" by auto
    then show ?thesis using assms(1) by (auto simp: heap_inv_def elt_pri_def ran_def prio_norm_wf)
  qed
  have res: "pqh.heap_ok ?P (heap pq') (Suc ?n) \<and> length (heap pq') = length (heap q)
      \<and> mset (slice (Suc 0) (Suc ?n) (heap pq')) = mset (live pq @ [pe])"
    using heap_up_ok [OF _ _ _ up wf] bounds q sl by (simp add: pq')
  then show ms: "mset (live pq') = add_mset pe (mset (live pq))"
    using q(1) by (simp add: live_def pq')
  have "distinct (live pq')"
    using mset_eq_imp_distinct_iff [of "live pq'" "pe # live pq"] ms assms(1,3)
    by (simp add: heap_inv_def)
  then show "heap_inv pq'"
    using res assms(1) q by (simp add: heap_inv_def pq')
  show "heapnext pq' = heapnext pq + 1" "elts pq' = elts pq" "hashtab pq' = hashtab pq"
    "hash_key_size pq' = hash_key_size pq" "hash_entry_size pq' = hash_entry_size pq"
    "brk pq' = brk pq"
    using q by (simp_all add: pq')
qed

subsection \<open>Rehashing and new buckets\<close>

lemma chains_length:
  assumes "chains st tab cs" "\<And>a. a \<in> dom st \<Longrightarrow> a < n" "c \<in> set cs"
  shows "length c \<le> n"
proof (rule distinct_less_length)
  show "distinct c" using assms(1,3) by (auto simp: chains_def distinct_concat_iff)
  show "a < n" if "a \<in> set c" for a
    using chains_dom [OF assms(1)] assms(2,3) that by auto
qed

lemma rehash_ok:
  assumes ch: "chains (elts pq) (hashtab pq) cs" and dm: "set (concat cs) = dom (elts pq)"
    and br: "\<forall>a \<in> dom (elts pq). a < brk pq"
    and ln: "length (hashtab pq) = hash_key_size pq" "0 < hash_key_size pq"
  defines "pq' \<equiv> CqsPrioqRehash pq"
  shows "\<exists>cs'. chains (elts pq') (hashtab pq') cs' \<and> set (concat cs') = dom (elts pq')
      \<and> placed (elts pq') (hash_key_size pq') cs'"
    and "\<And>a. map_option payload (elts pq' a) = map_option payload (elts pq a)"
    and "length (hashtab pq') = hash_key_size pq'" "hash_key_size pq' = hash_key_size pq * 2"
    and "heapsize pq' = heapsize pq" "heapnext pq' = heapnext pq" "heap pq' = heap pq"
    and "hash_entry_size pq' = hash_entry_size pq" "brk pq' = brk pq"
proof -
  let ?n = "hash_key_size pq * 2"
  obtain st tab where f: "fold (rehash_chain (brk pq) ?n) (hashtab pq) (elts pq, replicate ?n None) = (st, tab)"
    by fastforce
  have pq': "pq' = pq\<lparr>elts := st, hashtab := tab, hash_key_size := ?n\<rparr>"
    by (simp add: pq'_def CqsPrioqRehash_def f Let_def)
  have nil: "concat (replicate k []) = ([] :: addr list)" for k by (induction k) auto
  have init: "chains (elts pq) (replicate ?n None) (replicate ?n [])"
    "placed (elts pq) ?n (replicate ?n [])"
    by (simp_all add: chains_def placed_def nil)
  have old: "length (hashtab pq) = length cs" "distinct (concat cs)"
    "\<And>i. i < length (hashtab pq) \<Longrightarrow> chain (elts pq) (HTab (0 + i)) (hashtab pq ! i) (cs ! i)"
    using ch by (auto simp: chains_def)
  have "length c \<le> brk pq" if "c \<in> set cs" for c
    by (rule chains_length [OF ch _ that]) (use br in auto)
  from rehash_chains_ok [OF old(1,3,2) this init _ _ _ f] ln(2) nil
  obtain cs' where cs': "chains st tab cs'" "placed st ?n cs'" "length tab = ?n"
      "set (concat cs') = set (concat cs)"
      "\<And>b. map_option payload (st b) = map_option payload (elts pq b)"
    by auto
  have "dom st = dom (elts pq)" by (rule payload_dom) (rule cs'(5))
  with cs' dm show "\<exists>cs'. chains (elts pq') (hashtab pq') cs' \<and> set (concat cs') = dom (elts pq')
      \<and> placed (elts pq') (hash_key_size pq') cs'"
    by (intro exI [of _ cs']) (simp add: pq')
  show "\<And>a. map_option payload (elts pq' a) = map_option payload (elts pq a)"
    using cs'(5) by (simp add: pq')
  show "length (hashtab pq') = hash_key_size pq'" using cs'(3) by (simp add: pq')
qed (simp_all add: assms(6) CqsPrioqRehash_def Let_def split: prod.splits)

lemma heap_inv_elts:
  assumes "heap_inv pq" "heapsize pq' = heapsize pq" "heapnext pq' = heapnext pq" "heap pq' = heap pq"
    and "\<And>a. a \<in> set (live pq) \<Longrightarrow> elt_pri (elts pq') a = elt_pri (elts pq) a"
    and "\<forall>e \<in> ran (elts pq'). deq_inv (elt_data e) \<and> prio_norm (pri e)"
  shows "heap_inv pq'"
proof -
  have "pqh.heap_ok (elt_pri (elts pq')) (heap pq) (heapnext pq)"
    unfolding pqh.heap_ok_def
  proof (intro allI impI)
    fix i assume i: "Suc 0 < i \<and> i < heapnext pq"
    have "heap pq ! j \<in> set (live pq)" if "0 < j" "j < heapnext pq" for j
      unfolding live_def using that assms(1) by (intro nth_in_slice) (auto simp: heap_inv_def)
    with i assms(5) have "elt_pri (elts pq') (heap pq ! i) = elt_pri (elts pq) (heap pq ! i)"
      "elt_pri (elts pq') (heap pq ! (i div 2)) = elt_pri (elts pq) (heap pq ! (i div 2))" by auto
    with assms(1) i show "prio_key (elt_pri (elts pq') (heap pq ! (i div 2)))
        \<le> prio_key (elt_pri (elts pq') (heap pq ! i))"
      by (simp add: heap_inv_def pqh.heap_ok_def)
  qed
  with assms show ?thesis by (simp add: heap_inv_def live_def)
qed

text \<open>The bucket that is allocated for a new priority.\<close>

definition new_elt :: "u32 \<Rightarrow> u32 list \<Rightarrow> 'm prioqelt" where
  "new_elt b ws = \<lparr>elt_data = CqsDeqInit, ht_next = None, ht_handle = HTab 0,
    pri = \<lparr>bits = ucast b, ints = of_nat (length ws), pdata = ws\<rparr>\<rparr>"

lemma ucast_u16: "unat (b :: u32) < 2 ^ 16 \<Longrightarrow> ucast (ucast b :: u16) = b"
  by (rule word_unat_eq_iff [THEN iffD2])
    (simp add: unsigned_ucast_eq unsigned_take_bit_eq take_bit_nat_eq_self)

lemma new_elt_ok:
  assumes "unat b < 2 ^ 16" "length ws = prio_ints b"
  shows "deq_inv (elt_data (new_elt b ws))" "deq_list (elt_data (new_elt b ws)) = []"
    and "prio_norm (pri (new_elt b ws))" "prio_id (pri (new_elt b ws)) = (ucast b, ws)"
    and "prio_key (pri (new_elt b ws)) = ws" "home (pri (new_elt b ws)) sz = prio_hash b ws sz"
proof -
  have "prio_ints b < 2 ^ 16" using prio_ints_le [of b] assms(1) by linarith
  then have nl: "unat (of_nat (length ws) :: u16) = length ws"
    using assms(2) by (simp add: unsigned_of_nat take_bit_nat_eq_self)
  show "prio_norm (pri (new_elt b ws))"
    using assms nl ucast_u16 [of b] by (simp add: prio_norm_def new_elt_def)
  show "home (pri (new_elt b ws)) sz = prio_hash b ws sz"
    using assms nl ucast_u16 [of b] by (simp add: home_def new_elt_def prio_key_def)
  show "prio_key (pri (new_elt b ws)) = ws" using nl by (simp add: new_elt_def prio_key_def)
qed (simp_all add: new_elt_def prio_id_def)

lemma new_bucket_linked:
  fixes pq :: "'m prioq"
  assumes inv: "prioq_inv strict pq"
    and b: "unat b < 2 ^ 16" "length ws = prio_ints b"
    and st: "strict \<Longrightarrow> (\<forall>a \<in> dom (elts pq). prio_id (elt_pri (elts pq) a) \<noteq> (ucast b, ws))"
    and link: "ht_link (brk pq) (prio_hash b ws PRIOQ_TABSIZE)
      ((elts pq)(brk pq \<mapsto> new_elt b ws), hashtab pq) = (st, tab)"
  defines "pq1 \<equiv> pq\<lparr>elts := st, hashtab := tab, brk := brk pq + 1,
      hash_entry_size := hash_entry_size pq + 1\<rparr>"
  shows "\<exists>cs. hash_inv strict pq1 cs"
    and "\<And>a. map_option payload (st a) = map_option payload (((elts pq)(brk pq \<mapsto> new_elt b ws)) a)"
    and "dom st = insert (brk pq) (dom (elts pq))" "length tab = hash_key_size pq"
proof -
  let ?e = "new_elt b ws :: 'm prioqelt" and ?pe = "brk pq" and ?hv = "prio_hash b ws PRIOQ_TABSIZE"
  let ?st0 = "(elts pq)(?pe \<mapsto> ?e)"
  from inv obtain cs where cs: "hash_inv strict pq cs" by (auto simp: prioq_inv_def)
  have fresh: "?pe \<notin> dom (elts pq)" using inv by (auto simp: prioq_inv_def)
  have len: "length cs = length (hashtab pq)" using cs by (simp add: hash_inv_def chains_def)
  have hv: "?hv < length (hashtab pq)"
    using inv prio_hash_less [of PRIOQ_TABSIZE b ws] by (simp add: prioq_inv_def)
  have fresh_cs: "?pe \<notin> set (concat cs)" using fresh cs by (simp add: hash_inv_def)
  have ch0: "chains ?st0 (hashtab pq) cs"
  proof -
    have "chain ?st0 (HTab i) (hashtab pq ! i) (cs ! i)" if "i < length (hashtab pq)" for i
      by (rule chain_cong [of "elts pq"])
        (use that cs concat_notin_nth [OF fresh_cs] len in \<open>auto simp: hash_inv_def chains_def\<close>)
    with cs show ?thesis by (simp add: hash_inv_def chains_def)
  qed
  let ?cs = "cs[?hv := ?pe # cs ! ?hv]"
  have ch: "chains st tab ?cs" by (rule ht_link_chains [OF ch0 hv fresh_cs _ link]) simp
  show pay: "\<And>a. map_option payload (st a) = map_option payload (?st0 a)"
    by (rule ht_link_payload [OF link])
  show dom: "dom st = insert ?pe (dom (elts pq))" using ht_link_dom [OF link] by simp
  show "length tab = hash_key_size pq" using ht_link_length [OF link] inv by (simp add: prioq_inv_def)
  have "mset (concat ?cs) = mset (?pe # concat cs)"
    using mset_concat_update [of ?hv cs "?pe # cs ! ?hv"] hv len by simp
  from mset_eq_setD [OF this] have "set (concat ?cs) = insert ?pe (set (concat cs))" by simp
  moreover have "set (concat cs) = dom (elts pq)" using cs by (simp only: hash_inv_def)
  ultimately have set: "set (concat ?cs) = dom st" by (simp only: dom)
  have old: "elt_pri st a = elt_pri (elts pq) a" if "a \<in> dom (elts pq)" for a
    using payload_eqD(1) [of st a ?st0, OF pay] that fresh by (auto simp: elt_pri_def)
  have new: "elt_pri st ?pe = pri ?e"
    using payload_eqD(1) [of st ?pe ?st0, OF pay] by (simp add: elt_pri_def)
  have str: "placed st PRIOQ_TABSIZE ?cs \<and> inj_on (\<lambda>a. prio_id (elt_pri st a)) (dom st)" if strict
  proof
    note st = st [OF that]
    have inj0: "inj_on (\<lambda>a. prio_id (elt_pri (elts pq) a)) (dom (elts pq))"
      and pl0: "placed (elts pq) PRIOQ_TABSIZE cs"
      using cs that by (simp_all add: hash_inv_def)
    show "inj_on (\<lambda>a. prio_id (elt_pri st a)) (dom st)"
      unfolding dom inj_on_insert
    proof
      show "inj_on (\<lambda>a. prio_id (elt_pri st a)) (dom (elts pq))" using inj0 old by (simp add: inj_on_def)
      have "prio_id (elt_pri st a) \<noteq> prio_id (elt_pri st ?pe)" if "a \<in> dom (elts pq)" for a
        using st that old [OF that] new by (simp add: new_elt_ok(4) [OF b])
      then show "prio_id (elt_pri st ?pe) \<notin> (\<lambda>a. prio_id (elt_pri st a)) ` (dom (elts pq) - {?pe})"
        by fastforce
    qed
    have "placed ?st0 PRIOQ_TABSIZE cs"
      using pl0 concat_notin_nth [OF fresh_cs] by (auto simp: placed_def split: if_splits)
    then have "placed ?st0 PRIOQ_TABSIZE ?cs"
      using hv len placed_link [of ?st0 PRIOQ_TABSIZE cs ?pe ?e ?hv] by (simp add: new_elt_ok(6) [OF b])
    then show "placed st PRIOQ_TABSIZE ?cs" by (rule placed_payload) (rule pay)
  qed
  have "hash_inv strict pq1 ?cs"
    using ch set str cs by (simp add: hash_inv_def pq1_def)
  then show "\<exists>cs. hash_inv strict pq1 cs" ..
qed

lemma heap_inv_new:
  assumes "heap_inv pq" "set (live pq) = dom (elts pq)" "pe \<notin> dom (elts pq)"
    and b: "unat b < 2 ^ 16" "length ws = prio_ints b"
    and same: "heapsize pq' = heapsize pq" "heapnext pq' = heapnext pq" "heap pq' = heap pq"
    and pay: "\<And>a. map_option payload (elts pq' a) = map_option payload (((elts pq)(pe \<mapsto> new_elt b ws)) a)"
  shows "heap_inv pq'"
proof (rule heap_inv_elts [OF assms(1) same])
  let ?st = "(elts pq)(pe \<mapsto> new_elt b ws)"
  fix a assume "a \<in> set (live pq)"
  then have "a \<noteq> pe" using assms(2,3) by metis
  then show "elt_pri (elts pq') a = elt_pri (elts pq) a"
    using payload_eqD(1) [of "elts pq'" a ?st, OF pay] by (simp add: elt_pri_def)
next
  let ?st = "(elts pq)(pe \<mapsto> new_elt b ws)"
  have "\<forall>e \<in> ran ?st. deq_inv (elt_data e) \<and> prio_norm (pri e)"
    using assms(1,3) by (auto simp: heap_inv_def ran_map_upd domIff new_elt_ok(1,3) [OF b])
  then show "\<forall>e \<in> ran (elts pq'). deq_inv (elt_data e) \<and> prio_norm (pri e)"
    by (rule payload_ran [of "elts pq'" ?st, OF pay, where Q = "\<lambda>d p. deq_inv d \<and> prio_norm p"])
qed

lemma prioq_new_bucket_ok:
  fixes pq :: "'m prioq"
  assumes inv: "prioq_inv strict pq"
    and b: "unat b < 2 ^ 16" "length ws = prio_ints b"
    and st: "strict \<longrightarrow> heapnext pq \<le> 2 * PRIOQ_TABSIZE
      \<and> (\<forall>a \<in> dom (elts pq). prio_id (elt_pri (elts pq) a) \<noteq> (ucast b, ws))"
    and eq: "prioq_new_bucket pq b ws = (pe, pq')"
  shows "prioq_inv strict pq'" "pe = brk pq"
    and "\<And>a. map_option payload (elts pq' a) = map_option payload (((elts pq)(pe \<mapsto> new_elt b ws)) a)"
    and "mset (live pq') = add_mset pe (mset (live pq))" "heapnext pq' = heapnext pq + 1"
proof -
  let ?e = "new_elt b ws :: 'm prioqelt"
  obtain st tab where link: "ht_link (brk pq) (prio_hash b ws PRIOQ_TABSIZE)
      ((elts pq)(brk pq \<mapsto> ?e), hashtab pq) = (st, tab)" by fastforce
  define pq1 where "pq1 = pq\<lparr>elts := st, hashtab := tab, brk := brk pq + 1,
      hash_entry_size := hash_entry_size pq + 1\<rparr>"
  define pq2 where "pq2 = (if hash_entry_size pq1 > 2 * hash_key_size pq1 then CqsPrioqRehash pq1 else pq1)"
  have "prioq_new_bucket pq b ws = (brk pq, prioq_heap_insert (brk pq) pq2)"
    using link by (simp add: prioq_new_bucket_def new_elt_def pq1_def pq2_def Let_def)
  with eq have pe: "pe = brk pq" and pq': "pq' = prioq_heap_insert pe pq2" by auto
  show "pe = brk pq" by (rule pe)
  have "strict \<Longrightarrow> (\<forall>a \<in> dom (elts pq). prio_id (elt_pri (elts pq) a) \<noteq> (ucast b, ws))" using st by simp
  note linked = new_bucket_linked [OF inv b this link, folded pq1_def]
  have old: "\<forall>a \<in> dom (elts pq). a < brk pq" "heap_inv pq" "set (live pq) = dom (elts pq)"
    "hash_entry_size pq = heapnext pq - 1" "PRIOQ_TABSIZE \<le> hash_key_size pq" "0 < heapnext pq"
    using inv by (simp_all add: prioq_inv_def heap_inv_def)
  from linked(1) obtain cs where cs: "hash_inv strict pq1 cs" by blast
  have br: "\<forall>a \<in> dom (elts pq1). a < brk pq1" using old(1) by (simp add: pq1_def linked(3) less_Suc_eq)
  have ln: "length (hashtab pq1) = hash_key_size pq1" "0 < hash_key_size pq1"
    using linked(4) old(5) PRIOQ_TABSIZE_pos by (simp_all add: pq1_def del: PRIOQ_TABSIZE_pos)
  have chs: "chains (elts pq1) (hashtab pq1) cs" "set (concat cs) = dom (elts pq1)"
    using cs by (simp_all add: hash_inv_def)
  note re = rehash_ok [OF chs br ln]
  have p1: "elts pq1 = st" "heapsize pq1 = heapsize pq" "heapnext pq1 = heapnext pq" "heap pq1 = heap pq"
    "hash_entry_size pq1 = hash_entry_size pq + 1" "brk pq1 = brk pq + 1" "hash_key_size pq1 = hash_key_size pq"
    by (simp_all add: pq1_def)
  have same: "heapsize pq2 = heapsize pq" "heapnext pq2 = heapnext pq" "heap pq2 = heap pq"
    "hash_entry_size pq2 = hash_entry_size pq + 1" "brk pq2 = brk pq + 1"
    "length (hashtab pq2) = hash_key_size pq2" "PRIOQ_TABSIZE \<le> hash_key_size pq2"
    using re ln(1) old(5) by (simp_all add: pq2_def p1)
  have pay: "map_option payload (elts pq2 a) = map_option payload (((elts pq)(pe \<mapsto> ?e)) a)" for a
  proof -
    have "map_option payload (elts pq2 a) = map_option payload (st a)"
      using re(2) [of a] by (simp add: pq2_def p1(1))
    also have "\<dots> = map_option payload (((elts pq)(pe \<mapsto> ?e)) a)" unfolding pe by (rule linked(2))
    finally show ?thesis .
  qed
  have "\<exists>cs. hash_inv strict pq2 cs"
  proof (cases strict)
    case True
    with cs have "hash_key_size pq1 = PRIOQ_TABSIZE" by (simp add: hash_inv_def)
    moreover have "hash_entry_size pq1 \<le> 2 * PRIOQ_TABSIZE" using st True old(4,6) p1(5) by simp
    ultimately have "pq2 = pq1" by (simp add: pq2_def)
    with cs show ?thesis by blast
  next
    case False
    obtain cs' where "hash_inv False (CqsPrioqRehash pq1) cs'" using re(1) by (auto simp only: hash_inv_def)
    with False cs show ?thesis by (cases "hash_entry_size pq1 > 2 * hash_key_size pq1") (auto simp only: pq2_def if_True if_False)
  qed
  then obtain cs2 where cs2: "hash_inv strict pq2 cs2" by blast
  have dom2: "dom (elts pq2) = insert pe (dom (elts pq))" using payload_dom [of "elts pq2" "(elts pq)(pe \<mapsto> ?e)", OF pay] by simp
  have fresh: "pe \<notin> dom (elts pq)" using old(1) pe by auto
  have heap2: "heap_inv pq2" by (rule heap_inv_new [OF old(2,3) fresh b same(1-3) pay])
  have live2: "live pq2 = live pq" using same by (simp add: live_def)
  then have "set (live pq2) = dom (elts pq2) - {pe}" using old(3) dom2 fresh by auto
  note ins = heap_insert_ok [OF heap2 _ this, folded pq']
  have ins: "heap_inv pq'" "mset (live pq') = add_mset pe (mset (live pq))"
    "heapnext pq' = heapnext pq + 1" "elts pq' = elts pq2" "hashtab pq' = hashtab pq2"
    "hash_key_size pq' = hash_key_size pq2" "hash_entry_size pq' = hash_entry_size pq2"
    "brk pq' = brk pq2"
    using ins dom2 live2 same by simp_all
  have "set (live pq') = insert pe (set (live pq))" using mset_eq_setD [of "live pq'" "pe # live pq"] ins(2) by simp
  moreover have "hash_inv strict pq' cs2" using cs2 ins by (simp add: hash_inv_def)
  moreover have "\<forall>a \<in> dom (elts pq'). a < brk pq'"
    using old(1) by (simp add: ins(4,8) same(5) dom2 pe less_Suc_eq)
  ultimately show "prioq_inv strict pq'"
    unfolding prioq_inv_def using ins(1,3-8) same(4,6,7) old(3,4,6) dom2 by (intro conjI exI) simp_all
  show "\<And>a. map_option payload (elts pq' a) = map_option payload (((elts pq)(pe \<mapsto> ?e)) a)"
    using pay ins(4) by simp
  show "mset (live pq') = add_mset pe (mset (live pq))" "heapnext pq' = heapnext pq + 1"
    by (fact ins)+
qed

end
