(* ===== verification/Cqs_Prioq_Ops.thy ===== *)
theory Cqs_Prioq_Ops
  imports Cqs_Prioq_Inv
begin

text \<open>
  What the operations of the priority queue do: every message that is put in comes out once,
  smallest priority first, and as long as the bucket table was never enlarged the messages
  of one priority keep the order of a deque.
\<close>

section \<open>Finding the bucket of a priority\<close>

lemma prio_match_id:
  assumes "prio_norm p" "unat b < 2 ^ 16" "length ws = prio_ints b"
  shows "prio_match b ws p \<longleftrightarrow> prio_id p = (ucast b, ws)"
proof
  assume m: "prio_match b ws p"
  then have b: "b = ucast (bits p)" by (simp add: prio_match_def)
  have "ucast b = bits p" unfolding b by (rule word_unat_eq_iff [THEN iffD2]) (simp add: unsigned_ucast_eq take_bit_word_eq_self)
  moreover have "pdata p = ws" using m assms(1,3) b by (simp add: prio_match_def prio_norm_def)
  ultimately show "prio_id p = (ucast b, ws)" by (simp add: prio_id_def)
next
  assume "prio_id p = (ucast b, ws)"
  then show "prio_match b ws p" using ucast_u16 [OF assms(2)] by (auto simp: prio_id_def prio_match_def)
qed

lemma prioq_inv_pri:
  assumes "prioq_inv strict pq" "a \<in> dom (elts pq)"
  shows "prio_norm (elt_pri (elts pq) a)" "deq_inv (elt_data (the (elts pq a)))"
  using assms by (auto simp: prioq_inv_def heap_inv_def elt_pri_def ran_def)

lemma prioq_scan:
  assumes inv: "prioq_inv strict pq" and b: "unat b < 2 ^ 16" "length ws = prio_ints b"
  defines "res \<equiv> ht_scan (brk pq) (elts pq) (prio_match b ws)
      (hashtab pq ! prio_hash b ws PRIOQ_TABSIZE)"
  shows "res = Some a \<Longrightarrow> a \<in> dom (elts pq) \<and> prio_id (elt_pri (elts pq) a) = (ucast b, ws)"
    and "res = None \<Longrightarrow> strict \<Longrightarrow> a \<in> dom (elts pq) \<Longrightarrow> prio_id (elt_pri (elts pq) a) \<noteq> (ucast b, ws)"
proof -
  let ?hv = "prio_hash b ws PRIOQ_TABSIZE"
  from inv obtain cs where cs: "hash_inv strict pq cs" by (auto simp: prioq_inv_def)
  then have ch: "chains (elts pq) (hashtab pq) cs" and dm: "set (concat cs) = dom (elts pq)"
    unfolding hash_inv_def by blast+
  have hv: "?hv < length (hashtab pq)" "length cs = length (hashtab pq)"
    using inv ch prio_hash_less [of PRIOQ_TABSIZE b ws] by (simp_all add: prioq_inv_def chains_def)
  then have chv: "chain (elts pq) (HTab ?hv) (hashtab pq ! ?hv) (cs ! ?hv)" using ch by (simp add: chains_def)
  have sub: "x \<in> dom (elts pq)" if "x \<in> set (cs ! ?hv)" for x
    using chain_dom [OF chv] that by blast
  have "length (cs ! ?hv) \<le> brk pq"
    by (rule chains_length [OF ch]) (use inv hv in \<open>auto simp: prioq_inv_def\<close>)
  from ht_scan_find [OF chv this]
  have res: "res = find (\<lambda>a. prio_match b ws (elt_pri (elts pq) a)) (cs ! ?hv)"
    by (simp add: res_def elt_pri_def)
  have match: "prio_match b ws (elt_pri (elts pq) x) \<longleftrightarrow> prio_id (elt_pri (elts pq) x) = (ucast b, ws)"
    if "x \<in> dom (elts pq)" for x
    by (rule prio_match_id [OF prioq_inv_pri(1) [OF inv that] b])
  show "a \<in> dom (elts pq) \<and> prio_id (elt_pri (elts pq) a) = (ucast b, ws)" if "res = Some a"
  proof -
    from that obtain i where "i < length (cs ! ?hv)" "prio_match b ws (elt_pri (elts pq) (cs ! ?hv ! i))"
        "a = cs ! ?hv ! i"
      by (auto simp: res find_Some_iff)
    then show ?thesis using match sub nth_mem by metis
  qed
  show "prio_id (elt_pri (elts pq) a) \<noteq> (ucast b, ws)"
    if none: "res = None" and s: strict and a: "a \<in> dom (elts pq)"
  proof
    let ?p = "elt_pri (elts pq) a"
    assume id: "prio_id ?p = (ucast b, ws)"
    have "home ?p PRIOQ_TABSIZE = ?hv"
      using id prio_norm_key [OF prioq_inv_pri(1) [OF inv a]] ucast_u16 [OF b(1)]
      by (simp add: home_def prio_id_def)
    moreover from a dm obtain i where i: "i < length cs" "a \<in> set (cs ! i)"
      by (metis (no_types, opaque_lifting) UN_E in_set_conv_nth set_concat)
    moreover have "placed (elts pq) PRIOQ_TABSIZE cs" using cs s by (simp add: hash_inv_def)
    ultimately have "i = ?hv" using a by (simp add: placed_elt_pri)
    with i(2) none match [OF a] id show False by (simp add: res find_None_iff)
  qed
qed

lemma CqsPrioqGetDeq_ok:
  fixes pq :: "'m prioq"
  assumes inv: "prioq_inv strict pq" and b: "unat b < 2 ^ 16" "prio_ints b \<le> length ptr"
    and room: "strict \<longrightarrow> heapnext pq \<le> 2 * PRIOQ_TABSIZE"
    and eq: "CqsPrioqGetDeq pq b ptr = (pe, pq')"
  defines "ws \<equiv> take (prio_ints b) ptr"
  shows "prioq_inv strict pq'" "pe \<in> dom (elts pq')" "prio_id (elt_pri (elts pq') pe) = (ucast b, ws)"
    and "dom (elts pq') = insert pe (dom (elts pq))"
    and "a \<noteq> pe \<Longrightarrow> map_option payload (elts pq' a) = map_option payload (elts pq a)"
    and "pe \<in> dom (elts pq) \<Longrightarrow> pq' = pq"
    and "pe \<notin> dom (elts pq) \<Longrightarrow> elt_list (elts pq') pe = []"
    and "pe \<notin> dom (elts pq) \<Longrightarrow> strict \<Longrightarrow> a \<in> dom (elts pq)
      \<Longrightarrow> prio_id (elt_pri (elts pq) a) \<noteq> (ucast b, ws)"
    and "heapnext pq \<le> heapnext pq'" "heapnext pq' \<le> heapnext pq + 1"
proof -
  let ?scan = "ht_scan (brk pq) (elts pq) (prio_match b ws) (hashtab pq ! prio_hash b ws PRIOQ_TABSIZE)"
  have lw: "length ws = prio_ints b" using b(2) by (simp add: ws_def)
  note scan = prioq_scan [OF inv b(1) lw]
  have "prioq_inv strict pq' \<and> pe \<in> dom (elts pq') \<and> prio_id (elt_pri (elts pq') pe) = (ucast b, ws)
    \<and> dom (elts pq') = insert pe (dom (elts pq))
    \<and> (\<forall>a. a \<noteq> pe \<longrightarrow> map_option payload (elts pq' a) = map_option payload (elts pq a))
    \<and> (pe \<in> dom (elts pq) \<longrightarrow> pq' = pq) \<and> (pe \<notin> dom (elts pq) \<longrightarrow> elt_list (elts pq') pe = [])
    \<and> (pe \<notin> dom (elts pq) \<longrightarrow> strict \<longrightarrow>
        (\<forall>a \<in> dom (elts pq). prio_id (elt_pri (elts pq) a) \<noteq> (ucast b, ws)))
    \<and> heapnext pq \<le> heapnext pq' \<and> heapnext pq' \<le> heapnext pq + 1"
  proof (cases ?scan)
    case (Some p)
    with eq have "p = pe" "pq' = pq" by (simp_all add: CqsPrioqGetDeq_def ws_def Let_def)
    with scan(1) [OF Some] inv show ?thesis by (simp add: insert_absorb)
  next
    case None
    with eq have new: "prioq_new_bucket pq b ws = (pe, pq')" by (simp add: CqsPrioqGetDeq_def ws_def Let_def)
    have free: "\<forall>a \<in> dom (elts pq). prio_id (elt_pri (elts pq) a) \<noteq> (ucast b, ws)" if strict
      using scan(2) [OF None that] by blast
    have "strict \<longrightarrow> heapnext pq \<le> 2 * PRIOQ_TABSIZE
      \<and> (\<forall>a \<in> dom (elts pq). prio_id (elt_pri (elts pq) a) \<noteq> (ucast b, ws))" using room free by simp
    note nb = prioq_new_bucket_ok [OF inv b(1) lw this new]
    let ?st = "(elts pq)(pe \<mapsto> new_elt b ws)"
    have fresh: "pe \<notin> dom (elts pq)" using inv nb(2) by (auto simp: prioq_inv_def)
    have "dom (elts pq') = insert pe (dom (elts pq))"
      using payload_dom [of "elts pq'" ?st, OF nb(3)] by simp
    moreover have "elt_pri (elts pq') pe = pri (new_elt b ws :: 'm prioqelt)" "elt_list (elts pq') pe = []"
      using payload_eqD [of "elts pq'" pe ?st, OF nb(3)]
      by (simp_all add: elt_pri_def elt_list_def new_elt_ok(2) [OF b(1) lw])
    moreover have "\<forall>a. a \<noteq> pe \<longrightarrow> map_option payload (elts pq' a) = map_option payload (elts pq a)"
      using nb(3) by simp
    ultimately show ?thesis
      using nb(1,5) fresh free by (simp add: new_elt_ok(4) [OF b(1) lw])
  qed
  then show "prioq_inv strict pq'" "pe \<in> dom (elts pq')" "prio_id (elt_pri (elts pq') pe) = (ucast b, ws)"
    "dom (elts pq') = insert pe (dom (elts pq))"
    "a \<noteq> pe \<Longrightarrow> map_option payload (elts pq' a) = map_option payload (elts pq a)"
    "pe \<in> dom (elts pq) \<Longrightarrow> pq' = pq"
    "pe \<notin> dom (elts pq) \<Longrightarrow> elt_list (elts pq') pe = []"
    "pe \<notin> dom (elts pq) \<Longrightarrow> strict \<Longrightarrow> a \<in> dom (elts pq)
      \<Longrightarrow> prio_id (elt_pri (elts pq) a) \<noteq> (ucast b, ws)"
    "heapnext pq \<le> heapnext pq'" "heapnext pq' \<le> heapnext pq + 1"
    by blast+
qed

section \<open>Enqueueing\<close>

text \<open>Between two operations no bucket is empty.\<close>

definition prioq_ok :: "bool \<Rightarrow> 'm prioq \<Rightarrow> bool" where
  "prioq_ok strict pq \<longleftrightarrow> prioq_inv strict pq \<and> (\<forall>a \<in> dom (elts pq). elt_list (elts pq) a \<noteq> [])"

lemma prioq_ok_init: "prioq_ok strict CqsPrioqInit"
  by (simp add: prioq_ok_def prioq_inv_init) (simp add: CqsPrioqInit_def)

text \<open>All messages with the key they are ordered by, and the messages of one priority in order.\<close>

definition prioq_pairs :: "'m prioq \<Rightarrow> (u32 list \<times> 'm ptr) list" where
  "prioq_pairs pq =
    concat (map (\<lambda>a. map (Pair (prio_key (elt_pri (elts pq) a))) (elt_list (elts pq) a)) (live pq))"

definition prioq_view :: "'m prioq \<Rightarrow> u16 \<times> u32 list \<Rightarrow> 'm ptr list" where
  "prioq_view pq k =
    concat (map (elt_list (elts pq)) (filter (\<lambda>a. prio_id (elt_pri (elts pq) a) = k) (live pq)))"

lemma prioq_pairs_sum:
  assumes "prioq_inv strict pq"
  shows "mset (prioq_pairs pq) = (\<Sum>a \<in> dom (elts pq).
    image_mset (Pair (prio_key (elt_pri (elts pq) a))) (mset (elt_list (elts pq) a)))"
proof -
  have "distinct (live pq)" "set (live pq) = dom (elts pq)"
    using assms by (auto simp: prioq_inv_def heap_inv_def)
  then show ?thesis
    using sum.distinct_set_conv_list [of "live pq" "\<lambda>a. image_mset
        (Pair (prio_key (elt_pri (elts pq) a))) (mset (elt_list (elts pq) a))"]
    by (simp add: prioq_pairs_def mset_concat comp_def)
qed

lemma prioq_view_in:
  assumes "prioq_inv True pq" "a \<in> dom (elts pq)"
  shows "prioq_view pq (prio_id (elt_pri (elts pq) a)) = elt_list (elts pq) a"
proof -
  have "inj_on (\<lambda>a. prio_id (elt_pri (elts pq) a)) (dom (elts pq))" "distinct (live pq)"
    "set (live pq) = dom (elts pq)"
    using assms(1) by (auto simp: prioq_inv_def heap_inv_def hash_inv_def)
  then have "filter (\<lambda>x. prio_id (elt_pri (elts pq) x) = prio_id (elt_pri (elts pq) a)) (live pq) = [a]"
    using assms(2) by (intro filter_unique) (auto simp: inj_on_def)
  then show ?thesis by (simp add: prioq_view_def)
qed

lemma prioq_view_notin:
  assumes "prioq_inv strict pq" "\<And>a. a \<in> dom (elts pq) \<Longrightarrow> prio_id (elt_pri (elts pq) a) \<noteq> k"
  shows "prioq_view pq k = []"
proof -
  have "filter (\<lambda>x. prio_id (elt_pri (elts pq) x) = k) (live pq) = []"
    using assms by (auto simp: filter_empty_conv prioq_inv_def)
  then show ?thesis by (simp add: prioq_view_def)
qed

text \<open>
  A queue in which one bucket \<open>pe\<close> differs from the other queue, which may not have it.
\<close>

lemma prioq_pairs_step:
  fixes pq pq' :: "'m prioq"
  assumes "prioq_inv s pq" "prioq_inv s' pq'" "dom (elts pq') = insert pe (dom (elts pq))"
    and "\<And>a. a \<noteq> pe \<Longrightarrow> a \<in> dom (elts pq) \<Longrightarrow> elt_pri (elts pq') a = elt_pri (elts pq) a
      \<and> elt_list (elts pq') a = elt_list (elts pq) a"
    and "pe \<in> dom (elts pq) \<Longrightarrow> elt_pri (elts pq) pe = elt_pri (elts pq') pe"
  defines "P \<equiv> image_mset (Pair (prio_key (elt_pri (elts pq') pe)))"
  defines "old \<equiv> (if pe \<in> dom (elts pq) then elt_list (elts pq) pe else [])"
  shows "mset (prioq_pairs pq') + P (mset old) = mset (prioq_pairs pq) + P (mset (elt_list (elts pq') pe))"
proof -
  define g where "g q a = image_mset (Pair (prio_key (elt_pri (elts q) a))) (mset (elt_list (elts q) a))"
    for q :: "'m prioq" and a
  let ?D = "dom (elts pq) - {pe}"
  have "set (live pq) = dom (elts pq)" using assms(1) by (simp add: prioq_inv_def)
  then have fin: "finite (dom (elts pq))" by (metis List.finite_set)
  have "(\<Sum>a \<in> ?D. g pq' a) = (\<Sum>a \<in> ?D. g pq a)"
    by (rule sum.cong) (use assms(4) in \<open>auto simp: g_def\<close>)
  moreover have "mset (prioq_pairs pq') = g pq' pe + (\<Sum>a \<in> ?D. g pq' a)"
    using prioq_pairs_sum [OF assms(2)] fin assms(3) sum.insert_remove [of "dom (elts pq)" "g pq'" pe]
    by (simp add: g_def)
  moreover have "mset (prioq_pairs pq) = (if pe \<in> dom (elts pq) then g pq pe else {#}) + (\<Sum>a \<in> ?D. g pq a)"
    using prioq_pairs_sum [OF assms(1)] fin sum.remove [of "dom (elts pq)" pe "g pq"]
    by (simp add: g_def)
  moreover have "P (mset old) = (if pe \<in> dom (elts pq) then g pq pe else {#})"
    using assms(5) by (simp add: P_def old_def g_def)
  moreover have "P (mset (elt_list (elts pq') pe)) = g pq' pe" by (simp add: P_def g_def)
  ultimately show ?thesis by (simp add: ac_simps)
qed

lemma prioq_view_step:
  assumes "prioq_inv True pq" "prioq_inv True pq'" "dom (elts pq') = insert pe (dom (elts pq))"
    and "\<And>a. a \<noteq> pe \<Longrightarrow> a \<in> dom (elts pq) \<Longrightarrow> elt_pri (elts pq') a = elt_pri (elts pq) a
      \<and> elt_list (elts pq') a = elt_list (elts pq) a"
    and "pe \<in> dom (elts pq) \<Longrightarrow> elt_pri (elts pq) pe = elt_pri (elts pq') pe"
  shows "prioq_view pq' = (prioq_view pq)(prio_id (elt_pri (elts pq') pe) := elt_list (elts pq') pe)"
proof
  fix k
  let ?k = "prio_id (elt_pri (elts pq') pe)"
  have pe: "pe \<in> dom (elts pq')" by (simp add: assms(3))
  show "prioq_view pq' k = ((prioq_view pq)(?k := elt_list (elts pq') pe)) k"
  proof (cases "k = ?k")
    case True
    then show ?thesis using prioq_view_in [OF assms(2) pe] by simp
  next
    case ne: False
    show ?thesis
    proof (cases "\<exists>a \<in> dom (elts pq). prio_id (elt_pri (elts pq) a) = k")
      case True
      then obtain a where a: "a \<in> dom (elts pq)" "prio_id (elt_pri (elts pq) a) = k" by blast
      then have "a \<noteq> pe" using ne assms(5) by metis
      with assms(4) a have same: "elt_pri (elts pq') a = elt_pri (elts pq) a"
        "elt_list (elts pq') a = elt_list (elts pq) a" by simp_all
      have "a \<in> dom (elts pq')" using a(1) assms(3) by simp
      from prioq_view_in [OF assms(2) this] prioq_view_in [OF assms(1) a(1)] same a(2) ne
      show ?thesis by simp
    next
      case False
      have "prio_id (elt_pri (elts pq') a) \<noteq> k" if "a \<in> dom (elts pq')" for a
        using that False ne assms(3,4) by (cases "a = pe") auto
      from prioq_view_notin [OF assms(2) this] prioq_view_notin [OF assms(1), of k] False ne
      show ?thesis by auto
    qed
  qed
qed

text \<open>
  Putting a message into a priority queue, for any way \<open>put\<close> of putting one into a deque.
\<close>

lemma prioq_enqueue_step:
  fixes pq :: "'m prioq" and put :: "'m deq \<Rightarrow> 'm ptr \<Rightarrow> 'm deq"
  assumes ok: "prioq_ok strict pq" and b: "unat b < 2 ^ 16" "prio_ints b \<le> length ptr"
    and room: "strict \<longrightarrow> heapnext pq \<le> 2 * PRIOQ_TABSIZE"
    and put: "deq_put put x ins"
  defines "ws \<equiv> take (prio_ints b) ptr"
  defines "pq' \<equiv> prioq_enqueue put pq b ptr x"
  shows "\<exists>pe. prioq_inv strict pq' \<and> dom (elts pq') = insert pe (dom (elts pq))
    \<and> prio_id (elt_pri (elts pq') pe) = (ucast b, ws)
    \<and> (\<forall>a. a \<noteq> pe \<longrightarrow> elt_pri (elts pq') a = elt_pri (elts pq) a \<and> elt_list (elts pq') a = elt_list (elts pq) a)
    \<and> (pe \<in> dom (elts pq) \<longrightarrow> elt_pri (elts pq) pe = elt_pri (elts pq') pe)
    \<and> (pe \<notin> dom (elts pq) \<longrightarrow> strict \<longrightarrow> prioq_view pq (ucast b, ws) = [])
    \<and> elt_list (elts pq') pe = ins (if pe \<in> dom (elts pq) then elt_list (elts pq) pe else [])
    \<and> heapnext pq \<le> heapnext pq' \<and> heapnext pq' \<le> heapnext pq + 1"
proof -
  have inv: "prioq_inv strict pq" using ok by (simp add: prioq_ok_def)
  obtain pe q where g: "CqsPrioqGetDeq pq b ptr = (pe, q)" by fastforce
  note get = CqsPrioqGetDeq_ok [OF inv b room g, folded ws_def]
  have pq': "pq' = q\<lparr>elts := upd_elt pe (\<lambda>e. e\<lparr>elt_data := put (elt_data e) x\<rparr>) (elts q)\<rparr>"
    by (simp add: pq'_def prioq_enqueue_def g)
  have "prioq_inv strict pq'"
    unfolding pq' by (rule prioq_inv_upd_data [OF get(1)]) (use put in \<open>simp add: deq_put_def\<close>)
  moreover have "dom (elts pq') = insert pe (dom (elts pq))" using get(4) by (simp add: pq')
  moreover have "prio_id (elt_pri (elts pq') pe) = (ucast b, ws)" using get(3) by (simp add: pq')
  moreover have "elt_pri (elts pq') a = elt_pri (elts pq) a \<and> elt_list (elts pq') a = elt_list (elts pq) a"
    if "a \<noteq> pe" for a
    using payload_eqD [of "elts q" a "elts pq", OF get(5) [OF that]] that by (simp add: pq' elt_list_data_other)
  moreover have "elt_pri (elts pq) pe = elt_pri (elts pq') pe" if "pe \<in> dom (elts pq)"
    using get(6) [OF that] by (simp add: pq')
  moreover have "prioq_view pq (ucast b, ws) = []" if "pe \<notin> dom (elts pq)" strict
    by (rule prioq_view_notin [OF inv get(8) [OF that]])
  moreover have "elt_list (elts pq') pe = ins (if pe \<in> dom (elts pq) then elt_list (elts pq) pe else [])"
  proof -
    obtain e where e: "elts q pe = Some e" using get(2) by blast
    then have "elt_list (elts pq') pe = ins (elt_list (elts q) pe)"
      using put prioq_inv_pri(2) [OF get(1,2)] by (simp add: pq' elt_list_def deq_put_def)
    then show ?thesis using get(6,7) by auto
  qed
  moreover have "heapnext pq' = heapnext q" by (simp add: pq')
  ultimately show ?thesis using get(9,10) by (intro exI [of _ pe]) auto
qed

text \<open>
  The message arrives in the bag of all messages, and, while the table was never enlarged,
  in the deque of its priority.
\<close>

lemma prioq_enqueue_ok:
  fixes pq :: "'m prioq" and put :: "'m deq \<Rightarrow> 'm ptr \<Rightarrow> 'm deq"
  assumes ok: "prioq_ok strict pq" and b: "unat b < 2 ^ 16" "prio_ints b \<le> length ptr"
    and room: "strict \<longrightarrow> heapnext pq \<le> 2 * PRIOQ_TABSIZE"
    and put: "deq_put put x ins"
  defines "ws \<equiv> take (prio_ints b) ptr"
  defines "pq' \<equiv> prioq_enqueue put pq b ptr x"
  shows "prioq_ok strict pq'"
    and "mset (prioq_pairs pq') = add_mset (ws, x) (mset (prioq_pairs pq))"
    and "strict \<Longrightarrow> prioq_view pq' = (prioq_view pq)((ucast b, ws) := ins (prioq_view pq (ucast b, ws)))"
    and "heapnext pq \<le> heapnext pq'" "heapnext pq' \<le> heapnext pq + 1"
proof -
  have inv: "prioq_inv strict pq" and ne: "\<And>a. a \<in> dom (elts pq) \<Longrightarrow> elt_list (elts pq) a \<noteq> []"
    using ok by (auto simp: prioq_ok_def)
  from prioq_enqueue_step [OF ok b room put, folded ws_def pq'_def]
  obtain pe where pe: "prioq_inv strict pq'" "dom (elts pq') = insert pe (dom (elts pq))"
      "prio_id (elt_pri (elts pq') pe) = (ucast b, ws)"
      "\<And>a. a \<noteq> pe \<Longrightarrow> elt_pri (elts pq') a = elt_pri (elts pq) a \<and> elt_list (elts pq') a = elt_list (elts pq) a"
      "pe \<in> dom (elts pq) \<Longrightarrow> elt_pri (elts pq) pe = elt_pri (elts pq') pe"
      "pe \<notin> dom (elts pq) \<Longrightarrow> strict \<Longrightarrow> prioq_view pq (ucast b, ws) = []"
      "elt_list (elts pq') pe = ins (if pe \<in> dom (elts pq) then elt_list (elts pq) pe else [])"
    and hn: "heapnext pq \<le> heapnext pq'" "heapnext pq' \<le> heapnext pq + 1"
    by blast
  show "heapnext pq \<le> heapnext pq'" "heapnext pq' \<le> heapnext pq + 1" by (fact hn)+
  have insne: "ins l \<noteq> []" for l using put by (metis deq_put_def empty_not_add_mset mset.simps(1))
  have "elt_list (elts pq') a \<noteq> []" if "a \<in> dom (elts pq')" for a
    using that pe(2,4,7) ne insne by (cases "a = pe") auto
  with pe(1) show "prioq_ok strict pq'" by (simp add: prioq_ok_def)
  have pe': "pe \<in> dom (elts pq')" by (simp add: pe(2))
  have key: "prio_key (elt_pri (elts pq') pe) = ws"
    using prio_norm_key [OF prioq_inv_pri(1) [OF pe(1) pe']] pe(3) by (simp add: prio_id_def)
  have step: "\<And>a. a \<noteq> pe \<Longrightarrow> a \<in> dom (elts pq) \<Longrightarrow> elt_pri (elts pq') a = elt_pri (elts pq) a
      \<and> elt_list (elts pq') a = elt_list (elts pq) a" using pe(4) by blast
  have "mset (elt_list (elts pq') pe) = add_mset x (mset (if pe \<in> dom (elts pq) then elt_list (elts pq) pe else []))"
    unfolding pe(7) using put by (simp only: deq_put_def)
  with prioq_pairs_step [OF inv pe(1,2) step pe(5)] key
  show "mset (prioq_pairs pq') = add_mset (ws, x) (mset (prioq_pairs pq))" by simp
  assume strict
  with inv pe(1) have inv': "prioq_inv True pq" "prioq_inv True pq'" by simp_all
  have "(if pe \<in> dom (elts pq) then elt_list (elts pq) pe else []) = prioq_view pq (ucast b, ws)"
    using pe(3) pe(5) pe(6) [OF _ \<open>strict\<close>] prioq_view_in [OF inv'(1), of pe]
    by (cases "pe \<in> dom (elts pq)") (simp_all del: domIff)
  with prioq_view_step [OF inv' pe(2) step pe(5)] pe(3,7)
  show "prioq_view pq' = (prioq_view pq)((ucast b, ws) := ins (prioq_view pq (ucast b, ws)))" by simp
qed

section \<open>Dropping the top bucket\<close>

lemma drop_top_hash:
  fixes pq :: "'m prioq"
  assumes inv: "prioq_inv strict pq" and old: "a \<in> dom (elts pq)"
    and un: "ht_unlink a (elts pq, hashtab pq) = (st, tab)"
    and pq': "elts pq' = st(a := None)" "hashtab pq' = tab" "hash_key_size pq' = hash_key_size pq"
  shows "\<exists>cs. hash_inv strict pq' cs" "length tab = hash_key_size pq"
    and "dom (elts pq') = dom (elts pq) - {a}"
    and "b \<noteq> a \<Longrightarrow> map_option payload (elts pq' b) = map_option payload (elts pq b)"
proof -
  from inv obtain cs where cs: "hash_inv strict pq cs" by (auto simp: prioq_inv_def)
  then have ch: "chains (elts pq) (hashtab pq) cs" and dm: "set (concat cs) = dom (elts pq)"
    unfolding hash_inv_def by blast+
  have len: "length cs = length (hashtab pq)" using ch by (simp add: chains_def)
  from old dm obtain i where i: "i < length cs" "a \<in> set (cs ! i)"
    by (metis (no_types, opaque_lifting) UN_E in_set_conv_nth set_concat)
  let ?cs = "cs[i := remove1 a (cs ! i)]"
  from i len have "i < length (hashtab pq)" by simp
  note ch1 = ht_unlink_chains [OF ch this i(2) un]
  have ms: "mset (a # concat ?cs) = mset (concat cs)" by (rule unlink_concat [OF i])
  have "distinct (a # concat ?cs)"
    using mset_eq_imp_distinct_iff [OF ms] ch by (simp only: chains_def)
  then have a: "a \<notin> set (concat ?cs)" by (simp only: distinct.simps not_False_eq_True)
  have set: "insert a (set (concat ?cs)) = dom (elts pq)"
    using mset_eq_setD [OF ms] dm by (simp only: list.set)
  have pay: "map_option payload (st b) = map_option payload (elts pq b)" for b
    by (rule ht_unlink_payload [OF un])
  have dst: "dom st = dom (elts pq)" by (rule ht_unlink_dom [OF un])
  then show dom: "dom (elts pq') = dom (elts pq) - {a}" by (simp add: pq')
  show "length tab = hash_key_size pq" using ch1 len inv by (simp add: chains_def prioq_inv_def)
  show oth: "map_option payload (elts pq' b) = map_option payload (elts pq b)" if "b \<noteq> a" for b
    using that pay [of b] by (simp add: pq')
  have ch2: "chains (elts pq') (hashtab pq') ?cs"
  proof -
    have "chain (st(a := None)) (HTab j) (tab ! j) (?cs ! j)" if j: "j < length tab" for j
    proof (rule chain_cong)
      show "chain st (HTab j) (tab ! j) (?cs ! j)" using ch1 j by (simp add: chains_def)
      fix b assume "b \<in> set (?cs ! j)"
      then have "b \<noteq> a" using concat_notin_nth [OF a, of j] ch1 j by (auto simp only: chains_def)
      then show "map_option links ((st(a := None)) b) = map_option links (st b)" by simp
    qed
    with ch1 show ?thesis by (simp add: chains_def pq')
  qed
  have "placed (elts pq') PRIOQ_TABSIZE ?cs \<and> inj_on (\<lambda>a. prio_id (elt_pri (elts pq') a)) (dom (elts pq'))" if strict
  proof
    have pl: "placed (elts pq) PRIOQ_TABSIZE cs"
      and inj: "inj_on (\<lambda>a. prio_id (elt_pri (elts pq) a)) (dom (elts pq))"
      using cs that by (simp_all add: hash_inv_def)
    have pri: "elt_pri (elts pq') b = elt_pri (elts pq) b" if "b \<noteq> a" for b
      by (rule payload_eqD(1) [of "elts pq'" b "elts pq", OF oth [OF that]])
    have "inj_on (\<lambda>a. prio_id (elt_pri (elts pq) a)) (dom (elts pq'))"
      using inj dom by (auto intro: inj_on_subset)
    then show "inj_on (\<lambda>a. prio_id (elt_pri (elts pq') a)) (dom (elts pq'))"
      using pri dom by (simp add: inj_on_def)
    show "placed (elts pq') PRIOQ_TABSIZE ?cs"
      unfolding placed_elt_pri
    proof (intro allI ballI impI)
      fix j b assume j: "j < length ?cs" and b: "b \<in> set (?cs ! j)" "b \<in> dom (elts pq')"
      from b(1) j have "b \<in> set (cs ! j)" 
        using set_remove1_subset [of a "cs ! i"] by (cases "j = i") auto
      with pl j b(2) dom pri show "home (elt_pri (elts pq') b) PRIOQ_TABSIZE = j"
        by (simp add: placed_elt_pri)
    qed
  qed
  moreover have "set (concat ?cs) = dom (elts pq')" unfolding dom set [symmetric] using a by simp
  ultimately have "hash_inv strict pq' ?cs"
    using ch2 cs pq'(3) unfolding hash_inv_def by simp
  then show "\<exists>cs. hash_inv strict pq' cs" ..
qed

lemma drop_top_heap:
  assumes inv: "heap_inv pq" and ne: "1 < heapnext pq"
    and wf: "\<And>a. a \<in> set (live pq) \<Longrightarrow> prio_wf (elt_pri (elts pq) a)"
  defines "n \<equiv> heapnext pq - 1" and "P \<equiv> elt_pri (elts pq)"
  defines "hp \<equiv> heap_down P (heap pq ! n) (heap pq) n 1"
  shows "pqh.heap_ok P hp n" "length hp = length (heap pq)"
    and "add_mset (heap pq ! 1) (mset (slice (Suc 0) n hp)) = mset (live pq)"
proof -
  let ?h = "heap pq" and ?pe = "heap pq ! n"
  have n: "0 < n" "Suc n = heapnext pq" "n < length ?h" using ne inv by (auto simp: n_def heap_inv_def)
  have live: "live pq = slice (Suc 0) n ?h @ [?pe]"
    using n slice_Suc [of "Suc 0" n ?h] by (simp add: live_def)
  have "pqh.heap_ok P hp n \<and> length hp = length ?h
    \<and> add_mset (?h ! 1) (mset (slice (Suc 0) n hp)) = mset (live pq)"
  proof (cases "n = 1")
    case True
    then have "hp = ?h[1 := ?pe]" by (subst hp_def, subst heap_down.simps) (simp add: Let_def)
    with True show ?thesis unfolding live by (simp add: pqh.heap_ok_def)
  next
    case False
    with n have n1: "1 < n" by simp
    have "pqh.heap_ok P ?h n" using inv n pqh.heap_ok_shrink [of P ?h "heapnext pq" n]
      by (simp add: heap_inv_def P_def)
    then have down: "pqh.down_ok P (?h[1 := ?pe]) n 1" using pqh.down_ok_root [of P ?h n ?pe] n by simp
    have sl: "slice (Suc 0) n (?h[1 := ?pe]) = (slice (Suc 0) n ?h)[0 := ?pe]"
      using n1 slice_update_in [of "Suc 0" 1 n ?h ?pe] by simp
    have len: "0 < length (slice (Suc 0) n ?h)" "slice (Suc 0) n ?h ! 0 = ?h ! 1"
      using n n1 by (simp_all add: nth_slice)
    have "set (slice (Suc 0) n (?h[1 := ?pe])) \<subseteq> set (live pq)"
      unfolding sl live using set_update_subset_insert [of "slice (Suc 0) n ?h" 0 ?pe] by auto
    with wf have "\<And>a. a \<in> set (slice (Suc 0) n (?h[1 := ?pe])) \<Longrightarrow> prio_wf (P a)"
      unfolding P_def by blast
    from heap_down_ok [OF _ n1 _ down this] n(3)
    have hd: "pqh.heap_ok P hp n" "length hp = length ?h"
      "mset (slice (Suc 0) n hp) = mset ((slice (Suc 0) n ?h)[0 := ?pe])"
      by (simp_all add: hp_def sl [simplified])
    obtain y ys where ys: "slice (Suc 0) n ?h = y # ys" using len by (cases "slice (Suc 0) n ?h") auto
    have "add_mset (?h ! 1) (mset (slice (Suc 0) n hp)) = mset (live pq)"
      using hd(3) len unfolding live ys by simp
    with hd show ?thesis by blast
  qed
  then show "pqh.heap_ok P hp n" "length hp = length ?h"
    "add_mset (?h ! 1) (mset (slice (Suc 0) n hp)) = mset (live pq)" by blast+
qed

lemma prioq_top:
  assumes "prioq_inv strict pq" "1 < heapnext pq"
  shows "heap pq ! 1 \<in> dom (elts pq)"
    and "a \<in> dom (elts pq) \<Longrightarrow> prio_key (elt_pri (elts pq) (heap pq ! 1)) \<le> prio_key (elt_pri (elts pq) a)"
proof -
  have hn: "heapnext pq \<le> length (heap pq)" and live: "set (live pq) = dom (elts pq)"
    and ok: "pqh.heap_ok (elt_pri (elts pq)) (heap pq) (heapnext pq)"
    using assms(1) by (simp_all add: prioq_inv_def heap_inv_def)
  show "heap pq ! 1 \<in> dom (elts pq)"
    unfolding live [symmetric] live_def using assms(2) hn by (intro nth_in_slice) auto
  assume "a \<in> dom (elts pq)"
  then obtain i where "a = heap pq ! i" "Suc 0 \<le> i" "i < heapnext pq"
    unfolding live [symmetric] live_def using set_slice [OF hn, of "Suc 0"] by auto
  then show "prio_key (elt_pri (elts pq) (heap pq ! 1)) \<le> prio_key (elt_pri (elts pq) a)"
    using pqh.heap_root_le [OF ok] by simp
qed

lemma prioq_drop_top_ok:
  assumes inv: "prioq_inv strict pq" and ne: "1 < heapnext pq"
  defines "pq' \<equiv> prioq_drop_top pq"
  shows "prioq_inv strict pq'" "dom (elts pq') = dom (elts pq) - {heap pq ! 1}"
    and "b \<noteq> heap pq ! 1 \<Longrightarrow> map_option payload (elts pq' b) = map_option payload (elts pq b)"
    and "heapnext pq' = heapnext pq - 1"
proof -
  let ?a = "heap pq ! 1" and ?n = "heapnext pq - 1"
  note top = prioq_top(1) [OF inv ne]
  have hinv: "heap_inv pq" and live: "set (live pq) = dom (elts pq)"
    using inv by (simp_all add: prioq_inv_def)
  obtain st tab where un: "ht_unlink ?a (elts pq, hashtab pq) = (st, tab)" by fastforce
  have pay: "map_option payload (st b) = map_option payload (elts pq b)" for b
    by (rule ht_unlink_payload [OF un])
  have P: "elt_pri st = elt_pri (elts pq)"
    by (rule ext, rule payload_eqD(1) [of st _ "elts pq", OF pay])
  have pq': "pq' = pq\<lparr>elts := st(?a := None), hashtab := tab, hash_entry_size := hash_entry_size pq - 1,
      heapnext := ?n, heap := heap_down (elt_pri (elts pq)) (heap pq ! ?n) (heap pq) ?n 1\<rparr>"
    using un by (simp add: pq'_def prioq_drop_top_def Let_def P [symmetric])
  have f: "elts pq' = st(?a := None)" "hashtab pq' = tab" "hash_key_size pq' = hash_key_size pq"
    by (simp_all add: pq')
  note hash = drop_top_hash [OF inv top un f]
  show dom: "dom (elts pq') = dom (elts pq) - {?a}" by (rule hash(3))
  show oth: "map_option payload (elts pq' b) = map_option payload (elts pq b)" if "b \<noteq> ?a" for b
    using that by (rule hash(4))
  show hn: "heapnext pq' = heapnext pq - 1" by (simp add: pq')
  have "prio_wf (elt_pri (elts pq) a)" if "a \<in> set (live pq)" for a
    using prio_norm_wf [OF prioq_inv_pri(1) [OF inv]] that live by blast
  note hp = drop_top_heap [OF hinv ne this]
  have ms: "mset (?a # live pq') = mset (live pq)" using hp(3) by (simp add: live_def pq')
  have dist: "distinct (?a # live pq')" using mset_eq_imp_distinct_iff [OF ms] hinv by (simp add: heap_inv_def)
  have "insert ?a (set (live pq')) = set (live pq)" using mset_eq_setD [OF ms] by simp
  then have live': "set (live pq') = dom (elts pq')" using dist dom live by auto
  have pri: "elt_pri (elts pq') a = elt_pri (elts pq) a" if "a \<noteq> ?a" for a
    by (rule payload_eqD(1) [of "elts pq'" a "elts pq", OF oth [OF that]])
  define q where "q = pq\<lparr>heapnext := ?n, heap := heap pq'\<rparr>"
  have "?n \<le> heapsize pq" using hinv unfolding heap_inv_def by linarith
  then have "heap_inv q"
    using hinv hp ne dist by (simp add: heap_inv_def q_def pq' live_def)
  then have "heap_inv pq'"
  proof (rule heap_inv_elts)
    have "live q = live pq'" by (simp add: live_def q_def pq')
    then show "elt_pri (elts pq') a = elt_pri (elts q) a" if "a \<in> set (live q)" for a
      using that dist pri [of a] by (auto simp: q_def)
    show "\<forall>e \<in> ran (elts pq'). deq_inv (elt_data e) \<and> prio_norm (Cqs_Hash.pri e)"
    proof
      fix e assume "e \<in> ran (elts pq')"
      then obtain b where b: "elts pq' b = Some e" by (auto simp: ran_def)
      then have "b \<noteq> ?a" by (auto simp: f)
      from oth [OF this] b obtain e' where "elts pq b = Some e'" "payload e' = payload e"
        by (cases "elts pq b") auto
      then show "deq_inv (elt_data e) \<and> prio_norm (Cqs_Hash.pri e)"
        using hinv by (auto simp: heap_inv_def ran_def payload_def)
    qed
  qed (simp_all add: q_def pq')
  moreover have "\<forall>a \<in> dom (elts pq'). a < brk pq'" using inv dom by (simp add: prioq_inv_def pq')
  ultimately show "prioq_inv strict pq'"
    using hash(1,2) live' inv unfolding prioq_inv_def by (simp add: f hn) (simp add: pq')
qed

section \<open>Dequeueing\<close>

lemma prioq_empty_iff:
  assumes "prioq_ok strict pq"
  shows "heapnext pq = 1 \<longleftrightarrow> prioq_pairs pq = []" "heapnext pq = 1 \<longleftrightarrow> dom (elts pq) = {}"
proof -
  have hn: "0 < heapnext pq" "heapnext pq \<le> length (heap pq)" and live: "set (live pq) = dom (elts pq)"
    and ne: "\<And>a. a \<in> dom (elts pq) \<Longrightarrow> elt_list (elts pq) a \<noteq> []"
    using assms by (auto simp: prioq_ok_def prioq_inv_def heap_inv_def)
  have "length (live pq) = heapnext pq - 1" using hn by (simp add: live_def)
  then have l: "heapnext pq = 1 \<longleftrightarrow> live pq = []" using hn by auto
  also have "\<dots> \<longleftrightarrow> prioq_pairs pq = []"
    unfolding prioq_pairs_def using ne [folded live] by (cases "live pq") auto
  finally show "heapnext pq = 1 \<longleftrightarrow> prioq_pairs pq = []" .
  show "heapnext pq = 1 \<longleftrightarrow> dom (elts pq) = {}" unfolding l live [symmetric] by (simp only: set_empty)
qed

lemma CqsPrioqDequeue_empty: "heapnext pq = 1 \<Longrightarrow> CqsPrioqDequeue pq = (None, pq)"
  by (simp add: CqsPrioqDequeue_def)

text \<open>Both cases of a dequeue from a non-empty queue, described by the top bucket \<open>pe\<close>.\<close>

lemma CqsPrioqDequeue_step:
  fixes pq :: "'m prioq"
  assumes ok: "prioq_ok strict pq" and ne: "heapnext pq \<noteq> 1"
    and eq: "CqsPrioqDequeue pq = (x, pq')"
  defines "pe \<equiv> heap pq ! 1"
  shows "\<exists>rest. elt_list (elts pq) pe = x # rest \<and> prioq_inv strict pq'
    \<and> dom (elts pq') = (if rest = [] then dom (elts pq) - {pe} else dom (elts pq))
    \<and> (rest \<noteq> [] \<longrightarrow> elt_pri (elts pq') pe = elt_pri (elts pq) pe \<and> elt_list (elts pq') pe = rest)
    \<and> (\<forall>a. a \<noteq> pe \<longrightarrow> elt_pri (elts pq') a = elt_pri (elts pq) a \<and> elt_list (elts pq') a = elt_list (elts pq) a)
    \<and> heapnext pq' \<le> heapnext pq"
proof -
  have inv: "prioq_inv strict pq" using ok by (simp add: prioq_ok_def)
  then have n1: "1 < heapnext pq" using ne by (auto simp: prioq_inv_def heap_inv_def)
  note top = prioq_top(1) [OF inv n1, folded pe_def]
  then obtain e where e: "elts pq pe = Some e" by blast
  have de: "deq_inv (elt_data e)" using prioq_inv_pri(2) [OF inv top] e by simp
  have "elt_list (elts pq) pe \<noteq> []" using ok top by (simp add: prioq_ok_def del: domIff)
  then obtain m rest where l: "elt_list (elts pq) pe = m # rest" by (meson neq_Nil_conv)
  obtain y d where yd: "CqsDeqDequeue (elt_data e) = (y, d)" by fastforce
  have d: "y = m" "deq_list d = rest" "deq_inv d"
    using deq_list_dequeue [OF de, of m rest] deq_inv_dequeue [OF de] l e yd by (simp_all add: elt_list_def)
  define q where "q = pq\<lparr>elts := upd_elt pe (\<lambda>e. e\<lparr>elt_data := d\<rparr>) (elts pq)\<rparr>"
  have x: "x = m" and pq': "pq' = (if rest = [] then prioq_drop_top q else q)"
    using eq ne d yd e deq_list_empty_iff [OF d(3)]
    by (auto simp: CqsPrioqDequeue_def Let_def q_def pe_def)
  have qinv: "prioq_inv strict q"
    unfolding q_def by (rule prioq_inv_upd_data [OF inv]) (rule d(3))
  have q: "elt_pri (elts q) a = elt_pri (elts pq) a" "a \<noteq> pe \<Longrightarrow> elt_list (elts q) a = elt_list (elts pq) a"
    "elt_list (elts q) pe = rest" "dom (elts q) = dom (elts pq)" "heapnext q = heapnext pq" "heap q = heap pq" for a
    using e d(2) by (simp_all add: q_def elt_list_def)
  have n1q: "1 < heapnext q" using n1 q(5) by simp
  note dt = prioq_drop_top_ok [OF qinv n1q, unfolded q(6), folded pe_def]
  have "elt_pri (elts pq') a = elt_pri (elts pq) a \<and> elt_list (elts pq') a = elt_list (elts pq) a" if "a \<noteq> pe" for a
    using payload_eqD [of "elts (prioq_drop_top q)" a "elts q", OF dt(3) [OF that]] q(1,2) that
    by (simp add: pq')
  with l x show ?thesis
    using qinv dt(1,2,4) q by (intro exI [of _ rest]) (simp add: pq')
qed

lemma CqsPrioqDequeue_ok:
  fixes pq :: "'m prioq"
  assumes ok: "prioq_ok strict pq" and ne: "heapnext pq \<noteq> 1"
    and eq: "CqsPrioqDequeue pq = (x, pq')"
  defines "p \<equiv> elt_pri (elts pq) (heap pq ! 1)"
  shows "prioq_ok strict pq'"
    and "mset (prioq_pairs pq) = add_mset (prio_key p, x) (mset (prioq_pairs pq'))"
    and "\<forall>(k, m) \<in> set (prioq_pairs pq). prio_key p \<le> k"
    and "strict \<Longrightarrow> prioq_view pq (prio_id p) = x # prioq_view pq' (prio_id p)
      \<and> (\<forall>k. k \<noteq> prio_id p \<longrightarrow> prioq_view pq' k = prioq_view pq k)"
    and "heapnext pq' \<le> heapnext pq"
proof -
  let ?pe = "heap pq ! 1"
  have inv: "prioq_inv strict pq" and lne: "\<And>a. a \<in> dom (elts pq) \<Longrightarrow> elt_list (elts pq) a \<noteq> []"
    using ok by (auto simp: prioq_ok_def)
  then have n1: "1 < heapnext pq" using ne by (auto simp: prioq_inv_def heap_inv_def)
  note top = prioq_top [OF inv n1]
  from CqsPrioqDequeue_step [OF ok ne eq] obtain rest where
    l: "elt_list (elts pq) ?pe = x # rest" and inv': "prioq_inv strict pq'"
    and dom: "dom (elts pq') = (if rest = [] then dom (elts pq) - {?pe} else dom (elts pq))"
    and same: "rest \<noteq> [] \<Longrightarrow> elt_pri (elts pq') ?pe = elt_pri (elts pq) ?pe \<and> elt_list (elts pq') ?pe = rest"
    and oth: "\<And>a. a \<noteq> ?pe \<Longrightarrow> elt_pri (elts pq') a = elt_pri (elts pq) a \<and> elt_list (elts pq') a = elt_list (elts pq) a"
    and hn: "heapnext pq' \<le> heapnext pq"
    by blast
  show "heapnext pq' \<le> heapnext pq" by (rule hn)
  have "elt_list (elts pq') a \<noteq> []" if "a \<in> dom (elts pq')" for a
    using that lne oth [of a] same dom by (cases "a = ?pe"; cases "rest = []") (auto simp del: domIff)
  with inv' show "prioq_ok strict pq'" by (simp add: prioq_ok_def del: domIff)
  show "\<forall>(k, m) \<in> set (prioq_pairs pq). prio_key p \<le> k"
    using top(2) inv by (auto simp: prioq_pairs_def p_def prioq_inv_def simp del: domIff)
  have ins: "dom (elts pq) = insert ?pe (dom (elts pq'))" using dom top(1) by auto
  have ins': "rest \<noteq> [] \<Longrightarrow> dom (elts pq') = insert ?pe (dom (elts pq))" using dom top(1) by auto
  have notin: "rest = [] \<Longrightarrow> ?pe \<notin> dom (elts pq')" using dom by simp
  have oth1: "\<And>a. a \<noteq> ?pe \<Longrightarrow> a \<in> dom (elts pq') \<Longrightarrow> elt_pri (elts pq) a = elt_pri (elts pq') a
      \<and> elt_list (elts pq) a = elt_list (elts pq') a" using oth by simp
  have oth2: "\<And>a. a \<noteq> ?pe \<Longrightarrow> a \<in> dom (elts pq) \<Longrightarrow> elt_pri (elts pq') a = elt_pri (elts pq) a
      \<and> elt_list (elts pq') a = elt_list (elts pq) a" using oth by simp
  have same1: "?pe \<in> dom (elts pq') \<Longrightarrow> elt_pri (elts pq') ?pe = elt_pri (elts pq) ?pe"
    using same notin by blast
  have "(if ?pe \<in> dom (elts pq') then elt_list (elts pq') ?pe else []) = rest"
    using same notin ins' by (cases "rest = []") auto
  with prioq_pairs_step [OF inv' inv ins oth1 same1] l
  show "mset (prioq_pairs pq) = add_mset (prio_key p, x) (mset (prioq_pairs pq'))"
    by (simp add: p_def del: domIff)
  assume strict
  with inv inv' have i: "prioq_inv True pq" "prioq_inv True pq'" by simp_all
  have v: "prioq_view pq (prio_id p) = x # rest" using prioq_view_in [OF i(1) top(1)] l by (simp add: p_def)
  have w: "prioq_view pq = (prioq_view pq')(prio_id p := x # rest)"
    using prioq_view_step [OF i(2,1) ins oth1 same1] l by (simp add: p_def)
  have "prioq_view pq' (prio_id p) = rest"
  proof (cases "rest = []")
    case True
    have "inj_on (\<lambda>a. prio_id (elt_pri (elts pq) a)) (dom (elts pq))"
      using i(1) by (auto simp: prioq_inv_def hash_inv_def)
    then have "prio_id (elt_pri (elts pq') a) \<noteq> prio_id p" if "a \<in> dom (elts pq')" for a
      using that notin [OF True] ins oth [of a] top(1) unfolding p_def inj_on_def by (metis insertCI)
    from prioq_view_notin [OF i(2) this] True show ?thesis by simp
  next
    case False
    with ins' have "?pe \<in> dom (elts pq')" by blast
    from prioq_view_in [OF i(2) this] same [OF False] show ?thesis by (simp add: p_def)
  qed
  with v w show "prioq_view pq (prio_id p) = x # prioq_view pq' (prio_id p)
      \<and> (\<forall>k. k \<noteq> prio_id p \<longrightarrow> prioq_view pq' k = prioq_view pq k)" by simp
qed

end
