(* ===== verification/Cqs_Queue.thy ===== *)
theory Cqs_Queue
  imports Cqs_Prioq_Ops "HOL-Library.Product_Lexorder"
begin

unbundle bit_operations_syntax

text \<open>
  The scheduler queue of \<^verbatim>\<open>src/conv-core/queueing.C\<close> (\<open>Queue_struct\<close> without the STL
  variant): a deque for messages without priority between two priority queues, and the
  strategies that decide where a message goes.
\<close>

section \<open>State and operations\<close>

record 'm queue =
  qlength :: u32
  maxlen :: u32
  zeroprio :: "'m deq"
  negprioq :: "'m prioq"
  posprioq :: "'m prioq"

datatype cqs_error = InvalidStrategy | AssertionFailed

definition CQS_QUEUEING_FIFO :: nat where "CQS_QUEUEING_FIFO = 2"
definition CQS_QUEUEING_LIFO :: nat where "CQS_QUEUEING_LIFO = 3"
definition CQS_QUEUEING_IFIFO :: nat where "CQS_QUEUEING_IFIFO = 4"
definition CQS_QUEUEING_ILIFO :: nat where "CQS_QUEUEING_ILIFO = 5"
definition CQS_QUEUEING_BFIFO :: nat where "CQS_QUEUEING_BFIFO = 6"
definition CQS_QUEUEING_BLIFO :: nat where "CQS_QUEUEING_BLIFO = 7"
definition CQS_QUEUEING_LFIFO :: nat where "CQS_QUEUEING_LFIFO = 8"
definition CQS_QUEUEING_LLIFO :: nat where "CQS_QUEUEING_LLIFO = 9"

lemmas cqs_strategies = CQS_QUEUEING_FIFO_def CQS_QUEUEING_LIFO_def CQS_QUEUEING_IFIFO_def
  CQS_QUEUEING_ILIFO_def CQS_QUEUEING_BFIFO_def CQS_QUEUEING_BLIFO_def CQS_QUEUEING_LFIFO_def
  CQS_QUEUEING_LLIFO_def

definition CqsCreate :: "'m queue" where
  "CqsCreate = \<lparr>qlength = 0, maxlen = 0, zeroprio = CqsDeqInit, negprioq = CqsPrioqInit,
    posprioq = CqsPrioqInit\<rparr>"

definition CqsMaxLength :: "'m queue \<Rightarrow> u32" where "CqsMaxLength q = maxlen q"

definition CqsLength :: "'m queue \<Rightarrow> u32" where "CqsLength q = qlength q"

definition CqsEmpty :: "'m queue \<Rightarrow> bool" where "CqsEmpty q \<longleftrightarrow> qlength q = 0"

text \<open>\<open>q->length++; if (q->length>q->maxlen) q->maxlen=q->length;\<close>\<close>

definition cqs_count :: "'m queue \<Rightarrow> 'm queue" where
  "cqs_count q = (let n = qlength q + 1
     in q\<lparr>qlength := n, maxlen := (if n > maxlen q then n else maxlen q)\<rparr>)"

text \<open>
  The two words of an 8-byte integer in memory order; \<open>en = 0\<close> is little-endian, as
  \<open>CmiEndianness\<close> answers.
\<close>

definition int8_words :: "nat \<Rightarrow> u64 \<Rightarrow> u32 list" where
  "int8_words en x = (if en = 0 then [ucast x, ucast (drop_bit 32 x)]
     else [ucast (drop_bit 32 x), ucast x])"

definition int8_load :: "nat \<Rightarrow> u32 list \<Rightarrow> u64" where
  "int8_load en ws = (if en = 0 then ucast (ws ! 0) OR push_bit 32 (ucast (ws ! 1))
     else push_bit 32 (ucast (ws ! 0)) OR ucast (ws ! 1))"

definition lprio0_of :: "nat \<Rightarrow> u32 list \<Rightarrow> u64" where
  "lprio0_of en prioptr = int8_load en prioptr + 0x8000000000000000"

definition lprio_of :: "nat \<Rightarrow> u64 \<Rightarrow> u64" where
  "lprio_of en lprio0 =
    (if en = 0 then push_bit 32 (ucast (int8_words en lprio0 ! 0)) OR ucast (int8_words en lprio0 ! 1)
     else lprio0)"

text \<open>\<open>d = CqsPrioqGetDeq(...); CqsDeqEnqueue(d, data)\<close> on one of the two priority queues.\<close>

definition cqs_prio_put ::
  "('m deq \<Rightarrow> 'm ptr \<Rightarrow> 'm deq) \<Rightarrow> bool \<Rightarrow> 'm queue \<Rightarrow> u32 \<Rightarrow> u32 list \<Rightarrow> 'm ptr \<Rightarrow> 'm queue" where
  "cqs_prio_put put pos q priobits prioptr data =
    (if pos then q\<lparr>posprioq := prioq_enqueue put (posprioq q) priobits prioptr data\<rparr>
     else q\<lparr>negprioq := prioq_enqueue put (negprioq q) priobits prioptr data\<rparr>)"

definition cqs_iput :: "('m deq \<Rightarrow> 'm ptr \<Rightarrow> 'm deq) \<Rightarrow> 'm queue \<Rightarrow> 'm ptr \<Rightarrow> u32 list \<Rightarrow> 'm queue" where
  "cqs_iput put q data prioptr =
    (let iprio = prioptr ! 0 + 0x80000000
     in cqs_prio_put put (sint iprio < 0) q 32 [iprio] data)"

definition cqs_bput ::
  "('m deq \<Rightarrow> 'm ptr \<Rightarrow> 'm deq) \<Rightarrow> 'm queue \<Rightarrow> 'm ptr \<Rightarrow> u32 \<Rightarrow> u32 list \<Rightarrow> 'm queue" where
  "cqs_bput put q data priobits prioptr =
    cqs_prio_put put (priobits \<noteq> 0 \<and> sint (prioptr ! 0) < 0) q priobits prioptr data"

definition cqs_lput ::
  "nat \<Rightarrow> ('m deq \<Rightarrow> 'm ptr \<Rightarrow> 'm deq) \<Rightarrow> 'm queue \<Rightarrow> 'm ptr \<Rightarrow> u32 \<Rightarrow> u32 list \<Rightarrow> 'm queue" where
  "cqs_lput en put q data priobits prioptr =
    (let lprio0 = lprio0_of en prioptr; lprio = lprio_of en lprio0
     in cqs_prio_put put (sint lprio0 < 0) q priobits (int8_words en lprio) data)"

definition CqsEnqueueGeneral ::
  "nat \<Rightarrow> 'm queue \<Rightarrow> 'm ptr \<Rightarrow> nat \<Rightarrow> u32 \<Rightarrow> u32 list \<Rightarrow> cqs_error + 'm queue" where
  "CqsEnqueueGeneral en q data strategy priobits prioptr =
    (if strategy = CQS_QUEUEING_FIFO then
       Inr (cqs_count (q\<lparr>zeroprio := CqsDeqEnqueueFifo (zeroprio q) data\<rparr>))
     else if strategy = CQS_QUEUEING_LIFO then
       Inr (cqs_count (q\<lparr>zeroprio := CqsDeqEnqueueLifo (zeroprio q) data\<rparr>))
     else if strategy = CQS_QUEUEING_IFIFO then
       Inr (cqs_count (cqs_iput CqsDeqEnqueueFifo q data prioptr))
     else if strategy = CQS_QUEUEING_ILIFO then
       Inr (cqs_count (cqs_iput CqsDeqEnqueueLifo q data prioptr))
     else if strategy = CQS_QUEUEING_BFIFO then
       Inr (cqs_count (cqs_bput CqsDeqEnqueueFifo q data priobits prioptr))
     else if strategy = CQS_QUEUEING_BLIFO then
       Inr (cqs_count (cqs_bput CqsDeqEnqueueLifo q data priobits prioptr))
     else if strategy = CQS_QUEUEING_LFIFO then
       if priobits = 64 then Inr (cqs_count (cqs_lput en CqsDeqEnqueueFifo q data priobits prioptr))
       else Inl AssertionFailed
     else if strategy = CQS_QUEUEING_LLIFO then
       Inr (cqs_count (cqs_lput en CqsDeqEnqueueLifo q data priobits prioptr))
     else Inl InvalidStrategy)"

definition CqsEnqueueFifo :: "'m queue \<Rightarrow> 'm ptr \<Rightarrow> 'm queue" where
  "CqsEnqueueFifo q data = cqs_count (q\<lparr>zeroprio := CqsDeqEnqueueFifo (zeroprio q) data\<rparr>)"

definition CqsEnqueueLifo :: "'m queue \<Rightarrow> 'm ptr \<Rightarrow> 'm queue" where
  "CqsEnqueueLifo q data = cqs_count (q\<lparr>zeroprio := CqsDeqEnqueueLifo (zeroprio q) data\<rparr>)"

definition CqsEnqueue :: "'m queue \<Rightarrow> 'm ptr \<Rightarrow> 'm queue" where
  "CqsEnqueue q data = cqs_count (q\<lparr>zeroprio := CqsDeqEnqueueFifo (zeroprio q) data\<rparr>)"

definition CqsDequeue :: "'m queue \<Rightarrow> 'm ptr \<times> 'm queue" where
  "CqsDequeue q =
    (if qlength q = 0 then (None, q)
     else if heapnext (negprioq q) > 1 then
       let (x, pq) = CqsPrioqDequeue (negprioq q) in (x, q\<lparr>negprioq := pq, qlength := qlength q - 1\<rparr>)
     else if head (zeroprio q) \<noteq> tail (zeroprio q) then
       let (x, d) = CqsDeqDequeue (zeroprio q) in (x, q\<lparr>zeroprio := d, qlength := qlength q - 1\<rparr>)
     else if heapnext (posprioq q) > 1 then
       let (x, pq) = CqsPrioqDequeue (posprioq q) in (x, q\<lparr>posprioq := pq, qlength := qlength q - 1\<rparr>)
     else (None, q))"

definition kprio_zero :: prio where "kprio_zero = \<lparr>bits = 0, ints = 0, pdata = [0]\<rparr>"

definition kprio_max :: prio where "kprio_max = \<lparr>bits = 32, ints = 1, pdata = [- 1]\<rparr>"

definition CqsGetPriority :: "'m queue \<Rightarrow> prio" where
  "CqsGetPriority q =
    (if heapnext (negprioq q) > 1 then elt_pri (elts (negprioq q)) (heap (negprioq q) ! 1)
     else if head (zeroprio q) \<noteq> tail (zeroprio q) then kprio_zero
     else if heapnext (posprioq q) > 1 then elt_pri (elts (posprioq q)) (heap (posprioq q) ! 1)
     else kprio_max)"

text \<open>Both loops over the heap walk each bucket as \<open>CqsEnumerateDeq\<close> walks a deque.\<close>

definition CqsEnumeratePrioq :: "'m prioq \<Rightarrow> 'm ptr list \<times> nat" where
  "CqsEnumeratePrioq pq =
    (let bucket = \<lambda>i. CqsEnumerateDeq (elt_data (the (elts pq (heap pq ! i))))
     in (concat (map (fst \<circ> bucket) [1..<heapnext pq]), sum_list (map (snd \<circ> bucket) [1..<heapnext pq])))"

definition CqsEnumerateQueue :: "'m queue \<Rightarrow> 'm ptr list" where
  "CqsEnumerateQueue q =
    (let (neg, n) = CqsEnumeratePrioq (negprioq q);
         (zero, z) = CqsEnumerateDeq (zeroprio q);
         (pos, p) = CqsEnumeratePrioq (posprioq q)
     in take n neg @ take z zero @ take p pos)"

fun remove_buckets :: "'m elts \<Rightarrow> addr list \<Rightarrow> 'm ptr \<Rightarrow> nat \<times> 'm elts" where
  "remove_buckets st [] msgPtr = (0, st)"
| "remove_buckets st (pe # pes) msgPtr =
    (let d = elt_data (the (st pe)) in
     case deq_find d (length (buf d)) (head d) msgPtr of
       Some i \<Rightarrow> (1, upd_elt pe (\<lambda>e. e\<lparr>elt_data := d\<lparr>buf := (buf d)[i := None]\<rparr>\<rparr>) st)
     | None \<Rightarrow> remove_buckets st pes msgPtr)"

definition CqsRemoveSpecificPrioq :: "'m prioq \<Rightarrow> 'm ptr \<Rightarrow> nat \<times> 'm prioq" where
  "CqsRemoveSpecificPrioq pq msgPtr =
    (let (n, st) = remove_buckets (elts pq) (map ((!) (heap pq)) [1..<heapnext pq]) msgPtr
     in (n, pq\<lparr>elts := st\<rparr>))"

definition CqsRemoveSpecific :: "'m queue \<Rightarrow> 'm ptr \<Rightarrow> 'm queue" where
  "CqsRemoveSpecific q msgPtr =
    (let (n, neg) = CqsRemoveSpecificPrioq (negprioq q) msgPtr; q = q\<lparr>negprioq := neg\<rparr>
     in if n = 0 \<and> CqsRemoveSpecificDeq (zeroprio q) msgPtr = 0
        then q\<lparr>posprioq := snd (CqsRemoveSpecificPrioq (posprioq q) msgPtr)\<rparr> else q)"

end
