(* ===== verification/Cqs_Queue_Order.thy ===== *)
theory Cqs_Queue_Order
  imports Cqs_Queue
begin

unbundle bit_operations_syntax

text \<open>
  The specification of the scheduler queue: every message has a rank, a queue is a bag of
  ranked messages, a dequeue takes one of smallest rank. The rank of a message with an
  integer priority orders like the signed integer.
\<close>

section \<open>Ranks\<close>

text \<open>
  0, 1, 2 for the negative, the zero and the positive queue, then the words of the priority.
\<close>

type_synonym rank = "nat \<times> u32 list"

definition cqs_iprio :: "u32 list \<Rightarrow> u32" where
  "cqs_iprio ptr = ptr ! 0 + 0x80000000"

definition cqs_rank :: "nat \<Rightarrow> nat \<Rightarrow> u32 \<Rightarrow> u32 list \<Rightarrow> rank" where
  "cqs_rank en strategy priobits ptr =
    (if strategy \<in> {CQS_QUEUEING_IFIFO, CQS_QUEUEING_ILIFO} then
       (if sint (cqs_iprio ptr) < 0 then 2 else 0, [cqs_iprio ptr])
     else if strategy \<in> {CQS_QUEUEING_BFIFO, CQS_QUEUEING_BLIFO} then
       (if priobits \<noteq> 0 \<and> sint (ptr ! 0) < 0 then 2 else 0, take (prio_ints priobits) ptr)
     else if strategy \<in> {CQS_QUEUEING_LFIFO, CQS_QUEUEING_LLIFO} then
       (if sint (lprio0_of en ptr) < 0 then 2 else 0,
        [ucast (drop_bit 32 (lprio0_of en ptr)), ucast (lprio0_of en ptr)])
     else (1, []))"

text \<open>What the callers of \<open>CqsEnqueueGeneral\<close> must pass.\<close>

definition cqs_req :: "nat \<Rightarrow> u32 \<Rightarrow> u32 list \<Rightarrow> bool" where
  "cqs_req strategy priobits ptr \<longleftrightarrow>
    strategy \<in> {CQS_QUEUEING_FIFO, CQS_QUEUEING_LIFO}
    \<or> strategy \<in> {CQS_QUEUEING_IFIFO, CQS_QUEUEING_ILIFO} \<and> ptr \<noteq> []
    \<or> strategy \<in> {CQS_QUEUEING_BFIFO, CQS_QUEUEING_BLIFO}
        \<and> unat priobits < 2 ^ 16 \<and> prio_ints priobits \<le> length ptr
    \<or> strategy \<in> {CQS_QUEUEING_LFIFO, CQS_QUEUEING_LLIFO} \<and> priobits = 64 \<and> 2 \<le> length ptr"

lemma take_bit_words: "ucast (x :: u64) = (ucast (take_bit 32 x) :: u32)"
  by (rule bit_word_eqI) (simp add: bit_simps)

lemma int8_words_lprio:
  "int8_words en (lprio_of en x) = [ucast (drop_bit 32 x), ucast x]"
proof (cases "en = 0")
  case True
  have "ucast (push_bit 32 (ucast (ucast x :: u32)) OR ucast (ucast (drop_bit 32 x) :: u32) :: u64)
      = (ucast (drop_bit 32 x) :: u32)"
    by (rule bit_word_eqI) (auto simp: bit_simps)
  moreover have "ucast (drop_bit 32 (push_bit 32 (ucast (ucast x :: u32))
      OR ucast (ucast (drop_bit 32 x) :: u32) :: u64)) = (ucast x :: u32)"
    by (rule bit_word_eqI) (auto simp: bit_simps)
  ultimately show ?thesis using True by (simp add: int8_words_def lprio_of_def)
next
  case False
  then show ?thesis by (simp add: int8_words_def lprio_of_def)
qed

text \<open>Adding the sign bit turns the signed order into the unsigned one.\<close>

lemma sint_bias_32: "sint (p :: u32) = uint (p + 0x80000000) - 2 ^ 31"
  by (simp add: sint_uint signed_take_bit_eq_take_bit_shift uint_word_ariths take_bit_eq_mod)

lemma sint_bias_64: "sint (p :: u64) = uint (p + 0x8000000000000000) - 2 ^ 63"
  by (simp add: sint_uint signed_take_bit_eq_take_bit_shift uint_word_ariths take_bit_eq_mod)

lemma bias_order_32: "(p :: u32) + 0x80000000 < q + 0x80000000 \<longleftrightarrow> sint p < sint q"
  by (simp add: sint_bias_32 word_less_def)

lemma bias_order_64: "(p :: u64) + 0x8000000000000000 < q + 0x8000000000000000 \<longleftrightarrow> sint p < sint q"
  by (simp add: sint_bias_64 word_less_def)

lemma wrap_half:
  assumes "0 \<le> u" "u < 2 * h"
  shows "(u + h) mod (2 * h) = (if u < h then u + h else u - (h :: int))"
proof (cases "u < h")
  case True
  with assms show ?thesis by (simp add: mod_pos_pos_trivial)
next
  case False
  have "(u - h + 2 * h) mod (2 * h) = (u - h) mod (2 * h)" by (rule mod_add_self2)
  moreover have "(u - h) mod (2 * h) = u - h" using assms False by (intro mod_pos_pos_trivial) auto
  moreover have "u - h + 2 * h = u + h" by simp
  ultimately show ?thesis using False by simp
qed

lemma sint_neg_32: "sint (w :: u32) < 0 \<longleftrightarrow> 0x80000000 \<le> w"
  using wrap_half [of "uint w" "2 ^ 31"] unsigned_less [of w, where ?'a = int]
  by (simp add: sint_bias_32 uint_word_ariths word_le_def)

lemma sint_neg_64: "sint (w :: u64) < 0 \<longleftrightarrow> 0x8000000000000000 \<le> w"
  using wrap_half [of "uint w" "2 ^ 63"] unsigned_less [of w, where ?'a = int]
  by (simp add: sint_bias_64 uint_word_ariths word_le_def)

lemma split_order_64:
  "[ucast (drop_bit 32 x), ucast x] < [ucast (drop_bit 32 y), ucast y :: u32] \<longleftrightarrow> x < (y :: u64)"
proof -
  have u: "unat (ucast (drop_bit 32 z) :: u32) = unat z div 2 ^ 32" "unat (ucast z :: u32) = unat z mod 2 ^ 32"
    for z :: u64
  proof -
    have z: "unat z < 2 ^ 64" using unsigned_less [of z, where ?'a = nat] by simp
    then show "unat (ucast (drop_bit 32 z) :: u32) = unat z div 2 ^ 32"
      by (simp add: unsigned_ucast_eq unsigned_take_bit_eq unsigned_drop_bit_eq take_bit_eq_mod drop_bit_eq_div unat_div)
    show "unat (ucast z :: u32) = unat z mod 2 ^ 32"
      by (simp add: unsigned_ucast_eq unsigned_take_bit_eq take_bit_eq_mod)
  qed
  have "(a :: nat) div n < b div n \<or> a div n = b div n \<and> a mod n < b mod n \<longleftrightarrow> a < b" for a b n
  proof (cases "a div n" "b div n" rule: linorder_cases)
    case less
    moreover from less have "a < b" using div_le_mono [of b a n] by (meson leD linorder_le_less_linear)
    ultimately show ?thesis by simp
  next
    case equal
    then show ?thesis using div_mult_mod_eq [of a n] div_mult_mod_eq [of b n]
      by (metis less_irrefl nat_add_left_cancel_less)
  next
    case greater
    moreover from greater have "b < a" using div_le_mono [of a b n] by (meson leD linorder_le_less_linear)
    ultimately show ?thesis by simp
  qed
  then have "unat x < unat y \<longleftrightarrow> unat x div 2 ^ 32 < unat y div 2 ^ 32
      \<or> unat x div 2 ^ 32 = unat y div 2 ^ 32 \<and> unat x mod 2 ^ 32 < unat y mod 2 ^ 32" by (rule sym)
  then show ?thesis
    by (simp only: word_less_nat_alt word_unat_eq_iff u(1) [of x] u(1) [of y] u(2) [of x] u(2) [of y]
      Cons_less_Cons less_list_code simp_thms)
qed
text \<open>
  Messages with integer priorities of either width are ordered by the signed value, so
  negative priorities come before messages without priority and those before the rest.
\<close>

lemma rank_integer:
  assumes "strategy \<in> {CQS_QUEUEING_IFIFO, CQS_QUEUEING_ILIFO}"
  shows "cqs_rank en strategy b p < cqs_rank en strategy b q \<longleftrightarrow> sint (p ! 0) < sint (q ! 0)"
    and "cqs_rank en strategy b p < (1, []) \<longleftrightarrow> sint (p ! 0) < 0"
proof -
  have rank: "cqs_rank en strategy b r = (if 0x80000000 \<le> cqs_iprio r then 2 else 0, [cqs_iprio r])" for r
    using assms by (simp add: cqs_rank_def sint_neg_32)
  have "cqs_rank en strategy b p < cqs_rank en strategy b q \<longleftrightarrow> cqs_iprio p < cqs_iprio q"
    unfolding rank less_prod_def by (auto simp: not_le dest: less_le_trans)
  then show "cqs_rank en strategy b p < cqs_rank en strategy b q \<longleftrightarrow> sint (p ! 0) < sint (q ! 0)"
    by (simp add: cqs_iprio_def bias_order_32)
  have "cqs_rank en strategy b p < (1, []) \<longleftrightarrow> cqs_iprio p < 0 + 0x80000000"
    unfolding rank by (auto simp: not_le not_less)
  then show "cqs_rank en strategy b p < (1, []) \<longleftrightarrow> sint (p ! 0) < 0"
    unfolding cqs_iprio_def bias_order_32 by simp
qed

lemma rank_long:
  assumes "strategy \<in> {CQS_QUEUEING_LFIFO, CQS_QUEUEING_LLIFO}"
  shows "cqs_rank en strategy b p < cqs_rank en strategy b q \<longleftrightarrow>
      sint (int8_load en p) < sint (int8_load en q)"
    and "cqs_rank en strategy b p < (1, []) \<longleftrightarrow> sint (int8_load en p) < 0"
proof -
  define ws where "ws x = [ucast (drop_bit 32 x), ucast x :: u32]" for x :: u64
  have rank: "cqs_rank en strategy b r =
      (if 0x8000000000000000 \<le> lprio0_of en r then 2 else 0, ws (lprio0_of en r))" for r
    using assms by (auto simp: cqs_rank_def sint_neg_64 ws_def cqs_strategies)
  have "cqs_rank en strategy b p < cqs_rank en strategy b q \<longleftrightarrow> lprio0_of en p < lprio0_of en q"
    unfolding rank less_prod_def using split_order_64
    by (auto simp: not_le ws_def dest: less_le_trans)
  then show "cqs_rank en strategy b p < cqs_rank en strategy b q \<longleftrightarrow>
      sint (int8_load en p) < sint (int8_load en q)"
    by (simp add: lprio0_of_def bias_order_64)
  have "cqs_rank en strategy b p < (1, []) \<longleftrightarrow> lprio0_of en p < 0 + 0x8000000000000000"
    unfolding rank by (auto simp: not_le not_less)
  then show "cqs_rank en strategy b p < (1, []) \<longleftrightarrow> sint (int8_load en p) < 0"
    unfolding lprio0_of_def bias_order_64 by simp
qed

section \<open>The queue as a bag of ranked messages\<close>

definition queue_pairs :: "'m queue \<Rightarrow> (rank \<times> 'm ptr) list" where
  "queue_pairs q = map (\<lambda>(k, m). ((0, k), m)) (prioq_pairs (negprioq q))
    @ map (\<lambda>m. ((1, []), m)) (deq_list (zeroprio q))
    @ map (\<lambda>(k, m). ((2, k), m)) (prioq_pairs (posprioq q))"

text \<open>Messages of one priority in the order in which they leave: class, bit count and words.\<close>

type_synonym slot = "nat \<times> u16 \<times> u32 list"

definition queue_view :: "'m queue \<Rightarrow> slot \<Rightarrow> 'm ptr list" where
  "queue_view q = (\<lambda>(c, k). if c = 0 then prioq_view (negprioq q) k
     else if c = 2 then prioq_view (posprioq q) k
     else if c = 1 \<and> k = (0, []) then deq_list (zeroprio q) else [])"

definition cqs_slot :: "nat \<Rightarrow> nat \<Rightarrow> u32 \<Rightarrow> u32 list \<Rightarrow> slot" where
  "cqs_slot en strategy priobits ptr =
    (let (c, ws) = cqs_rank en strategy priobits ptr
     in (c, if strategy \<in> {CQS_QUEUEING_IFIFO, CQS_QUEUEING_ILIFO} then 32
            else if strategy \<in> {CQS_QUEUEING_FIFO, CQS_QUEUEING_LIFO} then 0 else ucast priobits, ws))"

text \<open>What a strategy does to the messages of the same priority.\<close>

definition cqs_ins :: "nat \<Rightarrow> 'm ptr \<Rightarrow> 'm ptr list \<Rightarrow> 'm ptr list" where
  "cqs_ins strategy x l =
    (if strategy \<in> {CQS_QUEUEING_FIFO, CQS_QUEUEING_IFIFO, CQS_QUEUEING_BFIFO, CQS_QUEUEING_LFIFO}
     then l @ [x] else x # l)"

text \<open>
  \<open>queue_ok strict q\<close>: well-formed, with a correct length. \<open>strict\<close> says that no bucket table
  was ever enlarged.
\<close>

definition queue_ok :: "bool \<Rightarrow> 'm queue \<Rightarrow> bool" where
  "queue_ok strict q \<longleftrightarrow> deq_inv (zeroprio q) \<and> prioq_ok strict (negprioq q)
    \<and> prioq_ok strict (posprioq q) \<and> length (queue_pairs q) < 2 ^ 32
    \<and> qlength q = of_nat (length (queue_pairs q)) \<and> qlength q \<le> maxlen q"

lemma prioq_pairs_init [simp]: "prioq_pairs CqsPrioqInit = []"
  by (simp add: prioq_pairs_def live_def CqsPrioqInit_def)

lemma queue_pairs_create [simp]: "queue_pairs CqsCreate = []"
  by (simp add: queue_pairs_def CqsCreate_def)

lemma queue_ok_create: "queue_ok strict CqsCreate"
  by (simp add: queue_ok_def) (simp add: CqsCreate_def prioq_ok_init)

lemma qlength_zero:
  assumes "queue_ok strict q"
  shows "qlength q = 0 \<longleftrightarrow> queue_pairs q = []"
proof -
  have "unat (of_nat (length (queue_pairs q)) :: u32) = length (queue_pairs q)"
    using assms by (simp add: queue_ok_def unsigned_of_nat take_bit_nat_eq_self)
  then show ?thesis using assms by (metis length_0_conv queue_ok_def unat_eq_zero)
qed

end
