(* ===== verification/Cqs_Queue_Thms.thy ===== *)
theory Cqs_Queue_Thms
  imports Cqs_Queue_Order
begin

text \<open>
  The scheduler queue meets its specification: the operations keep the queue well-formed,
  no message is lost or duplicated, a dequeue takes a message of smallest rank, and messages
  of one priority leave in the order of the strategy.
\<close>

lemma queue_view_simps [simp]:
  "queue_view q (0, k) = prioq_view (negprioq q) k" "queue_view q (2, k) = prioq_view (posprioq q) k"
  "queue_view q (1, 0, []) = deq_list (zeroprio q)" "queue_view q (Suc 0, 0, []) = deq_list (zeroprio q)"
  by (simp_all add: queue_view_def)

section \<open>Two queues that differ in one part\<close>

lemma queue_same:
  assumes "zeroprio q1 = zeroprio q" "negprioq q1 = negprioq q" "posprioq q1 = posprioq q"
  shows "queue_pairs q1 = queue_pairs q" "queue_view q1 = queue_view q"
  using assms by (auto simp: queue_pairs_def queue_view_def)

lemma queue_neg:
  assumes "zeroprio q1 = zeroprio q" "posprioq q1 = posprioq q"
  shows "mset (prioq_pairs (negprioq q1)) = add_mset (w, x) (mset (prioq_pairs (negprioq q))) \<Longrightarrow>
      mset (queue_pairs q1) = add_mset ((0, w), x) (mset (queue_pairs q))"
    and "prioq_view (negprioq q1) = (prioq_view (negprioq q))(k := l) \<Longrightarrow>
      queue_view q1 = (queue_view q)((0, k) := l)"
  using assms by (auto simp: queue_pairs_def queue_view_def)

lemma queue_pos:
  assumes "zeroprio q1 = zeroprio q" "negprioq q1 = negprioq q"
  shows "mset (prioq_pairs (posprioq q1)) = add_mset (w, x) (mset (prioq_pairs (posprioq q))) \<Longrightarrow>
      mset (queue_pairs q1) = add_mset ((2, w), x) (mset (queue_pairs q))"
    and "prioq_view (posprioq q1) = (prioq_view (posprioq q))(k := l) \<Longrightarrow>
      queue_view q1 = (queue_view q)((2, k) := l)"
  using assms by (auto simp: queue_pairs_def queue_view_def)

lemma queue_zero:
  assumes "negprioq q1 = negprioq q" "posprioq q1 = posprioq q"
  shows "mset (deq_list (zeroprio q1)) = add_mset x (mset (deq_list (zeroprio q))) \<Longrightarrow>
      mset (queue_pairs q1) = add_mset ((1, []), x) (mset (queue_pairs q))"
    and "queue_view q1 = (queue_view q)((1, 0, []) := deq_list (zeroprio q1))"
  using assms by (auto simp: queue_pairs_def queue_view_def)

section \<open>Enqueueing\<close>

lemma queue_count:
  assumes "queue_ok strict q" "length (queue_pairs q) < 2 ^ 32 - 1"
    and "deq_inv (zeroprio q1)" "prioq_ok strict (negprioq q1)" "prioq_ok strict (posprioq q1)"
    and "qlength q1 = qlength q" "mset (queue_pairs q1) = add_mset y (mset (queue_pairs q))"
  shows "queue_ok strict (cqs_count q1)"
    and "queue_pairs (cqs_count q1) = queue_pairs q1" "queue_view (cqs_count q1) = queue_view q1"
    and "negprioq (cqs_count q1) = negprioq q1" "posprioq (cqs_count q1) = posprioq q1"
    and "zeroprio (cqs_count q1) = zeroprio q1"
proof -
  show same: "negprioq (cqs_count q1) = negprioq q1" "posprioq (cqs_count q1) = posprioq q1"
    "zeroprio (cqs_count q1) = zeroprio q1"
    by (simp_all add: cqs_count_def Let_def)
  show pv: "queue_pairs (cqs_count q1) = queue_pairs q1" "queue_view (cqs_count q1) = queue_view q1"
    by (rule queue_same; simp add: same)+
  have "length (queue_pairs q1) = Suc (length (queue_pairs q))"
    using assms(7) by (metis size_add_mset size_mset)
  with assms same pv show "queue_ok strict (cqs_count q1)"
    by (simp add: queue_ok_def) (simp add: cqs_count_def Let_def not_less)
qed

definition queue_room :: "'m queue \<Rightarrow> bool" where
  "queue_room q \<longleftrightarrow> heapnext (negprioq q) \<le> 2 * PRIOQ_TABSIZE \<and> heapnext (posprioq q) \<le> 2 * PRIOQ_TABSIZE"

text \<open>What an enqueue does before the length is updated.\<close>

definition put_ok :: "bool \<Rightarrow> 'm queue \<Rightarrow> 'm queue \<Rightarrow> rank \<Rightarrow> slot \<Rightarrow> ('m ptr list \<Rightarrow> 'm ptr list) \<Rightarrow> 'm ptr \<Rightarrow> bool"
where
  "put_ok strict q q1 r k ins x \<longleftrightarrow> deq_inv (zeroprio q1) \<and> prioq_ok strict (negprioq q1)
    \<and> prioq_ok strict (posprioq q1) \<and> qlength q1 = qlength q
    \<and> mset (queue_pairs q1) = add_mset (r, x) (mset (queue_pairs q))
    \<and> (strict \<longrightarrow> queue_view q1 = (queue_view q)(k := ins (queue_view q k)))"

lemma prio_put_ok:
  fixes pos :: bool
  assumes "queue_ok strict q" "strict \<longrightarrow> queue_room q"
    and "unat b < 2 ^ 16" "prio_ints b \<le> length ptr"
    and put: "deq_put put x ins"
  defines "c \<equiv> (if pos then 2 else 0)" and "ws \<equiv> take (prio_ints b) ptr"
  shows "put_ok strict q (cqs_prio_put put pos q b ptr x) (c, ws) (c, ucast b, ws) ins x"
proof (cases pos)
  case True
  let ?q1 = "cqs_prio_put put pos q b ptr x"
  have f: "zeroprio ?q1 = zeroprio q" "negprioq ?q1 = negprioq q"
    "prioq_enqueue put (posprioq q) b ptr x = posprioq ?q1" "qlength ?q1 = qlength q"
    using True by (simp_all add: cqs_prio_put_def)
  have ok: "prioq_ok strict (posprioq q)" "strict \<longrightarrow> heapnext (posprioq q) \<le> 2 * PRIOQ_TABSIZE"
    using assms(1,2) by (simp_all add: queue_ok_def queue_room_def)
  note e = prioq_enqueue_ok [OF ok(1) assms(3,4) ok(2) put, unfolded f(3)]
  show ?thesis
    unfolding put_ok_def f(1,2,4)
    using assms(1) e(1) queue_pos(1) [OF f(1,2) e(2)] queue_pos(2) [OF f(1,2) e(3)]
    by (intro conjI impI) (simp_all add: c_def ws_def queue_ok_def True)
next
  case False
  let ?q1 = "cqs_prio_put put pos q b ptr x"
  have f: "zeroprio ?q1 = zeroprio q" "posprioq ?q1 = posprioq q"
    "prioq_enqueue put (negprioq q) b ptr x = negprioq ?q1" "qlength ?q1 = qlength q"
    using False by (simp_all add: cqs_prio_put_def)
  have ok: "prioq_ok strict (negprioq q)" "strict \<longrightarrow> heapnext (negprioq q) \<le> 2 * PRIOQ_TABSIZE"
    using assms(1,2) by (simp_all add: queue_ok_def queue_room_def)
  note e = prioq_enqueue_ok [OF ok(1) assms(3,4) ok(2) put, unfolded f(3)]
  show ?thesis
    unfolding put_ok_def f(1,2,4)
    using assms(1) e(1) queue_neg(1) [OF f(1,2) e(2)] queue_neg(2) [OF f(1,2) e(3)]
    by (intro conjI impI) (simp_all add: c_def ws_def queue_ok_def False)
qed

lemma zero_put_ok:
  assumes "queue_ok strict q" "deq_put put x ins"
  shows "put_ok strict q (q\<lparr>zeroprio := put (zeroprio q) x\<rparr>) (1, []) (1, 0, []) ins x"
proof -
  let ?q1 = "q\<lparr>zeroprio := put (zeroprio q) x\<rparr>"
  have "deq_inv (zeroprio ?q1)" "deq_list (zeroprio ?q1) = ins (deq_list (zeroprio q))"
    "mset (deq_list (zeroprio ?q1)) = add_mset x (mset (deq_list (zeroprio q)))"
    using assms by (simp_all add: queue_ok_def deq_put_def)
  then show ?thesis
    using assms(1) queue_zero(1) [of ?q1 q x] queue_zero(2) [of ?q1 q]
    unfolding put_ok_def by (intro conjI impI) (simp_all add: queue_ok_def)
qed

lemma put_generalI:
  "put_ok strict q q1 r k ins x \<Longrightarrow> E = Inr (cqs_count q1) \<Longrightarrow> r' = r \<Longrightarrow> k' = k \<Longrightarrow> ins' = ins \<Longrightarrow>
    \<exists>q1. E = Inr (cqs_count q1) \<and> put_ok strict q q1 r' k' ins' x"
  by blast

lemma put_general:
  assumes "queue_ok strict q" "strict \<longrightarrow> queue_room q" "cqs_req strategy b ptr"
  shows "\<exists>q1. CqsEnqueueGeneral en q x strategy b ptr = Inr (cqs_count q1)
    \<and> put_ok strict q q1 (cqs_rank en strategy b ptr) (cqs_slot en strategy b ptr) (cqs_ins strategy x) x"
proof -
  note pp = prio_put_ok [OF assms(1,2)]
  have p32: "unat (32 :: u32) < 2 ^ 16" "prio_ints 32 \<le> length [w]" for w :: u32
    by (simp_all add: prio_ints_32)
  have p64: "unat (64 :: u32) < 2 ^ 16" "prio_ints 64 \<le> length [w, v]" for w v :: u32
    by (simp_all add: prio_ints_64)
  note f = pp [OF p32 deq_put_fifo, of "sint (cqs_iprio ptr) < 0" "cqs_iprio ptr" x]
    pp [OF p64 deq_put_fifo, of "sint (lprio0_of en ptr) < 0" "ucast (drop_bit 32 (lprio0_of en ptr))" "ucast (lprio0_of en ptr)" x]
    pp [of b ptr, OF _ _ deq_put_fifo, of "b \<noteq> 0 \<and> sint (ptr ! 0) < 0" x] zero_put_ok [OF assms(1) deq_put_fifo, of x]
  note l = pp [OF p32 deq_put_lifo, of "sint (cqs_iprio ptr) < 0" "cqs_iprio ptr" x]
    pp [OF p64 deq_put_lifo, of "sint (lprio0_of en ptr) < 0" "ucast (drop_bit 32 (lprio0_of en ptr))" "ucast (lprio0_of en ptr)" x]
    pp [of b ptr, OF _ _ deq_put_lifo, of "b \<noteq> 0 \<and> sint (ptr ! 0) < 0" x] zero_put_ok [OF assms(1) deq_put_lifo, of x]
  note defs = CqsEnqueueGeneral_def cqs_iput_def cqs_bput_def cqs_lput_def cqs_rank_def cqs_slot_def
    cqs_ins_def cqs_strategies Let_def cqs_iprio_def int8_words_lprio prio_ints_32 prio_ints_64 fun_eq_iff
  from assms(3) consider "strategy = 2" | "strategy = 3" | "strategy = 4" | "strategy = 5"
    | "strategy = 6" "unat b < 2 ^ 16" "prio_ints b \<le> length ptr"
    | "strategy = 7" "unat b < 2 ^ 16" "prio_ints b \<le> length ptr"
    | "strategy = 8" "b = 64" | "strategy = 9" "b = 64"
    by (auto simp: cqs_req_def cqs_strategies)
  then show ?thesis
  proof cases
    case 1
    show ?thesis by (rule put_generalI [OF f(4)]) (simp_all add: defs 1)
  next
    case 2
    show ?thesis by (rule put_generalI [OF l(4)]) (simp_all add: defs 2)
  next
    case 3
    show ?thesis by (rule put_generalI [OF f(1)]) (simp_all add: defs 3)
  next
    case 4
    show ?thesis by (rule put_generalI [OF l(1)]) (simp_all add: defs 4)
  next
    case 5
    show ?thesis by (rule put_generalI [OF f(3) [OF 5(2,3)]]) (simp_all add: defs 5)
  next
    case 6
    show ?thesis by (rule put_generalI [OF l(3) [OF 6(2,3)]]) (simp_all add: defs 6)
  next
    case 7
    show ?thesis by (rule put_generalI [OF f(2)]) (simp_all add: defs 7)
  next
    case 8
    show ?thesis by (rule put_generalI [OF l(2)]) (simp_all add: defs 8)
  qed
qed

section \<open>Dequeueing\<close>

lemma queue_uncount:
  assumes "queue_ok strict q" "qlength q' = qlength q - 1" "maxlen q' = maxlen q"
    and "deq_inv (zeroprio q')" "prioq_ok strict (negprioq q')" "prioq_ok strict (posprioq q')"
    and "mset (queue_pairs q) = add_mset y (mset (queue_pairs q'))"
  shows "queue_ok strict q'"
proof -
  let ?n = "length (queue_pairs q')"
  have n: "length (queue_pairs q) = Suc ?n" using assms(7) by (metis size_add_mset size_mset)
  have lt: "Suc ?n < 2 ^ 32" and q: "qlength q = of_nat (Suc ?n)" "qlength q \<le> maxlen q"
    using assms(1) n by (auto simp: queue_ok_def)
  have q': "qlength q' = of_nat ?n" using q(1) assms(2) by simp
  have "unat (of_nat ?n :: u32) = ?n" "unat (of_nat (Suc ?n) :: u32) = Suc ?n"
    using lt by (simp_all add: unsigned_of_nat take_bit_nat_eq_self del: of_nat_Suc)
  then have "qlength q' \<le> qlength q" unfolding q' q(1) word_le_nat_alt by simp
  then have "qlength q' \<le> maxlen q'" using q(2) assms(3) by simp
  moreover have "?n < 2 ^ 32" using lt by simp
  ultimately show ?thesis unfolding queue_ok_def using q' assms(4-6) by blast
qed

text \<open>The outcome \<open>(x, q')\<close> of taking a message of slot \<open>(c, k)\<close> from \<open>q\<close>.\<close>

definition take_ok :: "bool \<Rightarrow> 'm queue \<Rightarrow> 'm queue \<Rightarrow> nat \<Rightarrow> u16 \<times> u32 list \<Rightarrow> 'm ptr \<Rightarrow> bool" where
  "take_ok strict q q' c k x \<longleftrightarrow> queue_ok strict q'
    \<and> mset (queue_pairs q) = add_mset ((c, snd k), x) (mset (queue_pairs q'))
    \<and> (\<forall>(r, m) \<in> set (queue_pairs q). (c, snd k) \<le> r)
    \<and> (strict \<longrightarrow> queue_view q = (queue_view q')((c, k) := x # queue_view q' (c, k)))"

lemma prioq_take:
  assumes "prioq_ok strict pq" "1 < heapnext pq" "CqsPrioqDequeue pq = (x, pq')"
  defines "k \<equiv> prio_id (elt_pri (elts pq) (heap pq ! 1))"
  shows "prioq_ok strict pq'" "mset (prioq_pairs pq) = add_mset (snd k, x) (mset (prioq_pairs pq'))"
    and "\<forall>(w, m) \<in> set (prioq_pairs pq). snd k \<le> w"
    and "strict \<Longrightarrow> prioq_view pq = (prioq_view pq')(k := x # prioq_view pq' k)"
proof -
  have ne: "heapnext pq \<noteq> 1" using assms(2) by simp
  have inv: "prioq_inv strict pq" using assms(1) by (simp add: prioq_ok_def)
  note d = CqsPrioqDequeue_ok [OF assms(1) ne assms(3)]
  have key: "prio_key (elt_pri (elts pq) (heap pq ! 1)) = snd k"
    using prio_norm_key [OF prioq_inv_pri(1) [OF inv prioq_top(1) [OF inv assms(2)]]]
    by (simp add: k_def prio_id_def)
  show "prioq_ok strict pq'" "mset (prioq_pairs pq) = add_mset (snd k, x) (mset (prioq_pairs pq'))"
    "\<forall>(w, m) \<in> set (prioq_pairs pq). snd k \<le> w"
    using d(1-3) unfolding key by blast+
  show "prioq_view pq = (prioq_view pq')(k := x # prioq_view pq' k)" if strict
    using d(4) [OF that] unfolding k_def by (simp add: fun_eq_iff)
qed

lemma queue_parts_empty:
  assumes "queue_ok strict q"
  shows "heapnext (negprioq q) > 1 \<longleftrightarrow> prioq_pairs (negprioq q) \<noteq> []"
    and "heapnext (posprioq q) > 1 \<longleftrightarrow> prioq_pairs (posprioq q) \<noteq> []"
    and "head (zeroprio q) \<noteq> tail (zeroprio q) \<longleftrightarrow> deq_list (zeroprio q) \<noteq> []"
proof -
  have ok: "prioq_ok strict (negprioq q)" "prioq_ok strict (posprioq q)" "deq_inv (zeroprio q)"
    using assms by (simp_all add: queue_ok_def)
  have pos: "0 < heapnext pq" if "prioq_ok strict pq" for pq :: "'a prioq"
    using that by (simp add: prioq_ok_def prioq_inv_def heap_inv_def)
  show "heapnext (negprioq q) > 1 \<longleftrightarrow> prioq_pairs (negprioq q) \<noteq> []"
    using prioq_empty_iff(1) [OF ok(1)] pos [OF ok(1)] by auto
  show "heapnext (posprioq q) > 1 \<longleftrightarrow> prioq_pairs (posprioq q) \<noteq> []"
    using prioq_empty_iff(1) [OF ok(2)] pos [OF ok(2)] by auto
  show "head (zeroprio q) \<noteq> tail (zeroprio q) \<longleftrightarrow> deq_list (zeroprio q) \<noteq> []"
    using deq_list_empty_iff [OF ok(3)] by (simp add: deq_is_empty_def)
qed

lemma CqsDequeue_ok:
  assumes ok: "queue_ok strict q" and ne: "queue_pairs q \<noteq> []" and eq: "CqsDequeue q = (x, q')"
  shows "\<exists>c k. take_ok strict q q' c k x"
proof -
  note e = queue_parts_empty [OF ok]
  have nz: "qlength q \<noteq> 0" using qlength_zero [OF ok] ne by simp
  have oks: "prioq_ok strict (negprioq q)" "prioq_ok strict (posprioq q)" "deq_inv (zeroprio q)"
    using ok by (simp_all add: queue_ok_def)
  consider "heapnext (negprioq q) > 1"
    | "prioq_pairs (negprioq q) = []" "deq_list (zeroprio q) \<noteq> []"
    | "prioq_pairs (negprioq q) = []" "deq_list (zeroprio q) = []" "heapnext (posprioq q) > 1"
    using e ne by (auto simp: queue_pairs_def)
  then show ?thesis
  proof cases
    case 1
    obtain y pq where d: "CqsPrioqDequeue (negprioq q) = (y, pq)" by fastforce
    have q': "x = y" "q' = q\<lparr>negprioq := pq, qlength := qlength q - 1\<rparr>"
      using eq nz 1 d by (simp_all add: CqsDequeue_def)
    let ?k = "prio_id (elt_pri (elts (negprioq q)) (heap (negprioq q) ! 1))"
    note t = prioq_take [OF oks(1) 1 d]
    have f: "zeroprio q = zeroprio q'" "posprioq q = posprioq q'" "pq = negprioq q'" by (simp_all add: q')
    note n = queue_neg [OF f(1,2)]
    have m: "mset (queue_pairs q) = add_mset ((0, snd ?k), x) (mset (queue_pairs q'))"
      using t(2) f(3) q'(1) by (intro n(1)) simp
    have "queue_ok strict q'"
      by (rule queue_uncount [OF ok _ _ _ _ _ m]) (use t(1) oks in \<open>simp_all add: q'\<close>)
    moreover have "\<forall>(r, m) \<in> set (queue_pairs q). (0, snd ?k) \<le> r"
      using t(3) by (auto simp: queue_pairs_def)
    moreover have "strict \<longrightarrow> queue_view q = (queue_view q')((0, ?k) := x # queue_view q' (0, ?k))"
      using t(4) f(3) q'(1) by (intro impI n(2)) simp
    ultimately show ?thesis using m by (intro exI [of _ 0] exI [of _ ?k]) (simp add: take_ok_def)
  next
    case 2
    then obtain y ys where l: "deq_list (zeroprio q) = y # ys" by (meson neq_Nil_conv)
    obtain z d where d: "CqsDeqDequeue (zeroprio q) = (z, d)" by fastforce
    note dq = deq_list_dequeue [OF oks(3) l] deq_inv_dequeue [OF oks(3)]
    have q': "x = y" "q' = q\<lparr>zeroprio := d, qlength := qlength q - 1\<rparr>"
      using eq nz 2 d e(1,3) dq by (simp_all add: CqsDequeue_def)
    have f: "negprioq q = negprioq q'" "posprioq q = posprioq q'" "d = zeroprio q'" by (simp_all add: q')
    note n = queue_zero [OF f(1,2)]
    have m: "mset (queue_pairs q) = add_mset ((1, []), x) (mset (queue_pairs q'))"
      using dq d f(3) q'(1) l by (intro n(1)) simp
    have "queue_ok strict q'"
      by (rule queue_uncount [OF ok _ _ _ _ _ m]) (use dq d oks in \<open>simp_all add: q'\<close>)
    moreover have "\<forall>(r, m) \<in> set (queue_pairs q). (1, []) \<le> r"
      using 2(1) by (auto simp: queue_pairs_def)
    moreover have "queue_view q = (queue_view q')((1, 0, []) := x # queue_view q' (1, 0, []))"
      using n(2) dq d f(3) q'(1) l by simp
    ultimately show ?thesis using m by (intro exI [of _ 1] exI [of _ "(0, [])"]) (simp add: take_ok_def)
  next
    case 3
    obtain y pq where d: "CqsPrioqDequeue (posprioq q) = (y, pq)" by fastforce
    have q': "x = y" "q' = q\<lparr>posprioq := pq, qlength := qlength q - 1\<rparr>"
      using eq nz 3 d e(1,3) by (simp_all add: CqsDequeue_def)
    let ?k = "prio_id (elt_pri (elts (posprioq q)) (heap (posprioq q) ! 1))"
    note t = prioq_take [OF oks(2) 3(3) d]
    have f: "zeroprio q = zeroprio q'" "negprioq q = negprioq q'" "pq = posprioq q'" by (simp_all add: q')
    note n = queue_pos [OF f(1,2)]
    have m: "mset (queue_pairs q) = add_mset ((2, snd ?k), x) (mset (queue_pairs q'))"
      using t(2) f(3) q'(1) by (intro n(1)) simp
    have "queue_ok strict q'"
      by (rule queue_uncount [OF ok _ _ _ _ _ m]) (use t(1) oks in \<open>simp_all add: q'\<close>)
    moreover have "\<forall>(r, m) \<in> set (queue_pairs q). (2, snd ?k) \<le> r"
      using t(3) 3(1,2) by (auto simp: queue_pairs_def)
    moreover have "strict \<longrightarrow> queue_view q = (queue_view q')((2, ?k) := x # queue_view q' (2, ?k))"
      using t(4) f(3) q'(1) by (intro impI n(2)) simp
    ultimately show ?thesis using m by (intro exI [of _ 2] exI [of _ ?k]) (simp add: take_ok_def)
  qed
qed

end
