(* ===== verification/Cqs_Queue_Props.thy ===== *)
theory Cqs_Queue_Props
  imports Cqs_Queue_Thms
begin

text \<open>
  The properties of the scheduler queue: what an enqueue, a dequeue and a whole run of the
  queue do, what the readers of the queue see, and the two places where the code does not do
  what its comments say.
\<close>

section \<open>Readers of the queue\<close>

lemma enumerate_prioq:
  assumes "prioq_ok strict pq"
  shows "CqsEnumeratePrioq pq = (map snd (prioq_pairs pq), length (prioq_pairs pq))"
proof -
  have hn: "heapnext pq \<le> length (heap pq)" and live: "set (live pq) = dom (elts pq)"
    and inv: "prioq_inv strict pq"
    using assms by (auto simp: prioq_ok_def prioq_inv_def heap_inv_def)
  have lm: "live pq = map ((!) (heap pq)) [1..<heapnext pq]"
    using slice_map [OF hn, of "Suc 0"] by (simp add: live_def)
  have enum: "CqsEnumerateDeq (elt_data (the (elts pq a)))
      = (elt_list (elts pq) a, length (elt_list (elts pq) a))" if "a \<in> set (live pq)" for a
    using prioq_inv_pri(2) [OF inv] that live by (simp add: CqsEnumerateDeq_list elt_list_def del: domIff)
  let ?b = "\<lambda>i. CqsEnumerateDeq (elt_data (the (elts pq (heap pq ! i))))"
  have b: "?b i = (elt_list (elts pq) (heap pq ! i), length (elt_list (elts pq) (heap pq ! i)))"
    if "i \<in> set [1..<heapnext pq]" for i
    using that by (intro enum) (simp only: lm set_map imageI)
  have "map (fst \<circ> ?b) [1..<heapnext pq] = map (elt_list (elts pq)) (live pq)"
    "map (snd \<circ> ?b) [1..<heapnext pq] = map (length \<circ> elt_list (elts pq)) (live pq)"
    unfolding lm map_map by (rule map_cong [OF refl]; simp only: comp_def b fst_conv snd_conv)+
  moreover have "map snd (prioq_pairs pq) = concat (map (elt_list (elts pq)) (live pq))"
    by (simp add: prioq_pairs_def map_concat comp_def)
  moreover have "length (prioq_pairs pq) = sum_list (map (length \<circ> elt_list (elts pq)) (live pq))"
    by (simp add: prioq_pairs_def length_concat comp_def)
  ultimately show ?thesis by (simp only: CqsEnumeratePrioq_def Let_def)
qed

lemma enumerate_queue:
  assumes "queue_ok strict q"
  shows "CqsEnumerateQueue q = map snd (queue_pairs q)"
proof -
  have "prioq_ok strict (negprioq q)" "prioq_ok strict (posprioq q)" "deq_inv (zeroprio q)"
    using assms by (simp_all add: queue_ok_def)
  then show ?thesis
    by (simp add: CqsEnumerateQueue_def enumerate_prioq CqsEnumerateDeq_list queue_pairs_def comp_def case_prod_beta)
qed

lemma get_priority:
  assumes "queue_ok strict q" "queue_pairs q \<noteq> []"
  shows "\<exists>c x. ((c, prio_key (CqsGetPriority q)), x) \<in> set (queue_pairs q)
    \<and> (\<forall>(r, m) \<in> set (queue_pairs q). (c, prio_key (CqsGetPriority q)) \<le> r)"
proof -
  note e = queue_parts_empty [OF assms(1)]
  have oks: "prioq_ok strict (negprioq q)" "prioq_ok strict (posprioq q)" "deq_inv (zeroprio q)"
    using assms(1) by (simp_all add: queue_ok_def)
  have top: "(prio_key (elt_pri (elts pq) (heap pq ! 1)), fst (CqsPrioqDequeue pq)) \<in> set (prioq_pairs pq)"
    "\<forall>(w, m) \<in> set (prioq_pairs pq). prio_key (elt_pri (elts pq) (heap pq ! 1)) \<le> w"
    if "prioq_ok strict pq" "heapnext pq > 1" for pq :: "'a prioq"
  proof -
    have ne: "heapnext pq \<noteq> 1" using that(2) by simp
    note d = CqsPrioqDequeue_ok [OF that(1) ne prod.collapse [symmetric]]
    show "(prio_key (elt_pri (elts pq) (heap pq ! 1)), fst (CqsPrioqDequeue pq)) \<in> set (prioq_pairs pq)"
      unfolding set_mset_mset [symmetric] d(2) by simp
    show "\<forall>(w, m) \<in> set (prioq_pairs pq). prio_key (elt_pri (elts pq) (heap pq ! 1)) \<le> w" by (rule d(3))
  qed
  consider "heapnext (negprioq q) > 1"
    | "prioq_pairs (negprioq q) = []" "deq_list (zeroprio q) \<noteq> []"
    | "prioq_pairs (negprioq q) = []" "deq_list (zeroprio q) = []" "heapnext (posprioq q) > 1"
    using e assms(2) by (auto simp: queue_pairs_def)
  then show ?thesis
  proof cases
    case 1
    with top [OF oks(1) 1] show ?thesis
      by (intro exI [of _ 0] exI [of _ "fst (CqsPrioqDequeue (negprioq q))"])
        (force simp: CqsGetPriority_def queue_pairs_def)
  next
    case 2
    then have "prio_key (CqsGetPriority q) = []"
      using e by (simp add: CqsGetPriority_def kprio_zero_def prio_key_def)
    with 2 show ?thesis
      by (intro exI [of _ 1] exI [of _ "hd (deq_list (zeroprio q))"]) (auto simp: queue_pairs_def)
  next
    case 3
    with e have "CqsGetPriority q = elt_pri (elts (posprioq q)) (heap (posprioq q) ! 1)"
      by (simp add: CqsGetPriority_def)
    with 3 top [OF oks(2) 3(3)] show ?thesis
      by (intro exI [of _ 2] exI [of _ "fst (CqsPrioqDequeue (posprioq q))"])
        (force simp: queue_pairs_def)
  qed
qed

section \<open>Removing a message\<close>

text \<open>The first occurrence in a bucket is overwritten with the null pointer.\<close>

definition nulled :: "'m prioq \<Rightarrow> 'm prioq \<Rightarrow> 'm ptr \<Rightarrow> bool" where
  "nulled pq pq' p \<longleftrightarrow> (\<exists>k. add_mset (k, p) (mset (prioq_pairs pq')) = add_mset (k, None) (mset (prioq_pairs pq)))"

lemma remove_bucket:
  assumes "deq_inv d" "deq_find d (length (buf d)) (head d) p = Some i"
  defines "d' \<equiv> d\<lparr>buf := (buf d)[i := None]\<rparr>"
  shows "deq_inv d'" "deq_list d' \<noteq> []"
    and "add_mset p (mset (deq_list d')) = add_mset None (mset (deq_list d))"
proof -
  from deq_find_Some [of "head d" d "length (buf d)" p i] assms(1,2)
  obtain k where k: "k < length (deq_list d)" "i = deq_slot d k" "deq_list d ! k = p" by auto
  have l: "deq_list d' = (deq_list d)[k := None]" unfolding d'_def k(2) by (rule deq_list_update [OF assms(1) k(1)])
  show "deq_inv d'" using assms(1) by (simp add: deq_inv_def d'_def)
  show "deq_list d' \<noteq> []" using l k(1) by auto
  show "add_mset p (mset (deq_list d')) = add_mset None (mset (deq_list d))"
    using mset_update_entry [OF k(1), of None] k(3) l by simp
qed

lemma remove_buckets_cases:
  assumes "\<And>a. a \<in> set pes \<Longrightarrow> deq_inv (elt_data (the (st a)))"
  shows "remove_buckets st pes p = (0, st) \<and> (\<forall>a \<in> set pes. p \<notin> set (elt_list st a))
    \<or> (\<exists>a i. a \<in> set pes \<and> p \<in> set (elt_list st a)
        \<and> deq_find (elt_data (the (st a))) (length (buf (elt_data (the (st a))))) (head (elt_data (the (st a)))) p = Some i
        \<and> remove_buckets st pes p = (1, upd_elt a (\<lambda>e. e\<lparr>elt_data :=
            (elt_data (the (st a)))\<lparr>buf := (buf (elt_data (the (st a))))[i := None]\<rparr>\<rparr>) st))"
  using assms
proof (induction pes)
  case Nil
  then show ?case by simp
next
  case (Cons b pes)
  let ?d = "elt_data (the (st b))"
  have d: "deq_inv ?d" using Cons.prems by simp
  have none: "deq_find ?d (length (buf ?d)) (head ?d) p = None \<longleftrightarrow> p \<notin> set (deq_list ?d)"
    using deq_find_None [of "head ?d" ?d "length (buf ?d)" p] length_deq_list_less [OF d] d by simp
  show ?case
  proof (cases "deq_find ?d (length (buf ?d)) (head ?d) p")
    case None
    with Cons none show ?thesis by (auto simp: Let_def elt_list_def)
  next
    case (Some i)
    then have "p \<in> set (elt_list st b)" using none by (simp add: elt_list_def)
    moreover have "remove_buckets st (b # pes) p =
        (1, upd_elt b (\<lambda>e. e\<lparr>elt_data := ?d\<lparr>buf := (buf ?d)[i := None]\<rparr>\<rparr>) st)"
      using Some by (simp add: Let_def)
    ultimately show ?thesis using Some by (intro disjI2 exI [of _ b] exI [of _ i]) simp
  qed
qed

lemma remove_prioq:
  fixes pq :: "'m prioq"
  assumes ok: "prioq_ok strict pq" and eq: "CqsRemoveSpecificPrioq pq p = (n, pq')"
  shows "prioq_ok strict pq'" "n = (if p \<in> snd ` set (prioq_pairs pq) then 1 else 0)"
    and "n = 0 \<Longrightarrow> pq' = pq" "n = 1 \<Longrightarrow> nulled pq pq' p"
proof -
  have hn: "heapnext pq \<le> length (heap pq)" and live: "set (live pq) = dom (elts pq)"
    and inv: "prioq_inv strict pq"
    using ok by (auto simp: prioq_ok_def prioq_inv_def heap_inv_def)
  have lm: "map ((!) (heap pq)) [Suc 0..<heapnext pq] = live pq"
    using slice_map [OF hn, of "Suc 0"] by (simp add: live_def)
  obtain st where r: "remove_buckets (elts pq) (live pq) p = (n, st)" and pq': "pq' = pq\<lparr>elts := st\<rparr>"
    using eq by (auto simp: CqsRemoveSpecificPrioq_def lm split: prod.splits)
  have msgs: "snd ` set (prioq_pairs pq) = (\<Union>a \<in> set (live pq). set (elt_list (elts pq) a))"
    by (auto simp: prioq_pairs_def image_iff)
  have d: "deq_inv (elt_data (the (elts pq a)))" if "a \<in> set (live pq)" for a
    using prioq_inv_pri(2) [OF inv] that live by (simp del: domIff)
  from remove_buckets_cases [of "live pq" "elts pq" p, OF d] r consider
    (none) "n = 0" "st = elts pq" "\<forall>a \<in> set (live pq). p \<notin> set (elt_list (elts pq) a)"
    | (some) a i where "n = 1" "a \<in> set (live pq)" "p \<in> set (elt_list (elts pq) a)"
      "deq_find (elt_data (the (elts pq a))) (length (buf (elt_data (the (elts pq a)))))
        (head (elt_data (the (elts pq a)))) p = Some i"
      "st = upd_elt a (\<lambda>e. e\<lparr>elt_data := (elt_data (the (elts pq a)))
        \<lparr>buf := (buf (elt_data (the (elts pq a))))[i := None]\<rparr>\<rparr>) (elts pq)"
    by auto
  then have "prioq_ok strict pq' \<and> n = (if p \<in> snd ` set (prioq_pairs pq) then 1 else 0)
      \<and> (n = 0 \<longrightarrow> pq' = pq) \<and> (n = 1 \<longrightarrow> nulled pq pq' p)"
  proof cases
    case none
    then show ?thesis using ok msgs by (simp add: pq')
  next
    case some
    let ?d = "elt_data (the (elts pq a))"
    note rb = remove_bucket [OF d [OF some(2)] some(4)]
    have a: "a \<in> dom (elts pq)" using some(2) live by blast
    have inv': "prioq_inv strict pq'"
      unfolding pq' some(5) by (rule prioq_inv_upd_data [OF inv]) (rule rb(1))
    have dom': "dom (elts pq') = insert a (dom (elts pq))" using a by (auto simp: pq' some(5))
    have pri': "elt_pri (elts pq') b = elt_pri (elts pq) b" for b by (simp add: pq' some(5))
    have oth: "elt_list (elts pq') b = elt_list (elts pq) b" if "b \<noteq> a" for b
      using that by (simp add: pq' some(5) elt_list_data_other)
    have la: "elt_list (elts pq') a = deq_list (?d\<lparr>buf := (buf ?d)[i := None]\<rparr>)"
      using a by (auto simp: pq' some(5) elt_list_def)
    have "elt_list (elts pq') b \<noteq> []" if "b \<in> dom (elts pq')" for b
    proof (cases "b = a")
      case False
      then show ?thesis using that oth dom' ok by (simp add: prioq_ok_def del: domIff)
    qed (simp add: la rb(2))
    then have ok': "prioq_ok strict pq'" using inv' by (simp add: prioq_ok_def del: domIff)
    let ?P = "Pair (prio_key (elt_pri (elts pq) a))"
    have "mset (prioq_pairs pq') + image_mset ?P (mset (elt_list (elts pq) a))
        = mset (prioq_pairs pq) + image_mset ?P (mset (elt_list (elts pq') a))"
      using prioq_pairs_step [OF inv inv' dom'] oth pri' a by (simp del: domIff)
    moreover have "add_mset (?P p) (image_mset ?P (mset (elt_list (elts pq') a)))
        = add_mset (?P None) (image_mset ?P (mset (elt_list (elts pq) a)))"
      using arg_cong [OF rb(3), of "image_mset ?P"] la by (simp add: elt_list_def)
    ultimately have "add_mset (?P p) (mset (prioq_pairs pq')) = add_mset (?P None) (mset (prioq_pairs pq))"
      by (rule mset_exchange)
    then have "nulled pq pq' p" unfolding nulled_def by blast
    with ok' some(1-3) msgs show ?thesis by auto
  qed
  then show "prioq_ok strict pq'" "n = (if p \<in> snd ` set (prioq_pairs pq) then 1 else 0)"
    "n = 0 \<Longrightarrow> pq' = pq" "n = 1 \<Longrightarrow> nulled pq pq' p" by auto
qed

section \<open>A run of the queue\<close>

datatype 'm cqs_op = OpEnqueue "'m ptr" nat u32 "u32 list" | OpDequeue

fun cqs_run :: "nat \<Rightarrow> 'm cqs_op list \<Rightarrow> 'm queue \<Rightarrow> cqs_error + 'm ptr list \<times> 'm queue" where
  "cqs_run en [] q = Inr ([], q)"
| "cqs_run en (OpEnqueue x strategy b ptr # ops) q =
    (case CqsEnqueueGeneral en q x strategy b ptr of
       Inl e \<Rightarrow> Inl e | Inr q' \<Rightarrow> cqs_run en ops q')"
| "cqs_run en (OpDequeue # ops) q =
    (if CqsEmpty q then cqs_run en ops q
     else case cqs_run en ops (snd (CqsDequeue q)) of
       Inl e \<Rightarrow> Inl e | Inr (xs, q') \<Rightarrow> Inr (fst (CqsDequeue q) # xs, q'))"

fun op_ok :: "'m cqs_op \<Rightarrow> bool" where
  "op_ok (OpEnqueue x strategy b ptr) = cqs_req strategy b ptr"
| "op_ok OpDequeue = True"

fun op_msgs :: "'m cqs_op \<Rightarrow> 'm ptr list" where
  "op_msgs (OpEnqueue x strategy b ptr) = [x]"
| "op_msgs OpDequeue = []"

lemma enqueue_loose:
  assumes "queue_ok False q" "cqs_req strategy b ptr" "length (queue_pairs q) < 2 ^ 32 - 1"
  shows "\<exists>q'. CqsEnqueueGeneral en q x strategy b ptr = Inr q' \<and> queue_ok False q'
    \<and> mset (queue_pairs q') = add_mset (cqs_rank en strategy b ptr, x) (mset (queue_pairs q))"
proof -
  have "False \<longrightarrow> queue_room q" by simp
  from put_general [OF assms(1) this assms(2)] obtain q1
    where q1: "CqsEnqueueGeneral en q x strategy b ptr = Inr (cqs_count q1)"
      "put_ok False q q1 (cqs_rank en strategy b ptr) (cqs_slot en strategy b ptr) (cqs_ins strategy x) x"
    by blast
  then show ?thesis
    using queue_count [OF assms(1,3), of q1 "(cqs_rank en strategy b ptr, x)"]
    by (simp add: put_ok_def)
qed

lemma run_ok:
  assumes "queue_ok False q" "\<forall>op \<in> set ops. op_ok op" "length (queue_pairs q) + length ops < 2 ^ 32"
  shows "\<exists>xs q'. cqs_run en ops q = Inr (xs, q') \<and> queue_ok False q'
    \<and> mset (concat (map op_msgs ops)) + mset (map snd (queue_pairs q)) = mset xs + mset (map snd (queue_pairs q'))"
  using assms
proof (induction ops arbitrary: q)
  case Nil
  then show ?case by simp
next
  case (Cons op ops)
  show ?case
  proof (cases op)
    case (OpEnqueue x strategy b ptr)
    with Cons.prems enqueue_loose [of q strategy b ptr en x] obtain q1 where
      q1: "CqsEnqueueGeneral en q x strategy b ptr = Inr q1" "queue_ok False q1"
        "mset (queue_pairs q1) = add_mset (cqs_rank en strategy b ptr, x) (mset (queue_pairs q))"
      by auto
    have "length (queue_pairs q1) = Suc (length (queue_pairs q))" using q1(3) by (metis size_add_mset size_mset)
    with Cons.IH [OF q1(2)] Cons.prems OpEnqueue q1 show ?thesis
      by simp
  next
    case OpDequeue
    show ?thesis
    proof (cases "CqsEmpty q")
      case True
      with Cons OpDequeue show ?thesis by simp
    next
      case False
      then have "queue_pairs q \<noteq> []" using qlength_zero [OF Cons.prems(1)] by (simp add: CqsEmpty_def)
      from CqsDequeue_ok [OF Cons.prems(1) this prod.collapse [symmetric]] obtain c k where
        t: "queue_ok False (snd (CqsDequeue q))" "mset (queue_pairs q) =
          add_mset ((c, snd k), fst (CqsDequeue q)) (mset (queue_pairs (snd (CqsDequeue q))))"
        by (auto simp: take_ok_def)
      have "length (queue_pairs q) = Suc (length (queue_pairs (snd (CqsDequeue q))))"
        using t(2) by (metis size_add_mset size_mset)
      with Cons.IH [OF t(1)] Cons.prems obtain xs q' where
        "cqs_run en ops (snd (CqsDequeue q)) = Inr (xs, q')" "queue_ok False q'"
        "mset (concat (map op_msgs ops)) + mset (map snd (queue_pairs (snd (CqsDequeue q))))
          = mset xs + mset (map snd (queue_pairs q'))" by auto
      with OpDequeue False t(2) show ?thesis
        by (intro exI [of _ "fst (CqsDequeue q) # xs"] exI [of _ q']) simp
    qed
  qed
qed

section \<open>Properties\<close>

text \<open>
  C4. Enqueueing with any of the eight strategies succeeds on a well-formed queue, keeps it
  well-formed and adds exactly the given message with the rank of its priority.
\<close>

theorem cqs_enqueue_adds:
  assumes "queue_ok False q" "cqs_req strategy priobits prioptr" "length (queue_pairs q) < 2 ^ 32 - 1"
  shows "\<exists>q'. CqsEnqueueGeneral en q x strategy priobits prioptr = Inr q' \<and> queue_ok False q'
    \<and> mset (queue_pairs q') = add_mset (cqs_rank en strategy priobits prioptr, x) (mset (queue_pairs q))"
  using assms by (rule enqueue_loose)

theorem cqs_enqueue_adds_witness:
  "\<exists>q'. CqsEnqueueGeneral 0 CqsCreate (Some (7 :: nat)) CQS_QUEUEING_IFIFO 32 [5] = Inr q' \<and> queue_ok False q'
    \<and> mset (queue_pairs q') = {#((2, [0x80000005]), Some 7)#}"
  using cqs_enqueue_adds [OF queue_ok_create, of CQS_QUEUEING_IFIFO 32 "[5]" 0 "Some 7"]
  by (simp add: cqs_req_def cqs_strategies cqs_rank_def cqs_iprio_def sint_neg_32)

text \<open>
  C2. A dequeue from a non-empty queue returns a message whose rank is smallest among all
  messages in the queue, and removes that message and nothing else.
\<close>

theorem cqs_dequeue_least:
  assumes "queue_ok False q" "\<not> CqsEmpty q"
  shows "\<exists>r. mset (queue_pairs q) = add_mset (r, fst (CqsDequeue q)) (mset (queue_pairs (snd (CqsDequeue q))))
    \<and> (\<forall>(r', m) \<in> set (queue_pairs q). r \<le> r') \<and> queue_ok False (snd (CqsDequeue q))"
proof -
  have "queue_pairs q \<noteq> []" using assms qlength_zero [OF assms(1)] by (simp add: CqsEmpty_def)
  from CqsDequeue_ok [OF assms(1) this prod.collapse [symmetric]] show ?thesis
    by (auto simp only: take_ok_def)
qed

lemma fifo_create_ok:
  "queue_ok strict (CqsEnqueueFifo CqsCreate x)" "\<not> CqsEmpty (CqsEnqueueFifo CqsCreate x)"
  "queue_pairs (CqsEnqueueFifo CqsCreate x) = [((1, []), x)]"
proof -
  let ?q1 = "CqsCreate\<lparr>zeroprio := CqsDeqEnqueueFifo (zeroprio CqsCreate) x\<rparr>"
  have p: "put_ok strict CqsCreate ?q1 (1, []) (1, 0, []) (\<lambda>l. l @ [x]) x"
    by (rule zero_put_ok [OF queue_ok_create deq_put_fifo])
  have q: "CqsEnqueueFifo CqsCreate x = cqs_count ?q1" by (simp add: CqsEnqueueFifo_def)
  note c = queue_count [OF queue_ok_create, of ?q1 strict "((1, []), x)"]
  show "queue_ok strict (CqsEnqueueFifo CqsCreate x)" unfolding q using c(1) p by (simp add: put_ok_def)
  have "mset (queue_pairs ?q1) = mset [((1, []), x)]" using p by (simp add: put_ok_def)
  then have "queue_pairs ?q1 = [((1, []), x)]" by (metis mset_single_iff_right)
  then show "queue_pairs (CqsEnqueueFifo CqsCreate x) = [((1, []), x)]" unfolding q using c(2) p by (simp add: put_ok_def)
  show "\<not> CqsEmpty (CqsEnqueueFifo CqsCreate x)"
    by (simp add: CqsEmpty_def CqsEnqueueFifo_def cqs_count_def Let_def CqsCreate_def)
qed

theorem cqs_dequeue_least_witness:
  "\<exists>r. mset (queue_pairs (CqsEnqueueFifo CqsCreate (Some (7 :: nat)))) =
      add_mset (r, fst (CqsDequeue (CqsEnqueueFifo CqsCreate (Some 7))))
        (mset (queue_pairs (snd (CqsDequeue (CqsEnqueueFifo CqsCreate (Some 7))))))"
  using cqs_dequeue_least [OF fifo_create_ok(1,2), of "Some (7 :: nat)"] by blast

text \<open>
  C3. No message is lost or duplicated: for every sequence of enqueues and dequeues on a new
  queue, the messages put in are exactly those that came out and those still in the queue.
\<close>

theorem cqs_run_conserves:
  assumes "\<forall>op \<in> set ops. op_ok op" "length ops < 2 ^ 32"
  shows "\<exists>xs q'. cqs_run en ops CqsCreate = Inr (xs, q')
    \<and> mset (concat (map op_msgs ops)) = mset xs + mset (CqsEnumerateQueue q')"
  using run_ok [OF queue_ok_create assms(1), of en] assms(2) by (auto simp: enumerate_queue)

theorem cqs_run_conserves_witness:
  "\<exists>xs q'. cqs_run 0 [OpEnqueue (Some (7 :: nat)) CQS_QUEUEING_IFIFO 32 [5], OpDequeue] CqsCreate = Inr (xs, q')
    \<and> {#Some 7#} = mset xs + mset (CqsEnumerateQueue q')"
  using cqs_run_conserves [of "[OpEnqueue (Some (7 :: nat)) CQS_QUEUEING_IFIFO 32 [5], OpDequeue]" 0]
  by (simp add: cqs_req_def cqs_strategies)

text \<open>
  C11. As long as no bucket table was ever enlarged (\<open>queue_ok True\<close>) and none has to be enlarged now
  (\<open>queue_room\<close>: fewer than 2034 priorities are live in each priority queue), the messages of one
  priority form a deque: a FIFO strategy appends the message to those of the same priority, a
  LIFO strategy puts it in front, and no other priority is affected. After a rehash this fails, as
  \<open>prioq_rehash_misses_bucket\<close> shows.
\<close>

theorem cqs_enqueue_order:
  assumes "queue_ok True q" "queue_room q" "cqs_req strategy priobits prioptr" "length (queue_pairs q) < 2 ^ 32 - 1"
  shows "\<exists>q'. CqsEnqueueGeneral en q x strategy priobits prioptr = Inr q' \<and> queue_ok True q'
    \<and> queue_view q' = (queue_view q)(cqs_slot en strategy priobits prioptr :=
        cqs_ins strategy x (queue_view q (cqs_slot en strategy priobits prioptr)))"
proof -
  have "True \<longrightarrow> queue_room q" using assms(2) by simp
  from put_general [OF assms(1) this assms(3)] obtain q1
    where q1: "CqsEnqueueGeneral en q x strategy priobits prioptr = Inr (cqs_count q1)"
      "put_ok True q q1 (cqs_rank en strategy priobits prioptr) (cqs_slot en strategy priobits prioptr)
        (cqs_ins strategy x) x"
    by blast
  then show ?thesis
    using queue_count [OF assms(1,4), of q1 "(cqs_rank en strategy priobits prioptr, x)"]
    by (simp add: put_ok_def)
qed

lemma queue_room_create: "queue_room CqsCreate"
  by (simp add: queue_room_def CqsCreate_def CqsPrioqInit_def PRIOQ_TABSIZE_def)

theorem cqs_enqueue_order_witness:
  "\<exists>q'. CqsEnqueueGeneral 0 CqsCreate (Some (7 :: nat)) CQS_QUEUEING_BFIFO 33 [3, 4] = Inr q' \<and> queue_ok True q'
    \<and> queue_view q' = (queue_view CqsCreate)((0, 33, [3, 4]) := queue_view CqsCreate (0, 33, [3, 4]) @ [Some 7])"
  using cqs_enqueue_order [OF queue_ok_create queue_room_create, of CQS_QUEUEING_BFIFO 33 "[3, 4]" 0 "Some (7 :: nat)"]
  by (simp add: cqs_req_def cqs_strategies cqs_rank_def cqs_slot_def cqs_ins_def prio_ints_def sint_neg_32)

text \<open>
  C12. As long as no bucket table was ever enlarged (\<open>queue_ok True\<close>), a dequeue takes the first
  message of the deque of a priority of smallest rank, and leaves every other deque as it is. After a
  rehash one priority can have several deques.
\<close>

theorem cqs_dequeue_order:
  assumes "queue_ok True q" "\<not> CqsEmpty q"
  shows "\<exists>c k. queue_view q (c, k) = fst (CqsDequeue q) # queue_view (snd (CqsDequeue q)) (c, k)
    \<and> (\<forall>s. s \<noteq> (c, k) \<longrightarrow> queue_view (snd (CqsDequeue q)) s = queue_view q s)
    \<and> (\<forall>(r, m) \<in> set (queue_pairs q). (c, snd k) \<le> r) \<and> queue_ok True (snd (CqsDequeue q))"
proof -
  have "queue_pairs q \<noteq> []" using assms qlength_zero [OF assms(1)] by (simp add: CqsEmpty_def)
  from CqsDequeue_ok [OF assms(1) this prod.collapse [symmetric]] obtain c k
    where t: "take_ok True q (snd (CqsDequeue q)) c k (fst (CqsDequeue q))" by blast
  then have "queue_view q = (queue_view (snd (CqsDequeue q)))
      ((c, k) := fst (CqsDequeue q) # queue_view (snd (CqsDequeue q)) (c, k))" by (simp add: take_ok_def)
  with t show ?thesis by (intro exI [of _ c] exI [of _ k]) (simp add: take_ok_def)
qed

theorem cqs_dequeue_order_witness:
  "\<exists>c k. queue_view (CqsEnqueueFifo CqsCreate (Some (7 :: nat))) (c, k) =
      fst (CqsDequeue (CqsEnqueueFifo CqsCreate (Some 7)))
        # queue_view (snd (CqsDequeue (CqsEnqueueFifo CqsCreate (Some 7)))) (c, k)"
  using cqs_dequeue_order [OF fifo_create_ok(1,2), of "Some (7 :: nat)"] by blast

lemma dequeue_unique_least:
  assumes "queue_ok False q" "mset (queue_pairs q) = {#(r1, x), (r2, y)#}" "r1 < r2"
  shows "\<not> CqsEmpty q" "fst (CqsDequeue q) = x"
proof -
  have ne: "queue_pairs q \<noteq> []" using assms(2) by auto
  then show "\<not> CqsEmpty q" using qlength_zero [OF assms(1)] by (simp add: CqsEmpty_def)
  from CqsDequeue_ok [OF assms(1) ne prod.collapse [symmetric]] obtain c k
    where t: "take_ok False q (snd (CqsDequeue q)) c k (fst (CqsDequeue q))" by blast
  have s: "set (queue_pairs q) = {(r1, x), (r2, y)}" 
    using arg_cong [OF assms(2), of set_mset] by simp
  have "\<forall>(r, m) \<in> set (queue_pairs q). (c, snd k) \<le> r" using t unfolding take_ok_def by blast
  then have "(c, snd k) \<le> r1" unfolding s by blast
  then have "(c, snd k) \<noteq> r2" using assms(3) by (meson leD)
  moreover have "((c, snd k), fst (CqsDequeue q)) \<in> set (queue_pairs q)"
    using t unfolding take_ok_def set_mset_mset [symmetric] by (auto simp del: set_mset_mset)
  ultimately show "fst (CqsDequeue q) = x" unfolding s by blast
qed

text \<open>Two messages with different ranks leave in the order of their ranks, however they came in.\<close>

lemma two_messages:
  assumes req: "cqs_req s1 b1 p1" "cqs_req s2 b2 p2" and r: "cqs_rank en s1 b1 p1 < cqs_rank en s2 b2 p2"
  shows "\<exists>q. cqs_run en [OpEnqueue x s1 b1 p1, OpEnqueue y s2 b2 p2, OpDequeue] CqsCreate = Inr ([x], q)"
    and "\<exists>q. cqs_run en [OpEnqueue y s2 b2 p2, OpEnqueue x s1 b1 p1, OpDequeue] CqsCreate = Inr ([x], q)"
proof -
  have first: "\<exists>q. CqsEnqueueGeneral en CqsCreate z s b p = Inr q \<and> queue_ok False q
      \<and> mset (queue_pairs q) = {#(cqs_rank en s b p, z)#} \<and> length (queue_pairs q) < 2 ^ 32 - 1"
    if "cqs_req s b p" for s b p z
  proof -
    from enqueue_loose [OF queue_ok_create that, of en z] obtain q where
      q: "CqsEnqueueGeneral en CqsCreate z s b p = Inr q" "queue_ok False q"
        "mset (queue_pairs q) = {#(cqs_rank en s b p, z)#}" by auto
    moreover from q(3) have "length (queue_pairs q) = 1" by (metis size_mset size_single)
    ultimately show ?thesis by auto
  qed
  from first [OF req(1), of x] obtain q1 where q1: "CqsEnqueueGeneral en CqsCreate x s1 b1 p1 = Inr q1"
    "queue_ok False q1" "mset (queue_pairs q1) = {#(cqs_rank en s1 b1 p1, x)#}" "length (queue_pairs q1) < 2 ^ 32 - 1"
    by blast
  from enqueue_loose [OF q1(2) req(2) q1(4), of en y] q1(3) obtain q2 where
    q2: "CqsEnqueueGeneral en q1 y s2 b2 p2 = Inr q2" "queue_ok False q2"
      "mset (queue_pairs q2) = {#(cqs_rank en s1 b1 p1, x), (cqs_rank en s2 b2 p2, y)#}"
    by (auto simp: add_mset_commute)
  from dequeue_unique_least [OF q2(2,3) r] q1(1) q2(1)
  show "\<exists>q. cqs_run en [OpEnqueue x s1 b1 p1, OpEnqueue y s2 b2 p2, OpDequeue] CqsCreate = Inr ([x], q)" by simp
  from first [OF req(2), of y] obtain q3 where q3: "CqsEnqueueGeneral en CqsCreate y s2 b2 p2 = Inr q3"
    "queue_ok False q3" "mset (queue_pairs q3) = {#(cqs_rank en s2 b2 p2, y)#}" "length (queue_pairs q3) < 2 ^ 32 - 1"
    by blast
  from enqueue_loose [OF q3(2) req(1) q3(4), of en x] q3(3) obtain q4 where
    q4: "CqsEnqueueGeneral en q3 x s1 b1 p1 = Inr q4" "queue_ok False q4"
      "mset (queue_pairs q4) = {#(cqs_rank en s1 b1 p1, x), (cqs_rank en s2 b2 p2, y)#}"
    by (auto simp: add_mset_commute)
  from dequeue_unique_least [OF q4(2,3) r] q3(1) q4(1)
  show "\<exists>q. cqs_run en [OpEnqueue y s2 b2 p2, OpEnqueue x s1 b1 p1, OpDequeue] CqsCreate = Inr ([x], q)" by simp
qed

text \<open>
  C13. Integer priorities are served in the order of their signed values: of two messages
  enqueued with the 32-bit integer strategies, the one with the smaller signed priority is
  dequeued first, whichever was enqueued first.
\<close>

theorem cqs_int_priority_order:
  assumes "s1 \<in> {CQS_QUEUEING_IFIFO, CQS_QUEUEING_ILIFO}" "s2 \<in> {CQS_QUEUEING_IFIFO, CQS_QUEUEING_ILIFO}"
    and "sint p < sint r"
  shows "(\<exists>q. cqs_run en [OpEnqueue x s1 b1 [p], OpEnqueue y s2 b2 [r], OpDequeue] CqsCreate = Inr ([x], q))
    \<and> (\<exists>q. cqs_run en [OpEnqueue y s2 b2 [r], OpEnqueue x s1 b1 [p], OpDequeue] CqsCreate = Inr ([x], q))"
proof -
  have "cqs_rank en s2 b2 [r] = cqs_rank en s1 b1 [r]" using assms(1,2) by (auto simp: cqs_rank_def)
  then have "cqs_rank en s1 b1 [p] < cqs_rank en s2 b2 [r]"
    using rank_integer(1) [OF assms(1), of en b1 "[p]" "[r]"] assms(3) by simp
  moreover have "cqs_req s1 b1 [p]" "cqs_req s2 b2 [r]" using assms(1,2) by (auto simp: cqs_req_def)
  ultimately show ?thesis using two_messages by blast
qed

theorem cqs_int_priority_order_witness:
  "(\<exists>q. cqs_run 0 [OpEnqueue (Some (1 :: nat)) CQS_QUEUEING_IFIFO 32 [- 5],
        OpEnqueue (Some 2) CQS_QUEUEING_ILIFO 32 [3], OpDequeue] CqsCreate = Inr ([Some 1], q))
    \<and> (\<exists>q. cqs_run 0 [OpEnqueue (Some 2) CQS_QUEUEING_ILIFO 32 [3],
        OpEnqueue (Some (1 :: nat)) CQS_QUEUEING_IFIFO 32 [- 5], OpDequeue] CqsCreate = Inr ([Some 1], q))"
proof -
  have "sint (- 5 :: u32) < sint (3 :: u32)" by simp
  then show ?thesis by (intro cqs_int_priority_order) auto
qed

text \<open>
  The same for the 64-bit strategies, on machines of either byte order: the 8 bytes at
  \<open>prioptr\<close> are compared as a signed integer although the queue compares 32-bit words.
\<close>

theorem cqs_long_priority_order:
  assumes "s1 \<in> {CQS_QUEUEING_LFIFO, CQS_QUEUEING_LLIFO}" "s2 \<in> {CQS_QUEUEING_LFIFO, CQS_QUEUEING_LLIFO}"
    and "sint (int8_load en [p0, p1]) < sint (int8_load en [r0, r1])"
  shows "(\<exists>q. cqs_run en [OpEnqueue x s1 64 [p0, p1], OpEnqueue y s2 64 [r0, r1], OpDequeue] CqsCreate = Inr ([x], q))
    \<and> (\<exists>q. cqs_run en [OpEnqueue y s2 64 [r0, r1], OpEnqueue x s1 64 [p0, p1], OpDequeue] CqsCreate = Inr ([x], q))"
proof -
  have "cqs_rank en s2 64 [r0, r1] = cqs_rank en s1 64 [r0, r1]"
    using assms(1,2) by (auto simp: cqs_rank_def cqs_strategies)
  then have "cqs_rank en s1 64 [p0, p1] < cqs_rank en s2 64 [r0, r1]"
    using rank_long(1) [OF assms(1), of en 64 "[p0, p1]" "[r0, r1]"] assms(3) by simp
  moreover have "cqs_req s1 64 [p0, p1]" "cqs_req s2 64 [r0, r1]" using assms(1,2) by (auto simp: cqs_req_def)
  ultimately show ?thesis using two_messages by blast
qed

theorem cqs_long_priority_order_witness:
  "(\<exists>q. cqs_run 0 [OpEnqueue (Some (1 :: nat)) CQS_QUEUEING_LFIFO 64 [9, 0],
        OpEnqueue (Some 2) CQS_QUEUEING_LLIFO 64 [0, 1], OpDequeue] CqsCreate = Inr ([Some 1], q))
    \<and> (\<exists>q. cqs_run 0 [OpEnqueue (Some 2) CQS_QUEUEING_LLIFO 64 [0, 1],
        OpEnqueue (Some (1 :: nat)) CQS_QUEUEING_LFIFO 64 [9, 0], OpDequeue] CqsCreate = Inr ([Some 1], q))"
proof -
  have "sint (int8_load 0 [9, 0]) < sint (int8_load 0 [0, 1])" by (simp add: int8_load_def)
  then show ?thesis by (intro cqs_long_priority_order) auto
qed

text \<open>
  Invalid requests are refused without touching the queue: an unknown strategy aborts,
  and the 64-bit FIFO strategy asserts that the priority has 64 bits.
\<close>

theorem cqs_enqueue_errors:
  "(strategy < 2 \<or> 9 < strategy \<longrightarrow>
      CqsEnqueueGeneral en q x strategy priobits prioptr = Inl InvalidStrategy)
    \<and> (priobits \<noteq> 64 \<longrightarrow>
      CqsEnqueueGeneral en q x CQS_QUEUEING_LFIFO priobits prioptr = Inl AssertionFailed)"
  by (auto simp: CqsEnqueueGeneral_def cqs_strategies)

theorem cqs_enqueue_errors_witness:
  "CqsEnqueueGeneral 0 CqsCreate (Some (7 :: nat)) 1 0 [] = Inl InvalidStrategy
    \<and> CqsEnqueueGeneral 0 CqsCreate (Some (7 :: nat)) CQS_QUEUEING_LFIFO 32 [0, 1] = Inl AssertionFailed"
  using cqs_enqueue_errors [of 1 0 CqsCreate "Some (7 :: nat)" 0 "[]"]
    cqs_enqueue_errors [of 1 0 CqsCreate "Some (7 :: nat)" 32 "[0, 1]"] by simp

text \<open>
  The readers agree with the contents: \<open>CqsLength\<close> is the number of messages,
  \<open>CqsEmpty\<close> says whether there is one, \<open>CqsEnumerateQueue\<close> lists them all, and
  \<open>CqsMaxLength\<close> is at least the length.
\<close>

theorem cqs_readers:
  assumes "queue_ok strict q"
  shows "CqsEnumerateQueue q = map snd (queue_pairs q) \<and> unat (CqsLength q) = length (CqsEnumerateQueue q)
    \<and> (CqsEmpty q \<longleftrightarrow> CqsEnumerateQueue q = []) \<and> CqsLength q \<le> CqsMaxLength q"
  using assms enumerate_queue [OF assms] qlength_zero [OF assms]
  by (auto simp: CqsLength_def CqsMaxLength_def CqsEmpty_def queue_ok_def unsigned_of_nat take_bit_nat_eq_self)

theorem cqs_readers_witness:
  "CqsEnumerateQueue (CqsEnqueueFifo CqsCreate (Some (7 :: nat))) = [Some 7]
    \<and> unat (CqsLength (CqsEnqueueFifo CqsCreate (Some (7 :: nat)))) = 1"
  using cqs_readers [OF fifo_create_ok(1) [of True "Some (7 :: nat)"]] by (simp add: fifo_create_ok(3))

text \<open>
  \<open>CqsGetPriority\<close> returns the priority of a message that the next dequeue may take: its
  words, with the part of the queue it is in, form the smallest rank in the queue.
\<close>

theorem cqs_get_priority_least:
  assumes "queue_ok strict q" "\<not> CqsEmpty q"
  shows "\<exists>c x. ((c, prio_key (CqsGetPriority q)), x) \<in> set (queue_pairs q)
    \<and> (\<forall>(r, m) \<in> set (queue_pairs q). (c, prio_key (CqsGetPriority q)) \<le> r)"
  using get_priority [OF assms(1)] assms(2) qlength_zero [OF assms(1)] by (simp add: CqsEmpty_def)

theorem cqs_get_priority_least_witness:
  "\<exists>c x. ((c, prio_key (CqsGetPriority (CqsEnqueueFifo CqsCreate (Some (7 :: nat))))), x)
    \<in> {((1, []), Some 7)}"
  using cqs_get_priority_least [OF fifo_create_ok(1) [of True "Some (7 :: nat)"] fifo_create_ok(2)]
  by (simp add: fifo_create_ok(3))

text \<open>
  C32. \<open>CqsRemoveSpecific\<close> on a message that is in the deque of messages without priority (and
  not in the negative queue) changes nothing: the message is still in the queue, although the
  routine takes it for removed. A message in the negative queue is replaced by a null pointer.
\<close>

theorem cqs_remove_specific:
  assumes "queue_ok strict q"
  shows "(p \<notin> snd ` set (prioq_pairs (negprioq q)) \<and> p \<in> set (deq_list (zeroprio q)) \<longrightarrow> CqsRemoveSpecific q p = q)
    \<and> (p \<in> snd ` set (prioq_pairs (negprioq q)) \<longrightarrow>
        (\<exists>pq. CqsRemoveSpecific q p = q\<lparr>negprioq := pq\<rparr> \<and> nulled (negprioq q) pq p \<and> prioq_ok strict pq))"
proof -
  have oks: "prioq_ok strict (negprioq q)" "deq_inv (zeroprio q)" using assms by (simp_all add: queue_ok_def)
  obtain n pq where r: "CqsRemoveSpecificPrioq (negprioq q) p = (n, pq)" by fastforce
  note rp = remove_prioq [OF oks(1) r]
  show ?thesis
  proof (cases "p \<in> snd ` set (prioq_pairs (negprioq q))")
    case True
    with rp r show ?thesis
      by (intro conjI impI exI [of _ pq]) (simp_all add: CqsRemoveSpecific_def Let_def)
  next
    case False
    with rp r CqsRemoveSpecificDeq_iff [OF oks(2), of p] show ?thesis
      by (intro conjI impI) (simp_all add: CqsRemoveSpecific_def Let_def)
  qed
qed

theorem cqs_remove_specific_witness:
  "CqsRemoveSpecific (CqsEnqueueFifo CqsCreate (Some (7 :: nat))) (Some 7) = CqsEnqueueFifo CqsCreate (Some 7)"
proof -
  let ?q = "CqsEnqueueFifo CqsCreate (Some (7 :: nat))"
  have "negprioq ?q = CqsPrioqInit" "deq_list (zeroprio ?q) = [Some 7]"
    by (simp_all add: CqsEnqueueFifo_def cqs_count_def CqsCreate_def Let_def deq_list_fifo)
  then show ?thesis using cqs_remove_specific [OF fifo_create_ok(1) [of True "Some (7 :: nat)"], of "Some 7"] by simp
qed

text \<open>
  C31. Once the bucket table has been enlarged, buckets can be missed: a priority that has a
  bucket before the rehash, and whose hash modulo the doubled size is not below the old size,
  is looked up in the wrong chain, so that \<open>CqsPrioqGetDeq\<close> allocates a second, empty bucket
  for it.
\<close>

theorem prioq_rehash_misses_bucket:
  assumes "prioq_ok True pq" "prioq_view pq (ucast priobits, ws) \<noteq> []"
    and "unat priobits < 2 ^ 16" "length ws = prio_ints priobits"
    and "PRIOQ_TABSIZE \<le> prio_hash priobits ws (2 * PRIOQ_TABSIZE)"
  shows "fst (CqsPrioqGetDeq (CqsPrioqRehash pq) priobits ws) \<notin> dom (elts pq)"
proof -
  let ?q = "CqsPrioqRehash pq" and ?hv = "prio_hash priobits ws PRIOQ_TABSIZE"
  have inv: "prioq_inv True pq" using assms(1) by (simp add: prioq_ok_def)
  then obtain cs where cs: "hash_inv True pq cs" by (auto simp: prioq_inv_def)
  have br: "\<forall>a \<in> dom (elts pq). a < brk pq"
    and len: "length (hashtab pq) = hash_key_size pq" "0 < hash_key_size pq" "hash_key_size pq = PRIOQ_TABSIZE"
    using inv cs by (simp_all add: prioq_inv_def hash_inv_def)
  have ch: "chains (elts pq) (hashtab pq) cs" "set (concat cs) = dom (elts pq)"
    using cs by (simp_all add: hash_inv_def)
  note re = rehash_ok [OF ch br len(1,2)]
  obtain cs' where ch': "chains (elts ?q) (hashtab ?q) cs'" "placed (elts ?q) (2 * PRIOQ_TABSIZE) cs'"
    using re(1,4) len(3) by (auto simp: mult.commute)
  have dom: "dom (elts ?q) = dom (elts pq)"
    by (rule payload_dom [of "elts ?q" "elts pq", OF re(2)])
  have hv: "?hv < length (hashtab ?q)" "?hv < PRIOQ_TABSIZE" "length cs' = length (hashtab ?q)"
    using re(3,4) len prio_hash_less [of PRIOQ_TABSIZE priobits ws] ch'(1) by (simp_all add: chains_def)
  then have chv: "chain (elts ?q) (HTab ?hv) (hashtab ?q ! ?hv) (cs' ! ?hv)" using ch'(1) by (simp add: chains_def)
  have "length (cs' ! ?hv) \<le> brk ?q"
    by (rule chains_length [OF ch'(1)]) (use br dom re(9) hv in auto)
  from ht_scan_find [OF chv this]
  have scan: "ht_scan (brk ?q) (elts ?q) (prio_match priobits ws) (hashtab ?q ! ?hv) =
      find (\<lambda>a. prio_match priobits ws (elt_pri (elts ?q) a)) (cs' ! ?hv)" by (simp add: elt_pri_def)
  have "\<not> prio_match priobits ws (elt_pri (elts ?q) a)" if a: "a \<in> set (cs' ! ?hv)" for a
  proof
    have ad: "a \<in> dom (elts pq)" using chain_dom [OF chv] a dom by blast
    have p: "elt_pri (elts ?q) a = elt_pri (elts pq) a" by (rule payload_eqD(1) [of "elts ?q" a "elts pq", OF re(2)])
    note norm = prioq_inv_pri(1) [OF inv ad]
    assume "prio_match priobits ws (elt_pri (elts ?q) a)"
    then have "prio_id (elt_pri (elts pq) a) = (ucast priobits, ws)"
      using prio_match_id [OF norm assms(3,4)] p by simp
    then have "home (elt_pri (elts pq) a) (2 * PRIOQ_TABSIZE) = prio_hash priobits ws (2 * PRIOQ_TABSIZE)"
      using prio_norm_key [OF norm] ucast_u16 [OF assms(3)] by (simp add: home_def prio_id_def)
    moreover have "home (elt_pri (elts ?q) a) (2 * PRIOQ_TABSIZE) = ?hv"
      using ch'(2) a ad dom hv by (simp add: placed_elt_pri)
    ultimately show False using assms(5) hv(2) p by simp
  qed
  then have "ht_scan (brk ?q) (elts ?q) (prio_match priobits ws) (hashtab ?q ! ?hv) = None"
    by (simp add: scan find_None_iff)
  moreover have "take (prio_ints priobits) ws = ws" using assms(4) by simp
  ultimately have "CqsPrioqGetDeq ?q priobits ws = prioq_new_bucket ?q priobits ws"
    by (simp add: CqsPrioqGetDeq_def Let_def)
  then have "fst (CqsPrioqGetDeq ?q priobits ws) = brk pq"
    using re(9) by (simp add: prioq_new_bucket_def Let_def split: prod.splits)
  with br show ?thesis by auto
qed

theorem prioq_rehash_misses_bucket_witness:
  "let pq = prioq_enqueue CqsDeqEnqueueFifo CqsPrioqInit 32 [985] (Some (7 :: nat))
   in prioq_view pq (32, [985]) = [Some 7] \<and> fst (CqsPrioqGetDeq (CqsPrioqRehash pq) 32 [985]) \<notin> dom (elts pq)"
proof -
  let ?pq = "prioq_enqueue CqsDeqEnqueueFifo CqsPrioqInit 32 [985] (Some (7 :: nat))"
  have r: "True \<longrightarrow> heapnext CqsPrioqInit \<le> 2 * PRIOQ_TABSIZE" by (simp add: CqsPrioqInit_def PRIOQ_TABSIZE_def)
  have b: "unat (32 :: u32) < 2 ^ 16" "prio_ints 32 \<le> length [985 :: u32]" by (simp_all add: prio_ints_32)
  note e = prioq_enqueue_ok [OF prioq_ok_init b r deq_put_fifo, of "Some (7 :: nat)"]
  have "prioq_view CqsPrioqInit k = ([] :: nat ptr list)" for k
    by (simp add: prioq_view_def live_def CqsPrioqInit_def)
  then have v: "prioq_view ?pq (32, [985]) = [Some 7]"
    using e(3) by (simp add: prio_ints_32)
  have "PRIOQ_TABSIZE \<le> prio_hash 32 [985] (2 * PRIOQ_TABSIZE)"
    by (simp add: prio_hash_def PRIOQ_TABSIZE_def)
  with prioq_rehash_misses_bucket [OF e(1), of 32 "[985]"] v show ?thesis
    by (simp add: prio_ints_32 Let_def)
qed

end
