(* ===== verification/Cmm.thy ===== *)
theory Cmm
  imports Charm_Prelude
begin

text \<open>
  The tag-matching message tables of \<^verbatim>\<open>src/conv-core/msgmgr.c\<close>: a singly linked list of
  entries with a pointer \<open>lasth\<close> to the pointer at its end. The store of entries is explicit,
  because \<open>lasth\<close> and the loop of \<open>CmmFind\<close> write through pointers to link fields.
\<close>

section \<open>State\<close>

record 'm cmm_entry =
  cnext :: "nat option"
  cmsg :: "'m ptr"
  ntags :: nat
  ctags :: "int list"

text \<open>The address of a link: \<open>&t->first\<close> or \<open>&e->next\<close>.\<close>

datatype cmm_link = LFirst | LNext nat

record 'm cmm_table =
  cfirst :: "nat option"
  lasth :: cmm_link
  cents :: "nat \<rightharpoonup> 'm cmm_entry"
  cbrk :: nat

definition CmmWildCard :: int where "CmmWildCard = - 1"

definition cmm_load :: "'m cmm_table \<Rightarrow> cmm_link \<Rightarrow> nat option" where
  "cmm_load t h = (case h of LFirst \<Rightarrow> cfirst t | LNext a \<Rightarrow> Option.bind (cents t a) cnext)"

definition set_next :: "(nat \<rightharpoonup> 'm cmm_entry) \<Rightarrow> nat \<Rightarrow> nat option \<Rightarrow> (nat \<rightharpoonup> 'm cmm_entry)" where
  "set_next st a v = st(a := map_option (\<lambda>e. e\<lparr>cnext := v\<rparr>) (st a))"

definition cmm_store :: "'m cmm_table \<Rightarrow> cmm_link \<Rightarrow> nat option \<Rightarrow> 'm cmm_table" where
  "cmm_store t h v = (case h of LFirst \<Rightarrow> t\<lparr>cfirst := v\<rparr>
     | LNext a \<Rightarrow> t\<lparr>cents := set_next (cents t) a v\<rparr>)"

section \<open>Operations\<close>

definition CmmNew :: "'m cmm_table" where
  "CmmNew = \<lparr>cfirst = None, lasth = LFirst, cents = Map.empty, cbrk = 0\<rparr>"

text \<open>\<open>CmmFree\<close> refuses a non-empty table.\<close>

datatype cmm_error = NonEmptyTable

definition CmmFree :: "'m cmm_table option \<Rightarrow> cmm_error + unit" where
  "CmmFree t = (case t of None \<Rightarrow> Inr () | Some t \<Rightarrow> if cfirst t \<noteq> None then Inl NonEmptyTable else Inr ())"

definition CmmPut :: "'m cmm_table \<Rightarrow> nat \<Rightarrow> int list \<Rightarrow> 'm ptr \<Rightarrow> 'm cmm_table" where
  "CmmPut t n tags msg =
    (let e = cbrk t;
         t = t\<lparr>cents := (cents t)(e \<mapsto> \<lparr>cnext = None, cmsg = msg, ntags = n, ctags = take n tags\<rparr>),
               cbrk := e + 1\<rparr>;
         t = cmm_store t (lasth t) (Some e)
     in t\<lparr>lasth := LNext e\<rparr>)"

fun tags_loop :: "nat \<Rightarrow> int list \<Rightarrow> int list \<Rightarrow> bool" where
  "tags_loop 0 tags1 tags2 = True"
| "tags_loop (Suc n) tags1 tags2 =
    (let tag1 = hd tags1; tag2 = hd tags2 in
     if tag1 = tag2 then tags_loop n (tl tags1) (tl tags2)
     else if tag1 = CmmWildCard then tags_loop n (tl tags1) (tl tags2)
     else if tag2 = CmmWildCard then tags_loop n (tl tags1) (tl tags2)
     else False)"

definition CmmTagsMatch :: "nat \<Rightarrow> int list \<Rightarrow> nat \<Rightarrow> int list \<Rightarrow> bool" where
  "CmmTagsMatch ntags1 tags1 ntags2 tags2 = (if ntags1 \<noteq> ntags2 then False else tags_loop ntags1 tags1 tags2)"

text \<open>
  The walk of \<open>CmmFind\<close> and \<open>CmmGetLastTag\<close>: the link that points at the first entry that
  satisfies the test, with that entry. The first argument bounds the number of links.
\<close>

fun cmm_walk :: "nat \<Rightarrow> 'm cmm_table \<Rightarrow> ('m cmm_entry \<Rightarrow> bool) \<Rightarrow> cmm_link \<Rightarrow> (cmm_link \<times> nat \<times> 'm cmm_entry) option"
where
  "cmm_walk 0 t m enth = None"
| "cmm_walk (Suc n) t m enth =
    (case cmm_load t enth of None \<Rightarrow> None
     | Some a \<Rightarrow> (case cents t a of None \<Rightarrow> None
        | Some ent \<Rightarrow> if m ent then Some (enth, a, ent) else cmm_walk n t m (LNext a)))"

text \<open>Answer: the message, the tags written to \<open>rtags\<close>, and the table.\<close>

definition CmmFind :: "'m cmm_table \<Rightarrow> nat \<Rightarrow> int list \<Rightarrow> bool \<Rightarrow> 'm ptr \<times> int list \<times> 'm cmm_table" where
  "CmmFind t n tags del =
    (case cmm_walk (cbrk t + 1) t (\<lambda>ent. CmmTagsMatch n tags (ntags ent) (ctags ent)) LFirst of
       None \<Rightarrow> (None, [], t)
     | Some (enth, a, ent) \<Rightarrow>
         (cmsg ent, take n (ctags ent),
          if del then
            let next = cnext ent;
                t = cmm_store t enth next;
                t = (if next = None then t\<lparr>lasth := enth\<rparr> else t)
            in t\<lparr>cents := (cents t)(a := None)\<rparr>
          else t))"

definition CmmGetLastTag :: "'m cmm_table \<Rightarrow> nat \<Rightarrow> int list \<Rightarrow> int" where
  "CmmGetLastTag t n tags =
    (case cmm_walk (cbrk t + 1) t (\<lambda>ent. CmmTagsMatch n tags n (ctags ent)) LFirst of
       None \<Rightarrow> - 1 | Some (enth, a, ent) \<Rightarrow> ctags ent ! (ntags ent - 1))"

fun cmm_count :: "nat \<Rightarrow> 'm cmm_table \<Rightarrow> nat option \<Rightarrow> nat" where
  "cmm_count 0 t e = 0"
| "cmm_count (Suc n) t e = (case e of None \<Rightarrow> 0
     | Some a \<Rightarrow> Suc (cmm_count n t (Option.bind (cents t a) cnext)))"

definition CmmEntries :: "'m cmm_table \<Rightarrow> nat" where
  "CmmEntries t = cmm_count (cbrk t) t (cfirst t)"

text \<open>
  \<open>CmmPup\<close> moves a table to another address space. The stream holds the items that the calls
  of \<open>pup_int\<close> and \<open>pup_ints\<close> and the message routine of the client write; the
  client's routine is a parameter (\<open>mp\<close> when packing, \<open>mu\<close> when unpacking).
\<close>

datatype 'b pup_item = PupInt int | PupInts "int list" | PupMsg 'b

fun cmm_pack_loop ::
  "('m ptr \<Rightarrow> 'b pup_item list) \<Rightarrow> nat \<Rightarrow> 'm cmm_table \<Rightarrow> nat option \<Rightarrow> 'b pup_item list" where
  "cmm_pack_loop mp 0 t e = []"
| "cmm_pack_loop mp (Suc n) t e = (case e of None \<Rightarrow> []
     | Some a \<Rightarrow> (case cents t a of None \<Rightarrow> []
        | Some ent \<Rightarrow> PupInt (int (ntags ent)) # PupInts (take (ntags ent) (ctags ent)) # mp (cmsg ent)
            @ cmm_pack_loop mp n t (cnext ent)))"

definition CmmPup_pack :: "('m ptr \<Rightarrow> 'b pup_item list) \<Rightarrow> 'm cmm_table \<Rightarrow> 'b pup_item list" where
  "CmmPup_pack mp t = PupInt (int (CmmEntries t)) # cmm_pack_loop mp (cbrk t) t (cfirst t)"

fun cmm_unpack_loop ::
  "('b pup_item list \<Rightarrow> 'm ptr \<times> 'b pup_item list) \<Rightarrow> nat \<Rightarrow> 'm cmm_table \<Rightarrow> 'b pup_item list
    \<Rightarrow> ('m cmm_table \<times> 'b pup_item list) option" where
  "cmm_unpack_loop mu 0 t s = Some (t, s)"
| "cmm_unpack_loop mu (Suc n) t (PupInt k # PupInts tags # s) =
    (let (msg, s) = mu s in cmm_unpack_loop mu n (CmmPut t (nat k) tags msg) s)"
| "cmm_unpack_loop mu (Suc n) t s = None"

fun CmmPup_unpack ::
  "('b pup_item list \<Rightarrow> 'm ptr \<times> 'b pup_item list) \<Rightarrow> 'b pup_item list \<Rightarrow> ('m cmm_table \<times> 'b pup_item list) option"
where
  "CmmPup_unpack mu (PupInt nentries # s) = cmm_unpack_loop mu (nat nentries) CmmNew s"
| "CmmPup_unpack mu s = None"

section \<open>Invariant and list view\<close>

fun clist :: "(nat \<rightharpoonup> 'm cmm_entry) \<Rightarrow> nat option \<Rightarrow> nat list \<Rightarrow> bool" where
  "clist st p [] \<longleftrightarrow> p = None"
| "clist st p (a # as) \<longleftrightarrow> p = Some a \<and> (case st a of None \<Rightarrow> False | Some e \<Rightarrow> clist st (cnext e) as)"

definition cmm_inv :: "'m cmm_table \<Rightarrow> nat list \<Rightarrow> bool" where
  "cmm_inv t as \<longleftrightarrow> clist (cents t) (cfirst t) as \<and> distinct as \<and> dom (cents t) = set as
    \<and> (\<forall>a \<in> set as. a < cbrk t) \<and> lasth t = (if as = [] then LFirst else LNext (last as))
    \<and> (\<forall>e \<in> ran (cents t). ntags e = length (ctags e))"

definition cview :: "(nat \<rightharpoonup> 'm cmm_entry) \<Rightarrow> nat list \<Rightarrow> (int list \<times> 'm ptr) list" where
  "cview st as = map (\<lambda>a. (ctags (the (st a)), cmsg (the (st a)))) as"

text \<open>A table represents the list \<open>xs\<close> of tagged messages.\<close>

definition cmm_rep :: "'m cmm_table \<Rightarrow> (int list \<times> 'm ptr) list \<Rightarrow> bool" where
  "cmm_rep t xs \<longleftrightarrow> (\<exists>as. cmm_inv t as \<and> cview (cents t) as = xs)"

lemma clist_cong:
  "clist st p as \<Longrightarrow> (\<And>a. a \<in> set as \<Longrightarrow> map_option cnext (st' a) = map_option cnext (st a)) \<Longrightarrow> clist st' p as"
proof (induction as arbitrary: p)
  case Nil
  then show ?case by simp
next
  case (Cons a as)
  from Cons.prems(1) obtain e where e: "st a = Some e" by (auto split: option.splits)
  with Cons.prems(2) [of a] obtain e' where e': "st' a = Some e'" "cnext e' = cnext e" by auto
  with Cons e show ?case by auto
qed

lemma cview_cong:
  "(\<And>a. a \<in> set as \<Longrightarrow> map_option (\<lambda>e. (ctags e, cmsg e)) (st' a) = map_option (\<lambda>e. (ctags e, cmsg e)) (st a))
    \<Longrightarrow> set as \<subseteq> dom st \<Longrightarrow> cview st' as = cview st as"
  unfolding cview_def
proof (rule map_cong [OF refl])
  fix a assume h: "\<And>a. a \<in> set as \<Longrightarrow> map_option (\<lambda>e. (ctags e, cmsg e)) (st' a) = map_option (\<lambda>e. (ctags e, cmsg e)) (st a)"
    "set as \<subseteq> dom st" "a \<in> set as"
  then obtain e where "st a = Some e" by auto
  moreover with h(1) [OF h(3)] obtain e' where "st' a = Some e'" "ctags e' = ctags e" "cmsg e' = cmsg e" by auto
  ultimately show "(ctags (the (st' a)), cmsg (the (st' a))) = (ctags (the (st a)), cmsg (the (st a)))" by simp
qed

lemma cmm_rep_new: "cmm_rep CmmNew []"
  by (auto simp: cmm_rep_def cmm_inv_def CmmNew_def cview_def)

lemma set_next_simps [simp]:
  "set_next st a v a = map_option (\<lambda>e. e\<lparr>cnext := v\<rparr>) (st a)" "b \<noteq> a \<Longrightarrow> set_next st a v b = st b"
  "dom (set_next st a v) = dom st"
  by (auto simp: set_next_def)

lemma set_next_tags:
  "map_option (\<lambda>e. (ctags e, cmsg e)) (set_next st a v b) = map_option (\<lambda>e. (ctags e, cmsg e)) (st b)"
  by (cases "b = a"; cases "st a"; simp)

lemma set_next_ran:
  assumes "\<forall>e \<in> ran st. ntags e = length (ctags e)"
  shows "\<forall>e \<in> ran (set_next st a v). ntags e = length (ctags e)"
  using assms by (auto simp: set_next_def ran_def split: if_splits)

text \<open>Appending a cell to a list.\<close>

lemma clist_snoc:
  assumes "clist st p as" "a \<notin> set as" "st a = Some e" "cnext e = None" "distinct as"
  shows "clist (if as = [] then st else set_next st (last as) (Some a))
    (if as = [] then Some a else p) (as @ [a])"
  using assms
proof (induction as arbitrary: p)
  case Nil
  then show ?case by simp
next
  case (Cons b as)
  from Cons.prems(1) obtain f where f: "p = Some b" "st b = Some f" "clist st (cnext f) as"
    by (auto split: option.splits)
  show ?case
  proof (cases "as = []")
    case True
    with Cons.prems f show ?thesis by auto
  next
    case False
    with Cons.IH [OF f(3)] Cons.prems have IH:
      "clist (set_next st (last as) (Some a)) (cnext f) (as @ [a])" by simp
    have "last as \<noteq> b" using False Cons.prems(5) by auto
    with False f IH show ?thesis by simp
  qed
qed

lemma CmmPut_rep:
  assumes "cmm_rep t xs" "n \<le> length tags"
  shows "cmm_rep (CmmPut t n tags msg) (xs @ [(take n tags, msg)])"
proof -
  from assms(1) obtain as where inv: "cmm_inv t as" and v: "cview (cents t) as = xs" by (auto simp: cmm_rep_def)
  let ?a = "cbrk t" and ?e = "\<lparr>cnext = None, cmsg = msg, ntags = n, ctags = take n tags\<rparr>"
  let ?st = "(cents t)(?a \<mapsto> ?e)"
  have fresh: "?a \<notin> set as" and dom: "dom (cents t) = set as" and dist: "distinct as"
    using inv by (auto simp: cmm_inv_def)
  have cl: "clist ?st (cfirst t) as"
    by (rule clist_cong [of "cents t"]) (use inv fresh in \<open>auto simp: cmm_inv_def\<close>)
  let ?st' = "if as = [] then ?st else set_next ?st (last as) (Some ?a)"
  have put: "CmmPut t n tags msg = t\<lparr>cfirst := (if as = [] then Some ?a else cfirst t), lasth := LNext ?a,
      cents := ?st', cbrk := ?a + 1\<rparr>"
    using inv by (simp add: CmmPut_def cmm_store_def cmm_inv_def Let_def)
  have cl': "clist ?st' (if as = [] then Some ?a else cfirst t) (as @ [?a])"
    by (rule clist_snoc [OF cl fresh _ _ dist, of ?e]) simp_all
  have dom': "dom ?st' = set (as @ [?a])" using dom by simp
  have "cents t ?a = None" using fresh dom by blast
  then have "\<forall>e \<in> ran ?st. ntags e = length (ctags e)"
    using inv assms(2) by (auto simp: cmm_inv_def ran_map_upd)
  then have tg: "\<forall>e \<in> ran ?st'. ntags e = length (ctags e)" using set_next_ran [of ?st] by simp
  have "cview ?st' (as @ [?a]) = cview ?st (as @ [?a])"
  proof (rule cview_cong)
    show "map_option (\<lambda>e. (ctags e, cmsg e)) (?st' b) = map_option (\<lambda>e. (ctags e, cmsg e)) (?st b)" for b
      by (cases "as = []") (simp_all add: set_next_tags del: fun_upd_apply)
  qed (use dom in simp)
  also have "\<dots> = xs @ [(take n tags, msg)]" using v fresh by (auto simp: cview_def)
  finally have "cview ?st' (as @ [?a]) = xs @ [(take n tags, msg)]" .
  moreover have "cmm_inv (CmmPut t n tags msg) (as @ [?a])"
    unfolding cmm_inv_def put using cl' dom' tg dist fresh inv by (simp add: cmm_inv_def less_Suc_eq)
  ultimately show ?thesis unfolding cmm_rep_def by (intro exI [of _ "as @ [?a]"]) (simp add: put)
qed

section \<open>The walk along the list\<close>

lemma cmm_walk_cases:
  assumes "clist (cents t) (cmm_load t h) as" "length as < n"
  shows "cmm_walk n t m h = None \<and> (\<forall>a \<in> set as. \<not> m (the (cents t a)))
    \<or> (\<exists>s1 a s2. as = s1 @ a # s2 \<and> (\<forall>b \<in> set s1. \<not> m (the (cents t b))) \<and> m (the (cents t a))
        \<and> cmm_walk n t m h = Some (if s1 = [] then h else LNext (last s1), a, the (cents t a)))"
  using assms
proof (induction as arbitrary: n h)
  case Nil
  then show ?case by (cases n) auto
next
  case (Cons a as)
  obtain k where n: "n = Suc k" using Cons.prems(2) by (cases n) auto
  from Cons.prems(1) obtain e where e: "cmm_load t h = Some a" "cents t a = Some e" "clist (cents t) (cnext e) as"
    by (auto split: option.splits)
  show ?case
  proof (cases "m e")
    case True
    with e n show ?thesis by (intro disjI2 exI [of _ "[]"] exI [of _ a] exI [of _ as]) simp
  next
    case False
    then have w: "cmm_walk n t m h = cmm_walk k t m (LNext a)" using e n by simp
    have "clist (cents t) (cmm_load t (LNext a)) as" using e by (simp add: cmm_load_def)
    moreover have "length as < k" using Cons.prems(2) n by simp
    ultimately have "cmm_walk k t m (LNext a) = None \<and> (\<forall>b \<in> set as. \<not> m (the (cents t b)))
      \<or> (\<exists>s1 b s2. as = s1 @ b # s2 \<and> (\<forall>b \<in> set s1. \<not> m (the (cents t b))) \<and> m (the (cents t b))
        \<and> cmm_walk k t m (LNext a) = Some (if s1 = [] then LNext a else LNext (last s1), b, the (cents t b)))"
      by (rule Cons.IH)
    then show ?thesis
    proof (elim disjE conjE exE)
      assume "cmm_walk k t m (LNext a) = None" "\<forall>b \<in> set as. \<not> m (the (cents t b))"
      with w False e show ?thesis by simp
    next
      fix s1 b s2
      assume "as = s1 @ b # s2" "\<forall>b \<in> set s1. \<not> m (the (cents t b))" "m (the (cents t b))"
        "cmm_walk k t m (LNext a) = Some (if s1 = [] then LNext a else LNext (last s1), b, the (cents t b))"
      with w False e show ?thesis by (intro disjI2 exI [of _ "a # s1"] exI [of _ b] exI [of _ s2]) auto
    qed
  qed
qed

lemma cmm_count_list: "clist (cents t) p as \<Longrightarrow> length as \<le> n \<Longrightarrow> cmm_count n t p = length as"
proof (induction as arbitrary: n p)
  case Nil
  then show ?case by (cases n) auto
next
  case (Cons a as)
  then obtain k where "n = Suc k" by (cases n) auto
  with Cons show ?case by (auto split: option.splits)
qed

text \<open>Taking a cell out of a list.\<close>

lemma clist_delete:
  assumes "clist st p (s1 @ a # s2)" "distinct (s1 @ a # s2)" "st a = Some e"
  shows "clist (if s1 = [] then st else set_next st (last s1) (cnext e))
    (if s1 = [] then cnext e else p) (s1 @ s2)"
  using assms
proof (induction s1 arbitrary: p)
  case Nil
  then show ?case by simp
next
  case (Cons b s1)
  from Cons.prems(1) obtain f where f: "p = Some b" "st b = Some f" "clist st (cnext f) (s1 @ a # s2)"
    by (auto split: option.splits)
  show ?case
  proof (cases "s1 = []")
    case True
    have "clist (set_next st b (cnext e)) (cnext e) s2"
    proof (rule clist_cong [of st])
      show "clist st (cnext e) s2" using f(3) Cons.prems(3) True by simp
      fix x assume "x \<in> set s2"
      then have "x \<noteq> b" using Cons.prems(2) by auto
      then show "map_option cnext (set_next st b (cnext e) x) = map_option cnext (st x)" by simp
    qed
    with True f show ?thesis by simp
  next
    case False
    with Cons.IH [OF f(3)] Cons.prems have IH: "clist (set_next st (last s1) (cnext e)) (cnext f) (s1 @ s2)" by simp
    have "last s1 \<noteq> b" using False Cons.prems(2) by auto
    with False f IH show ?thesis by simp
  qed
qed

lemma clist_next_None: "clist st p (s1 @ a # s2) \<Longrightarrow> st a = Some e \<Longrightarrow> cnext e = None \<longleftrightarrow> s2 = []"
proof (induction s1 arbitrary: p)
  case Nil
  then show ?case by (cases s2) auto
next
  case (Cons b s1)
  then show ?case by (auto split: option.splits)
qed

lemma cmm_inv_length:
  assumes "cmm_inv t as"
  shows "length as \<le> cbrk t"
proof -
  have "set as \<subseteq> {..<cbrk t}" "distinct as" using assms by (auto simp: cmm_inv_def)
  then show ?thesis using card_mono [of "{..<cbrk t}" "set as"] distinct_card by fastforce
qed

lemma cmm_delete_rep:
  assumes inv: "cmm_inv t (s1 @ a # s2)" and e: "cents t a = Some e"
  defines "h \<equiv> (if s1 = [] then LFirst else LNext (last s1))"
  defines "t1 \<equiv> cmm_store t h (cnext e)"
  defines "t2 \<equiv> (if cnext e = None then t1\<lparr>lasth := h\<rparr> else t1)"
  shows "cmm_rep (t2\<lparr>cents := (cents t2)(a := None)\<rparr>) (cview (cents t) s1 @ cview (cents t) s2)"
proof -
  let ?st = "if s1 = [] then cents t else set_next (cents t) (last s1) (cnext e)"
  have cl: "clist (cents t) (cfirst t) (s1 @ a # s2)" and dist: "distinct (s1 @ a # s2)"
    and dom: "dom (cents t) = set (s1 @ a # s2)" and tg: "\<forall>e \<in> ran (cents t). ntags e = length (ctags e)"
    and l: "lasth t = LNext (last (s1 @ a # s2))" and br: "\<forall>b \<in> set (s1 @ a # s2). b < cbrk t"
    using inv by (simp_all add: cmm_inv_def)
  have t1: "cents t1 = ?st" "cfirst t1 = (if s1 = [] then cnext e else cfirst t)" "lasth t1 = lasth t" "cbrk t1 = cbrk t"
    by (simp_all add: t1_def h_def cmm_store_def)
  have t2: "cents t2 = ?st" "cfirst t2 = cfirst t1" "cbrk t2 = cbrk t"
    "lasth t2 = (if s2 = [] then h else lasth t)"
    using t1 clist_next_None [OF cl e] by (simp_all add: t2_def)
  have "clist ?st (cfirst t2) (s1 @ s2)" unfolding t2(2) t1(2) by (rule clist_delete [OF cl dist e])
  then have cl': "clist (?st(a := None)) (cfirst t2) (s1 @ s2)"
    by (rule clist_cong) (use dist in auto)
  have "\<forall>e \<in> ran ?st. ntags e = length (ctags e)" using tg set_next_ran [OF tg] by simp
  then have tg': "\<forall>e \<in> ran (?st(a := None)). ntags e = length (ctags e)"
    by (auto simp: ran_def split: if_splits)
  have "dom (?st(a := None)) = set (s1 @ s2)" using dom dist by auto
  then have "cmm_inv (t2\<lparr>cents := (cents t2)(a := None)\<rparr>) (s1 @ s2)"
    using cl' tg' dist l br unfolding cmm_inv_def by (simp add: t2 h_def)
  moreover have "cview ((cents t2)(a := None)) (s1 @ s2) = cview (cents t) (s1 @ s2)"
    unfolding t2(1) by (rule cview_cong) (use dist dom in \<open>auto simp: set_next_tags\<close>)
  moreover have "cview (cents t) (s1 @ s2) = cview (cents t) s1 @ cview (cents t) s2" by (simp add: cview_def)
  ultimately show ?thesis unfolding cmm_rep_def by (intro exI [of _ "s1 @ s2"]) (simp del: fun_upd_apply)
qed

section \<open>Properties\<close>

text \<open>Tags match if they are equal or one of them is the wild card.\<close>

definition tags_match :: "int list \<Rightarrow> int list \<Rightarrow> bool" where
  "tags_match = list_all2 (\<lambda>a b. a = b \<or> a = CmmWildCard \<or> b = CmmWildCard)"

lemma tags_loop_match:
  "length xs = n \<Longrightarrow> length ys = n \<Longrightarrow> tags_loop n xs ys \<longleftrightarrow> tags_match xs ys"
proof (induction n arbitrary: xs ys)
  case 0
  then show ?case by (simp add: tags_match_def)
next
  case (Suc n)
  then obtain x xs' y ys' where "xs = x # xs'" "ys = y # ys'" by (metis length_Suc_conv)
  with Suc show ?case by (auto simp: tags_match_def Let_def)
qed

lemma CmmTagsMatch_match:
  assumes "length tags = n" "k = length tg"
  shows "CmmTagsMatch n tags k tg \<longleftrightarrow> tags_match tags tg"
proof (cases "n = k")
  case True
  with assms show ?thesis by (simp add: CmmTagsMatch_def tags_loop_match)
next
  case False
  with assms show ?thesis by (auto simp: CmmTagsMatch_def tags_match_def dest: list_all2_lengthD)
qed

lemma cmm_inv_entry:
  assumes "cmm_inv t as" "a \<in> set as"
  shows "\<exists>e. cents t a = Some e \<and> ntags e = length (ctags e)"
proof -
  have "a \<in> dom (cents t)" using assms by (simp add: cmm_inv_def)
  then obtain e where "cents t a = Some e" by blast
  with assms show ?thesis by (auto simp: cmm_inv_def ran_def)
qed

text \<open>
  \<open>CmmPut\<close> appends the tagged message to the table and keeps the links, the tail pointer
  and the tag counts consistent.
\<close>

theorem cmm_put_appends:
  assumes "cmm_rep t xs" "length tags = n"
  shows "cmm_rep (CmmPut t n tags msg) (xs @ [(tags, msg)])"
  using CmmPut_rep [OF assms(1), of n tags msg] assms(2) by simp

theorem cmm_put_appends_witness:
  "cmm_rep (CmmPut CmmNew 2 [3, CmmWildCard] (Some (7 :: nat))) [([3, CmmWildCard], Some 7)]"
  using cmm_put_appends [OF cmm_rep_new, of "[3, CmmWildCard]" 2 "Some (7 :: nat)"] by simp

text \<open>
  C28. \<open>CmmFind\<close> returns the first entry, in the order of insertion, whose tags match up to
  wild cards on either side, and copies the entry's own tags out. With \<open>del\<close> exactly that
  entry leaves the table; without it, or if nothing matches, the table is unchanged.
\<close>

theorem cmm_find_first:
  assumes "cmm_rep t xs" "length tags = n" "CmmFind t n tags del = (msg, rtags, t')"
  shows "(\<forall>(tg, m) \<in> set xs. \<not> tags_match tags tg) \<and> msg = None \<and> t' = t
    \<or> (\<exists>ys tg zs. xs = ys @ (tg, msg) # zs \<and> (\<forall>(tg', m) \<in> set ys. \<not> tags_match tags tg')
        \<and> tags_match tags tg \<and> rtags = tg \<and> (if del then cmm_rep t' (ys @ zs) else t' = t))"
proof -
  from assms(1) obtain as where inv: "cmm_inv t as" and v: "cview (cents t) as = xs" by (auto simp: cmm_rep_def)
  let ?m = "\<lambda>ent. CmmTagsMatch n tags (ntags ent) (ctags ent)"
  have cl: "clist (cents t) (cmm_load t LFirst) as" using inv by (simp add: cmm_inv_def cmm_load_def)
  have "length as < cbrk t + 1" using cmm_inv_length [OF inv] by simp
  note w = cmm_walk_cases [OF cl this, of ?m]
  have m: "?m (the (cents t a)) \<longleftrightarrow> tags_match tags (ctags (the (cents t a)))" if "a \<in> set as" for a
    using cmm_inv_entry [OF inv that] CmmTagsMatch_match [OF assms(2)] by auto
  from w show ?thesis
  proof (elim disjE conjE exE)
    assume "cmm_walk (cbrk t + 1) t ?m LFirst = None" "\<forall>a \<in> set as. \<not> ?m (the (cents t a))"
    with m assms(3) v show ?thesis by (intro disjI1) (auto simp: CmmFind_def cview_def)
  next
    fix s1 a s2
    let ?h = "if s1 = [] then LFirst else LNext (last s1)"
    assume as: "as = s1 @ a # s2" and s1: "\<forall>b \<in> set s1. \<not> ?m (the (cents t b))" and ma: "?m (the (cents t a))"
      and walk: "cmm_walk (cbrk t + 1) t ?m LFirst = Some (?h, a, the (cents t a))"
    from inv as obtain e where e: "cents t a = Some e" "ntags e = length (ctags e)"
      using cmm_inv_entry [OF inv, of a] by auto
    let ?t1 = "cmm_store t ?h (cnext e)"
    let ?t2 = "if cnext e = None then ?t1\<lparr>lasth := ?h\<rparr> else ?t1"
    note d = cmm_delete_rep [OF inv [unfolded as] e(1)]
    have n: "n = length (ctags e)" using ma e by (simp add: CmmTagsMatch_def split: if_splits)
    have "CmmFind t n tags del = (cmsg e, ctags e, if del then ?t2\<lparr>cents := (cents ?t2)(a := None)\<rparr> else t)"
      unfolding CmmFind_def walk using e n by (simp add: Let_def)
    with assms(3) have res: "msg = cmsg e" "rtags = ctags e"
        "t' = (if del then ?t2\<lparr>cents := (cents ?t2)(a := None)\<rparr> else t)" by auto
    let ?ys = "cview (cents t) s1" and ?zs = "cview (cents t) s2"
    have "xs = ?ys @ (ctags e, msg) # ?zs" using v as e res(1) by (simp add: cview_def)
    moreover have "\<forall>(tg', m) \<in> set ?ys. \<not> tags_match tags tg'" using s1 m as by (auto simp: cview_def)
    moreover have "tags_match tags (ctags e)" using ma m [of a] as e by simp
    moreover have "if del then cmm_rep t' (?ys @ ?zs) else t' = t"
      unfolding res(3) using d by (cases del) (simp_all only: if_True if_False)
    ultimately show ?thesis using res(2) by blast
  qed
qed

theorem cmm_find_first_witness:
  "let t = CmmPut (CmmPut CmmNew 1 [3] (Some (7 :: nat))) 1 [4] (Some 8)
   in cmm_rep t [([3], Some 7), ([4], Some 8)]
     \<and> fst (CmmFind t 1 [4] True) = Some 8 \<and> cmm_rep (snd (snd (CmmFind t 1 [4] True))) [([3], Some 7)]"
proof -
  let ?t1 = "CmmPut CmmNew 1 [3] (Some (7 :: nat))" and ?t = "CmmPut (CmmPut CmmNew 1 [3] (Some (7 :: nat))) 1 [4] (Some 8)"
  have r1: "cmm_rep ?t1 [([3], Some 7)]" using CmmPut_rep [OF cmm_rep_new, of 1 "[3]" "Some 7"] by simp
  have r: "cmm_rep ?t [([3], Some 7), ([4], Some 8)]" using CmmPut_rep [OF r1, of 1 "[4]" "Some 8"] by simp
  obtain msg rtags t' where f: "CmmFind ?t 1 [4] True = (msg, rtags, t')" by (metis prod_cases3)
  from cmm_find_first [OF r _ f] have "msg = Some 8 \<and> cmm_rep t' [([3], Some 7)]"
    by (auto simp: tags_match_def CmmWildCard_def Cons_eq_append_conv)
  with r f show ?thesis by simp
qed

lemma cmm_pack_unpack:
  assumes "clist (cents t) p as" "length as \<le> n" "\<And>m s. mu (mp m @ s) = (m, s)"
    and "\<forall>a \<in> set as. ntags (the (cents t a)) = length (ctags (the (cents t a)))" "cmm_rep t' ys"
  shows "\<exists>u. cmm_unpack_loop mu (length as) t' (cmm_pack_loop mp n t p @ s) = Some (u, s)
    \<and> cmm_rep u (ys @ cview (cents t) as)"
  using assms
proof (induction as arbitrary: n p t' ys)
  case Nil
  then show ?case by (cases n) (auto simp: cview_def)
next
  case (Cons a as)
  obtain k where n: "n = Suc k" using Cons.prems(2) by (cases n) auto
  from Cons.prems(1) obtain e where e: "p = Some a" "cents t a = Some e" "clist (cents t) (cnext e) as"
    by (auto split: option.splits)
  have tg: "ntags e = length (ctags e)" using Cons.prems(4) e by simp
  let ?t = "CmmPut t' (ntags e) (ctags e) (cmsg e)"
  have "cmm_rep ?t (ys @ [(ctags e, cmsg e)])" using CmmPut_rep [OF Cons.prems(5), of "ntags e" "ctags e"] tg by simp
  from Cons.IH [OF e(3) _ Cons.prems(3) _ this, of k] Cons.prems(2,4) n obtain u where
    "cmm_unpack_loop mu (length as) ?t (cmm_pack_loop mp k t (cnext e) @ s) = Some (u, s)"
    "cmm_rep u (ys @ [(ctags e, cmsg e)] @ cview (cents t) as)" by auto
  with e n tg Cons.prems(3) show ?case by (simp add: cview_def)
qed

text \<open>
  C29. Unpacking what \<open>CmmPup\<close> packed gives a table with the same tagged messages in the same
  order, and consumes exactly the packed items, for every message routine that unpacks what
  it packs.
\<close>

theorem cmm_pup_roundtrip:
  assumes "cmm_rep t xs" "\<And>m s. mu (mp m @ s) = (m, s)"
  shows "\<exists>t'. CmmPup_unpack mu (CmmPup_pack mp t @ s) = Some (t', s) \<and> cmm_rep t' xs"
proof -
  from assms(1) obtain as where inv: "cmm_inv t as" and v: "cview (cents t) as = xs" by (auto simp: cmm_rep_def)
  have cl: "clist (cents t) (cfirst t) as" using inv by (simp add: cmm_inv_def)
  have "CmmEntries t = length as" using cmm_count_list [OF cl cmm_inv_length [OF inv]] by (simp add: CmmEntries_def)
  moreover have "\<forall>a \<in> set as. ntags (the (cents t a)) = length (ctags (the (cents t a)))"
    using cmm_inv_entry [OF inv] by fastforce
  ultimately show ?thesis
    using cmm_pack_unpack [OF cl cmm_inv_length [OF inv] assms(2) _ cmm_rep_new, of s] v
    by (simp add: CmmPup_pack_def)
qed

theorem cmm_pup_roundtrip_witness:
  "\<exists>t'. CmmPup_unpack (\<lambda>s. case s of PupMsg m # s \<Rightarrow> (m, s))
      (CmmPup_pack (\<lambda>m. [PupMsg m]) (CmmPut CmmNew 1 [3] (Some (7 :: nat)))) = Some (t', [])
    \<and> cmm_rep t' [([3], Some 7)]"
proof -
  have "cmm_rep (CmmPut CmmNew 1 [3] (Some (7 :: nat))) [([3], Some 7)]"
    using CmmPut_rep [OF cmm_rep_new, of 1 "[3]" "Some 7"] by simp
  from cmm_pup_roundtrip [OF this, of "\<lambda>s. case s of PupMsg m # s \<Rightarrow> (m, s)" "\<lambda>m. [PupMsg m]" "[]"]
  show ?thesis by simp
qed

end
