(* ===== verification/Span_Tree.thy ===== *)
theory Span_Tree
  imports Charm_Prelude
begin

text \<open>
  The spanning tree over the processors that broadcasts, reductions and quiescence detection
  use: the macros of \<^verbatim>\<open>src/conv-core/converse.h\<close> on top of the node numbering of
  \<^verbatim>\<open>src/arch/util/machine-common-core.C\<close>. Node 0 is the root of a tree of nodes of width
  \<open>w\<close>, and the processors of a node form a tree below its first processor.
\<close>

section \<open>The interface\<close>

text \<open>A tree on \<open>{..<n}\<close> with root 0, given by the parent of each processor and its children.\<close>

locale pe_tree =
  fixes n :: nat
    and parent :: "nat \<Rightarrow> nat"
    and children :: "nat \<Rightarrow> nat list"
  assumes root: "0 < n"
    and distinct_children: "p < n \<Longrightarrow> distinct (children p)"
    and children_iff: "p < n \<Longrightarrow> c \<in> set (children p) \<longleftrightarrow> c < n \<and> c \<noteq> 0 \<and> parent c = p"
    and parent_less: "c < n \<Longrightarrow> c \<noteq> 0 \<Longrightarrow> parent c < c"
begin

lemma parent_n: "c < n \<Longrightarrow> c \<noteq> 0 \<Longrightarrow> parent c < n"
  using parent_less [of c] by simp

lemma parent_ne: "c < n \<Longrightarrow> c \<noteq> 0 \<Longrightarrow> parent c \<noteq> c"
  using parent_less [of c] by simp

text \<open>What holds at the root and goes from a parent to its children holds everywhere.\<close>

lemma tree_induct [consumes 1, case_names root child]:
  assumes "i < n" "P 0" "\<And>c. c < n \<Longrightarrow> c \<noteq> 0 \<Longrightarrow> P (parent c) \<Longrightarrow> P c"
  shows "P i"
  using assms(1)
proof (induction i rule: less_induct)
  case (less i)
  show ?case
  proof (cases "i = 0")
    case True
    with assms(2) show ?thesis by simp
  next
    case False
    with less parent_less [of i] parent_n [of i] assms(3) [of i] show ?thesis by blast
  qed
qed

end

section \<open>Node numbering\<close>

text \<open>\<open>ns\<close> is \<open>_Cmi_mynodesize\<close>.\<close>

definition CmiNodeFirst :: "nat \<Rightarrow> nat \<Rightarrow> nat" where "CmiNodeFirst ns node = node * ns"

definition CmiNodeOf :: "nat \<Rightarrow> nat \<Rightarrow> nat" where "CmiNodeOf ns pe = pe div ns"

definition CmiRankOf :: "nat \<Rightarrow> nat \<Rightarrow> nat" where "CmiRankOf ns pe = pe mod ns"

definition CmiNodeSize :: "nat \<Rightarrow> nat \<Rightarrow> nat" where "CmiNodeSize ns node = ns"

section \<open>The tree\<close>

text \<open>\<open>w\<close> is \<open>CST_W\<close>, \<open>nn\<close> is \<open>CST_NN\<close>.\<close>

definition CmiNodeSpanTreeParent :: "nat \<Rightarrow> nat \<Rightarrow> int" where
  "CmiNodeSpanTreeParent w n = (if n \<noteq> 0 then int ((n - 1) div w) else - 1)"

definition CmiNodeSpanTreeChildren :: "nat \<Rightarrow> nat \<Rightarrow> nat \<Rightarrow> nat list" where
  "CmiNodeSpanTreeChildren w nn n = filter (\<lambda>x. x < nn) (map (\<lambda>i. n * w + i + 1) [0..<w])"

definition CmiNumNodeSpanTreeChildren :: "nat \<Rightarrow> nat \<Rightarrow> nat \<Rightarrow> nat" where
  "CmiNumNodeSpanTreeChildren w nn n =
    (if (n + 1) * w < nn then w else if n * w + 1 \<ge> nn then 0 else (nn - 1) - n * w)"

definition CmiSpanTreeParent :: "nat \<Rightarrow> nat \<Rightarrow> nat \<Rightarrow> int" where
  "CmiSpanTreeParent w ns p =
    (if p \<noteq> 0 then
       if CmiRankOf ns p \<noteq> 0 then int (CmiNodeFirst ns (CmiNodeOf ns p) + (CmiRankOf ns p - 1) div w)
       else int (CmiNodeFirst ns (nat (CmiNodeSpanTreeParent w (CmiNodeOf ns p))))
     else - 1)"

definition CST_C :: "nat \<Rightarrow> nat \<Rightarrow> nat \<Rightarrow> nat" where
  "CST_C w ns p =
    (let r = CmiRankOf ns p; s = CmiNodeSize ns (CmiNodeOf ns p) in
     if (r + 1) * w < s then w else if r * w + 1 \<ge> s then 0 else (s - 1) - r * w)"

definition CST_SC :: "nat \<Rightarrow> nat \<Rightarrow> nat \<Rightarrow> nat \<Rightarrow> nat" where
  "CST_SC w ns nn p = CmiNumNodeSpanTreeChildren w nn (CmiNodeOf ns p)"

definition CmiNumSpanTreeChildren :: "nat \<Rightarrow> nat \<Rightarrow> nat \<Rightarrow> nat \<Rightarrow> nat" where
  "CmiNumSpanTreeChildren w ns nn p =
    (if CmiRankOf ns p \<noteq> 0 then CST_C w ns p else CST_SC w ns nn p + CST_C w ns p)"

definition CmiSpanTreeChildren :: "nat \<Rightarrow> nat \<Rightarrow> nat \<Rightarrow> nat \<Rightarrow> nat list" where
  "CmiSpanTreeChildren w ns nn p =
    (if CmiRankOf ns p = 0 then
       map (CmiNodeFirst ns) (filter (\<lambda>x. x < nn) (map (\<lambda>i. CmiNodeOf ns p * w + i + 1) [0..<w]))
     else [])
    @ map (\<lambda>x. CmiNodeFirst ns (CmiNodeOf ns p) + x)
        (filter (\<lambda>x. x < CmiNodeSize ns (CmiNodeOf ns p)) (map (\<lambda>i. CmiRankOf ns p * w + i + 1) [0..<w]))"

section \<open>The macros define a tree\<close>

lemmas topo_defs = CmiNodeFirst_def CmiNodeOf_def CmiRankOf_def CmiNodeSize_def

text \<open>The children of \<open>a\<close> in a tree of width \<open>w\<close> on \<open>{..<m}\<close>.\<close>

definition wtree_children :: "nat \<Rightarrow> nat \<Rightarrow> nat \<Rightarrow> nat list" where
  "wtree_children w m a = filter (\<lambda>x. x < m) (map (\<lambda>i. a * w + i + 1) [0..<w])"

lemma set_wtree:
  assumes "0 < w"
  shows "x \<in> set (wtree_children w m a) \<longleftrightarrow> x < m \<and> x \<noteq> 0 \<and> (x - 1) div w = a"
proof -
  have "(\<exists>i < w. x = a * w + i + 1) \<longleftrightarrow> x \<noteq> 0 \<and> (x - 1) div w = a"
  proof
    assume "\<exists>i < w. x = a * w + i + 1"
    then obtain i where "i < w" "x = a * w + i + 1" by blast
    then show "x \<noteq> 0 \<and> (x - 1) div w = a" using assms by simp
  next
    assume "x \<noteq> 0 \<and> (x - 1) div w = a"
    then have "x - 1 = a * w + (x - 1) mod w" "x \<noteq> 0" using div_mult_mod_eq [of "x - 1" w] by auto
    then show "\<exists>i < w. x = a * w + i + 1" using assms by (intro exI [of _ "(x - 1) mod w"]) auto
  qed
  moreover have "x \<in> set (wtree_children w m a) \<longleftrightarrow> x < m \<and> (\<exists>i < w. x = a * w + i + 1)"
    by (auto simp: wtree_children_def image_iff)
  ultimately show ?thesis by blast
qed

lemma distinct_wtree: "distinct (wtree_children w m a)"
  by (auto simp: wtree_children_def distinct_map inj_on_def intro!: distinct_filter)

lemma length_wtree:
  "length (wtree_children w m a) = (if (a + 1) * w < m then w else if a * w + 1 \<ge> m then 0 else (m - 1) - a * w)"
proof -
  have "length (wtree_children w m a) = length (filter (\<lambda>i. a * w + i + 1 < m) [0..<w])"
    by (simp add: wtree_children_def filter_map comp_def)
  also have "\<dots> = card {i. i < w \<and> a * w + i + 1 < m}"
    using distinct_card [of "filter (\<lambda>i. a * w + i + 1 < m) [0..<w]"] by (simp add: conj_commute)
  also have "{i. i < w \<and> a * w + i + 1 < m} = {..<min w (m - 1 - a * w)}" by auto
  finally have "length (wtree_children w m a) = min w (m - 1 - a * w)" by simp
  moreover have "min w (m - 1 - k) = (if k + w < m then w else if k + 1 \<ge> m then 0 else m - 1 - k)" for k
    by (auto simp: min_def)
  moreover have "(a + 1) * w = a * w + w" by simp
  ultimately show ?thesis by (simp only:)
qed

lemma children_wtree:
  "CmiSpanTreeChildren w ns nn p =
    (if p mod ns = 0 then map (\<lambda>x. x * ns) (wtree_children w nn (p div ns)) else [])
    @ map (\<lambda>x. p div ns * ns + x) (wtree_children w ns (p mod ns))"
  by (simp add: CmiSpanTreeChildren_def wtree_children_def topo_defs)

lemma CmiSpanTreeParent_wtree:
  assumes "0 < p"
  shows "CmiSpanTreeParent w ns p =
    int (if p mod ns \<noteq> 0 then p div ns * ns + (p mod ns - 1) div w else (p div ns - 1) div w * ns)"
proof -
  have "p div ns \<noteq> 0" if "p mod ns = 0" using assms that by (metis div_mult_mod_eq mult_0 add_0 not_less_zero)
  then show ?thesis using assms by (auto simp: CmiSpanTreeParent_def CmiNodeSpanTreeParent_def topo_defs)
qed

lemma in_children:
  assumes w: "0 < w" and ns: "0 < ns" and p: "p < nn * ns"
  shows "c \<in> set (CmiSpanTreeChildren w ns nn p) \<longleftrightarrow> c < nn * ns \<and> c \<noteq> 0 \<and> CmiSpanTreeParent w ns c = int p"
proof -
  let ?d = "p div ns" and ?r = "p mod ns"
  have pd: "p = ?d * ns + ?r" "?r < ns" "?d < nn" using ns p by (simp_all add: less_mult_imp_div_less)
  have cd: "c = c div ns * ns + c mod ns" "c mod ns < ns" using ns by simp_all
  have up: "c \<in> (\<lambda>x. x * ns) ` set (wtree_children w nn ?d) \<longleftrightarrow>
      c mod ns = 0 \<and> c div ns < nn \<and> c div ns \<noteq> 0 \<and> (c div ns - 1) div w = ?d"
  proof
    assume "c \<in> (\<lambda>x. x * ns) ` set (wtree_children w nn ?d)"
    then obtain x where "c = x * ns" "x \<in> set (wtree_children w nn ?d)" by blast
    then show "c mod ns = 0 \<and> c div ns < nn \<and> c div ns \<noteq> 0 \<and> (c div ns - 1) div w = ?d"
      using ns by (simp add: set_wtree [OF w])
  next
    assume h: "c mod ns = 0 \<and> c div ns < nn \<and> c div ns \<noteq> 0 \<and> (c div ns - 1) div w = ?d"
    then have "c = c div ns * ns" "c div ns \<in> set (wtree_children w nn ?d)" using cd(1) set_wtree [OF w] by auto
    then show "c \<in> (\<lambda>x. x * ns) ` set (wtree_children w nn ?d)" by blast
  qed
  have down: "c \<in> (\<lambda>x. ?d * ns + x) ` set (wtree_children w ns ?r) \<longleftrightarrow>
      c div ns = ?d \<and> c mod ns \<noteq> 0 \<and> (c mod ns - 1) div w = ?r"
  proof
    assume "c \<in> (\<lambda>x. ?d * ns + x) ` set (wtree_children w ns ?r)"
    then obtain x where x: "c = ?d * ns + x" "x < ns" "x \<noteq> 0" "(x - 1) div w = ?r"
      by (auto simp: set_wtree [OF w])
    then have "c div ns = ?d" "c mod ns = x" using ns by simp_all
    with x show "c div ns = ?d \<and> c mod ns \<noteq> 0 \<and> (c mod ns - 1) div w = ?r" by simp
  next
    assume h: "c div ns = ?d \<and> c mod ns \<noteq> 0 \<and> (c mod ns - 1) div w = ?r"
    then have "c = ?d * ns + c mod ns" "c mod ns \<in> set (wtree_children w ns ?r)"
      using cd set_wtree [OF w] by auto
    then show "c \<in> (\<lambda>x. ?d * ns + x) ` set (wtree_children w ns ?r)" by blast
  qed
  have mem: "c \<in> set (CmiSpanTreeChildren w ns nn p) \<longleftrightarrow>
      ?r = 0 \<and> c mod ns = 0 \<and> c div ns < nn \<and> c div ns \<noteq> 0 \<and> (c div ns - 1) div w = ?d
      \<or> c div ns = ?d \<and> c mod ns \<noteq> 0 \<and> (c mod ns - 1) div w = ?r"
    unfolding children_wtree using up down by (cases "?r = 0") (simp_all only: set_append set_map if_True if_False list.set, simp_all)
  have lt: "c < nn * ns \<longleftrightarrow> c div ns < nn" using ns by (simp add: div_less_iff_less_mult)
  have eq: "a * ns + b = p \<longleftrightarrow> a = ?d \<and> b = ?r" if "b < ns" for a b
    using that ns pd(1) by auto
  show ?thesis
  proof (cases "c = 0")
    case True
    then show ?thesis unfolding mem by simp
  next
    case c0: False
    show ?thesis
    proof (cases "c mod ns = 0")
      case True
      then have "c div ns \<noteq> 0" using c0 cd(1) by (metis mult_0 add_0)
      have "CmiSpanTreeParent w ns c = int p \<longleftrightarrow> (c div ns - 1) div w * ns + 0 = p"
        using True c0 CmiSpanTreeParent_wtree [of c w ns] by (simp flip: of_nat_mult)
      also have "\<dots> \<longleftrightarrow> (c div ns - 1) div w = ?d \<and> 0 = ?r" by (rule eq) (rule ns)
      finally show ?thesis unfolding mem using True c0 lt \<open>c div ns \<noteq> 0\<close> by metis
    next
      case False
      have "(c mod ns - 1) div w < ns" using cd(2) div_le_dividend [of "c mod ns - 1" w] by linarith
      moreover have "CmiSpanTreeParent w ns c = int p \<longleftrightarrow> c div ns * ns + (c mod ns - 1) div w = p"
        using False c0 CmiSpanTreeParent_wtree [of c w ns] by (simp flip: of_nat_mult of_nat_add)
      ultimately have "CmiSpanTreeParent w ns c = int p \<longleftrightarrow> c div ns = ?d \<and> (c mod ns - 1) div w = ?r"
        using eq by simp
      then show ?thesis unfolding mem using False c0 lt pd(3) by metis
    qed
  qed
qed

lemma distinct_children_pe:
  assumes w: "0 < w" and ns: "0 < ns"
  shows "distinct (CmiSpanTreeChildren w ns nn p)"
proof -
  have "x * ns \<noteq> p div ns * ns + y" if "y < ns" "y \<noteq> 0" for x y
  proof
    assume "x * ns = p div ns * ns + y"
    then have "(x * ns) mod ns = y" using that(1) by simp
    with that(2) show False by simp
  qed
  then show ?thesis
    using ns by (auto simp: children_wtree distinct_map distinct_wtree inj_on_def set_wtree [OF w])
qed

lemma parent_pe_less:
  assumes "0 < w" "0 < ns" "c \<noteq> 0"
  shows "0 \<le> CmiSpanTreeParent w ns c \<and> CmiSpanTreeParent w ns c < int c"
proof -
  have c: "c = c div ns * ns + c mod ns" by simp
  show ?thesis
  proof (cases "c mod ns = 0")
    case True
    then have "c div ns \<noteq> 0" using assms(3) c by (metis mult_0 add_0)
    then have "(c div ns - 1) div w < c div ns" using div_le_dividend [of "c div ns - 1" w] by linarith
    then have "(c div ns - 1) div w * ns < c div ns * ns" using assms(2) by simp
    with True c show ?thesis using CmiSpanTreeParent_wtree [of c w ns] assms(3) by (simp flip: of_nat_mult)
  next
    case False
    then have "(c mod ns - 1) div w < c mod ns" using div_le_dividend [of "c mod ns - 1" w] by linarith
    then have "c div ns * ns + (c mod ns - 1) div w < c" using c by linarith
    with False show ?thesis using CmiSpanTreeParent_wtree [of c w ns] assms(3)
      by (simp flip: of_nat_mult of_nat_add)
  qed
qed

definition pe_parent :: "nat \<Rightarrow> nat \<Rightarrow> nat \<Rightarrow> nat" where
  "pe_parent w ns p = nat (CmiSpanTreeParent w ns p)"

lemma pe_tree_spantree:
  assumes "0 < w" "0 < ns" "0 < nn"
  shows "pe_tree (nn * ns) (pe_parent w ns) (CmiSpanTreeChildren w ns nn)"
proof
  show "0 < nn * ns" using assms by simp
  fix p assume p: "p < nn * ns"
  show "distinct (CmiSpanTreeChildren w ns nn p)" using assms by (intro distinct_children_pe)
  show "c \<in> set (CmiSpanTreeChildren w ns nn p) \<longleftrightarrow> c < nn * ns \<and> c \<noteq> 0 \<and> pe_parent w ns c = p" for c
    using in_children [OF assms(1,2) p, of c] parent_pe_less [OF assms(1,2), of c] by (auto simp: pe_parent_def)
next
  fix c assume "c < nn * ns" "c \<noteq> 0"
  then show "pe_parent w ns c < c" using parent_pe_less [OF assms(1,2), of c] by (simp add: pe_parent_def nat_less_iff)
qed

lemma length_children_pe: "length (CmiSpanTreeChildren w ns nn p) = CmiNumSpanTreeChildren w ns nn p"
  by (simp add: children_wtree length_wtree CmiNumSpanTreeChildren_def CST_SC_def CST_C_def
      CmiNumNodeSpanTreeChildren_def topo_defs Let_def)

text \<open>The width is the \<open>CMK_SPANTREE_MAXSPAN\<close> of the network layers.\<close>

interpretation spantree: pe_tree "Suc nn * Suc ns" "pe_parent 4 (Suc ns)" "CmiSpanTreeChildren 4 (Suc ns) (Suc nn)"
  for nn ns
  by (rule pe_tree_spantree) simp_all

section \<open>Properties\<close>

text \<open>
  C30. The parent and children macros agree and define a tree with root 0: a processor is in
  the child list of \<open>p\<close> exactly if \<open>p\<close> is its parent, no child is listed twice, and parents
  have smaller numbers.
\<close>

theorem span_tree_consistent:
  assumes "0 < w" "0 < ns" "p < nn * ns"
  shows "distinct (CmiSpanTreeChildren w ns nn p)
    \<and> (\<forall>c. c \<in> set (CmiSpanTreeChildren w ns nn p) \<longleftrightarrow> c < nn * ns \<and> c \<noteq> 0 \<and> CmiSpanTreeParent w ns c = int p)
    \<and> (p \<noteq> 0 \<longrightarrow> 0 \<le> CmiSpanTreeParent w ns p \<and> CmiSpanTreeParent w ns p < int p)"
  using distinct_children_pe [OF assms(1,2)] in_children [OF assms] parent_pe_less [OF assms(1,2)] by blast

theorem span_tree_consistent_witness:
  "distinct (CmiSpanTreeChildren 4 2 3 0) \<and> CmiSpanTreeChildren 4 2 3 0 = [2, 4, 1]
    \<and> CmiSpanTreeParent 4 2 4 = 0"
proof -
  have ch: "CmiSpanTreeChildren 4 2 3 0 = [2, 4, 1]"
    by code_simp
  have hyps: "0 < (4 :: nat)" "0 < (2 :: nat)" "0 < 3 * (2 :: nat)" by simp_all
  note s = span_tree_consistent [OF hyps]
  have "4 \<in> set (CmiSpanTreeChildren 4 2 3 0)" by (simp add: ch)
  with s have "CmiSpanTreeParent 4 2 4 = int 0" by blast
  with s ch show ?thesis by simp
qed

text \<open>
  \<open>CmiNumSpanTreeChildren\<close> is the number of children that \<open>CmiSpanTreeChildren\<close> writes, so
  the array that callers allocate has the right size.
\<close>

theorem span_tree_count:
  "length (CmiSpanTreeChildren w ns nn p) = CmiNumSpanTreeChildren w ns nn p"
  by (rule length_children_pe)

end
