(* ===== verification/Qd.thy ===== *)
theory Qd
  imports Span_Tree
begin

text \<open>
  Quiescence detection, \<^verbatim>\<open>src/conv-core/quiescence.c\<close>: the state of one processor and the
  handlers of the detection messages. Counters are 64-bit in the code; they count messages
  and are modelled as integers.
\<close>

section \<open>Data\<close>

text \<open>
  \<open>ConvQdMsg\<close>: the two members of the union are separate fields; no handler reads one that
  was not written for the phase the message is in.
\<close>

record qd_msg =
  phase :: int
  created :: int
  processed :: int
  dirty :: bool

record qd_state =
  stage :: int
  cDirty :: bool
  oProcessed :: int
  mCreated :: int
  mProcessed :: int
  cCreated :: int
  cProcessed :: int
  nReported :: nat
  nChildren :: nat
  qparent :: int
  qchildren :: "nat list"

text \<open>What a handler sends: a message to one processor, or the announcement to all.\<close>

datatype qd_out = QdSend nat qd_msg | QdAnnounce

datatype qd_error = QdAssert | QdAbort

fun qd_bind :: "qd_error + 'a \<Rightarrow> ('a \<Rightarrow> qd_error + 'b) \<Rightarrow> qd_error + 'b" where
  "qd_bind (Inl e) f = Inl e"
| "qd_bind (Inr x) f = f x"

section \<open>Message and state accessors\<close>

definition CQdMsgGetPhase :: "qd_msg \<Rightarrow> int" where "CQdMsgGetPhase msg = phase msg"

definition CQdMsgSetPhase :: "qd_msg \<Rightarrow> int \<Rightarrow> qd_msg" where "CQdMsgSetPhase msg p = msg\<lparr>phase := p\<rparr>"

definition CQdMsgGetCreated :: "qd_msg \<Rightarrow> qd_error + int" where
  "CQdMsgGetCreated msg = (if phase msg = 1 then Inr (created msg) else Inl QdAssert)"

definition CQdMsgSetCreated :: "qd_msg \<Rightarrow> int \<Rightarrow> qd_error + qd_msg" where
  "CQdMsgSetCreated msg c = (if phase msg = 1 then Inr (msg\<lparr>created := c\<rparr>) else Inl QdAssert)"

definition CQdMsgGetProcessed :: "qd_msg \<Rightarrow> qd_error + int" where
  "CQdMsgGetProcessed msg = (if phase msg = 1 then Inr (processed msg) else Inl QdAssert)"

definition CQdMsgSetProcessed :: "qd_msg \<Rightarrow> int \<Rightarrow> qd_error + qd_msg" where
  "CQdMsgSetProcessed msg p = (if phase msg = 1 then Inr (msg\<lparr>processed := p\<rparr>) else Inl QdAssert)"

definition CQdMsgGetDirty :: "qd_msg \<Rightarrow> qd_error + bool" where
  "CQdMsgGetDirty msg = (if phase msg = 2 then Inr (dirty msg) else Inl QdAssert)"

definition CQdMsgSetDirty :: "qd_msg \<Rightarrow> bool \<Rightarrow> qd_error + qd_msg" where
  "CQdMsgSetDirty msg d = (if phase msg = 2 then Inr (msg\<lparr>dirty := d\<rparr>) else Inl QdAssert)"

definition CQdGetCreated :: "qd_state \<Rightarrow> int" where "CQdGetCreated s = mCreated s"

definition CQdCreate :: "qd_state \<Rightarrow> int \<Rightarrow> qd_state" where "CQdCreate s n = s\<lparr>mCreated := mCreated s + n\<rparr>"

definition CQdGetProcessed :: "qd_state \<Rightarrow> int" where "CQdGetProcessed s = mProcessed s"

definition CQdProcess :: "qd_state \<Rightarrow> int \<Rightarrow> qd_state" where "CQdProcess s n = s\<lparr>mProcessed := mProcessed s + n\<rparr>"

text \<open>The send of the machine layer counts the message as created.\<close>

definition CmiSyncSend :: "nat \<Rightarrow> qd_msg \<Rightarrow> qd_state \<times> qd_out list \<Rightarrow> qd_state \<times> qd_out list" where
  "CmiSyncSend dest msg = (\<lambda>(s, outs). (CQdCreate s 1, outs @ [QdSend dest msg]))"

text \<open>
  The broadcast to all processors, \<open>CmiFreeBroadcastAllFn\<close>, counts one message less than the
  \<open>npes\<close> that it delivers: the copy to the own processor goes through \<open>CmiSendSelf\<close>.
\<close>

definition CmiSyncBroadcastAll :: "nat \<Rightarrow> qd_state \<times> qd_out list \<Rightarrow> qd_state \<times> qd_out list" where
  "CmiSyncBroadcastAll npes = (\<lambda>(s, outs). (CQdCreate s (int npes - 1), outs @ [QdAnnounce]))"

definition CQdPropagate :: "qd_state \<Rightarrow> qd_msg \<Rightarrow> qd_state \<times> qd_out list" where
  "CQdPropagate s msg =
    fold (\<lambda>i (s, outs). CmiSyncSend (qchildren s ! i) msg (CQdCreate s (- 1), outs)) [0..<nChildren s] (s, [])"

definition CQdGetParent :: "qd_state \<Rightarrow> int" where "CQdGetParent s = qparent s"

definition CQdGetCCreated :: "qd_state \<Rightarrow> int" where "CQdGetCCreated s = cCreated s"

definition CQdGetCProcessed :: "qd_state \<Rightarrow> int" where "CQdGetCProcessed s = cProcessed s"

definition CQdSubtreeCreate :: "qd_state \<Rightarrow> int \<Rightarrow> qd_state" where
  "CQdSubtreeCreate s c = s\<lparr>cCreated := cCreated s + c\<rparr>"

definition CQdSubtreeProcess :: "qd_state \<Rightarrow> int \<Rightarrow> qd_state" where
  "CQdSubtreeProcess s p = s\<lparr>cProcessed := cProcessed s + p\<rparr>"

definition CQdGetStage :: "qd_state \<Rightarrow> int" where "CQdGetStage s = stage s"

definition CQdSetStage :: "qd_state \<Rightarrow> int \<Rightarrow> qd_state" where "CQdSetStage s p = s\<lparr>stage := p\<rparr>"

definition CQdReported :: "qd_state \<Rightarrow> qd_state" where "CQdReported s = s\<lparr>nReported := nReported s + 1\<rparr>"

definition CQdAllReported :: "qd_state \<Rightarrow> bool" where "CQdAllReported s \<longleftrightarrow> nReported s = nChildren s + 1"

definition CQdReset :: "qd_state \<Rightarrow> qd_state" where
  "CQdReset s = s\<lparr>nReported := 0, cCreated := 0, cProcessed := 0, cDirty := False\<rparr>"

definition CQdMarkProcessed :: "qd_state \<Rightarrow> qd_state" where "CQdMarkProcessed s = s\<lparr>oProcessed := mProcessed s\<rparr>"

definition CQdIsDirty :: "qd_state \<Rightarrow> bool" where "CQdIsDirty s \<longleftrightarrow> mProcessed s > oProcessed s \<or> cDirty s"

definition CQdSubtreeSetDirty :: "qd_state \<Rightarrow> bool \<Rightarrow> qd_state" where
  "CQdSubtreeSetDirty s d = s\<lparr>cDirty := cDirty s \<or> d\<rparr>"

definition CQdStateCreate :: "nat \<Rightarrow> nat \<Rightarrow> nat \<Rightarrow> nat \<Rightarrow> qd_state" where
  "CQdStateCreate w ns nn pe = \<lparr>stage = 0, cDirty = False, oProcessed = 0, mCreated = 0, mProcessed = 0,
    cCreated = 0, cProcessed = 0, nReported = 0, nChildren = CmiNumSpanTreeChildren w ns nn pe,
    qparent = CmiSpanTreeParent w ns pe, qchildren = CmiSpanTreeChildren w ns nn pe\<rparr>"

section \<open>Handlers\<close>

text \<open>\<open>me\<close> is \<open>CmiMyPe()\<close>, \<open>npes\<close> is \<open>CmiNumPes()\<close>.\<close>

definition CQdBcastQD1 :: "nat \<Rightarrow> qd_state \<Rightarrow> qd_msg \<Rightarrow> qd_error + qd_state \<times> qd_out list" where
  "CQdBcastQD1 me s msg =
    (let msg = CQdMsgSetPhase msg 0;
         (s, outs) = CQdPropagate s msg;
         msg = CQdMsgSetPhase msg 1
     in qd_bind (CQdMsgSetCreated msg (CQdGetCreated s)) (\<lambda>msg.
        qd_bind (CQdMsgSetProcessed msg (CQdGetProcessed s)) (\<lambda>msg.
          let (s, outs) = CmiSyncSend me msg (CQdCreate s (- 1), outs)
          in Inr (CQdSetStage (CQdReset (CQdMarkProcessed s)) 1, outs))))"

definition CQdBcastQD2 :: "nat \<Rightarrow> qd_state \<Rightarrow> qd_msg \<Rightarrow> qd_error + qd_state \<times> qd_out list" where
  "CQdBcastQD2 me s msg =
    (let msg = CQdMsgSetPhase msg 1;
         (s, outs) = CQdPropagate s msg;
         msg = CQdMsgSetPhase msg 2
     in qd_bind (CQdMsgSetDirty msg (CQdIsDirty s)) (\<lambda>msg.
          let (s, outs) = CmiSyncSend me msg (CQdCreate s (- 1), outs)
          in Inr (CQdSetStage (CQdReset s) 2, outs)))"

definition CQdHandlePhase0 :: "nat \<Rightarrow> qd_state \<Rightarrow> qd_msg \<Rightarrow> qd_error + qd_state \<times> qd_out list" where
  "CQdHandlePhase0 me s msg =
    (if \<not> (me = 0 \<or> CQdGetStage s = 0) then Inl QdAssert
     else if CQdGetStage s = 0 then CQdBcastQD1 me s msg
     else Inr (s, []))"

definition CQdHandlePhase1 :: "nat \<Rightarrow> qd_state \<Rightarrow> qd_msg \<Rightarrow> qd_error + qd_state \<times> qd_out list" where
  "CQdHandlePhase1 me s msg =
    (if CQdGetStage s = 0 then
       if me = 0 then Inl QdAssert else CQdBcastQD2 me s msg
     else if CQdGetStage s = 1 then
       qd_bind (CQdMsgGetCreated msg) (\<lambda>c.
       let s = CQdSubtreeCreate s c in
       qd_bind (CQdMsgGetProcessed msg) (\<lambda>p.
       let s = CQdReported (CQdSubtreeProcess s p) in
       if CQdAllReported s then
         if me = 0 then
           if CQdGetCCreated s = CQdGetCProcessed s then CQdBcastQD2 me s msg
           else CQdBcastQD1 me s msg
         else
           qd_bind (CQdMsgSetCreated msg (CQdGetCCreated s)) (\<lambda>msg.
           qd_bind (CQdMsgSetProcessed msg (CQdGetCProcessed s)) (\<lambda>msg.
           let (s, outs) = CmiSyncSend (nat (CQdGetParent s)) msg (CQdCreate s (- 1), [])
           in Inr (CQdSetStage (CQdReset s) 0, outs)))
       else Inr (s, [])))
     else Inl QdAbort)"

definition CQdHandlePhase2 :: "nat \<Rightarrow> nat \<Rightarrow> qd_state \<Rightarrow> qd_msg \<Rightarrow> qd_error + qd_state \<times> qd_out list" where
  "CQdHandlePhase2 npes me s msg =
    (if CQdGetStage s \<noteq> 2 then Inl QdAssert
     else qd_bind (CQdMsgGetDirty msg) (\<lambda>d.
       let s = CQdReported (CQdSubtreeSetDirty s d) in
       if CQdAllReported s then
         if me = 0 then
           if CQdIsDirty s then CQdBcastQD1 me s msg
           else
             let (s, outs) = CmiSyncBroadcastAll npes (CQdCreate s (0 - int npes), [])
             in Inr (CQdSetStage (CQdReset s) 0, outs)
         else
           qd_bind (CQdMsgSetDirty msg (CQdIsDirty s)) (\<lambda>msg.
           let (s, outs) = CmiSyncSend (nat (CQdGetParent s)) msg (CQdCreate s (- 1), [])
           in Inr (CQdSetStage (CQdReset s) 0, outs))
       else Inr (s, [])))"

definition CQdCallWhenIdle :: "nat \<Rightarrow> nat \<Rightarrow> qd_state \<Rightarrow> qd_msg \<Rightarrow> qd_error + qd_state \<times> qd_out list" where
  "CQdCallWhenIdle npes me s msg =
    (if CQdMsgGetPhase msg = 0 then CQdHandlePhase0 me s msg
     else if CQdMsgGetPhase msg = 1 then CQdHandlePhase1 me s msg
     else if CQdMsgGetPhase msg = 2 then CQdHandlePhase2 npes me s msg
     else Inl QdAbort)"

text \<open>
  A detection message is counted as processed when the scheduler takes it, which the handler
  undoes before it defers the rest to the next idle moment.
\<close>

definition CQdHandler :: "nat \<Rightarrow> nat \<Rightarrow> qd_state \<Rightarrow> qd_msg \<Rightarrow> qd_error + qd_state \<times> qd_out list" where
  "CQdHandler npes me s msg = CQdCallWhenIdle npes me (CQdProcess (CQdProcess s 1) (- 1)) msg"

definition CQdAnnounceHandler :: "qd_state \<Rightarrow> qd_state" where
  "CQdAnnounceHandler s = CQdProcess (CQdProcess s 1) (- 1)"

definition CmiStartQD :: "qd_state \<Rightarrow> qd_state \<times> qd_out list" where
  "CmiStartQD s =
    (let msg = CQdMsgSetPhase \<lparr>phase = 0, created = 0, processed = 0, dirty = False\<rparr> 0
     in CmiSyncSend 0 msg (CQdCreate s (- 1), []))"

lemmas qd_acc_defs = CQdMsgGetPhase_def CQdMsgSetPhase_def CQdMsgGetCreated_def CQdMsgSetCreated_def
  CQdMsgGetProcessed_def CQdMsgSetProcessed_def CQdMsgGetDirty_def CQdMsgSetDirty_def
  CQdGetCreated_def CQdCreate_def CQdGetProcessed_def CQdProcess_def CmiSyncSend_def CQdGetParent_def
  CQdGetCCreated_def CQdGetCProcessed_def CQdSubtreeCreate_def CQdSubtreeProcess_def CQdGetStage_def
  CQdSetStage_def CQdReported_def CQdAllReported_def CQdReset_def CQdMarkProcessed_def CQdIsDirty_def
  CQdSubtreeSetDirty_def CmiSyncBroadcastAll_def

section \<open>What the handlers do\<close>

text \<open>
  The compensations cancel: detection messages leave no trace in the message counters, except
  for the announcement.
\<close>

lemma CQdPropagate_eq:
  assumes "length (qchildren s) = nChildren s"
  shows "CQdPropagate s msg = (s, map (\<lambda>c. QdSend c msg) (qchildren s))"
proof -
  let ?f = "\<lambda>i (s, outs). CmiSyncSend (qchildren s ! i) msg (CQdCreate s (- 1), outs)"
  have "fold ?f [0..<k] (s, []) = (s, map (\<lambda>c. QdSend c msg) (take k (qchildren s)))"
    if "k \<le> length (qchildren s)" for k
    using that
  proof (induction k)
    case 0
    then show ?case by simp
  next
    case (Suc k)
    then show ?case by (simp add: qd_acc_defs take_Suc_snoc)
  qed
  from this [of "nChildren s"] assms show ?thesis by (simp add: CQdPropagate_def)
qed

definition qd_fresh :: "int \<Rightarrow> qd_state \<Rightarrow> qd_state" where
  "qd_fresh k s = s\<lparr>nReported := 0, cCreated := 0, cProcessed := 0, cDirty := False, stage := k\<rparr>"

lemma CQdBcastQD1_eq:
  assumes "length (qchildren s) = nChildren s"
  shows "CQdBcastQD1 me s msg = Inr (qd_fresh 1 (s\<lparr>oProcessed := mProcessed s\<rparr>),
    map (\<lambda>c. QdSend c (msg\<lparr>phase := 0\<rparr>)) (qchildren s)
    @ [QdSend me (msg\<lparr>phase := 1, created := mCreated s, processed := mProcessed s\<rparr>)])"
  using assms by (simp add: CQdBcastQD1_def CQdPropagate_eq qd_fresh_def qd_acc_defs)

lemma CQdBcastQD2_eq:
  assumes "length (qchildren s) = nChildren s"
  shows "CQdBcastQD2 me s msg = Inr (qd_fresh 2 s,
    map (\<lambda>c. QdSend c (msg\<lparr>phase := 1\<rparr>)) (qchildren s)
    @ [QdSend me (msg\<lparr>phase := 2, dirty := mProcessed s > oProcessed s \<or> cDirty s\<rparr>)])"
  using assms by (simp add: CQdBcastQD2_def CQdPropagate_eq qd_fresh_def qd_acc_defs)

end
