(* ===== verification/Qd_Net.thy ===== *)
theory Qd_Net
  imports Qd
begin

text \<open>
  Quiescence detection on all processors at once: the step relation of a network of
  processors that run the handlers of \<open>Qd\<close> while user messages are sent and processed, and
  the invariant of the two waves over the spanning tree.
\<close>

section \<open>The network\<close>

text \<open>
  \<open>wire s d\<close> holds the detection messages that processor \<open>s\<close> sent to \<open>d\<close> and that \<open>d\<close> has
  not handled yet, in no particular order; \<open>requests\<close> those that \<open>CmiStartQD\<close> sent to
  processor 0. \<open>flight\<close> counts the user messages that were created and not yet processed.
\<close>

record qd_net =
  pes :: "nat \<Rightarrow> qd_state"
  wire :: "nat \<Rightarrow> nat \<Rightarrow> qd_msg multiset"
  requests :: "qd_msg multiset"
  flight :: nat
  announced :: nat

fun out_to :: "nat \<Rightarrow> qd_out list \<Rightarrow> qd_msg multiset" where
  "out_to d [] = {#}"
| "out_to d (QdSend c m # outs) = (if c = d then add_mset m (out_to d outs) else out_to d outs)"
| "out_to d (QdAnnounce # outs) = out_to d outs"

definition qd_sent :: "nat \<Rightarrow> qd_out list \<Rightarrow> (nat \<Rightarrow> nat \<Rightarrow> qd_msg multiset) \<Rightarrow> nat \<Rightarrow> nat \<Rightarrow> qd_msg multiset" where
  "qd_sent i outs w = (\<lambda>s d. if s = i then w s d + out_to d outs else w s d)"

definition qd_taken :: "nat \<Rightarrow> nat \<Rightarrow> qd_msg \<Rightarrow> (nat \<Rightarrow> nat \<Rightarrow> qd_msg multiset) \<Rightarrow> nat \<Rightarrow> nat \<Rightarrow> qd_msg multiset" where
  "qd_taken s d m w = w(s := (w s)(d := w s d - {#m#}))"

definition out_announced :: "qd_out list \<Rightarrow> nat" where
  "out_announced outs = length (filter (\<lambda>x. x = QdAnnounce) outs)"

text \<open>
  One step: some processor asks for detection; processor \<open>i\<close> processes a user message and
  creates \<open>k\<close> new ones; after an announcement the callbacks on processor \<open>i\<close> run and create \<open>k\<close>
  messages; a detection message is handled.
\<close>

inductive qd_step :: "nat \<Rightarrow> qd_net \<Rightarrow> qd_net \<Rightarrow> bool" for npes where
  start: "i < npes \<Longrightarrow> CmiStartQD (pes net i) = (s, outs) \<Longrightarrow>
    qd_step npes net (net\<lparr>pes := (pes net)(i := s), requests := requests net + out_to 0 outs\<rparr>)"
| user: "i < npes \<Longrightarrow> 0 < flight net \<Longrightarrow>
    qd_step npes net (net\<lparr>pes := (pes net)(i := CQdCreate (CQdProcess (pes net i) 1) (int k)),
      flight := flight net - 1 + k\<rparr>)"
| callback: "i < npes \<Longrightarrow> 0 < announced net \<Longrightarrow>
    qd_step npes net (net\<lparr>pes := (pes net)(i := CQdCreate (CQdAnnounceHandler (pes net i)) (int k)),
      flight := flight net + k\<rparr>)"
| request: "m \<in># requests net \<Longrightarrow> CQdHandler npes 0 (pes net 0) m = Inr (s, outs) \<Longrightarrow>
    qd_step npes net (net\<lparr>pes := (pes net)(0 := s), requests := requests net - {#m#},
      wire := qd_sent 0 outs (wire net), announced := announced net + out_announced outs\<rparr>)"
| handle: "d < npes \<Longrightarrow> m \<in># wire net src d \<Longrightarrow> CQdHandler npes d (pes net d) m = Inr (s, outs) \<Longrightarrow>
    qd_step npes net (net\<lparr>pes := (pes net)(d := s), wire := qd_sent d outs (qd_taken src d m (wire net)),
      announced := announced net + out_announced outs\<rparr>)"

text \<open>
  At the start nothing was processed, no detection message is under way, and every processor
  has created some user messages.
\<close>

definition qd_init :: "nat \<Rightarrow> nat \<Rightarrow> nat \<Rightarrow> (nat \<Rightarrow> nat) \<Rightarrow> qd_net" where
  "qd_init w ns nn c = \<lparr>pes = (\<lambda>i. CQdCreate (CQdStateCreate w ns nn i) (int (c i))), wire = (\<lambda>s d. {#}),
    requests = {#}, flight = (\<Sum>i < nn * ns. c i), announced = 0\<rparr>"

lemma out_to_append: "out_to d (xs @ ys) = out_to d xs + out_to d ys"
  by (induction d xs rule: out_to.induct) auto

lemma out_to_map: "distinct cs \<Longrightarrow> out_to d (map (\<lambda>c. QdSend c m) cs) = (if d \<in> set cs then {#m#} else {#})"
  by (induction cs) auto

section \<open>The waves\<close>

text \<open>
  During a wave a processor has not been reached yet (\<open>Fresh\<close>), collects reports (\<open>Active\<close>),
  has sent its report to the parent (\<open>Sent\<close>), or the parent has counted it (\<open>Counted\<close>).
\<close>

datatype wst = Fresh | Active | Sent | Counted

text \<open>
  The auxiliary state of a wave: the status, whether the message of a processor to itself was
  counted, the messages in the three kinds of channels, and what a processor told of itself.
\<close>

record ghost =
  gst :: "nat \<Rightarrow> wst"
  gself :: "nat \<Rightarrow> bool"
  greq :: "nat \<Rightarrow> qd_msg"
  gown :: "nat \<Rightarrow> qd_msg"
  grep :: "nat \<Rightarrow> qd_msg"

fun edge_ok :: "wst \<Rightarrow> wst \<Rightarrow> bool" where
  "edge_ok Fresh c = (c = Fresh)"
| "edge_ok Active c = True"
| "edge_ok Sent c = (c = Counted)"
| "edge_ok Counted c = (c = Counted)"

text \<open>A processor was active after it told its counters; a told snapshot is exact unless it was.\<close>

definition busy :: "qd_state \<Rightarrow> bool" where
  "busy s \<longleftrightarrow> mProcessed s > oProcessed s"

definition snap_ok :: "qd_state \<Rightarrow> qd_msg \<Rightarrow> bool" where
  "snap_ok s m \<longleftrightarrow> oProcessed s = processed m \<and> processed m \<le> mProcessed s
    \<and> (mProcessed s = processed m \<longrightarrow> mCreated s = created m)"

context pe_tree
begin

definition on_req :: "ghost \<Rightarrow> nat \<Rightarrow> nat \<Rightarrow> qd_msg multiset" where
  "on_req g s d = (if d < n \<and> d \<noteq> 0 \<and> s = parent d \<and> gst g d = Fresh \<and> gst g s \<noteq> Fresh then {#greq g d#} else {#})"

definition on_own :: "ghost \<Rightarrow> nat \<Rightarrow> nat \<Rightarrow> qd_msg multiset" where
  "on_own g s d = (if s = d \<and> s < n \<and> gst g s = Active \<and> \<not> gself g s then {#gown g s#} else {#})"

definition on_rep :: "ghost \<Rightarrow> nat \<Rightarrow> nat \<Rightarrow> qd_msg multiset" where
  "on_rep g s d = (if s < n \<and> s \<noteq> 0 \<and> d = parent s \<and> gst g s = Sent then {#grep g s#} else {#})"

definition expect :: "ghost \<Rightarrow> nat \<Rightarrow> nat \<Rightarrow> qd_msg multiset" where
  "expect g s d = on_req g s d + on_own g s d + on_rep g s d"

definition done_children :: "ghost \<Rightarrow> nat \<Rightarrow> nat" where
  "done_children g i = length (filter (\<lambda>c. gst g c = Counted) (children i))"

text \<open>Every processor knows its place in the tree.\<close>

definition shape :: "qd_net \<Rightarrow> bool" where
  "shape net \<longleftrightarrow> (\<forall>i < n. qchildren (pes net i) = children i \<and> nChildren (pes net i) = length (children i)
    \<and> (i \<noteq> 0 \<longrightarrow> qparent (pes net i) = int (parent i)))"

definition balance :: "qd_net \<Rightarrow> bool" where
  "balance net \<longleftrightarrow> int (flight net) =
    (\<Sum>i < n. mCreated (pes net i) - mProcessed (pes net i)) + int (announced net)"

text \<open>
  The part of the invariant that both waves (\<open>k = 1, 2\<close>) share; while a processor handles a
  message, it may have counted all reports.
\<close>

definition wave_raw :: "int \<Rightarrow> qd_net \<Rightarrow> ghost \<Rightarrow> bool" where
  "wave_raw k net g \<longleftrightarrow> gst g 0 = Active \<and> wire net = expect g
    \<and> (\<forall>i < n. i \<noteq> 0 \<longrightarrow> edge_ok (gst g (parent i)) (gst g i))
    \<and> (\<forall>i < n. stage (pes net i) = (if gst g i = Active then k else 0))
    \<and> (\<forall>i < n. gst g i = Active \<longrightarrow>
        nReported (pes net i) = done_children g i + (if gself g i then 1 else 0))
    \<and> (\<forall>i < n. phase (greq g i) = k - 1 \<and> phase (gown g i) = k \<and> phase (grep g i) = k)"

definition waiting :: "qd_net \<Rightarrow> ghost \<Rightarrow> nat \<Rightarrow> bool" where
  "waiting net g i \<longleftrightarrow> (gst g i = Active \<longrightarrow> nReported (pes net i) \<le> length (children i))"

definition wave :: "int \<Rightarrow> qd_net \<Rightarrow> ghost \<Rightarrow> bool" where
  "wave k net g \<longleftrightarrow> wave_raw k net g \<and> (\<forall>i < n. waiting net g i)"

text \<open>
  What a processor still owes to the sums: 0 in total, since every snapshot that was taken
  is in a message or in a partial sum.
\<close>

definition owed :: "(qd_state \<Rightarrow> int) \<Rightarrow> (qd_msg \<Rightarrow> int) \<Rightarrow> qd_net \<Rightarrow> ghost \<Rightarrow> nat \<Rightarrow> int" where
  "owed part val net g i =
    (if gst g i = Fresh then 0 else val (gown g i))
    - (if gst g i = Active then part (pes net i) + (if gself g i then 0 else val (gown g i)) else 0)
    - (if gst g i = Sent then val (grep g i) else 0)"

text \<open>First wave: the sums of what was told, and snapshots that tell whether they are still valid.\<close>

definition data1 :: "qd_net \<Rightarrow> ghost \<Rightarrow> bool" where
  "data1 net g \<longleftrightarrow> (\<Sum>i < n. owed cCreated created net g i) = 0 \<and> (\<Sum>i < n. owed cProcessed processed net g i) = 0
    \<and> (announced net = 0 \<longrightarrow> (\<forall>i < n. gst g i \<noteq> Fresh \<longrightarrow> snap_ok (pes net i) (gown g i)))"

text \<open>Second wave: if there are messages in flight, some processor is or was found dirty.\<close>

definition evidence :: "qd_net \<Rightarrow> ghost \<Rightarrow> bool" where
  "evidence net g \<longleftrightarrow> (\<exists>i < n. gst g i = Active \<and> (cDirty (pes net i) \<or> \<not> gself g i \<and> dirty (gown g i))
    \<or> gst g i = Sent \<and> dirty (grep g i))"

definition data2 :: "qd_net \<Rightarrow> ghost \<Rightarrow> bool" where
  "data2 net g \<longleftrightarrow> (announced net = 0 \<longrightarrow> flight net = 0
    \<or> (\<exists>i < n. gst g i = Fresh \<and> busy (pes net i)) \<or> evidence net g)"

definition idle :: "qd_net \<Rightarrow> bool" where
  "idle net \<longleftrightarrow> (\<forall>i < n. stage (pes net i) = 0) \<and> wire net = (\<lambda>s d. {#})"

definition qinv :: "qd_net \<Rightarrow> bool" where
  "qinv net \<longleftrightarrow> shape net \<and> balance net \<and> (\<forall>m \<in># requests net. phase m = 0)
    \<and> (idle net \<or> (\<exists>g. wave 1 net g \<and> data1 net g) \<or> (\<exists>g. wave 2 net g \<and> data2 net g))"

section \<open>Steps of a wave\<close>

lemma children_not_self: "p < n \<Longrightarrow> p \<notin> set (children p)"
  using children_iff [of p p] parent_less [of p] by auto

text \<open>A request reaches a fresh processor, which passes it on and reports to itself.\<close>

lemma wave_open:
  assumes w: "wave k net g" and d: "d < n" "d \<noteq> 0" "gst g d = Fresh" "gst g (parent d) \<noteq> Fresh"
    and s': "stage s' = k" "nReported s' = 0" and ph: "phase rq = k - 1" "phase own = k"
  defines "g' \<equiv> g\<lparr>gst := (gst g)(d := Active), gself := (gself g)(d := False),
      greq := (\<lambda>c. if c \<in> set (children d) then rq else greq g c), gown := (gown g)(d := own)\<rparr>"
  defines "net' \<equiv> net\<lparr>pes := (pes net)(d := s'),
      wire := qd_sent d (map (\<lambda>c. QdSend c rq) (children d) @ [QdSend d own]) (qd_taken (parent d) d (greq g d) (wire net))\<rparr>"
  shows "wave k net' g'"
proof -
  have wire: "wire net = expect g" and root: "gst g 0 = Active"
    and edge: "\<And>i. i < n \<Longrightarrow> i \<noteq> 0 \<Longrightarrow> edge_ok (gst g (parent i)) (gst g i)"
    using w by (auto simp: wave_def wave_raw_def)
  have fresh: "gst g c = Fresh" if "c \<in> set (children d)" for c
    using that children_iff [OF d(1)] edge [of c] d(3) by auto
  have notself: "d \<notin> set (children d)" by (rule children_not_self [OF d(1)])
  have par: "parent d < d" by (rule parent_less [OF d(1,2)])
  have out: "out_to x (map (\<lambda>c. QdSend c rq) (children d) @ [QdSend d own])
      = (if x \<in> set (children d) then {#rq#} else if x = d then {#own#} else {#})" for x
    using notself by (auto simp: out_to_append out_to_map [OF distinct_children [OF d(1)]])
  have parpar: "parent d \<noteq> 0 \<Longrightarrow> parent (parent d) \<noteq> d"
    using parent_less [of "parent d"] par d(1) by auto
  have req': "on_req g' s x = (if s = d then (if x \<in> set (children d) then {#rq#} else {#})
      else if s = parent d \<and> x = d then {#} else on_req g s x)" for s x
    using d(1,2,3) par fresh notself children_iff [OF d(1), of x] by (auto simp: on_req_def g'_def)
  have own': "on_own g' s x = (if s = d then (if x = d then {#own#} else {#}) else on_own g s x)" for s x
    using d(1) by (auto simp: on_own_def g'_def)
  have rep': "on_rep g' s x = on_rep g s x" for s x using d(3) by (auto simp: on_rep_def g'_def)
  have old: "expect g d x = {#}" "expect g (parent d) d = {#greq g d#}" for x
    using d par parpar by (auto simp: expect_def on_req_def on_own_def on_rep_def)
  have "on_rep g d x = {#}" "on_rep g (parent d) d = {#}" "on_own g (parent d) d = {#}" for x
    using d(3) parpar par by (auto simp: on_rep_def on_own_def)
  then have "wire net' s x = expect g' s x" for s x
    using notself par old unfolding expect_def [of g'] req' own' rep'
    by (auto simp: net'_def wire qd_sent_def qd_taken_def out) (simp_all add: expect_def)
  then have "wire net' = expect g'" by (intro ext)
  moreover have "edge_ok (gst g' (parent i)) (gst g' i)" if "i < n" "i \<noteq> 0" for i
    using edge [OF that] d edge [OF d(1,2)] that par parent_ne [OF that] fresh children_iff [OF d(1), of i]
    by (cases "gst g (parent d)") (auto simp: g'_def)
  moreover have "done_children g' i = done_children g i" for i
    using d(3) unfolding done_children_def g'_def by (intro arg_cong [where f = length] filter_cong) auto
  moreover have "done_children g d = 0" using fresh by (simp add: done_children_def filter_empty_conv)
  ultimately show ?thesis
    using w d s' ph root by (auto simp: wave_def wave_raw_def waiting_def net'_def g'_def)
qed

text \<open>A processor counts its message to itself, or the report of a child.\<close>

lemma wave_own:
  assumes w: "wave k net g" and d: "d < n" "gst g d = Active" "\<not> gself g d"
    and s': "stage s' = k" "nReported s' = nReported (pes net d) + 1"
  defines "g' \<equiv> g\<lparr>gself := (gself g)(d := True)\<rparr>"
  defines "net' \<equiv> net\<lparr>pes := (pes net)(d := s'), wire := qd_taken d d (gown g d) (wire net)\<rparr>"
  shows "wave_raw k net' g'" "i < n \<Longrightarrow> i \<noteq> d \<Longrightarrow> waiting net' g' i"
proof -
  have wire: "wire net = expect g" using w by (simp add: wave_def wave_raw_def)
  have other: "on_req g' s x = on_req g s x" "on_rep g' s x = on_rep g s x" for s x
    by (simp_all add: on_req_def on_rep_def g'_def)
  have own': "on_own g' s x = (if s = d \<and> x = d then {#} else on_own g s x)" for s x
    using d by (auto simp: on_own_def g'_def)
  have "on_own g d d = {#gown g d#}" "on_req g d d = {#}" "on_rep g d d = {#}"
    using d parent_ne by (auto simp: on_own_def on_req_def on_rep_def)
  then have "wire net' s x = expect g' s x" for s x
    by (auto simp: net'_def wire qd_taken_def expect_def other own')
  then have "wire net' = expect g'" by (intro ext)
  moreover have "done_children g' i = done_children g i" for i by (simp add: done_children_def g'_def)
  ultimately show "wave_raw k net' g'"
    using w d s' by (auto simp: wave_def wave_raw_def net'_def g'_def)
  show "waiting net' g' i" if "i < n" "i \<noteq> d"
    using that w by (simp add: wave_def waiting_def net'_def g'_def)
qed

lemma wave_rep:
  assumes w: "wave k net g" and c: "c < n" "c \<noteq> 0" "gst g c = Sent" and d: "d = parent c"
    and s': "stage s' = k" "nReported s' = nReported (pes net d) + 1"
  defines "g' \<equiv> g\<lparr>gst := (gst g)(c := Counted)\<rparr>"
  defines "net' \<equiv> net\<lparr>pes := (pes net)(d := s'), wire := qd_taken c d (grep g c) (wire net)\<rparr>"
  shows "gst g d = Active" "wave_raw k net' g'" "i < n \<Longrightarrow> i \<noteq> d \<Longrightarrow> waiting net' g' i"
proof -
  have wire: "wire net = expect g" and root: "gst g 0 = Active"
    and edge: "\<And>i. i < n \<Longrightarrow> i \<noteq> 0 \<Longrightarrow> edge_ok (gst g (parent i)) (gst g i)"
    using w by (auto simp: wave_def wave_raw_def)
  have dn: "d < n" "d < c" using c d parent_n parent_less by auto
  show act: "gst g d = Active" using edge [OF c(1,2)] c(3) d by (cases "gst g d") auto
  have req': "on_req g' s x = on_req g s x" for s x
    using c(3) edge [of x] unfolding on_req_def g'_def by (auto split: if_splits)
  have own': "on_own g' s x = on_own g s x" for s x using c(3) by (auto simp: on_own_def g'_def)
  have rep': "on_rep g' s x = (if s = c \<and> x = d then {#} else on_rep g s x)" for s x
    using c d by (auto simp: on_rep_def g'_def)
  have "on_rep g c d = {#grep g c#}" "on_req g c d = {#}" "on_own g c d = {#}"
    using c d dn parent_less [of d] by (auto simp: on_own_def on_req_def on_rep_def)
  then have "wire net' s x = expect g' s x" for s x
    by (auto simp: net'_def wire qd_taken_def expect_def req' own' rep')
  then have "wire net' = expect g'" by (intro ext)
  moreover have "edge_ok (gst g' (parent i)) (gst g' i)" if "i < n" "i \<noteq> 0" for i
    using edge [OF that] c(3) act d by (cases "i = c"; cases "parent i = c") (auto simp: g'_def)
  moreover have "done_children g' i = done_children g i" if "i < n" "i \<noteq> d" for i
  proof -
    have "c \<notin> set (children i)" using children_iff [OF that(1), of c] d that(2) by simp
    then show ?thesis unfolding done_children_def g'_def by (intro arg_cong [where f = length] filter_cong) auto
  qed
  moreover have "done_children g' d = done_children g d + 1"
  proof -
    have cd: "c \<in> set (children d)" "distinct (children d)" using c d dn children_iff distinct_children by auto
    have "done_children g' d = card {x \<in> set (children d). gst g' x = Counted}"
      "done_children g d = card {x \<in> set (children d). gst g x = Counted}"
      unfolding done_children_def using cd(2) distinct_card [OF distinct_filter, of "children d"] by (simp_all add: Int_def conj_commute)
    moreover have "{x \<in> set (children d). gst g' x = Counted} = insert c {x \<in> set (children d). gst g x = Counted}"
      using cd(1) by (auto simp: g'_def)
    ultimately show ?thesis using c(3) by simp
  qed
  ultimately show "wave_raw k net' g'"
    using w c s' act dn root by (auto simp: wave_def wave_raw_def net'_def g'_def)
  show "waiting net' g' i" if "i < n" "i \<noteq> d"
    using that w by (simp add: wave_def waiting_def net'_def g'_def)
qed

text \<open>All reports are in.\<close>

lemma all_reported:
  assumes "wave_raw k net g" "d < n" "gst g d = Active" "nReported (pes net d) = length (children d) + 1"
  shows "gself g d" "\<And>c. c \<in> set (children d) \<Longrightarrow> gst g c = Counted"
proof -
  have le: "done_children g d \<le> length (children d)" by (simp add: done_children_def)
  have eq: "length (children d) + 1 = done_children g d + (if gself g d then 1 else 0)"
    using assms by (simp add: wave_raw_def)
  with le show "gself g d" by (auto split: if_splits)
  with eq have "length (filter (\<lambda>c. gst g c = Counted) (children d)) = length (children d)"
    by (simp add: done_children_def)
  then show "\<And>c. c \<in> set (children d) \<Longrightarrow> gst g c = Counted"
    by (metis (mono_tags, lifting) length_filter_less less_irrefl)
qed

lemma root_reported:
  assumes w: "wave_raw k net g" and r: "nReported (pes net 0) = length (children 0) + 1"
  shows "gself g 0" "\<And>i. i < n \<Longrightarrow> i \<noteq> 0 \<Longrightarrow> gst g i = Counted" "wire net = (\<lambda>s d. {#})"
proof -
  have act: "gst g 0 = Active" and edge: "\<And>i. i < n \<Longrightarrow> i \<noteq> 0 \<Longrightarrow> edge_ok (gst g (parent i)) (gst g i)"
    using w by (auto simp: wave_raw_def)
  note a = all_reported [OF w root act r]
  show self: "gself g 0" by (rule a(1))
  have "i \<noteq> 0 \<longrightarrow> gst g i = Counted" if "i < n" for i
    using that
  proof (induction rule: tree_induct)
    case root
    then show ?case by simp
  next
    case (child c)
    then show ?case using a(2) [of c] children_iff [OF root] edge [of c] by (cases "parent c = 0") auto
  qed
  then show cnt: "\<And>i. i < n \<Longrightarrow> i \<noteq> 0 \<Longrightarrow> gst g i = Counted" by simp
  have "expect g s d = {#}" for s d
    using cnt self by (cases "s = 0"; cases "d = 0") (auto simp: expect_def on_req_def on_own_def on_rep_def)
  then show "wire net = (\<lambda>s d. {#})" using w by (auto simp: wave_raw_def)
qed

text \<open>A processor below the root reports to its parent.\<close>

lemma wave_finish:
  assumes w: "wave_raw k net g" and wt: "\<And>i. i < n \<Longrightarrow> i \<noteq> d \<Longrightarrow> waiting net g i"
    and d: "d < n" "d \<noteq> 0" "gst g d = Active" and r: "nReported (pes net d) = length (children d) + 1"
    and s': "stage s' = 0" and ph: "phase rm = k"
  defines "g' \<equiv> g\<lparr>gst := (gst g)(d := Sent), grep := (grep g)(d := rm)\<rparr>"
  defines "net' \<equiv> net\<lparr>pes := (pes net)(d := s'), wire := qd_sent d [QdSend (parent d) rm] (wire net)\<rparr>"
  shows "wave k net' g'"
proof -
  have wire: "wire net = expect g" and edge: "\<And>i. i < n \<Longrightarrow> i \<noteq> 0 \<Longrightarrow> edge_ok (gst g (parent i)) (gst g i)"
    using w by (auto simp: wave_raw_def)
  note a = all_reported [OF w d(1,3) r]
  have par: "parent d < d" by (rule parent_less [OF d(1,2)])
  have pact: "gst g (parent d) = Active" using edge [OF d(1,2)] d(3) by (cases "gst g (parent d)") auto
  have cnt: "gst g i = Counted" if "i < n" "i \<noteq> 0" "parent i = d" for i
    using that a(2) children_iff [OF d(1)] by simp
  have req': "on_req g' s x = on_req g s x" for s x
    using d(3) cnt [of x] unfolding on_req_def g'_def by (cases "x = 0") (auto split: if_splits)
  have own': "on_own g' s x = on_own g s x" for s x using d(3) a(1) by (auto simp: on_own_def g'_def)
  have rep': "on_rep g' s x = (if s = d then (if x = parent d then {#rm#} else {#}) else on_rep g s x)" for s x
    using d by (auto simp: on_rep_def g'_def)
  have "on_rep g d x = {#}" for x using d(3) by (auto simp: on_rep_def)
  then have "wire net' s x = expect g' s x" for s x
    by (auto simp: net'_def wire qd_sent_def expect_def req' own' rep')
  then have "wire net' = expect g'" by (intro ext)
  moreover have "edge_ok (gst g' (parent i)) (gst g' i)" if "i < n" "i \<noteq> 0" for i
    using edge [OF that] pact cnt [OF that] par by (cases "i = d"; cases "parent i = d") (auto simp: g'_def)
  moreover have "done_children g' i = done_children g i" for i
    using d(3) unfolding done_children_def g'_def by (intro arg_cong [where f = length] filter_cong) auto
  ultimately show ?thesis
    using w wt d s' ph by (auto simp: wave_def wave_raw_def waiting_def net'_def g'_def)
qed

text \<open>The root starts a wave.\<close>

definition first_ghost :: "qd_msg \<Rightarrow> qd_msg \<Rightarrow> ghost" where
  "first_ghost rq own = \<lparr>gst = (\<lambda>i. if i = 0 then Active else Fresh), gself = (\<lambda>i. False),
    greq = (\<lambda>i. rq), gown = (\<lambda>i. own), grep = (\<lambda>i. own)\<rparr>"

lemma wave_start:
  assumes st: "\<And>i. i < n \<Longrightarrow> i \<noteq> 0 \<Longrightarrow> stage (pes net i) = 0" and wire: "wire net = (\<lambda>s d. {#})"
    and s': "stage s' = k" "nReported s' = 0" and ph: "phase rq = k - 1" "phase own = k"
  defines "net' \<equiv> net\<lparr>pes := (pes net)(0 := s'),
      wire := qd_sent 0 (map (\<lambda>c. QdSend c rq) (children 0) @ [QdSend 0 own]) (wire net)\<rparr>"
  shows "wave k net' (first_ghost rq own)"
proof -
  let ?g = "first_ghost rq own"
  have notself: "0 \<notin> set (children 0)" by (rule children_not_self [OF root])
  have out: "out_to x (map (\<lambda>c. QdSend c rq) (children 0) @ [QdSend 0 own])
      = (if x \<in> set (children 0) then {#rq#} else if x = 0 then {#own#} else {#})" for x
    using notself by (auto simp: out_to_append out_to_map [OF distinct_children [OF root]])
  have "wire net' s x = expect ?g s x" for s x
    using children_iff [OF root, of x] root notself
    by (auto simp: net'_def wire qd_sent_def out expect_def on_req_def on_own_def on_rep_def first_ghost_def)
  then have "wire net' = expect ?g" by (intro ext)
  moreover have "done_children ?g 0 = 0" by (auto simp: done_children_def first_ghost_def filter_empty_conv)
  moreover have "edge_ok (gst ?g (parent i)) (gst ?g i)" if "i < n" "i \<noteq> 0" for i
    using that by (cases "parent i = 0") (auto simp: first_ghost_def)
  ultimately show ?thesis
    using st s' ph by (auto simp: wave_def wave_raw_def waiting_def net'_def first_ghost_def)
qed

end

end
