(* ===== verification/Qd_Inv.thy ===== *)
theory Qd_Inv
  imports Qd_Net
begin

text \<open>
  The invariant of quiescence detection is kept by every step: what the handlers do in each
  case, how the counted sums and the signs of activity move through a wave, and that no
  handler fails.
\<close>

section \<open>The handlers, case by case\<close>

definition count1 :: "qd_msg \<Rightarrow> qd_state \<Rightarrow> qd_state" where
  "count1 m s = s\<lparr>cCreated := cCreated s + created m, cProcessed := cProcessed s + processed m, nReported := nReported s + 1\<rparr>"

definition count2 :: "qd_msg \<Rightarrow> qd_state \<Rightarrow> qd_state" where
  "count2 m s = s\<lparr>cDirty := cDirty s \<or> dirty m, nReported := nReported s + 1\<rparr>"

lemma count_sel [simp]:
  "stage (count1 m s) = stage s" "nReported (count1 m s) = nReported s + 1"
  "stage (count2 m s) = stage s" "nReported (count2 m s) = nReported s + 1"
  by (simp_all add: count1_def count2_def)

lemma CQdHandler_eq: "CQdHandler npes me s m = CQdCallWhenIdle npes me s m"
  by (simp add: CQdHandler_def CQdProcess_def)

lemmas qd_handler_defs = CQdHandler_eq CQdCallWhenIdle_def CQdHandlePhase0_def CQdHandlePhase1_def
  CQdHandlePhase2_def qd_acc_defs

lemma handler_open1:
  "phase m = 0 \<Longrightarrow> stage s = 0 \<Longrightarrow> CQdHandler npes me s m = CQdBcastQD1 me s m"
  by (simp add: qd_handler_defs)

lemma handler_drop:
  "phase m = 0 \<Longrightarrow> stage s \<noteq> 0 \<Longrightarrow> CQdHandler npes 0 s m = Inr (s, [])"
  by (simp add: qd_handler_defs)

lemma handler_open2:
  "phase m = 1 \<Longrightarrow> stage s = 0 \<Longrightarrow> me \<noteq> 0 \<Longrightarrow> CQdHandler npes me s m = CQdBcastQD2 me s m"
  by (simp add: qd_handler_defs)

lemma handler_count1:
  "phase m = 1 \<Longrightarrow> stage s = 1 \<Longrightarrow> CQdHandler npes me s m =
    (let t = count1 m s in
     if nReported t \<noteq> nChildren t + 1 then Inr (t, [])
     else if me \<noteq> 0 then Inr (qd_fresh 0 t, [QdSend (nat (qparent t)) (m\<lparr>created := cCreated t, processed := cProcessed t\<rparr>)])
     else if cCreated t = cProcessed t then CQdBcastQD2 me t m
     else CQdBcastQD1 me t m)"
  by (simp add: qd_handler_defs count1_def qd_fresh_def Let_def)

lemma handler_count2:
  "phase m = 2 \<Longrightarrow> stage s = 2 \<Longrightarrow> CQdHandler npes me s m =
    (let t = count2 m s in
     if nReported t \<noteq> nChildren t + 1 then Inr (t, [])
     else if me \<noteq> 0 then Inr (qd_fresh 0 t, [QdSend (nat (qparent t)) (m\<lparr>dirty := busy t \<or> cDirty t\<rparr>)])
     else if busy t \<or> cDirty t then CQdBcastQD1 me t m
     else Inr (qd_fresh 0 (t\<lparr>mCreated := mCreated t - 1\<rparr>), [QdAnnounce]))"
  by (simp add: qd_handler_defs count2_def qd_fresh_def Let_def busy_def)

text \<open>What a handler keeps of the state; an announcement takes one off the created messages.\<close>

definition steady :: "nat \<Rightarrow> qd_state \<Rightarrow> qd_state \<Rightarrow> bool" where
  "steady a s s' \<longleftrightarrow> qchildren s' = qchildren s \<and> nChildren s' = nChildren s \<and> qparent s' = qparent s
    \<and> mCreated s' = mCreated s - int a \<and> mProcessed s' = mProcessed s"

lemma out_announced_sends [simp]: "out_announced (map (\<lambda>c. QdSend c m) cs @ [QdSend d m']) = 0"
  "out_announced [QdSend d m'] = 0" "out_announced [] = 0" "out_announced [QdAnnounce] = 1"
  by (simp_all add: out_announced_def)

lemma steady_simps [simp]: "steady 0 s (count1 m s)" "steady 0 s (count2 m s)" "steady 0 s s"
  "steady a s (qd_fresh k t) \<longleftrightarrow> steady a s t" "steady a s (t\<lparr>oProcessed := x\<rparr>) \<longleftrightarrow> steady a s t"
  by (simp_all add: steady_def count1_def count2_def qd_fresh_def)

section \<open>Sums\<close>

lemma sum_upd1:
  fixes f :: "nat \<Rightarrow> int"
  assumes "d < n" "\<And>i. i < n \<Longrightarrow> i \<noteq> d \<Longrightarrow> f' i = f i"
  shows "(\<Sum>i < n. f' i) = (\<Sum>i < n. f i) + (f' d - f d)"
proof -
  have "(\<Sum>i < n. f' i) = f' d + (\<Sum>i \<in> {..<n} - {d}. f' i)" "(\<Sum>i < n. f i) = f d + (\<Sum>i \<in> {..<n} - {d}. f i)"
    using assms(1) by (simp_all add: sum.remove)
  moreover have "(\<Sum>i \<in> {..<n} - {d}. f' i) = (\<Sum>i \<in> {..<n} - {d}. f i)"
    by (rule sum.cong) (auto simp: assms(2))
  ultimately show ?thesis by simp
qed

lemma sum_upd2:
  fixes f :: "nat \<Rightarrow> int"
  assumes "c < n" "d < n" "c \<noteq> d" "\<And>i. i < n \<Longrightarrow> i \<noteq> c \<Longrightarrow> i \<noteq> d \<Longrightarrow> f' i = f i"
  shows "(\<Sum>i < n. f' i) = (\<Sum>i < n. f i) + (f' c - f c) + (f' d - f d)"
proof -
  let ?h = "f(c := f' c)"
  have "(\<Sum>i < n. ?h i) = (\<Sum>i < n. f i) + (?h c - f c)" by (rule sum_upd1 [OF assms(1)]) simp
  moreover have "(\<Sum>i < n. f' i) = (\<Sum>i < n. ?h i) + (f' d - ?h d)"
    by (rule sum_upd1 [OF assms(2)]) (use assms(4) in auto)
  ultimately show ?thesis using assms(3) by simp
qed

section \<open>The data of the waves\<close>

context pe_tree
begin

lemma wire_cases [consumes 1, case_names req own rep]:
  assumes "m \<in># expect g src d"
  obtains "d < n" "d \<noteq> 0" "src = parent d" "gst g d = Fresh" "gst g src \<noteq> Fresh" "m = greq g d"
  | "d < n" "src = d" "gst g d = Active" "\<not> gself g d" "m = gown g d"
  | "src < n" "src \<noteq> 0" "d = parent src" "gst g src = Sent" "m = grep g src"
proof -
  from assms consider "m \<in># on_req g src d" | "m \<in># on_own g src d" | "m \<in># on_rep g src d"
    unfolding expect_def by fastforce
  then show thesis
  proof cases
    case 1
    then show ?thesis by (intro that(1)) (simp_all add: on_req_def split: if_splits)
  next
    case 2
    then show ?thesis by (intro that(2)) (simp_all add: on_own_def split: if_splits)
  next
    case 3
    then show ?thesis by (intro that(3)) (simp_all add: on_rep_def split: if_splits)
  qed
qed

text \<open>
  A state while a handler runs: \<open>d\<close> has counted a message and may have all its reports.
\<close>

definition mid :: "int \<Rightarrow> (qd_net \<Rightarrow> ghost \<Rightarrow> bool) \<Rightarrow> nat \<Rightarrow> qd_net \<Rightarrow> ghost \<Rightarrow> bool" where
  "mid k D d net g \<longleftrightarrow> wave_raw k net g \<and> D net g \<and> gst g d = Active \<and> (\<forall>i < n. i \<noteq> d \<longrightarrow> waiting net g i)"

lemma data1_own:
  assumes D: "data1 net g" and d: "d < n" "gst g d = Active" "\<not> gself g d"
  shows "data1 (net\<lparr>pes := (pes net)(d := count1 (gown g d) (pes net d)), wire := w\<rparr>) (g\<lparr>gself := (gself g)(d := True)\<rparr>)"
proof -
  let ?net' = "net\<lparr>pes := (pes net)(d := count1 (gown g d) (pes net d)), wire := w\<rparr>"
  let ?g' = "g\<lparr>gself := (gself g)(d := True)\<rparr>"
  have "owed cCreated created ?net' ?g' i = owed cCreated created net g i"
    "owed cProcessed processed ?net' ?g' i = owed cProcessed processed net g i" for i
    using d by (auto simp: owed_def count1_def)
  then show ?thesis using D d by (auto simp: data1_def snap_ok_def count1_def)
qed

lemma data1_rep:
  assumes D: "data1 net g" and c: "c < n" "gst g c = Sent" and d: "d < n" "d \<noteq> c" "gst g d = Active"
  shows "data1 (net\<lparr>pes := (pes net)(d := count1 (grep g c) (pes net d)), wire := w\<rparr>) (g\<lparr>gst := (gst g)(c := Counted)\<rparr>)"
proof -
  let ?net' = "net\<lparr>pes := (pes net)(d := count1 (grep g c) (pes net d)), wire := w\<rparr>"
  let ?g' = "g\<lparr>gst := (gst g)(c := Counted)\<rparr>"
  have "(\<Sum>i < n. owed part val ?net' ?g' i) = (\<Sum>i < n. owed part val net g i)"
    if "part (count1 (grep g c) (pes net d)) = part (pes net d) + val (grep g c)" for part val
  proof -
    have "(\<Sum>i < n. owed part val ?net' ?g' i) = (\<Sum>i < n. owed part val net g i)
        + (owed part val ?net' ?g' c - owed part val net g c) + (owed part val ?net' ?g' d - owed part val net g d)"
      using c d by (intro sum_upd2) (auto simp: owed_def)
    then show ?thesis using c d that by (simp add: owed_def)
  qed
  from this [of cCreated created] this [of cProcessed processed] show ?thesis
    using D c d by (auto simp: data1_def snap_ok_def count1_def)
qed

lemma data2_mono:
  assumes "data2 net g" "announced net' = announced net" "flight net' = 0 \<longleftrightarrow> flight net = 0"
    and "evidence net g \<Longrightarrow> evidence net' g'"
    and "\<And>i. i < n \<Longrightarrow> gst g i = Fresh \<Longrightarrow> busy (pes net i) \<Longrightarrow> gst g' i = Fresh \<and> busy (pes net' i) \<or> evidence net' g'"
  shows "data2 net' g'"
  using assms unfolding data2_def by metis

lemma data2_own:
  assumes D: "data2 net g" and d: "d < n" "gst g d = Active" "\<not> gself g d"
  shows "data2 (net\<lparr>pes := (pes net)(d := count2 (gown g d) (pes net d)), wire := w\<rparr>) (g\<lparr>gself := (gself g)(d := True)\<rparr>)"
proof -
  let ?net' = "net\<lparr>pes := (pes net)(d := count2 (gown g d) (pes net d)), wire := w\<rparr>"
  let ?g' = "g\<lparr>gself := (gself g)(d := True)\<rparr>"
  have "evidence ?net' ?g'" if "evidence net g"
  proof -
    from that obtain i where i: "i < n" "gst g i = Active \<and> (cDirty (pes net i) \<or> \<not> gself g i \<and> dirty (gown g i))
        \<or> gst g i = Sent \<and> dirty (grep g i)" by (auto simp: evidence_def)
    then show ?thesis unfolding evidence_def by (intro exI [of _ i]) (auto simp: count2_def)
  qed
  then show ?thesis using d by (intro data2_mono [OF D]) auto
qed

lemma data2_rep:
  assumes D: "data2 net g" and c: "c < n" "gst g c = Sent" and d: "d < n" "d \<noteq> c" "gst g d = Active"
  shows "data2 (net\<lparr>pes := (pes net)(d := count2 (grep g c) (pes net d)), wire := w\<rparr>) (g\<lparr>gst := (gst g)(c := Counted)\<rparr>)"
proof -
  let ?net' = "net\<lparr>pes := (pes net)(d := count2 (grep g c) (pes net d)), wire := w\<rparr>"
  let ?g' = "g\<lparr>gst := (gst g)(c := Counted)\<rparr>"
  have "evidence ?net' ?g'" if "evidence net g"
  proof -
    from that obtain i where i: "i < n" "gst g i = Active \<and> (cDirty (pes net i) \<or> \<not> gself g i \<and> dirty (gown g i))
        \<or> gst g i = Sent \<and> dirty (grep g i)" by (auto simp: evidence_def)
    then show ?thesis unfolding evidence_def using c d
      by (intro exI [of _ "if i = c then d else i"]) (auto simp: count2_def)
  qed
  then show ?thesis using c d by (intro data2_mono [OF D]) auto
qed

text \<open>A message to a processor that takes part in the wave is counted.\<close>

lemma count_mid:
  assumes w: "wave k net g" and m: "m \<in># wire net src d" and d: "d < n" "gst g d \<noteq> Fresh"
    and cnt: "stage s' = stage (pes net d)" "nReported s' = nReported (pes net d) + 1"
  defines "net' \<equiv> net\<lparr>pes := (pes net)(d := s'), wire := qd_taken src d m (wire net)\<rparr>"
  assumes own: "m = gown g d \<Longrightarrow> gst g d = Active \<Longrightarrow> \<not> gself g d \<Longrightarrow> D net' (g\<lparr>gself := (gself g)(d := True)\<rparr>)"
    and rep: "\<And>c. m = grep g c \<Longrightarrow> c < n \<Longrightarrow> gst g c = Sent \<Longrightarrow> d \<noteq> c \<Longrightarrow> gst g d = Active \<Longrightarrow>
      D net' (g\<lparr>gst := (gst g)(c := Counted)\<rparr>)"
  shows "\<exists>g'. mid k D d net' g'"
proof -
  have wire: "wire net = expect g" and st: "\<And>i. i < n \<Longrightarrow> gst g i = Active \<Longrightarrow> stage (pes net i) = k"
    using w by (auto simp: wave_def wave_raw_def)
  from m [unfolded wire] show ?thesis
  proof (cases rule: wire_cases)
    case req
    with d(2) show ?thesis by simp
  next
    case own': own
    have s': "stage s' = k" "nReported s' = nReported (pes net d) + 1" using st [OF d(1) own'(3)] cnt by simp_all
    have "mid k D d net' (g\<lparr>gself := (gself g)(d := True)\<rparr>)"
      using wave_own [OF w d(1) own'(3,4) s'] own [OF own'(5,3,4)] own'
      unfolding mid_def net'_def by auto
    then show ?thesis by blast
  next
    case rep': rep
    have "edge_ok (gst g d) Sent" using w rep' unfolding wave_def wave_raw_def by metis
    then have act: "gst g d = Active" by (cases "gst g d") auto
    have s': "stage s' = k" "nReported s' = nReported (pes net d) + 1" using st [OF d(1) act] cnt by simp_all
    have dc: "d \<noteq> src" using rep' parent_ne by simp
    have "mid k D d net' (g\<lparr>gst := (gst g)(src := Counted)\<rparr>)"
      using wave_rep [OF w rep'(1,2,4,3) s'] rep [OF rep'(5,1,4) dc act] dc rep' act
      unfolding mid_def net'_def by auto
    then show ?thesis by blast
  qed
qed

lemma mid_wait:
  assumes "mid k D d net g" "d < n" "nReported (pes net d) \<noteq> length (children d) + 1"
  shows "wave k net g" "D net g"
proof -
  have w: "wave_raw k net g" "gst g d = Active" and "D net g" and wt: "\<And>i. i < n \<Longrightarrow> i \<noteq> d \<Longrightarrow> waiting net g i"
    using assms(1) by (auto simp: mid_def)
  have "nReported (pes net d) = done_children g d + (if gself g d then 1 else 0)" "done_children g d \<le> length (children d)"
    using w assms(2) by (simp_all add: wave_raw_def done_children_def)
  then have "nReported (pes net d) \<le> length (children d)" using assms(3) by (auto split: if_splits)
  then show "wave k net g" using w(1) wt unfolding wave_def waiting_def by blast
  show "D net g" by fact
qed

lemma mid_finish:
  assumes mid: "mid k D d net g" and d: "d < n" "d \<noteq> 0" and r: "nReported (pes net d) = length (children d) + 1"
    and s': "stage s' = 0" and ph: "phase rm = k"
  defines "net' \<equiv> net\<lparr>pes := (pes net)(d := s'), wire := qd_sent d [QdSend (parent d) rm] (wire net)\<rparr>"
  assumes D: "D net g \<Longrightarrow> gst g d = Active \<Longrightarrow> gself g d \<Longrightarrow> D net' (g\<lparr>gst := (gst g)(d := Sent), grep := (grep g)(d := rm)\<rparr>)"
  shows "\<exists>g'. wave k net' g' \<and> D net' g'"
proof -
  have w: "wave_raw k net g" and act: "gst g d = Active" and wt: "\<And>i. i < n \<Longrightarrow> i \<noteq> d \<Longrightarrow> waiting net g i"
    and "D net g" using mid by (auto simp: mid_def)
  have "gself g d" by (rule all_reported [OF w d(1) act r])
  with wave_finish [OF w wt d act r s' ph] D \<open>D net g\<close> act show ?thesis unfolding net'_def by blast
qed

lemma data1_fin:
  assumes D: "data1 net g" and d: "d < n" "gst g d = Active" "gself g d"
    and rm: "created rm = cCreated (pes net d)" "processed rm = cProcessed (pes net d)"
  shows "data1 (net\<lparr>pes := (pes net)(d := qd_fresh 0 (pes net d)), wire := w\<rparr>) (g\<lparr>gst := (gst g)(d := Sent), grep := (grep g)(d := rm)\<rparr>)"
proof -
  let ?net' = "net\<lparr>pes := (pes net)(d := qd_fresh 0 (pes net d)), wire := w\<rparr>"
  let ?g' = "g\<lparr>gst := (gst g)(d := Sent), grep := (grep g)(d := rm)\<rparr>"
  have "owed cCreated created ?net' ?g' i = owed cCreated created net g i"
    "owed cProcessed processed ?net' ?g' i = owed cProcessed processed net g i" for i
    using d rm by (auto simp: owed_def)
  then show ?thesis using D d by (auto simp: data1_def snap_ok_def qd_fresh_def)
qed

lemma data2_fin:
  assumes D: "data2 net g" and d: "d < n" "gst g d = Active" "gself g d"
    and rm: "dirty rm \<longleftrightarrow> busy (pes net d) \<or> cDirty (pes net d)"
  shows "data2 (net\<lparr>pes := (pes net)(d := qd_fresh 0 (pes net d)), wire := w\<rparr>) (g\<lparr>gst := (gst g)(d := Sent), grep := (grep g)(d := rm)\<rparr>)"
proof -
  let ?net' = "net\<lparr>pes := (pes net)(d := qd_fresh 0 (pes net d)), wire := w\<rparr>"
  let ?g' = "g\<lparr>gst := (gst g)(d := Sent), grep := (grep g)(d := rm)\<rparr>"
  have "evidence ?net' ?g'" if "evidence net g"
  proof -
    from that obtain i where i: "i < n" "gst g i = Active \<and> (cDirty (pes net i) \<or> \<not> gself g i \<and> dirty (gown g i))
        \<or> gst g i = Sent \<and> dirty (grep g i)" by (auto simp: evidence_def)
    then show ?thesis unfolding evidence_def using d rm by (intro exI [of _ i]) auto
  qed
  then show ?thesis using d by (intro data2_mono [OF D]) auto
qed

text \<open>A fresh processor joins the wave.\<close>

lemma data1_open:
  assumes D: "data1 net g" and d: "d < n" "gst g d = Fresh"
    and own: "created own = mCreated (pes net d)" "processed own = mProcessed (pes net d)"
  shows "data1 (net\<lparr>pes := (pes net)(d := qd_fresh 1 (pes net d\<lparr>oProcessed := mProcessed (pes net d)\<rparr>)), wire := w\<rparr>)
    (g\<lparr>gst := (gst g)(d := Active), gself := (gself g)(d := False), greq := rq, gown := (gown g)(d := own)\<rparr>)"
    (is "data1 ?net' ?g'")
proof -
  have "owed cCreated created ?net' ?g' i = owed cCreated created net g i"
    "owed cProcessed processed ?net' ?g' i = owed cProcessed processed net g i" for i
    using d by (auto simp: owed_def qd_fresh_def)
  then show ?thesis using D d own by (auto simp: data1_def snap_ok_def qd_fresh_def)
qed

lemma data2_open:
  assumes D: "data2 net g" and d: "d < n" "gst g d = Fresh"
    and own: "dirty own \<longleftrightarrow> busy (pes net d) \<or> cDirty (pes net d)"
  shows "data2 (net\<lparr>pes := (pes net)(d := qd_fresh 2 (pes net d)), wire := w\<rparr>)
    (g\<lparr>gst := (gst g)(d := Active), gself := (gself g)(d := False), greq := rq, gown := (gown g)(d := own)\<rparr>)"
    (is "data2 ?net' ?g'")
proof -
  have "evidence ?net' ?g'" if "evidence net g"
  proof -
    from that obtain i where i: "i < n" "gst g i = Active \<and> (cDirty (pes net i) \<or> \<not> gself g i \<and> dirty (gown g i))
        \<or> gst g i = Sent \<and> dirty (grep g i)" by (auto simp: evidence_def)
    then have "i \<noteq> d" using d by auto
    with i show ?thesis unfolding evidence_def by (intro exI [of _ i]) auto
  qed
  moreover have "evidence ?net' ?g'" if "busy (pes net d)"
    unfolding evidence_def using that own d by (intro exI [of _ d]) simp
  ultimately show ?thesis by (intro data2_mono [OF D]) auto
qed

text \<open>The root starts the first wave, or the second one after equal sums.\<close>

lemma data1_start:
  assumes "created own = mCreated s" "processed own = mProcessed s"
  shows "data1 (net\<lparr>pes := (pes net)(0 := qd_fresh 1 (s\<lparr>oProcessed := mProcessed s\<rparr>)), wire := w\<rparr>) (first_ghost rq own)"
  using assms by (auto simp: data1_def owed_def first_ghost_def qd_fresh_def snap_ok_def intro!: sum.neutral)

lemma root_sums:
  assumes w: "wave_raw 1 net g" and D: "data1 net g" and r: "nReported (pes net 0) = length (children 0) + 1"
  shows "cCreated (pes net 0) = (\<Sum>i < n. created (gown g i))" "cProcessed (pes net 0) = (\<Sum>i < n. processed (gown g i))"
proof -
  note all = root_reported [OF w r]
  have act: "gst g 0 = Active" using w by (simp add: wave_raw_def)
  have "(\<Sum>i < n. owed part val net g i) = (\<Sum>i < n. val (gown g i)) + (owed part val net g 0 - val (gown g 0))"
    for part and val :: "qd_msg \<Rightarrow> int"
    using all(2) by (intro sum_upd1 [OF root]) (simp add: owed_def)
  moreover have "owed part val net g 0 = val (gown g 0) - part (pes net 0)" for part and val :: "qd_msg \<Rightarrow> int"
    using act all(1) by (simp add: owed_def)
  ultimately show "cCreated (pes net 0) = (\<Sum>i < n. created (gown g i))" "cProcessed (pes net 0) = (\<Sum>i < n. processed (gown g i))"
    using D by (simp_all add: data1_def)
qed

lemma data2_start:
  assumes mid: "mid 1 data1 0 net g" and r: "nReported (pes net 0) = length (children 0) + 1" and bal: "balance net"
    and eq: "cCreated (pes net 0) = cProcessed (pes net 0)"
    and own: "dirty own \<longleftrightarrow> busy (pes net 0) \<or> cDirty (pes net 0)"
  shows "data2 (net\<lparr>pes := (pes net)(0 := qd_fresh 2 (pes net 0)), wire := w\<rparr>) (first_ghost rq own)" (is "data2 ?net' ?g'")
proof -
  have w: "wave_raw 1 net g" and D: "data1 net g" and act: "gst g 0 = Active" using mid by (auto simp: mid_def)
  note all = root_reported [OF w r]
  have snap: "snap_ok (pes net i) (gown g i)" if "announced net = 0" "i < n" for i
    using D act all(2) that by (cases "i = 0") (auto simp: data1_def)
  have "flight net = 0" if "announced net = 0" and quiet: "\<And>i. i < n \<Longrightarrow> \<not> busy (pes net i)"
  proof -
    have "mCreated (pes net i) = created (gown g i)" "mProcessed (pes net i) = processed (gown g i)" if "i < n" for i
      using snap [OF \<open>announced net = 0\<close> that] quiet [OF that] by (auto simp: snap_ok_def busy_def)
    then have "int (flight net) = (\<Sum>i < n. created (gown g i)) - (\<Sum>i < n. processed (gown g i))"
      using bal that(1) by (simp add: balance_def sum_subtractf)
    then show ?thesis using root_sums [OF w D r] eq by simp
  qed
  moreover have "(\<exists>i < n. gst ?g' i = Fresh \<and> busy (pes ?net' i)) \<or> evidence ?net' ?g'" if "i < n" "busy (pes net i)" for i
  proof (cases "i = 0")
    case True
    then have "evidence ?net' ?g'" unfolding evidence_def using that own root
      by (intro exI [of _ 0]) (simp add: first_ghost_def)
    then show ?thesis ..
  next
    case False
    then have "gst ?g' i = Fresh \<and> busy (pes ?net' i)" using that by (simp add: first_ghost_def)
    then show ?thesis using that(1) by blast
  qed
  moreover have same: "flight ?net' = flight net" "announced ?net' = announced net" by simp_all
  ultimately show ?thesis unfolding data2_def same by blast
qed

section \<open>What handling a message gives\<close>

definition waves :: "qd_net \<Rightarrow> bool" where
  "waves net \<longleftrightarrow> idle net \<or> (\<exists>g. wave 1 net g \<and> data1 net g) \<or> (\<exists>g. wave 2 net g \<and> data2 net g)"

definition outcome :: "nat \<Rightarrow> qd_net \<Rightarrow> nat \<Rightarrow> (nat \<Rightarrow> nat \<Rightarrow> qd_msg multiset) \<Rightarrow> qd_msg \<Rightarrow> bool" where
  "outcome npes net d w m \<longleftrightarrow> (\<exists>s outs. CQdHandler npes d (pes net d) m = Inr (s, outs)
    \<and> steady (out_announced outs) (pes net d) s
    \<and> waves (net\<lparr>pes := (pes net)(d := s), wire := qd_sent d outs w, announced := announced net + out_announced outs\<rparr>)
    \<and> (out_announced outs \<noteq> 0 \<longrightarrow> announced net = 0 \<longrightarrow> flight net = 0))"

lemma outcomeI:
  assumes "CQdHandler npes d (pes net d) m = Inr (s, outs)" "out_announced outs = 0" "steady 0 (pes net d) s"
    "waves (net\<lparr>pes := (pes net)(d := s), wire := qd_sent d outs w\<rparr>)"
  shows "outcome npes net d w m"
proof -
  have "net\<lparr>pes := (pes net)(d := s), wire := qd_sent d outs w, announced := announced net\<rparr>
      = net\<lparr>pes := (pes net)(d := s), wire := qd_sent d outs w\<rparr>" by simp
  then show ?thesis unfolding outcome_def using assms by (intro exI [of _ s] exI [of _ outs]) simp
qed

lemma outcome_start:
  assumes "CQdHandler npes 0 (pes net 0) m = CQdBcastQD1 0 s m" "steady 0 (pes net 0) s"
    and st: "\<And>i. i < n \<Longrightarrow> i \<noteq> 0 \<Longrightarrow> stage (pes net i) = 0" and sh: "shape net"
  shows "outcome npes net 0 (\<lambda>s d. {#}) m"
proof -
  let ?rq = "m\<lparr>phase := 0\<rparr>" and ?own = "m\<lparr>phase := 1, created := mCreated s, processed := mProcessed s\<rparr>"
  let ?s = "qd_fresh 1 (s\<lparr>oProcessed := mProcessed s\<rparr>)"
  have c: "qchildren s = children 0" "nChildren s = length (children 0)"
    using sh root assms(2) by (auto simp: shape_def steady_def)
  have "wave 1 (net\<lparr>wire := \<lambda>s d. {#}, pes := (pes (net\<lparr>wire := \<lambda>s d. {#}\<rparr>))(0 := ?s),
      wire := qd_sent 0 (map (\<lambda>c. QdSend c ?rq) (children 0) @ [QdSend 0 ?own]) (wire (net\<lparr>wire := \<lambda>s d. {#}\<rparr>))\<rparr>) (first_ghost ?rq ?own)"
    by (rule wave_start) (use st in \<open>auto simp: qd_fresh_def\<close>)
  moreover have "data1 (net\<lparr>pes := (pes net)(0 := ?s), wire := w\<rparr>) (first_ghost ?rq ?own)" for w
    by (rule data1_start) simp_all
  ultimately have "waves (net\<lparr>pes := (pes net)(0 := ?s), wire := qd_sent 0 (map (\<lambda>c. QdSend c ?rq) (children 0) @ [QdSend 0 ?own]) (\<lambda>s d. {#})\<rparr>)"
    unfolding waves_def by auto
  then show ?thesis using assms(1,2) c
    by (intro outcomeI) (auto simp: CQdBcastQD1_eq steady_def qd_fresh_def)
qed

lemma shape_upd:
  assumes "shape net" "steady a (pes net d) s" "pes net' = (pes net)(d := s)"
  shows "shape net'"
  using assms by (auto simp: shape_def steady_def)

lemma balance_upd:
  assumes "balance net" "d < n" "steady a (pes net d) s" "pes net' = (pes net)(d := s)" "flight net' = flight net"
    "announced net' = announced net + a"
  shows "balance net'"
proof -
  have "(\<Sum>i < n. mCreated (pes net' i) - mProcessed (pes net' i)) = (\<Sum>i < n. mCreated (pes net i) - mProcessed (pes net i))
      + ((mCreated (pes net' d) - mProcessed (pes net' d)) - (mCreated (pes net d) - mProcessed (pes net d)))"
    using assms by (intro sum_upd1) auto
  then show ?thesis using assms by (simp add: balance_def steady_def)
qed

text \<open>The root has all reports: nothing is under way and all others have left the wave.\<close>

lemma mid_root:
  assumes "mid k D 0 net g" "nReported (pes net 0) = length (children 0) + 1"
  shows "wire net = (\<lambda>s d. {#})" "\<And>i. i < n \<Longrightarrow> i \<noteq> 0 \<Longrightarrow> stage (pes net i) = 0" "gself g 0"
proof -
  have w: "wave_raw k net g" using assms(1) by (simp add: mid_def)
  note all = root_reported [OF w assms(2)]
  show "wire net = (\<lambda>s d. {#})" "gself g 0" by (rule all)+
  show "\<And>i. i < n \<Longrightarrow> i \<noteq> 0 \<Longrightarrow> stage (pes net i) = 0" using w all(2) by (simp add: wave_raw_def)
qed

lemma wave_msg:
  assumes w: "wave k net g" and m: "m \<in># wire net src d" and d: "d < n"
  shows "gst g d = Fresh \<Longrightarrow> d \<noteq> 0 \<and> src = parent d \<and> gst g src \<noteq> Fresh \<and> m = greq g d \<and> phase m = k - 1 \<and> stage (pes net d) = 0"
    and "gst g d \<noteq> Fresh \<Longrightarrow> phase m = k \<and> stage (pes net d) = k"
proof -
  have wire: "wire net = expect g" and raw: "wave_raw k net g" using w by (auto simp: wave_def wave_raw_def)
  have par: "gst g (parent c) = Active" if "c < n" "c \<noteq> 0" "gst g c = Sent" for c
  proof -
    have "edge_ok (gst g (parent c)) Sent" using raw that unfolding wave_raw_def by metis
    then show ?thesis by (cases "gst g (parent c)") auto
  qed
  from m [unfolded wire]
  have "(gst g d = Fresh \<longrightarrow> d \<noteq> 0 \<and> src = parent d \<and> gst g src \<noteq> Fresh \<and> m = greq g d \<and> phase m = k - 1 \<and> stage (pes net d) = 0)
      \<and> (gst g d \<noteq> Fresh \<longrightarrow> phase m = k \<and> stage (pes net d) = k)"
  proof (cases rule: wire_cases)
    case req
    then show ?thesis using raw d by (simp add: wave_raw_def)
  next
    case own
    then show ?thesis using raw d by (simp add: wave_raw_def)
  next
    case rep
    then show ?thesis using par [of src] raw d by (simp add: wave_raw_def)
  qed
  then show "gst g d = Fresh \<Longrightarrow> d \<noteq> 0 \<and> src = parent d \<and> gst g src \<noteq> Fresh \<and> m = greq g d \<and> phase m = k - 1 \<and> stage (pes net d) = 0"
    "gst g d \<noteq> Fresh \<Longrightarrow> phase m = k \<and> stage (pes net d) = k" by auto
qed

lemma wave1_open:
  assumes w: "wave 1 net g" and D: "data1 net g" and sh: "shape net" and m: "m \<in># wire net src d" and d: "d < n" "gst g d = Fresh"
  shows "outcome npes net d (qd_taken src d m (wire net)) m"
proof -
  have f: "d \<noteq> 0" "src = parent d" "gst g (parent d) \<noteq> Fresh" "m = greq g d" "phase m = 0" "stage (pes net d) = 0"
    using wave_msg(1) [OF w m d] by auto
  have c: "qchildren (pes net d) = children d" "nChildren (pes net d) = length (children d)"
    using sh d(1) by (auto simp: shape_def)
  let ?s = "qd_fresh 1 (pes net d\<lparr>oProcessed := mProcessed (pes net d)\<rparr>)" and ?rq = "m\<lparr>phase := 0\<rparr>"
  let ?own = "m\<lparr>phase := 1, created := mCreated (pes net d), processed := mProcessed (pes net d)\<rparr>"
  let ?g = "g\<lparr>gst := (gst g)(d := Active), gself := (gself g)(d := False),
      greq := (\<lambda>c. if c \<in> set (children d) then ?rq else greq g c), gown := (gown g)(d := ?own)\<rparr>"
  let ?net = "net\<lparr>pes := (pes net)(d := ?s), wire := qd_sent d (map (\<lambda>c. QdSend c ?rq) (children d) @ [QdSend d ?own]) (qd_taken src d m (wire net))\<rparr>"
  have "wave 1 ?net ?g" unfolding f(2,4)
    by (rule wave_open [OF w d(1) f(1) d(2) f(3)]) (simp_all add: qd_fresh_def)
  moreover have "data1 ?net ?g" by (rule data1_open [OF D d]) simp_all
  ultimately have "waves ?net" unfolding waves_def by blast
  then show ?thesis using c f by (intro outcomeI) (auto simp: handler_open1 CQdBcastQD1_eq)
qed

lemma wave2_open:
  assumes w: "wave 2 net g" and D: "data2 net g" and sh: "shape net" and m: "m \<in># wire net src d" and d: "d < n" "gst g d = Fresh"
  shows "outcome npes net d (qd_taken src d m (wire net)) m"
proof -
  have f: "d \<noteq> 0" "src = parent d" "gst g (parent d) \<noteq> Fresh" "m = greq g d" "phase m = 1" "stage (pes net d) = 0"
    using wave_msg(1) [OF w m d] by auto
  have c: "qchildren (pes net d) = children d" "nChildren (pes net d) = length (children d)"
    using sh d(1) by (auto simp: shape_def)
  let ?s = "qd_fresh 2 (pes net d)" and ?rq = "m\<lparr>phase := 1\<rparr>"
  let ?own = "m\<lparr>phase := 2, dirty := oProcessed (pes net d) < mProcessed (pes net d) \<or> cDirty (pes net d)\<rparr>"
  let ?g = "g\<lparr>gst := (gst g)(d := Active), gself := (gself g)(d := False),
      greq := (\<lambda>c. if c \<in> set (children d) then ?rq else greq g c), gown := (gown g)(d := ?own)\<rparr>"
  let ?net = "net\<lparr>pes := (pes net)(d := ?s), wire := qd_sent d (map (\<lambda>c. QdSend c ?rq) (children d) @ [QdSend d ?own]) (qd_taken src d m (wire net))\<rparr>"
  have "wave 2 ?net ?g" unfolding f(2,4)
    by (rule wave_open [OF w d(1) f(1) d(2) f(3)]) (simp_all add: qd_fresh_def)
  moreover have "data2 ?net ?g" by (rule data2_open [OF D d]) (simp add: busy_def)
  ultimately have "waves ?net" unfolding waves_def by blast
  then show ?thesis using c f by (intro outcomeI) (auto simp: handler_open2 CQdBcastQD2_eq)
qed

text \<open>From the state after counting to the state after the handler.\<close>

lemma outcome_wait:
  assumes mid: "mid k D d (net\<lparr>pes := (pes net)(d := t), wire := w\<rparr>) g" and d: "d < n" and st: "steady 0 (pes net d) t"
    and r: "nReported t \<noteq> length (children d) + 1" and h: "CQdHandler npes d (pes net d) m = Inr (t, [])"
    and kD: "k = 1 \<and> D = data1 \<or> k = 2 \<and> D = data2"
  shows "outcome npes net d w m"
proof (rule outcomeI [OF h _ st])
  let ?net = "net\<lparr>pes := (pes net)(d := t), wire := w\<rparr>"
  have "qd_sent d [] w = w" by (intro ext) (simp add: qd_sent_def)
  moreover have "wave k ?net g" "D ?net g" using mid_wait [OF mid d] r by simp_all
  ultimately show "waves (net\<lparr>pes := (pes net)(d := t), wire := qd_sent d [] w\<rparr>)"
    using kD unfolding waves_def by auto
qed simp

lemma outcome_report:
  assumes mid: "mid k D d (net\<lparr>pes := (pes net)(d := t), wire := w\<rparr>) g" and d: "d < n" "d \<noteq> 0" and st: "steady 0 (pes net d) t"
    and sh: "shape net" and r: "nReported t = length (children d) + 1" and ph: "phase rm = k"
    and h: "CQdHandler npes d (pes net d) m = Inr (qd_fresh 0 t, [QdSend (nat (qparent t)) rm])"
    and kD: "k = 1 \<and> D = data1 \<and> created rm = cCreated t \<and> processed rm = cProcessed t
      \<or> k = 2 \<and> D = data2 \<and> (dirty rm \<longleftrightarrow> busy t \<or> cDirty t)"
  shows "outcome npes net d w m"
proof (rule outcomeI [OF h])
  let ?net = "net\<lparr>pes := (pes net)(d := t), wire := w\<rparr>"
  have par: "nat (qparent t) = parent d" using sh st d by (auto simp: shape_def steady_def)
  have "\<exists>g'. wave k (?net\<lparr>pes := (pes ?net)(d := qd_fresh 0 t), wire := qd_sent d [QdSend (parent d) rm] (wire ?net)\<rparr>) g'
      \<and> D (?net\<lparr>pes := (pes ?net)(d := qd_fresh 0 t), wire := qd_sent d [QdSend (parent d) rm] (wire ?net)\<rparr>) g'"
  proof (rule mid_finish [OF mid d])
    assume "D ?net g" "gst g d = Active" "gself g d"
    then show "D (?net\<lparr>pes := (pes ?net)(d := qd_fresh 0 t), wire := qd_sent d [QdSend (parent d) rm] (wire ?net)\<rparr>)
        (g\<lparr>gst := (gst g)(d := Sent), grep := (grep g)(d := rm)\<rparr>)"
      using kD d data1_fin [of ?net g d rm] data2_fin [of ?net g d rm] by auto
  qed (use r ph in \<open>auto simp: qd_fresh_def\<close>)
  then show "waves (net\<lparr>pes := (pes net)(d := qd_fresh 0 t), wire := qd_sent d [QdSend (nat (qparent t)) rm] w\<rparr>)"
    using kD unfolding waves_def par by auto
qed (use st in simp_all)

lemma wave1_count:
  assumes w: "wave 1 net g" and D: "data1 net g" and sh: "shape net" and bal: "balance net"
    and m: "m \<in># wire net src d" and d: "d < n" "gst g d \<noteq> Fresh"
  shows "outcome npes net d (qd_taken src d m (wire net)) m"
proof -
  let ?t = "count1 m (pes net d)" and ?w = "qd_taken src d m (wire net)"
  let ?net = "net\<lparr>pes := (pes net)(d := ?t), wire := ?w\<rparr>"
  have ph: "phase m = 1" "stage (pes net d) = 1" using wave_msg(2) [OF w m d] by auto
  have c: "qchildren ?t = children d" "nChildren ?t = length (children d)"
    using sh d(1) by (auto simp: shape_def count1_def)
  have "\<exists>g'. mid 1 data1 d ?net g'"
    by (rule count_mid [OF w m d]) (use D d in \<open>auto intro: data1_own data1_rep\<close>)
  then obtain g' where mid: "mid 1 data1 d ?net g'" ..
  note h = handler_count1 [OF ph, of npes d, unfolded Let_def c]
  consider "nReported ?t \<noteq> length (children d) + 1" | "nReported ?t = length (children d) + 1" "d \<noteq> 0"
    | "nReported ?t = length (children d) + 1" "d = 0" by blast
  then show ?thesis
  proof cases
    case 1
    then show ?thesis using h by (intro outcome_wait [OF mid d(1)]) simp_all
  next
    case 2
    then show ?thesis using h ph 
      by (intro outcome_report [OF mid d(1) 2(2) _ sh 2(1), where rm = "m\<lparr>created := cCreated ?t, processed := cProcessed ?t\<rparr>"]) simp_all
  next
    case 3
    have mid0: "mid 1 data1 0 ?net g'" "nReported (pes ?net 0) = length (children 0) + 1" using mid 3 by simp_all
    note root' = mid_root [OF mid0]
    have w0: "?w = (\<lambda>s d. {#})" and st: "\<And>i. i < n \<Longrightarrow> i \<noteq> 0 \<Longrightarrow> stage (pes net i) = 0"
      using root'(1,2) 3(2) by auto
    show ?thesis
    proof (cases "cCreated ?t = cProcessed ?t")
      case True
      let ?rq = "m\<lparr>phase := 1\<rparr>" and ?own = "m\<lparr>phase := 2, dirty := oProcessed ?t < mProcessed ?t \<or> cDirty ?t\<rparr>"
      let ?net' = "?net\<lparr>pes := (pes ?net)(0 := qd_fresh 2 ?t),
        wire := qd_sent 0 (map (\<lambda>c. QdSend c ?rq) (children 0) @ [QdSend 0 ?own]) (wire ?net)\<rparr>"
      have "wave 2 ?net' (first_ghost ?rq ?own)"
        by (rule wave_start) (use root' 3 in \<open>auto simp: qd_fresh_def\<close>)
      moreover have "balance ?net" by (rule balance_upd [OF bal d(1), where a = 0]) simp_all
      with mid0 True 3 have "data2 ?net' (first_ghost ?rq ?own)"
        using data2_start [of ?net g' ?own] by (simp add: busy_def)
      ultimately have "waves ?net'" unfolding waves_def by blast
      then show ?thesis using h 3 True c by (intro outcomeI) (auto simp: CQdBcastQD2_eq)
    next
      case False
      show ?thesis unfolding 3(2) using h 3 False w0 st sh
        by (intro outcome_start [where s = ?t, unfolded w0 [symmetric, unfolded 3(2)]]) simp_all
    qed
  qed
qed

lemma root_quiet:
  assumes w: "wave_raw 2 net g" and r: "nReported (pes net 0) = length (children 0) + 1" and D: "data2 net g"
    and c: "\<not> cDirty (pes net 0)"
  shows "announced net = 0 \<longrightarrow> flight net = 0"
proof -
  note all = root_reported [OF w r]
  have act: "gst g 0 = Active" using w by (simp add: wave_raw_def)
  have st: "gst g i = (if i = 0 then Active else Counted)" if "i < n" for i using that all(2) act by simp
  have "\<not> evidence net g"
  proof
    assume "evidence net g"
    then obtain i where "i < n" "gst g i = Active \<and> (cDirty (pes net i) \<or> \<not> gself g i \<and> dirty (gown g i))
        \<or> gst g i = Sent \<and> dirty (grep g i)" by (auto simp: evidence_def)
    then show False using st [of i] all(1) c by (cases "i = 0") auto
  qed
  moreover have "gst g i \<noteq> Fresh" if "i < n" for i using st [OF that] by simp
  ultimately show ?thesis using D unfolding data2_def by blast
qed

lemma wave2_count:
  assumes w: "wave 2 net g" and D: "data2 net g" and sh: "shape net"
    and m: "m \<in># wire net src d" and d: "d < n" "gst g d \<noteq> Fresh"
  shows "outcome npes net d (qd_taken src d m (wire net)) m"
proof -
  let ?t = "count2 m (pes net d)" and ?w = "qd_taken src d m (wire net)"
  let ?net = "net\<lparr>pes := (pes net)(d := ?t), wire := ?w\<rparr>"
  have ph: "phase m = 2" "stage (pes net d) = 2" using wave_msg(2) [OF w m d] by auto
  have c: "qchildren ?t = children d" "nChildren ?t = length (children d)"
    using sh d(1) by (auto simp: shape_def count2_def)
  have "\<exists>g'. mid 2 data2 d ?net g'"
    by (rule count_mid [OF w m d]) (use D d in \<open>auto intro: data2_own data2_rep\<close>)
  then obtain g' where mid: "mid 2 data2 d ?net g'" ..
  note h = handler_count2 [OF ph, of npes d, unfolded Let_def c]
  consider "nReported ?t \<noteq> length (children d) + 1" | "nReported ?t = length (children d) + 1" "d \<noteq> 0"
    | "nReported ?t = length (children d) + 1" "d = 0" by blast
  then show ?thesis
  proof cases
    case 1
    then show ?thesis using h by (intro outcome_wait [OF mid d(1)]) simp_all
  next
    case 2
    then show ?thesis using h ph
      by (intro outcome_report [OF mid d(1) 2(2) _ sh 2(1), where rm = "m\<lparr>dirty := busy ?t \<or> cDirty ?t\<rparr>"]) simp_all
  next
    case 3
    have mid0: "mid 2 data2 0 ?net g'" "nReported (pes ?net 0) = length (children 0) + 1" using mid 3 by simp_all
    note root' = mid_root [OF mid0]
    have w0: "?w = (\<lambda>s d. {#})" and st: "\<And>i. i < n \<Longrightarrow> i \<noteq> 0 \<Longrightarrow> stage (pes net i) = 0"
      using root'(1,2) 3(2) by auto
    show ?thesis
    proof (cases "busy ?t \<or> cDirty ?t")
      case True
      show ?thesis unfolding 3(2) using h 3 True w0 st sh
        by (intro outcome_start [where s = ?t, unfolded w0 [symmetric, unfolded 3(2)]]) simp_all
    next
      case False
      have raw: "wave_raw 2 ?net g'" and D': "data2 ?net g'" using mid0(1) by (auto simp: mid_def)
      have "\<not> cDirty (pes ?net 0)" using False 3(2) by simp
      from root_quiet [OF raw mid0(2) D' this] have "announced net = 0 \<longrightarrow> flight net = 0" by simp
      moreover have "idle (net\<lparr>pes := (pes net)(0 := qd_fresh 0 (?t\<lparr>mCreated := mCreated ?t - 1\<rparr>)),
          wire := qd_sent 0 [QdAnnounce] (\<lambda>s d. {#}), announced := announced net + 1\<rparr>)"
        unfolding idle_def using st by (auto simp: qd_fresh_def qd_sent_def fun_eq_iff)
      moreover have "steady 1 (pes net 0) (qd_fresh 0 (?t\<lparr>mCreated := mCreated ?t - 1\<rparr>))"
        unfolding 3(2) by (simp add: steady_def count2_def qd_fresh_def)
      ultimately show ?thesis using h 3 False w0 unfolding outcome_def waves_def by auto
    qed
  qed
qed

lemma handle_outcome:
  assumes q: "qinv net" and m: "m \<in># wire net src d" and d: "d < n"
  shows "outcome npes net d (qd_taken src d m (wire net)) m"
proof -
  have sh: "shape net" "balance net" using q by (auto simp: qinv_def)
  from q m consider g where "wave 1 net g" "data1 net g" | g where "wave 2 net g" "data2 net g"
    by (auto simp: qinv_def idle_def)
  then show ?thesis
  proof cases
    case 1
    then show ?thesis using wave1_open wave1_count sh m d by blast
  next
    case 2
    then show ?thesis using wave2_open wave2_count sh m d by blast
  qed
qed

lemma wave_root_stage: "wave k net g \<Longrightarrow> stage (pes net 0) = k"
  using root by (simp add: wave_def wave_raw_def)

lemma request_outcome:
  assumes q: "qinv net" and m: "m \<in># requests net"
  shows "outcome npes net 0 (wire net) m"
proof -
  have sh: "shape net" and ph: "phase m = 0" and w: "waves net" using q m by (auto simp: qinv_def waves_def)
  show ?thesis
  proof (cases "stage (pes net 0) = 0")
    case True
    have "idle net"
      using w True unfolding waves_def by (auto dest!: wave_root_stage)
    then have "wire net = (\<lambda>s d. {#})" "\<And>i. i < n \<Longrightarrow> stage (pes net i) = 0" by (auto simp: idle_def)
    then show ?thesis using outcome_start [of npes net m "pes net 0"] sh handler_open1 [OF ph True] by simp
  next
    case False
    have "qd_sent 0 [] (wire net) = wire net" by (intro ext) (simp add: qd_sent_def)
    then show ?thesis using handler_drop [OF ph False] w by (intro outcomeI) (auto simp: fun_upd_triv)
  qed
qed

section \<open>Every step keeps the invariant\<close>

lemma qinv_waves: "qinv net \<longleftrightarrow> shape net \<and> balance net \<and> (\<forall>m \<in># requests net. phase m = 0) \<and> waves net"
  unfolding qinv_def waves_def ..

lemma qinvD:
  assumes "qinv net"
  shows "shape net" "balance net" "\<forall>m \<in># requests net. phase m = 0" "waves net"
  using assms unfolding qinv_waves by blast+

lemma waves_cong:
  assumes "waves net" "pes net' = pes net" "wire net' = wire net" "flight net' = flight net" "announced net' = announced net"
  shows "waves net'"
proof -
  have "waves net' = waves net"
    unfolding waves_def idle_def wave_def wave_raw_def waiting_def data1_def data2_def owed_def evidence_def assms(2-) ..
  with assms(1) show ?thesis by simp
qed

lemma user_waves:
  assumes w: "waves net" and d: "d < n" and f: "0 < flight net"
  shows "waves (net\<lparr>pes := (pes net)(d := CQdCreate (CQdProcess (pes net d) 1) (int k)), flight := flight net - 1 + k\<rparr>)"
    (is "waves ?net")
proof -
  have p: "stage (pes ?net i) = stage (pes net i)" "nReported (pes ?net i) = nReported (pes net i)"
    "cDirty (pes ?net i) = cDirty (pes net i)" "cCreated (pes ?net i) = cCreated (pes net i)"
    "cProcessed (pes ?net i) = cProcessed (pes net i)" for i
    by (simp_all add: CQdCreate_def CQdProcess_def)
  have same: "wire ?net = wire net" "announced ?net = announced net" by simp_all
  have i: "idle ?net = idle net" unfolding idle_def p same ..
  have wv: "wave j ?net g = wave j net g" for j g
    unfolding wave_def wave_raw_def waiting_def p same ..
  have snap: "snap_ok (pes ?net i) m" if "snap_ok (pes net i) m" for i m
    using that by (auto simp: snap_ok_def CQdCreate_def CQdProcess_def)
  have d1: "data1 ?net g" if "data1 net g" for g
    using that snap unfolding data1_def owed_def p same by blast
  have b: "busy (pes ?net i)" if "busy (pes net i)" for i
    using that by (auto simp: busy_def CQdCreate_def CQdProcess_def)
  have d2: "data2 ?net g" if "data2 net g" for g
    using that f b unfolding data2_def evidence_def p same by (metis not_less_zero)
  show ?thesis using w i wv d1 d2 unfolding waves_def by blast
qed

lemma callback_waves:
  assumes w: "waves net" and a: "0 < announced net"
  shows "waves (net\<lparr>pes := (pes net)(d := CQdCreate (CQdAnnounceHandler (pes net d)) (int k)), flight := flight net + k\<rparr>)"
    (is "waves ?net")
proof -
  have p: "stage (pes ?net i) = stage (pes net i)" "nReported (pes ?net i) = nReported (pes net i)"
    "cCreated (pes ?net i) = cCreated (pes net i)" "cProcessed (pes ?net i) = cProcessed (pes net i)" for i
    by (simp_all add: CQdCreate_def CQdProcess_def CQdAnnounceHandler_def)
  have same: "wire ?net = wire net" "announced ?net = announced net" by simp_all
  have i: "idle ?net = idle net" unfolding idle_def p same ..
  have wv: "wave j ?net g = wave j net g" for j g
    unfolding wave_def wave_raw_def waiting_def p same ..
  have d1: "data1 ?net g" if "data1 net g" for g
    using that a unfolding data1_def owed_def p same by simp
  have d2: "data2 ?net g" for g using a unfolding data2_def same by simp
  show ?thesis using w i wv d1 d2 unfolding waves_def by blast
qed

lemma qinv_outcome:
  assumes q: "qinv net" and d: "d < n" and o: "outcome npes net d w m" and h: "CQdHandler npes d (pes net d) m = Inr (s, outs)"
    and sub: "set_mset q' \<subseteq> set_mset (requests net)"
  shows "qinv (net\<lparr>pes := (pes net)(d := s), requests := q', wire := qd_sent d outs w, announced := announced net + out_announced outs\<rparr>)"
    (is "qinv ?net")
    and "out_announced outs \<noteq> 0 \<longrightarrow> announced net = 0 \<longrightarrow> flight net = 0"
proof -
  from o obtain s' outs' where x: "CQdHandler npes d (pes net d) m = Inr (s', outs')"
    "steady (out_announced outs') (pes net d) s'"
    "waves (net\<lparr>pes := (pes net)(d := s'), wire := qd_sent d outs' w, announced := announced net + out_announced outs'\<rparr>)"
    "out_announced outs' \<noteq> 0 \<longrightarrow> announced net = 0 \<longrightarrow> flight net = 0"
    unfolding outcome_def by (elim exE conjE) (rule that)
  have eq: "s' = s" "outs' = outs" using x(1) h by simp_all
  note st = x(2) [unfolded eq] and wv = x(3) [unfolded eq] and an = x(4) [unfolded eq]
  note inv = qinvD [OF q]
  have "waves ?net" by (rule waves_cong [OF wv]) simp_all
  moreover have "shape ?net" by (rule shape_upd [OF inv(1) st]) simp
  moreover have "balance ?net" by (rule balance_upd [OF inv(2) d st]) simp_all
  moreover have "\<forall>m \<in># requests ?net. phase m = 0" using inv(3) sub by auto
  ultimately show "qinv ?net" unfolding qinv_waves by blast
  show "out_announced outs \<noteq> 0 \<longrightarrow> announced net = 0 \<longrightarrow> flight net = 0" by (rule an)
qed

lemma qinv_step:
  assumes q: "qinv net" and step: "qd_step n net net'"
  shows "qinv net'" "announced net = 0 \<Longrightarrow> announced net' \<noteq> 0 \<Longrightarrow> flight net' = 0"
proof -
  note inv = qinvD [OF q]
  have "qinv net' \<and> (announced net = 0 \<longrightarrow> announced net' \<noteq> 0 \<longrightarrow> flight net' = 0)"
    using step
  proof cases
    case (start i s outs)
    then have s: "s = pes net i" "outs = [QdSend 0 \<lparr>phase = 0, created = 0, processed = 0, dirty = False\<rparr>]"
      by (simp_all add: CmiStartQD_def qd_acc_defs)
    have "waves net'" by (rule waves_cong [OF inv(4)]) (simp_all add: start s)
    moreover have "shape net'" "balance net'" using inv(1,2) by (simp_all add: shape_def balance_def start s)
    moreover have "\<forall>m \<in># requests net'. phase m = 0" using inv(3) by (simp add: start s)
    ultimately show ?thesis unfolding qinv_waves by (simp add: start)
  next
    case (user i k)
    have "waves net'" unfolding user(1) by (rule user_waves [OF inv(4) user(2,3)])
    moreover have "shape net'" using inv(1) by (simp add: shape_def user CQdCreate_def CQdProcess_def)
    moreover have "balance net'"
    proof -
      have "(\<Sum>j < n. mCreated (pes net' j) - mProcessed (pes net' j)) = (\<Sum>j < n. mCreated (pes net j) - mProcessed (pes net j))
          + ((mCreated (pes net' i) - mProcessed (pes net' i)) - (mCreated (pes net i) - mProcessed (pes net i)))"
        using user by (intro sum_upd1) auto
      then show ?thesis using inv(2) user by (simp add: balance_def CQdCreate_def CQdProcess_def)
    qed
    ultimately show ?thesis using inv(3) unfolding qinv_waves by (simp add: user)
  next
    case (callback i k)
    have "waves net'" unfolding callback(1) by (rule callback_waves [OF inv(4) callback(3)])
    moreover have "shape net'" using inv(1) by (simp add: shape_def callback CQdCreate_def CQdProcess_def CQdAnnounceHandler_def)
    moreover have "balance net'"
    proof -
      have "(\<Sum>j < n. mCreated (pes net' j) - mProcessed (pes net' j)) = (\<Sum>j < n. mCreated (pes net j) - mProcessed (pes net j))
          + ((mCreated (pes net' i) - mProcessed (pes net' i)) - (mCreated (pes net i) - mProcessed (pes net i)))"
        using callback by (intro sum_upd1) auto
      then show ?thesis using inv(2) callback by (simp add: balance_def CQdCreate_def CQdProcess_def CQdAnnounceHandler_def)
    qed
    ultimately show ?thesis using inv(3) callback(3) unfolding qinv_waves by (simp add: callback(1))
  next
    case (request m s outs)
    have sub: "set_mset (requests net - {#m#}) \<subseteq> set_mset (requests net)" by (auto dest: in_diffD)
    show ?thesis using qinv_outcome [OF q root request_outcome [OF q request(2)] request(3) sub] request(1) by auto
  next
    case (handle d m src s outs)
    have "net\<lparr>pes := (pes net)(d := s), requests := requests net, wire := w, announced := a\<rparr>
        = net\<lparr>pes := (pes net)(d := s), wire := w, announced := a\<rparr>" for w a by simp
    then show ?thesis
      using qinv_outcome [OF q handle(2) handle_outcome [OF q handle(3,2)] handle(4) subset_refl] handle(1) by auto
  qed
  then show "qinv net'" "announced net = 0 \<Longrightarrow> announced net' \<noteq> 0 \<Longrightarrow> flight net' = 0" by simp_all
qed

lemma qinv_steps:
  assumes "(qd_step n)\<^sup>*\<^sup>* net net'" "qinv net"
  shows "qinv net'"
  using assms by (induction rule: rtranclp_induct) (auto intro: qinv_step)

text \<open>A wave never gets stuck: some detection message is under way.\<close>

lemma wave_moves:
  assumes w: "wave k net g"
  obtains src d where "d < n" "wire net src d \<noteq> {#}"
proof -
  have wire: "wire net = expect g" and raw: "wave_raw k net g" and wt: "\<And>i. i < n \<Longrightarrow> waiting net g i"
    using w by (auto simp: wave_def wave_raw_def)
  show ?thesis
  proof (rule ccontr)
    assume "\<not> thesis"
    then have none: "expect g src d = {#}" if "d < n" for src d using that wire by (metis \<open>\<And>d src. d < n \<Longrightarrow> wire net src d \<noteq> {#} \<Longrightarrow> thesis\<close>)
    have act: "gst g 0 = Active" using raw by (simp add: wave_raw_def)
    have fresh: "gst g i \<noteq> Fresh" if "i < n" for i
      using that
    proof (induction rule: tree_induct)
      case root
      then show ?case using act by simp
    next
      case (child c)
      then show ?case using none [of c "parent c"] by (auto simp: expect_def on_req_def)
    qed
    have sent: "gst g i \<noteq> Sent" if "i < n" "i \<noteq> 0" for i
      using none [OF parent_n [OF that], of i] that by (auto simp: expect_def on_rep_def)
    define d where "d = Max {i. i < n \<and> gst g i = Active}"
    have fin: "finite {i. i < n \<and> gst g i = Active}" by simp
    have "{i. i < n \<and> gst g i = Active} \<noteq> {}" using act root by blast
    then have d: "d < n" "gst g d = Active" using Max_in [OF fin] by (auto simp: d_def)
    have last: "gst g i \<noteq> Active" if "i < n" "d < i" for i
    proof
      assume "gst g i = Active"
      then have "i \<le> d" using that(1) unfolding d_def by (intro Max_ge [OF fin]) blast
      with that(2) show False by simp
    qed
    have "gself g d" using none [OF d(1), of d] d by (cases "gself g d") (auto simp: expect_def on_own_def)
    moreover have "gst g c = Counted" if "c \<in> set (children d)" for c
    proof -
      have c: "c < n" "c \<noteq> 0" "parent c = d" using that children_iff [OF d(1)] by auto
      then have "d < c" using parent_less by blast
      then show ?thesis using fresh [OF c(1)] sent [OF c(1,2)] last [OF c(1)] by (cases "gst g c") auto
    qed
    then have "done_children g d = length (children d)" by (simp add: done_children_def)
    ultimately have "nReported (pes net d) = length (children d) + 1" using raw d by (simp add: wave_raw_def)
    then show False using wt [OF d(1)] d(2) by (simp add: waiting_def)
  qed
qed

end

end
