(* ===== verification/Qd_Props.thy ===== *)
theory Qd_Props
  imports Qd_Inv
begin

text \<open>
  The properties of quiescence detection, for the spanning tree of \<open>Span_Tree\<close> on any number
  of nodes and processors per node, and the run that shows what the broadcast of the
  announcement does to the counters.
\<close>

definition qd_reach :: "nat \<Rightarrow> nat \<Rightarrow> (nat \<Rightarrow> nat) \<Rightarrow> qd_net \<Rightarrow> bool" where
  "qd_reach nn ns c net \<longleftrightarrow> (qd_step (nn * ns))\<^sup>*\<^sup>* (qd_init 4 ns nn c) net"

lemma qinv_init: "spantree.qinv nn ns (qd_init 4 (Suc ns) (Suc nn) c)"
proof -
  let ?net = "qd_init 4 (Suc ns) (Suc nn) c"
  have "spantree.shape nn ns ?net"
    unfolding spantree.shape_def using parent_pe_less [of 4 "Suc ns"]
    by (simp add: qd_init_def CQdCreate_def CQdStateCreate_def length_children_pe pe_parent_def del: mult_Suc mult_Suc_right)
  moreover have "spantree.balance nn ns ?net"
    unfolding spantree.balance_def by (simp add: qd_init_def CQdCreate_def CQdStateCreate_def del: mult_Suc mult_Suc_right)
  moreover have "spantree.idle nn ns ?net"
    unfolding spantree.idle_def by (simp add: qd_init_def CQdCreate_def CQdStateCreate_def)
  moreover have "\<forall>m \<in># requests ?net. phase m = 0" by (simp add: qd_init_def)
  ultimately show ?thesis unfolding spantree.qinv_def by blast
qed

lemma qinv_reach: "qd_reach (Suc nn) (Suc ns) c net \<Longrightarrow> spantree.qinv nn ns net"
  unfolding qd_reach_def using spantree.qinv_steps [OF _ qinv_init] by blast

section \<open>A run on one processor\<close>

text \<open>
  A request on an idle single processor whose counters are equal is answered by an
  announcement after the two waves.
\<close>

definition lone :: "qd_net \<Rightarrow> bool" where
  "lone net \<longleftrightarrow> stage (pes net 0) = 0 \<and> qchildren (pes net 0) = [] \<and> nChildren (pes net 0) = 0
    \<and> \<not> cDirty (pes net 0) \<and> mCreated (pes net 0) = mProcessed (pes net 0) \<and> wire net = (\<lambda>s d. {#}) \<and> requests net = {#}"

lemma lone_round:
  assumes "lone net"
  obtains net1 net2 where "(qd_step 1)\<^sup>*\<^sup>* net net1" "qd_step 1 net1 net2" "announced net1 = announced net"
    "announced net2 = announced net + 1" "flight net2 = flight net" "lone (net2\<lparr>pes := (pes net2)(0 := CQdCreate (pes net2 0) 1)\<rparr>)"
    "stage (pes net1 0) = 2"
proof -
  define s where "s = pes net 0"
  have s: "stage s = 0" "qchildren s = []" "nChildren s = 0" "\<not> cDirty s" "mCreated s = mProcessed s"
    "wire net = (\<lambda>s d. {#})" "requests net = {#}"
    using assms by (auto simp: lone_def s_def)
  define m0 where "m0 = \<lparr>phase = 0, created = 0, processed = 0, dirty = False\<rparr>"
  define m1 where "m1 = m0\<lparr>phase := 1, created := mCreated s, processed := mProcessed s\<rparr>"
  define m2 where "m2 = m1\<lparr>phase := 2, dirty := False\<rparr>"
  define s1 where "s1 = qd_fresh 1 (s\<lparr>oProcessed := mProcessed s\<rparr>)"
  define s2 where "s2 = qd_fresh 2 (count1 m1 s1)"
  define s3 where "s3 = qd_fresh 0 (count2 m2 s2\<lparr>mCreated := mCreated s2 - 1\<rparr>)"
  have one0: "qd_sent 0 [QdSend 0 m] (\<lambda>s d. {#}) = (\<lambda>s d. if s = 0 \<and> d = 0 then {#m#} else {#})" for m
    by (intro ext) (simp add: qd_sent_def)
  have taken: "qd_taken 0 0 m (\<lambda>s d. if s = 0 \<and> d = 0 then {#m#} else {#}) = (\<lambda>s d. {#})" for m
    by (intro ext) (simp add: qd_taken_def)
  have sent: "qd_sent 0 [QdAnnounce] (\<lambda>s d. {#}) = (\<lambda>s d. {#})" by (intro ext) (simp add: qd_sent_def)
  let ?w = "\<lambda>m. (\<lambda>s d. if s = (0 :: nat) \<and> d = (0 :: nat) then {#m :: qd_msg#} else {#})"
  define n0 where "n0 = net\<lparr>requests := {#m0#}\<rparr>"
  define n1 where "n1 = net\<lparr>pes := (pes net)(0 := s1), requests := {#}, wire := ?w m1\<rparr>"
  define n2 where "n2 = net\<lparr>pes := (pes net)(0 := s2), requests := {#}, wire := ?w m2\<rparr>"
  define n3 where "n3 = net\<lparr>pes := (pes net)(0 := s3), requests := {#}, wire := (\<lambda>s d. {#}), announced := announced net + 1\<rparr>"
  have a: "qd_step 1 net n0"
  proof -
    have "qd_step 1 net (net\<lparr>pes := (pes net)(0 := pes net 0), requests := requests net + out_to 0 [QdSend 0 m0]\<rparr>)"
      by (rule qd_step.start) (simp_all add: CmiStartQD_def qd_acc_defs m0_def)
    then show ?thesis using s(7) by (simp add: n0_def)
  qed
  have b: "qd_step 1 n0 n1"
  proof -
    have "qd_step 1 n0 (n0\<lparr>pes := (pes n0)(0 := s1), requests := requests n0 - {#m0#},
        wire := qd_sent 0 [QdSend 0 m1] (wire n0), announced := announced n0 + out_announced [QdSend 0 m1]\<rparr>)"
      by (rule qd_step.request) (use s in \<open>simp_all add: n0_def handler_open1 CQdBcastQD1_eq m0_def m1_def s1_def s_def [symmetric]\<close>)
    then show ?thesis
      by (rule back_subst [of "qd_step 1 n0"]) (rule qd_net.equality, simp_all add: n0_def n1_def one0 s(6,7))
  qed
  have c: "qd_step 1 n1 n2"
  proof -
    have "qd_step 1 n1 (n1\<lparr>pes := (pes n1)(0 := s2), wire := qd_sent 0 [QdSend 0 m2] (qd_taken 0 0 m1 (wire n1)),
        announced := announced n1 + out_announced [QdSend 0 m2]\<rparr>)"
      by (rule qd_step.handle) (use s in \<open>simp_all add: n1_def handler_count1 CQdBcastQD2_eq m1_def m2_def s1_def s2_def
          qd_fresh_def count1_def m0_def\<close>)
    then show ?thesis
      by (rule back_subst [of "qd_step 1 n1"]) (rule qd_net.equality, simp_all add: n1_def n2_def one0 taken)
  qed
  have d: "qd_step 1 n2 n3"
  proof -
    have "qd_step 1 n2 (n2\<lparr>pes := (pes n2)(0 := s3), wire := qd_sent 0 [QdAnnounce] (qd_taken 0 0 m2 (wire n2)),
        announced := announced n2 + out_announced [QdAnnounce]\<rparr>)"
      by (rule qd_step.handle) (use s in \<open>simp_all add: n2_def handler_count2 m1_def m2_def s1_def s2_def s3_def
          qd_fresh_def count1_def count2_def m0_def busy_def\<close>)
    then show ?thesis
      by (rule back_subst [of "qd_step 1 n2"]) (rule qd_net.equality, simp_all add: n2_def n3_def taken sent)
  qed
  have "(qd_step 1)\<^sup>*\<^sup>* net n2" using a b c by (meson converse_rtranclp_into_rtranclp rtranclp.rtrancl_refl)
  moreover have "lone (n3\<lparr>pes := (pes n3)(0 := CQdCreate (pes n3 0) 1)\<rparr>)"
    using s by (simp add: lone_def n3_def s3_def s2_def s1_def qd_fresh_def count1_def count2_def CQdCreate_def)
  ultimately show thesis using d by (intro that [of n2 n3]) (simp_all add: n2_def n3_def s2_def qd_fresh_def)
qed

lemma lone_init: "lone (qd_init 4 1 1 (\<lambda>i. 0))"
  unfolding lone_def qd_init_def CQdCreate_def CQdStateCreate_def by simp code_simp

section \<open>Properties\<close>

text \<open>
  C1. Quiescence detection is sound up to the first announcement: on every machine, in every
  interleaving of user messages, requests and detection messages, a step that makes the first
  announcement ends in a state with no user message in flight.
\<close>

theorem qd_announce_sound:
  assumes "0 < nn" "0 < ns" "qd_reach nn ns c net" "qd_step (nn * ns) net net'" "announced net = 0" "announced net' \<noteq> 0"
  shows "flight net' = 0"
proof -
  obtain nn' ns' where n: "nn = Suc nn'" "ns = Suc ns'" using assms(1,2) by (meson gr0_implies_Suc)
  show ?thesis using spantree.qinv_step(2) [OF qinv_reach [OF assms(3) [unfolded n]] assms(4) [unfolded n]] assms(5,6) by blast
qed

theorem qd_announce_sound_witness:
  "\<exists>net net'. qd_reach 1 1 (\<lambda>i. 0) net \<and> qd_step 1 net net' \<and> announced net = 0 \<and> announced net' = 1 \<and> flight net' = 0"
proof (rule lone_round [OF lone_init])
  fix net1 net2
  assume h: "(qd_step 1)\<^sup>*\<^sup>* (qd_init 4 1 1 (\<lambda>i. 0)) net1" "qd_step 1 net1 net2"
    "announced net1 = announced (qd_init 4 1 1 (\<lambda>i. 0))" "announced net2 = announced (qd_init 4 1 1 (\<lambda>i. 0)) + 1"
  then have r: "qd_reach 1 1 (\<lambda>i. 0) net1" "announced net1 = 0" "announced net2 = 1"
    by (simp_all add: qd_reach_def qd_init_def)
  then have "flight net2 = 0" using qd_announce_sound [of 1 1 "\<lambda>i. 0" net1 net2] h(2) by simp
  with r h(2) show ?thesis by blast
qed

text \<open>
  C25. In every reachable state each detection message that waits at a processor is handled
  without a failed assertion and without the abort of \<open>CQdHandlePhase1\<close> and \<open>CQdCallWhenIdle\<close>.
\<close>

theorem qd_handlers_total:
  assumes "0 < nn" "0 < ns" "qd_reach nn ns c net"
    and "d < nn * ns \<and> m \<in># wire net src d \<or> d = 0 \<and> m \<in># requests net"
  shows "\<exists>s outs. CQdHandler (nn * ns) d (pes net d) m = Inr (s, outs)"
proof -
  obtain nn' ns' where n: "nn = Suc nn'" "ns = Suc ns'" using assms(1,2) by (meson gr0_implies_Suc)
  have q: "spantree.qinv nn' ns' net" using qinv_reach assms(3) n by simp
  from assms(4) have "\<exists>w. spantree.outcome nn' ns' (nn * ns) net d w m"
    using spantree.handle_outcome [OF q] spantree.request_outcome [OF q] unfolding n by blast
  then show ?thesis unfolding spantree.outcome_def by (elim exE conjE) blast
qed

theorem qd_handlers_total_witness:
  "\<exists>net s outs. qd_reach 1 1 (\<lambda>i. 0) net \<and> (\<exists>m \<in># requests net. CQdHandler 1 0 (pes net 0) m = Inr (s, outs))"
proof -
  let ?i = "qd_init 4 1 1 (\<lambda>i. 0)"
  let ?m = "\<lparr>phase = 0, created = 0, processed = 0, dirty = False\<rparr>"
  let ?net = "?i\<lparr>pes := (pes ?i)(0 := pes ?i 0), requests := requests ?i + out_to 0 [QdSend 0 ?m]\<rparr>"
  have "qd_step 1 ?i ?net" by (rule qd_step.start) (simp_all add: CmiStartQD_def qd_acc_defs)
  moreover define net where "net = ?net"
  ultimately have r: "qd_reach 1 1 (\<lambda>i. 0) net" by (simp add: qd_reach_def)
  have m: "?m \<in># requests net" by (simp add: net_def)
  have "\<exists>s outs. CQdHandler (1 * 1) 0 (pes net 0) ?m = Inr (s, outs)"
    by (rule qd_handlers_total [OF _ _ r]) (use m in auto)
  then show ?thesis using r m by (metis mult_1)
qed

text \<open>
  C26. A wave never gets stuck: as long as the root has not finished a detection, some
  processor has a detection message to handle.
\<close>

theorem qd_progress:
  assumes "0 < nn" "0 < ns" "qd_reach nn ns c net" "stage (pes net 0) \<noteq> 0"
  shows "\<exists>src d. d < nn * ns \<and> wire net src d \<noteq> {#}"
proof -
  obtain nn' ns' where n: "nn = Suc nn'" "ns = Suc ns'" using assms(1,2) by (meson gr0_implies_Suc)
  have q: "spantree.qinv nn' ns' net" using qinv_reach assms(3) n by simp
  then have "\<not> spantree.idle nn' ns' net" using assms(4) spantree.root unfolding spantree.idle_def by blast
  then obtain k g where "spantree.wave nn' ns' k net g" using q unfolding spantree.qinv_def by blast
  then show ?thesis using spantree.wave_moves unfolding n by metis
qed

theorem qd_progress_witness:
  "\<exists>net. qd_reach 1 1 (\<lambda>i. 0) net \<and> stage (pes net 0) = 2 \<and> (\<exists>src d. d < 1 * 1 \<and> wire net src d \<noteq> {#})"
proof (rule lone_round [OF lone_init])
  fix net1
  assume "(qd_step 1)\<^sup>*\<^sup>* (qd_init 4 1 1 (\<lambda>i. 0)) net1" "stage (pes net1 0) = 2"
  then show ?thesis using qd_progress [of 1 1 "\<lambda>i. 0" net1] by (auto simp: qd_reach_def)
qed

text \<open>
  The message counters are exact only until the first announcement: in every reachable
  state, created minus processed messages, summed over the processors, is the number of user
  messages in flight minus the number of announcements made so far, because the handler takes
  \<open>CmiNumPes()\<close> off the created messages and the broadcast adds one less.
\<close>

theorem qd_counters:
  assumes "0 < nn" "0 < ns" "qd_reach nn ns c net"
  shows "(\<Sum>i < nn * ns. mCreated (pes net i) - mProcessed (pes net i)) = int (flight net) - int (announced net)"
proof -
  obtain nn' ns' where n: "nn = Suc nn'" "ns = Suc ns'" using assms(1,2) by (meson gr0_implies_Suc)
  have "spantree.balance nn' ns' net" using qinv_reach assms(3) n spantree.qinvD(2) by blast
  then show ?thesis unfolding spantree.balance_def n by linarith
qed

theorem qd_counters_witness:
  "(\<Sum>i < 2 * 3. mCreated (pes (qd_init 4 3 2 (\<lambda>i. i)) i) - mProcessed (pes (qd_init 4 3 2 (\<lambda>i. i)) i))
    = int (flight (qd_init 4 3 2 (\<lambda>i. i))) - int (announced (qd_init 4 3 2 (\<lambda>i. i)))"
  using qd_counters [of 2 3 "\<lambda>i. i" "qd_init 4 3 2 (\<lambda>i. i)"] by (simp add: qd_reach_def)

text \<open>
  C27. As a consequence a second detection can be wrong: on one processor there is a run in
  which a message is created after the first announcement and the second announcement is made
  while that message is in flight.
\<close>

theorem qd_second_announcement_early:
  "\<exists>net net'. qd_reach 1 1 (\<lambda>i. 0) net \<and> qd_step 1 net net' \<and> announced net = 1 \<and> announced net' = 2 \<and> flight net' = 1"
proof (rule lone_round [OF lone_init])
  fix net1 net2
  let ?i = "qd_init 4 1 1 (\<lambda>i. 0)"
  assume h: "(qd_step 1)\<^sup>*\<^sup>* ?i net1" "qd_step 1 net1 net2" "announced net2 = announced ?i + 1" "flight net2 = flight ?i"
    and l: "lone (net2\<lparr>pes := (pes net2)(0 := CQdCreate (pes net2 0) 1)\<rparr>)"
  have a: "announced net2 = 1" "flight net2 = 0" using h(3,4) by (simp_all add: qd_init_def)
  define net3 where "net3 = net2\<lparr>pes := (pes net2)(0 := CQdCreate (CQdAnnounceHandler (pes net2 0)) (int 1)), flight := flight net2 + 1\<rparr>"
  have c: "qd_step 1 net2 net3" unfolding net3_def by (rule qd_step.callback) (simp_all add: a)
  have "lone net3" using l by (simp add: lone_def net3_def CQdAnnounceHandler_def CQdCreate_def CQdProcess_def)
  then show ?thesis
  proof (rule lone_round)
    fix net4 net5
    assume k: "(qd_step 1)\<^sup>*\<^sup>* net3 net4" "qd_step 1 net4 net5" "announced net4 = announced net3"
      "announced net5 = announced net3 + 1" "flight net5 = flight net3"
    have "(qd_step 1)\<^sup>*\<^sup>* ?i net4" using h(1,2) c k(1) by (meson rtranclp.rtrancl_into_rtrancl rtranclp_trans)
    moreover have "announced net4 = 1" "announced net5 = 2" "flight net5 = 1" using k(3-5) a by (simp_all add: net3_def)
    ultimately show ?thesis using k(2) by (intro exI [of _ net4] exI [of _ net5]) (simp add: qd_reach_def)
  qed
qed

end
