(* ===== verification/Ccd_List.thy ===== *)
theory Ccd_List
  imports Charm_Prelude "HOL-Library.Monad_Syntax"
begin

text \<open>
  The callback lists of \<^verbatim>\<open>src/conv-core/conv-conds.c\<close>: a doubly linked list of callbacks
  and a free list, threaded through one array. The theory shows that the list behaves as the
  sequence of its occupied entries and that no access leaves the array.
\<close>

section \<open>Data and operations\<close>

record ('f, 'a) ccd_callback =
  fn :: 'f
  arg :: 'a
  cpe :: int

record ('f, 'a) ccd_cblist_elem =
  cb :: "('f, 'a) ccd_callback"
  enext :: int
  eprev :: int

text \<open>\<open>len\<close> and \<open>maxlen\<close> are \<^verbatim>\<open>unsigned int\<close>: their arithmetic wraps.\<close>

record ('f, 'a) ccd_cblist =
  maxlen :: nat
  len :: nat
  first :: int
  clast :: int
  first_free :: int
  flag :: int
  elems :: "('f, 'a) ccd_cblist_elem list"

text \<open>Entries \<open>a, \<dots>, b - 1\<close> of a new array, linked to their neighbours; \<open>junk\<close> is what \<^verbatim>\<open>malloc\<close> left.\<close>

definition linked_elems :: "('f, 'a) ccd_callback \<Rightarrow> nat \<Rightarrow> nat \<Rightarrow> ('f, 'a) ccd_cblist_elem list" where
  "linked_elems junk a b = map (\<lambda>i. \<lparr>cb = junk, enext = int i + 1, eprev = int i - 1\<rparr>) [a..<b]"

definition init_cblist :: "('f, 'a) ccd_callback \<Rightarrow> nat \<Rightarrow> ('f, 'a) ccd_cblist option" where
  "init_cblist junk ml = do {
     es \<leftarrow> arr_upd (linked_elems junk 0 ml) (int ml - 1) (\<lambda>e. e\<lparr>enext := - 1\<rparr>);
     Some \<lparr>maxlen = ml, len = 0, first = - 1, clast = - 1, first_free = 0, flag = 0, elems = es\<rparr>
   }"

definition expand_cblist :: "('f, 'a) ccd_callback \<Rightarrow> ('f, 'a) ccd_cblist \<Rightarrow> nat \<Rightarrow> ('f, 'a) ccd_cblist option" where
  "expand_cblist junk l ml = do {
     es \<leftarrow> arr_upd (take (len l) (elems l) @ linked_elems junk (len l) ml) (int ml - 1) (\<lambda>e. e\<lparr>enext := - 1\<rparr>);
     es \<leftarrow> arr_upd es (int (len l)) (\<lambda>e. e\<lparr>eprev := - 1\<rparr>);
     Some (l\<lparr>elems := es, maxlen := ml, first_free := int (len l)\<rparr>)
   }"

definition remove_elem :: "('f, 'a) ccd_cblist \<Rightarrow> int \<Rightarrow> ('f, 'a) ccd_cblist option" where
  "remove_elem l idx = do {
     let es = elems l;
     e \<leftarrow> arr_get es idx;
     es \<leftarrow> (if enext e \<noteq> - 1 then arr_upd es (enext e) (\<lambda>x. x\<lparr>eprev := eprev e\<rparr>) else Some es);
     e \<leftarrow> arr_get es idx;
     es \<leftarrow> (if eprev e \<noteq> - 1 then arr_upd es (eprev e) (\<lambda>x. x\<lparr>enext := enext e\<rparr>) else Some es);
     e \<leftarrow> arr_get es idx;
     let l = l\<lparr>first := if idx = first l then enext e else first l\<rparr>;
     let l = l\<lparr>clast := if idx = clast l then eprev e else clast l\<rparr>;
     es \<leftarrow> arr_upd es idx (\<lambda>x. x\<lparr>eprev := - 1, enext := first_free l\<rparr>);
     es \<leftarrow> (if first_free l \<noteq> - 1 then arr_upd es (first_free l) (\<lambda>x. x\<lparr>eprev := idx\<rparr>) else Some es);
     Some (l\<lparr>elems := es, first_free := idx, len := (len l + 2 ^ 32 - 1) mod 2 ^ 32\<rparr>)
   }"

primrec remove_firsts :: "nat \<Rightarrow> ('f, 'a) ccd_cblist \<Rightarrow> ('f, 'a) ccd_cblist option" where
  "remove_firsts 0 l = Some l"
| "remove_firsts (Suc n) l = do { l \<leftarrow> remove_elem l (first l); remove_firsts n l }"

definition remove_n_elems :: "('f, 'a) ccd_cblist \<Rightarrow> nat \<Rightarrow> ('f, 'a) ccd_cblist option" where
  "remove_n_elems l n = (if n = 0 \<or> len l < n then Some l else remove_firsts n l)"

definition append_elem ::
  "('f, 'a) ccd_callback \<Rightarrow> ('f, 'a) ccd_cblist \<Rightarrow> ('f, 'a) ccd_callback \<Rightarrow> (int \<times> ('f, 'a) ccd_cblist) option" where
  "append_elem junk l c = do {
     l \<leftarrow> (if len l = maxlen l then expand_cblist junk l ((maxlen l * 2) mod 2 ^ 32) else Some l);
     let idx = first_free l;
     e \<leftarrow> arr_get (elems l) idx;
     let l = l\<lparr>first_free := enext e\<rparr>;
     es \<leftarrow> arr_upd (elems l) idx (\<lambda>x. x\<lparr>enext := - 1, eprev := clast l\<rparr>);
     let l = l\<lparr>first := if first l = - 1 then idx else first l\<rparr>;
     es \<leftarrow> (if clast l \<noteq> - 1 then arr_upd es (clast l) (\<lambda>x. x\<lparr>enext := idx\<rparr>) else Some es);
     es \<leftarrow> arr_upd es idx (\<lambda>x. x\<lparr>cb := c\<rparr>);
     Some (idx, l\<lparr>clast := idx, elems := es, len := (len l + 1) mod 2 ^ 32\<rparr>)
   }"

section \<open>Chains in the array\<close>

fun head_or :: "nat list \<Rightarrow> int \<Rightarrow> int" where
  "head_or [] q = q"
| "head_or (i # is) q = int i"

definition last_or :: "nat list \<Rightarrow> int \<Rightarrow> int" where
  "last_or is p = (if is = [] then p else int (last is))"

text \<open>
  The occupied entries: a doubly linked chain that comes from \<open>p\<close> and leads to \<open>q\<close>. The free
  entries: only the forward links are ever followed.
\<close>

fun dchain :: "('f, 'a) ccd_cblist_elem list \<Rightarrow> int \<Rightarrow> nat list \<Rightarrow> int \<Rightarrow> bool" where
  "dchain es p [] q = True"
| "dchain es p (i # is) q \<longleftrightarrow> i < length es \<and> eprev (es ! i) = p \<and> enext (es ! i) = head_or is q \<and> dchain es (int i) is q"

fun fchain :: "('f, 'a) ccd_cblist_elem list \<Rightarrow> nat list \<Rightarrow> bool" where
  "fchain es [] = True"
| "fchain es (i # is) \<longleftrightarrow> i < length es \<and> enext (es ! i) = head_or is (- 1) \<and> fchain es is"

lemma last_or_simps [simp, chain_simps]: "last_or [] p = p" "last_or (xs @ [a]) p = int a" "last_or [a] p = int a"
  "last_or (a # b # xs) p = last_or (b # xs) p"
  by (simp_all add: last_or_def)

lemma last_or_Cons: "last_or (a # xs) p = last_or xs (int a)"
  by (simp add: last_or_def)

lemma head_or_append [simp, chain_simps]: "head_or (xs @ ys) q = head_or xs (head_or ys q)"
  by (cases xs) auto

lemma dchain_append:
  "dchain es p (xs @ ys) q \<longleftrightarrow> dchain es p xs (head_or ys q) \<and> dchain es (last_or xs p) ys q"
  by (induction xs arbitrary: p) (auto simp: last_or_Cons)

lemma dchain_frame:
  "dchain es p xs q \<Longrightarrow> (\<And>i. i \<in> set xs \<Longrightarrow> i < length es' \<and> eprev (es' ! i) = eprev (es ! i) \<and> enext (es' ! i) = enext (es ! i))
    \<Longrightarrow> dchain es' p xs q"
  by (induction xs arbitrary: p) auto

lemma fchain_frame:
  "fchain es xs \<Longrightarrow> (\<And>i. i \<in> set xs \<Longrightarrow> i < length es' \<and> enext (es' ! i) = enext (es ! i)) \<Longrightarrow> fchain es' xs"
  by (induction xs) auto

lemma dchain_upd [simp, chain_simps]: "i \<notin> set xs \<Longrightarrow> dchain (es[i := e]) p xs q = dchain es p xs q"
  by (induction xs arbitrary: p) auto

lemma fchain_upd [simp, chain_simps]: "i \<notin> set xs \<Longrightarrow> fchain (es[i := e]) xs = fchain es xs"
  by (induction xs) auto

lemma dchain_range: "dchain es p xs q \<Longrightarrow> i \<in> set xs \<Longrightarrow> i < length es"
  by (induction xs arbitrary: p) auto

lemma fchain_range: "fchain es xs \<Longrightarrow> i \<in> set xs \<Longrightarrow> i < length es"
  by (induction xs) auto

text \<open>Redirecting the first or the last link of a chain.\<close>

lemma dchain_first:
  assumes "dchain es p (y # ys) q" "distinct (y # ys)"
  shows "dchain (es[y := (es ! y)\<lparr>eprev := p'\<rparr>]) p' (y # ys) q"
  using assms by simp

lemma dchain_last:
  assumes "dchain es p (xs @ [a]) q" "distinct (xs @ [a])"
  shows "dchain (es[a := (es ! a)\<lparr>enext := q'\<rparr>]) p (xs @ [a]) q'"
  using assms by (simp add: dchain_append)

lemma head_or_neg: "q < 0 \<Longrightarrow> head_or xs q = q \<longleftrightarrow> xs = []"
  by (cases xs) auto

lemma last_or_neg: "p < 0 \<Longrightarrow> last_or xs p = p \<longleftrightarrow> xs = []"
  by (auto simp: last_or_def)

section \<open>The invariant\<close>

text \<open>
  \<open>bs\<close> are the occupied entries in order, \<open>fs\<close> the free ones: together they are the array.
\<close>

definition cbl_ok :: "('f, 'a) ccd_cblist \<Rightarrow> nat list \<Rightarrow> nat list \<Rightarrow> bool" where
  "cbl_ok l bs fs \<longleftrightarrow> distinct (bs @ fs) \<and> set (bs @ fs) = {..<length (elems l)} \<and> length (elems l) = maxlen l
    \<and> 0 < maxlen l \<and> maxlen l < 2 ^ 32 \<and> len l = length bs
    \<and> first l = head_or bs (- 1) \<and> clast l = last_or bs (- 1) \<and> first_free l = head_or fs (- 1)
    \<and> dchain (elems l) (- 1) bs (- 1) \<and> fchain (elems l) fs"

text \<open>The callbacks of the list with their indices, in the order of registration.\<close>

definition cbl_view :: "('f, 'a) ccd_cblist \<Rightarrow> nat list \<Rightarrow> (nat \<times> ('f, 'a) ccd_callback) list" where
  "cbl_view l bs = map (\<lambda>i. (i, cb (elems l ! i))) bs"

lemma cbl_ok_range: "cbl_ok l bs fs \<Longrightarrow> i \<in> set bs \<or> i \<in> set fs \<Longrightarrow> i < length (elems l)"
  unfolding cbl_ok_def using dchain_range fchain_range by blast

lemma cbl_ok_card:
  assumes "cbl_ok l bs fs"
  shows "length bs + length fs = length (elems l)"
proof -
  have "distinct (bs @ fs)" "set (bs @ fs) = {..<length (elems l)}" using assms unfolding cbl_ok_def by blast+
  then have "card {..<length (elems l)} = length (bs @ fs)" using distinct_card [of "bs @ fs"] by simp
  then show ?thesis by simp
qed

section \<open>Operations\<close>

lemma linked_elems_nth:
  "a \<le> i \<Longrightarrow> i < b \<Longrightarrow> linked_elems junk a b ! (i - a) = \<lparr>cb = junk, enext = int i + 1, eprev = int i - 1\<rparr>"
  using nth_upt [of a "i - a" b] by (simp add: linked_elems_def)

lemma length_linked_elems [simp]: "length (linked_elems junk a b) = b - a"
  by (simp add: linked_elems_def)

text \<open>Entries whose forward links count upwards form the free chain \<open>a, \<dots>, b - 1\<close>.\<close>

lemma fchain_upt:
  assumes "\<And>i. a \<le> i \<Longrightarrow> i < b \<Longrightarrow> i < length es \<and> enext (es ! i) = (if Suc i = b then - 1 else int i + 1)"
  shows "fchain es [a..<b]"
  using assms
proof (induction "b - a" arbitrary: a)
  case 0
  then show ?case by simp
next
  case (Suc k)
  then have "a < b" by simp
  then have up: "[a..<b] = a # [Suc a..<b]" by (simp add: upt_conv_Cons)
  have "fchain es [Suc a..<b]" using Suc by simp
  moreover have "head_or [Suc a..<b] (- 1) = (if Suc a = b then - 1 else int a + 1)"
    using \<open>a < b\<close> by (cases "Suc a < b") (simp_all add: upt_conv_Cons)
  ultimately show ?case using Suc.prems [of a] \<open>a < b\<close> by (simp add: up)
qed

lemma init_cblist_ok:
  assumes "0 < ml" "ml < 2 ^ 32"
  shows "\<exists>l. init_cblist junk ml = Some l \<and> cbl_ok l [] [0..<ml]"
proof -
  let ?es = "(linked_elems junk 0 ml)[ml - 1 := (linked_elems junk 0 ml ! (ml - 1))\<lparr>enext := - 1\<rparr>]"
  have "fchain ?es [0..<ml]"
    by (rule fchain_upt) (use linked_elems_nth [of 0 _ ml junk] in \<open>auto simp: nth_list_update\<close>)
  moreover have "head_or [0..<ml] (- 1) = 0" using assms by (cases ml) (simp_all add: upt_conv_Cons del: upt_Suc)
  ultimately show ?thesis using assms unfolding init_cblist_def by (auto simp: cbl_ok_def lessThan_atLeast0)
qed

text \<open>Expansion happens when all entries are occupied.\<close>

lemma expand_cblist_ok:
  assumes ok: "cbl_ok l bs []" and ml: "length bs < ml" "ml < 2 ^ 32"
  shows "\<exists>l'. expand_cblist junk l ml = Some l' \<and> cbl_ok l' bs [length bs..<ml] \<and> cbl_view l' bs = cbl_view l bs
    \<and> flag l' = flag l \<and> maxlen l' = ml"
proof -
  have l: "len l = length bs" "distinct bs" "set bs = {..<length (elems l)}" "length (elems l) = maxlen l"
    "dchain (elems l) (- 1) bs (- 1)" "first l = head_or bs (- 1)" "clast l = last_or bs (- 1)"
    using ok by (auto simp: cbl_ok_def)
  have n: "length (elems l) = length bs" using l(2,3) distinct_card [of bs] by simp
  let ?e0 = "elems l @ linked_elems junk (length bs) ml"
  let ?e1 = "?e0[ml - 1 := (?e0 ! (ml - 1))\<lparr>enext := - 1\<rparr>]"
  let ?e2 = "?e1[length bs := (?e1 ! length bs)\<lparr>eprev := - 1\<rparr>]"
  have old: "?e2 ! i = elems l ! i" if "i < length bs" for i
    using that n ml by (simp add: nth_append)
  have new: "?e2 ! i = \<lparr>cb = junk, enext = if Suc i = ml then - 1 else int i + 1, eprev = if i = length bs then - 1 else int i - 1\<rparr>"
    if "length bs \<le> i" "i < ml" for i
    using that n ml linked_elems_nth [of "length bs" i ml junk] by (auto simp: nth_append nth_list_update)
  have "fchain ?e2 [length bs..<ml]"
    by (rule fchain_upt) (use new n ml in auto)
  moreover have "dchain ?e2 (- 1) bs (- 1)"
    by (rule dchain_frame [OF l(5)]) (use old n ml l(3) in auto)
  moreover have "head_or [length bs..<ml] (- 1) = int (length bs)" using ml by (simp add: upt_conv_Cons)
  moreover have sb: "set bs = {..<length bs}" using l(3) n by simp
  then have "set (bs @ [length bs..<ml]) = {..<ml}" using ml(1) by (simp add: ivl_disj_un_one less_imp_le)
  moreover have "distinct (bs @ [length bs..<ml])" using sb l(2) ivl_disj_int_one(2) by simp
  moreover have "length ?e2 = ml" using n ml by simp
  ultimately have "cbl_ok (l\<lparr>elems := ?e2, maxlen := ml, first_free := int (length bs)\<rparr>) bs [length bs..<ml]"
    using l(1,6,7) ml by (simp add: cbl_ok_def)
  moreover have "cbl_view (l\<lparr>elems := ?e2, maxlen := ml, first_free := int (length bs)\<rparr>) bs = cbl_view l bs"
    unfolding cbl_view_def using old l(3) n by (auto intro!: map_cong)
  moreover have "expand_cblist junk l ml = Some (l\<lparr>elems := ?e2, maxlen := ml, first_free := int (length bs)\<rparr>)"
    unfolding expand_cblist_def using l(1) n ml by simp
  ultimately show ?thesis by (intro exI [of _ "l\<lparr>elems := ?e2, maxlen := ml, first_free := int (length bs)\<rparr>"]) simp
qed

text \<open>Appending takes the first free entry; the other entries keep their places.\<close>

lemma append_free:
  assumes ok: "cbl_ok l bs (f # fs)" and nf: "len l \<noteq> maxlen l"
  shows "\<exists>l'. append_elem junk l c = Some (int f, l') \<and> cbl_ok l' (bs @ [f]) fs
    \<and> cbl_view l' (bs @ [f]) = cbl_view l bs @ [(f, c)] \<and> flag l' = flag l \<and> maxlen l' = maxlen l"
proof -
  have l: "first_free l = int f" "distinct (bs @ f # fs)" "set (bs @ f # fs) = {..<length (elems l)}"
    "dchain (elems l) (- 1) bs (- 1)" "fchain (elems l) (f # fs)" "first l = head_or bs (- 1)" "clast l = last_or bs (- 1)"
    "len l = length bs" "length (elems l) = maxlen l" "maxlen l < 2 ^ 32"
    using ok by (auto simp: cbl_ok_def)
  have "f \<in> {..<length (elems l)}" unfolding l(3) [symmetric] by simp
  then have f: "f < length (elems l)" "f \<notin> set bs" "f \<notin> set fs" using l(2) by auto
  have parts: "set ((bs @ [f]) @ fs) = {..<length (elems l)}" "distinct ((bs @ [f]) @ fs)" using l(2,3) by simp_all
  have lt: "length bs < 2 ^ 32 - 1"
    using cbl_ok_card [OF ok] l(9,10) by simp
  let ?es = "(elems l)[f := (elems l ! f)\<lparr>enext := - 1, eprev := clast l\<rparr>]"
  have len: "(len l + 1) mod 2 ^ 32 = length (bs @ [f])" using lt l(8) by simp
  show ?thesis
  proof (cases "bs = []")
    case True
    let ?e3 = "?es[f := (?es ! f)\<lparr>cb := c\<rparr>]"
    let ?l = "l\<lparr>first_free := enext (elems l ! f), first := int f, clast := int f, elems := ?e3, len := length (bs @ [f])\<rparr>"
    have "append_elem junk l c = Some (int f, ?l)"
      unfolding append_elem_def using nf l f True len by (simp add: Let_def)
    moreover have "cbl_ok ?l (bs @ [f]) fs"
      unfolding cbl_ok_def using parts l(4-10) f True lt by simp
    ultimately show ?thesis using True f by (intro exI [of _ ?l]) (simp add: cbl_view_def)
  next
    case False
    then obtain xs a where bs: "bs = xs @ [a]" by (metis rev_exhaust)
    have "a \<in> {..<length (elems l)}" unfolding l(3) [symmetric] bs by simp
    then have a: "a < length (elems l)" "a \<noteq> f" "a \<notin> set fs" using l(2) bs by auto
    let ?e2 = "?es[a := (?es ! a)\<lparr>enext := int f\<rparr>]"
    let ?e3 = "?e2[f := (?e2 ! f)\<lparr>cb := c\<rparr>]"
    let ?l = "l\<lparr>first_free := enext (elems l ! f), clast := int f, elems := ?e3, len := length (bs @ [f])\<rparr>"
    have "head_or (xs @ [a]) (- 1) \<noteq> - 1" by (cases xs) simp_all
    then have ne: "first l \<noteq> - 1" "clast l = int a" using l(6,7) bs by simp_all
    have "append_elem junk l c = Some (int f, ?l)"
      unfolding append_elem_def using nf l(1) f a ne len by (simp add: Let_def)
    moreover have "cbl_ok ?l (bs @ [f]) fs"
    proof -
      have "dchain ?es (- 1) (xs @ [a]) (- 1)" using l(4) f bs by simp
      then have "dchain ?e2 (- 1) (xs @ [a]) (int f)" by (rule dchain_last) (use l(2) bs in simp)
      then have "dchain ?e3 (- 1) (bs @ [f]) (- 1)"
        using f a bs ne by (simp add: dchain_append)
      moreover have "fchain ?e3 fs" using l(5) f a by simp
      moreover have "maxlen l > 0" "first l = head_or (bs @ [f]) (- 1)" using f l(6,9) bs by simp_all
      ultimately show ?thesis unfolding cbl_ok_def using parts l(5,9,10) lt by simp
    qed
    moreover have "cbl_view ?l (bs @ [f]) = cbl_view l bs @ [(f, c)]"
    proof -
      have "cb (?e3 ! i) = (if i = f then c else cb (elems l ! i))" for i
        using f(1) by (cases "i = f") (simp_all add: nth_update_proj)
      then show ?thesis using f(2) by (auto simp: cbl_view_def)
    qed
    ultimately show ?thesis by (intro exI [of _ ?l]) simp
  qed
qed

lemma append_elem_ok:
  assumes ok: "cbl_ok l bs fs" and room: "len l < 2 ^ 31"
  shows "\<exists>idx l' fs'. append_elem junk l c = Some (int idx, l') \<and> idx \<notin> set bs \<and> cbl_ok l' (bs @ [idx]) fs'
    \<and> cbl_view l' (bs @ [idx]) = cbl_view l bs @ [(idx, c)] \<and> flag l' = flag l"
proof (cases "len l = maxlen l")
  case False
  have "fs \<noteq> []"
  proof
    assume "fs = []"
    then have "len l = maxlen l" using ok distinct_card [of bs] by (auto simp: cbl_ok_def)
    with False show False by simp
  qed
  then obtain f fs' where fs: "fs = f # fs'" by (cases fs) auto
  have "f \<notin> set bs" using ok fs by (auto simp: cbl_ok_def)
  then show ?thesis using append_free [OF ok [unfolded fs] False, of junk c] by blast
next
  case True
  have "length (bs @ fs) = length (elems l)" using ok distinct_card [of "bs @ fs"] by (simp add: cbl_ok_def)
  then have "fs = []" using ok True by (simp add: cbl_ok_def)
  with ok have ok': "cbl_ok l bs []" by simp
  have ml: "(maxlen l * 2) mod 2 ^ 32 = maxlen l * 2" using True room by simp
  have n: "length bs < maxlen l * 2" "maxlen l * 2 < 2 ^ 32" using ok True room by (auto simp: cbl_ok_def)
  from expand_cblist_ok [OF ok' n] obtain l1 where l1: "expand_cblist junk l (maxlen l * 2) = Some l1"
    "cbl_ok l1 bs [length bs..<maxlen l * 2]" "cbl_view l1 bs = cbl_view l bs" "flag l1 = flag l" "maxlen l1 = maxlen l * 2"
    by blast
  have up: "[length bs..<maxlen l * 2] = length bs # [Suc (length bs)..<maxlen l * 2]"
    using n(1) by (simp add: upt_conv_Cons)
  have nf: "len l1 \<noteq> maxlen l1" using l1(2,5) n(1) by (simp add: cbl_ok_def)
  have "append_elem junk l c = append_elem junk l1 c"
    unfolding append_elem_def using True ml l1(1) nf by simp
  moreover have "length (elems l) = length bs" using ok True by (simp add: cbl_ok_def)
  then have "length bs \<notin> set bs" using cbl_ok_range [OF ok, of "length bs"] by auto
  moreover from append_free [OF l1(2) [unfolded up] nf, of junk c] obtain l' where
    "append_elem junk l1 c = Some (int (length bs), l')" "cbl_ok l' (bs @ [length bs]) [Suc (length bs)..<maxlen l * 2]"
    "cbl_view l' (bs @ [length bs]) = cbl_view l bs @ [(length bs, c)]" "flag l' = flag l"
    unfolding l1(3,4) by blast
  ultimately show ?thesis by metis
qed

text \<open>Removing an entry from anywhere in the list puts it at the head of the free list.\<close>

lemma remove_relink:
  assumes ch: "dchain es (- 1) (xs @ i # ys) (- 1)" and d: "distinct (xs @ i # ys)"
  defines "es1 \<equiv> (case ys of [] \<Rightarrow> es | y # _ \<Rightarrow> es[y := (es ! y)\<lparr>eprev := eprev (es ! i)\<rparr>])"
  defines "es2 \<equiv> (if xs = [] then es1 else es1[last xs := (es1 ! last xs)\<lparr>enext := enext (es1 ! i)\<rparr>])"
  shows "dchain es2 (- 1) (xs @ ys) (- 1)" "es1 ! i = es ! i" "es2 ! i = es ! i" "length es2 = length es" "length es1 = length es"
    "\<And>j. cb (es2 ! j) = cb (es ! j)" "\<And>j. j \<notin> set xs \<union> set ys \<Longrightarrow> es2 ! j = es ! j"
proof -
  have parts: "dchain es (- 1) xs (int i)" "i < length es" "eprev (es ! i) = last_or xs (- 1)"
    "enext (es ! i) = head_or ys (- 1)" "dchain es (int i) ys (- 1)"
    using ch by (simp_all add: dchain_append)
  have c1: "dchain es1 (last_or xs (- 1)) ys (- 1)" "dchain es1 (- 1) xs (int i)"
  proof -
    show "dchain es1 (last_or xs (- 1)) ys (- 1)"
    proof (cases ys)
      case (Cons y ys')
      then show ?thesis using dchain_first [of es "int i" y ys' "- 1" "last_or xs (- 1)"] parts d by (simp add: es1_def)
    qed simp
    show "dchain es1 (- 1) xs (int i)" using parts(1) d by (cases ys) (auto simp: es1_def)
  qed
  have e1: "es1 ! i = es ! i" "length es1 = length es" using d by (auto simp: es1_def split: list.split)
  show "es1 ! i = es ! i" "length es1 = length es" by (fact e1)+
  show "dchain es2 (- 1) (xs @ ys) (- 1)"
  proof (cases xs rule: rev_cases)
    case Nil
    then show ?thesis using c1 by (simp add: es2_def)
  next
    case (snoc xs' a)
    have "dchain es2 (- 1) (xs' @ [a]) (head_or ys (- 1))"
      using dchain_last [of es1 "- 1" xs' a "int i" "head_or ys (- 1)"] c1(2) d snoc e1 parts(4) by (simp add: es2_def)
    moreover have "dchain es2 (int a) ys (- 1)" using c1(1) d snoc by (simp add: es2_def)
    ultimately show ?thesis using snoc by (simp add: dchain_append)
  qed
  show "es2 ! i = es ! i" using e1 d by (cases xs rule: rev_cases) (auto simp: es2_def)
  show "length es2 = length es" using e1 by (simp add: es2_def)
  show "cb (es2 ! j) = cb (es ! j)" for j
  proof -
    have "cb (es1 ! j) = cb (es ! j)" for j by (simp add: es1_def nth_update_proj split: list.split)
    then show ?thesis by (simp add: es2_def nth_update_proj)
  qed
  show "es2 ! j = es ! j" if "j \<notin> set xs \<union> set ys" for j
    using that by (cases xs rule: rev_cases; cases ys) (auto simp: es2_def es1_def)
qed

lemma remove_elem_ok:
  assumes ok: "cbl_ok l (xs @ i # ys) fs"
  shows "\<exists>l'. remove_elem l (int i) = Some l' \<and> cbl_ok l' (xs @ ys) (i # fs) \<and> cbl_view l' (xs @ ys) = cbl_view l (xs @ ys)
    \<and> flag l' = flag l"
proof -
  let ?es = "elems l"
  have l: "distinct (xs @ i # ys @ fs)" "set (xs @ i # ys @ fs) = {..<length ?es}" "length ?es = maxlen l" "maxlen l < 2 ^ 32"
    "len l = length xs + length ys + 1" "first l = head_or (xs @ i # ys) (- 1)" "clast l = last_or (xs @ i # ys) (- 1)"
    "first_free l = head_or fs (- 1)" "dchain ?es (- 1) (xs @ i # ys) (- 1)" "fchain ?es fs"
    using ok by (auto simp: cbl_ok_def)
  define es1 where "es1 = (case ys of [] \<Rightarrow> ?es | y # _ \<Rightarrow> ?es[y := (?es ! y)\<lparr>eprev := eprev (?es ! i)\<rparr>])"
  define es2 where "es2 = (if xs = [] then es1 else es1[last xs := (es1 ! last xs)\<lparr>enext := enext (es1 ! i)\<rparr>])"
  have d: "distinct (xs @ i # ys)" using l(1) by auto
  note rl = remove_relink [OF l(9) d, folded es1_def, folded es2_def]
  define es3 where "es3 = es2[i := (es2 ! i)\<lparr>eprev := - 1, enext := first_free l\<rparr>]"
  define es4 where "es4 = (case fs of [] \<Rightarrow> es3 | f # _ \<Rightarrow> es3[f := (es3 ! f)\<lparr>eprev := int i\<rparr>])"
  have lt: "i < length ?es" "\<And>j. j \<in> set xs \<union> set ys \<union> set fs \<Longrightarrow> j < length ?es" using l(2) by auto
  have nx: "enext (?es ! i) = head_or ys (- 1)" "eprev (?es ! i) = last_or xs (- 1)" using l(9) by (simp_all add: dchain_append)
  have s1: "(if enext (?es ! i) \<noteq> - 1 then arr_upd ?es (enext (?es ! i)) (\<lambda>x. x\<lparr>eprev := eprev (?es ! i)\<rparr>) else Some ?es) = Some es1"
    using lt(2) by (cases ys) (simp_all add: nx(1) es1_def)
  have s2: "(if eprev (?es ! i) \<noteq> - 1 then arr_upd es1 (eprev (?es ! i)) (\<lambda>x. x\<lparr>enext := enext (?es ! i)\<rparr>) else Some es1) = Some es2"
    using lt(2) rl(2,5) by (cases xs rule: rev_cases) (simp_all add: nx(2) es2_def)
  have s3: "arr_upd es2 (int i) (\<lambda>x. x\<lparr>eprev := - 1, enext := first_free l\<rparr>) = Some es3"
    using lt(1) rl(4) by (simp add: es3_def)
  have s4: "(if first_free l \<noteq> - 1 then arr_upd es3 (first_free l) (\<lambda>x. x\<lparr>eprev := int i\<rparr>) else Some es3) = Some es4"
    using lt(2) rl(4) l(8) by (cases fs) (simp_all add: es4_def es3_def)
  have fst: "(if int i = first l then enext (?es ! i) else first l) = head_or (xs @ ys) (- 1)"
    using l(1,6) nx(1) by (cases xs) auto
  have lst: "(if int i = clast l then eprev (?es ! i) else clast l) = last_or (xs @ ys) (- 1)"
    using l(1,7) nx(2) by (cases ys rule: rev_cases) (auto simp: last_or_def)
  have len: "(len l + 2 ^ 32 - 1) mod 2 ^ 32 = length (xs @ ys)"
  proof -
    from cbl_ok_card [OF ok] have "len l + 2 ^ 32 - 1 = (length xs + length ys) + 2 ^ 32" "length xs + length ys < 2 ^ 32"
      using l(3,4,5) by simp_all
    then show ?thesis by simp
  qed
  let ?l = "l\<lparr>first := head_or (xs @ ys) (- 1), clast := last_or (xs @ ys) (- 1), elems := es4, first_free := int i, len := length (xs @ ys)\<rparr>"
  have "remove_elem l (int i) = Some ?l"
    unfolding remove_elem_def using lt(1) rl(2-5) s1 s2 s3 s4 fst lst len
    by (simp add: Let_def split del: if_split cong del: if_weak_cong)
  moreover have "cbl_ok ?l (xs @ ys) (i # fs)"
  proof -
    have "dchain es4 (- 1) (xs @ ys) (- 1)"
      using rl(1) l(1) by (auto simp: es4_def es3_def split: list.split)
    moreover have "fchain es4 (i # fs)"
    proof -
      have "j \<notin> set xs \<union> set ys" if "j \<in> set fs" for j using that l(1) by auto
      then have f2: "fchain es2 fs" using rl(4,7) lt(2) by (intro fchain_frame [OF l(10)]) auto
      show ?thesis
      proof (cases fs)
        case Nil
        then show ?thesis using lt(1) rl(4) l(8) by (simp add: es4_def es3_def)
      next
        case (Cons f fs')
        then show ?thesis using lt rl(4) l(1,8) f2 by (simp add: es4_def es3_def)
      qed
    qed
    moreover have "length es4 = length ?es" using rl(4) by (simp add: es4_def es3_def split: list.split)
    ultimately show ?thesis using l ok by (auto simp: cbl_ok_def)
  qed
  moreover have "cbl_view ?l (xs @ ys) = cbl_view l (xs @ ys)"
  proof -
    have "cb (es4 ! j) = cb (?es ! j)" for j
      using rl(6) by (simp add: es4_def es3_def nth_update_proj split: list.split)
    then show ?thesis by (simp add: cbl_view_def)
  qed
  ultimately show ?thesis by auto
qed

lemma remove_firsts_ok:
  assumes "cbl_ok l (xs @ bs) fs"
  shows "\<exists>l'. remove_firsts (length xs) l = Some l' \<and> cbl_ok l' bs (rev xs @ fs) \<and> cbl_view l' bs = cbl_view l bs
    \<and> flag l' = flag l"
  using assms
proof (induction xs arbitrary: l fs)
  case Nil
  then show ?case by simp
next
  case (Cons x xs)
  have "first l = int x" using Cons.prems by (simp add: cbl_ok_def)
  moreover from remove_elem_ok [of l "[]" x "xs @ bs" fs] Cons.prems obtain l1 where
    l1: "remove_elem l (int x) = Some l1" "cbl_ok l1 (xs @ bs) (x # fs)" "cbl_view l1 (xs @ bs) = cbl_view l (xs @ bs)"
      "flag l1 = flag l" by auto
  moreover have "cbl_view l1 bs = cbl_view l bs" using l1(3) by (simp add: cbl_view_def)
  ultimately show ?case using Cons.IH [OF l1(2)] by auto
qed

lemma remove_n_elems_ok:
  assumes "cbl_ok l (xs @ bs) fs"
  shows "\<exists>l' fs'. remove_n_elems l (length xs) = Some l' \<and> cbl_ok l' bs fs' \<and> cbl_view l' bs = cbl_view l bs
    \<and> flag l' = flag l"
proof (cases xs)
  case Nil
  then show ?thesis using assms by (auto simp: remove_n_elems_def)
next
  case (Cons x xs')
  have "\<not> len l < length xs" using assms by (simp add: cbl_ok_def)
  then show ?thesis using remove_firsts_ok [OF assms] Cons by (auto simp: remove_n_elems_def)
qed

end
