(* ===== verification/Ccd_Heap.thy ===== *)
theory Ccd_Heap
  imports Ccd_List Array_Heap
begin

text \<open>
  The timer heap of \<^verbatim>\<open>src/conv-core/conv-conds.c\<close>: callbacks ordered by the time they are due,
  in a binary heap at the indices \<open>1, \<dots>, ccd_heaplen\<close>. The second half of the same array, from
  index \<open>ccd_heapmaxlen\<close> on, receives the entries that are due. Times are real numbers.
\<close>

section \<open>Data and operations\<close>

record ('f, 'a) ccd_heap_elem =
  etime :: real
  ecb :: "('f, 'a) ccd_callback"

text \<open>\<open>block\<close> tells which allocation \<open>ccd_heap_arr\<close> points to: an expansion frees the old one.\<close>

record ('f, 'a) ccd_timers =
  ccd_heap_arr :: "('f, 'a) ccd_heap_elem list"
  ccd_heaplen :: nat
  ccd_heapmaxlen :: nat
  block :: nat

definition MAXTIMERHEAPENTRIES :: nat where "MAXTIMERHEAPENTRIES = 128"

definition ccd_heap_swap :: "('f, 'a) ccd_heap_elem list \<Rightarrow> nat \<Rightarrow> nat \<Rightarrow> ('f, 'a) ccd_heap_elem list" where
  "ccd_heap_swap h index1 index2 = (let temp = h ! index1; h = h[index1 := h ! index2] in h[index2 := temp])"

definition expand_ccd_heap :: "('f, 'a) ccd_heap_elem \<Rightarrow> ('f, 'a) ccd_timers \<Rightarrow> ('f, 'a) ccd_timers" where
  "expand_ccd_heap junk t =
    (let oldlen = ccd_heapmaxlen t; newlen = oldlen * 2;
         newheap = fold (\<lambda>i nh. (nh[i := ccd_heap_arr t ! i])[i + newlen := ccd_heap_arr t ! (i + oldlen)])
           [0..<oldlen + 1] (replicate (2 * (newlen + 1)) junk)
     in t\<lparr>ccd_heap_arr := newheap, ccd_heapmaxlen := newlen, block := block t + 1\<rparr>)"

fun heap_insert_loop :: "('f, 'a) ccd_heap_elem list \<Rightarrow> nat \<Rightarrow> ('f, 'a) ccd_heap_elem list" where
  "heap_insert_loop h child =
    (let parent = child div 2 in
     if parent > 0 \<and> etime (h ! child) < etime (h ! parent)
     then heap_insert_loop (ccd_heap_swap h child parent) parent
     else h)"

declare heap_insert_loop.simps [simp del]

definition ccd_heap_insert :: "('f, 'a) ccd_heap_elem \<Rightarrow> real \<Rightarrow> ('f, 'a) ccd_callback \<Rightarrow> ('f, 'a) ccd_timers \<Rightarrow> ('f, 'a) ccd_timers" where
  "ccd_heap_insert junk t c st =
    (let st = (if ccd_heaplen st \<ge> ccd_heapmaxlen st then expand_ccd_heap junk st else st);
         n = ccd_heaplen st + 1;
         h = (ccd_heap_arr st)[n := \<lparr>etime = t, ecb = c\<rparr>]
     in st\<lparr>ccd_heaplen := n, ccd_heap_arr := heap_insert_loop h n\<rparr>)"

text \<open>\<open>parent\<close> starts at 1; the test for 0 only makes the recursion well-founded.\<close>

function heap_remove_loop :: "('f, 'a) ccd_heap_elem list \<Rightarrow> nat \<Rightarrow> nat \<Rightarrow> ('f, 'a) ccd_heap_elem list" where
  "heap_remove_loop h n parent =
    (if parent = 0 \<or> 2 * parent > n then h
     else
       let child = (if 2 * parent + 1 \<le> n \<and> etime (h ! (2 * parent)) > etime (h ! (2 * parent + 1))
                    then 2 * parent + 1 else 2 * parent)
       in if etime (h ! parent) \<le> etime (h ! child) then h
          else heap_remove_loop (ccd_heap_swap h parent child) n child)"
  by pat_completeness auto
termination
  by (relation "measure (\<lambda>(h, n, parent). n - parent)") (auto simp: Let_def split: if_splits)

declare heap_remove_loop.simps [simp del]

definition ccd_heap_remove :: "('f, 'a) ccd_timers \<Rightarrow> ('f, 'a) ccd_timers" where
  "ccd_heap_remove st =
    (if ccd_heaplen st > 0 then
       let h = ccd_heap_swap (ccd_heap_arr st) 1 (ccd_heaplen st);
           n = ccd_heaplen st - 1
       in st\<lparr>ccd_heaplen := n, ccd_heap_arr := if n > 0 then heap_remove_loop h n 1 else h\<rparr>
     else st)"

text \<open>The first loop of \<open>ccd_heap_update\<close>: move the entries that are due behind the heap.\<close>

function pull_expired :: "real \<Rightarrow> ('f, 'a) ccd_timers \<Rightarrow> nat \<Rightarrow> ('f, 'a) ccd_timers \<times> nat" where
  "pull_expired curWallTime st ne =
    (if ccd_heaplen st > 0 \<and> etime (ccd_heap_arr st ! 1) < curWallTime then
       pull_expired curWallTime
         (ccd_heap_remove (st\<lparr>ccd_heap_arr := (ccd_heap_arr st)[ccd_heapmaxlen st + ne := ccd_heap_arr st ! 1]\<rparr>)) (ne + 1)
     else (st, ne))"
  by pat_completeness auto
termination
  by (relation "measure (\<lambda>(t, st, ne). ccd_heaplen st)") (auto simp: ccd_heap_remove_def Let_def)

declare pull_expired.simps [simp del]

section \<open>The heap\<close>

interpretation tmh: array_heap "Suc 0" "\<lambda>i. i div 2"
  "\<lambda>x y :: ('f, 'a) ccd_heap_elem. etime x \<le> etime y"
  by unfold_locales auto

lemma ccd_heap_swap_eq: "ccd_heap_swap h i j = swap h i j"
  by (simp add: ccd_heap_swap_def swap_def Let_def)

definition timers_ok :: "('f, 'a) ccd_timers \<Rightarrow> bool" where
  "timers_ok st \<longleftrightarrow> ccd_heaplen st \<le> ccd_heapmaxlen st \<and> length (ccd_heap_arr st) = 2 * (ccd_heapmaxlen st + 1)
    \<and> tmh.heap_ok (ccd_heap_arr st) (ccd_heaplen st + 1)"

text \<open>The scheduled callbacks.\<close>

definition timers_view :: "('f, 'a) ccd_timers \<Rightarrow> ('f, 'a) ccd_heap_elem list" where
  "timers_view st = slice (Suc 0) (ccd_heaplen st + 1) (ccd_heap_arr st)"

lemma heap_insert_loop_ok:
  assumes "0 < c" "c < hi" "hi \<le> length h" "tmh.up_ok h hi c"
  shows "tmh.heap_ok (heap_insert_loop h c) hi \<and> length (heap_insert_loop h c) = length h
    \<and> mset (slice (Suc 0) hi (heap_insert_loop h c)) = mset (slice (Suc 0) hi h)
    \<and> (\<forall>j \<ge> hi. heap_insert_loop h c ! j = h ! j)"
  using assms
proof (induction h c rule: heap_insert_loop.induct)
  case (1 h c)
  let ?p = "c div 2"
  show ?case
  proof (cases "?p > 0 \<and> etime (h ! c) < etime (h ! ?p)")
    case True
    then have p: "Suc 0 < c" "?p < c" "0 < ?p" "etime (h ! c) \<le> etime (h ! ?p)" by auto
    have up: "tmh.up_ok (swap h c ?p) hi ?p" using tmh.up_step [OF "1.prems"(4) p(1) "1.prems"(2,3)] p(4) by simp
    have m: "mset (slice (Suc 0) hi (swap h c ?p)) = mset (slice (Suc 0) hi h)"
      using "1.prems" p by (intro mset_slice_swap) auto
    have out: "\<forall>j \<ge> hi. swap h c ?p ! j = h ! j" using "1.prems" p by (simp add: nth_swap)
    have "heap_insert_loop h c = heap_insert_loop (swap h c ?p) ?p"
      using True by (subst heap_insert_loop.simps) (simp add: Let_def ccd_heap_swap_eq)
    then show ?thesis
      using "1.IH" [OF refl] True p "1.prems" up m out by (simp add: ccd_heap_swap_eq)
  next
    case False
    then have "c = Suc 0 \<or> etime (h ! ?p) \<le> etime (h ! c)" using "1.prems"(1) by (cases "c = Suc 0") auto
    then have "tmh.heap_ok h hi" by (rule tmh.up_done [OF "1.prems"(4)])
    then show ?thesis using False by (subst (1 2 3 4) heap_insert_loop.simps) (auto simp: Let_def)
  qed
qed

lemma heap_remove_loop_ok:
  assumes "0 < p" "p \<le> n" "n < length h" "tmh.down_ok h (n + 1) p"
  shows "tmh.heap_ok (heap_remove_loop h n p) (n + 1) \<and> length (heap_remove_loop h n p) = length h
    \<and> mset (slice (Suc 0) (n + 1) (heap_remove_loop h n p)) = mset (slice (Suc 0) (n + 1) h)
    \<and> (\<forall>j > n. heap_remove_loop h n p ! j = h ! j)"
  using assms
proof (induction h n p rule: heap_remove_loop.induct)
  case (1 h n p)
  have children: "c = 2 * p \<or> c = 2 * p + 1" if "Suc 0 < c" "c div 2 = p" for c using that by auto
  show ?case
  proof (cases "2 * p > n")
    case True
    then have "tmh.heap_ok h (n + 1)" using tmh.down_done [OF "1.prems"(4)] children by fastforce
    then show ?thesis using True by (simp add: heap_remove_loop.simps)
  next
    case False
    define c where "c = (if 2 * p + 1 \<le> n \<and> etime (h ! (2 * p)) > etime (h ! (2 * p + 1)) then 2 * p + 1 else 2 * p)"
    have c: "p < c" "c \<le> n" "c div 2 = p" "Suc 0 < c" using False "1.prems"(1) by (auto simp: c_def)
    have min: "etime (h ! c) \<le> etime (h ! d)" if "Suc 0 < d" "d < n + 1" "d div 2 = p" for d
      using children [OF that(1,3)] that(2) by (auto simp: c_def)
    have unfold: "heap_remove_loop h n p = (if etime (h ! p) \<le> etime (h ! c) then h else heap_remove_loop (swap h p c) n c)"
      using False "1.prems"(1) by (subst heap_remove_loop.simps) (simp add: Let_def c_def ccd_heap_swap_eq)
    show ?thesis
    proof (cases "etime (h ! p) \<le> etime (h ! c)")
      case True
      then have "tmh.heap_ok h (n + 1)" using tmh.down_done [OF "1.prems"(4)] min by fastforce
      then show ?thesis using True unfold by simp
    next
      case gt: False
      have dn: "tmh.down_ok (swap h p c) (n + 1) c"
        using tmh.down_step [OF "1.prems"(4), of c] c min gt "1.prems" by simp
      have m: "mset (slice (Suc 0) (n + 1) (swap h p c)) = mset (slice (Suc 0) (n + 1) h)"
        using c "1.prems" by (intro mset_slice_swap) auto
      have out: "\<forall>j > n. swap h p c ! j = h ! j" using c "1.prems" by (simp add: nth_swap)
      have "\<not> (p = 0 \<or> n < 2 * p)" using False "1.prems"(1) by simp
      from "1.IH" [OF this c_def gt] show ?thesis
        using c "1.prems" dn m out unfold gt by (simp add: ccd_heap_swap_eq)
    qed
  qed
qed

section \<open>Scheduling a callback\<close>

lemma expand_copies:
  assumes "k \<le> d" "k + d \<le> length nh"
  shows "length (fold (\<lambda>i nh. (nh[i := f i])[i + d := g i]) [0..<k] nh) = length nh
    \<and> (\<forall>j < k. fold (\<lambda>i nh. (nh[i := f i])[i + d := g i]) [0..<k] nh ! j = f j)"
  using assms by (induction k) (auto simp: nth_list_update less_Suc_eq)

lemma expand_ccd_heap_ok:
  assumes ok: "timers_ok st" and pos: "0 < ccd_heapmaxlen st"
  shows "timers_ok (expand_ccd_heap junk st)" "timers_view (expand_ccd_heap junk st) = timers_view st"
    "ccd_heaplen (expand_ccd_heap junk st) = ccd_heaplen st" "ccd_heapmaxlen (expand_ccd_heap junk st) = 2 * ccd_heapmaxlen st"
    "block (expand_ccd_heap junk st) = block st + 1"
proof -
  let ?m = "ccd_heapmaxlen st" and ?h = "ccd_heap_arr (expand_ccd_heap junk st)"
  have "?m + 1 \<le> ?m * 2" "?m + 1 + ?m * 2 \<le> length (replicate (2 * (?m * 2 + 1)) junk)" using pos by simp_all
  note c = expand_copies [OF this, of "\<lambda>i. ccd_heap_arr st ! i" "\<lambda>i. ccd_heap_arr st ! (i + ?m)"]
  have len: "length ?h = 2 * (2 * ?m + 1)" and old: "\<And>j. j \<le> ?m \<Longrightarrow> ?h ! j = ccd_heap_arr st ! j"
    using c by (simp_all add: expand_ccd_heap_def Let_def del: upt_Suc)
  show hl: "ccd_heaplen (expand_ccd_heap junk st) = ccd_heaplen st" "ccd_heapmaxlen (expand_ccd_heap junk st) = 2 * ?m"
    "block (expand_ccd_heap junk st) = block st + 1"
    by (simp_all add: expand_ccd_heap_def Let_def)
  have le: "ccd_heaplen st \<le> ?m" "length (ccd_heap_arr st) = 2 * (?m + 1)" using ok by (simp_all add: timers_ok_def)
  have "tmh.heap_ok ?h (ccd_heaplen st + 1)"
    unfolding tmh.heap_ok_def
  proof (intro allI impI)
    fix i assume i: "Suc 0 < i \<and> i < ccd_heaplen st + 1"
    then have "i div 2 \<le> ?m" "i \<le> ?m" using le(1) by auto
    then show "etime (?h ! (i div 2)) \<le> etime (?h ! i)" using ok i by (simp add: old timers_ok_def tmh.heap_ok_def)
  qed
  then show "timers_ok (expand_ccd_heap junk st)" using hl len le(1) by (simp add: timers_ok_def)
  show "timers_view (expand_ccd_heap junk st) = timers_view st"
    unfolding timers_view_def hl using old le len by (auto simp: slice_map)
qed

lemma insert_room:
  assumes ok: "timers_ok st" and room: "ccd_heaplen st < ccd_heapmaxlen st"
  shows "timers_ok (ccd_heap_insert junk t c st)
    \<and> mset (timers_view (ccd_heap_insert junk t c st)) = add_mset \<lparr>etime = t, ecb = c\<rparr> (mset (timers_view st))
    \<and> ccd_heaplen (ccd_heap_insert junk t c st) = ccd_heaplen st + 1 \<and> ccd_heapmaxlen (ccd_heap_insert junk t c st) = ccd_heapmaxlen st
    \<and> block (ccd_heap_insert junk t c st) = block st
    \<and> (\<forall>j > ccd_heapmaxlen st. ccd_heap_arr (ccd_heap_insert junk t c st) ! j = ccd_heap_arr st ! j)"
proof -
  let ?n = "ccd_heaplen st + 1" and ?h = "(ccd_heap_arr st)[ccd_heaplen st + 1 := \<lparr>etime = t, ecb = c\<rparr>]"
  have len: "length (ccd_heap_arr st) = 2 * (ccd_heapmaxlen st + 1)" and hp: "tmh.heap_ok (ccd_heap_arr st) ?n"
    using ok by (simp_all add: timers_ok_def)
  have up: "tmh.up_ok ?h (Suc ?n) ?n" using tmh.up_ok_append [OF hp] len room by simp
  have l: "0 < ?n" "?n < Suc ?n" "Suc ?n \<le> length ?h" using len room by auto
  note loop = heap_insert_loop_ok [OF l up]
  have "slice (Suc 0) (Suc ?n) ?h = slice (Suc 0) ?n (ccd_heap_arr st) @ [\<lparr>etime = t, ecb = c\<rparr>]"
    using len room by (simp add: slice_Suc slice_update_out)
  then show ?thesis using loop len room
    by (simp add: ccd_heap_insert_def Let_def timers_ok_def timers_view_def)
qed

lemma ccd_heap_insert_ok:
  assumes ok: "timers_ok st" and pos: "0 < ccd_heapmaxlen st"
  shows "timers_ok (ccd_heap_insert junk t c st)
    \<and> mset (timers_view (ccd_heap_insert junk t c st)) = add_mset \<lparr>etime = t, ecb = c\<rparr> (mset (timers_view st))
    \<and> ccd_heaplen (ccd_heap_insert junk t c st) = ccd_heaplen st + 1 \<and> 0 < ccd_heapmaxlen (ccd_heap_insert junk t c st)"
proof (cases "ccd_heaplen st < ccd_heapmaxlen st")
  case True
  then show ?thesis using insert_room [OF ok True, of junk t c] pos by simp
next
  case False
  let ?s = "expand_ccd_heap junk st"
  note e = expand_ccd_heap_ok [OF ok pos, of junk]
  have full: "ccd_heaplen st = ccd_heapmaxlen st" using ok False by (simp add: timers_ok_def)
  have room: "ccd_heaplen ?s < ccd_heapmaxlen ?s" using e full pos by simp
  have "ccd_heap_insert junk t c st = ccd_heap_insert junk t c ?s"
    using False room by (simp add: ccd_heap_insert_def Let_def)
  then show ?thesis using insert_room [OF e(1) room, of junk t c] e pos by simp
qed

section \<open>Taking the callbacks that are due\<close>

lemma down_ok_root_cong:
  assumes "tmh.down_ok h hi (Suc 0)" "\<And>i. 0 < i \<Longrightarrow> i < hi \<Longrightarrow> h' ! i = h ! i"
  shows "tmh.down_ok h' hi (Suc 0)"
  using assms unfolding tmh.down_ok_def by (auto simp: div_eq_0_iff)

lemma ccd_heap_remove_ok:
  assumes ok: "timers_ok st" and pos: "0 < ccd_heaplen st"
  shows "timers_ok (ccd_heap_remove st)
    \<and> mset (timers_view st) = add_mset (ccd_heap_arr st ! 1) (mset (timers_view (ccd_heap_remove st)))
    \<and> ccd_heaplen (ccd_heap_remove st) = ccd_heaplen st - 1 \<and> ccd_heapmaxlen (ccd_heap_remove st) = ccd_heapmaxlen st
    \<and> block (ccd_heap_remove st) = block st
    \<and> (\<forall>j > ccd_heaplen st. ccd_heap_arr (ccd_heap_remove st) ! j = ccd_heap_arr st ! j)"
proof -
  let ?n = "ccd_heaplen st" and ?h = "ccd_heap_arr st"
  let ?s = "swap ?h 1 ?n"
  have len: "length ?h = 2 * (ccd_heapmaxlen st + 1)" "?n \<le> ccd_heapmaxlen st" and hp: "tmh.heap_ok ?h (?n + 1)"
    using ok by (simp_all add: timers_ok_def)
  have view: "mset (timers_view st) = add_mset (?h ! 1) (mset (slice (Suc 0) ?n ?s))"
  proof -
    have "mset (slice (Suc 0) (?n + 1) ?s) = mset (slice (Suc 0) (?n + 1) ?h)"
      using len pos by (intro mset_slice_swap) auto
    moreover have "slice (Suc 0) (?n + 1) ?s = slice (Suc 0) ?n ?s @ [?h ! 1]"
      using len pos by (simp add: slice_Suc nth_swap)
    ultimately show ?thesis by (simp add: timers_view_def)
  qed
  show ?thesis
  proof (cases "?n = 1")
    case True
    then show ?thesis using ok pos view len
      by (simp add: ccd_heap_remove_def Let_def ccd_heap_swap_eq timers_ok_def timers_view_def tmh.heap_ok_def nth_swap)
  next
    case False
    have "tmh.down_ok (?h[Suc 0 := ?h ! ?n]) ?n (Suc 0)"
      using tmh.down_ok_root [OF tmh.heap_ok_shrink [OF hp]] len by simp
    then have "tmh.down_ok ?s ?n (Suc 0)"
      by (rule down_ok_root_cong) (use len pos False in \<open>auto simp: nth_swap nth_list_update\<close>)
    then have dn: "tmh.down_ok ?s (?n - 1 + 1) 1" using pos by simp
    have l: "0 < (1 :: nat)" "1 \<le> ?n - 1" "?n - 1 < length ?s" using False pos len by auto
    note loop = heap_remove_loop_ok [OF l dn]
    have "?n - 1 + 1 = ?n" using pos by simp
    then show ?thesis using loop view len pos False
      by (simp add: ccd_heap_remove_def Let_def ccd_heap_swap_eq timers_ok_def timers_view_def nth_swap)
  qed
qed

lemma timers_root_min:
  assumes "timers_ok st" "e \<in> set (timers_view st)"
  shows "etime (ccd_heap_arr st ! 1) \<le> etime e"
proof -
  have "ccd_heaplen st + 1 \<le> length (ccd_heap_arr st)" and hp: "tmh.heap_ok (ccd_heap_arr st) (ccd_heaplen st + 1)"
    using assms(1) by (simp_all add: timers_ok_def)
  then obtain i where "Suc 0 \<le> i" "i < ccd_heaplen st + 1" "e = ccd_heap_arr st ! i"
    using assms(2) by (auto simp: timers_view_def set_slice)
  then show ?thesis using tmh.heap_root_le [OF hp] by simp
qed

text \<open>The entries from \<open>ccd_heapmaxlen + a\<close> up to \<open>ccd_heapmaxlen + b\<close>, behind the heap.\<close>

definition pulled :: "('f, 'a) ccd_timers \<Rightarrow> nat \<Rightarrow> nat \<Rightarrow> ('f, 'a) ccd_heap_elem list" where
  "pulled st a b = map (\<lambda>i. ccd_heap_arr st ! (ccd_heapmaxlen st + i)) [a..<b]"

lemma timers_ok_behind:
  assumes "timers_ok st" "ccd_heaplen st < j"
  shows "timers_ok (st\<lparr>ccd_heap_arr := (ccd_heap_arr st)[j := e]\<rparr>)" "timers_view (st\<lparr>ccd_heap_arr := (ccd_heap_arr st)[j := e]\<rparr>) = timers_view st"
proof -
  have "i div 2 \<noteq> j" if "i < ccd_heaplen st + 1" for i using that assms(2) by auto
  then show "timers_ok (st\<lparr>ccd_heap_arr := (ccd_heap_arr st)[j := e]\<rparr>)"
    using assms by (auto simp: timers_ok_def tmh.heap_ok_def)
  show "timers_view (st\<lparr>ccd_heap_arr := (ccd_heap_arr st)[j := e]\<rparr>) = timers_view st"
    using assms(2) by (simp add: timers_view_def slice_update_out)
qed

lemma pull_expired_ok:
  assumes "timers_ok st" "ccd_heaplen st < ccd_heapmaxlen st" "ccd_heaplen st + ne \<le> ccd_heapmaxlen st"
    and "pull_expired cur st ne = (st', ne')"
  shows "timers_ok st' \<and> ne \<le> ne' \<and> ccd_heapmaxlen st' = ccd_heapmaxlen st \<and> block st' = block st
    \<and> mset (timers_view st) = mset (pulled st' ne ne') + mset (timers_view st')
    \<and> sorted (map etime (pulled st' ne ne'))
    \<and> (\<forall>e \<in> set (pulled st' ne ne'). etime e < cur) \<and> (\<forall>e \<in> set (timers_view st'). cur \<le> etime e)
    \<and> (\<forall>i < ne. ccd_heap_arr st' ! (ccd_heapmaxlen st + i) = ccd_heap_arr st ! (ccd_heapmaxlen st + i))"
  using assms
proof (induction cur st ne arbitrary: st' ne' rule: pull_expired.induct)
  case (1 cur st ne)
  let ?h = "ccd_heap_arr st" and ?m = "ccd_heapmaxlen st"
  show ?case
  proof (cases "ccd_heaplen st > 0 \<and> etime (?h ! 1) < cur")
    case False
    then have "st' = st" "ne' = ne" using "1.prems"(4) by (auto simp: pull_expired.simps [of cur st ne])
    moreover have "cur \<le> etime e" if e: "e \<in> set (timers_view st)" for e
    proof -
      have "ccd_heaplen st > 0" using e by (cases "ccd_heaplen st") (auto simp: timers_view_def)
      then show ?thesis using False timers_root_min [OF "1.prems"(1) e] by auto
    qed
    ultimately show ?thesis using "1.prems" by (simp add: pulled_def)
  next
    case True
    let ?s1 = "st\<lparr>ccd_heap_arr := ?h[?m + ne := ?h ! 1]\<rparr>"
    let ?s2 = "ccd_heap_remove ?s1"
    have j: "ccd_heaplen st < ?m + ne" "?m + ne < length ?h" using "1.prems" by (auto simp: timers_ok_def)
    note b = timers_ok_behind [OF "1.prems"(1) j(1), of "?h ! 1"]
    have pos: "0 < ccd_heaplen ?s1" using True by simp
    note r = ccd_heap_remove_ok [OF b(1) pos]
    have h1: "ccd_heap_arr ?s1 ! 1 = ?h ! 1" using j True by (auto simp: nth_list_update)
    have keep: "ccd_heap_arr ?s2 ! (?m + i) = (?h[?m + ne := ?h ! 1]) ! (?m + i)" for i
      using r "1.prems"(2) by simp
    have e: "pull_expired cur ?s2 (ne + 1) = (st', ne')" using True "1.prems"(4) by (simp add: pull_expired.simps [of cur st ne])
    have c: "ccd_heaplen ?s2 < ccd_heapmaxlen ?s2" "ccd_heaplen ?s2 + (ne + 1) \<le> ccd_heapmaxlen ?s2"
      using r "1.prems"(2,3) True by simp_all
    have m2: "ccd_heapmaxlen ?s2 = ?m" using r by simp
    note ih = "1.IH" [OF True conjunct1 [OF r] c e, unfolded m2]
    have m: "ccd_heapmaxlen st' = ?m" "ne < ne'" using ih by auto
    have first: "ccd_heap_arr st' ! (?m + ne) = ?h ! 1" using ih keep [of ne] j by simp
    have p: "pulled st' ne ne' = ?h ! 1 # pulled st' (ne + 1) ne'"
      using m first by (simp add: pulled_def upt_conv_Cons)
    have ms: "mset (timers_view st) = add_mset (?h ! 1) (mset (pulled st' (ne + 1) ne') + mset (timers_view st'))"
      using r ih b(2) h1 by simp
    moreover have "etime (?h ! 1) \<le> etime x" if "x \<in> set (pulled st' (ne + 1) ne')" for x
    proof (rule timers_root_min [OF "1.prems"(1)])
      show "x \<in> set (timers_view st)" using ms that by (metis set_mset_mset union_iff insert_iff set_mset_add_mset_insert)
    qed
    moreover have "ccd_heap_arr st' ! (?m + i) = ?h ! (?m + i)" if "i < ne" for i
      using ih m keep [of i] that by simp
    ultimately show ?thesis using p ih m r True by auto
  qed
qed

text \<open>
  The array of a full heap: the place for the first entry that is due is the last place of
  the heap.
\<close>

lemma pull_full:
  assumes ok: "timers_ok st" and full: "ccd_heaplen st = ccd_heapmaxlen st" "1 < ccd_heaplen st"
    and due: "etime (ccd_heap_arr st ! 1) < cur"
  shows "pull_expired cur st 0 = pull_expired cur (st\<lparr>ccd_heaplen := ccd_heaplen st - 1,
      ccd_heap_arr := (ccd_heap_arr st)[ccd_heapmaxlen st := ccd_heap_arr st ! 1]\<rparr>) 1"
proof -
  let ?h = "ccd_heap_arr st" and ?m = "ccd_heapmaxlen st"
  let ?h1 = "?h[?m := ?h ! 1]"
  have len: "?m < length ?h" using ok by (simp add: timers_ok_def)
  have sw: "ccd_heap_swap ?h1 1 ?m = ?h1"
    using len full by (auto simp: ccd_heap_swap_eq swap_def list_eq_iff_nth_eq nth_list_update)
  have "heap_remove_loop ?h1 (?m - 1) 1 = ?h1"
  proof (cases "2 > ?m - 1")
    case True
    then show ?thesis by (simp add: heap_remove_loop.simps)
  next
    case False
    define c where "c = (if 2 * 1 + 1 \<le> ?m - 1 \<and> etime (?h1 ! (2 * 1)) > etime (?h1 ! (2 * 1 + 1)) then 2 * 1 + 1 else 2 * 1 :: nat)"
    have "c < ?m" "c = 2 \<or> c = 3" using False by (auto simp: c_def)
    then have "?h ! c \<in> set (timers_view st)"
      unfolding timers_view_def full(1) using len by (intro nth_in_slice) auto
    then have "etime (?h1 ! 1) \<le> etime (?h1 ! c)"
      using timers_root_min [OF ok] \<open>c < ?m\<close> full len by (simp add: nth_list_update)
    then show ?thesis using False by (subst heap_remove_loop.simps) (simp add: c_def Let_def)
  qed
  then have "ccd_heap_remove (st\<lparr>ccd_heap_arr := ?h1\<rparr>) = st\<lparr>ccd_heaplen := ccd_heaplen st - 1, ccd_heap_arr := ?h1\<rparr>"
    using full sw by (simp add: ccd_heap_remove_def Let_def)
  then show ?thesis using due full by (subst pull_expired.simps) simp
qed

end
