(* ===== verification/Ccd.thy ===== *)
theory Ccd
  imports Ccd_Heap
begin

text \<open>
  The conditional callbacks of \<^verbatim>\<open>src/conv-core/conv-conds.c\<close>: registration, raising a condition,
  timers and the periodic conditions. What a callback does when it is called is a parameter
  \<open>run\<close>; the readings of the wall clock are arguments.
\<close>

section \<open>State\<close>

record ('f, 'a) ccd =
  condcb :: "('f, 'a) ccd_cblist list"
  condcb_keep :: "('f, 'a) ccd_cblist list"
  timers :: "('f, 'a) ccd_timers"
  nSkip :: nat
  lastCheck :: real
  resolution :: real
  nextCall :: "real list"
  ccd_numchecks :: nat

type_synonym ('f, 'a) ccd_run = "('f, 'a) ccd_callback \<Rightarrow> real \<Rightarrow> ('f, 'a) ccd \<Rightarrow> ('f, 'a) ccd"

datatype ccd_error = AssertFailed | BadAccess

fun checked :: "'r option \<Rightarrow> ccd_error + 'r" where
  "checked None = Inl BadAccess"
| "checked (Some x) = Inr x"

definition CcdPROCESSOR_END_IDLE :: nat where "CcdPROCESSOR_END_IDLE = 0"
definition CcdPROCESSOR_BEGIN_IDLE :: nat where "CcdPROCESSOR_BEGIN_IDLE = 1"
definition CcdPERIODIC :: nat where "CcdPERIODIC = 3"
definition CcdIGNOREPE :: int where "CcdIGNOREPE = - 2"
definition CBLIST_INIT_LEN :: nat where "CBLIST_INIT_LEN = 8"
definition MAXNUMCONDS :: nat where "MAXNUMCONDS = 127 + 1"
definition CCD_DEFAULT_RESOLUTION :: real where "CCD_DEFAULT_RESOLUTION = 5 / 1000"

definition periodicCallInterval :: "real list" where
  "periodicCallInterval = [1 / 1000, 10 / 1000, 100 / 1000, 1, 5, 10, 60, 2 * 60, 5 * 60, 10 * 60, 3600, 12 * 3600, 24 * 3600]"

definition CCD_PERIODIC_MAX :: nat where "CCD_PERIODIC_MAX = 13"

section \<open>Registration\<close>

definition CcdCallOnConditionOnPE ::
  "('f, 'a) ccd_callback \<Rightarrow> nat \<Rightarrow> 'f \<Rightarrow> 'a \<Rightarrow> int \<Rightarrow> ('f, 'a) ccd \<Rightarrow> ccd_error + int \<times> ('f, 'a) ccd" where
  "CcdCallOnConditionOnPE junk condnum fnp a p st =
    (if condnum < MAXNUMCONDS then
       checked (do { (idx, l) \<leftarrow> append_elem junk (condcb st ! condnum) \<lparr>fn = fnp, arg = a, cpe = p\<rparr>;
                     Some (idx, st\<lparr>condcb := (condcb st)[condnum := l]\<rparr>) })
     else Inl AssertFailed)"

definition CcdCallOnCondition :: "('f, 'a) ccd_callback \<Rightarrow> nat \<Rightarrow> 'f \<Rightarrow> 'a \<Rightarrow> ('f, 'a) ccd \<Rightarrow> ccd_error + int \<times> ('f, 'a) ccd" where
  "CcdCallOnCondition junk condnum fnp a st =
    (if condnum < MAXNUMCONDS then
       checked (do { (idx, l) \<leftarrow> append_elem junk (condcb st ! condnum) \<lparr>fn = fnp, arg = a, cpe = CcdIGNOREPE\<rparr>;
                     Some (idx, st\<lparr>condcb := (condcb st)[condnum := l]\<rparr>) })
     else Inl AssertFailed)"

definition CcdCallOnConditionKeepOnPE ::
  "('f, 'a) ccd_callback \<Rightarrow> nat \<Rightarrow> 'f \<Rightarrow> 'a \<Rightarrow> int \<Rightarrow> ('f, 'a) ccd \<Rightarrow> ccd_error + int \<times> ('f, 'a) ccd" where
  "CcdCallOnConditionKeepOnPE junk condnum fnp a p st =
    (if condnum < MAXNUMCONDS then
       checked (do { (idx, l) \<leftarrow> append_elem junk (condcb_keep st ! condnum) \<lparr>fn = fnp, arg = a, cpe = p\<rparr>;
                     Some (idx, st\<lparr>condcb_keep := (condcb_keep st)[condnum := l]\<rparr>) })
     else Inl AssertFailed)"

definition CcdCallOnConditionKeep :: "('f, 'a) ccd_callback \<Rightarrow> nat \<Rightarrow> 'f \<Rightarrow> 'a \<Rightarrow> ('f, 'a) ccd \<Rightarrow> ccd_error + int \<times> ('f, 'a) ccd" where
  "CcdCallOnConditionKeep junk condnum fnp a st =
    (if condnum < MAXNUMCONDS then
       checked (do { (idx, l) \<leftarrow> append_elem junk (condcb_keep st ! condnum) \<lparr>fn = fnp, arg = a, cpe = CcdIGNOREPE\<rparr>;
                     Some (idx, st\<lparr>condcb_keep := (condcb_keep st)[condnum := l]\<rparr>) })
     else Inl AssertFailed)"

definition CcdCancelCallOnCondition :: "nat \<Rightarrow> int \<Rightarrow> ('f, 'a) ccd \<Rightarrow> ccd_error + ('f, 'a) ccd" where
  "CcdCancelCallOnCondition condnum idx st =
    (if condnum < MAXNUMCONDS then
       checked (do { l \<leftarrow> remove_elem (condcb st ! condnum) idx; Some (st\<lparr>condcb := (condcb st)[condnum := l]\<rparr>) })
     else Inl AssertFailed)"

definition CcdCancelCallOnConditionKeep :: "nat \<Rightarrow> int \<Rightarrow> ('f, 'a) ccd \<Rightarrow> ccd_error + ('f, 'a) ccd" where
  "CcdCancelCallOnConditionKeep condnum idx st =
    (if condnum < MAXNUMCONDS then
       checked (do { l \<leftarrow> remove_elem (condcb_keep st ! condnum) idx; Some (st\<lparr>condcb_keep := (condcb_keep st)[condnum := l]\<rparr>) })
     else Inl AssertFailed)"

text \<open>\<open>ctime\<close> is the reading of the clock; \<open>deltaT\<close> is in milliseconds.\<close>

definition CcdCallFnAfterOnPE ::
  "('f, 'a) ccd_heap_elem \<Rightarrow> real \<Rightarrow> 'f \<Rightarrow> 'a \<Rightarrow> real \<Rightarrow> int \<Rightarrow> ('f, 'a) ccd \<Rightarrow> ('f, 'a) ccd" where
  "CcdCallFnAfterOnPE junk ctime fnp a deltaT p st =
    (let tcall = ctime + deltaT / 1000
     in st\<lparr>timers := ccd_heap_insert junk tcall \<lparr>fn = fnp, arg = a, cpe = p\<rparr> (timers st)\<rparr>)"

definition CcdCallFnAfter :: "('f, 'a) ccd_heap_elem \<Rightarrow> real \<Rightarrow> 'f \<Rightarrow> 'a \<Rightarrow> real \<Rightarrow> ('f, 'a) ccd \<Rightarrow> ('f, 'a) ccd" where
  "CcdCallFnAfter junk ctime fnp a deltaT st = CcdCallFnAfterOnPE junk ctime fnp a deltaT CcdIGNOREPE st"

section \<open>Calling\<close>

text \<open>
  The loop over a callback list that is found in the state by \<open>sel\<close>: the callback is read
  before the call and its successor after it. The result names the callbacks that were called.
\<close>

fun call_loop :: "('f, 'a) ccd_run \<Rightarrow> (('f, 'a) ccd \<Rightarrow> ('f, 'a) ccd_cblist) \<Rightarrow> real \<Rightarrow> nat \<Rightarrow> int \<Rightarrow> ('f, 'a) ccd
    \<Rightarrow> (('f, 'a) ccd_callback list \<times> ('f, 'a) ccd) option" where
  "call_loop run sel t 0 idx st = Some ([], st)"
| "call_loop run sel t (Suc n) idx st = do {
     e \<leftarrow> arr_get (elems (sel st)) idx;
     let st = run (cb e) t st;
     e' \<leftarrow> arr_get (elems (sel st)) idx;
     (cs, st) \<leftarrow> call_loop run sel t n (enext e') st;
     Some (cb e # cs, st)
   }"

definition call_cblist_keep :: "('f, 'a) ccd_run \<Rightarrow> nat \<Rightarrow> real \<Rightarrow> ('f, 'a) ccd \<Rightarrow> (('f, 'a) ccd_callback list \<times> ('f, 'a) ccd) option" where
  "call_cblist_keep run condnum t st =
    (let l = condcb_keep st ! condnum in call_loop run (\<lambda>st. condcb_keep st ! condnum) t (len l) (first l) st)"

definition set_flag :: "nat \<Rightarrow> ('f, 'a) ccd \<Rightarrow> ('f, 'a) ccd" where
  "set_flag condnum st = st\<lparr>condcb := (condcb st)[condnum := (condcb st ! condnum)\<lparr>flag := 1\<rparr>]\<rparr>"

definition call_cblist_remove :: "('f, 'a) ccd_run \<Rightarrow> nat \<Rightarrow> real \<Rightarrow> ('f, 'a) ccd \<Rightarrow> (('f, 'a) ccd_callback list \<times> ('f, 'a) ccd) option" where
  "call_cblist_remove run condnum t st =
    (let l = condcb st ! condnum; n = len l in
     if flag l \<noteq> 0 then Some ([], st)
     else do {
       let st = set_flag condnum st;
       (cs, st) \<leftarrow> call_loop run (\<lambda>st. condcb st ! condnum) t n (first l) st;
       l \<leftarrow> remove_n_elems (condcb st ! condnum) n;
       Some (cs, st\<lparr>condcb := (condcb st)[condnum := l\<lparr>flag := 0\<rparr>]\<rparr>)
     })"

definition CcdRaiseCondition :: "('f, 'a) ccd_run \<Rightarrow> nat \<Rightarrow> real \<Rightarrow> ('f, 'a) ccd \<Rightarrow> ccd_error + ('f, 'a) ccd_callback list \<times> ('f, 'a) ccd" where
  "CcdRaiseCondition run condnum curWallTime st =
    (if condnum < MAXNUMCONDS then
       checked (do { (cs, st) \<leftarrow> call_cblist_remove run condnum curWallTime st;
                     (ks, st) \<leftarrow> call_cblist_keep run condnum curWallTime st;
                     Some (cs @ ks, st) })
     else Inl AssertFailed)"

text \<open>
  The second loop of \<open>ccd_heap_update\<close>: \<open>e\<close> points into the allocation \<open>b\<close> that was current
  when the function was entered; reading it after that was freed is undefined.
\<close>

fun call_expired :: "('f, 'a) ccd_run \<Rightarrow> real \<Rightarrow> nat \<Rightarrow> nat \<Rightarrow> nat \<Rightarrow> nat \<Rightarrow> ('f, 'a) ccd \<Rightarrow> (('f, 'a) ccd_callback list \<times> ('f, 'a) ccd) option" where
  "call_expired run t b e i 0 st = Some ([], st)"
| "call_expired run t b e i (Suc n) st =
    (if block (timers st) = b then do {
       x \<leftarrow> arr_get (ccd_heap_arr (timers st)) (int (e + i));
       (cs, st) \<leftarrow> call_expired run t b e (i + 1) n (run (ecb x) t st);
       Some (ecb x # cs, st)
     } else None)"

definition ccd_heap_update :: "('f, 'a) ccd_run \<Rightarrow> real \<Rightarrow> ('f, 'a) ccd \<Rightarrow> (('f, 'a) ccd_callback list \<times> ('f, 'a) ccd) option" where
  "ccd_heap_update run curWallTime st =
    (let (ts, ne) = pull_expired curWallTime (timers st) 0
     in call_expired run curWallTime (block (timers st)) (ccd_heapmaxlen (timers st)) 0 ne (st\<lparr>timers := ts\<rparr>))"

section \<open>Polling\<close>

definition CcdCallBacksReset :: "real \<Rightarrow> ('f, 'a) ccd \<Rightarrow> ('f, 'a) ccd" where
  "CcdCallBacksReset curWallTime st = st\<lparr>ccd_numchecks := 1, nSkip := 1, lastCheck := curWallTime\<rparr>"

definition CcdSetMinResolution :: "real \<Rightarrow> real \<Rightarrow> real \<Rightarrow> ('f, 'a) ccd \<Rightarrow> real \<times> ('f, 'a) ccd" where
  "CcdSetMinResolution now newResolution minResolution st =
    (let oldResolution = resolution st;
         st = st\<lparr>resolution := min newResolution minResolution\<rparr>;
         st = (if resolution st < oldResolution then CcdCallBacksReset now st else st)
     in (oldResolution, st))"

definition CcdSetResolution :: "real \<Rightarrow> real \<Rightarrow> ('f, 'a) ccd \<Rightarrow> real \<times> ('f, 'a) ccd" where
  "CcdSetResolution now newResolution st = CcdSetMinResolution now newResolution CCD_DEFAULT_RESOLUTION st"

definition CcdResetResolution :: "('f, 'a) ccd \<Rightarrow> real \<times> ('f, 'a) ccd" where
  "CcdResetResolution st = (resolution st, st\<lparr>resolution := CCD_DEFAULT_RESOLUTION\<rparr>)"

definition CcdIncreaseResolution :: "real \<Rightarrow> real \<Rightarrow> ('f, 'a) ccd \<Rightarrow> real \<times> ('f, 'a) ccd" where
  "CcdIncreaseResolution now newResolution st = CcdSetMinResolution now newResolution (resolution st) st"

text \<open>The number of scheduler rounds until the next poll.\<close>

definition new_skip :: "real \<Rightarrow> ('f, 'a) ccd \<Rightarrow> nat" where
  "new_skip curWallTime st =
    (let elapsed = curWallTime - lastCheck st;
         n = (if elapsed > 0 then nat \<lfloor>real (nSkip st) * max (1 / 2) (min 2 (resolution st / elapsed))\<rfloor> else nSkip st)
     in if n < 1 then 1 else if n > 20 then 20 else n)"

text \<open>\<open>clock i\<close> is the reading of the clock when the \<open>i\<close>th periodic condition is raised.\<close>

fun periodic_loop :: "('f, 'a) ccd_run \<Rightarrow> (nat \<Rightarrow> real) \<Rightarrow> real \<Rightarrow> nat \<Rightarrow> nat \<Rightarrow> ('f, 'a) ccd \<Rightarrow> ccd_error + (nat \<times> ('f, 'a) ccd_callback list) list \<times> ('f, 'a) ccd" where
  "periodic_loop run clock cur i 0 st = Inr ([], st)"
| "periodic_loop run clock cur i (Suc n) st =
    (if nextCall st ! i \<le> cur then
       case CcdRaiseCondition run (CcdPERIODIC + i) (clock i) st of
         Inl e \<Rightarrow> Inl e
       | Inr (cs, st) \<Rightarrow>
           (case periodic_loop run clock cur (i + 1) n (st\<lparr>nextCall := (nextCall st)[i := cur + periodicCallInterval ! i]\<rparr>) of
              Inl e \<Rightarrow> Inl e
            | Inr (rs, st) \<Rightarrow> Inr ((i, cs) # rs, st))
     else Inr ([], st))"

definition CcdCallBacks ::
  "('f, 'a) ccd_run \<Rightarrow> (nat \<Rightarrow> real) \<Rightarrow> real \<Rightarrow> ('f, 'a) ccd
    \<Rightarrow> ccd_error + (('f, 'a) ccd_callback list \<times> (nat \<times> ('f, 'a) ccd_callback list) list) \<times> ('f, 'a) ccd" where
  "CcdCallBacks run clock curWallTime st =
    (let n = new_skip curWallTime st;
         st = st\<lparr>nSkip := n, ccd_numchecks := n, lastCheck := curWallTime\<rparr>
     in case checked (ccd_heap_update run curWallTime st) of
          Inl e \<Rightarrow> Inl e
        | Inr (ts, st) \<Rightarrow>
            (case periodic_loop run clock curWallTime 0 CCD_PERIODIC_MAX st of
               Inl e \<Rightarrow> Inl e
             | Inr (rs, st) \<Rightarrow> Inr ((ts, rs), st)))"

text \<open>\<open>reset\<close> is the address of \<open>CcdCallBacksReset\<close>, \<open>null\<close> the null argument.\<close>

definition CcdModuleInit :: "('f, 'a) ccd_heap_elem \<Rightarrow> 'f \<Rightarrow> 'a \<Rightarrow> real \<Rightarrow> ccd_error + ('f, 'a) ccd" where
  "CcdModuleInit junk reset null curTime =
    (case init_cblist (ecb junk) CBLIST_INIT_LEN of
       None \<Rightarrow> Inl BadAccess
     | Some l \<Rightarrow>
       let st = \<lparr>condcb = replicate MAXNUMCONDS l, condcb_keep = replicate MAXNUMCONDS l,
             timers = \<lparr>ccd_heap_arr = replicate (2 * (MAXTIMERHEAPENTRIES + 1)) junk, ccd_heaplen = 0,
               ccd_heapmaxlen = MAXTIMERHEAPENTRIES, block = 0\<rparr>,
             nSkip = 1, lastCheck = curTime, resolution = CCD_DEFAULT_RESOLUTION,
             nextCall = map (\<lambda>d. curTime + d) periodicCallInterval, ccd_numchecks = 1\<rparr>
       in case CcdCallOnConditionKeep (ecb junk) CcdPROCESSOR_BEGIN_IDLE reset null st of
            Inl e \<Rightarrow> Inl e
          | Inr (_, st) \<Rightarrow>
              (case CcdCallOnConditionKeep (ecb junk) CcdPROCESSOR_END_IDLE reset null st of
                 Inl e \<Rightarrow> Inl e | Inr (_, st) \<Rightarrow> Inr st))"

end
