(* ===== verification/Ccd_Props.thy ===== *)
theory Ccd_Props
  imports Ccd
begin

text \<open>
  What the conditional callbacks promise: a raised condition calls the registered callbacks
  once and in order, timers that are due are called in the order of their times, the polling
  interval stays in its range, and where the timer heap fails.
\<close>

section \<open>Contents of a callback list\<close>

fun cbl_walk :: "nat \<Rightarrow> ('f, 'a) ccd_cblist_elem list \<Rightarrow> int \<Rightarrow> ('f, 'a) ccd_callback list" where
  "cbl_walk 0 es idx = []"
| "cbl_walk (Suc n) es idx = (case arr_get es idx of None \<Rightarrow> [] | Some e \<Rightarrow> cb e # cbl_walk n es (enext e))"

definition cbl_list :: "('f, 'a) ccd_cblist \<Rightarrow> ('f, 'a) ccd_callback list" where
  "cbl_list l = cbl_walk (len l) (elems l) (first l)"

definition cbl_inv :: "('f, 'a) ccd_cblist \<Rightarrow> bool" where
  "cbl_inv l \<longleftrightarrow> (\<exists>bs fs. cbl_ok l bs fs)"

lemma cbl_walk_chain: "dchain es p bs (- 1) \<Longrightarrow> cbl_walk (length bs) es (head_or bs (- 1)) = map (\<lambda>i. cb (es ! i)) bs"
  by (induction bs arbitrary: p) auto

lemma cbl_list_ok: "cbl_ok l bs fs \<Longrightarrow> cbl_list l = map snd (cbl_view l bs)"
  using cbl_walk_chain [of "elems l" "- 1" bs] by (simp add: cbl_list_def cbl_view_def cbl_ok_def comp_def)

lemma cbl_list_init:
  assumes "init_cblist junk CBLIST_INIT_LEN = Some l"
  shows "cbl_inv l" "cbl_list l = []" "flag l = 0" "len l = 0"
proof -
  have ok: "cbl_ok l [] [0..<CBLIST_INIT_LEN]"
    using init_cblist_ok [of CBLIST_INIT_LEN junk] assms by (simp add: CBLIST_INIT_LEN_def)
  then show "cbl_inv l" unfolding cbl_inv_def by blast
  show "len l = 0" using ok by (simp add: cbl_ok_def)
  show "cbl_list l = []" using cbl_list_ok [OF ok] by (simp add: cbl_view_def)
  show "flag l = 0" using assms by (auto simp: init_cblist_def split: Option.bind_splits)
qed

section \<open>Callbacks that register callbacks\<close>

text \<open>
  The list \<open>l'\<close> is \<open>l\<close> with further callbacks appended. A callback may register others; that it
  must not cancel any is the condition that the comments of the code state.
\<close>

definition cbl_ext :: "('f, 'a) ccd_cblist \<Rightarrow> ('f, 'a) ccd_cblist \<Rightarrow> bool" where
  "cbl_ext l l' \<longleftrightarrow> flag l' = flag l \<and> (\<forall>bs fs. cbl_ok l bs fs \<longrightarrow>
    (\<exists>bs' fs'. cbl_ok l' (bs @ bs') fs' \<and> cbl_view l' bs = cbl_view l bs))"

text \<open>Every callback list of \<open>st'\<close> extends that of \<open>st\<close>.\<close>

definition ccd_ext :: "('f, 'a) ccd \<Rightarrow> ('f, 'a) ccd \<Rightarrow> bool" where
  "ccd_ext st st' \<longleftrightarrow> length (condcb st') = length (condcb st) \<and> length (condcb_keep st') = length (condcb_keep st)
    \<and> (\<forall>k < length (condcb st). cbl_ext (condcb st ! k) (condcb st' ! k))
    \<and> (\<forall>k < length (condcb_keep st). cbl_ext (condcb_keep st ! k) (condcb_keep st' ! k))"

definition registers_only :: "('f, 'a) ccd_run \<Rightarrow> bool" where
  "registers_only run \<longleftrightarrow> (\<forall>c t st. ccd_ext st (run c t st))"

definition run_all :: "('f, 'a) ccd_run \<Rightarrow> real \<Rightarrow> ('f, 'a) ccd_callback list \<Rightarrow> ('f, 'a) ccd \<Rightarrow> ('f, 'a) ccd" where
  "run_all run t cs st = fold (\<lambda>c st. run c t st) cs st"

lemma cbl_ext_refl: "cbl_ext l l"
  unfolding cbl_ext_def by (metis append_Nil2)

lemma cbl_ext_trans:
  assumes "cbl_ext l l'" "cbl_ext l' l''"
  shows "cbl_ext l l''"
  unfolding cbl_ext_def
proof (intro conjI allI impI)
  show "flag l'' = flag l" using assms by (simp add: cbl_ext_def)
  fix bs fs assume "cbl_ok l bs fs"
  with assms(1) obtain bs' fs' where 1: "cbl_ok l' (bs @ bs') fs'" "cbl_view l' bs = cbl_view l bs"
    unfolding cbl_ext_def by blast
  with assms(2) obtain bs'' fs'' where 2: "cbl_ok l'' ((bs @ bs') @ bs'') fs''"
    "cbl_view l'' (bs @ bs') = cbl_view l' (bs @ bs')" unfolding cbl_ext_def by blast
  then have "cbl_view l'' bs = cbl_view l bs" using 1(2) by (simp add: cbl_view_def)
  with 2(1) show "\<exists>bs' fs'. cbl_ok l'' (bs @ bs') fs' \<and> cbl_view l'' bs = cbl_view l bs"
    by (intro exI [of _ "bs' @ bs''"] exI [of _ fs'']) simp
qed

lemma run_all_simps: "run_all run t [] st = st" "run_all run t (c # cs) st = run_all run t cs (run c t st)"
  by (simp_all add: run_all_def)

lemma ccd_ext_refl: "ccd_ext st st"
  by (simp add: ccd_ext_def cbl_ext_refl)

lemma ccd_ext_trans: "ccd_ext st st' \<Longrightarrow> ccd_ext st' st'' \<Longrightarrow> ccd_ext st st''"
  unfolding ccd_ext_def by (auto intro: cbl_ext_trans [of "_ ! _"])

lemma registers_all:
  assumes "registers_only run"
  shows "ccd_ext st (run_all run t cs st)"
proof (induction cs arbitrary: st)
  case Nil
  then show ?case by (simp add: run_all_simps ccd_ext_refl)
next
  case (Cons c cs)
  have "ccd_ext st (run c t st)" using assms unfolding registers_only_def by blast
  then show ?case using Cons.IH ccd_ext_trans unfolding run_all_simps by blast
qed

text \<open>The loop calls the entries it was started on, although the list may grow behind them.\<close>

lemma call_loop_ok:
  assumes ext: "\<And>c st. P st \<Longrightarrow> P (run c t st) \<and> cbl_ext (sel st) (sel (run c t st))"
    and "P st" "cbl_ok (sel st) (xs @ zs @ ws) fs"
  shows "call_loop run sel t (length zs) (head_or (zs @ ws) (- 1)) st =
    Some (map snd (cbl_view (sel st) zs), run_all run t (map snd (cbl_view (sel st) zs)) st)"
  using assms(2,3)
proof (induction zs arbitrary: st xs ws fs)
  case Nil
  then show ?case by (simp add: cbl_view_def run_all_def)
next
  case (Cons z zs)
  let ?c = "cb (elems (sel st) ! z)"
  let ?st = "run ?c t st"
  have lt: "z < length (elems (sel st))" using Cons.prems(2) by (auto simp: cbl_ok_def)
  from ext [OF Cons.prems(1), of ?c] Cons.prems(2) obtain bs' fs' where
    n: "P ?st" "cbl_ok (sel ?st) ((xs @ z # zs @ ws) @ bs') fs'"
      "cbl_view (sel ?st) (xs @ z # zs @ ws) = cbl_view (sel st) (xs @ z # zs @ ws)"
    unfolding cbl_ext_def by fastforce
  have lt': "z < length (elems (sel ?st))" using n(2) by (auto simp: cbl_ok_def)
  have nx: "enext (elems (sel ?st) ! z) = head_or (zs @ ws @ bs') (- 1)"
    using n(2) by (simp add: cbl_ok_def dchain_append)
  have v: "cbl_view (sel ?st) zs = cbl_view (sel st) zs" using n(3) by (simp add: cbl_view_def)
  have ok: "cbl_ok (sel ?st) ((xs @ [z]) @ zs @ (ws @ bs')) fs'" using n(2) by simp
  have "cbl_view (sel st) (z # zs) = (z, ?c) # cbl_view (sel st) zs" by (simp add: cbl_view_def)
  with Cons.IH [OF n(1) ok, unfolded v] show ?case
    using lt lt' nx by (simp add: Let_def run_all_simps)
qed

definition ccd_inv :: "('f, 'a) ccd \<Rightarrow> bool" where
  "ccd_inv st \<longleftrightarrow> length (condcb st) = MAXNUMCONDS \<and> length (condcb_keep st) = MAXNUMCONDS
    \<and> (\<forall>l \<in> set (condcb st) \<union> set (condcb_keep st). cbl_inv l)
    \<and> timers_ok (timers st) \<and> 0 < ccd_heapmaxlen (timers st) \<and> length (nextCall st) = CCD_PERIODIC_MAX"

lemma call_keep_ok:
  assumes reg: "registers_only run" and k: "k < length (condcb_keep st)" and inv: "cbl_inv (condcb_keep st ! k)"
  shows "call_cblist_keep run k t st = Some (cbl_list (condcb_keep st ! k), run_all run t (cbl_list (condcb_keep st ! k)) st)"
proof -
  from inv obtain bs fs where ok: "cbl_ok (condcb_keep st ! k) ([] @ bs @ []) fs" by (auto simp: cbl_inv_def)
  have l: "len (condcb_keep st ! k) = length bs" "first (condcb_keep st ! k) = head_or (bs @ []) (- 1)"
    using ok by (simp_all add: cbl_ok_def)
  have "call_loop run (\<lambda>st. condcb_keep st ! k) t (length bs) (head_or (bs @ []) (- 1)) st =
      Some (map snd (cbl_view (condcb_keep st ! k) bs), run_all run t (map snd (cbl_view (condcb_keep st ! k) bs)) st)"
    by (rule call_loop_ok [where P = "\<lambda>st. k < length (condcb_keep st)" and xs = "[]" and fs = fs])
      (use reg k ok in \<open>auto simp: registers_only_def ccd_ext_def\<close>)
  moreover have "cbl_list (condcb_keep st ! k) = map snd (cbl_view (condcb_keep st ! k) bs)"
    by (rule cbl_list_ok) (use ok in simp)
  ultimately show ?thesis using l by (simp add: call_cblist_keep_def Let_def)
qed

lemma cbl_flag [simp]: "cbl_ok (l\<lparr>flag := x\<rparr>) bs fs = cbl_ok l bs fs" "cbl_view (l\<lparr>flag := x\<rparr>) bs = cbl_view l bs"
  by (simp_all add: cbl_ok_def cbl_view_def)

lemma cbl_list_flag [simp]: "cbl_list (l\<lparr>flag := x\<rparr>) = cbl_list l"
  by (simp add: cbl_list_def)

lemma call_remove_ok:
  fixes t :: real
  assumes reg: "registers_only run" and k: "k < length (condcb st)" and inv: "cbl_inv (condcb st ! k)"
    and fl: "flag (condcb st ! k) = 0"
  defines "cs \<equiv> cbl_list (condcb st ! k)"
  defines "st1 \<equiv> run_all run t cs (set_flag k st)"
  shows "\<exists>l. call_cblist_remove run k t st = Some (cs, st1\<lparr>condcb := (condcb st1)[k := l]\<rparr>)
    \<and> cbl_inv l \<and> flag l = 0 \<and> cbl_list (condcb st1 ! k) = cs @ cbl_list l"
proof -
  let ?st = "set_flag k st" and ?sel = "\<lambda>st. condcb st ! k"
  from inv obtain bs fs where ok: "cbl_ok (condcb st ! k) bs fs" by (auto simp: cbl_inv_def)
  have l: "len (condcb st ! k) = length bs" "first (condcb st ! k) = head_or (bs @ []) (- 1)"
    using ok by (simp_all add: cbl_ok_def)
  have sel: "?sel ?st = (condcb st ! k)\<lparr>flag := 1\<rparr>" "k < length (condcb ?st)" using k by (simp_all add: set_flag_def)
  have ok': "cbl_ok (?sel ?st) ([] @ bs @ []) fs" using ok sel by simp
  have v: "cs = map snd (cbl_view (?sel ?st) bs)" unfolding cs_def using cbl_list_ok [OF ok] sel(1) by simp
  have loop: "call_loop run ?sel t (length bs) (head_or (bs @ []) (- 1)) ?st = Some (cs, st1)"
    unfolding st1_def v
    by (rule call_loop_ok [where P = "\<lambda>st. k < length (condcb st)" and xs = "[]" and fs = fs])
      (use reg sel(2) ok' in \<open>auto simp: registers_only_def ccd_ext_def\<close>)
  have "cbl_ext (?sel ?st) (?sel st1)" unfolding st1_def using registers_all [OF reg, of ?st t cs] sel(2) by (simp add: ccd_ext_def)
  with ok' obtain bs' fs' where e: "cbl_ok (?sel st1) (bs @ bs') fs'" "cbl_view (?sel st1) bs = cbl_view (?sel ?st) bs"
    unfolding cbl_ext_def by fastforce
  from remove_n_elems_ok [OF e(1)] obtain l' fs'' where
    r: "remove_n_elems (?sel st1) (length bs) = Some l'" "cbl_ok l' bs' fs''" "cbl_view l' bs' = cbl_view (?sel st1) bs'" by blast
  have "call_cblist_remove run k t st = Some (cs, st1\<lparr>condcb := (condcb st1)[k := l'\<lparr>flag := 0\<rparr>]\<rparr>)"
    using fl l loop r(1) by (simp add: call_cblist_remove_def Let_def)
  moreover have "cbl_list (?sel st1) = cs @ cbl_list l'"
    using cbl_list_ok [OF e(1)] cbl_list_ok [OF r(2)] e(2) r(3) v by (simp add: cbl_view_def)
  ultimately show ?thesis using r(2) by (intro exI [of _ "l'\<lparr>flag := 0\<rparr>"]) (auto simp: cbl_inv_def)
qed

section \<open>Timers\<close>

text \<open>
  What the second loop of the update needs of a call: the array was neither freed nor written
  behind the heap.
\<close>

definition kept :: "('f, 'a) ccd_timers \<Rightarrow> ('f, 'a) ccd_timers \<Rightarrow> bool" where
  "kept ts ts' \<longleftrightarrow> block ts' = block ts \<and> length (ccd_heap_arr ts') = length (ccd_heap_arr ts)
    \<and> ccd_heapmaxlen ts' = ccd_heapmaxlen ts \<and> (\<forall>j > ccd_heapmaxlen ts. ccd_heap_arr ts' ! j = ccd_heap_arr ts ! j)"

lemma kept_refl: "kept ts ts"
  by (simp add: kept_def)

lemma kept_trans: "kept ts ts' \<Longrightarrow> kept ts' ts'' \<Longrightarrow> kept ts ts''"
  by (simp add: kept_def)

text \<open>Callbacks that leave the timers alone in this sense, whatever the state they are called in.\<close>

definition calm :: "('f, 'a) ccd_run \<Rightarrow> bool" where
  "calm run \<longleftrightarrow> (\<forall>c t st. kept (timers st) (timers (run c t st)))"

text \<open>
  Callbacks that schedule timers: a call inserts at most \<open>k\<close> of them and changes the heap in no
  other way. It is the next poll that finds them.
\<close>

definition ccd_schedule :: "('f, 'a) ccd_heap_elem \<Rightarrow> ('f, 'a) ccd_heap_elem list \<Rightarrow> ('f, 'a) ccd_timers \<Rightarrow> ('f, 'a) ccd_timers" where
  "ccd_schedule junk es ts = fold (\<lambda>e. ccd_heap_insert junk (etime e) (ecb e)) es ts"

definition schedules :: "nat \<Rightarrow> ('f, 'a) ccd_run \<Rightarrow> bool" where
  "schedules k run \<longleftrightarrow> (\<forall>c t st. \<exists>junk es. length es \<le> k \<and> timers (run c t st) = ccd_schedule junk es (timers st))"

lemma schedule_ok:
  assumes "timers_ok ts" "ccd_heaplen ts + length es \<le> ccd_heapmaxlen ts"
  shows "kept ts (ccd_schedule junk es ts) \<and> timers_ok (ccd_schedule junk es ts)
    \<and> ccd_heaplen (ccd_schedule junk es ts) = ccd_heaplen ts + length es
    \<and> mset (timers_view (ccd_schedule junk es ts)) = mset (timers_view ts) + mset es"
  using assms
proof (induction es arbitrary: ts)
  case Nil
  then show ?case by (simp add: ccd_schedule_def kept_refl)
next
  case (Cons e es)
  let ?ts = "ccd_heap_insert junk (etime e) (ecb e) ts"
  have room: "ccd_heaplen ts < ccd_heapmaxlen ts" using Cons.prems(2) by simp
  note i = insert_room [OF Cons.prems(1) room, of junk "etime e" "ecb e"]
  have "kept ts ?ts" using i Cons.prems(1) by (simp add: kept_def timers_ok_def)
  moreover have "ccd_heaplen ?ts + length es \<le> ccd_heapmaxlen ?ts" using i Cons.prems(2) by simp
  ultimately show ?case
    using Cons.IH [of ?ts] i kept_trans [of ts ?ts] by (simp add: ccd_schedule_def)
qed

lemma run_all_schedules:
  assumes run: "schedules k run" and ok: "timers_ok (timers st)"
    and room: "ccd_heaplen (timers st) + k * length cs \<le> ccd_heapmaxlen (timers st)"
  shows "\<exists>new. length new \<le> k * length cs \<and> kept (timers st) (timers (run_all run t cs st))
    \<and> timers_ok (timers (run_all run t cs st))
    \<and> mset (timers_view (timers (run_all run t cs st))) = mset (timers_view (timers st)) + mset new"
  using ok room
proof (induction cs arbitrary: st)
  case Nil
  then show ?case by (simp add: run_all_simps kept_refl)
next
  case (Cons c cs)
  let ?st = "run c t st"
  from run obtain junk es where es: "length es \<le> k" "timers ?st = ccd_schedule junk es (timers st)"
    unfolding schedules_def by blast
  have le: "ccd_heaplen (timers st) + length es \<le> ccd_heapmaxlen (timers st)" using es(1) Cons.prems(2) by simp
  note s = schedule_ok [OF Cons.prems(1) le, of junk, folded es(2)]
  have "ccd_heaplen (timers ?st) + k * length cs \<le> ccd_heapmaxlen (timers ?st)"
    using s es(1) Cons.prems(2) by (simp add: kept_def)
  with Cons.IH [of ?st] s obtain new where
    n: "length new \<le> k * length cs" "kept (timers ?st) (timers (run_all run t cs ?st))" "timers_ok (timers (run_all run t cs ?st))"
      "mset (timers_view (timers (run_all run t cs ?st))) = mset (timers_view (timers ?st)) + mset new" by blast
  then show ?case using s es(1) kept_trans [of "timers st" "timers ?st"]
    by (intro exI [of _ "es @ new"]) (simp add: run_all_simps)
qed

lemma run_all_calm: "calm run \<Longrightarrow> kept (timers st) (timers (run_all run t cs st))"
proof (induction cs arbitrary: st)
  case (Cons c cs)
  then show ?case using kept_trans [of "timers st" "timers (run c t st)"] by (simp add: run_all_simps calm_def)
qed (simp add: run_all_simps kept_refl)

text \<open>The second loop reads each entry when the callbacks before it have been called.\<close>

lemma call_expired_ok:
  assumes "\<And>m. m < length xs \<Longrightarrow> block (timers (run_all run t (map ecb (take m xs)) st)) = b
    \<and> e + i + m < length (ccd_heap_arr (timers (run_all run t (map ecb (take m xs)) st)))
    \<and> ccd_heap_arr (timers (run_all run t (map ecb (take m xs)) st)) ! (e + i + m) = xs ! m"
  shows "call_expired run t b e i (length xs) st = Some (map ecb xs, run_all run t (map ecb xs) st)"
  using assms
proof (induction xs arbitrary: i st)
  case Nil
  then show ?case by (simp add: run_all_simps)
next
  case (Cons x xs)
  have "call_expired run t b e (i + 1) (length xs) (run (ecb x) t st)
    = Some (map ecb xs, run_all run t (map ecb xs) (run (ecb x) t st))"
  proof (rule Cons.IH)
    fix m assume "m < length xs"
    then show "block (timers (run_all run t (map ecb (take m xs)) (run (ecb x) t st))) = b
      \<and> e + (i + 1) + m < length (ccd_heap_arr (timers (run_all run t (map ecb (take m xs)) (run (ecb x) t st))))
      \<and> ccd_heap_arr (timers (run_all run t (map ecb (take m xs)) (run (ecb x) t st))) ! (e + (i + 1) + m) = xs ! m"
      using Cons.prems [of "Suc m"] by (simp add: run_all_simps)
  qed
  with Cons.prems [of 0] show ?case by (simp add: run_all_simps)
qed

text \<open>
  The first entry that is due lies at the end of the heap and is read before any callback
  runs; the others lie behind the heap.
\<close>

lemma call_expired_first:
  assumes "ccd_heapmaxlen ts + ne \<le> length (ccd_heap_arr ts)"
    and "\<And>m. m < ne \<Longrightarrow> kept ts (timers (run_all run t (map ecb (take m (pulled ts 0 ne))) (st\<lparr>timers := ts\<rparr>)))"
  shows "call_expired run t (block ts) (ccd_heapmaxlen ts) 0 ne (st\<lparr>timers := ts\<rparr>) =
    Some (map ecb (pulled ts 0 ne), run_all run t (map ecb (pulled ts 0 ne)) (st\<lparr>timers := ts\<rparr>))"
proof -
  have l: "length (pulled ts 0 ne) = ne" by (simp add: pulled_def)
  have "call_expired run t (block ts) (ccd_heapmaxlen ts) 0 (length (pulled ts 0 ne)) (st\<lparr>timers := ts\<rparr>) =
    Some (map ecb (pulled ts 0 ne), run_all run t (map ecb (pulled ts 0 ne)) (st\<lparr>timers := ts\<rparr>))"
  proof (rule call_expired_ok)
    fix m assume m: "m < length (pulled ts 0 ne)"
    let ?s = "timers (run_all run t (map ecb (take m (pulled ts 0 ne))) (st\<lparr>timers := ts\<rparr>))"
    have k: "kept ts ?s" using assms(2) m l by simp
    have "ccd_heap_arr ?s ! (ccd_heapmaxlen ts + 0 + m) = pulled ts 0 ne ! m"
      using k m by (cases m) (simp_all add: run_all_simps pulled_def kept_def del: upt_Suc)
    then show "block ?s = block ts \<and> ccd_heapmaxlen ts + 0 + m < length (ccd_heap_arr ?s)
      \<and> ccd_heap_arr ?s ! (ccd_heapmaxlen ts + 0 + m) = pulled ts 0 ne ! m"
      using k m l assms(1) by (simp add: kept_def)
  qed
  then show ?thesis unfolding l .
qed

lemma length_view: "timers_ok ts \<Longrightarrow> length (timers_view ts) = ccd_heaplen ts"
  by (simp add: timers_view_def timers_ok_def)

lemma heap_update_pulls:
  assumes p: "pull_expired cur (timers st) 0 = (ts, ne)"
    and ts: "timers_ok ts" "ccd_heapmaxlen ts = ccd_heapmaxlen (timers st)" "block ts = block (timers st)" "ne \<le> ccd_heapmaxlen ts"
    and kept: "\<And>m. m < ne \<Longrightarrow> kept ts (timers (run_all run cur (map ecb (take m (pulled ts 0 ne))) (st\<lparr>timers := ts\<rparr>)))"
  shows "ccd_heap_update run cur st =
    Some (map ecb (pulled ts 0 ne), run_all run cur (map ecb (pulled ts 0 ne)) (st\<lparr>timers := ts\<rparr>))"
proof -
  have "ccd_heapmaxlen ts + ne \<le> length (ccd_heap_arr ts)" using ts(1,4) by (simp add: timers_ok_def)
  from call_expired_first [OF this kept] show ?thesis using p ts(2,3) by (simp add: ccd_heap_update_def)
qed

text \<open>The timers that are due at \<open>cur\<close>.\<close>

definition due_count :: "real \<Rightarrow> ('f, 'a) ccd_timers \<Rightarrow> nat" where
  "due_count cur ts = length (filter (\<lambda>e. etime e < cur) (timers_view ts))"

lemma pull_due:
  assumes ok: "timers_ok ts" and room: "ccd_heaplen ts < ccd_heapmaxlen ts" and p: "pull_expired cur ts 0 = (ts', ne)"
  shows "timers_ok ts' \<and> ccd_heapmaxlen ts' = ccd_heapmaxlen ts \<and> block ts' = block ts
    \<and> sorted (map etime (pulled ts' 0 ne)) \<and> mset (pulled ts' 0 ne) = filter_mset (\<lambda>e. etime e < cur) (mset (timers_view ts))
    \<and> mset (timers_view ts') = filter_mset (\<lambda>e. cur \<le> etime e) (mset (timers_view ts))
    \<and> due_count cur ts = ne \<and> ccd_heaplen ts' + ne = ccd_heaplen ts"
proof -
  have "ccd_heaplen ts + 0 \<le> ccd_heapmaxlen ts" using room by simp
  note q = pull_expired_ok [OF ok room this p]
  let ?es = "pulled ts' 0 ne"
  have ms: "mset (timers_view ts) = mset ?es + mset (timers_view ts')" using q by simp
  have len: "length ?es + length (timers_view ts') = ccd_heaplen ts"
    using arg_cong [OF ms, of size] length_view [OF ok] by simp
  have es: "\<forall>e \<in> set ?es. etime e < cur" "\<forall>e \<in> set (timers_view ts'). cur \<le> etime e" using q by auto
  have "filter_mset (\<lambda>e. etime e < cur) (mset ?es) = mset ?es" "filter_mset (\<lambda>e. cur \<le> etime e) (mset ?es) = {#}"
    "filter_mset (\<lambda>e. etime e < cur) (mset (timers_view ts')) = {#}"
    "filter_mset (\<lambda>e. cur \<le> etime e) (mset (timers_view ts')) = mset (timers_view ts')"
    using es by (simp_all add: mset_filter [symmetric] filter_id_conv filter_empty_conv not_le not_less del: mset_filter)
  then have f: "mset ?es = filter_mset (\<lambda>e. etime e < cur) (mset (timers_view ts))"
    "mset (timers_view ts') = filter_mset (\<lambda>e. cur \<le> etime e) (mset (timers_view ts))" using ms by simp_all
  have l: "length ?es = ne" by (simp add: pulled_def)
  moreover have "length ?es = due_count cur ts" using arg_cong [OF f(1), of size] by (simp add: due_count_def mset_filter [symmetric] del: mset_filter)
  ultimately show ?thesis using q f len length_view [of ts'] by simp
qed

lemma heap_update_ok:
  assumes ok: "timers_ok (timers st)" and full: "ccd_heaplen (timers st) < ccd_heapmaxlen (timers st)" and run: "schedules k run"
    and room: "ccd_heaplen (timers st) + k * due_count cur (timers st) \<le> ccd_heapmaxlen (timers st) + due_count cur (timers st)"
  shows "\<exists>es ts new. let st' = run_all run cur (map ecb es) (st\<lparr>timers := ts\<rparr>) in
      ccd_heap_update run cur st = Some (map ecb es, st')
    \<and> sorted (map etime es) \<and> mset es = filter_mset (\<lambda>e. etime e < cur) (mset (timers_view (timers st)))
    \<and> timers_ok ts \<and> mset (timers_view ts) = filter_mset (\<lambda>e. cur \<le> etime e) (mset (timers_view (timers st)))
    \<and> length new \<le> k * length es \<and> timers_ok (timers st')
    \<and> mset (timers_view (timers st')) = mset (timers_view ts) + mset new"
proof -
  obtain ts ne where p: "pull_expired cur (timers st) 0 = (ts, ne)" by fastforce
  note q = pull_due [OF ok full p]
  have ok': "timers_ok (timers (st\<lparr>timers := ts\<rparr>))" using q by simp
  have l: "length (pulled ts 0 ne) = ne" by (simp add: pulled_def)
  have r: "ccd_heaplen ts + k * ne \<le> ccd_heapmaxlen ts" using q room by simp
  have kept: "kept ts (timers (run_all run cur (map ecb (take m (pulled ts 0 ne))) (st\<lparr>timers := ts\<rparr>)))" if "m < ne" for m
  proof -
    have "ccd_heaplen ts + k * m \<le> ccd_heapmaxlen ts"
      by (rule order_trans [OF add_left_mono [OF mult_le_mono2] r]) (use that in simp)
    then have "ccd_heaplen (timers (st\<lparr>timers := ts\<rparr>)) + k * length (map ecb (take m (pulled ts 0 ne)))
      \<le> ccd_heapmaxlen (timers (st\<lparr>timers := ts\<rparr>))" using l that by simp
    from run_all_schedules [OF run ok' this, of cur] show ?thesis by auto
  qed
  have ne: "ne \<le> ccd_heapmaxlen ts" using q full by simp
  note u = heap_update_pulls [OF p conjunct1 [OF q] _ _ ne kept]
  have "ccd_heaplen (timers (st\<lparr>timers := ts\<rparr>)) + k * length (map ecb (pulled ts 0 ne)) \<le> ccd_heapmaxlen (timers (st\<lparr>timers := ts\<rparr>))"
    using r l by simp
  from run_all_schedules [OF run ok' this, of cur] obtain new where "length new \<le> k * length (map ecb (pulled ts 0 ne))"
    "timers_ok (timers (run_all run cur (map ecb (pulled ts 0 ne)) (st\<lparr>timers := ts\<rparr>)))"
    "mset (timers_view (timers (run_all run cur (map ecb (pulled ts 0 ne)) (st\<lparr>timers := ts\<rparr>))))
      = mset (timers_view (timers (st\<lparr>timers := ts\<rparr>))) + mset new" by blast
  then show ?thesis using q u unfolding Let_def
    by - (rule exI [of _ "pulled ts 0 ne"], rule exI [of _ ts], rule exI [of _ new], simp)
qed

lemma heap_update_full:
  assumes ok: "timers_ok (timers st)" and full: "ccd_heaplen (timers st) = ccd_heapmaxlen (timers st)" "1 < ccd_heaplen (timers st)"
    and due: "etime (ccd_heap_arr (timers st) ! 1) < cur" and calm: "calm run"
  shows "\<exists>es ts. ccd_heap_update run cur st = Some (map ecb es, run_all run cur (map ecb es) (st\<lparr>timers := ts\<rparr>))
    \<and> timers_ok ts \<and> mset es + mset (timers_view ts)
        = add_mset (hd (timers_view (timers st))) (mset (butlast (timers_view (timers st))))"
proof -
  let ?t = "timers st"
  let ?h = "ccd_heap_arr ?t" and ?m = "ccd_heapmaxlen ?t"
  define t1 where "t1 = ?t\<lparr>ccd_heaplen := ccd_heaplen ?t - 1, ccd_heap_arr := ?h[?m := ?h ! 1]\<rparr>"
  obtain ts ne where p: "pull_expired cur t1 1 = (ts, ne)" by fastforce
  have p0: "pull_expired cur ?t 0 = (ts, ne)" using pull_full [OF ok full due] p by (simp add: t1_def)
  have len: "length ?h = 2 * (?m + 1)" using ok by (simp add: timers_ok_def)
  have v: "timers_view ?t = timers_view t1 @ [?h ! ?m]"
    using full len by (simp add: timers_view_def t1_def slice_Suc slice_update_out)
  have v1: "timers_view t1 = ?h ! 1 # tl (timers_view t1)"
  proof (rule nth_equalityI)
    show "length (timers_view t1) = length (?h ! 1 # tl (timers_view t1))" using full len by (simp add: timers_view_def t1_def)
    fix i assume "i < length (timers_view t1)"
    then show "timers_view t1 ! i = (?h ! 1 # tl (timers_view t1)) ! i"
      using full len by (cases i) (simp_all add: timers_view_def t1_def nth_slice nth_tl)
  qed
  have ok1: "timers_ok t1"
  proof -
    have "tmh.heap_ok ?h ?m" using ok full tmh.heap_ok_shrink [of ?h "ccd_heaplen ?t + 1" ?m] by (simp add: timers_ok_def)
    moreover have "i div 2 \<noteq> ?m" if "i < ?m" for i using that by auto
    ultimately show ?thesis using full len by (auto simp: timers_ok_def t1_def tmh.heap_ok_def)
  qed
  have c: "ccd_heaplen t1 < ccd_heapmaxlen t1" "ccd_heaplen t1 + 1 \<le> ccd_heapmaxlen t1" using full by (simp_all add: t1_def)
  note q = pull_expired_ok [OF ok1 c p]
  have mx: "ccd_heapmaxlen t1 = ?m" "block t1 = block ?t" by (simp_all add: t1_def)
  have first: "ccd_heap_arr ts ! ?m = ?h ! 1" using q mx len by (auto simp: t1_def)
  have pl: "pulled ts 0 ne = ?h ! 1 # pulled ts 1 ne" using q mx first by (simp add: pulled_def upt_conv_Cons)
  have ms: "mset (timers_view t1) = mset (pulled ts 1 ne) + mset (timers_view ts)" using q by simp
  have "length (pulled ts 1 ne) + length (timers_view ts) = ccd_heaplen t1"
    using arg_cong [OF ms, of size] length_view [OF ok1] by simp
  then have ne: "ne \<le> ccd_heapmaxlen ts" using q mx c by (simp add: pulled_def)
  have kept: "kept ts (timers (run_all run cur (map ecb (take m (pulled ts 0 ne))) (st\<lparr>timers := ts\<rparr>)))" for m
    using run_all_calm [OF calm, of "st\<lparr>timers := ts\<rparr>"] by simp
  note u = heap_update_pulls [OF p0 conjunct1 [OF q] _ _ ne kept]
  have "hd (timers_view ?t) = ?h ! 1" "butlast (timers_view ?t) = timers_view t1" using v v1 by (metis hd_append2 list.sel(1) list.discI, simp)
  then show ?thesis using u q mx ms pl by (intro exI [of _ "pulled ts 0 ne"] exI [of _ ts]) simp
qed

section \<open>Registration\<close>

lemma ccd_inv_lists:
  assumes "ccd_inv st" "k < MAXNUMCONDS"
  shows "cbl_inv (condcb st ! k)" "cbl_inv (condcb_keep st ! k)" "k < length (condcb st)" "k < length (condcb_keep st)"
  using assms by (auto simp: ccd_inv_def)

lemma ccd_inv_update:
  assumes "ccd_inv st" "cbl_inv l"
  shows "ccd_inv (st\<lparr>condcb := (condcb st)[k := l]\<rparr>)" "ccd_inv (st\<lparr>condcb_keep := (condcb_keep st)[k := l]\<rparr>)"
  using assms set_update_subset_insert by (fastforce simp: ccd_inv_def)+

lemma append_list:
  assumes "cbl_inv l" "len l < 2 ^ 31"
  shows "\<exists>idx l'. append_elem junk l c = Some (int idx, l') \<and> cbl_inv l' \<and> cbl_list l' = cbl_list l @ [c] \<and> flag l' = flag l
    \<and> (\<exists>l''. remove_elem l' (int idx) = Some l'' \<and> cbl_inv l'' \<and> cbl_list l'' = cbl_list l)"
proof -
  from assms(1) obtain bs fs where ok: "cbl_ok l bs fs" by (auto simp: cbl_inv_def)
  from append_elem_ok [OF ok assms(2)] obtain idx l' fs' where
    a: "append_elem junk l c = Some (int idx, l')" "cbl_ok l' (bs @ [idx]) fs'"
      "cbl_view l' (bs @ [idx]) = cbl_view l bs @ [(idx, c)]" "flag l' = flag l" by blast
  from remove_elem_ok [of l' bs idx "[]" fs'] a(2) obtain l'' where
    r: "remove_elem l' (int idx) = Some l''" "cbl_ok l'' bs (idx # fs')" "cbl_view l'' bs = cbl_view l' bs" by auto
  have "cbl_view l' bs = cbl_view l bs" using a(3) by (simp add: cbl_view_def)
  then show ?thesis using a r cbl_list_ok [OF ok] cbl_list_ok [OF a(2)] cbl_list_ok [OF r(2)]
    unfolding cbl_inv_def by fastforce
qed

lemma ccd_start:
  "\<exists>st. CcdModuleInit junk reset null cur = Inr st \<and> ccd_inv st
    \<and> (\<forall>k < MAXNUMCONDS. cbl_list (condcb st ! k) = [] \<and> flag (condcb st ! k) = 0 \<and> len (condcb st ! k) = 0
        \<and> cbl_list (condcb_keep st ! k) = (if k \<le> 1 then [\<lparr>fn = reset, arg = null, cpe = CcdIGNOREPE\<rparr>] else []))
    \<and> timers_view (timers st) = [] \<and> ccd_heapmaxlen (timers st) = MAXTIMERHEAPENTRIES \<and> ccd_heaplen (timers st) = 0
    \<and> nextCall st = map ((+) cur) periodicCallInterval"
proof -
  let ?c = "\<lparr>fn = reset, arg = null, cpe = CcdIGNOREPE\<rparr>"
  have "\<exists>l. init_cblist (ecb junk) CBLIST_INIT_LEN = Some l"
    using init_cblist_ok [of CBLIST_INIT_LEN "ecb junk"] by (auto simp: CBLIST_INIT_LEN_def)
  then obtain l where l: "init_cblist (ecb junk) CBLIST_INIT_LEN = Some l" ..
  note li = cbl_list_init [OF l]
  define st where "st = \<lparr>condcb = replicate MAXNUMCONDS l, condcb_keep = replicate MAXNUMCONDS l,
     timers = \<lparr>ccd_heap_arr = replicate (2 * (MAXTIMERHEAPENTRIES + 1)) junk, ccd_heaplen = 0,
       ccd_heapmaxlen = MAXTIMERHEAPENTRIES, block = 0\<rparr>,
     nSkip = 1, lastCheck = cur, resolution = CCD_DEFAULT_RESOLUTION,
     nextCall = map (\<lambda>d. cur + d) periodicCallInterval, ccd_numchecks = 1\<rparr>"
  have inv: "ccd_inv st"
    using li by (auto simp: ccd_inv_def st_def timers_ok_def tmh.heap_ok_def MAXTIMERHEAPENTRIES_def
        periodicCallInterval_def CCD_PERIODIC_MAX_def)
  have "len l < 2 ^ 31" using li(4) by simp
  from append_list [OF li(1) this, of "ecb junk" ?c] obtain i l1 where
    a: "append_elem (ecb junk) l ?c = Some (int i, l1)" "cbl_inv l1" "cbl_list l1 = [?c]" using li(2) by auto
  define st2 where "st2 = st\<lparr>condcb_keep := ((condcb_keep st)[1 := l1])[0 := l1]\<rparr>"
  have n: "0 < MAXNUMCONDS" "1 < MAXNUMCONDS" by (simp_all add: MAXNUMCONDS_def)
  have "CcdModuleInit junk reset null cur = Inr st2"
    unfolding CcdModuleInit_def l option.case Let_def st_def [symmetric]
    using a(1) n by (simp add: CcdCallOnConditionKeep_def CcdPROCESSOR_BEGIN_IDLE_def CcdPROCESSOR_END_IDLE_def st2_def st_def)
  moreover have "ccd_inv st2"
    using ccd_inv_update(2) [OF ccd_inv_update(2) [OF inv a(2), of 1] a(2), of 0] by (simp add: st2_def)
  moreover have "condcb_keep st2 ! k = (if k \<le> 1 then l1 else l)" if "k < MAXNUMCONDS" for k
    using that n by (auto simp: st2_def st_def nth_list_update)
  ultimately show ?thesis using li a by (intro exI [of _ st2]) (auto simp: st2_def st_def timers_view_def fun_eq_iff)
qed

text \<open>
  A state in which no condition is being raised; callbacks that only register keep it.
\<close>

definition ready :: "('f, 'a) ccd \<Rightarrow> bool" where
  "ready st \<longleftrightarrow> length (condcb st) = MAXNUMCONDS \<and> length (condcb_keep st) = MAXNUMCONDS
    \<and> (\<forall>k < MAXNUMCONDS. cbl_inv (condcb st ! k) \<and> cbl_inv (condcb_keep st ! k) \<and> flag (condcb st ! k) = 0)"

lemma cbl_ext_inv: "cbl_ext l l' \<Longrightarrow> cbl_inv l \<Longrightarrow> cbl_inv l'"
  unfolding cbl_ext_def cbl_inv_def by blast

lemma ready_ext:
  assumes "ccd_ext st st'" "ready st"
  shows "ready st'"
  unfolding ready_def
proof (intro conjI allI impI)
  show "length (condcb st') = MAXNUMCONDS" "length (condcb_keep st') = MAXNUMCONDS"
    using assms by (simp_all add: ccd_ext_def ready_def)
  fix j assume "j < MAXNUMCONDS"
  then have x: "cbl_ext (condcb_keep st ! j) (condcb_keep st' ! j)" "cbl_ext (condcb st ! j) (condcb st' ! j)"
    and r: "cbl_inv (condcb st ! j)" "cbl_inv (condcb_keep st ! j)" "flag (condcb st ! j) = 0"
    using assms by (simp_all add: ccd_ext_def ready_def)
  show "cbl_inv (condcb st' ! j)" "cbl_inv (condcb_keep st' ! j)" "flag (condcb st' ! j) = 0"
    using cbl_ext_inv [OF x(1) r(2)] cbl_ext_inv [OF x(2) r(1)] x(2) r(3) by (simp_all add: cbl_ext_def)
qed

lemma raise_ok:
  assumes reg: "registers_only run" and st: "ready st" "k < MAXNUMCONDS"
  shows "\<exists>l. let cs = cbl_list (condcb st ! k);
               st1 = run_all run t cs (set_flag k st);
               ks = cbl_list (condcb_keep st1 ! k);
               st2 = run_all run t ks (st1\<lparr>condcb := (condcb st1)[k := l]\<rparr>)
           in CcdRaiseCondition run k t st = Inr (cs @ ks, st2) \<and> ready st2
            \<and> cbl_inv l \<and> flag l = 0 \<and> cbl_list (condcb st1 ! k) = cs @ cbl_list l"
proof -
  have i: "cbl_inv (condcb st ! k)" "k < length (condcb st)" "flag (condcb st ! k) = 0" "k < length (condcb_keep st)"
    using st by (simp_all add: ready_def)
  define cs where "cs = cbl_list (condcb st ! k)"
  define st1 where "st1 = run_all run t cs (set_flag k st)"
  from call_remove_ok [OF reg i(2,1,3), of t, folded cs_def, folded st1_def] obtain l where
    l: "call_cblist_remove run k t st = Some (cs, st1\<lparr>condcb := (condcb st1)[k := l]\<rparr>)"
      "cbl_inv l" "flag l = 0" "cbl_list (condcb st1 ! k) = cs @ cbl_list l" by blast
  let ?st2 = "st1\<lparr>condcb := (condcb st1)[k := l]\<rparr>"
  have e: "ccd_ext (set_flag k st) st1" unfolding st1_def by (rule registers_all [OF reg])
  have r2: "ready ?st2"
    unfolding ready_def
  proof (intro conjI allI impI)
    show "length (condcb ?st2) = MAXNUMCONDS" "length (condcb_keep ?st2) = MAXNUMCONDS"
      using e st by (simp_all add: ccd_ext_def set_flag_def ready_def)
    fix j assume j: "j < MAXNUMCONDS"
    have x: "cbl_ext (condcb_keep st ! j) (condcb_keep st1 ! j)" "j \<noteq> k \<Longrightarrow> cbl_ext (condcb st ! j) (condcb st1 ! j)"
      using e st j by (auto simp: ccd_ext_def set_flag_def ready_def)
    have r: "cbl_inv (condcb st ! j)" "cbl_inv (condcb_keep st ! j)" "flag (condcb st ! j) = 0"
      using st j by (simp_all add: ready_def)
    show "cbl_inv (condcb_keep ?st2 ! j)" using cbl_ext_inv [OF x(1) r(2)] by simp
    have "length (condcb st1) = MAXNUMCONDS" using e st by (simp add: ccd_ext_def set_flag_def ready_def)
    then have k: "condcb ?st2 ! j = (if j = k then l else condcb st1 ! j)" using j by simp
    show "cbl_inv (condcb ?st2 ! j)" unfolding k using l(2) cbl_ext_inv [OF x(2) r(1)] by simp
    show "flag (condcb ?st2 ! j) = 0" unfolding k using l(3) x(2) r(3) by (simp add: cbl_ext_def)
  qed
  have "k < length (condcb_keep ?st2)" "cbl_inv (condcb_keep ?st2 ! k)" using r2 st(2) by (simp_all add: ready_def)
  note ks = call_keep_ok [OF reg this, of t]
  have "ready (run_all run t ks ?st2)" for ks
    by (rule ready_ext [OF registers_all [OF reg] r2])
  then show ?thesis using ks l st(2) unfolding Let_def cs_def [symmetric] st1_def [symmetric]
    by (intro exI [of _ l]) (simp add: CcdRaiseCondition_def)
qed

section \<open>Polling\<close>

text \<open>Callbacks do not reschedule the periodic conditions.\<close>

definition keeps_period :: "('f, 'a) ccd_run \<Rightarrow> bool" where
  "keeps_period run \<longleftrightarrow> (\<forall>c t st. nextCall (run c t st) = nextCall st)"








section \<open>Properties\<close>

text \<open>
  C33. Raising a condition calls every callback that is registered for it exactly once, in the
  order of registration: first those registered for one call, which are removed although the
  callbacks may register others meanwhile, which stay; then those registered to be kept,
  including the ones that were added by the first group.
\<close>

theorem ccd_raise_condition:
  assumes "registers_only run" "ready st" "k < MAXNUMCONDS"
  shows "\<exists>l. let cs = cbl_list (condcb st ! k);
               st1 = run_all run t cs (set_flag k st);
               ks = cbl_list (condcb_keep st1 ! k);
               st2 = run_all run t ks (st1\<lparr>condcb := (condcb st1)[k := l]\<rparr>)
           in CcdRaiseCondition run k t st = Inr (cs @ ks, st2) \<and> ready st2
            \<and> cbl_inv l \<and> flag l = 0 \<and> cbl_list (condcb st1 ! k) = cs @ cbl_list l"
  by (rule raise_ok [OF assms])

lemma reset_run: "registers_only (\<lambda>c. CcdCallBacksReset)" "calm (\<lambda>c. CcdCallBacksReset)"
  by (auto simp: registers_only_def ccd_ext_def cbl_ext_refl calm_def kept_refl CcdCallBacksReset_def)

text \<open>Callbacks that schedule themselves again, a second later.\<close>

lemma again_run:
  "schedules 1 (\<lambda>c t. CcdCallFnAfter junk t (fn c) (arg c) 1000)"
  "registers_only (\<lambda>c t. CcdCallFnAfter junk t (fn c) (arg c) 1000)"
  "keeps_period (\<lambda>c t. CcdCallFnAfter junk t (fn c) (arg c) 1000)"
proof -
  show "schedules 1 (\<lambda>c t. CcdCallFnAfter junk t (fn c) (arg c) 1000)"
    unfolding schedules_def
  proof (intro allI)
    fix c t and st :: "('a, 'b) ccd"
    show "\<exists>j es. length es \<le> 1 \<and> timers (CcdCallFnAfter junk t (fn c) (arg c) 1000 st) = ccd_schedule j es (timers st)"
      by (intro exI [of _ junk] exI [of _ "[\<lparr>etime = t + 1, ecb = \<lparr>fn = fn c, arg = arg c, cpe = CcdIGNOREPE\<rparr>\<rparr>]"])
        (simp add: CcdCallFnAfter_def CcdCallFnAfterOnPE_def ccd_schedule_def)
  qed
qed (simp_all add: registers_only_def ccd_ext_def cbl_ext_refl keeps_period_def CcdCallFnAfter_def CcdCallFnAfterOnPE_def)

theorem ccd_raise_condition_witness:
  "\<exists>st st'. CcdModuleInit \<lparr>etime = 0, ecb = \<lparr>fn = (), arg = (), cpe = 0\<rparr>\<rparr> () () 7 = Inr st
    \<and> CcdRaiseCondition (\<lambda>c. CcdCallBacksReset) CcdPROCESSOR_BEGIN_IDLE 9 st
        = Inr ([\<lparr>fn = (), arg = (), cpe = CcdIGNOREPE\<rparr>], st')"
proof -
  from ccd_start [of "\<lparr>etime = 0, ecb = \<lparr>fn = (), arg = (), cpe = 0\<rparr>\<rparr>" "()" "()" 7] obtain st where
    s: "CcdModuleInit \<lparr>etime = 0, ecb = \<lparr>fn = (), arg = (), cpe = 0\<rparr>\<rparr> () () 7 = Inr st" "ccd_inv st"
      "\<forall>k < MAXNUMCONDS. cbl_list (condcb st ! k) = [] \<and> flag (condcb st ! k) = 0 \<and> len (condcb st ! k) = 0
        \<and> cbl_list (condcb_keep st ! k) = (if k \<le> 1 then [\<lparr>fn = (), arg = (), cpe = CcdIGNOREPE\<rparr>] else [])"
    by (elim exE conjE) (rule that)
  have k: "CcdPROCESSOR_BEGIN_IDLE < MAXNUMCONDS" "CcdPROCESSOR_BEGIN_IDLE \<le> 1"
    by (simp_all add: CcdPROCESSOR_BEGIN_IDLE_def MAXNUMCONDS_def)
  have e: "cbl_list (condcb st ! CcdPROCESSOR_BEGIN_IDLE) = []" "flag (condcb st ! CcdPROCESSOR_BEGIN_IDLE) = 0"
    "cbl_list (condcb_keep st ! CcdPROCESSOR_BEGIN_IDLE) = [\<lparr>fn = (), arg = (), cpe = CcdIGNOREPE\<rparr>]"
    using s(3) k by simp_all
  have "ready st" using s(2,3) by (auto simp: ready_def ccd_inv_def)
  from ccd_raise_condition [OF reset_run(1) this k(1), of 9] show ?thesis
    using s(1) e by (auto simp: Let_def run_all_simps set_flag_def)
qed

text \<open>
  C34. Registering a callback for a condition appends it to the callbacks of that condition and
  changes no other list; cancelling it with the index that was returned gives back the list
  as it was.
\<close>

theorem ccd_register_cancel:
  assumes "ccd_inv st" "k < MAXNUMCONDS" "len (condcb st ! k) < 2 ^ 31"
  shows "\<exists>idx l. CcdCallOnCondition junk k fnp a st = Inr (idx, st\<lparr>condcb := (condcb st)[k := l]\<rparr>)
    \<and> ccd_inv (st\<lparr>condcb := (condcb st)[k := l]\<rparr>)
    \<and> cbl_list l = cbl_list (condcb st ! k) @ [\<lparr>fn = fnp, arg = a, cpe = CcdIGNOREPE\<rparr>]
    \<and> (\<exists>l'. CcdCancelCallOnCondition k idx (st\<lparr>condcb := (condcb st)[k := l]\<rparr>) = Inr (st\<lparr>condcb := (condcb st)[k := l']\<rparr>)
        \<and> cbl_inv l' \<and> cbl_list l' = cbl_list (condcb st ! k))"
proof -
  note i = ccd_inv_lists [OF assms(1,2)]
  from append_list [OF i(1) assms(3), of junk "\<lparr>fn = fnp, arg = a, cpe = CcdIGNOREPE\<rparr>"] obtain idx l l' where
    l: "append_elem junk (condcb st ! k) \<lparr>fn = fnp, arg = a, cpe = CcdIGNOREPE\<rparr> = Some (int idx, l)" "cbl_inv l"
      "cbl_list l = cbl_list (condcb st ! k) @ [\<lparr>fn = fnp, arg = a, cpe = CcdIGNOREPE\<rparr>]"
      "remove_elem l (int idx) = Some l'" "cbl_inv l'" "cbl_list l' = cbl_list (condcb st ! k)" by blast
  then show ?thesis using assms(2) i(3) ccd_inv_update(1) [OF assms(1) l(2)]
    by (intro exI [of _ "int idx"] exI [of _ l] conjI exI [of _ l'])
      (simp_all add: CcdCallOnCondition_def CcdCancelCallOnCondition_def)
qed

theorem ccd_register_cancel_witness:
  "\<exists>st idx l. CcdModuleInit \<lparr>etime = 0, ecb = \<lparr>fn = 0, arg = (), cpe = 0\<rparr>\<rparr> (1 :: nat) () 7 = Inr st
    \<and> CcdCallOnCondition \<lparr>fn = 0, arg = (), cpe = 0\<rparr> 20 5 () st = Inr (idx, st\<lparr>condcb := (condcb st)[20 := l]\<rparr>)
    \<and> cbl_list l = [\<lparr>fn = 5, arg = (), cpe = CcdIGNOREPE\<rparr>]"
proof -
  from ccd_start [of "\<lparr>etime = 0, ecb = \<lparr>fn = 0, arg = (), cpe = 0\<rparr>\<rparr>" "1 :: nat" "()" 7] obtain st where
    s: "CcdModuleInit \<lparr>etime = 0, ecb = \<lparr>fn = 0, arg = (), cpe = 0\<rparr>\<rparr> (1 :: nat) () 7 = Inr st" "ccd_inv st"
      "\<forall>k < MAXNUMCONDS. cbl_list (condcb st ! k) = [] \<and> flag (condcb st ! k) = 0 \<and> len (condcb st ! k) = 0
        \<and> cbl_list (condcb_keep st ! k) = (if k \<le> 1 then [\<lparr>fn = 1, arg = (), cpe = CcdIGNOREPE\<rparr>] else [])"
    by (elim exE conjE) (rule that)
  have k: "20 < MAXNUMCONDS" by (simp add: MAXNUMCONDS_def)
  then have e: "cbl_list (condcb st ! 20) = []" "len (condcb st ! 20) < 2 ^ 31" using s(3) by simp_all
  from ccd_register_cancel [OF s(2) k e(2), of "\<lparr>fn = 0, arg = (), cpe = 0\<rparr>" 5 "()"] obtain idx l where
    "CcdCallOnCondition \<lparr>fn = 0, arg = (), cpe = 0\<rparr> 20 5 () st = Inr (idx, st\<lparr>condcb := (condcb st)[20 := l]\<rparr>)"
    "cbl_list l = cbl_list (condcb st ! 20) @ [\<lparr>fn = 5, arg = (), cpe = CcdIGNOREPE\<rparr>]" by blast
  with s(1) e(1) show ?thesis by auto
qed

text \<open>
  C35. A poll of the timers at time \<open>cur\<close> calls exactly the timers whose time is before
  \<open>cur\<close>, in the order of their times, and leaves the others scheduled. The callbacks may
  schedule timers themselves, at most \<open>k\<close> each: these are in the heap afterwards, together
  with those that were not due. This holds as long as the heap is not full and has room for
  the timers that the callbacks schedule once the due ones are out of it (always, when no
  callback schedules more than one): an insertion into a full heap frees the array that the
  loop reads.
\<close>

theorem ccd_timers_due:
  assumes "timers_ok (timers st)" "ccd_heaplen (timers st) < ccd_heapmaxlen (timers st)" "schedules k run"
    and "ccd_heaplen (timers st) + k * due_count cur (timers st) \<le> ccd_heapmaxlen (timers st) + due_count cur (timers st)"
  shows "\<exists>es ts new. let st' = run_all run cur (map ecb es) (st\<lparr>timers := ts\<rparr>) in
      ccd_heap_update run cur st = Some (map ecb es, st')
    \<and> sorted (map etime es) \<and> mset es = filter_mset (\<lambda>e. etime e < cur) (mset (timers_view (timers st)))
    \<and> timers_ok ts \<and> mset (timers_view ts) = filter_mset (\<lambda>e. cur \<le> etime e) (mset (timers_view (timers st)))
    \<and> length new \<le> k * length es \<and> timers_ok (timers st')
    \<and> mset (timers_view (timers st')) = mset (timers_view ts) + mset new"
  by (rule heap_update_ok [OF assms])

theorem ccd_timers_due_witness:
  "\<exists>st st'. CcdModuleInit \<lparr>etime = 0, ecb = \<lparr>fn = 0, arg = (), cpe = 0\<rparr>\<rparr> (1 :: nat) () 7 = Inr st
    \<and> ccd_heap_update (\<lambda>c t. CcdCallFnAfter \<lparr>etime = 0, ecb = \<lparr>fn = 0, arg = (), cpe = 0\<rparr>\<rparr> t (fn c) (arg c) 1000) 9
         (CcdCallFnAfter \<lparr>etime = 0, ecb = \<lparr>fn = 0, arg = (), cpe = 0\<rparr>\<rparr> 7 5 () 1000 st)
       = Some ([\<lparr>fn = 5, arg = (), cpe = CcdIGNOREPE\<rparr>], st') \<and> timers_ok (timers st')"
proof -
  let ?j = "\<lparr>etime = 0, ecb = \<lparr>fn = 0 :: nat, arg = (), cpe = 0\<rparr>\<rparr>"
  let ?run = "\<lambda>c t. CcdCallFnAfter ?j t (fn c) (arg c) 1000"
  from ccd_start [of ?j 1 "()" 7] obtain st where
    s: "CcdModuleInit ?j 1 () 7 = Inr st" "ccd_inv st" "timers_view (timers st) = []"
      "ccd_heapmaxlen (timers st) = MAXTIMERHEAPENTRIES" "ccd_heaplen (timers st) = 0"
    by (elim exE conjE) (rule that)
  have ok: "timers_ok (timers st)" and room: "ccd_heaplen (timers st) < ccd_heapmaxlen (timers st)"
    using s by (simp_all add: ccd_inv_def MAXTIMERHEAPENTRIES_def)
  let ?st = "CcdCallFnAfter ?j 7 5 () 1000 st"
  note i = insert_room [OF ok room, of ?j 8 "\<lparr>fn = 5, arg = (), cpe = CcdIGNOREPE\<rparr>"]
  have t: "timers ?st = ccd_heap_insert ?j 8 \<lparr>fn = 5, arg = (), cpe = CcdIGNOREPE\<rparr> (timers st)"
    by (simp add: CcdCallFnAfter_def CcdCallFnAfterOnPE_def)
  have "timers_ok (timers ?st)" "ccd_heaplen (timers ?st) < ccd_heapmaxlen (timers ?st)"
    "ccd_heaplen (timers ?st) + 1 * due_count 9 (timers ?st) \<le> ccd_heapmaxlen (timers ?st) + due_count 9 (timers ?st)"
    using i s unfolding t by (simp_all add: MAXTIMERHEAPENTRIES_def)
  from ccd_timers_due [OF this(1,2) again_run(1) this(3)] obtain es ts where
    e: "ccd_heap_update ?run 9 ?st = Some (map ecb es, run_all ?run 9 (map ecb es) (?st\<lparr>timers := ts\<rparr>))"
      "mset es = filter_mset (\<lambda>e. etime e < 9) (mset (timers_view (timers ?st)))"
      "timers_ok (timers (run_all ?run 9 (map ecb es) (?st\<lparr>timers := ts\<rparr>)))" unfolding Let_def by blast
  have "es = [\<lparr>etime = 8, ecb = \<lparr>fn = 5, arg = (), cpe = CcdIGNOREPE\<rparr>\<rparr>]"
    using e(2) i s(3) unfolding t by simp
  with e(1,3) s(1) show ?thesis by auto
qed

text \<open>
  C37. When the heap is full the entries that are pulled out are copied over its last entry:
  the first due timer is called or kept twice and the last entry of the heap is lost. The
  callbacks here leave the timers alone.
\<close>

theorem ccd_timers_full_lost:
  assumes "timers_ok (timers st)" "ccd_heaplen (timers st) = ccd_heapmaxlen (timers st)" "1 < ccd_heaplen (timers st)"
    and "etime (ccd_heap_arr (timers st) ! 1) < cur" "calm run"
  shows "\<exists>es ts. ccd_heap_update run cur st = Some (map ecb es, run_all run cur (map ecb es) (st\<lparr>timers := ts\<rparr>))
    \<and> timers_ok ts \<and> mset es + mset (timers_view ts)
        = add_mset (hd (timers_view (timers st))) (mset (butlast (timers_view (timers st))))"
  by (rule heap_update_full [OF assms])

theorem ccd_timers_full_lost_witness:
  "\<exists>es st'. ccd_heap_update (\<lambda>c st. CcdCallBacksReset st) 9
     \<lparr>condcb = [], condcb_keep = [],
      timers = \<lparr>ccd_heap_arr = map (\<lambda>i. \<lparr>etime = real i, ecb = \<lparr>fn = i, arg = (), cpe = 0\<rparr>\<rparr>) [0..<6],
        ccd_heaplen = 2, ccd_heapmaxlen = 2, block = 0\<rparr>,
      nSkip = 1, lastCheck = 0, resolution = 1, nextCall = [], ccd_numchecks = 1\<rparr> = Some (es, st')"
proof -
  have "timers_ok \<lparr>ccd_heap_arr = map (\<lambda>i. \<lparr>etime = real i, ecb = \<lparr>fn = i, arg = (), cpe = 0\<rparr>\<rparr>) [0..<6],
        ccd_heaplen = 2, ccd_heapmaxlen = 2, block = 0\<rparr>"
    by (auto simp: timers_ok_def tmh.heap_ok_def)
  then show ?thesis
    using ccd_timers_full_lost [where cur = 9, OF _ _ _ _ reset_run(2), of "\<lparr>condcb = [], condcb_keep = [],
      timers = \<lparr>ccd_heap_arr = map (\<lambda>i. \<lparr>etime = real i, ecb = \<lparr>fn = i, arg = (), cpe = 0\<rparr>\<rparr>) [0..<6],
        ccd_heaplen = 2, ccd_heapmaxlen = 2, block = 0\<rparr>,
      nSkip = 1, lastCheck = 0, resolution = 1, nextCall = [], ccd_numchecks = 1\<rparr>"] by auto
qed



end
