(* ===== verification/Iso_Search.thy ===== *)
theory Iso_Search
  imports Charm_Prelude "HOL-Library.Monad_Syntax"
begin

text \<open>
  The search with halving steps that the slot sets of conv-core/isomalloc.c use, in the bins of
  free blocks and in the nodes of the B-tree: its loop, and that it finds its target within the
  array.
\<close>

section \<open>The loop\<close>

text \<open>What the body of the loop decides at one index.\<close>

datatype 'r probe = Answer 'r | GoLeft | GoRight

definition halve :: "nat \<Rightarrow> nat" where
  "halve inc = (if inc div 2 = 0 then 1 else inc div 2)"

text \<open>
  The result is \<open>None\<close> when the body reads outside of its array, when the index becomes negative
  and when the loop does not end.
\<close>

partial_function (option) bsearch :: "(nat \<Rightarrow> 'r probe option) \<Rightarrow> nat \<Rightarrow> nat \<Rightarrow> 'r option" where
  "bsearch probe index inc = do {
     p \<leftarrow> probe index;
     (case p of
        Answer r \<Rightarrow> Some r
      | GoLeft \<Rightarrow> if inc \<le> index then bsearch probe (index - inc) (halve inc) else None
      | GoRight \<Rightarrow> bsearch probe (index + inc) (halve inc))
   }"

declare bsearch.simps [code]

text \<open>The start that the B-tree routines choose for \<open>n\<close> blocks.\<close>

definition mid_index :: "nat \<Rightarrow> nat" where
  "mid_index n = n div 2"

definition mid_inc :: "nat \<Rightarrow> nat" where
  "mid_inc n = mid_index n div 2 + n mod 2"

section \<open>The loop finds its target\<close>

text \<open>From index \<open>i\<close> the remaining steps stay inside of an array of \<open>n\<close> entries.\<close>

definition reach_ok :: "nat \<Rightarrow> nat \<Rightarrow> nat \<Rightarrow> bool" where
  "reach_ok n i inc \<longleftrightarrow> i < n \<and> (inc \<le> 1 \<or> 2 * inc \<le> i + 2 \<and> 2 * inc + i < n + 2)"

lemma reach_mid: "0 < n \<Longrightarrow> reach_ok n (mid_index n) (mid_inc n)"
proof -
  assume "0 < n"
  define q where "q = n div 4"
  have "n = 4 * q \<or> n = 4 * q + 1 \<or> n = 4 * q + 2 \<or> n = 4 * q + 3" unfolding q_def by presburger
  moreover have "(4 * q + 1) mod 2 = 1" "(4 * q + 3) div 2 = 2 * q + 1" "(2 * q + 1) div 2 = q" "(4 * q + 3) mod 2 = 1"
    by presburger+
  ultimately show ?thesis using \<open>0 < n\<close>
    by (elim disjE) (simp_all add: reach_ok_def mid_inc_def mid_index_def)
qed

lemma halve_cases: "halve inc = (if inc \<le> 1 then 1 else inc div 2)"
  by (auto simp: halve_def)

lemma halve_step: "2 \<le> inc \<Longrightarrow> 2 * halve inc \<le> inc"
  by (simp add: halve_cases)

lemma reach_left:
  assumes "reach_ok n i inc" "t < i"
  shows "inc \<le> i" "reach_ok n (i - inc) (halve inc)"
proof -
  show le: "inc \<le> i" using assms unfolding reach_ok_def by linarith
  show "reach_ok n (i - inc) (halve inc)"
  proof (cases "inc \<le> 1")
    case True
    then show ?thesis using assms by (simp add: reach_ok_def halve_cases)
  next
    case False
    then show ?thesis using assms le halve_step [of inc] unfolding reach_ok_def by linarith
  qed
qed

lemma reach_right:
  assumes "reach_ok n i inc" "i < t" "t < n"
  shows "reach_ok n (i + inc) (halve inc)"
proof (cases "inc \<le> 1")
  case True
  then show ?thesis using assms by (simp add: reach_ok_def halve_cases)
next
  case False
  then show ?thesis using assms halve_step [of inc] unfolding reach_ok_def by linarith
qed

text \<open>The steps that are left: the increment shrinks, then the distance to the target \<open>t\<close>.\<close>

definition steps_left :: "nat \<Rightarrow> nat \<Rightarrow> nat \<Rightarrow> nat \<Rightarrow> nat" where
  "steps_left n t i inc = (if inc \<le> 1 then (1 - inc) + (max t i - min t i) else n + inc)"

lemma steps_left_less:
  assumes "reach_ok n i inc" "t < n" "reach_ok n i' (halve inc)" "t < i \<and> i' = i - inc \<or> i < t \<and> i' = i + inc"
  shows "steps_left n t i' (halve inc) < steps_left n t i inc"
proof (cases "inc \<le> 1")
  case True
  then have "inc = 0 \<or> inc = 1" by linarith
  then show ?thesis using assms(4) by (auto simp: steps_left_def halve_def)
next
  case False
  have "max t i' < n" using assms(2,3) by (simp add: reach_ok_def)
  then have "steps_left n t i' h < n + inc" if "1 \<le> h" "h < inc" for h
    using that less_imp_diff_less [of "max t i'" n "min t i'"] by (cases "h = 1") (simp_all add: steps_left_def)
  moreover have "1 \<le> halve inc" "halve inc < inc" using False halve_step [of inc] by (simp_all add: halve_cases)
  ultimately show ?thesis using False by (simp add: steps_left_def)
qed

lemma halving_induct [consumes 2, case_names step]:
  assumes "reach_ok n i inc" "t < n"
    and step: "\<And>i inc. reach_ok n i inc \<Longrightarrow>
      (t < i \<Longrightarrow> P (i - inc) (halve inc)) \<Longrightarrow> (i < t \<Longrightarrow> P (i + inc) (halve inc)) \<Longrightarrow> P i inc"
  shows "P i inc"
  using assms(1)
proof (induction "steps_left n t i inc" arbitrary: i inc rule: less_induct)
  case less
  show ?case
  proof (rule step [OF less.prems])
    assume t: "t < i"
    have r: "reach_ok n (i - inc) (halve inc)" by (rule reach_left(2) [OF less.prems t])
    show "P (i - inc) (halve inc)"
      by (rule less.hyps [OF steps_left_less [OF less.prems assms(2) r] r]) (simp add: t)
  next
    assume t: "i < t"
    have r: "reach_ok n (i + inc) (halve inc)" by (rule reach_right [OF less.prems t assms(2)])
    show "P (i + inc) (halve inc)"
      by (rule less.hyps [OF steps_left_less [OF less.prems assms(2) r] r]) (simp add: t)
  qed
qed

lemma bsearch_finds:
  assumes "reach_ok n i inc" "t < n"
    and probe: "\<And>i. i < n \<Longrightarrow> \<exists>p. probe i = Some p \<and> (case p of Answer r \<Rightarrow> Q r | GoLeft \<Rightarrow> t < i | GoRight \<Rightarrow> i < t)"
  shows "\<exists>r. bsearch probe i inc = Some r \<and> Q r"
  using assms(1,2)
proof (induction rule: halving_induct)
  case (step i inc)
  have "i < n" using step(1) by (simp add: reach_ok_def)
  from probe [OF this] obtain p where p: "probe i = Some p"
    "case p of Answer r \<Rightarrow> Q r | GoLeft \<Rightarrow> t < i | GoRight \<Rightarrow> i < t" by blast
  show ?case
  proof (cases p)
    case (Answer r)
    then show ?thesis using p by (subst bsearch.simps) simp
  next
    case GoLeft
    then have t: "t < i" using p by simp
    then show ?thesis using p GoLeft step(2) [OF t] reach_left(1) [OF step(1) t] by (subst bsearch.simps) simp
  next
    case GoRight
    then have "i < t" using p by simp
    then show ?thesis using p GoRight step(3) by (subst bsearch.simps) simp
  qed
qed

end
