(* ===== verification/Iso_Lists.thy ===== *)
theory Iso_Lists
  imports Iso_Search
begin

text \<open>
  The free slots of a processor in conv-core/isomalloc.c: the data of a slot set and the lists
  of free blocks by size. A slot set is a B-tree of blocks and an array of doubly linked lists;
  a block names its list node and the list node points back into the tree node that holds the
  block. Addresses are natural numbers handed out in order; a freed list node is gone from the
  store, so that using it has no value.
\<close>

section \<open>Data\<close>

type_synonym iso_addr = nat

definition TREE_NODE_SIZE :: nat where "TREE_NODE_SIZE = 128"
definition TREE_NODE_MID :: nat where "TREE_NODE_MID = 63"
definition LIST_ARRAY_SIZE :: nat where "LIST_ARRAY_SIZE = 64"

text \<open>A pointer to a block: the tree node and the index in its array.\<close>

type_synonym sb_ptr = "iso_addr \<times> nat"

record dllnode =
  dprevious :: "iso_addr option"
  dsb :: sb_ptr
  dnext :: "iso_addr option"

record slotblock =
  startslot :: int
  nslots :: int
  listblock :: iso_addr

text \<open>
  A tree node with its address, the first \<open>num_blocks\<close> entries of its array of blocks, and its
  non-null children: none for a leaf.
\<close>

datatype btreenode = BNode (self: iso_addr) (blocks: "slotblock list") (child: "btreenode list")

abbreviation num_blocks :: "btreenode \<Rightarrow> nat" where
  "num_blocks node \<equiv> length (blocks node)"

record slotset =
  btree_root :: btreenode
  list_array :: "iso_addr option list"
  dlls :: "iso_addr \<Rightarrow> dllnode option"
  brk :: iso_addr

text \<open>Following a pointer to a block.\<close>

fun bt_nodes :: "btreenode \<Rightarrow> btreenode list" where
  "bt_nodes (BNode a bs cs) = BNode a bs cs # concat (map bt_nodes cs)"

definition sb_load :: "btreenode \<Rightarrow> sb_ptr \<Rightarrow> slotblock option" where
  "sb_load t p = do { node \<leftarrow> find (\<lambda>n. self n = fst p) (bt_nodes t);
     if snd p < num_blocks node then Some (blocks node ! snd p) else None }"

fun sb_store :: "btreenode \<Rightarrow> sb_ptr \<Rightarrow> slotblock \<Rightarrow> btreenode" where
  "sb_store (BNode a bs cs) p b =
    BNode a (if a = fst p then bs[snd p := b] else bs) (map (\<lambda>c. sb_store c p b) cs)"

section \<open>Bins\<close>

text \<open>
  Shifting the signed 64 bit number past its width is undefined. The loop returns only at a power of
  two, so its bin number is not negative.
\<close>

partial_function (option) list_bin_loop :: "int \<Rightarrow> int \<Rightarrow> int \<Rightarrow> nat \<Rightarrow> int option" where
  "list_bin_loop n list_bin comp_num inc =
    (if n > comp_num div 2 \<and> n \<le> comp_num then Some list_bin
     else if n < comp_num then list_bin_loop n (list_bin - int inc) (comp_num div 2 ^ inc) (halve inc)
     else if comp_num * 2 ^ inc < 2 ^ 63 then list_bin_loop n (list_bin + int inc) (comp_num * 2 ^ inc) (halve inc)
     else None)"

declare list_bin_loop.simps [code]

definition find_list_bin :: "int \<Rightarrow> nat option" where
  "find_list_bin n = map_option nat (list_bin_loop n 32 (2 ^ 32) 16)"

section \<open>List operations\<close>

text \<open>\<open>listblock->sb = loc\<close>, and an update of a link field.\<close>

definition dll_upd :: "iso_addr \<Rightarrow> (dllnode \<Rightarrow> dllnode) \<Rightarrow> slotset \<Rightarrow> slotset option" where
  "dll_upd d f ss = do { x \<leftarrow> dlls ss d; Some (ss\<lparr>dlls := (dlls ss)(d \<mapsto> f x)\<rparr>) }"

definition opt_upd :: "iso_addr option \<Rightarrow> (dllnode \<Rightarrow> dllnode) \<Rightarrow> slotset \<Rightarrow> slotset option" where
  "opt_upd p f ss = (case p of None \<Rightarrow> Some ss | Some d \<Rightarrow> dll_upd d f ss)"

definition head_upd :: "nat \<Rightarrow> iso_addr option \<Rightarrow> slotset \<Rightarrow> slotset option" where
  "head_upd bin p ss = (if bin < length (list_array ss) then Some (ss\<lparr>list_array := (list_array ss)[bin := p]\<rparr>) else None)"

definition list_insert :: "slotset \<Rightarrow> int \<Rightarrow> sb_ptr \<Rightarrow> (iso_addr \<times> slotset) option" where
  "list_insert ss n sb = do {
     list_bin \<leftarrow> find_list_bin n;
     head \<leftarrow> arr_get (list_array ss) (int list_bin);
     let new_dlln = brk ss;
     let ss = ss\<lparr>brk := brk ss + 1, dlls := (dlls ss)(new_dlln \<mapsto> \<lparr>dprevious = None, dsb = sb, dnext = head\<rparr>)\<rparr>;
     ss \<leftarrow> opt_upd head (\<lambda>x. x\<lparr>dprevious := Some new_dlln\<rparr>) ss;
     ss \<leftarrow> head_upd list_bin (Some new_dlln) ss;
     Some (new_dlln, ss)
   }"

definition list_delete :: "slotset \<Rightarrow> slotblock \<Rightarrow> slotset option" where
  "list_delete ss sb = do {
     x \<leftarrow> dlls ss (listblock sb);
     ss \<leftarrow> opt_upd (dnext x) (\<lambda>y. y\<lparr>dprevious := dprevious x\<rparr>) ss;
     ss \<leftarrow> (case dprevious x of
              Some p \<Rightarrow> dll_upd p (\<lambda>y. y\<lparr>dnext := dnext x\<rparr>) ss
            | None \<Rightarrow> do { list_bin \<leftarrow> find_list_bin (nslots sb); head_upd list_bin (dnext x) ss });
     Some (ss\<lparr>dlls := (dlls ss)(listblock sb := None)\<rparr>)
   }"

definition list_move :: "slotset \<Rightarrow> iso_addr \<Rightarrow> int \<Rightarrow> slotset option" where
  "list_move ss dlln old_nslots = do {
     old_bin \<leftarrow> find_list_bin old_nslots;
     x \<leftarrow> dlls ss dlln;
     b \<leftarrow> sb_load (btree_root ss) (dsb x);
     new_bin \<leftarrow> find_list_bin (nslots b);
     if new_bin \<noteq> old_bin then do {
       ss \<leftarrow> (case dprevious x of
                None \<Rightarrow> do { ss \<leftarrow> opt_upd (dnext x) (\<lambda>y. y\<lparr>dprevious := None\<rparr>) ss; head_upd old_bin (dnext x) ss }
              | Some p \<Rightarrow> do { ss \<leftarrow> opt_upd (dnext x) (\<lambda>y. y\<lparr>dprevious := Some p\<rparr>) ss;
                               dll_upd p (\<lambda>y. y\<lparr>dnext := dnext x\<rparr>) ss });
       head \<leftarrow> arr_get (list_array ss) (int new_bin);
       ss \<leftarrow> dll_upd dlln (\<lambda>y. y\<lparr>dnext := head, dprevious := None\<rparr>) ss;
       ss \<leftarrow> opt_upd head (\<lambda>y. y\<lparr>dprevious := Some dlln\<rparr>) ss;
       head_upd new_bin (Some dlln) ss
     } else Some ss
   }"

text \<open>Storing blocks at consecutive places of a tree node makes their list nodes point there.\<close>

definition set_sb :: "iso_addr \<Rightarrow> sb_ptr \<Rightarrow> slotset \<Rightarrow> slotset option" where
  "set_sb d loc ss = dll_upd d (\<lambda>x. x\<lparr>dsb := loc\<rparr>) ss"

fun relink :: "iso_addr \<Rightarrow> nat \<Rightarrow> slotblock list \<Rightarrow> slotset \<Rightarrow> slotset option" where
  "relink a i [] ss = Some ss"
| "relink a i (b # bs) ss = do { ss \<leftarrow> set_sb (listblock b) (a, i) ss; relink a (i + 1) bs ss }"

end
