(* ===== verification/Iso_Bins.thy ===== *)
theory Iso_Bins
  imports Iso_Lists
begin

text \<open>
  The lists of free blocks of a slot set are correct: the bin of a size is found, and inserting,
  deleting and moving a list node keep every list of the array a doubly linked list of exactly
  the nodes of its bin.
\<close>

section \<open>The bin of a size\<close>

definition bin_of :: "int \<Rightarrow> nat" where
  "bin_of n = (LEAST b. n \<le> 2 ^ b)"

lemma bin_of_le: "n \<le> 2 ^ bin_of n"
proof -
  have "n \<le> 2 ^ nat n" using of_nat_less_two_power [of "nat n"] by (cases "n \<le> 0") (auto intro: order.trans [of n 0] less_imp_le)
  then show ?thesis unfolding bin_of_def by (rule LeastI)
qed

lemma bin_of_least: "n \<le> 2 ^ b \<Longrightarrow> bin_of n \<le> b"
  unfolding bin_of_def by (rule Least_le)

lemma bin_of_mono: "m \<le> n \<Longrightarrow> bin_of m \<le> bin_of n"
  using bin_of_le [of n] by (intro bin_of_least) simp

lemma bin_of_bound: "n \<le> 2 ^ 62 \<Longrightarrow> bin_of n < LIST_ARRAY_SIZE"
  using bin_of_least [of n 62] by (simp add: LIST_ARRAY_SIZE_def)

lemma bin_of_greater: "b < bin_of n \<longleftrightarrow> 2 ^ b < n"
proof
  show "b < bin_of n \<Longrightarrow> 2 ^ b < n" using bin_of_least [of n b] by linarith
next
  assume "2 ^ b < n"
  then have "(2 :: int) ^ b < 2 ^ bin_of n" using bin_of_le [of n] by linarith
  then show "b < bin_of n" by simp
qed

lemma list_bin_loop_ok:
  assumes n: "0 < n" "n \<le> 2 ^ 62" and r: "reach_ok 63 lb inc"
  shows "list_bin_loop n (int lb) (2 ^ lb) inc = Some (int (bin_of n))"
proof -
  have t: "bin_of n < 63" using bin_of_least [OF n(2)] by simp
  show ?thesis
    using r t
  proof (induction rule: halving_induct)
    case (step i inc)
    consider "bin_of n = i" | "bin_of n < i" | "i < bin_of n" by linarith
    then show ?case
    proof cases
      case 1
      have "2 ^ i div 2 < n"
      proof (cases i)
        case (Suc j)
        then show ?thesis using 1 bin_of_greater [of j n] by simp
      qed (use n in simp)
      then show ?thesis using 1 bin_of_le [of n] by (subst list_bin_loop.simps) simp
    next
      case 2
      then obtain j where j: "i = Suc j" by (cases i) auto
      have "\<not> 2 ^ j < n" using 2 bin_of_greater [of j n] j by simp
      moreover have "n < 2 ^ i" using \<open>\<not> 2 ^ j < n\<close> j n by (simp add: not_less)
      moreover have le: "inc \<le> i" by (rule reach_left(1) [OF step(1) 2])
      ultimately have "list_bin_loop n (int i) (2 ^ i) inc = list_bin_loop n (int i - int inc) (2 ^ i div 2 ^ inc) (halve inc)"
        using j by (subst list_bin_loop.simps) simp
      also have "int i - int inc = int (i - inc)" by (rule of_nat_diff [OF le, symmetric])
      also have "(2 :: int) ^ i div 2 ^ inc = 2 ^ (i - inc)" using le by (simp add: power_diff)
      finally show ?thesis using step(2) [OF 2] by (rule trans)
    next
      case 3
      have "2 ^ i < n" using 3 bin_of_greater by simp
      moreover have "i + inc < 63" using reach_right [OF step(1) 3 t] by (simp add: reach_ok_def)
      moreover from this have "(2 :: int) ^ (i + inc) < 2 ^ 63" by (intro power_strict_increasing) simp_all
      ultimately show ?thesis using step(3) [OF 3] by (subst list_bin_loop.simps) (simp add: power_add)
    qed
  qed
qed

lemma find_list_bin_ok: "0 < n \<Longrightarrow> n \<le> 2 ^ 62 \<Longrightarrow> find_list_bin n = Some (bin_of n)"
  using list_bin_loop_ok [of n 32 16] by (simp add: find_list_bin_def reach_ok_def)

lemma list_bin_loop_stuck: "list_bin_loop n lb c inc = Some r \<Longrightarrow> \<not> (n \<le> 0 \<and> 0 \<le> c)"
proof -
  assume "list_bin_loop n lb c inc = Some r"
  then show ?thesis
  proof (rule list_bin_loop.raw_induct [where P = "\<lambda>n lb c inc r. \<not> (n \<le> 0 \<and> 0 \<le> c)", rotated])
    fix loop :: "int \<Rightarrow> int \<Rightarrow> int \<Rightarrow> nat \<Rightarrow> int option" and n lb c :: int and inc :: nat and r :: int
    assume IH: "\<And>n lb c inc r. loop n lb c inc = Some r \<Longrightarrow> \<not> (n \<le> 0 \<and> 0 \<le> c)"
      and body: "(if n > c div 2 \<and> n \<le> c then Some lb
        else if n < c then loop n (lb - int inc) (c div 2 ^ inc) (halve inc)
        else if c * 2 ^ inc < 2 ^ 63 then loop n (lb + int inc) (c * 2 ^ inc) (halve inc) else None) = Some r"
    show "\<not> (n \<le> 0 \<and> 0 \<le> c)"
    proof
      assume n: "n \<le> 0 \<and> 0 \<le> c"
      then have c: "0 \<le> c div 2" "0 \<le> c div 2 ^ inc" "0 \<le> c * 2 ^ inc" by (simp_all add: pos_imp_zdiv_nonneg_iff)
      then have "\<not> n > c div 2" using n by linarith
      with body have "loop n (lb - int inc) (c div 2 ^ inc) (halve inc) = Some r \<or> loop n (lb + int inc) (c * 2 ^ inc) (halve inc) = Some r"
        by (simp split: if_splits)
      then show False using IH n c by blast
    qed
  qed
qed

lemma find_list_bin_stuck: "n \<le> 0 \<Longrightarrow> find_list_bin n = None"
  using list_bin_loop_stuck [of n 32 "2 ^ 32" 16] by (cases "list_bin_loop n 32 (2 ^ 32) 16") (auto simp: find_list_bin_def)

section \<open>Doubly linked lists\<close>

fun hd_opt :: "'x list \<Rightarrow> 'x option \<Rightarrow> 'x option" where
  "hd_opt [] q = q"
| "hd_opt (x # xs) q = Some x"

fun last_opt :: "'x list \<Rightarrow> 'x option \<Rightarrow> 'x option" where
  "last_opt [] q = q"
| "last_opt (x # xs) q = last_opt xs (Some x)"

lemma hd_opt_append: "hd_opt (xs @ ys) q = hd_opt xs (hd_opt ys q)"
  by (cases xs) auto

lemma last_opt_append: "last_opt (xs @ ys) q = last_opt ys (last_opt xs q)"
  by (induction xs arbitrary: q) auto

text \<open>A segment between the nodes \<open>pr\<close> and \<open>nx\<close>.\<close>

fun dseg :: "(iso_addr \<Rightarrow> dllnode option) \<Rightarrow> iso_addr option \<Rightarrow> iso_addr list \<Rightarrow> iso_addr option \<Rightarrow> bool" where
  "dseg D pr [] nx = True"
| "dseg D pr (x # xs) nx = ((\<exists>n. D x = Some n \<and> dprevious n = pr \<and> dnext n = hd_opt xs nx) \<and> dseg D (Some x) xs nx)"

lemma dseg_append: "dseg D pr (xs @ ys) nx \<longleftrightarrow> dseg D pr xs (hd_opt ys nx) \<and> dseg D (last_opt xs pr) ys nx"
  by (induction xs arbitrary: pr) (auto simp: hd_opt_append)

lemma dseg_frame: "dseg D pr xs nx \<Longrightarrow> (\<And>x. x \<in> set xs \<Longrightarrow> D' x = D x) \<Longrightarrow> dseg D' pr xs nx"
  by (induction xs arbitrary: pr) auto

lemma dseg_dom: "dseg D pr xs nx \<Longrightarrow> set xs \<subseteq> dom D"
  by (induction xs arbitrary: pr) auto

text \<open>The effect of an update through a pointer that may be null.\<close>

definition upd_opt :: "iso_addr option \<Rightarrow> (dllnode \<Rightarrow> dllnode) \<Rightarrow> (iso_addr \<Rightarrow> dllnode option) \<Rightarrow> iso_addr \<Rightarrow> dllnode option" where
  "upd_opt p f D = (case p of None \<Rightarrow> D | Some d \<Rightarrow> D(d := map_option f (D d)))"

lemma upd_opt_apply: "upd_opt p f D x = (if p = Some x then map_option f (D x) else D x)"
  by (auto simp: upd_opt_def split: option.splits)

lemma opt_upd_eq: "(case p of None \<Rightarrow> True | Some d \<Rightarrow> d \<in> dom (dlls ss)) \<Longrightarrow> opt_upd p f ss = Some (ss\<lparr>dlls := upd_opt p f (dlls ss)\<rparr>)"
  by (auto simp: opt_upd_def dll_upd_def upd_opt_def split: option.splits)

lemma dll_upd_eq: "d \<in> dom (dlls ss) \<Longrightarrow> dll_upd d f ss = Some (ss\<lparr>dlls := upd_opt (Some d) f (dlls ss)\<rparr>)"
  by (auto simp: dll_upd_def upd_opt_def)

lemma dom_upd_opt [simp]: "dom (upd_opt p f D) = dom D"
  by (auto simp: upd_opt_def split: option.splits if_splits)

lemma dseg_set_prev:
  assumes "dseg D pr vs nx" "distinct vs"
  shows "dseg (upd_opt (hd_opt vs None) (\<lambda>y. y\<lparr>dprevious := pr'\<rparr>) D) pr' vs nx"
proof (cases vs)
  case (Cons v ws)
  have "dseg D (Some v) ws nx" using assms Cons by simp
  then have "dseg (upd_opt (hd_opt vs None) (\<lambda>y. y\<lparr>dprevious := pr'\<rparr>) D) (Some v) ws nx"
    by (rule dseg_frame) (use assms Cons in \<open>auto simp: upd_opt_apply\<close>)
  then show ?thesis using assms Cons by (auto simp: upd_opt_apply)
qed simp

lemma dseg_set_next:
  assumes "dseg D pr us nx" "distinct us"
  shows "dseg (upd_opt (last_opt us None) (\<lambda>y. y\<lparr>dnext := nx'\<rparr>) D) pr us nx'"
proof (cases us rule: rev_cases)
  case (snoc ws u)
  have "dseg D pr ws (Some u)" using assms snoc by (simp add: dseg_append)
  then have "dseg (upd_opt (last_opt us None) (\<lambda>y. y\<lparr>dnext := nx'\<rparr>) D) pr ws (Some u)"
    by (rule dseg_frame) (use assms snoc in \<open>auto simp: upd_opt_apply last_opt_append\<close>)
  then show ?thesis using assms snoc by (auto simp: upd_opt_apply dseg_append last_opt_append)
qed simp

definition unlinked :: "(iso_addr \<Rightarrow> dllnode option) \<Rightarrow> dllnode \<Rightarrow> iso_addr \<Rightarrow> dllnode option" where
  "unlinked D x = upd_opt (dprevious x) (\<lambda>y. y\<lparr>dnext := dnext x\<rparr>) (upd_opt (dnext x) (\<lambda>y. y\<lparr>dprevious := dprevious x\<rparr>) D)"

lemma hd_opt_None: "hd_opt xs None = Some x \<Longrightarrow> x \<in> set xs"
  by (cases xs) auto

lemma last_opt_None: "last_opt xs None = Some x \<Longrightarrow> x \<in> set xs"
  by (cases xs rule: rev_cases) (auto simp: last_opt_append)

lemma dseg_unlink:
  assumes "dseg D None (us @ d # vs) None" "distinct (us @ d # vs)" "D d = Some x"
  shows "dseg (unlinked D x) None (us @ vs) None" "dprevious x = last_opt us None" "dnext x = hd_opt vs None"
    and "\<And>y. y \<notin> set (us @ vs) \<Longrightarrow> unlinked D x y = D y"
proof -
  have x: "dprevious x = last_opt us None" "dnext x = hd_opt vs None"
    using assms by (simp_all add: dseg_append)
  then show "dprevious x = last_opt us None" "dnext x = hd_opt vs None" by simp_all
  have u: "dseg D None us (Some d)" and v: "dseg D (Some d) vs None" using assms by (simp_all add: dseg_append)
  let ?D1 = "upd_opt (hd_opt vs None) (\<lambda>y. y\<lparr>dprevious := last_opt us None\<rparr>) D"
  have v1: "dseg ?D1 (last_opt us None) vs None" using dseg_set_prev [OF v] assms(2) by simp
  have "hd_opt vs None \<noteq> Some y" if "y \<in> set us" for y using assms(2) that hd_opt_None [of vs y] by auto
  then have u1: "dseg ?D1 None us (Some d)" by (intro dseg_frame [OF u]) (simp add: upd_opt_apply)
  let ?D2 = "upd_opt (last_opt us None) (\<lambda>y. y\<lparr>dnext := hd_opt vs None\<rparr>) ?D1"
  have "dseg ?D2 None us (hd_opt vs None)" using dseg_set_next [OF u1] assms(2) by simp
  moreover have "last_opt us None \<noteq> Some y" if "y \<in> set vs" for y using assms(2) that last_opt_None [of us y] by auto
  then have "dseg ?D2 (last_opt us None) vs None" by (intro dseg_frame [OF v1]) (simp add: upd_opt_apply)
  ultimately show "dseg (unlinked D x) None (us @ vs) None" by (simp add: unlinked_def x dseg_append)
  show "unlinked D x y = D y" if "y \<notin> set (us @ vs)" for y
    using that hd_opt_None [of vs y] last_opt_None [of us y] by (auto simp: unlinked_def x upd_opt_apply)
qed

lemma dseg_push:
  assumes "dseg D None xs None" "distinct xs" "d \<notin> set xs" "D d = Some x" "dprevious x = None" "dnext x = hd_opt xs None"
  shows "dseg (upd_opt (hd_opt xs None) (\<lambda>y. y\<lparr>dprevious := Some d\<rparr>) D) None (d # xs) None"
  using assms dseg_set_prev [OF assms(1,2), of "Some d"] hd_opt_None [of xs d] by (auto simp: upd_opt_apply)

section \<open>The array of lists\<close>

text \<open>\<open>B\<close> tells the bin of each list node.\<close>

definition bins_ok :: "(iso_addr \<Rightarrow> dllnode option) \<Rightarrow> iso_addr option list \<Rightarrow> (iso_addr \<Rightarrow> nat option) \<Rightarrow> bool" where
  "bins_ok D la B \<longleftrightarrow> length la = LIST_ARRAY_SIZE \<and> dom D = dom B \<and> ran B \<subseteq> {..<LIST_ARRAY_SIZE}
    \<and> (\<forall>k < LIST_ARRAY_SIZE. \<exists>xs. dseg D None xs None \<and> la ! k = hd_opt xs None \<and> distinct xs \<and> set xs = {d. B d = Some k})"

lemma bins_list:
  assumes "bins_ok D la B" "k < LIST_ARRAY_SIZE"
  obtains xs where "dseg D None xs None" "la ! k = hd_opt xs None" "distinct xs" "set xs = {d. B d = Some k}"
  using assms unfolding bins_ok_def by blast

lemma bins_unlink:
  assumes ok: "bins_ok D la B" and d: "B d = Some k" "D d = Some x"
  shows "bins_ok ((unlinked D x)(d := None)) (if dprevious x = None then la[k := dnext x] else la) (B(d := None))"
    and "unlinked D x d = D d" "(case dnext x of None \<Rightarrow> True | Some e \<Rightarrow> e \<in> dom D)"
    and "(case dprevious x of None \<Rightarrow> True | Some e \<Rightarrow> e \<in> dom D)"
proof -
  have k: "k < LIST_ARRAY_SIZE" using ok d by (auto simp: bins_ok_def ran_def)
  obtain xs where xs: "dseg D None xs None" "la ! k = hd_opt xs None" "distinct xs" "set xs = {d. B d = Some k}"
    by (rule bins_list [OF ok k])
  have "d \<in> set xs" using xs(4) d by simp
  then obtain us vs where uv: "xs = us @ d # vs" by (auto simp: in_set_conv_decomp)
  note u = dseg_unlink [OF xs(1) [unfolded uv] xs(3) [unfolded uv] d(2)]
  have nd: "d \<notin> set (us @ vs)" using xs(3) uv by auto
  then show "unlinked D x d = D d" by (rule u(4))
  have "set (us @ vs) \<subseteq> dom D" using dseg_dom [OF xs(1)] uv by auto
  then show "(case dnext x of None \<Rightarrow> True | Some e \<Rightarrow> e \<in> dom D)" "(case dprevious x of None \<Rightarrow> True | Some e \<Rightarrow> e \<in> dom D)"
    using hd_opt_None [of vs] last_opt_None [of us] u(2,3) by (force split: option.splits)+
  let ?D = "(unlinked D x)(d := None)" and ?la = "if dprevious x = None then la[k := dnext x] else la"
  have dm: "dom ?D = dom (B(d := None))" using ok by (auto simp: bins_ok_def unlinked_def)
  have us: "us = []" if "last_opt us None = None" using that by (cases us rule: rev_cases) (simp_all add: last_opt_append)
  have list: "\<exists>ys. dseg ?D None ys None \<and> ?la ! j = hd_opt ys None \<and> distinct ys \<and> set ys = {e. (B(d := None)) e = Some j}"
    if j: "j < LIST_ARRAY_SIZE" for j
  proof (cases "j = k")
    case True
    have "dseg ?D None (us @ vs) None" by (rule dseg_frame [OF u(1)]) (use nd in auto)
    moreover have "?la ! k = hd_opt (us @ vs) None"
      using u(2,3) us xs(2) uv ok k by (cases us) (auto simp: bins_ok_def hd_opt_append)
    moreover have "set (us @ vs) = {e. (B(d := None)) e = Some k}" using xs(3,4) uv by auto
    moreover have "distinct (us @ vs)" using xs(3) uv by auto
    ultimately show ?thesis using True by blast
  next
    case False
    obtain ys where ys: "dseg D None ys None" "la ! j = hd_opt ys None" "distinct ys" "set ys = {d. B d = Some j}"
      by (rule bins_list [OF ok j])
    have "y \<notin> set xs" if "y \<in> set ys" for y using that xs(4) ys(4) False by auto
    then have "dseg ?D None ys None" by (intro dseg_frame [OF ys(1)]) (use u(4) uv in auto)
    moreover have "set ys = {e. (B(d := None)) e = Some j}" using ys(4) d False by auto
    ultimately show ?thesis using ys False by auto
  qed
  have "ran (B(d := None)) \<subseteq> {..<LIST_ARRAY_SIZE}" using ok by (auto simp: bins_ok_def ran_def)
  moreover have "length ?la = LIST_ARRAY_SIZE" using ok by (simp add: bins_ok_def)
  ultimately show "bins_ok ?D ?la (B(d := None))" unfolding bins_ok_def using dm list by blast
qed

lemma bins_push:
  assumes ok: "bins_ok D la B" and d: "d \<notin> dom B" and k: "k < LIST_ARRAY_SIZE"
    and D0: "D0 = D(d \<mapsto> \<lparr>dprevious = None, dsb = loc, dnext = la ! k\<rparr>)"
  shows "bins_ok (upd_opt (la ! k) (\<lambda>y. y\<lparr>dprevious := Some d\<rparr>) D0) (la[k := Some d]) (B(d \<mapsto> k))"
    and "(case la ! k of None \<Rightarrow> True | Some e \<Rightarrow> e \<in> dom D \<and> e \<noteq> d)"
proof -
  obtain xs where xs: "dseg D None xs None" "la ! k = hd_opt xs None" "distinct xs" "set xs = {d. B d = Some k}"
    by (rule bins_list [OF ok k])
  have nd: "d \<notin> set xs" using xs(4) d by auto
  show "(case la ! k of None \<Rightarrow> True | Some e \<Rightarrow> e \<in> dom D \<and> e \<noteq> d)"
    using xs(2) nd hd_opt_None [of xs] dseg_dom [OF xs(1)] by (auto split: option.splits)
  let ?D = "upd_opt (la ! k) (\<lambda>y. y\<lparr>dprevious := Some d\<rparr>) D0"
  have dm: "dom ?D = dom (B(d \<mapsto> k))" using ok by (auto simp: bins_ok_def D0)
  have list: "\<exists>ys. dseg ?D None ys None \<and> la[k := Some d] ! j = hd_opt ys None \<and> distinct ys \<and> set ys = {e. (B(d \<mapsto> k)) e = Some j}"
    if j: "j < LIST_ARRAY_SIZE" for j
  proof (cases "j = k")
    case True
    have "dseg D0 None xs None" by (rule dseg_frame [OF xs(1)]) (use nd in \<open>auto simp: D0\<close>)
    then have "dseg ?D None (d # xs) None" unfolding xs(2) by (rule dseg_push [OF _ xs(3) nd]) (auto simp: D0 xs(2))
    moreover have "set (d # xs) = {e. (B(d \<mapsto> k)) e = Some k}" using xs(4) by auto
    ultimately show ?thesis using True xs(3) nd k ok by (intro exI [of _ "d # xs"]) (simp add: bins_ok_def)
  next
    case False
    obtain ys where ys: "dseg D None ys None" "la ! j = hd_opt ys None" "distinct ys" "set ys = {d. B d = Some j}"
      by (rule bins_list [OF ok j])
    have "hd_opt xs None \<noteq> Some y \<and> y \<noteq> d" if "y \<in> set ys" for y
      using that xs(4) ys(4) False d hd_opt_None [of xs y] by auto
    then have "dseg ?D None ys None" unfolding xs(2) by (intro dseg_frame [OF ys(1)]) (auto simp: upd_opt_apply D0)
    moreover have "set ys = {e. (B(d \<mapsto> k)) e = Some j}" using ys(4) d False by auto
    ultimately show ?thesis using ys False by auto
  qed
  have "ran (B(d \<mapsto> k)) \<subseteq> {..<LIST_ARRAY_SIZE}" using ok k by (auto simp: bins_ok_def ran_def)
  moreover have "length (la[k := Some d]) = LIST_ARRAY_SIZE" using ok by (simp add: bins_ok_def)
  ultimately show "bins_ok ?D (la[k := Some d]) (B(d \<mapsto> k))" unfolding bins_ok_def using dm list by blast
qed

section \<open>The list operations\<close>

text \<open>Where the list nodes point, and a well-formed set of lists.\<close>

definition sb_map :: "slotset \<Rightarrow> iso_addr \<Rightarrow> sb_ptr option" where
  "sb_map ss d = map_option dsb (dlls ss d)"

definition lists_ok :: "slotset \<Rightarrow> (iso_addr \<Rightarrow> nat option) \<Rightarrow> bool" where
  "lists_ok ss B \<longleftrightarrow> bins_ok (dlls ss) (list_array ss) B \<and> dom B \<subseteq> {..<brk ss}"

definition size_ok :: "int \<Rightarrow> bool" where
  "size_ok n \<longleftrightarrow> 0 < n \<and> n \<le> 2 ^ 62"

lemma size_ok_bin: "size_ok n \<Longrightarrow> find_list_bin n = Some (bin_of n)" "size_ok n \<Longrightarrow> bin_of n < LIST_ARRAY_SIZE"
  by (simp_all add: size_ok_def find_list_bin_ok bin_of_bound)

lemma sb_map_upd_opt: "(\<And>y. dsb (f y) = dsb y) \<Longrightarrow> map_option dsb (upd_opt p f D d) = map_option dsb (D d)"
  by (cases "D d") (auto simp: upd_opt_apply)

lemma list_insert_ok:
  assumes ok: "lists_ok ss B" and n: "size_ok n"
  shows "\<exists>ss'. list_insert ss n loc = Some (brk ss, ss') \<and> lists_ok ss' (B(brk ss \<mapsto> bin_of n))
    \<and> sb_map ss' = (sb_map ss)(brk ss \<mapsto> loc) \<and> brk ss' = brk ss + 1 \<and> btree_root ss' = btree_root ss"
proof -
  let ?k = "bin_of n" and ?d = "brk ss"
  have la: "length (list_array ss) = LIST_ARRAY_SIZE" and b: "bins_ok (dlls ss) (list_array ss) B" and d: "?d \<notin> dom B"
    using ok by (auto simp: lists_ok_def bins_ok_def)
  define D0 where "D0 = (dlls ss)(?d \<mapsto> \<lparr>dprevious = None, dsb = loc, dnext = list_array ss ! ?k\<rparr>)"
  note p = bins_push [OF b d size_ok_bin(2) [OF n] D0_def]
  let ?D = "upd_opt (list_array ss ! ?k) (\<lambda>y. y\<lparr>dprevious := Some ?d\<rparr>) D0"
  let ?ss = "ss\<lparr>brk := ?d + 1, dlls := ?D, list_array := (list_array ss)[?k := Some ?d]\<rparr>"
  have "(case list_array ss ! ?k of None \<Rightarrow> True | Some d \<Rightarrow> d \<in> dom (dlls (ss\<lparr>brk := ?d + 1, dlls := D0\<rparr>)))"
    using p(2) by (auto simp: D0_def split: option.splits)
  note u = opt_upd_eq [OF this]
  have "list_insert ss n loc = Some (?d, ?ss)"
    using u size_ok_bin [OF n] la by (simp add: list_insert_def D0_def head_upd_def Let_def)
  moreover have "lists_ok ?ss (B(?d \<mapsto> ?k))" using p(1) ok by (auto simp: lists_ok_def)
  moreover have "sb_map ?ss = (sb_map ss)(?d \<mapsto> loc)"
    by (auto simp: sb_map_def sb_map_upd_opt D0_def fun_eq_iff)
  ultimately show ?thesis by auto
qed

text \<open>Taking a node out of its list, as both \<open>list_delete\<close> and \<open>list_move\<close> do it.\<close>

lemma unlink_ok:
  assumes b: "bins_ok (dlls ss) (list_array ss) B" and d: "B d = Some k" "dlls ss d = Some x"
  defines "ss' \<equiv> ss\<lparr>dlls := unlinked (dlls ss) x, list_array := if dprevious x = None then (list_array ss)[k := dnext x] else list_array ss\<rparr>"
  shows "opt_upd (dnext x) (\<lambda>y. y\<lparr>dprevious := dprevious x\<rparr>) ss \<bind>
      (\<lambda>ss. case dprevious x of None \<Rightarrow> head_upd k (dnext x) ss | Some p \<Rightarrow> dll_upd p (\<lambda>y. y\<lparr>dnext := dnext x\<rparr>) ss) = Some ss'"
proof -
  note u = bins_unlink(3,4) [OF b d]
  have k: "k < length (list_array ss)" using b d by (auto simp: bins_ok_def ran_def)
  let ?s1 = "ss\<lparr>dlls := upd_opt (dnext x) (\<lambda>y. y\<lparr>dprevious := dprevious x\<rparr>) (dlls ss)\<rparr>"
  have "opt_upd (dnext x) (\<lambda>y. y\<lparr>dprevious := dprevious x\<rparr>) ss = Some ?s1" by (rule opt_upd_eq [OF u(1)])
  moreover have "(case dprevious x of None \<Rightarrow> head_upd k (dnext x) ?s1 | Some p \<Rightarrow> dll_upd p (\<lambda>y. y\<lparr>dnext := dnext x\<rparr>) ?s1) = Some ss'"
  proof (cases "dprevious x")
    case None
    then show ?thesis using k by (simp add: head_upd_def ss'_def unlinked_def upd_opt_def [of None])
  next
    case (Some p)
    then have "p \<in> dom (dlls ?s1)" using u(2) by simp
    from dll_upd_eq [OF this, of "\<lambda>y. y\<lparr>dnext := dnext x\<rparr>"] show ?thesis
      using Some by (simp add: ss'_def unlinked_def)
  qed
  ultimately show ?thesis by simp
qed

lemma sb_map_unlinked: "map_option dsb (unlinked D x d) = map_option dsb (D d)"
  by (simp add: unlinked_def sb_map_upd_opt)

lemma list_delete_ok:
  assumes ok: "lists_ok ss B" and d: "B (listblock sb) = Some (bin_of (nslots sb))" and n: "size_ok (nslots sb)"
  shows "\<exists>ss'. list_delete ss sb = Some ss' \<and> lists_ok ss' (B(listblock sb := None))
    \<and> sb_map ss' = (sb_map ss)(listblock sb := None) \<and> brk ss' = brk ss \<and> btree_root ss' = btree_root ss"
proof -
  let ?d = "listblock sb" and ?k = "bin_of (nslots sb)"
  have b: "bins_ok (dlls ss) (list_array ss) B" using ok by (simp add: lists_ok_def)
  then have "?d \<in> dom (dlls ss)" using d by (simp add: bins_ok_def domI)
  then obtain x where x: "dlls ss ?d = Some x" by blast
  note u = bins_unlink [OF b d x]
  let ?s1 = "ss\<lparr>dlls := unlinked (dlls ss) x, list_array := if dprevious x = None then (list_array ss)[?k := dnext x] else list_array ss\<rparr>"
  let ?ss = "?s1\<lparr>dlls := (unlinked (dlls ss) x)(?d := None)\<rparr>"
  from unlink_ok [OF b d x] obtain s0 where
    s0: "opt_upd (dnext x) (\<lambda>y. y\<lparr>dprevious := dprevious x\<rparr>) ss = Some s0"
      "(case dprevious x of None \<Rightarrow> head_upd ?k (dnext x) s0 | Some p \<Rightarrow> dll_upd p (\<lambda>y. y\<lparr>dnext := dnext x\<rparr>) s0) = Some ?s1"
    unfolding Option.bind_eq_Some_conv by blast
  have "list_delete ss sb = Some ?ss"
    unfolding list_delete_def x size_ok_bin(1) [OF n] bind.bind_lunit s0(1)
    using s0(2) by (cases "dprevious x") simp_all
  moreover have "lists_ok ?ss (B(?d := None))" using u(1) ok by (auto simp: lists_ok_def)
  moreover have "sb_map ?ss = (sb_map ss)(?d := None)" by (auto simp: sb_map_def sb_map_unlinked fun_eq_iff)
  ultimately show ?thesis by auto
qed

lemma list_move_ok:
  assumes ok: "lists_ok ss B" and d: "B d = Some (bin_of old)" and p: "sb_map ss d = Some p" "sb_load (btree_root ss) p = Some b"
    and n: "size_ok old" "size_ok (nslots b)"
  shows "\<exists>ss'. list_move ss d old = Some ss' \<and> lists_ok ss' (B(d \<mapsto> bin_of (nslots b)))
    \<and> sb_map ss' = sb_map ss \<and> brk ss' = brk ss \<and> btree_root ss' = btree_root ss"
proof (cases "bin_of (nslots b) = bin_of old")
  case True
  obtain x where "dlls ss d = Some x" "dsb x = p" using p(1) by (auto simp: sb_map_def)
  moreover have "B(d \<mapsto> bin_of old) = B" using d by (simp add: fun_upd_idem)
  ultimately show ?thesis using True ok p(2) size_ok_bin(1) [OF n(1)] size_ok_bin(1) [OF n(2)]
    by (simp add: list_move_def)
next
  case False
  let ?k = "bin_of old" and ?j = "bin_of (nslots b)"
  obtain x where x: "dlls ss d = Some x" "dsb x = p" using p(1) by (auto simp: sb_map_def)
  have bo: "bins_ok (dlls ss) (list_array ss) B" using ok by (simp add: lists_ok_def)
  note u = bins_unlink [OF bo d x(1)]
  define la where "la = (if dprevious x = None then (list_array ss)[?k := dnext x] else list_array ss)"
  define D where "D = unlinked (dlls ss) x"
  have b1: "bins_ok (D(d := None)) la (B(d := None))" using u(1) by (simp add: la_def D_def)
  have Dd: "D d = Some x" using u(2) x by (simp add: D_def)
  let ?s1 = "ss\<lparr>dlls := D, list_array := la\<rparr>"
  have s1: "(case dprevious x of
                None \<Rightarrow> opt_upd (dnext x) (\<lambda>y. y\<lparr>dprevious := None\<rparr>) ss \<bind> head_upd ?k (dnext x)
              | Some p \<Rightarrow> opt_upd (dnext x) (\<lambda>y. y\<lparr>dprevious := Some p\<rparr>) ss \<bind> dll_upd p (\<lambda>y. y\<lparr>dnext := dnext x\<rparr>)) = Some ?s1"
    using unlink_ok [OF bo d x(1)] by (cases "dprevious x") (simp_all add: D_def la_def)
  define D0 where "D0 = D(d \<mapsto> x\<lparr>dnext := la ! ?j, dprevious := None\<rparr>)"
  have D0: "D0 = (D(d := None))(d \<mapsto> \<lparr>dprevious = None, dsb = dsb x, dnext = la ! ?j\<rparr>)"
    by (cases x) (simp add: D0_def)
  have "d \<notin> dom (B(d := None))" by simp
  note q = bins_push [OF b1 this size_ok_bin(2) [OF n(2)] D0]
  have len: "?j < length la" using b1 size_ok_bin(2) [OF n(2)] by (simp add: bins_ok_def)
  let ?s2 = "ss\<lparr>dlls := D0, list_array := la\<rparr>"
  have s2: "dll_upd d (\<lambda>y. y\<lparr>dnext := la ! ?j, dprevious := None\<rparr>) ?s1 = Some ?s2"
    using Dd by (simp add: dll_upd_def D0_def)
  have "(case la ! ?j of None \<Rightarrow> True | Some e \<Rightarrow> e \<in> dom (dlls ?s2))" using q(2) by (auto simp: D0_def split: option.splits)
  note s3 = opt_upd_eq [OF this]
  let ?D = "upd_opt (la ! ?j) (\<lambda>y. y\<lparr>dprevious := Some d\<rparr>) D0"
  let ?ss = "ss\<lparr>dlls := ?D, list_array := la[?j := Some d]\<rparr>"
  have "list_move ss d old = Some ?ss"
    using False x p(2) size_ok_bin(1) [OF n(1)] size_ok_bin(1) [OF n(2)] s1 s2 s3 len
    by (simp add: list_move_def head_upd_def)
  moreover have "lists_ok ?ss (B(d \<mapsto> ?j))" using q(1) ok d by (auto simp: lists_ok_def)
  moreover have "sb_map ?ss = sb_map ss"
    using x Dd by (auto simp: sb_map_def sb_map_upd_opt D0_def D_def sb_map_unlinked fun_eq_iff)
  ultimately show ?thesis by auto
qed

text \<open>Redirecting the pointers of list nodes into the tree keeps the lists.\<close>

definition same_lists :: "slotset \<Rightarrow> slotset \<Rightarrow> bool" where
  "same_lists ss ss' \<longleftrightarrow> (\<forall>B. lists_ok ss B \<longrightarrow> lists_ok ss' B) \<and> dom (sb_map ss') = dom (sb_map ss)
    \<and> brk ss' = brk ss \<and> btree_root ss' = btree_root ss"

lemma same_lists_refl [simp]: "same_lists ss ss"
  by (simp add: same_lists_def)

lemma same_lists_trans: "same_lists ss ss' \<Longrightarrow> same_lists ss' ss'' \<Longrightarrow> same_lists ss ss''"
  by (simp add: same_lists_def)

lemma dom_sb_map: "dom (sb_map ss) = dom (dlls ss)"
  by (auto simp: sb_map_def)

lemma dseg_set_sb:
  assumes "dseg D pr xs nx"
  shows "dseg (upd_opt p (\<lambda>x. x\<lparr>dsb := loc\<rparr>) D) pr xs nx"
  using assms by (induction xs arbitrary: pr) (auto simp: upd_opt_apply)

lemma set_sb_ok:
  assumes "d \<in> dom (sb_map ss)"
  shows "\<exists>ss'. set_sb d loc ss = Some ss' \<and> same_lists ss ss' \<and> sb_map ss' = (sb_map ss)(d \<mapsto> loc)"
proof -
  let ?ss = "ss\<lparr>dlls := upd_opt (Some d) (\<lambda>x. x\<lparr>dsb := loc\<rparr>) (dlls ss)\<rparr>"
  have d: "d \<in> dom (dlls ss)" using assms by (simp add: dom_sb_map)
  then have "set_sb d loc ss = Some ?ss" by (simp add: set_sb_def dll_upd_eq)
  moreover have "bins_ok (dlls ss) la B \<Longrightarrow> bins_ok (dlls ?ss) la B" for la B
    unfolding bins_ok_def using dseg_set_sb by (simp, blast)
  then have "same_lists ss ?ss" by (simp add: same_lists_def lists_ok_def dom_sb_map)
  moreover have "sb_map ?ss = (sb_map ss)(d \<mapsto> loc)" using d by (auto simp: sb_map_def upd_opt_apply fun_eq_iff)
  ultimately show ?thesis by blast
qed

lemma relink_ok:
  assumes "distinct (map listblock bs)" "listblock ` set bs \<subseteq> dom (sb_map ss)"
  shows "\<exists>ss'. relink a i bs ss = Some ss' \<and> same_lists ss ss'
    \<and> (\<forall>j < length bs. sb_map ss' (listblock (bs ! j)) = Some (a, i + j))
    \<and> (\<forall>d. d \<notin> listblock ` set bs \<longrightarrow> sb_map ss' d = sb_map ss d)"
  using assms
proof (induction bs arbitrary: i ss)
  case Nil
  then show ?case by simp
next
  case (Cons b bs)
  from set_sb_ok [of "listblock b" ss "(a, i)"] Cons.prems obtain s1 where
    s1: "set_sb (listblock b) (a, i) ss = Some s1" "same_lists ss s1" "sb_map s1 = (sb_map ss)(listblock b \<mapsto> (a, i))" by auto
  have "listblock ` set bs \<subseteq> dom (sb_map s1)" using Cons.prems s1(3) by auto
  with Cons.IH [of s1 "i + 1"] Cons.prems obtain s2 where
    s2: "relink a (i + 1) bs s1 = Some s2" "same_lists s1 s2" "\<forall>j < length bs. sb_map s2 (listblock (bs ! j)) = Some (a, i + 1 + j)"
      "\<forall>d. d \<notin> listblock ` set bs \<longrightarrow> sb_map s2 d = sb_map s1 d" by auto
  have "sb_map s2 (listblock b) = Some (a, i)" using s2(4) s1(3) Cons.prems by auto
  then have "sb_map s2 (listblock ((b # bs) ! j)) = Some (a, i + j)" if "j < length (b # bs)" for j
    using that s2(3) by (cases j) auto
  then show ?case using s1 s2 same_lists_trans [OF s1(2) s2(2)] by (intro exI [of _ s2]) auto
qed

end
