(* ===== verification/Iso_Btree.thy ===== *)
theory Iso_Btree
  imports Iso_Lists
begin

text \<open>
  The B-tree of free blocks in conv-core/isomalloc.c: search, insertion with node splits and
  deletion with rotations and merges. A loop that shifts the arrays of a node is the list
  operation it carries out, followed by the stores into the list nodes of the moved blocks.
\<close>

section \<open>Search\<close>

lemma size_child: "i < length cs \<Longrightarrow> size (cs ! i) < size (BNode a bs cs)"
  using size_list_estimation' [of "cs ! i" cs "size (cs ! i)" size] by simp

datatype find_answer = Found nat | Descend nat

definition find_probe :: "slotblock list \<Rightarrow> int \<Rightarrow> nat \<Rightarrow> find_answer probe option" where
  "find_probe bs s index = do {
     b \<leftarrow> arr_get bs (int index);
     if s \<ge> startslot b \<and> s \<le> startslot b + nslots b - 1 then Some (Answer (Found index))
     else if s < startslot b then
       (if index = 0 then Some (Answer (Descend index))
        else do { l \<leftarrow> arr_get bs (int (index - 1));
                  Some (if s > startslot l + nslots l - 1 then Answer (Descend index) else GoLeft) })
     else
       (if index = length bs - 1 then Some (Answer (Descend (index + 1)))
        else do { r \<leftarrow> arr_get bs (int (index + 1));
                  Some (if s < startslot r then Answer (Descend (index + 1)) else GoRight) })
   }"

text \<open>The result \<open>Some None\<close> is the null pointer.\<close>

function find_btree_slotblock :: "btreenode \<Rightarrow> int \<Rightarrow> sb_ptr option option" where
  "find_btree_slotblock (BNode a bs cs) s =
    (if s < 0 \<or> length bs = 0 then Some None
     else case bsearch (find_probe bs s) (mid_index (length bs)) (mid_inc (length bs)) of
            None \<Rightarrow> None
          | Some (Found index) \<Rightarrow> Some (Some (a, index))
          | Some (Descend i) \<Rightarrow> if i < length cs then find_btree_slotblock (cs ! i) s else Some None)"
  by pat_completeness auto
termination
  by (relation "measure (size \<circ> fst)") (auto simp: size_child simp del: btreenode.size)

section \<open>Insertion\<close>

definition create_btree_node :: "slotset \<Rightarrow> btreenode \<times> slotset" where
  "create_btree_node ss = (BNode (brk ss) [] [], ss\<lparr>brk := brk ss + 1\<rparr>)"

text \<open>The block and the new right neighbour that a split hands to the parent.\<close>

type_synonym insert_ret_val = "(slotblock \<times> btreenode) option"

definition split_node :: "slotset \<Rightarrow> btreenode \<Rightarrow> (slotset \<times> btreenode \<times> insert_ret_val) option" where
  "split_node ss node =
    (if num_blocks node = TREE_NODE_SIZE then do {
       let (new_node, ss) = create_btree_node ss;
       let moved = drop (TREE_NODE_MID + 1) (blocks node);
       ss \<leftarrow> relink (self new_node) 0 moved ss;
       Some (ss, BNode (self node) (take TREE_NODE_MID (blocks node)) (take (TREE_NODE_MID + 1) (child node)),
         Some (blocks node ! TREE_NODE_MID, BNode (self new_node) moved (drop (TREE_NODE_MID + 1) (child node))))
     } else Some (ss, node, None))"

text \<open>A new block at index \<open>i\<close> of a leaf.\<close>

definition insert_leaf :: "slotset \<Rightarrow> btreenode \<Rightarrow> nat \<Rightarrow> int \<Rightarrow> int \<Rightarrow> (slotset \<times> btreenode \<times> insert_ret_val) option" where
  "insert_leaf ss node i s n = do {
     ss \<leftarrow> relink (self node) (i + 1) (drop i (blocks node)) ss;
     (d, ss) \<leftarrow> list_insert ss n (self node, i);
     split_node ss (BNode (self node)
       (take i (blocks node) @ \<lparr>startslot = s, nslots = n, listblock = d\<rparr> # drop i (blocks node)) (child node))
   }"

text \<open>The block and node that a split of child \<open>i\<close> returned.\<close>

definition insert_merge :: "slotset \<Rightarrow> btreenode \<Rightarrow> nat \<Rightarrow> slotblock \<Rightarrow> btreenode \<Rightarrow> (slotset \<times> btreenode \<times> insert_ret_val) option" where
  "insert_merge ss node i sb btn = do {
     ss \<leftarrow> relink (self node) (i + 1) (drop i (blocks node)) ss;
     ss \<leftarrow> set_sb (listblock sb) (self node, i) ss;
     split_node ss (BNode (self node) (take i (blocks node) @ sb # drop i (blocks node))
       (take (i + 1) (child node) @ btn # drop (i + 1) (child node)))
   }"

text \<open>The place between two blocks to insert at: the index itself on the left, its successor on the right.\<close>

definition insert_probe :: "slotblock list \<Rightarrow> int \<Rightarrow> nat \<Rightarrow> nat probe option" where
  "insert_probe bs s index = do {
     b \<leftarrow> arr_get bs (int index);
     if s < startslot b then
       (if index = 0 then Some (Answer index)
        else do { l \<leftarrow> arr_get bs (int (index - 1));
                  Some (if s > startslot l then Answer index else GoLeft) })
     else
       (if index = length bs - 1 then Some (Answer (index + 1))
        else do { r \<leftarrow> arr_get bs (int (index + 1));
                  Some (if s < startslot r then Answer (index + 1) else GoRight) })
   }"

function btree_insert_int :: "slotset \<Rightarrow> btreenode \<Rightarrow> int \<Rightarrow> int \<Rightarrow> (slotset \<times> btreenode \<times> insert_ret_val) option" where
  "btree_insert_int ss (BNode a bs cs) s n =
    (case bsearch (insert_probe bs s) (mid_index (length bs)) (mid_inc (length bs)) of
       None \<Rightarrow> None
     | Some i \<Rightarrow>
         if i < length cs then
           (case btree_insert_int ss (cs ! i) s n of
              None \<Rightarrow> None
            | Some (ss, c, None) \<Rightarrow> Some (ss, BNode a bs (cs[i := c]), None)
            | Some (ss, c, Some (sb, btn)) \<Rightarrow> insert_merge ss (BNode a bs (cs[i := c])) i sb btn)
         else insert_leaf ss (BNode a bs cs) i s n)"
  by pat_completeness auto
termination
  by (relation "measure (\<lambda>(ss, t, s, n). size t)") (auto simp: size_child simp del: btreenode.size)

definition btree_insert :: "slotset \<Rightarrow> btreenode \<Rightarrow> int \<Rightarrow> int \<Rightarrow> (slotset \<times> btreenode) option" where
  "btree_insert ss node s n =
    (if num_blocks node = 0 then do {
       (d, ss) \<leftarrow> list_insert ss n (self node, 0);
       Some (ss, BNode (self node) [\<lparr>startslot = s, nslots = n, listblock = d\<rparr>] (child node))
     } else do {
       (ss, node, irv) \<leftarrow> btree_insert_int ss node s n;
       (case irv of
          None \<Rightarrow> Some (ss, node)
        | Some (sb, btn) \<Rightarrow> do {
            let (new_root, ss) = create_btree_node ss;
            ss \<leftarrow> set_sb (listblock sb) (self new_root, 0) ss;
            Some (ss, BNode (self new_root) [sb] [node, btn])
          })
     })"

section \<open>Deletion\<close>

text \<open>Child \<open>k\<close> takes the block before it and the last block of child \<open>k - 1\<close> replaces that.\<close>

definition rotate_right :: "slotset \<Rightarrow> btreenode \<Rightarrow> nat \<Rightarrow> (slotset \<times> btreenode) option" where
  "rotate_right ss node k = (let d = child node ! k; l = child node ! (k - 1); p = blocks node ! (k - 1) in do {
     ss \<leftarrow> relink (self d) 1 (blocks d) ss;
     ss \<leftarrow> set_sb (listblock p) (self d, 0) ss;
     let d = BNode (self d) (p # blocks d) (take 1 (drop (num_blocks l) (child l)) @ child d);
     let up = last (blocks l);
     ss \<leftarrow> set_sb (listblock up) (self node, k - 1) ss;
     let l = BNode (self l) (butlast (blocks l)) (take (num_blocks l) (child l));
     Some (ss, BNode (self node) ((blocks node)[k - 1 := up]) ((child node)[k := d, k - 1 := l]))
   })"

text \<open>Child \<open>k\<close> takes the block behind it and the first block of child \<open>k + 1\<close> replaces that.\<close>

definition rotate_left :: "slotset \<Rightarrow> btreenode \<Rightarrow> nat \<Rightarrow> (slotset \<times> btreenode) option" where
  "rotate_left ss node k = (let d = child node ! k; r = child node ! (k + 1); p = blocks node ! k in do {
     ss \<leftarrow> set_sb (listblock p) (self d, num_blocks d) ss;
     let d = BNode (self d) (blocks d @ [p]) (child d @ take 1 (child r));
     let up = hd (blocks r);
     ss \<leftarrow> set_sb (listblock up) (self node, k) ss;
     ss \<leftarrow> relink (self r) 0 (tl (blocks r)) ss;
     let r = BNode (self r) (tl (blocks r)) (drop 1 (child r));
     Some (ss, BNode (self node) ((blocks node)[k := up]) ((child node)[k := d, k + 1 := r]))
   })"

text \<open>The block between children \<open>k\<close> and \<open>k + 1\<close> and all of child \<open>k + 1\<close> are moved into child \<open>k\<close>.\<close>

definition merge_children :: "slotset \<Rightarrow> btreenode \<Rightarrow> nat \<Rightarrow> (slotset \<times> btreenode) option" where
  "merge_children ss node k = (let l = child node ! k; r = child node ! (k + 1); p = blocks node ! k in do {
     ss \<leftarrow> set_sb (listblock p) (self l, num_blocks l) ss;
     ss \<leftarrow> relink (self l) (num_blocks l + 1) (blocks r) ss;
     let l = BNode (self l) (blocks l @ p # blocks r) (child l @ child r);
     ss \<leftarrow> relink (self node) k (drop (k + 1) (blocks node)) ss;
     Some (ss, BNode (self node) (take k (blocks node) @ drop (k + 1) (blocks node))
       (take k (child node) @ l # drop (k + 2) (child node)))
   })"

text \<open>On the way back up: a deficient child at \<open>index\<close> or \<open>index + 1\<close> is refilled or merged.\<close>

definition fix_child :: "slotset \<Rightarrow> btreenode \<Rightarrow> nat \<Rightarrow> (slotset \<times> btreenode) option" where
  "fix_child ss node index = do {
     c0 \<leftarrow> arr_get (child node) (int index);
     c1 \<leftarrow> arr_get (child node) (int (index + 1));
     let def_child = (if num_blocks c0 < TREE_NODE_MID then Some index
                      else if num_blocks c1 < TREE_NODE_MID then Some (index + 1) else None);
     (case def_child of
        None \<Rightarrow> Some (ss, node)
      | Some k \<Rightarrow>
          if k \<noteq> 0 \<and> num_blocks (child node ! (k - 1)) > TREE_NODE_MID then rotate_right ss node k
          else if k + 1 \<le> num_blocks node \<and> num_blocks (child node ! (k + 1)) > TREE_NODE_MID then rotate_left ss node k
          else merge_children ss node index)
   }"

text \<open>The block \<open>i\<close> of a leaf is taken out.\<close>

definition drop_block :: "slotset \<Rightarrow> btreenode \<Rightarrow> nat \<Rightarrow> (slotset \<times> btreenode) option" where
  "drop_block ss node i = do {
     ss \<leftarrow> relink (self node) i (drop (i + 1) (blocks node)) ss;
     Some (ss, BNode (self node) (take i (blocks node) @ drop (i + 1) (blocks node)) (child node))
   }"

text \<open>The outcome of the search: the block, or the index and the child to go on with.\<close>

datatype delete_answer = Hit nat | Into nat nat

definition delete_probe :: "slotblock list \<Rightarrow> int \<Rightarrow> nat \<Rightarrow> delete_answer probe option" where
  "delete_probe bs s index = do {
     b \<leftarrow> arr_get bs (int index);
     if s = startslot b then Some (Answer (Hit index))
     else if s < startslot b then
       (if index = 0 then Some (Answer (Into index index))
        else do { l \<leftarrow> arr_get bs (int (index - 1));
                  Some (if s > startslot l then Answer (Into index index) else GoLeft) })
     else
       (if index = length bs - 1 then Some (Answer (Into index (index + 1)))
        else do { r \<leftarrow> arr_get bs (int (index + 1));
                  Some (if s < startslot r then Answer (Into index (index + 1)) else GoRight) })
   }"

text \<open>
  With a block \<open>sb\<close> of an ancestor the leftmost block below the node takes its place: the last
  component of the result is the new contents of \<open>*sb\<close>.
\<close>

function btree_delete_int :: "slotset \<Rightarrow> btreenode \<Rightarrow> int \<Rightarrow> (slotblock \<times> sb_ptr) option
    \<Rightarrow> (slotset \<times> btreenode \<times> slotblock option) option" where
  "btree_delete_int ss (BNode a bs cs) s (Some (sb, loc)) =
    (if 0 < length cs then
       (case btree_delete_int ss (cs ! 0) s (Some (sb, loc)) of
          None \<Rightarrow> None
        | Some (ss, c, r) \<Rightarrow> do { (ss, node) \<leftarrow> fix_child ss (BNode a bs (cs[0 := c])) 0; Some (ss, node, r) })
     else do {
       ss \<leftarrow> list_delete ss sb;
       b \<leftarrow> arr_get bs 0;
       ss \<leftarrow> set_sb (listblock b) loc ss;
       (ss, node) \<leftarrow> drop_block ss (BNode a bs cs) 0;
       Some (ss, node, Some b)
     })"
| "btree_delete_int ss (BNode a bs cs) s None =
    (case bsearch (delete_probe bs s) (mid_index (length bs)) (mid_inc (length bs)) of
       None \<Rightarrow> None
     | Some (Hit index) \<Rightarrow>
         if index + 1 < length cs then
           (case btree_delete_int ss (cs ! (index + 1)) s (Some (bs ! index, (a, index))) of
              None \<Rightarrow> None
            | Some (ss, c, r) \<Rightarrow> do {
                b \<leftarrow> r;
                (ss, node) \<leftarrow> fix_child ss (BNode a (bs[index := b]) (cs[index + 1 := c])) index;
                Some (ss, node, None)
              })
         else do {
           ss \<leftarrow> list_delete ss (bs ! index);
           (ss, node) \<leftarrow> drop_block ss (BNode a bs cs) index;
           Some (ss, node, None)
         }
     | Some (Into index i) \<Rightarrow>
         if i < length cs then
           (case btree_delete_int ss (cs ! i) s None of
              None \<Rightarrow> None
            | Some (ss, c, r) \<Rightarrow> do {
                (ss, node) \<leftarrow> fix_child ss (BNode a bs (cs[i := c])) index;
                Some (ss, node, None)
              })
         else None)"
  by pat_completeness auto
termination
  by (relation "measure (\<lambda>(ss, t, s, sb). size t)") (auto simp: size_child simp del: btreenode.size)

definition btree_delete :: "slotset \<Rightarrow> btreenode \<Rightarrow> int \<Rightarrow> (slotset \<times> btreenode) option" where
  "btree_delete ss node s = do {
     (ss, node, _) \<leftarrow> btree_delete_int ss node s None;
     if num_blocks node = 0 \<and> 0 < length (child node) then Some (ss, child node ! 0) else Some (ss, node)
   }"

end
