(* ===== verification/Iso_Slots.thy ===== *)
theory Iso_Slots
  imports Iso_Btree
begin

text \<open>
  The operations on a slot set of conv-core/isomalloc.c: creation, the search for free slots,
  taking a range of slots and giving one back.
\<close>

definition new_slotset :: "int \<Rightarrow> int \<Rightarrow> slotset option" where
  "new_slotset s n = do {
     list_bin \<leftarrow> find_list_bin n;
     if list_bin < LIST_ARRAY_SIZE then
       Some \<lparr>btree_root = BNode 0 [\<lparr>startslot = s, nslots = n, listblock = 1\<rparr>] [],
             list_array = (replicate LIST_ARRAY_SIZE None)[list_bin := Some 1],
             dlls = [1 \<mapsto> \<lparr>dprevious = None, dsb = (0, 0), dnext = None\<rparr>],
             brk = 2\<rparr>
     else None
   }"

text \<open>The search through one list: \<open>Some None\<close> when no block is large enough.\<close>

partial_function (option) bin_walk :: "slotset \<Rightarrow> int \<Rightarrow> iso_addr option \<Rightarrow> int option option" where
  "bin_walk ss n dlln =
    (case dlln of
       None \<Rightarrow> Some None
     | Some d \<Rightarrow> do {
         x \<leftarrow> dlls ss d;
         b \<leftarrow> sb_load (btree_root ss) (dsb x);
         if nslots b \<ge> n then Some (Some (startslot b)) else bin_walk ss n (dnext x)
       })"

declare bin_walk.simps [code]

fun bins_walk :: "slotset \<Rightarrow> int \<Rightarrow> nat list \<Rightarrow> int option" where
  "bins_walk ss n [] = Some (- 1)"
| "bins_walk ss n (i # is) = do {
     dlln \<leftarrow> arr_get (list_array ss) (int i);
     r \<leftarrow> bin_walk ss n dlln;
     (case r of Some s \<Rightarrow> Some s | None \<Rightarrow> bins_walk ss n is)
   }"

definition get_slots :: "slotset \<Rightarrow> int \<Rightarrow> int option" where
  "get_slots ss n = do { start_list \<leftarrow> find_list_bin n; bins_walk ss n [start_list..<LIST_ARRAY_SIZE] }"

text \<open>Updating the block that a pointer refers to, then moving its list node to the right list.\<close>

definition resize_block :: "slotset \<Rightarrow> sb_ptr \<Rightarrow> (slotblock \<Rightarrow> slotblock) \<Rightarrow> slotset option" where
  "resize_block ss p f = do {
     sb \<leftarrow> sb_load (btree_root ss) p;
     let old_nslots = nslots sb;
     let ss = ss\<lparr>btree_root := sb_store (btree_root ss) p (f sb)\<rparr>;
     list_move ss (listblock sb) old_nslots
   }"

definition root_insert :: "slotset \<Rightarrow> int \<Rightarrow> int \<Rightarrow> slotset option" where
  "root_insert ss s n = do { (ss, node) \<leftarrow> btree_insert ss (btree_root ss) s n; Some (ss\<lparr>btree_root := node\<rparr>) }"

definition root_delete :: "slotset \<Rightarrow> int \<Rightarrow> slotset option" where
  "root_delete ss s = do { (ss, node) \<leftarrow> btree_delete ss (btree_root ss) s; Some (ss\<lparr>btree_root := node\<rparr>) }"

text \<open>\<open>Inl ()\<close> is the call of \<open>CmiAbort\<close>.\<close>

definition grab_slots :: "slotset \<Rightarrow> int \<Rightarrow> int \<Rightarrow> (unit + slotset) option" where
  "grab_slots ss sslot n = do {
     r \<leftarrow> find_btree_slotblock (btree_root ss) sslot;
     (case r of
        None \<Rightarrow> Some (Inl ())
      | Some p \<Rightarrow> do {
          sb \<leftarrow> sb_load (btree_root ss) p;
          let endslot = startslot sb + nslots sb - 1;
          ss \<leftarrow> (if startslot sb = sslot then
                   if nslots sb = n then root_delete ss sslot
                   else resize_block ss p (\<lambda>b. b\<lparr>startslot := startslot b + n, nslots := nslots b - n\<rparr>)
                 else if endslot = sslot + n - 1 then resize_block ss p (\<lambda>b. b\<lparr>nslots := nslots b - n\<rparr>)
                 else do {
                   ss \<leftarrow> resize_block ss p (\<lambda>b. b\<lparr>nslots := sslot - startslot b\<rparr>);
                   root_insert ss (sslot + n) (endslot - (sslot + n) + 1)
                 });
          Some (Inr ss)
        })
   }"

definition free_slots :: "slotset \<Rightarrow> int \<Rightarrow> int \<Rightarrow> slotset option" where
  "free_slots ss sslot n = do {
     sb_low \<leftarrow> find_btree_slotblock (btree_root ss) (sslot - 1);
     sb_high \<leftarrow> find_btree_slotblock (btree_root ss) (sslot + n);
     (case sb_low of
        None \<Rightarrow>
          (case sb_high of
             None \<Rightarrow> root_insert ss sslot n
           | Some h \<Rightarrow> resize_block ss h (\<lambda>b. b\<lparr>startslot := sslot, nslots := nslots b + n\<rparr>))
      | Some l \<Rightarrow>
          (case sb_high of
             None \<Rightarrow> resize_block ss l (\<lambda>b. b\<lparr>nslots := nslots b + n\<rparr>)
           | Some h \<Rightarrow> do {
               b_high \<leftarrow> sb_load (btree_root ss) h;
               ss \<leftarrow> resize_block ss l (\<lambda>b. b\<lparr>nslots := nslots b + n + nslots b_high\<rparr>);
               b_high \<leftarrow> sb_load (btree_root ss) h;
               root_delete ss (startslot b_high)
             }))
   }"

end
