(* ===== verification/Iso_Tree.thy ===== *)
theory Iso_Tree
  imports Iso_Bins Iso_Slots
begin

text \<open>
  The views of the B-tree that its operations are specified with: the blocks in order, the
  shape of a balanced tree, the pointers of the list nodes into it, and the addresses of its
  nodes. The searches in a node and in the tree find the block they look for.
\<close>

section \<open>Children and blocks in order\<close>

fun weave :: "'x list list \<Rightarrow> 'x list \<Rightarrow> 'x list" where
  "weave cs [] = concat cs"
| "weave [] (x # xs) = x # weave [] xs"
| "weave (c # cs) (x # xs) = c @ x # weave cs xs"

lemma weave_leaf [simp]: "weave [] xs = xs"
  by (induction xs) auto

lemma weave_append: "length cs = length xs \<Longrightarrow> weave (cs @ ds) (xs @ ys) = weave cs xs @ weave ds ys"
  by (induction cs xs rule: list_induct2) auto

lemma weave_first: "weave (c # cs) xs = c @ weave ([] # cs) xs"
  by (cases xs) auto

lemma weave_snoc: "length cs = length xs \<Longrightarrow> weave (cs @ [c]) xs = weave cs xs @ c"
  using weave_append [of cs xs "[c]" "[]"] by simp

lemma weave_at:
  "length cs = length xs \<Longrightarrow> weave (cs @ c # ds) (xs @ ys) = weave cs xs @ c @ weave ([] # ds) ys"
  by (simp add: weave_append weave_first [of c])

lemma weave_snocs: "length cs = length xs \<Longrightarrow> weave (cs @ [c]) (xs @ [x]) = weave cs xs @ c @ [x]"
  by (simp add: weave_append)

lemma set_weave: "set (weave cs xs) = set xs \<union> (\<Union>c \<in> set cs. set c)"
  by (induction cs xs rule: weave.induct) auto

lemma weave_last: "length cs = length xs \<Longrightarrow> xs \<noteq> [] \<Longrightarrow> \<exists>us. weave cs xs = us @ [last xs]"
  by (cases cs rule: rev_cases; cases xs rule: rev_cases) (auto simp: weave_snocs)

section \<open>Views\<close>

fun inorder :: "btreenode \<Rightarrow> slotblock list" where
  "inorder (BNode a bs cs) = weave (map inorder cs) bs"

fun backed :: "(iso_addr \<Rightarrow> sb_ptr option) \<Rightarrow> btreenode \<Rightarrow> bool" where
  "backed M (BNode a bs cs) \<longleftrightarrow> (\<forall>i < length bs. M (listblock (bs ! i)) = Some (a, i)) \<and> (\<forall>c \<in> set cs. backed M c)"

fun addrs :: "btreenode \<Rightarrow> iso_addr list" where
  "addrs (BNode a bs cs) = a # concat (map addrs cs)"

text \<open>
  A tree of height \<open>h\<close> whose root has at least \<open>m\<close> blocks and whose other nodes have at least
  \<open>TREE_NODE_MID\<close>.
\<close>

primrec bt_ok :: "nat \<Rightarrow> nat \<Rightarrow> btreenode \<Rightarrow> bool" where
  "bt_ok m 0 t \<longleftrightarrow> child t = [] \<and> m \<le> num_blocks t \<and> num_blocks t < TREE_NODE_SIZE"
| "bt_ok m (Suc h) t \<longleftrightarrow> length (child t) = Suc (num_blocks t) \<and> m \<le> num_blocks t \<and> num_blocks t < TREE_NODE_SIZE
    \<and> (\<forall>c \<in> set (child t). bt_ok TREE_NODE_MID h c)"

abbreviation ids :: "btreenode \<Rightarrow> iso_addr set" where
  "ids t \<equiv> listblock ` set (inorder t)"

definition contains :: "slotblock \<Rightarrow> int \<Rightarrow> bool" where
  "contains b s \<longleftrightarrow> startslot b \<le> s \<and> s < startslot b + nslots b"

text \<open>The start slots increase; with room for the slots between them the blocks are disjoint.\<close>

definition starts_up :: "slotblock list \<Rightarrow> bool" where
  "starts_up bs \<longleftrightarrow> sorted_wrt (\<lambda>x y. startslot x < startslot y) bs"

definition disjoint_up :: "slotblock list \<Rightarrow> bool" where
  "disjoint_up bs \<longleftrightarrow> sorted_wrt (\<lambda>x y. startslot x + nslots x \<le> startslot y) bs \<and> (\<forall>b \<in> set bs. 0 < nslots b)"

lemma disjoint_starts: "disjoint_up bs \<Longrightarrow> starts_up bs"
  unfolding disjoint_up_def starts_up_def by (auto elim!: sorted_wrt_mono_rel [rotated])

lemma starts_append: "starts_up (xs @ ys) \<longleftrightarrow> starts_up xs \<and> starts_up ys \<and> (\<forall>x \<in> set xs. \<forall>y \<in> set ys. startslot x < startslot y)"
  by (simp add: starts_up_def sorted_wrt_append)

lemma starts_simps [simp]: "starts_up []" "starts_up (x # xs) \<longleftrightarrow> (\<forall>y \<in> set xs. startslot x < startslot y) \<and> starts_up xs"
  by (simp_all add: starts_up_def)

lemma disjoint_simps [simp]: "disjoint_up []"
  "disjoint_up (x # xs) \<longleftrightarrow> 0 < nslots x \<and> (\<forall>y \<in> set xs. startslot x + nslots x \<le> startslot y) \<and> disjoint_up xs"
  by (auto simp: disjoint_up_def)

lemma disjoint_append: "disjoint_up (xs @ ys) \<longleftrightarrow>
    disjoint_up xs \<and> disjoint_up ys \<and> (\<forall>x \<in> set xs. \<forall>y \<in> set ys. startslot x + nslots x \<le> startslot y)"
  by (auto simp: disjoint_up_def sorted_wrt_append)

lemma backed_cong: "(\<And>d. d \<in> ids t \<Longrightarrow> M d = M' d) \<Longrightarrow> backed M t = backed M' t"
proof (induction t)
  case (BNode a bs cs)
  have "backed M c = backed M' c" if "c \<in> set cs" for c
    using that BNode.prems by (intro BNode.IH) (auto simp: set_weave)
  moreover have "M (listblock (bs ! i)) = M' (listblock (bs ! i))" if "i < length bs" for i
    using that by (intro BNode.prems) (auto simp: set_weave)
  ultimately show ?case by simp
qed

lemma backed_ids: "backed M t \<Longrightarrow> ids t \<subseteq> dom M"
proof (induction t)
  case (BNode a bs cs)
  then have "ids c \<subseteq> dom M" if "c \<in> set cs" for c using that by simp
  moreover have "listblock ` set bs \<subseteq> dom M" using BNode.prems by (auto simp: in_set_conv_nth)
  ultimately show ?case by (simp add: set_weave image_Un image_UN UN_subset_iff)
qed

section \<open>Search in a node\<close>

text \<open>Index \<open>i\<close> separates the blocks that start before \<open>s\<close> from those that start behind it.\<close>

definition gap :: "slotblock list \<Rightarrow> int \<Rightarrow> nat \<Rightarrow> bool" where
  "gap bs s i \<longleftrightarrow> i \<le> length bs \<and> (\<forall>x \<in> set (take i bs). startslot x < s) \<and> (\<forall>x \<in> set (drop i bs). s < startslot x)"

text \<open>The number of blocks that start before \<open>s\<close>.\<close>

definition below :: "slotblock list \<Rightarrow> int \<Rightarrow> nat" where
  "below bs s = length (filter (\<lambda>x. startslot x < s) bs)"

lemma starts_nth: "starts_up bs \<Longrightarrow> i < j \<Longrightarrow> j < length bs \<Longrightarrow> startslot (bs ! i) < startslot (bs ! j)"
  by (simp add: starts_up_def sorted_wrt_iff_nth_less)

lemma below_nth: "starts_up bs \<Longrightarrow> i < length bs \<Longrightarrow> i < below bs s \<longleftrightarrow> startslot (bs ! i) < s"
proof (induction bs arbitrary: i)
  case Nil
  then show ?case by simp
next
  case (Cons b bs)
  have up: "starts_up bs" "\<forall>x \<in> set bs. startslot b < startslot x" using Cons.prems by (simp_all add: starts_up_def)
  show ?case
  proof (cases "startslot b < s")
    case True
    then show ?thesis using Cons.IH [OF up(1)] Cons.prems by (cases i) (simp_all add: below_def)
  next
    case False
    then have "filter (\<lambda>x. startslot x < s) (b # bs) = []" using up(2) by (auto simp: filter_empty_conv)
    moreover have "\<not> startslot ((b # bs) ! i) < s"
    proof (cases i)
      case (Suc j)
      then have "startslot b < startslot (bs ! j)" using up(2) Cons.prems by simp
      then show ?thesis using False Suc by simp
    qed (use False in simp)
    ultimately show ?thesis by (simp add: below_def)
  qed
qed

lemma below_le: "below bs s \<le> length bs"
  by (simp add: below_def)

lemma starts_le: "starts_up bs \<Longrightarrow> i \<le> j \<Longrightarrow> j < length bs \<Longrightarrow> startslot (bs ! i) \<le> startslot (bs ! j)"
  using starts_nth [of bs i j] by (cases "i = j") auto

lemma gapI:
  assumes up: "starts_up bs" and i: "i \<le> length bs" "0 < i \<Longrightarrow> startslot (bs ! (i - 1)) < s" "i < length bs \<Longrightarrow> s < startslot (bs ! i)"
  shows "gap bs s i"
proof -
  have "startslot (bs ! j) < s" if "j < i" for j
  proof -
    have "j \<le> i - 1" "i - 1 < length bs" using that i by auto
    from starts_le [OF up this] show ?thesis using that i by simp
  qed
  moreover have "s < startslot (bs ! (i + j))" if "j < length bs - i" for j
  proof -
    have "i + j < length bs" "i < length bs" using that by simp_all
    then show ?thesis using starts_le [OF up, of i "i + j"] i(3) by simp
  qed
  ultimately show ?thesis using i by (auto simp: gap_def in_set_conv_nth)
qed

lemma gap_left: "gap bs s i \<Longrightarrow> j < i \<Longrightarrow> startslot (bs ! j) < s"
  by (simp add: gap_def all_set_conv_all_nth)

lemma gap_right: "gap bs s i \<Longrightarrow> i < length bs \<Longrightarrow> s < startslot (bs ! i)"
  by (simp add: gap_def drop_nth_Cons)

text \<open>The entry that the searches head for.\<close>

lemma bsearch_mid:
  assumes "0 < length bs" "\<And>i. i < length bs \<Longrightarrow> \<exists>p. probe i = Some p
      \<and> (case p of Answer r \<Rightarrow> Q r | GoLeft \<Rightarrow> min k (length bs - 1) < i | GoRight \<Rightarrow> i < min k (length bs - 1))"
  shows "\<exists>r. bsearch probe (mid_index (length bs)) (mid_inc (length bs)) = Some r \<and> Q r"
proof (rule bsearch_finds [OF reach_mid [OF assms(1)]])
  show "min k (length bs - 1) < length bs" using assms(1) by linarith
qed (rule assms(2))

lemma insert_search:
  assumes up: "starts_up bs" and ne: "0 < length bs" and s: "s \<notin> startslot ` set bs"
  shows "\<exists>i. bsearch (insert_probe bs s) (mid_index (length bs)) (mid_inc (length bs)) = Some i \<and> gap bs s i"
proof (rule bsearch_mid [OF ne, where k = "below bs s"])
  fix i assume i: "i < length bs"
  have neq: "startslot (bs ! j) \<noteq> s" if "j < length bs" for j using that s by auto
  have lt: "j < below bs s \<longleftrightarrow> startslot (bs ! j) < s" if "j < length bs" for j by (rule below_nth [OF up that])
  show "\<exists>p. insert_probe bs s i = Some p \<and> (case p of Answer r \<Rightarrow> gap bs s r
      | GoLeft \<Rightarrow> min (below bs s) (length bs - 1) < i | GoRight \<Rightarrow> i < min (below bs s) (length bs - 1))"
  proof (cases "s < startslot (bs ! i)")
    case True
    then show ?thesis using i lt [of "i - 1"] neq [of "i - 1"] gapI [OF up, of i s] by (auto simp: insert_probe_def)
  next
    case False
    then show ?thesis using i lt [of "i + 1"] neq [of i] neq [of "i + 1"] gapI [OF up, of "i + 1" s]
      by (auto simp: insert_probe_def)
  qed
qed

lemma delete_search:
  assumes up: "starts_up bs" and ne: "0 < length bs"
  shows "\<exists>r. bsearch (delete_probe bs s) (mid_index (length bs)) (mid_inc (length bs)) = Some r
    \<and> (case r of Hit i \<Rightarrow> i < length bs \<and> startslot (bs ! i) = s
        | Into index i \<Rightarrow> index < length bs \<and> (i = index \<or> i = index + 1) \<and> gap bs s i)"
proof (rule bsearch_mid [OF ne, where k = "below bs s"])
  fix i assume i: "i < length bs"
  have lt: "j < below bs s \<longleftrightarrow> startslot (bs ! j) < s" if "j < length bs" for j by (rule below_nth [OF up that])
  let ?Q = "case_delete_answer (\<lambda>i. i < length bs \<and> startslot (bs ! i) = s)
    (\<lambda>index i. index < length bs \<and> (i = index \<or> i = index + 1) \<and> gap bs s i)"
  consider "s = startslot (bs ! i)" | "s < startslot (bs ! i)" | "startslot (bs ! i) < s" by linarith
  then show "\<exists>p. delete_probe bs s i = Some p \<and> (case p of Answer r \<Rightarrow> ?Q r
      | GoLeft \<Rightarrow> min (below bs s) (length bs - 1) < i | GoRight \<Rightarrow> i < min (below bs s) (length bs - 1))"
  proof cases
    case 1
    then show ?thesis using i by (simp add: delete_probe_def)
  next
    case 2
    then show ?thesis using i lt [of "i - 1"] gapI [OF up, of i s] by (auto simp: delete_probe_def)
  next
    case 3
    then show ?thesis using i lt [of i] gapI [OF up, of "i + 1" s] by (auto simp: delete_probe_def)
  qed
qed

text \<open>For a lookup the blocks on the left of the gap also end before \<open>s\<close>.\<close>

definition find_gap :: "slotblock list \<Rightarrow> int \<Rightarrow> nat \<Rightarrow> bool" where
  "find_gap bs s i \<longleftrightarrow> i \<le> length bs \<and> (\<forall>x \<in> set (take i bs). startslot x + nslots x \<le> s) \<and> (\<forall>x \<in> set (drop i bs). s < startslot x)"

lemma find_gapI:
  assumes dis: "disjoint_up bs" and i: "i \<le> length bs" "0 < i \<Longrightarrow> startslot (bs ! (i - 1)) + nslots (bs ! (i - 1)) \<le> s"
    and r: "i < length bs \<Longrightarrow> s < startslot (bs ! i)"
  shows "find_gap bs s i"
proof -
  have l: "startslot (bs ! (i - 1)) < s" if "0 < i"
    using i that dis unfolding disjoint_up_def by (metis diff_less less_add_same_cancel1 less_le_trans nth_mem zero_less_one)
  have g: "gap bs s i" by (rule gapI [OF disjoint_starts [OF dis] i(1) l r])
  have "startslot (bs ! j) + nslots (bs ! j) \<le> s" if "j < i" for j
  proof (cases "j = i - 1")
    case False
    then have "startslot (bs ! j) + nslots (bs ! j) \<le> startslot (bs ! (i - 1))"
      using dis i that by (simp add: disjoint_up_def sorted_wrt_iff_nth_less)
    then show ?thesis using l that by simp
  qed (use i that in simp)
  then show ?thesis using g by (auto simp: gap_def find_gap_def in_set_conv_nth)
qed

lemma find_search:
  assumes dis: "disjoint_up bs" and ne: "0 < length bs"
  shows "\<exists>r. bsearch (find_probe bs s) (mid_index (length bs)) (mid_inc (length bs)) = Some r
    \<and> (case r of Found i \<Rightarrow> i < length bs \<and> contains (bs ! i) s | Descend i \<Rightarrow> find_gap bs s i)"
proof (rule bsearch_mid [OF ne, where k = "below bs (s + 1) - 1"])
  fix i assume i: "i < length bs"
  have lt: "j < below bs (s + 1) \<longleftrightarrow> startslot (bs ! j) \<le> s" if "j < length bs" for j
    using below_nth [OF disjoint_starts [OF dis] that, of "s + 1"] by simp
  let ?Q = "case_find_answer (\<lambda>i. i < length bs \<and> contains (bs ! i) s) (find_gap bs s)"
  let ?k = "below bs (s + 1) - 1"
  consider "contains (bs ! i) s" | "s < startslot (bs ! i)" | "startslot (bs ! i) \<le> s" "startslot (bs ! i) + nslots (bs ! i) \<le> s"
    unfolding contains_def by linarith
  then show "\<exists>p. find_probe bs s i = Some p \<and> (case p of Answer r \<Rightarrow> ?Q r
      | GoLeft \<Rightarrow> min ?k (length bs - 1) < i | GoRight \<Rightarrow> i < min ?k (length bs - 1))"
  proof cases
    case 1
    then show ?thesis using i by (simp add: find_probe_def contains_def)
  next
    case 2
    then have "below bs (s + 1) \<le> i" using lt [OF i] by simp
    then show ?thesis using 2 i find_gapI [OF dis, of i s] by (auto simp: find_probe_def)
  next
    case 3
    then show ?thesis using i lt [of "i + 1"] find_gapI [OF dis, of "i + 1" s] by (auto simp: find_probe_def)
  qed
qed

section \<open>A node around one of its children\<close>

definition left_of :: "slotblock list \<Rightarrow> btreenode list \<Rightarrow> nat \<Rightarrow> slotblock list" where
  "left_of bs cs i = weave (map inorder (take i cs)) (take i bs)"

definition right_of :: "slotblock list \<Rightarrow> btreenode list \<Rightarrow> nat \<Rightarrow> slotblock list" where
  "right_of bs cs i = weave ([] # map inorder (drop (i + 1) cs)) (drop i bs)"

lemma inorder_at:
  assumes "length cs = Suc (length bs)" "i \<le> length bs"
  shows "inorder (BNode a bs cs) = left_of bs cs i @ inorder (cs ! i) @ right_of bs cs i"
proof -
  have "cs = take i cs @ cs ! i # drop (i + 1) cs" using assms by (simp add: id_take_nth_drop)
  then have "inorder (BNode a bs cs) = weave (map inorder (take i cs) @ inorder (cs ! i) # map inorder (drop (i + 1) cs)) (take i bs @ drop i bs)"
    by (metis append_take_drop_id inorder.simps list.simps(9) map_append)
  also have "\<dots> = left_of bs cs i @ inorder (cs ! i) @ right_of bs cs i"
    unfolding left_of_def right_of_def by (rule weave_at) (use assms in simp)
  finally show ?thesis .
qed

lemma inorder_update:
  assumes "length cs = Suc (length bs)" "i \<le> length bs"
  shows "inorder (BNode a bs (cs[i := c])) = left_of bs cs i @ inorder c @ right_of bs cs i"
  using inorder_at [of "cs[i := c]" bs i a] assms by (simp add: left_of_def right_of_def)

lemma set_left_of: "set (left_of bs cs i) = set (take i bs) \<union> (\<Union>c \<in> set (take i cs). set (inorder c))"
  by (simp add: left_of_def set_weave)

lemma set_right_of: "set (right_of bs cs i) = set (drop i bs) \<union> (\<Union>c \<in> set (drop (i + 1) cs). set (inorder c))"
  by (simp add: right_of_def set_weave)

lemma left_last:
  assumes "length cs = Suc (length bs)" "i \<le> length bs" "0 < i"
  shows "\<exists>us. left_of bs cs i = us @ [bs ! (i - 1)]"
proof -
  have "length (map inorder (take i cs)) = length (take i bs)" "take i bs \<noteq> []" using assms by auto
  moreover from this have "last (take i bs) = bs ! (i - 1)" using assms by (simp add: last_conv_nth)
  ultimately show ?thesis using weave_last unfolding left_of_def by metis
qed

lemma right_first: "i < length bs \<Longrightarrow> \<exists>us. right_of bs cs i = bs ! i # us"
  by (simp add: right_of_def drop_nth_Cons)

lemma left_less:
  assumes up: "starts_up (inorder (BNode a bs cs))" and l: "length cs = Suc (length bs)" and g: "gap bs s i"
    and x: "x \<in> set (left_of bs cs i)"
  shows "startslot x < s"
proof -
  have i: "i \<le> length bs" using g by (simp add: gap_def)
  have "0 < i" using x by (cases i) (simp_all add: left_of_def)
  then obtain us where us: "left_of bs cs i = us @ [bs ! (i - 1)]" using left_last [OF l i] by blast
  have "startslot (bs ! (i - 1)) < s" using gap_left [OF g] \<open>0 < i\<close> by simp
  moreover have "starts_up (us @ [bs ! (i - 1)])" using up unfolding inorder_at [OF l i] us by (simp add: starts_append)
  then have "x = bs ! (i - 1) \<or> startslot x < startslot (bs ! (i - 1))" using x us by (auto simp: starts_append)
  ultimately show ?thesis by auto
qed

lemma right_greater:
  assumes up: "starts_up (inorder (BNode a bs cs))" and l: "length cs = Suc (length bs)" and g: "gap bs s i"
    and x: "x \<in> set (right_of bs cs i)"
  shows "s < startslot x"
proof -
  have i: "i \<le> length bs" using g by (simp add: gap_def)
  have "i < length bs" using x l i by (cases "i < length bs") (simp_all add: right_of_def)
  then obtain us where us: "right_of bs cs i = [bs ! i] @ us" using right_first by fastforce
  have "s < startslot (bs ! i)" by (rule gap_right [OF g \<open>i < length bs\<close>])
  moreover have "starts_up ([bs ! i] @ us)" using up unfolding inorder_at [OF l i] us by (simp add: starts_append)
  then have "x = bs ! i \<or> startslot (bs ! i) < startslot x" using x us by (auto simp: starts_append)
  ultimately show ?thesis by auto
qed

lemma sorted_weave:
  assumes "sorted_wrt P (weave cs xs)"
  shows "sorted_wrt P xs"
  using assms by (induction cs xs rule: weave.induct) (auto simp: sorted_wrt_append set_weave)

lemma starts_node: "starts_up (inorder (BNode a bs cs)) \<Longrightarrow> starts_up bs"
  by (simp add: starts_up_def sorted_weave)

lemma disjoint_node: "disjoint_up (inorder (BNode a bs cs)) \<Longrightarrow> disjoint_up bs"
  by (auto simp: disjoint_up_def sorted_weave set_weave)

section \<open>Lookup\<close>

definition block_at :: "btreenode \<Rightarrow> sb_ptr \<Rightarrow> slotblock \<Rightarrow> bool" where
  "block_at t p b \<longleftrightarrow> (\<exists>n \<in> set (bt_nodes t). self n = fst p \<and> snd p < num_blocks n \<and> blocks n ! snd p = b)"

lemma block_at_here: "i < length bs \<Longrightarrow> block_at (BNode a bs cs) (a, i) (bs ! i)"
  by (simp add: block_at_def)

lemma block_at_child: "c \<in> set cs \<Longrightarrow> block_at c p b \<Longrightarrow> block_at (BNode a bs cs) p b"
  by (auto simp: block_at_def)

lemma addrs_nodes: "addrs t = map self (bt_nodes t)"
  by (induction t) (simp add: map_concat comp_def cong: map_cong)

lemma find_key: "distinct (map f xs) \<Longrightarrow> x \<in> set xs \<Longrightarrow> find (\<lambda>y. f y = f x) xs = Some x"
  by (induction xs) auto

lemma block_at_load:
  assumes "distinct (addrs t)" "block_at t p b"
  shows "sb_load t p = Some b"
proof -
  obtain n where n: "n \<in> set (bt_nodes t)" "self n = fst p" "snd p < num_blocks n" "blocks n ! snd p = b"
    using assms(2) by (auto simp: block_at_def)
  have "find (\<lambda>n. self n = fst p) (bt_nodes t) = Some n"
    using find_key [of self "bt_nodes t" n] assms(1) n(1,2) by (simp add: addrs_nodes)
  then show ?thesis using n by (simp add: sb_load_def)
qed

lemma backed_at: "backed M t \<Longrightarrow> block_at t p b \<Longrightarrow> M (listblock b) = Some p"
proof (induction t)
  case (BNode a bs cs)
  from BNode.prems(2) obtain n where n: "n \<in> set (bt_nodes (BNode a bs cs))" "self n = fst p" "snd p < num_blocks n" "blocks n ! snd p = b"
    unfolding block_at_def by blast
  show ?case
  proof (cases "n = BNode a bs cs")
    case True
    then show ?thesis using n BNode.prems(1) by (metis backed.simps btreenode.sel(1,2) prod.collapse)
  next
    case False
    then obtain c where "c \<in> set cs" "n \<in> set (bt_nodes c)" using n(1) by auto
    then show ?thesis using BNode n unfolding block_at_def by auto
  qed
qed

lemma block_at_ex: "b \<in> set (inorder t) \<Longrightarrow> \<exists>p. block_at t p b"
proof (induction t)
  case (BNode a bs cs)
  then consider "b \<in> set bs" | c where "c \<in> set cs" "b \<in> set (inorder c)" by (auto simp: set_weave)
  then show ?case
  proof cases
    case 1
    then obtain i where "i < length bs" "bs ! i = b" by (auto simp: in_set_conv_nth)
    then show ?thesis using block_at_here by blast
  next
    case 2
    then show ?thesis using BNode.IH block_at_child by blast
  qed
qed

lemma block_at_in: "block_at t p b \<Longrightarrow> b \<in> set (inorder t)"
proof (induction t)
  case (BNode a bs cs)
  from BNode.prems obtain n where n: "n \<in> set (bt_nodes (BNode a bs cs))" "self n = fst p" "snd p < num_blocks n" "blocks n ! snd p = b"
    unfolding block_at_def by blast
  show ?case
  proof (cases "n = BNode a bs cs")
    case True
    then show ?thesis using n by (auto simp: set_weave)
  next
    case False
    then obtain c where c: "c \<in> set cs" "n \<in> set (bt_nodes c)" using n(1) by auto
    then have "b \<in> set (inorder c)" using BNode.IH [OF c(1)] n(2-4) unfolding block_at_def by blast
    then show ?thesis using c(1) by (auto simp: set_weave)
  qed
qed

lemma find_gap_gap: "disjoint_up bs \<Longrightarrow> find_gap bs s i \<Longrightarrow> gap bs s i"
proof -
  assume "disjoint_up bs" "find_gap bs s i"
  then have "startslot x < s" if "x \<in> set (take i bs)" for x
    using that in_set_takeD [OF that] by (fastforce simp: find_gap_def disjoint_up_def)
  then show "gap bs s i" using \<open>find_gap bs s i\<close> by (simp add: find_gap_def gap_def)
qed

lemma left_ends:
  assumes dis: "disjoint_up (inorder (BNode a bs cs))" and l: "length cs = Suc (length bs)" and g: "find_gap bs s i"
    and x: "x \<in> set (left_of bs cs i)"
  shows "startslot x + nslots x \<le> s"
proof -
  have i: "i \<le> length bs" using g by (simp add: find_gap_def)
  have "0 < i" using x by (cases i) (simp_all add: left_of_def)
  then obtain us where us: "left_of bs cs i = us @ [bs ! (i - 1)]" using left_last [OF l i] by blast
  have e: "startslot (bs ! (i - 1)) + nslots (bs ! (i - 1)) \<le> s"
    using g \<open>0 < i\<close> by (auto simp: find_gap_def all_set_conv_all_nth)
  have "disjoint_up (us @ [bs ! (i - 1)])" using dis unfolding inorder_at [OF l i] us by (simp add: disjoint_append)
  then have "x = bs ! (i - 1) \<or> startslot x + nslots x \<le> startslot (bs ! (i - 1))" "0 < nslots (bs ! (i - 1))"
    using x us by (auto simp: disjoint_append)
  then show ?thesis using e by auto
qed

lemma find_node:
  assumes dis: "disjoint_up (inorder (BNode a bs cs))" and s: "0 \<le> s" "bs \<noteq> []"
  obtains i where "i < length bs" "contains (bs ! i) s" "find_btree_slotblock (BNode a bs cs) s = Some (Some (a, i))"
  | i where "find_gap bs s i" "find_btree_slotblock (BNode a bs cs) s = (if i < length cs then find_btree_slotblock (cs ! i) s else Some None)"
proof -
  have "0 < length bs" using s by simp
  from find_search [OF disjoint_node [OF dis] this, of s] obtain r where
    r: "bsearch (find_probe bs s) (mid_index (length bs)) (mid_inc (length bs)) = Some r"
      "case r of Found i \<Rightarrow> i < length bs \<and> contains (bs ! i) s | Descend i \<Rightarrow> find_gap bs s i" by blast
  then show ?thesis using s that by (cases r) auto
qed

lemma find_ok:
  assumes "bt_ok m h t" "m = 0 \<Longrightarrow> h = 0" "disjoint_up (inorder t)" "0 \<le> s"
  shows "\<exists>r. find_btree_slotblock t s = Some r \<and> (case r of
      None \<Rightarrow> \<forall>b \<in> set (inorder t). \<not> contains b s
    | Some p \<Rightarrow> \<exists>b \<in> set (inorder t). contains b s \<and> block_at t p b)"
  using assms(1-3)
proof (induction h arbitrary: m t)
  case 0
  obtain a bs cs where t: "t = BNode a bs cs" by (cases t)
  then have cs: "cs = []" using 0 by simp
  show ?case
  proof (cases "bs = []")
    case False
    show ?thesis
    proof (rule find_node [OF 0(3) [unfolded t] assms(4) False])
      fix i assume "i < length bs" "contains (bs ! i) s" "find_btree_slotblock (BNode a bs cs) s = Some (Some (a, i))"
      then show ?thesis using t cs block_at_here [of i bs a cs] by auto
    next
      fix i assume i: "find_gap bs s i" "find_btree_slotblock (BNode a bs cs) s = (if i < length cs then find_btree_slotblock (cs ! i) s else Some None)"
      then have "\<not> contains b s" if "b \<in> set (take i bs) \<union> set (drop i bs)" for b
        using that by (auto simp: find_gap_def contains_def)
      then have "\<forall>b \<in> set bs. \<not> contains b s" by (metis append_take_drop_id set_append)
      then show ?thesis using i cs t by simp
    qed
  qed (use cs t in simp)
next
  case (Suc h)
  obtain a bs cs where t: "t = BNode a bs cs" by (cases t)
  have l: "length cs = Suc (length bs)" and c: "\<forall>c \<in> set cs. bt_ok TREE_NODE_MID h c" and ne: "bs \<noteq> []"
    using Suc.prems(1,2) t by auto
  show ?case
  proof (rule find_node [OF Suc.prems(3) [unfolded t] assms(4) ne])
    fix i assume i: "i < length bs" "contains (bs ! i) s" "find_btree_slotblock (BNode a bs cs) s = Some (Some (a, i))"
    then have "bs ! i \<in> set (inorder t)" using t by (simp add: set_weave)
    then show ?thesis using i t block_at_here [of i bs a cs] by auto
  next
    fix i assume i: "find_gap bs s i" "find_btree_slotblock (BNode a bs cs) s = (if i < length cs then find_btree_slotblock (cs ! i) s else Some None)"
    have le: "i \<le> length bs" using i by (simp add: find_gap_def)
    note io = inorder_at [OF l le, of a]
    have ci: "cs ! i \<in> set cs" using l le by simp
    have "disjoint_up (inorder (cs ! i))" using Suc.prems(3) unfolding t io by (simp add: disjoint_append)
    then obtain r where r: "find_btree_slotblock (cs ! i) s = Some r"
      "case r of None \<Rightarrow> \<forall>b \<in> set (inorder (cs ! i)). \<not> contains b s | Some p \<Rightarrow> \<exists>b \<in> set (inorder (cs ! i)). contains b s \<and> block_at (cs ! i) p b"
      using Suc.IH [of TREE_NODE_MID "cs ! i"] c ci by (auto simp: TREE_NODE_MID_def)
    have out: "\<not> contains b s" if "b \<in> set (left_of bs cs i) \<union> set (right_of bs cs i)" for b
      using that left_ends [OF Suc.prems(3) [unfolded t] l i(1)]
        right_greater [OF disjoint_starts [OF Suc.prems(3) [unfolded t]] l find_gap_gap [OF disjoint_node [OF Suc.prems(3) [unfolded t]] i(1)]]
      unfolding contains_def by fastforce
    have f: "find_btree_slotblock t s = Some r" using i(2) r(1) l le t by simp
    show ?thesis
    proof (cases r)
      case None
      then show ?thesis using f r(2) out unfolding t io by auto
    next
      case (Some p)
      then obtain b where b: "b \<in> set (inorder (cs ! i))" "contains b s" "block_at (cs ! i) p b" using r(2) by auto
      have "block_at t p b" "b \<in> set (inorder t)" using block_at_child [OF ci b(3)] b(1) io unfolding t by auto
      then show ?thesis using f b(2) Some by auto
    qed
  qed
qed

end
