(* ===== verification/Iso_Insert.thy ===== *)
theory Iso_Insert
  imports Iso_Tree
begin

text \<open>
  Insertion into the B-tree of free blocks: the new block appears at its place in the order,
  the tree stays balanced, every list node points to the place of its block, and the lists get
  the new node.
\<close>

section \<open>Steps on the store\<close>

definition keeps :: "slotset \<Rightarrow> slotset \<Rightarrow> bool" where
  "keeps ss ss' \<longleftrightarrow> (\<forall>B. lists_ok ss B \<longrightarrow> lists_ok ss' B) \<and> dom (sb_map ss') = dom (sb_map ss) \<and> brk ss \<le> brk ss'"

definition moved :: "iso_addr set \<Rightarrow> slotset \<Rightarrow> slotset \<Rightarrow> bool" where
  "moved X ss ss' \<longleftrightarrow> (\<forall>d. d \<notin> X \<longrightarrow> sb_map ss' d = sb_map ss d)"

lemma keeps_refl [simp]: "keeps ss ss"
  by (simp add: keeps_def)

lemma keeps_trans: "keeps ss ss' \<Longrightarrow> keeps ss' ss'' \<Longrightarrow> keeps ss ss''"
  by (simp add: keeps_def)

lemma same_keeps: "same_lists ss ss' \<Longrightarrow> keeps ss ss'"
  by (simp add: keeps_def same_lists_def)

lemma moved_refl [simp]: "moved X ss ss"
  by (simp add: moved_def)

lemma moved_trans: "moved X ss ss' \<Longrightarrow> moved Y ss' ss'' \<Longrightarrow> moved (X \<union> Y) ss ss''"
  by (simp add: moved_def)

lemma moved_mono: "moved X ss ss' \<Longrightarrow> X \<subseteq> Y \<Longrightarrow> moved Y ss ss'"
  by (auto simp: moved_def)

lemma create_keeps:
  assumes "create_btree_node ss = (node, ss')"
  shows "keeps ss ss'" "moved {} ss ss'" "node = BNode (brk ss) [] []" "brk ss' = Suc (brk ss)"
  using assms by (auto simp: create_btree_node_def keeps_def moved_def sb_map_def lists_ok_def)

lemma backed_moved:
  assumes "backed (sb_map ss) t" "moved X ss ss'" "ids t \<inter> X = {}"
  shows "backed (sb_map ss') t"
proof -
  have "backed (sb_map ss) t = backed (sb_map ss') t"
    by (rule backed_cong) (use assms(2,3) in \<open>auto simp: moved_def disjoint_iff\<close>)
  then show ?thesis using assms(1) by simp
qed

text \<open>New node addresses come from the allocator.\<close>

definition fresh_addrs :: "slotset \<Rightarrow> slotset \<Rightarrow> iso_addr list \<Rightarrow> iso_addr list \<Rightarrow> bool" where
  "fresh_addrs ss ss' xs ys \<longleftrightarrow> (\<exists>F. F \<subseteq> {brk ss..<brk ss'} \<and> mset ys = mset xs + mset_set F)"

lemma fresh_refl [simp]: "fresh_addrs ss ss' xs xs"
  unfolding fresh_addrs_def by (rule exI [of _ "{}"]) simp

lemma fresh_distinct:
  assumes "fresh_addrs ss ss' xs ys" "distinct xs" "set xs \<subseteq> {..<brk ss}" "brk ss \<le> brk ss'"
  shows "distinct ys" "set ys \<subseteq> {..<brk ss'}"
proof -
  obtain F where F: "F \<subseteq> {brk ss..<brk ss'}" "mset ys = mset xs + mset_set F" using assms(1) by (auto simp: fresh_addrs_def)
  have fin: "finite F" by (rule finite_subset [OF F(1)]) simp
  then obtain fs where fs: "set fs = F" "distinct fs" using finite_distinct_list by blast
  then have "mset ys = mset (xs @ fs)" using F(2) by (simp add: mset_set_set [symmetric])
  moreover have "distinct (xs @ fs)" using assms(2,3) fs F(1) by (fastforce simp: subset_iff)
  ultimately show "distinct ys" by (rule mset_eq_imp_distinct_iff [THEN iffD2])
  have "set ys = set xs \<union> F" using F(2) fin by (metis finite_set_mset_mset_set set_mset_mset set_mset_union)
  then show "set ys \<subseteq> {..<brk ss'}" using assms(3,4) F(1) by (auto simp: subset_iff)
qed

section \<open>The blocks of one node\<close>

definition own :: "(iso_addr \<Rightarrow> sb_ptr option) \<Rightarrow> iso_addr \<Rightarrow> slotblock list \<Rightarrow> bool" where
  "own M a bs \<longleftrightarrow> (\<forall>i < length bs. M (listblock (bs ! i)) = Some (a, i))"

lemma backed_node [simp]: "backed M (BNode a bs cs) \<longleftrightarrow> own M a bs \<and> (\<forall>c \<in> set cs. backed M c)"
  by (simp add: own_def)

declare backed.simps [simp del]

lemma own_take: "own M a bs \<Longrightarrow> own M a (take i bs)"
  by (simp add: own_def)

lemma own_dom: "own M a bs \<Longrightarrow> listblock ` set bs \<subseteq> dom M"
  by (auto simp: own_def in_set_conv_nth)

lemma own_moved: "own (sb_map ss) a bs \<Longrightarrow> moved X ss ss' \<Longrightarrow> listblock ` set bs \<inter> X = {} \<Longrightarrow> own (sb_map ss') a bs"
  by (auto simp: own_def moved_def disjoint_iff)

lemma own_append:
  "own M a (xs @ ys) \<longleftrightarrow> own M a xs \<and> (\<forall>i < length ys. M (listblock (ys ! i)) = Some (a, length xs + i))"
proof
  assume o: "own M a (xs @ ys)"
  have "M (listblock ((xs @ ys) ! j)) = Some (a, j)" if "j < length xs + length ys" for j using o that by (simp add: own_def)
  then have "M (listblock (xs ! i)) = Some (a, i)" if "i < length xs" for i using that by (metis nth_append trans_less_add1)
  moreover have "M (listblock (ys ! i)) = Some (a, length xs + i)" if "i < length ys" for i
    using o that by (auto simp: own_def nth_append dest: spec [of _ "length xs + i"])
  ultimately show "own M a xs \<and> (\<forall>i < length ys. M (listblock (ys ! i)) = Some (a, length xs + i))" by (simp add: own_def)
next
  assume o: "own M a xs \<and> (\<forall>i < length ys. M (listblock (ys ! i)) = Some (a, length xs + i))"
  have "M (listblock ((xs @ ys) ! j)) = Some (a, j)" if "j < length xs + length ys" for j
  proof (cases "j < length xs")
    case False
    then have "j - length xs < length ys" using that by linarith
    then have "M (listblock (ys ! (j - length xs))) = Some (a, length xs + (j - length xs))" using o by blast
    then show ?thesis using False by (simp add: nth_append)
  qed (use o in \<open>simp add: own_def nth_append\<close>)
  then show "own M a (xs @ ys)" by (simp add: own_def)
qed

text \<open>Moving blocks to the end of the array of a node.\<close>

lemma relink_own:
  assumes own: "own (sb_map ss) a xs" and dis: "distinct (map listblock (xs @ ys))" and dm: "listblock ` set ys \<subseteq> dom (sb_map ss)"
  shows "\<exists>ss'. relink a (length xs) ys ss = Some ss' \<and> same_lists ss ss' \<and> moved (listblock ` set ys) ss ss' \<and> own (sb_map ss') a (xs @ ys)"
proof -
  have "distinct (map listblock ys)" using dis by simp
  from relink_ok [OF this dm, of a "length xs"] obtain ss' where
    r: "relink a (length xs) ys ss = Some ss'" "same_lists ss ss'"
      "\<forall>j < length ys. sb_map ss' (listblock (ys ! j)) = Some (a, length xs + j)"
      "\<forall>d. d \<notin> listblock ` set ys \<longrightarrow> sb_map ss' d = sb_map ss d" by blast
  have m: "moved (listblock ` set ys) ss ss'" using r(4) by (simp add: moved_def)
  have "listblock ` set xs \<inter> listblock ` set ys = {}" using dis by simp
  from own_moved [OF own m this] show ?thesis using r m by (auto simp: own_append)
qed

lemma set_sb_moved:
  assumes "d \<in> dom (sb_map ss)"
  obtains ss' where "set_sb d loc ss = Some ss'" "same_lists ss ss'" "moved {d} ss ss'" "sb_map ss' d = Some loc"
  using set_sb_ok [OF assms, of loc] by (auto simp: moved_def)

lemma own_insert:
  assumes "own M a xs" "M (listblock b) = Some (a, length xs)"
    and "\<forall>j < length ys. M (listblock (ys ! j)) = Some (a, Suc (length xs) + j)"
  shows "own M a (xs @ b # ys)"
proof -
  have "M (listblock ((b # ys) ! j)) = Some (a, length xs + j)" if "j < length (b # ys)" for j
    using that assms(2,3) by (cases j) simp_all
  then show ?thesis using assms(1) by (simp add: own_append)
qed

section \<open>Splitting a full node\<close>

definition kids_ok :: "nat \<Rightarrow> nat \<Rightarrow> btreenode list \<Rightarrow> bool" where
  "kids_ok h n cs \<longleftrightarrow> (case h of 0 \<Rightarrow> cs = [] | Suc h' \<Rightarrow> length cs = Suc n \<and> (\<forall>c \<in> set cs. bt_ok TREE_NODE_MID h' c))"

lemma bt_ok_node: "bt_ok m h (BNode a bs cs) \<longleftrightarrow> kids_ok h (length bs) cs \<and> m \<le> length bs \<and> length bs < TREE_NODE_SIZE"
  by (cases h) (auto simp: kids_ok_def)

lemma kids_split: "kids_ok h n cs \<Longrightarrow> k < n \<Longrightarrow> kids_ok h k (take (Suc k) cs) \<and> kids_ok h (n - Suc k) (drop (Suc k) cs)"
  by (cases h) (auto simp: kids_ok_def dest: in_set_takeD in_set_dropD)

lemma weave_split:
  assumes "cs = [] \<or> length cs = Suc (length xs)" "k < length xs"
  shows "weave cs xs = weave (take (Suc k) cs) (take k xs) @ xs ! k # weave (drop (Suc k) cs) (drop (Suc k) xs)"
proof (cases "cs = []")
  case True
  then show ?thesis using assms(2) by (simp add: id_take_nth_drop)
next
  case False
  then have l: "length cs = Suc (length xs)" using assms(1) by simp
  have "cs = take k cs @ cs ! k # drop (Suc k) cs" "xs = take k xs @ xs ! k # drop (Suc k) xs"
    using l assms(2) by (simp_all add: id_take_nth_drop)
  then have "weave cs xs = weave (take k cs @ cs ! k # drop (Suc k) cs) (take k xs @ xs ! k # drop (Suc k) xs)" by simp
  also have "\<dots> = (weave (take k cs) (take k xs) @ cs ! k) @ xs ! k # weave (drop (Suc k) cs) (drop (Suc k) xs)"
    using l assms(2) by (simp add: weave_append)
  also have "weave (take k cs) (take k xs) @ cs ! k = weave (take (Suc k) cs) (take k xs)"
    using l assms(2) weave_snoc [of "take k cs" "take k xs" "cs ! k"] by (simp add: take_Suc_snoc)
  finally show ?thesis .
qed

lemma kids_weave: "kids_ok h (length bs) cs \<Longrightarrow> cs = [] \<or> length cs = Suc (length bs)"
  by (cases h) (auto simp: kids_ok_def)

definition up_ok :: "slotset \<Rightarrow> nat \<Rightarrow> nat \<Rightarrow> slotblock list \<Rightarrow> btreenode \<Rightarrow> insert_ret_val \<Rightarrow> bool" where
  "up_ok ss m h xs t irv \<longleftrightarrow> backed (sb_map ss) t \<and> (case irv of
      None \<Rightarrow> inorder t = xs \<and> bt_ok m h t
    | Some (sb, btn) \<Rightarrow> inorder t @ sb # inorder btn = xs \<and> bt_ok TREE_NODE_MID h t \<and> bt_ok TREE_NODE_MID h btn
        \<and> backed (sb_map ss) btn)"

definition up_addrs :: "btreenode \<Rightarrow> insert_ret_val \<Rightarrow> iso_addr list" where
  "up_addrs t irv = addrs t @ (case irv of None \<Rightarrow> [] | Some (sb, btn) \<Rightarrow> addrs btn)"

lemma distinct_weave: "distinct (map f (weave cs xs)) \<longleftrightarrow> distinct (map f (xs @ concat cs))"
proof -
  have "mset (weave cs xs) = mset (xs @ concat cs)" by (induction cs xs rule: weave.induct) auto
  then have "mset (map f (weave cs xs)) = mset (map f (xs @ concat cs))" by (metis mset_map)
  then show ?thesis by (rule mset_eq_imp_distinct_iff)
qed

lemma distinct_node:
  assumes "distinct (map listblock (inorder (BNode a bs cs)))"
  shows "distinct (map listblock bs)" "\<And>c. c \<in> set cs \<Longrightarrow> ids c \<inter> listblock ` set bs = {}"
  using assms by (auto simp: distinct_weave)

lemma split_node_ok:
  assumes k: "kids_ok h (length bs) cs" and m: "m \<le> length bs" "length bs \<le> TREE_NODE_SIZE"
    and b: "backed (sb_map ss) (BNode a bs cs)" and d: "distinct (map listblock (inorder (BNode a bs cs)))"
  shows "\<exists>ss' t' irv. split_node ss (BNode a bs cs) = Some (ss', t', irv) \<and> keeps ss ss' \<and> moved (listblock ` set bs) ss ss'
    \<and> up_ok ss' m h (inorder (BNode a bs cs)) t' irv \<and> fresh_addrs ss ss' (addrs (BNode a bs cs)) (up_addrs t' irv)"
proof (cases "length bs = TREE_NODE_SIZE")
  case False
  then have "bt_ok m h (BNode a bs cs)" using k m by (simp add: bt_ok_node)
  then show ?thesis using False b by (auto simp: split_node_def up_ok_def up_addrs_def)
next
  case True
  obtain n s0 where c: "create_btree_node ss = (n, s0)" by fastforce
  note cn = create_keeps [OF c]
  let ?k = TREE_NODE_MID and ?ys = "drop (Suc TREE_NODE_MID) bs"
  have lk: "?k < length bs" using True by (simp add: TREE_NODE_MID_def TREE_NODE_SIZE_def)
  have bs: "bs = take ?k bs @ bs ! ?k # ?ys" using lk by (simp add: id_take_nth_drop)
  have own: "own (sb_map ss) a bs" and kb: "\<And>c. c \<in> set cs \<Longrightarrow> backed (sb_map ss) c" using b by simp_all
  have db: "distinct (map listblock bs)" by (rule distinct_node(1) [OF d])
  have dy: "distinct (map listblock ([] @ ?ys))" using db by (simp add: drop_map [symmetric] distinct_drop)
  have sub: "listblock ` set ?ys \<subseteq> listblock ` set bs" by (auto dest: in_set_dropD)
  have "listblock ` set ?ys \<subseteq> dom (sb_map s0)" using own_dom [OF own] sub cn(1) by (auto simp: keeps_def)
  from relink_own [OF _ dy this, of "brk ss"] obtain ss' where
    r: "relink (brk ss) 0 ?ys s0 = Some ss'" "same_lists s0 ss'" "moved (listblock ` set ?ys) s0 ss'" "own (sb_map ss') (brk ss) ?ys"
    by (auto simp: own_def)
  have mv: "moved (listblock ` set ?ys) ss ss'" using moved_trans [OF cn(2) r(3)] by simp
  let ?l = "BNode a (take ?k bs) (take (Suc ?k) cs)" and ?r = "BNode (brk ss) ?ys (drop (Suc ?k) cs)"
  have sp: "split_node ss (BNode a bs cs) = Some (ss', ?l, Some (bs ! ?k, ?r))"
    using True c cn(3) r(1) by (simp add: split_node_def)
  have kk: "kids_ok h ?k (take (Suc ?k) cs)" "kids_ok h (length ?ys) (drop (Suc ?k) cs)"
    using kids_split [OF k lk] by simp_all
  have ok: "bt_ok ?k h ?l" "bt_ok ?k h ?r"
    using kk True lk by (simp_all add: bt_ok_node TREE_NODE_MID_def TREE_NODE_SIZE_def)
  have "listblock ` set (take ?k bs) \<inter> listblock ` set ?ys = {}"
    using db by (subst (asm) bs) auto
  then have "own (sb_map ss') a (take ?k bs)" by (rule own_moved [OF own_take [OF own] mv])
  moreover have kb': "backed (sb_map ss') c" if "c \<in> set cs" for c
    using distinct_node(2) [OF d that] sub by (intro backed_moved [OF kb [OF that] mv]) blast
  ultimately have "backed (sb_map ss') ?l" "backed (sb_map ss') ?r"
    using r(4) by (auto dest: in_set_takeD in_set_dropD)
  moreover have "inorder (BNode a bs cs) = inorder ?l @ bs ! ?k # inorder ?r"
    using weave_split [of "map inorder cs" bs ?k] kids_weave [OF k] lk by (simp add: take_map drop_map)
  ultimately have up: "up_ok ss' m h (inorder (BNode a bs cs)) ?l (Some (bs ! ?k, ?r))" using ok by (simp add: up_ok_def)
  have "mset (concat (map addrs cs)) = mset (concat (map addrs (take (Suc ?k) cs))) + mset (concat (map addrs (drop (Suc ?k) cs)))"
    by (metis append_take_drop_id concat_append map_append mset_append)
  then have "fresh_addrs ss ss' (addrs (BNode a bs cs)) (up_addrs ?l (Some (bs ! ?k, ?r)))"
    unfolding fresh_addrs_def up_addrs_def using cn(4) r(2) by (intro exI [of _ "{brk ss}"]) (simp add: same_lists_def)
  moreover have "keeps ss ss'" by (rule keeps_trans [OF cn(1) same_keeps [OF r(2)]])
  ultimately show ?thesis using sp up moved_mono [OF mv sub] by blast
qed

section \<open>Insertion\<close>

definition ins :: "slotblock \<Rightarrow> slotblock list \<Rightarrow> slotblock list" where
  "ins b xs = filter (\<lambda>x. startslot x < startslot b) xs @ b # filter (\<lambda>x. \<not> startslot x < startslot b) xs"

lemma ins_between:
  assumes "\<And>x. x \<in> set ls \<Longrightarrow> startslot x < startslot b" "\<And>x. x \<in> set rs \<Longrightarrow> startslot b < startslot x"
  shows "ins b (ls @ xs @ rs) = ls @ ins b xs @ rs"
proof -
  have "filter (\<lambda>x. startslot x < startslot b) ls = ls" "filter (\<lambda>x. \<not> startslot x < startslot b) ls = []"
    "filter (\<lambda>x. startslot x < startslot b) rs = []" "filter (\<lambda>x. \<not> startslot x < startslot b) rs = rs"
    using assms by (auto simp: filter_id_conv filter_empty_conv dest: less_asym)
  then show ?thesis by (simp add: ins_def)
qed

lemma set_ins: "set (ins b xs) = insert b (set xs)"
  by (auto simp: ins_def)

lemma mset_ins: "mset (ins b xs) = add_mset b (mset xs)"
  by (simp add: ins_def)

lemma distinct_ins: "distinct (map f xs) \<Longrightarrow> f b \<notin> f ` set xs \<Longrightarrow> distinct (map f (ins b xs))"
proof -
  assume "distinct (map f xs)" "f b \<notin> f ` set xs"
  then have "distinct (map f (b # xs))" by simp
  moreover have "mset (map f (ins b xs)) = mset (map f (b # xs))" by (simp add: mset_ins)
  ultimately show ?thesis using mset_eq_imp_distinct_iff by blast
qed

lemma gap_ins: "gap bs s i \<Longrightarrow> startslot b = s \<Longrightarrow> ins b bs = take i bs @ b # drop i bs"
  using ins_between [of "take i bs" b "drop i bs" "[]"] by (simp add: gap_def ins_def [of b "[]"])

definition grows :: "slotset \<Rightarrow> slotset \<Rightarrow> iso_addr \<Rightarrow> nat \<Rightarrow> bool" where
  "grows ss ss' d k \<longleftrightarrow> (\<forall>B. lists_ok ss B \<longrightarrow> lists_ok ss' (B(d \<mapsto> k))) \<and> dom (sb_map ss') = insert d (dom (sb_map ss)) \<and> brk ss \<le> brk ss'"

lemma keeps_grows: "keeps ss s1 \<Longrightarrow> grows s1 s2 d k \<Longrightarrow> grows ss s2 d k"
  by (simp add: keeps_def grows_def)

lemma grows_keeps: "grows ss s1 d k \<Longrightarrow> keeps s1 s2 \<Longrightarrow> grows ss s2 d k"
  by (simp add: keeps_def grows_def)

definition ins_ok :: "slotset \<Rightarrow> nat \<Rightarrow> nat \<Rightarrow> btreenode \<Rightarrow> int \<Rightarrow> int \<Rightarrow> slotset \<Rightarrow> btreenode \<Rightarrow> insert_ret_val \<Rightarrow> bool" where
  "ins_ok ss m h t s n ss' t' irv \<longleftrightarrow> (\<exists>b. startslot b = s \<and> nslots b = n \<and> listblock b \<notin> dom (sb_map ss)
    \<and> up_ok ss' m h (ins b (inorder t)) t' irv \<and> grows ss ss' (listblock b) (bin_of n)
    \<and> moved (insert (listblock b) (ids t)) ss ss' \<and> fresh_addrs ss ss' (addrs t) (up_addrs t' irv))"

lemma lists_dom: "lists_ok ss B \<Longrightarrow> dom (sb_map ss) = dom B \<and> dom (sb_map ss) \<subseteq> {..<brk ss}"
  by (simp add: lists_ok_def bins_ok_def dom_sb_map)

lemma list_insert_grows:
  assumes l: "lists_ok ss B" and n: "size_ok n"
  obtains ss' where "list_insert ss n loc = Some (brk ss, ss')" "grows ss ss' (brk ss) (bin_of n)"
    "moved {brk ss} ss ss'" "sb_map ss' (brk ss) = Some loc" "brk ss' = Suc (brk ss)"
proof -
  from list_insert_ok [OF l n, of loc] obtain ss' where
    s: "list_insert ss n loc = Some (brk ss, ss')" "sb_map ss' = (sb_map ss)(brk ss \<mapsto> loc)" "brk ss' = brk ss + 1" by blast
  have "lists_ok ss' (B'(brk ss \<mapsto> bin_of n))" if "lists_ok ss B'" for B'
    using list_insert_ok [OF that n, of loc] s(1) by auto
  then have "grows ss ss' (brk ss) (bin_of n)" using s by (simp add: grows_def)
  then show ?thesis using s by (intro that) (simp_all add: moved_def)
qed

lemma fresh_trans:
  assumes "keeps ss s1 \<or> grows ss s1 d k" "fresh_addrs s1 s2 xs ys" "brk s1 \<le> brk s2"
  shows "fresh_addrs ss s2 xs ys"
proof -
  obtain F where "F \<subseteq> {brk s1..<brk s2}" "mset ys = mset xs + mset_set F" using assms(2) unfolding fresh_addrs_def by blast
  moreover have "brk ss \<le> brk s1" using assms(1) by (auto simp: keeps_def grows_def)
  ultimately have "F \<subseteq> {brk ss..<brk s2}" by auto
  then show ?thesis unfolding fresh_addrs_def using \<open>mset ys = _\<close> by blast
qed

lemma distinct_parts:
  assumes "distinct (map f bs)"
  shows "distinct (map f (drop i bs))" "f ` set (take i bs) \<inter> f ` set (drop i bs) = {}"
proof -
  have "distinct (map f (take i bs) @ map f (drop i bs))"
    using assms unfolding map_append [symmetric] append_take_drop_id .
  then show "distinct (map f (drop i bs))" "f ` set (take i bs) \<inter> f ` set (drop i bs) = {}"
    unfolding distinct_append by simp_all
qed

lemma insert_leaf_ok:
  assumes l: "lists_ok ss B" and n: "size_ok n" and g: "gap bs s i" and m: "m \<le> length bs" "length bs < TREE_NODE_SIZE"
    and b: "backed (sb_map ss) (BNode a bs [])" and d: "distinct (map listblock bs)"
  shows "\<exists>ss' t' irv. insert_leaf ss (BNode a bs []) i s n = Some (ss', t', irv) \<and> ins_ok ss m 0 (BNode a bs []) s n ss' t' irv"
proof -
  let ?xs = "take i bs" and ?ys = "drop i bs"
  have i: "length ?xs = i" using g by (simp add: gap_def)
  note dp = distinct_parts [OF d, of i]
  have own: "own (sb_map ss) a bs" using b by simp
  have dm: "listblock ` set ?ys \<subseteq> dom (sb_map ss)" using own_dom [OF own] by (auto dest: in_set_dropD)
  from relink_ok [OF dp(1) dm, of a "i + 1"] obtain s1 where
    r: "relink a (i + 1) ?ys ss = Some s1" "same_lists ss s1"
      "\<forall>j < length ?ys. sb_map s1 (listblock (?ys ! j)) = Some (a, i + 1 + j)"
      "\<forall>d. d \<notin> listblock ` set ?ys \<longrightarrow> sb_map s1 d = sb_map ss d" by blast
  have m1: "moved (listblock ` set ?ys) ss s1" using r(4) by (simp add: moved_def)
  have k1: "keeps ss s1" by (rule same_keeps [OF r(2)])
  have l1: "lists_ok s1 B" and bk: "brk s1 = brk ss" using l r(2) by (simp_all add: same_lists_def)
  obtain s2 where s2: "list_insert s1 n (a, i) = Some (brk s1, s2)" "grows s1 s2 (brk s1) (bin_of n)"
    "moved {brk s1} s1 s2" "sb_map s2 (brk s1) = Some (a, i)" "brk s2 = Suc (brk s1)" by (rule list_insert_grows [OF l1 n])
  have fr: "brk ss \<notin> dom (sb_map ss)" using lists_dom [OF l] by auto
  define nb where "nb = \<lparr>startslot = s, nslots = n, listblock = brk ss\<rparr>"
  have nin: "brk ss \<notin> listblock ` set bs" using fr own_dom [OF own] by blast
  have nxy: "brk ss \<notin> listblock ` set ?xs" "brk ss \<notin> listblock ` set ?ys" using nin by (auto dest: in_set_takeD in_set_dropD)
  have "own (sb_map s1) a ?xs" by (rule own_moved [OF own_take [OF own] m1 dp(2)])
  then have "own (sb_map s2) a ?xs" using nxy(1) bk by (intro own_moved [OF _ s2(3)]) simp_all
  moreover have "\<forall>j < length ?ys. sb_map s2 (listblock (?ys ! j)) = Some (a, Suc (length ?xs) + j)"
  proof (intro allI impI)
    fix j assume j: "j < length ?ys"
    then have "listblock (?ys ! j) \<noteq> brk s1" using nxy(2) bk nth_mem [OF j] by (metis image_eqI)
    then have "sb_map s2 (listblock (?ys ! j)) = sb_map s1 (listblock (?ys ! j))" using s2(3) by (simp add: moved_def)
    then show "sb_map s2 (listblock (?ys ! j)) = Some (a, Suc (length ?xs) + j)" using r(3) j i by simp
  qed
  ultimately have o2: "own (sb_map s2) a (?xs @ nb # ?ys)" using s2(4) bk i by (intro own_insert) (simp_all add: nb_def)
  have io: "inorder (BNode a (?xs @ nb # ?ys) []) = ins nb (inorder (BNode a bs []))"
    using gap_ins [OF g, of nb] by (simp add: nb_def)
  have dd: "distinct (map listblock (inorder (BNode a (?xs @ nb # ?ys) [])))"
    unfolding io using d nin by (intro distinct_ins) (simp_all add: nb_def)
  have "length (?xs @ nb # ?ys) \<le> TREE_NODE_SIZE" "m \<le> length (?xs @ nb # ?ys)" "kids_ok 0 (length (?xs @ nb # ?ys)) []"
    using m by (simp_all add: kids_ok_def)
  from split_node_ok [OF this(3,2,1) _ dd, of s2] o2 obtain s3 t' irv where
    s3: "split_node s2 (BNode a (?xs @ nb # ?ys) []) = Some (s3, t', irv)" "keeps s2 s3" "moved (listblock ` set (?xs @ nb # ?ys)) s2 s3"
      "up_ok s3 m 0 (ins nb (inorder (BNode a bs []))) t' irv" "fresh_addrs s2 s3 [a] (up_addrs t' irv)"
    unfolding io by auto
  have "insert_leaf ss (BNode a bs []) i s n = Some (s3, t', irv)"
    using r(1) s2(1) s3(1) bk by (simp add: insert_leaf_def nb_def)
  moreover have g3: "grows ss s3 (brk ss) (bin_of n)"
    using grows_keeps [OF keeps_grows [OF k1 s2(2)] s3(2)] bk by simp
  moreover have "moved (insert (brk ss) (listblock ` set bs)) ss s3"
    by (rule moved_mono [OF moved_trans [OF moved_trans [OF m1 s2(3)] s3(3)]])
      (auto simp: bk nb_def dest: in_set_takeD in_set_dropD)
  moreover have "fresh_addrs ss s3 [a] (up_addrs t' irv)"
  proof (rule fresh_trans [OF disjI2])
    show "grows ss s2 (brk ss) (bin_of n)" using keeps_grows [OF k1 s2(2)] bk by simp
    show "brk s2 \<le> brk s3" using s3(2) by (simp add: keeps_def)
  qed (rule s3(5))
  ultimately have "ins_ok ss m 0 (BNode a bs []) s n s3 t' irv"
    unfolding ins_ok_def using fr s3(4) by (intro exI [of _ nb]) (simp add: nb_def)
  then show ?thesis using \<open>insert_leaf ss (BNode a bs []) i s n = Some (s3, t', irv)\<close> by blast
qed

lemma insert_merge_ok:
  fixes bs cs1 cs2 i
  defines "L \<equiv> weave (map inorder cs1) (take i bs)" and "R \<equiv> weave ([] # map inorder cs2) (drop i bs)"
  assumes i: "i \<le> length bs" "length cs1 = i" "length cs2 = length bs - i" and m: "m \<le> length bs" "length bs < TREE_NODE_SIZE"
    and k: "\<forall>x \<in> set (cs1 @ c # btn # cs2). bt_ok TREE_NODE_MID h x \<and> backed (sb_map ss) x"
    and own: "own (sb_map ss) a bs" and sb: "listblock sb \<in> dom (sb_map ss)"
    and d: "distinct (map listblock (L @ inorder c @ sb # inorder btn @ R))"
  shows "\<exists>ss' t' irv. insert_merge ss (BNode a bs (cs1 @ c # cs2)) i sb btn = Some (ss', t', irv) \<and> keeps ss ss'
    \<and> moved (insert (listblock sb) (listblock ` set bs)) ss ss' \<and> up_ok ss' m (Suc h) (L @ inorder c @ sb # inorder btn @ R) t' irv
    \<and> fresh_addrs ss ss' (a # concat (map addrs (cs1 @ c # btn # cs2))) (up_addrs t' irv)"
proof -
  let ?xs = "take i bs" and ?ys = "drop i bs" and ?cs = "cs1 @ c # btn # cs2"
  have lx: "length ?xs = i" using i by simp
  have io: "inorder (BNode a (?xs @ sb # ?ys) ?cs) = L @ inorder c @ sb # inorder btn @ R"
    using weave_append [of "map inorder cs1" ?xs "map inorder (c # btn # cs2)" "sb # ?ys"] weave_first [of "inorder btn" "map inorder cs2" ?ys] i
    by (simp add: L_def R_def)
  note dn = distinct_node [OF d [folded io]]
  have db: "distinct (map listblock (?xs @ sb # ?ys))" by (rule dn(1))
  then have dy: "distinct (map listblock ?ys)" and dxy: "listblock ` set ?xs \<inter> insert (listblock sb) (listblock ` set ?ys) = {}"
    and sy: "listblock sb \<notin> listblock ` set ?ys" by (auto simp del: append_take_drop_id)
  have sub: "listblock ` set ?ys \<subseteq> listblock ` set bs" by (auto dest: in_set_dropD)
  have "listblock ` set ?ys \<subseteq> dom (sb_map ss)" using own_dom [OF own] sub by blast
  from relink_ok [OF dy this, of a "i + 1"] obtain s1 where
    r: "relink a (i + 1) ?ys ss = Some s1" "same_lists ss s1"
      "\<forall>j < length ?ys. sb_map s1 (listblock (?ys ! j)) = Some (a, i + 1 + j)"
      "\<forall>d. d \<notin> listblock ` set ?ys \<longrightarrow> sb_map s1 d = sb_map ss d" by blast
  have m1: "moved (listblock ` set ?ys) ss s1" using r(4) by (simp add: moved_def)
  have "listblock sb \<in> dom (sb_map s1)" using sb r(2) by (simp add: same_lists_def)
  then obtain s2 where s2: "set_sb (listblock sb) (a, i) s1 = Some s2" "same_lists s1 s2" "moved {listblock sb} s1 s2"
    "sb_map s2 (listblock sb) = Some (a, i)" by (rule set_sb_moved)
  have k2: "keeps ss s2" by (rule keeps_trans [OF same_keeps [OF r(2)] same_keeps [OF s2(2)]])
  have m2: "moved (insert (listblock sb) (listblock ` set ?ys)) ss s2"
    by (rule moved_mono [OF moved_trans [OF m1 s2(3)]]) auto
  have "own (sb_map s2) a ?xs" by (rule own_moved [OF own_take [OF own] m2 dxy])
  moreover have "\<forall>j < length ?ys. sb_map s2 (listblock (?ys ! j)) = Some (a, Suc (length ?xs) + j)"
  proof (intro allI impI)
    fix j assume j: "j < length ?ys"
    then have "listblock (?ys ! j) \<noteq> listblock sb" using sy nth_mem [OF j] by (metis image_eqI)
    then have "sb_map s2 (listblock (?ys ! j)) = sb_map s1 (listblock (?ys ! j))" using s2(3) by (simp add: moved_def)
    then show "sb_map s2 (listblock (?ys ! j)) = Some (a, Suc (length ?xs) + j)" using r(3) j lx by simp
  qed
  ultimately have "own (sb_map s2) a (?xs @ sb # ?ys)" using s2(4) lx by (intro own_insert) simp_all
  moreover have "backed (sb_map s2) x" if "x \<in> set ?cs" for x
    using k that dn(2) [OF that] by (intro backed_moved [OF _ m2]) auto
  ultimately have b2: "backed (sb_map s2) (BNode a (?xs @ sb # ?ys) ?cs)" by simp
  have "length (?xs @ sb # ?ys) \<le> TREE_NODE_SIZE" "m \<le> length (?xs @ sb # ?ys)" "kids_ok (Suc h) (length (?xs @ sb # ?ys)) ?cs"
    using m k i by (simp_all add: kids_ok_def)
  from split_node_ok [OF this(3,2,1) b2 d [folded io]] obtain s3 t' irv where
    s3: "split_node s2 (BNode a (?xs @ sb # ?ys) ?cs) = Some (s3, t', irv)" "keeps s2 s3" "moved (listblock ` set (?xs @ sb # ?ys)) s2 s3"
      "up_ok s3 m (Suc h) (L @ inorder c @ sb # inorder btn @ R) t' irv" "fresh_addrs s2 s3 (addrs (BNode a (?xs @ sb # ?ys) ?cs)) (up_addrs t' irv)"
    unfolding io by blast
  have "insert_merge ss (BNode a bs (cs1 @ c # cs2)) i sb btn = Some (s3, t', irv)"
    using r(1) s2(1) s3(1) i by (simp add: insert_merge_def)
  moreover have "keeps ss s3" by (rule keeps_trans [OF k2 s3(2)])
  moreover have "moved (insert (listblock sb) (listblock ` set bs)) ss s3"
    by (rule moved_mono [OF moved_trans [OF m2 s3(3)]]) (auto dest: in_set_takeD in_set_dropD)
  moreover have "fresh_addrs ss s3 (a # concat (map addrs ?cs)) (up_addrs t' irv)"
    using fresh_trans [OF disjI1 [OF k2] s3(5)] s3(2) by (simp add: keeps_def)
  ultimately show ?thesis using s3(4) by blast
qed

lemma fresh_comp:
  assumes f: "fresh_addrs ss s1 xs ys" and g: "fresh_addrs s1 s2 (us @ ys @ vs) zs" and le: "brk ss \<le> brk s1" "brk s1 \<le> brk s2"
  shows "fresh_addrs ss s2 (us @ xs @ vs) zs"
proof -
  obtain F G where F: "F \<subseteq> {brk ss..<brk s1}" "mset ys = mset xs + mset_set F"
    and G: "G \<subseteq> {brk s1..<brk s2}" "mset zs = mset (us @ ys @ vs) + mset_set G"
    using f g unfolding fresh_addrs_def by blast
  have "finite F" "finite G" using F(1) G(1) by (auto intro: finite_subset)
  moreover have "F \<inter> G = {}" using F(1) G(1) by fastforce
  ultimately have "mset_set (F \<union> G) = mset_set F + mset_set G" by (rule mset_set_Union)
  moreover have "F \<union> G \<subseteq> {brk ss..<brk s2}" using F(1) G(1) le by fastforce
  ultimately show ?thesis unfolding fresh_addrs_def using F(2) G(2) by (intro exI [of _ "F \<union> G"]) simp
qed

text \<open>What a change below child \<open>i\<close> leaves alone.\<close>

lemma outside_child:
  assumes l: "length cs = Suc (length bs)" "i \<le> length bs" and d: "distinct (map listblock (inorder (BNode a bs cs)))"
  shows "listblock ` set bs \<inter> ids (cs ! i) = {}" "\<And>c. c \<in> set (take i cs @ drop (Suc i) cs) \<Longrightarrow> ids c \<inter> ids (cs ! i) = {}"
    and "distinct (map listblock (inorder (cs ! i)))"
proof -
  have io: "inorder (BNode a bs cs) = left_of bs cs i @ inorder (cs ! i) @ right_of bs cs i" by (rule inorder_at [OF l])
  then have dis: "listblock ` (set (left_of bs cs i) \<union> set (right_of bs cs i)) \<inter> ids (cs ! i) = {}"
    using d by (auto simp del: inorder.simps)
  show "distinct (map listblock (inorder (cs ! i)))" using d unfolding io by simp
  have "set bs = set (take i bs) \<union> set (drop i bs)" by (metis append_take_drop_id set_append)
  then show "listblock ` set bs \<inter> ids (cs ! i) = {}" using dis by (auto simp: set_left_of set_right_of)
  show "ids c \<inter> ids (cs ! i) = {}" if "c \<in> set (take i cs @ drop (Suc i) cs)" for c
    using that dis by (fastforce simp: set_left_of set_right_of)
qed

lemma concat_map_at:
  assumes "i < length cs"
  shows "concat (map f cs) = concat (map f (take i cs)) @ f (cs ! i) @ concat (map f (drop (Suc i) cs))"
proof -
  have "concat (map f (take i cs @ cs ! i # drop (Suc i) cs)) = concat (map f (take i cs)) @ f (cs ! i) @ concat (map f (drop (Suc i) cs))"
    by simp
  then show ?thesis unfolding id_take_nth_drop [OF assms, symmetric] .
qed

lemma disjoint_insertI: "x \<notin> A \<Longrightarrow> A \<inter> C = {} \<Longrightarrow> A \<inter> insert x C = {}"
  by simp

lemma insert_int_ok:
  assumes "bt_ok m h t" "0 < num_blocks t" "backed (sb_map ss) t" "distinct (map listblock (inorder t))"
    and "starts_up (inorder t)" "s \<notin> startslot ` set (inorder t)" and l: "lists_ok ss B" and n: "size_ok n"
  shows "\<exists>ss' t' irv. btree_insert_int ss t s n = Some (ss', t', irv) \<and> ins_ok ss m h t s n ss' t' irv"
  using assms(1-6)
proof (induction h arbitrary: m t)
  case 0
  obtain a bs cs where t: "t = BNode a bs cs" by (cases t)
  have cs: "cs = []" and bs: "0 < length bs" "m \<le> length bs" "length bs < TREE_NODE_SIZE" using 0 t by auto
  have "starts_up bs" "s \<notin> startslot ` set bs" using 0 t cs by simp_all
  from insert_search [OF this(1) bs(1) this(2)] obtain i where
    i: "bsearch (insert_probe bs s) (mid_index (length bs)) (mid_inc (length bs)) = Some i" "gap bs s i" by blast
  from insert_leaf_ok [OF l n i(2) bs(2,3), of a] 0 show ?case using i(1) t cs by auto
next
  case (Suc h)
  obtain a bs cs where t: "t = BNode a bs cs" by (cases t)
  have lc: "length cs = Suc (length bs)" and kc: "\<forall>c \<in> set cs. bt_ok TREE_NODE_MID h c"
    and bs: "0 < length bs" "m \<le> length bs" "length bs < TREE_NODE_SIZE" using Suc.prems t by auto
  have up: "starts_up (inorder (BNode a bs cs))" and sn: "s \<notin> startslot ` set (inorder (BNode a bs cs))"
    and d: "distinct (map listblock (inorder (BNode a bs cs)))" and bk: "own (sb_map ss) a bs" "\<forall>c \<in> set cs. backed (sb_map ss) c"
    using Suc.prems t by simp_all
  have "s \<notin> startslot ` set bs" using sn by (auto simp: set_weave)
  from insert_search [OF starts_node [OF up] bs(1) this] obtain i where
    i: "bsearch (insert_probe bs s) (mid_index (length bs)) (mid_inc (length bs)) = Some i" "gap bs s i" by blast
  have il: "i \<le> length bs" using i(2) by (simp add: gap_def)
  let ?c = "cs ! i" and ?cs1 = "take i cs" and ?cs2 = "drop (Suc i) cs"
  have ci: "?c \<in> set cs" using il lc by simp
  note io = inorder_at [OF lc il, of a]
  note out = outside_child [OF lc il d]
  have "starts_up (inorder ?c)" "s \<notin> startslot ` set (inorder ?c)" using up sn unfolding io by (auto simp: starts_append)
  moreover have "bt_ok TREE_NODE_MID h ?c" using kc ci by blast
  moreover from this have "0 < num_blocks ?c" by (cases h) (auto simp: TREE_NODE_MID_def)
  moreover have "backed (sb_map ss) ?c" using bk(2) ci by blast
  ultimately obtain s1 c' r1 where IH: "btree_insert_int ss ?c s n = Some (s1, c', r1)" "ins_ok ss TREE_NODE_MID h ?c s n s1 c' r1"
    using Suc.IH [of TREE_NODE_MID ?c] out(3) by blast
  then obtain b where b: "startslot b = s" "nslots b = n" "listblock b \<notin> dom (sb_map ss)" "up_ok s1 TREE_NODE_MID h (ins b (inorder ?c)) c' r1"
    "grows ss s1 (listblock b) (bin_of n)" "moved (insert (listblock b) (ids ?c)) ss s1" "fresh_addrs ss s1 (addrs ?c) (up_addrs c' r1)"
    unfolding ins_ok_def by blast
  have nb: "listblock b \<notin> ids c" if "c \<in> set cs" for c using b(3) backed_ids [of "sb_map ss" c] bk(2) that by blast
  have nbs: "listblock b \<notin> listblock ` set bs" using b(3) own_dom [OF bk(1)] by blast
  have own1: "own (sb_map s1) a bs" by (rule own_moved [OF bk(1) b(6) disjoint_insertI [OF nbs out(1)]])
  have k1: "bt_ok TREE_NODE_MID h c \<and> backed (sb_map s1) c" if "c \<in> set (?cs1 @ ?cs2)" for c
  proof -
    have c: "c \<in> set cs" using that by (auto dest: in_set_takeD in_set_dropD)
    have "ids c \<inter> insert (listblock b) (ids ?c) = {}" by (rule disjoint_insertI [OF nb [OF c] out(2) [OF that]])
    then show ?thesis using kc bk(2) c backed_moved [OF _ b(6), of c] by simp
  qed
  have up_c: "cs[i := c'] = ?cs1 @ c' # ?cs2" using il lc by (simp add: upd_conv_take_nth_drop)
  have ins: "ins b (inorder t) = left_of bs cs i @ ins b (inorder ?c) @ right_of bs cs i"
    unfolding t io using left_less [OF up lc i(2)] right_greater [OF up lc i(2)] b(1) by (intro ins_between) auto
  have ad: "addrs t = (a # concat (map addrs ?cs1)) @ addrs ?c @ concat (map addrs ?cs2)"
    using concat_map_at [of i cs addrs] il lc by (simp add: t)
  have g: "brk ss \<le> brk s1" "dom (sb_map s1) = insert (listblock b) (dom (sb_map ss))" using b(5) by (auto simp: grows_def)
  have sub: "ids ?c \<subseteq> ids t" "listblock ` set bs \<subseteq> ids t" unfolding t io by (auto simp: set_left_of set_right_of t) (metis Un_iff append_take_drop_id image_eqI set_append)
  show ?case
  proof (cases r1)
    case None
    let ?t = "BNode a bs (cs[i := c'])"
    have c': "inorder c' = ins b (inorder ?c)" "bt_ok TREE_NODE_MID h c'" "backed (sb_map s1) c'" using b(4) None by (simp_all add: up_ok_def)
    have "btree_insert_int ss t s n = Some (s1, ?t, None)" using IH(1) None i(1) il lc t by simp
    moreover have "inorder ?t = ins b (inorder t)" using inorder_update [OF lc il, of a c'] c'(1) ins by (simp del: inorder.simps)
    moreover have "bt_ok m (Suc h) ?t" using c'(2) k1 bs lc il unfolding up_c by auto
    moreover have "backed (sb_map s1) ?t" using c'(3) k1 own1 unfolding up_c by auto
    moreover have "fresh_addrs ss s1 (addrs t) (addrs ?t)"
      using fresh_comp [OF b(7) fresh_refl g(1) order.refl, of "a # concat (map addrs ?cs1)" "concat (map addrs ?cs2)"] None
      unfolding ad up_c by (simp add: up_addrs_def up_c)
    moreover have "moved (insert (listblock b) (ids t)) ss s1" using sub(1) by (intro moved_mono [OF b(6)]) blast
    ultimately show ?thesis unfolding ins_ok_def using b(1-3,5) by (auto simp: up_ok_def up_addrs_def intro!: exI [of _ b] simp del: inorder.simps)
  next
    case (Some p)
    obtain sb btn where p: "r1 = Some (sb, btn)" using Some by (cases p) auto
    have c': "inorder c' @ sb # inorder btn = ins b (inorder ?c)" "bt_ok TREE_NODE_MID h c'" "bt_ok TREE_NODE_MID h btn"
      "backed (sb_map s1) c'" "backed (sb_map s1) btn" using b(4) p by (simp_all add: up_ok_def)
    have whole: "left_of bs cs i @ inorder c' @ sb # inorder btn @ right_of bs cs i = ins b (inorder t)"
      unfolding ins c'(1) [symmetric] by simp
    have "listblock b \<notin> ids t" using b(3) backed_ids [OF Suc.prems(3)] by blast
    then have "distinct (map listblock (ins b (inorder t)))" using Suc.prems(4) by (rule distinct_ins [rotated])
    then have dd: "distinct (map listblock (left_of bs cs i @ inorder c' @ sb # inorder btn @ right_of bs cs i))" unfolding whole .
    have "sb \<in> set (ins b (inorder ?c))" unfolding c'(1) [symmetric] by simp
    then have sbi: "listblock sb \<in> insert (listblock b) (ids ?c)" by (auto simp: set_ins)
    then have sbd: "listblock sb \<in> dom (sb_map s1)" using g(2) backed_ids [of "sb_map ss" ?c] bk(2) ci by blast
    have ks: "\<forall>x \<in> set (?cs1 @ c' # btn # ?cs2). bt_ok TREE_NODE_MID h x \<and> backed (sb_map s1) x" using k1 c' by auto
    have ln: "length ?cs1 = i" "length ?cs2 = length bs - i" using il lc by simp_all
    from insert_merge_ok [OF il ln bs(2,3) ks own1 sbd] dd obtain s3 t' irv where
      s3: "insert_merge s1 (BNode a bs (?cs1 @ c' # ?cs2)) i sb btn = Some (s3, t', irv)" "keeps s1 s3"
        "moved (insert (listblock sb) (listblock ` set bs)) s1 s3" "up_ok s3 m (Suc h) (ins b (inorder t)) t' irv"
        "fresh_addrs s1 s3 (a # concat (map addrs (?cs1 @ c' # btn # ?cs2))) (up_addrs t' irv)"
      unfolding whole [symmetric] left_of_def right_of_def by auto
    have "btree_insert_int ss t s n = Some (s3, t', irv)" using IH(1) p i(1) il lc t s3(1) up_c by simp
    moreover have "grows ss s3 (listblock b) (bin_of n)" by (rule grows_keeps [OF b(5) s3(2)])
    moreover have "moved (insert (listblock b) (ids t)) ss s3"
      using sbi sub by (intro moved_mono [OF moved_trans [OF b(6) s3(3)]]) blast
    moreover have "fresh_addrs ss s3 (addrs t) (up_addrs t' irv)"
      unfolding ad using s3(2,5) p by (intro fresh_comp [OF b(7) _ g(1)]) (simp_all add: up_addrs_def keeps_def)
    ultimately show ?thesis unfolding ins_ok_def using b(1-3) s3(4) by blast
  qed
qed

lemma btree_insert_ok:
  assumes ok: "bt_ok m h t" "m = 0 \<Longrightarrow> h = 0" and bk: "backed (sb_map ss) t" and d: "distinct (map listblock (inorder t))"
    and s: "starts_up (inorder t)" "s \<notin> startslot ` set (inorder t)" and l: "lists_ok ss B" and n: "size_ok n"
  shows "\<exists>ss' t' b h'. btree_insert ss t s n = Some (ss', t') \<and> startslot b = s \<and> nslots b = n \<and> listblock b \<notin> dom (sb_map ss)
    \<and> bt_ok 1 h' t' \<and> inorder t' = ins b (inorder t) \<and> backed (sb_map ss') t' \<and> grows ss ss' (listblock b) (bin_of n)
    \<and> fresh_addrs ss ss' (addrs t) (addrs t')"
proof (cases "num_blocks t = 0")
  case True
  obtain a bs cs where t: "t = BNode a bs cs" by (cases t)
  have bs: "bs = []" using True t by simp
  then have cs: "cs = []" "h = 0" using ok t by (cases h; auto)+
  obtain s2 where s2: "list_insert ss n (a, 0) = Some (brk ss, s2)" "grows ss s2 (brk ss) (bin_of n)"
    "moved {brk ss} ss s2" "sb_map s2 (brk ss) = Some (a, 0)" "brk s2 = Suc (brk ss)" by (rule list_insert_grows [OF l n])
  let ?b = "\<lparr>startslot = s, nslots = n, listblock = brk ss\<rparr>"
  have "brk ss \<notin> dom (sb_map ss)" using lists_dom [OF l] by auto
  then show ?thesis using s2 t bs cs
    by (intro exI [of _ s2] exI [of _ "BNode a [?b] []"] exI [of _ ?b] exI [of _ 0])
      (auto simp: btree_insert_def TREE_NODE_SIZE_def ins_def own_def)
next
  case False
  then have "0 < num_blocks t" by simp
  from insert_int_ok [OF ok(1) this bk d s l n] obtain s1 t1 irv b where
    i: "btree_insert_int ss t s n = Some (s1, t1, irv)" and
    b: "startslot b = s" "nslots b = n" "listblock b \<notin> dom (sb_map ss)" "up_ok s1 m h (ins b (inorder t)) t1 irv"
      "grows ss s1 (listblock b) (bin_of n)" "fresh_addrs ss s1 (addrs t) (up_addrs t1 irv)" unfolding ins_ok_def by blast
  show ?thesis
  proof (cases irv)
    case None
    then have t1: "bt_ok m h t1" "inorder t1 = ins b (inorder t)" using b(4) by (simp_all add: up_ok_def)
    have "0 < num_blocks t1"
    proof (cases h)
      case 0
      then have "inorder t1 = blocks t1" using t1(1) by (cases t1) simp
      then show ?thesis using t1(2) by (auto simp: ins_def)
    next
      case Suc
      then show ?thesis using t1(1) ok(2) by (cases m) auto
    qed
    then have "bt_ok 1 h t1" using t1(1) by (cases h) (auto simp: Suc_le_eq)
    then show ?thesis using None i False b by (intro exI [of _ s1] exI [of _ t1] exI [of _ b] exI [of _ h])
      (simp add: btree_insert_def up_ok_def up_addrs_def)
  next
    case (Some p)
    obtain sb btn where p: "irv = Some (sb, btn)" using Some by (cases p) auto
    have c: "inorder t1 @ sb # inorder btn = ins b (inorder t)" "bt_ok TREE_NODE_MID h t1" "bt_ok TREE_NODE_MID h btn"
      "backed (sb_map s1) t1" "backed (sb_map s1) btn" using b(4) p by (simp_all add: up_ok_def)
    obtain r s2 where r: "create_btree_node s1 = (r, s2)" by fastforce
    note cn = create_keeps [OF r]
    have "sb \<in> set (ins b (inorder t))" unfolding c(1) [symmetric] by simp
    then have "listblock sb \<in> dom (sb_map s2)" using b(5) cn(1) backed_ids [OF bk] by (auto simp: set_ins grows_def keeps_def)
    then obtain s3 where s3: "set_sb (listblock sb) (brk s1, 0) s2 = Some s3" "same_lists s2 s3" "moved {listblock sb} s2 s3"
      "sb_map s3 (listblock sb) = Some (brk s1, 0)" by (rule set_sb_moved)
    have mv: "moved {listblock sb} s1 s3" using moved_trans [OF cn(2) s3(3)] by simp
    have "listblock b \<notin> ids t" using b(3) backed_ids [OF bk] by blast
    from distinct_ins [OF d this] have "distinct (map listblock (inorder t1 @ sb # inorder btn))" unfolding c(1) .
    then have "ids t1 \<inter> {listblock sb} = {}" "ids btn \<inter> {listblock sb} = {}" by simp_all
    from backed_moved [OF c(4) mv this(1)] backed_moved [OF c(5) mv this(2)]
    have "backed (sb_map s3) t1" "backed (sb_map s3) btn" .
    then have bb: "backed (sb_map s3) (BNode (brk s1) [sb] [t1, btn])" using s3(4) by (simp add: own_def)
    have kp: "keeps s1 s3" by (rule keeps_trans [OF cn(1) same_keeps [OF s3(2)]])
    have bk3: "brk s3 = Suc (brk s1)" using s3(2) cn(4) by (simp add: same_lists_def)
    have "fresh_addrs s1 s3 ([] @ up_addrs t1 irv @ []) (addrs (BNode (brk s1) [sb] [t1, btn]))"
      unfolding fresh_addrs_def by (rule exI [of _ "{brk s1}"]) (simp add: bk3 up_addrs_def p)
    from fresh_comp [OF b(6) this] b(5) kp have "fresh_addrs ss s3 (addrs t) (addrs (BNode (brk s1) [sb] [t1, btn]))"
      by (simp add: grows_def keeps_def)
    moreover have "bt_ok 1 (Suc h) (BNode (brk s1) [sb] [t1, btn])" using c(2,3) by (simp add: TREE_NODE_SIZE_def)
    moreover have "inorder (BNode (brk s1) [sb] [t1, btn]) = ins b (inorder t)" using c(1) by simp
    ultimately show ?thesis using i p r cn(3) s3(1) False bb b(1-3) grows_keeps [OF b(5) kp]
      by (intro exI [of _ s3] exI [of _ "BNode (brk s1) [sb] [t1, btn]"] exI [of _ b] exI [of _ "Suc h"])
        (simp add: btree_insert_def del: inorder.simps addrs.simps bt_ok.simps)
  qed
qed

end
