(* ===== verification/Iso_Balance.thy ===== *)
theory Iso_Balance
  imports Iso_Insert
begin

text \<open>
  The rotations and merges of the B-tree of free blocks: they keep the order of the blocks and
  the pointers of the list nodes, and give a node with one deficient child back its balance.
\<close>

section \<open>Two neighbouring children\<close>

lemma weave_join:
  assumes "cs = [] \<and> ds = [] \<or> length cs = Suc (length xs)"
  shows "weave (cs @ ds) (xs @ x # ys) = weave cs xs @ x # weave ds ys"
proof (cases "cs = []")
  case False
  then have l: "length cs = Suc (length xs)" using assms by simp
  define cs' where "cs' = butlast cs"
  have cs: "cs = cs' @ [last cs]" "length cs' = length xs" using l False by (simp_all add: cs'_def)
  then have "weave (cs @ ds) (xs @ x # ys) = weave (cs' @ last cs # ds) (xs @ x # ys)" by (metis append.assoc append_Cons append_Nil)
  also have "\<dots> = (weave cs' xs @ last cs) @ x # weave ds ys" using cs(2) by (simp add: weave_append)
  also have "weave cs' xs @ last cs = weave cs xs" using weave_snoc [OF cs(2), of "last cs"] cs(1) by simp
  finally show ?thesis .
qed (use assms in auto)

lemma kids_join: "kids_ok h x cs \<Longrightarrow> kids_ok h y ds \<Longrightarrow> kids_ok h (Suc (x + y)) (cs @ ds)"
  by (cases h) (auto simp: kids_ok_def)

lemma inorder_join:
  assumes "kids_ok h (length bl) cl" "kids_ok h n cr"
  shows "inorder (BNode a (bl @ p # br) (cl @ cr)) = inorder (BNode al bl cl) @ p # inorder (BNode ar br cr)"
  using assms weave_join [of "map inorder cl" "map inorder cr" bl p br] by (cases h) (auto simp: kids_ok_def)

lemma inorder_two:
  assumes "length cs1 = length bs1"
  shows "inorder (BNode a (bs1 @ p # bs2) (cs1 @ l # r # cs2)) =
    weave (map inorder cs1) bs1 @ inorder l @ p # inorder r @ weave ([] # map inorder cs2) bs2"
  using weave_append [of "map inorder cs1" bs1 "map inorder (l # r # cs2)" "p # bs2"] assms
    weave_first [of "inorder r" "map inorder cs2" bs2] by simp

abbreviation dis :: "slotblock list \<Rightarrow> bool" where
  "dis xs \<equiv> distinct (map listblock xs)"

abbreviation lbs :: "slotblock list \<Rightarrow> iso_addr set" where
  "lbs xs \<equiv> listblock ` set xs"

text \<open>The blocks of a node and its two children, and everything below.\<close>

lemma disjoint_groups:
  assumes "A1 \<inter> insert P (A2 \<union> (L \<union> (R \<union> K))) = {}" "P \<notin> A2 \<union> (L \<union> (R \<union> K))" "A2 \<inter> (L \<union> (R \<union> K)) = {}" "L \<inter> (R \<union> K) = {}" "R \<inter> K = {}"
  shows "A1 \<inter> insert P (L \<union> R) = {}" "A2 \<inter> insert P (L \<union> R) = {}" "K \<inter> insert P (L \<union> R) = {}" "K \<inter> (A1 \<union> A2) = {}"
    "P \<notin> L \<union> R" "L \<inter> R = {}" "A1 \<inter> A2 = {}" "L \<inter> A2 = {}" "R \<inter> A2 = {}" "P \<notin> A2"
  using assms by blast+

lemma dis_groups:
  assumes "dis (bs1 @ p # bs2 @ bl @ br @ ks)"
  shows "lbs bs1 \<inter> insert (listblock p) (lbs bl \<union> lbs br) = {}" "lbs bs2 \<inter> insert (listblock p) (lbs bl \<union> lbs br) = {}"
    "lbs ks \<inter> insert (listblock p) (lbs bl \<union> lbs br) = {}" "lbs ks \<inter> (lbs bs1 \<union> lbs bs2) = {}"
    "listblock p \<notin> lbs bl \<union> lbs br" "lbs bl \<inter> lbs br = {}" "lbs bs1 \<inter> lbs bs2 = {}" "lbs bl \<inter> lbs bs2 = {}" "lbs br \<inter> lbs bs2 = {}"
    "listblock p \<notin> lbs bs2" "dis bl" "dis br" "dis bs1" "dis bs2"
proof -
  have "lbs bs1 \<inter> insert (listblock p) (lbs bs2 \<union> (lbs bl \<union> (lbs br \<union> lbs ks))) = {}" "listblock p \<notin> lbs bs2 \<union> (lbs bl \<union> (lbs br \<union> lbs ks))"
    "lbs bs2 \<inter> (lbs bl \<union> (lbs br \<union> lbs ks)) = {}" "lbs bl \<inter> (lbs br \<union> lbs ks) = {}" "lbs br \<inter> lbs ks = {}"
    using assms by (simp_all add: image_Un)
  note g = disjoint_groups [OF this]
  show "lbs bs1 \<inter> insert (listblock p) (lbs bl \<union> lbs br) = {}" "lbs bs2 \<inter> insert (listblock p) (lbs bl \<union> lbs br) = {}"
    "lbs ks \<inter> insert (listblock p) (lbs bl \<union> lbs br) = {}" "lbs ks \<inter> (lbs bs1 \<union> lbs bs2) = {}"
    "listblock p \<notin> lbs bl \<union> lbs br" "lbs bl \<inter> lbs br = {}" "lbs bs1 \<inter> lbs bs2 = {}" "lbs bl \<inter> lbs bs2 = {}" "lbs br \<inter> lbs bs2 = {}"
    "listblock p \<notin> lbs bs2" by (fact g)+
qed (use assms in simp_all)
lemma two_dis:
  assumes "dis (inorder (BNode a (bs1 @ p # bs2) (cs1 @ BNode al bl cl # BNode ar br cr # cs2)))"
  shows "dis (bs1 @ p # bs2 @ bl @ br @ concat (map inorder (cs1 @ cl @ cr @ cs2)))"
proof -
  let ?w = "\<lambda>cs xs. weave (map inorder cs) xs :: slotblock list"
  have m: "mset (weave cs xs) = mset xs + mset (concat cs)" for cs and xs :: "slotblock list"
    by (induction cs xs rule: weave.induct) auto
  have "mset (inorder (BNode a (bs1 @ p # bs2) (cs1 @ BNode al bl cl # BNode ar br cr # cs2))) =
    mset (bs1 @ p # bs2 @ bl @ br @ concat (map inorder (cs1 @ cl @ cr @ cs2)))" by (simp add: m)
  then have "mset (map listblock (inorder (BNode a (bs1 @ p # bs2) (cs1 @ BNode al bl cl # BNode ar br cr # cs2)))) =
    mset (map listblock (bs1 @ p # bs2 @ bl @ br @ concat (map inorder (cs1 @ cl @ cr @ cs2))))" by (metis mset_map)
  then show ?thesis using assms mset_eq_imp_distinct_iff by blast
qed

lemma disjoint_sub: "A \<inter> C = {} \<Longrightarrow> X \<subseteq> C \<Longrightarrow> A \<inter> X = {}"
  by blast

lemma disjoint_mono: "A \<subseteq> A' \<Longrightarrow> C \<subseteq> C' \<Longrightarrow> A' \<inter> C' = {} \<Longrightarrow> A \<inter> C = {}"
  by blast

lemma disjoint_rest: "A \<subseteq> L \<Longrightarrow> u \<notin> A \<Longrightarrow> p \<notin> L \<Longrightarrow> L \<inter> R = {} \<Longrightarrow> A \<inter> (R \<union> {p} \<union> {u}) = {}"
  by blast

lemma two_groups:
  assumes "dis (inorder (BNode a (bs1 @ p # bs2) (cs1 @ BNode al bl cl # BNode ar br cr # cs2)))"
  shows "lbs bs1 \<inter> insert (listblock p) (lbs bl \<union> lbs br) = {}" "lbs bs2 \<inter> insert (listblock p) (lbs bl \<union> lbs br) = {}"
    "\<And>c. c \<in> set (cs1 @ cl @ cr @ cs2) \<Longrightarrow> ids c \<inter> insert (listblock p) (lbs bl \<union> lbs br) = {}"
    "\<And>c. c \<in> set (cs1 @ cl @ cr @ cs2) \<Longrightarrow> ids c \<inter> (lbs bs1 \<union> lbs bs2) = {}"
    "listblock p \<notin> lbs bl \<union> lbs br" "lbs bl \<inter> lbs br = {}" "dis bl" "dis br" "lbs bs1 \<inter> lbs bs2 = {}" "dis bs2" "listblock p \<notin> lbs bs2"
proof -
  note g = dis_groups [OF two_dis [OF assms]]
  have sub: "ids c \<subseteq> lbs (concat (map inorder (cs1 @ cl @ cr @ cs2)))" if "c \<in> set (cs1 @ cl @ cr @ cs2)" for c
    using that by auto
  show "ids c \<inter> insert (listblock p) (lbs bl \<union> lbs br) = {}" "ids c \<inter> (lbs bs1 \<union> lbs bs2) = {}"
    if "c \<in> set (cs1 @ cl @ cr @ cs2)" for c
    using sub [OF that] g(3,4) by (meson disjoint_mono order.refl)+
qed (fact dis_groups [OF two_dis [OF assms]])+

lemma two_ids:
  "insert (listblock p) (lbs bl \<union> lbs br) \<subseteq> ids (BNode a (bs1 @ p # bs2) (cs1 @ BNode al bl cl # BNode ar br cr # cs2))"
  "insert (listblock p) (lbs br \<union> lbs bs2) \<subseteq> ids (BNode a (bs1 @ p # bs2) (cs1 @ BNode al bl cl # BNode ar br cr # cs2))"
  by (auto simp: set_weave)

lemma own_update:
  assumes "own (sb_map ss) a (xs @ p # ys)" "moved X ss ss'" "lbs xs \<inter> X = {}" "lbs ys \<inter> X = {}" "sb_map ss' (listblock q) = Some (a, length xs)"
  shows "own (sb_map ss') a (xs @ q # ys)"
proof (rule own_insert)
  show "own (sb_map ss') a xs" using assms(1-3) own_moved [of ss a xs X ss'] by (simp add: own_append)
  show "\<forall>j < length ys. sb_map ss' (listblock (ys ! j)) = Some (a, Suc (length xs) + j)"
  proof (intro allI impI)
    fix j assume j: "j < length ys"
    then have "listblock (ys ! j) \<notin> X" using assms(4) by (metis disjoint_iff image_eqI nth_mem)
    moreover have "sb_map ss (listblock ((p # ys) ! Suc j)) = Some (a, length xs + Suc j)"
      using assms(1) j unfolding own_append by (auto dest: spec [of _ "Suc j"])
    ultimately show "sb_map ss' (listblock (ys ! j)) = Some (a, Suc (length xs) + j)" using assms(2) by (simp add: moved_def)
  qed
qed (rule assms(5))

section \<open>Rotations and merge\<close>

definition reordered :: "slotset \<Rightarrow> slotset \<Rightarrow> btreenode \<Rightarrow> btreenode \<Rightarrow> bool" where
  "reordered ss ss' t t' \<longleftrightarrow> keeps ss ss' \<and> moved (ids t) ss ss' \<and> backed (sb_map ss') t' \<and> inorder t' = inorder t
    \<and> mset (addrs t') \<subseteq># mset (addrs t)"

lemma rotate_right_ok:
  fixes a bs1 p bs2 cs1 al bl cl ar br cr cs2
  defines "t \<equiv> BNode a (bs1 @ p # bs2) (cs1 @ BNode al bl cl # BNode ar br cr # cs2)"
    and "t' \<equiv> BNode a (bs1 @ last bl # bs2) (cs1 @ BNode al (butlast bl) (take (length bl) cl) # BNode ar (p # br) (drop (length bl) cl @ cr) # cs2)"
  assumes l: "length cs1 = length bs1" and kl: "kids_ok h (length bl) cl" and kr: "kids_ok h (length br) cr" and ne: "bl \<noteq> []"
    and b: "backed (sb_map ss) t" and d: "dis (inorder t)"
  shows "\<exists>ss'. rotate_right ss t (Suc (length bs1)) = Some (ss', t') \<and> reordered ss ss' t t'"
proof -
  let ?n = "length bl" and ?u = "last bl" and ?C = "insert (listblock p) (lbs bl \<union> lbs br)"
  note G = two_groups [OF d [unfolded t_def]]
  have bl: "bl = butlast bl @ [?u]" "listblock ?u \<in> lbs bl" using ne by simp_all
  have own: "own (sb_map ss) a (bs1 @ p # bs2)" "own (sb_map ss) al bl" "own (sb_map ss) ar br"
    and kids: "\<forall>c \<in> set (cs1 @ cl @ cr @ cs2). backed (sb_map ss) c" using b by (auto simp: t_def)
  have dr: "lbs br \<subseteq> dom (sb_map ss)" by (rule own_dom [OF own(3)])
  have dp: "listblock p \<in> dom (sb_map ss)" by (rule subsetD [OF own_dom [OF own(1)]]) simp
  have du: "listblock ?u \<in> dom (sb_map ss)" by (rule subsetD [OF own_dom [OF own(2)] bl(2)])
  from relink_ok [OF G(8) dr, of ar 1] obtain s1 where
    s1: "relink ar 1 br ss = Some s1" "same_lists ss s1" "\<forall>j < length br. sb_map s1 (listblock (br ! j)) = Some (ar, 1 + j)"
      "moved (lbs br) ss s1" by (auto simp: moved_def)
  have "listblock p \<in> dom (sb_map s1)" using dp s1(2) by (simp add: same_lists_def)
  then obtain s2 where s2: "set_sb (listblock p) (ar, 0) s1 = Some s2" "same_lists s1 s2" "moved {listblock p} s1 s2"
    "sb_map s2 (listblock p) = Some (ar, 0)" by (rule set_sb_moved)
  have "listblock ?u \<in> dom (sb_map s2)" using du s1(2) s2(2) by (simp add: same_lists_def)
  then obtain s3 where s3: "set_sb (listblock ?u) (a, length bs1) s2 = Some s3" "same_lists s2 s3" "moved {listblock ?u} s2 s3"
    "sb_map s3 (listblock ?u) = Some (a, length bs1)" by (rule set_sb_moved)
  have mv: "moved (lbs br \<union> {listblock p} \<union> {listblock ?u}) ss s3" by (rule moved_trans [OF moved_trans [OF s1(4) s2(3)] s3(3)])
  have mC: "moved ?C ss s3" using bl(2) by (intro moved_mono [OF mv]) blast
  have up: "listblock ?u \<noteq> listblock p" "listblock ?u \<notin> lbs br" using bl(2) G(5,6) by (metis UnI1, metis disjoint_iff)
  have "own (sb_map s3) a (bs1 @ ?u # bs2)" by (rule own_update [OF own(1) mC G(1,2) s3(4)])
  moreover have "own (sb_map s3) al (butlast bl)"
  proof (rule own_moved [OF _ mv])
    show "own (sb_map ss) al (butlast bl)" using own_take [OF own(2), of "?n - 1"] by (simp add: butlast_conv_take)
    have "lbs (butlast bl) \<subseteq> lbs bl" by (auto dest: in_set_butlastD)
    moreover have "listblock ?u \<notin> lbs (butlast bl)" using G(7) by (subst (asm) bl(1)) simp
    moreover have "listblock p \<notin> lbs bl" using G(5) by (rule contrapos_nn) (rule UnI1)
    ultimately show "lbs (butlast bl) \<inter> (lbs br \<union> {listblock p} \<union> {listblock ?u}) = {}" by (rule disjoint_rest) (rule G(6))
  qed
  moreover have "own (sb_map s3) ar ([] @ p # br)"
  proof (rule own_insert)
    have "listblock (br ! j) \<noteq> listblock p \<and> listblock (br ! j) \<noteq> listblock ?u" if "j < length br" for j
      using up(2) G(5) nth_mem [OF that] by (metis UnI2 image_eqI)
    then show "\<forall>j < length br. sb_map s3 (listblock (br ! j)) = Some (ar, Suc (length []) + j)"
      using s1(3) s2(3) s3(3) by (simp add: moved_def)
    show "sb_map s3 (listblock p) = Some (ar, length [])" using s2(4) s3(3) up(1) by (simp add: moved_def)
  qed (simp add: own_def)
  moreover have "backed (sb_map s3) c" if "c \<in> set (cs1 @ cl @ cr @ cs2)" for c
    using kids that by (intro backed_moved [OF _ mC G(3) [OF that]]) blast
  ultimately have b3: "backed (sb_map s3) t'"
    by (auto simp: t'_def dest: in_set_takeD in_set_dropD)
  have n: "?n - 1 < length bl" "Suc (?n - 1) = ?n" "take (?n - 1) bl = butlast bl" "bl ! (?n - 1) = ?u"
    using ne by (simp_all add: butlast_conv_take last_conv_nth)
  have sp: "kids_ok h (length (butlast bl)) (take ?n cl)" "kids_ok h 0 (drop ?n cl)"
    using kids_split [OF kl n(1)] ne n(2) by simp_all
  have "inorder (BNode al bl cl) = inorder (BNode al (butlast bl) (take ?n cl)) @ ?u # inorder (BNode ar [] (drop ?n cl))"
    using inorder_join [OF sp, of al ?u "[]" al ar] bl(1) by simp
  moreover have "inorder (BNode ar (p # br) (drop ?n cl @ cr)) = inorder (BNode ar [] (drop ?n cl)) @ p # inorder (BNode ar br cr)"
    using inorder_join [of h "[]" "drop ?n cl" "length br" cr ar p br ar ar] sp(2) kr by simp
  ultimately have io: "inorder t' = inorder t" unfolding t_def t'_def inorder_two [OF l] by (simp del: inorder.simps)
  have len: "length (drop ?n cl) \<le> 1" using sp(2) by (cases h) (auto simp: kids_ok_def)
  have "rotate_right ss t (Suc (length bs1)) = Some (s3, t')"
    using s1(1) s2(1) s3(1) l len by (simp add: rotate_right_def t_def t'_def Let_def nth_append list_update_append)
  moreover have "mset (addrs t') \<subseteq># mset (addrs t)"
  proof -
    have "mset (concat (map addrs cl)) = mset (concat (map addrs (take ?n cl))) + mset (concat (map addrs (drop ?n cl)))"
      by (metis append_take_drop_id concat_append map_append mset_append)
    then show ?thesis by (simp add: t_def t'_def)
  qed
  moreover have "moved (ids t) ss s3" using two_ids unfolding t_def by (intro moved_mono [OF mC]) blast
  ultimately show ?thesis
    using io b3 keeps_trans [OF keeps_trans [OF same_keeps [OF s1(2)] same_keeps [OF s2(2)]] same_keeps [OF s3(2)]]
    unfolding reordered_def by blast
qed

lemma rotate_left_ok:
  fixes a bs1 p bs2 cs1 al bl cl ar u br cr cs2
  defines "t \<equiv> BNode a (bs1 @ p # bs2) (cs1 @ BNode al bl cl # BNode ar (u # br) cr # cs2)"
    and "t' \<equiv> BNode a (bs1 @ u # bs2) (cs1 @ BNode al (bl @ [p]) (cl @ take 1 cr) # BNode ar br (drop 1 cr) # cs2)"
  assumes l: "length cs1 = length bs1" and kl: "kids_ok h (length bl) cl" and kr: "kids_ok h (Suc (length br)) cr"
    and b: "backed (sb_map ss) t" and d: "dis (inorder t)"
  shows "\<exists>ss'. rotate_left ss t (length bs1) = Some (ss', t') \<and> reordered ss ss' t t'"
proof -
  let ?C = "insert (listblock p) (lbs bl \<union> lbs (u # br))"
  note G = two_groups [OF d [unfolded t_def]]
  have own: "own (sb_map ss) a (bs1 @ p # bs2)" "own (sb_map ss) al bl" "own (sb_map ss) ar (u # br)"
    and kids: "\<forall>c \<in> set (cs1 @ cl @ cr @ cs2). backed (sb_map ss) c" using b by (auto simp: t_def)
  have dp: "listblock p \<in> dom (sb_map ss)" by (rule subsetD [OF own_dom [OF own(1)]]) simp
  have dr: "listblock u \<in> dom (sb_map ss)" "lbs br \<subseteq> dom (sb_map ss)" using own_dom [OF own(3)] by simp_all
  obtain s1 where s1: "set_sb (listblock p) (al, length bl) ss = Some s1" "same_lists ss s1" "moved {listblock p} ss s1"
    "sb_map s1 (listblock p) = Some (al, length bl)" by (rule set_sb_moved [OF dp])
  have "listblock u \<in> dom (sb_map s1)" using dr s1(2) by (simp add: same_lists_def)
  then obtain s2 where s2: "set_sb (listblock u) (a, length bs1) s1 = Some s2" "same_lists s1 s2" "moved {listblock u} s1 s2"
    "sb_map s2 (listblock u) = Some (a, length bs1)" by (rule set_sb_moved)
  have "lbs br \<subseteq> dom (sb_map s2)" "dis br" using dr s1(2) s2(2) G(8) by (simp_all add: same_lists_def)
  from relink_ok [OF this(2,1), of ar 0] obtain s3 where
    s3: "relink ar 0 br s2 = Some s3" "same_lists s2 s3" "\<forall>j < length br. sb_map s3 (listblock (br ! j)) = Some (ar, j)"
      "moved (lbs br) s2 s3" by (auto simp: moved_def)
  have mC: "moved ?C ss s3" by (rule moved_mono [OF moved_trans [OF moved_trans [OF s1(3) s2(3)] s3(4)]]) auto
  have mu: "moved (lbs (u # br)) s1 s3" by (rule moved_mono [OF moved_trans [OF s2(3) s3(4)]]) auto
  have mX: "moved (insert (listblock p) (lbs (u # br))) ss s3" by (rule moved_mono [OF moved_trans [OF s1(3) mu]]) auto
  have pn: "listblock p \<notin> lbs bl" "listblock p \<notin> lbs (u # br)" using G(5) by simp_all
  have "listblock u \<notin> lbs br" using G(8) by simp
  then have "sb_map s3 (listblock u) = Some (a, length bs1)" using s2(4) s3(4) by (simp add: moved_def)
  then have "own (sb_map s3) a (bs1 @ u # bs2)" by (rule own_update [OF own(1) mC G(1,2)])
  moreover have "own (sb_map s3) al (bl @ p # [])"
  proof (rule own_insert)
    show "own (sb_map s3) al bl" by (rule own_moved [OF own(2) mX disjoint_insertI [OF pn(1) G(6)]])
    show "sb_map s3 (listblock p) = Some (al, length bl)" using s1(4) mu pn(2) unfolding moved_def by metis
  qed simp
  moreover have "own (sb_map s3) ar br" using s3(3) by (simp add: own_def)
  moreover have "backed (sb_map s3) c" if "c \<in> set (cs1 @ cl @ cr @ cs2)" for c
    using kids that by (intro backed_moved [OF _ mC G(3) [OF that]]) blast
  ultimately have b3: "backed (sb_map s3) t'" by (auto simp: t'_def dest: in_set_takeD in_set_dropD)
  have sp: "kids_ok h 0 (take 1 cr)" "kids_ok h (length br) (drop 1 cr)" using kids_split [OF kr, of 0] by simp_all
  have "inorder (BNode ar (u # br) cr) = inorder (BNode al [] (take 1 cr)) @ u # inorder (BNode ar br (drop 1 cr))"
    using inorder_join [of h "[]" "take 1 cr" "length br" "drop 1 cr" ar u br al ar] sp by simp
  moreover have "inorder (BNode al (bl @ [p]) (cl @ take 1 cr)) = inorder (BNode al bl cl) @ p # inorder (BNode al [] (take 1 cr))"
    using inorder_join [OF kl sp(1), of al p "[]" al al] by simp
  ultimately have io: "inorder t' = inorder t" unfolding t_def t'_def inorder_two [OF l] by (simp del: inorder.simps)
  have "rotate_left ss t (length bs1) = Some (s3, t')"
    using s1(1) s2(1) s3(1) l by (simp add: rotate_left_def t_def t'_def Let_def nth_append list_update_append)
  moreover have "mset (concat (map addrs cr)) = mset (concat (map addrs (take 1 cr))) + mset (concat (map addrs (drop 1 cr)))"
    by (metis append_take_drop_id concat_append map_append mset_append)
  then have "mset (addrs t') \<subseteq># mset (addrs t)" by (simp add: t_def t'_def)
  moreover have "moved (ids t) ss s3" using two_ids(1) unfolding t_def by (intro moved_mono [OF mC]) blast
  ultimately show ?thesis
    using io b3 keeps_trans [OF keeps_trans [OF same_keeps [OF s1(2)] same_keeps [OF s2(2)]] same_keeps [OF s3(2)]]
    unfolding reordered_def by blast
qed

lemma inorder_one:
  assumes "length cs1 = length bs1"
  shows "inorder (BNode a (bs1 @ bs2) (cs1 @ c # cs2)) = weave (map inorder cs1) bs1 @ inorder c @ weave ([] # map inorder cs2) bs2"
  using weave_at [of "map inorder cs1" bs1 "inorder c" "map inorder cs2" bs2] assms by simp

lemma disjoint_three: "A \<inter> insert p (L \<union> R) = {} \<Longrightarrow> A \<inter> D = {} \<Longrightarrow> A \<inter> insert p (R \<union> D) = {}"
  by blast

lemma merge_children_ok:
  fixes a bs1 p bs2 cs1 al bl cl ar br cr cs2
  defines "t \<equiv> BNode a (bs1 @ p # bs2) (cs1 @ BNode al bl cl # BNode ar br cr # cs2)"
    and "t' \<equiv> BNode a (bs1 @ bs2) (cs1 @ BNode al (bl @ p # br) (cl @ cr) # cs2)"
  assumes l: "length cs1 = length bs1" and kl: "kids_ok h (length bl) cl" and kr: "kids_ok h (length br) cr"
    and b: "backed (sb_map ss) t" and d: "dis (inorder t)"
  shows "\<exists>ss'. merge_children ss t (length bs1) = Some (ss', t') \<and> reordered ss ss' t t'"
proof -
  let ?X = "insert (listblock p) (lbs br \<union> lbs bs2)"
  note G = two_groups [OF d [unfolded t_def]]
  have own: "own (sb_map ss) a (bs1 @ p # bs2)" "own (sb_map ss) al bl" "own (sb_map ss) ar br"
    and kids: "\<forall>c \<in> set (cs1 @ cl @ cr @ cs2). backed (sb_map ss) c" using b by (auto simp: t_def)
  have dp: "listblock p \<in> dom (sb_map ss)" by (rule subsetD [OF own_dom [OF own(1)]]) simp
  have d2: "lbs bs2 \<subseteq> dom (sb_map ss)" using own_dom [OF own(1)] by (simp add: image_Un)
  obtain s1 where s1: "set_sb (listblock p) (al, length bl) ss = Some s1" "same_lists ss s1" "moved {listblock p} ss s1"
    "sb_map s1 (listblock p) = Some (al, length bl)" by (rule set_sb_moved [OF dp])
  have "lbs br \<subseteq> dom (sb_map s1)" using own_dom [OF own(3)] s1(2) by (simp add: same_lists_def)
  from relink_ok [OF G(8) this, of al "length bl + 1"] obtain s2 where
    s2: "relink al (length bl + 1) br s1 = Some s2" "same_lists s1 s2"
      "\<forall>j < length br. sb_map s2 (listblock (br ! j)) = Some (al, length bl + 1 + j)" "moved (lbs br) s1 s2" by (auto simp: moved_def)
  have "lbs bs2 \<subseteq> dom (sb_map s2)" using d2 s1(2) s2(2) by (simp add: same_lists_def)
  from relink_ok [OF G(10) this, of a "length bs1"] obtain s3 where
    s3: "relink a (length bs1) bs2 s2 = Some s3" "same_lists s2 s3"
      "\<forall>j < length bs2. sb_map s3 (listblock (bs2 ! j)) = Some (a, length bs1 + j)" "moved (lbs bs2) s2 s3" by (auto simp: moved_def)
  have mX: "moved ?X ss s3" by (rule moved_mono [OF moved_trans [OF moved_trans [OF s1(3) s2(4)] s3(4)]]) auto
  have m13: "moved (lbs br \<union> lbs bs2) s1 s3" by (rule moved_trans [OF s2(4) s3(4)])
  have pn: "listblock p \<notin> lbs bl" "listblock p \<notin> lbs br \<union> lbs bs2" using G(5,11) by simp_all
  have b2: "lbs bl \<inter> lbs bs2 = {}" "lbs br \<inter> lbs bs2 = {}" using G(2) by (simp_all add: Int_Un_distrib Int_commute)
  have "own (sb_map s3) a bs1" using own(1) by (intro own_moved [OF _ mX disjoint_three [OF G(1,9)]]) (simp add: own_append)
  then have "own (sb_map s3) a (bs1 @ bs2)" using s3(3) by (simp add: own_append)
  moreover have "own (sb_map s3) al (bl @ p # br)"
  proof (rule own_insert)
    show "own (sb_map s3) al bl" using G(6) pn(1) b2(1) by (intro own_moved [OF own(2) mX]) (simp add: Int_Un_distrib)
    show "sb_map s3 (listblock p) = Some (al, length bl)" using s1(4) m13 pn(2) unfolding moved_def by metis
    have "listblock (br ! j) \<notin> lbs bs2" if "j < length br" for j using b2(2) nth_mem [OF that] by (metis disjoint_iff image_eqI)
    then show "\<forall>j < length br. sb_map s3 (listblock (br ! j)) = Some (al, Suc (length bl) + j)"
      using s2(3) s3(4) by (simp add: moved_def)
  qed
  moreover have "backed (sb_map s3) c" if "c \<in> set (cs1 @ cl @ cr @ cs2)" for c
  proof (rule backed_moved [OF _ mX])
    have "ids c \<inter> lbs bs2 = {}" using G(4) [OF that] by (simp add: Int_Un_distrib)
    then show "ids c \<inter> ?X = {}" by (rule disjoint_three [OF G(3) [OF that]])
  qed (use kids that in blast)
  ultimately have b3: "backed (sb_map s3) t'" by (auto simp: t'_def)
  have io: "inorder t' = inorder t"
    using inorder_one [OF l, of a bs2 "BNode al (bl @ p # br) (cl @ cr)" cs2] inorder_join [OF kl kr, of al p br al ar]
      inorder_two [OF l, of a p bs2 "BNode al bl cl" "BNode ar br cr" cs2] unfolding t_def t'_def by (simp del: inorder.simps)
  have "merge_children ss t (length bs1) = Some (s3, t')"
    using s1(1) s2(1) s3(1) l by (simp add: merge_children_def t_def t'_def Let_def nth_append)
  moreover have "mset (addrs t') \<subseteq># mset (addrs t)" by (simp add: t_def t'_def)
  moreover have "moved (ids t) ss s3" using two_ids(2) unfolding t_def by (intro moved_mono [OF mX]) blast
  ultimately show ?thesis
    using io b3 keeps_trans [OF keeps_trans [OF same_keeps [OF s1(2)] same_keeps [OF s2(2)]] same_keeps [OF s3(2)]]
    unfolding reordered_def by blast
qed

section \<open>Restoring the balance\<close>

lemma node_two:
  assumes "k < length bs" "length cs = Suc (length bs)" and Q: "\<And>i. i \<le> length bs \<Longrightarrow> i \<noteq> k \<Longrightarrow> i \<noteq> Suc k \<Longrightarrow> Q (cs ! i)"
  obtains bs1 p bs2 cs1 al bl cl ar br cr cs2 where "bs = bs1 @ p # bs2" "cs = cs1 @ BNode al bl cl # BNode ar br cr # cs2"
    "length bs1 = k" "length cs1 = k" "length cs2 = length bs2" "cs ! k = BNode al bl cl" "cs ! Suc k = BNode ar br cr"
    "\<forall>x \<in> set (cs1 @ cs2). Q x"
proof -
  have b: "bs = take k bs @ bs ! k # drop (Suc k) bs" using assms by (simp add: id_take_nth_drop)
  have c: "cs = take k cs @ cs ! k # cs ! Suc k # drop (Suc (Suc k)) cs" using assms by (simp add: Cons_nth_drop_Suc)
  obtain al bl cl ar br cr where "cs ! k = BNode al bl cl" "cs ! Suc k = BNode ar br cr" by (meson btreenode.exhaust)
  moreover have "Q x" if x: "x \<in> set (take k cs @ drop (Suc (Suc k)) cs)" for x
  proof -
    consider "x \<in> set (take k cs)" | "x \<in> set (drop (Suc (Suc k)) cs)" using x by auto
    then show ?thesis
    proof cases
      case 1
      then obtain i where "i < k" "x = cs ! i" using assms by (auto simp: in_set_conv_nth)
      then show ?thesis using Q [of i] assms(1) by simp
    next
      case 2
      then obtain i where "i < length cs - Suc (Suc k)" "x = cs ! (Suc (Suc k) + i)" by (auto simp: in_set_conv_nth)
      then show ?thesis using Q [of "Suc (Suc k) + i"] assms(2) by simp
    qed
  qed
  ultimately show ?thesis using that [OF b] c assms by simp
qed

lemma bt_ok_mono: "bt_ok m h t \<Longrightarrow> m' \<le> num_blocks t \<Longrightarrow> bt_ok m' h t"
  by (cases h) auto

lemma reordered_refl: "backed (sb_map ss) t \<Longrightarrow> reordered ss ss t t"
  by (simp add: reordered_def)

lemma bt_ok_two:
  assumes "length cs1 = length bs1" "length cs2 = length bs2" "length (bs1 @ p # bs2) < TREE_NODE_SIZE"
    and "\<forall>x \<in> set (cs1 @ cs2). bt_ok TREE_NODE_MID h x" "bt_ok TREE_NODE_MID h l" "bt_ok TREE_NODE_MID h r"
  shows "bt_ok (length (bs1 @ p # bs2) - 1) (Suc h) (BNode a (bs1 @ p # bs2) (cs1 @ l # r # cs2))"
  using assms by auto

lemma fix_rotate_right:
  assumes l: "length cs = Suc (length bs)" and k: "k < length bs" and n: "length bs < TREE_NODE_SIZE"
    and big: "bt_ok (Suc TREE_NODE_MID) h (cs ! k)" and small: "bt_ok (TREE_NODE_MID - 1) h (cs ! Suc k)" "num_blocks (cs ! Suc k) < TREE_NODE_MID"
    and ko: "\<And>i. i \<le> length bs \<Longrightarrow> i \<noteq> Suc k \<Longrightarrow> bt_ok TREE_NODE_MID h (cs ! i)"
    and b: "backed (sb_map ss) (BNode a bs cs)" and d: "dis (inorder (BNode a bs cs))"
  shows "\<exists>ss' t'. rotate_right ss (BNode a bs cs) (Suc k) = Some (ss', t') \<and> reordered ss ss' (BNode a bs cs) t'
    \<and> bt_ok (length bs - 1) (Suc h) t'"
proof -
  obtain bs1 p bs2 cs1 al bl cl ar br cr cs2 where
    t: "bs = bs1 @ p # bs2" "cs = cs1 @ BNode al bl cl # BNode ar br cr # cs2" "length bs1 = k" "length cs1 = k" "length cs2 = length bs2"
      "cs ! k = BNode al bl cl" "cs ! Suc k = BNode ar br cr" "\<forall>x \<in> set (cs1 @ cs2). bt_ok TREE_NODE_MID h x"
    by (rule node_two [OF k l, of "bt_ok TREE_NODE_MID h"]) (use ko in blast)+
  have kl: "kids_ok h (length bl) cl" "Suc TREE_NODE_MID \<le> length bl" "length bl < TREE_NODE_SIZE"
    and kr: "kids_ok h (length br) cr" "Suc (length br) = TREE_NODE_MID" using big small t(6,7) by (auto simp: bt_ok_node TREE_NODE_MID_def)
  have ne: "bl \<noteq> []" and n1: "length bl - 1 < length bl" "Suc (length bl - 1) = length bl" using kl by auto
  have lc: "length cs1 = length bs1" using t by simp
  from rotate_right_ok [OF lc kl(1) kr(1) ne] b d obtain ss' where
    r: "rotate_right ss (BNode a bs cs) (Suc k) = Some (ss', BNode a (bs1 @ last bl # bs2) (cs1 @ BNode al (butlast bl) (take (length bl) cl) # BNode ar (p # br) (drop (length bl) cl @ cr) # cs2))"
      "reordered ss ss' (BNode a bs cs) (BNode a (bs1 @ last bl # bs2) (cs1 @ BNode al (butlast bl) (take (length bl) cl) # BNode ar (p # br) (drop (length bl) cl @ cr) # cs2))"
    unfolding t(1,2) t(3) [symmetric] by blast
  have sp: "kids_ok h (length (butlast bl)) (take (length bl) cl)" "kids_ok h 0 (drop (length bl) cl)"
    using kids_split [OF kl(1) n1(1)] n1(2) by simp_all
  have kk: "bt_ok TREE_NODE_MID h (BNode al (butlast bl) (take (length bl) cl))" "bt_ok TREE_NODE_MID h (BNode ar (p # br) (drop (length bl) cl @ cr))"
    using sp kl kr kids_join [OF sp(2) kr(1)] by (auto simp: bt_ok_node TREE_NODE_MID_def TREE_NODE_SIZE_def)
  have len: "length (bs1 @ last bl # bs2) < TREE_NODE_SIZE" "length (bs1 @ last bl # bs2) = length bs" using t(1) n by simp_all
  have "bt_ok (length bs - 1) (Suc h) (BNode a (bs1 @ last bl # bs2) (cs1 @ BNode al (butlast bl) (take (length bl) cl) # BNode ar (p # br) (drop (length bl) cl @ cr) # cs2))"
    using bt_ok_two [OF lc t(5) len(1) t(8) kk] len(2) by metis
  then show ?thesis using r by blast
qed

lemma fix_rotate_left:
  assumes l: "length cs = Suc (length bs)" and k: "k < length bs" and n: "length bs < TREE_NODE_SIZE"
    and big: "bt_ok (Suc TREE_NODE_MID) h (cs ! Suc k)" and small: "bt_ok (TREE_NODE_MID - 1) h (cs ! k)" "num_blocks (cs ! k) < TREE_NODE_MID"
    and ko: "\<And>i. i \<le> length bs \<Longrightarrow> i \<noteq> k \<Longrightarrow> bt_ok TREE_NODE_MID h (cs ! i)"
    and b: "backed (sb_map ss) (BNode a bs cs)" and d: "dis (inorder (BNode a bs cs))"
  shows "\<exists>ss' t'. rotate_left ss (BNode a bs cs) k = Some (ss', t') \<and> reordered ss ss' (BNode a bs cs) t'
    \<and> bt_ok (length bs - 1) (Suc h) t'"
proof -
  obtain bs1 p bs2 cs1 al bl cl ar br0 cr cs2 where
    t: "bs = bs1 @ p # bs2" "cs = cs1 @ BNode al bl cl # BNode ar br0 cr # cs2" "length bs1 = k" "length cs1 = k" "length cs2 = length bs2"
      "cs ! k = BNode al bl cl" "cs ! Suc k = BNode ar br0 cr" "\<forall>x \<in> set (cs1 @ cs2). bt_ok TREE_NODE_MID h x"
    by (rule node_two [OF k l, of "bt_ok TREE_NODE_MID h"]) (use ko in blast)+
  obtain u br where br0: "br0 = u # br" using big t(7) by (cases br0) (auto simp: bt_ok_node)
  have kl: "kids_ok h (length bl) cl" "Suc (length bl) = TREE_NODE_MID" and kr: "kids_ok h (Suc (length br)) cr" "TREE_NODE_MID \<le> length br" "length br < TREE_NODE_SIZE"
    using big small t(6,7) br0 by (auto simp: bt_ok_node TREE_NODE_MID_def)
  have lc: "length cs1 = length bs1" using t by simp
  let ?t = "BNode a (bs1 @ u # bs2) (cs1 @ BNode al (bl @ [p]) (cl @ take 1 cr) # BNode ar br (drop 1 cr) # cs2)"
  from rotate_left_ok [OF lc kl(1) kr(1)] b d obtain ss' where
    r: "rotate_left ss (BNode a bs cs) k = Some (ss', ?t)" "reordered ss ss' (BNode a bs cs) ?t"
    unfolding t(1,2) t(3) [symmetric] br0 by blast
  have sp: "kids_ok h 0 (take 1 cr)" "kids_ok h (length br) (drop 1 cr)" using kids_split [OF kr(1), of 0] by simp_all
  have kk: "bt_ok TREE_NODE_MID h (BNode al (bl @ [p]) (cl @ take 1 cr))" "bt_ok TREE_NODE_MID h (BNode ar br (drop 1 cr))"
    using sp kl kr kids_join [OF kl(1) sp(1)] by (simp_all add: bt_ok_node TREE_NODE_MID_def TREE_NODE_SIZE_def)
  have len: "length (bs1 @ u # bs2) < TREE_NODE_SIZE" "length (bs1 @ u # bs2) = length bs" using t(1) n by simp_all
  have "bt_ok (length bs - 1) (Suc h) ?t"
    using bt_ok_two [OF lc t(5) len(1) t(8) kk] len(2) by metis
  then show ?thesis using r by blast
qed

lemma fix_merge:
  assumes l: "length cs = Suc (length bs)" and k: "k < length bs" and n: "length bs < TREE_NODE_SIZE"
    and c: "bt_ok x h (cs ! k)" "bt_ok y h (cs ! Suc k)" "num_blocks (cs ! k) + num_blocks (cs ! Suc k) = 2 * TREE_NODE_MID - 1"
    and ko: "\<And>i. i \<le> length bs \<Longrightarrow> i \<noteq> k \<Longrightarrow> i \<noteq> Suc k \<Longrightarrow> bt_ok TREE_NODE_MID h (cs ! i)"
    and b: "backed (sb_map ss) (BNode a bs cs)" and d: "dis (inorder (BNode a bs cs))"
  shows "\<exists>ss' t'. merge_children ss (BNode a bs cs) k = Some (ss', t') \<and> reordered ss ss' (BNode a bs cs) t'
    \<and> bt_ok (length bs - 1) (Suc h) t'"
proof -
  obtain bs1 p bs2 cs1 al bl cl ar br cr cs2 where
    t: "bs = bs1 @ p # bs2" "cs = cs1 @ BNode al bl cl # BNode ar br cr # cs2" "length bs1 = k" "length cs1 = k" "length cs2 = length bs2"
      "cs ! k = BNode al bl cl" "cs ! Suc k = BNode ar br cr" "\<forall>x \<in> set (cs1 @ cs2). bt_ok TREE_NODE_MID h x"
    by (rule node_two [OF k l, of "bt_ok TREE_NODE_MID h"]) (use ko in blast)+
  have kl: "kids_ok h (length bl) cl" and kr: "kids_ok h (length br) cr" using c(1,2) t(6,7) by (simp_all add: bt_ok_node)
  have lc: "length cs1 = length bs1" using t by simp
  let ?t = "BNode a (bs1 @ bs2) (cs1 @ BNode al (bl @ p # br) (cl @ cr) # cs2)"
  from merge_children_ok [OF lc kl kr] b d obtain ss' where
    r: "merge_children ss (BNode a bs cs) k = Some (ss', ?t)" "reordered ss ss' (BNode a bs cs) ?t"
    unfolding t(1,2) t(3) [symmetric] by blast
  have "bt_ok TREE_NODE_MID h (BNode al (bl @ p # br) (cl @ cr))"
    using kids_join [OF kl kr] c(3) t(6,7) by (simp add: bt_ok_node TREE_NODE_MID_def TREE_NODE_SIZE_def)
  then have "bt_ok (length bs - 1) (Suc h) ?t" using lc t(1,5,8) n by auto
  then show ?thesis using r by blast
qed

lemma fix_child_ok:
  assumes l: "length cs = Suc (length bs)" and ix: "index < length bs" and n: "length bs < TREE_NODE_SIZE"
    and j: "j = index \<or> j = Suc index" and kj: "bt_ok (TREE_NODE_MID - 1) h (cs ! j)"
    and ko: "\<And>i. i \<le> length bs \<Longrightarrow> i \<noteq> j \<Longrightarrow> bt_ok TREE_NODE_MID h (cs ! i)"
    and b: "backed (sb_map ss) (BNode a bs cs)" and d: "dis (inorder (BNode a bs cs))"
  shows "\<exists>ss' t'. fix_child ss (BNode a bs cs) index = Some (ss', t') \<and> reordered ss ss' (BNode a bs cs) t'
    \<and> bt_ok (length bs - 1) (Suc h) t'"
proof -
  have cnt: "TREE_NODE_MID \<le> num_blocks (cs ! i)" if "i \<le> length bs" "i \<noteq> j" for i
    using ko [OF that] by (cases h) simp_all
  have jl: "j \<le> length bs" using j ix by auto
  show ?thesis
  proof (cases "TREE_NODE_MID \<le> num_blocks (cs ! j)")
    case True
    then have ok: "bt_ok TREE_NODE_MID h (cs ! i)" if "i \<le> length bs" for i
      using ko [OF that] bt_ok_mono [OF kj] by (cases "i = j") auto
    have "TREE_NODE_MID \<le> num_blocks (cs ! i)" if "i \<le> length bs" for i using cnt [OF that] True by (cases "i = j") auto
    from this [of index] this [of "Suc index"] have "fix_child ss (BNode a bs cs) index = Some (ss, BNode a bs cs)"
      using l ix by (simp add: fix_child_def)
    moreover have "bt_ok TREE_NODE_MID h c" if "c \<in> set cs" for c
      using that ok l by (auto simp: in_set_conv_nth less_Suc_eq_le)
    then have "bt_ok (length bs - 1) (Suc h) (BNode a bs cs)" using l n by simp
    ultimately show ?thesis using reordered_refl [OF b] by blast
  next
    case False
    have "TREE_NODE_MID - 1 \<le> num_blocks (cs ! j)" using kj by (cases h) simp_all
    then have small: "num_blocks (cs ! j) < TREE_NODE_MID" "num_blocks (cs ! j) = TREE_NODE_MID - 1" using False by linarith+
    have fc: "fix_child ss (BNode a bs cs) index =
      (if j \<noteq> 0 \<and> num_blocks (cs ! (j - 1)) > TREE_NODE_MID then rotate_right ss (BNode a bs cs) j
       else if j + 1 \<le> length bs \<and> num_blocks (cs ! (j + 1)) > TREE_NODE_MID then rotate_left ss (BNode a bs cs) j
       else merge_children ss (BNode a bs cs) index)"
    proof (cases "j = index")
      case True
      then show ?thesis using small(1) l ix by (simp add: fix_child_def)
    next
      case False
      then have jj: "j = Suc index" "\<not> num_blocks (cs ! index) < TREE_NODE_MID" using j cnt [of index] ix by simp_all
      then show ?thesis using small(1) l ix by (simp add: fix_child_def)
    qed
    consider "j \<noteq> 0" "num_blocks (cs ! (j - 1)) > TREE_NODE_MID"
      | "\<not> (j \<noteq> 0 \<and> num_blocks (cs ! (j - 1)) > TREE_NODE_MID)" "j + 1 \<le> length bs" "num_blocks (cs ! (j + 1)) > TREE_NODE_MID"
      | "\<not> (j \<noteq> 0 \<and> num_blocks (cs ! (j - 1)) > TREE_NODE_MID)" "\<not> (j + 1 \<le> length bs \<and> num_blocks (cs ! (j + 1)) > TREE_NODE_MID)" by blast
    then show ?thesis
    proof cases
      case 1
      then obtain k where k: "j = Suc k" by (cases j) auto
      have "bt_ok (Suc TREE_NODE_MID) h (cs ! k)" by (rule bt_ok_mono [OF ko [of k]]) (use jl k 1 in simp_all)
      moreover have "k < length bs" using k jl by simp
      ultimately show ?thesis using fix_rotate_right [OF l _ n _ _ _ _ b d, of k h] kj small(1) ko 1 fc k by auto
    next
      case 2
      have "bt_ok (Suc TREE_NODE_MID) h (cs ! Suc j)" by (rule bt_ok_mono [OF ko [of "Suc j"]]) (use 2 in simp_all)
      moreover have "j < length bs" using 2 by simp
      moreover have "fix_child ss (BNode a bs cs) index = rotate_left ss (BNode a bs cs) j" unfolding fc using 2 by presburger
      ultimately show ?thesis using fix_rotate_left [OF l _ n _ kj small(1) ko b d] by metis
    next
      case 3
      have "fix_child ss (BNode a bs cs) index = merge_children ss (BNode a bs cs) index" unfolding fc using 3 by presburger
      moreover have "num_blocks (cs ! index) + num_blocks (cs ! Suc index) = 2 * TREE_NODE_MID - 1"
      proof (cases "j = index")
        case True
        then have "num_blocks (cs ! Suc index) = TREE_NODE_MID" using 3(2) cnt [of "Suc index"] ix by auto
        then show ?thesis using True small(2) by (simp add: TREE_NODE_MID_def)
      next
        case False
        then have "j = Suc index" using j by simp
        then have "num_blocks (cs ! index) = TREE_NODE_MID" using 3(1) cnt [of index] ix by auto
        then show ?thesis using \<open>j = Suc index\<close> small(2) by (simp add: TREE_NODE_MID_def)
      qed
      moreover have "bt_ok (TREE_NODE_MID - 1) h (cs ! i)" if "i \<le> length bs" for i
        using ko [OF that] kj bt_ok_mono [of TREE_NODE_MID h "cs ! i"] cnt [OF that] by (cases "i = j") (auto intro: diff_le_self order.trans)
      ultimately show ?thesis using fix_merge [OF l ix n _ _ _ _ b d, of "TREE_NODE_MID - 1" h "TREE_NODE_MID - 1"] ko j ix by auto
    qed
  qed
qed

end
