(* ===== verification/Iso_Delete.thy ===== *)
theory Iso_Delete
  imports Iso_Balance
begin

text \<open>
  Deletion from the B-tree of free blocks: exactly the block with the given start disappears,
  the tree stays balanced, every list node points to the place of its block, and the list node
  of the deleted block is gone.
\<close>

definition shrinks :: "slotset \<Rightarrow> slotset \<Rightarrow> slotblock \<Rightarrow> bool" where
  "shrinks ss ss' b \<longleftrightarrow> (\<forall>B. lists_ok ss B \<longrightarrow> B (listblock b) = Some (bin_of (nslots b)) \<longrightarrow> lists_ok ss' (B(listblock b := None)))
    \<and> dom (sb_map ss') = dom (sb_map ss) - {listblock b} \<and> brk ss \<le> brk ss'"

lemma shrinks_keeps: "shrinks ss s1 b \<Longrightarrow> keeps s1 s2 \<Longrightarrow> shrinks ss s2 b"
  by (simp add: shrinks_def keeps_def)

lemma list_delete_shrinks:
  assumes "lists_ok ss B" "B (listblock b) = Some (bin_of (nslots b))" "size_ok (nslots b)"
  obtains ss' where "list_delete ss b = Some ss'" "shrinks ss ss' b" "moved {listblock b} ss ss'"
proof -
  from list_delete_ok [OF assms] obtain ss' where
    s: "list_delete ss b = Some ss'" "sb_map ss' = (sb_map ss)(listblock b := None)" "brk ss' = brk ss" by blast
  have "lists_ok ss' (B'(listblock b := None))" if "lists_ok ss B'" "B' (listblock b) = Some (bin_of (nslots b))" for B'
    using list_delete_ok [OF that assms(3)] s(1) by auto
  then have "shrinks ss ss' b" using s by (auto simp: shrinks_def)
  moreover have "moved {listblock b} ss ss'" unfolding moved_def s(2) by simp
  ultimately show ?thesis by (rule that [OF s(1)])
qed

lemma drop_block_ok:
  assumes own: "own (sb_map ss) a xs" and d: "dis (xs @ ys)" and dm: "lbs ys \<subseteq> dom (sb_map ss)"
  shows "\<exists>ss'. drop_block ss (BNode a (xs @ b # ys) cs) (length xs) = Some (ss', BNode a (xs @ ys) cs) \<and> keeps ss ss'
    \<and> moved (lbs ys) ss ss' \<and> own (sb_map ss') a (xs @ ys)"
  using relink_own [OF own d dm] by (auto simp: drop_block_def dest: same_keeps)

section \<open>A change below a child\<close>

lemma disjoint_outside: "X \<inter> N \<subseteq> C \<Longrightarrow> A \<subseteq> N \<Longrightarrow> A \<inter> C = {} \<Longrightarrow> A \<inter> X = {}"
  by blast

lemma kids_backed:
  assumes i: "i < length cs" and kids: "\<forall>c \<in> set cs. backed (sb_map ss) c" and mv: "moved X ss s1"
    and out: "\<And>c. c \<in> set (take i cs @ drop (Suc i) cs) \<Longrightarrow> ids c \<inter> X = {}" and c': "backed (sb_map s1) c'"
  shows "\<forall>c \<in> set (cs[i := c']). backed (sb_map s1) c"
proof -
  have "backed (sb_map s1) c" if c: "c \<in> set (take i cs @ drop (Suc i) cs)" for c
    using backed_moved [OF _ mv out [OF c]] kids c by (auto dest: in_set_takeD in_set_dropD)
  moreover have "cs[i := c'] = take i cs @ c' # drop (Suc i) cs" using i by (simp add: upd_conv_take_nth_drop)
  ultimately show ?thesis using c' by auto
qed

lemma child_backed:
  assumes l: "length cs = Suc (length bs)" "i \<le> length bs" and d: "dis (inorder (BNode a bs cs))"
    and own: "own (sb_map ss) a bs" and kids: "\<forall>c \<in> set cs. backed (sb_map ss) c"
    and mv: "moved X ss s1" "X \<inter> ids (BNode a bs cs) \<subseteq> ids (cs ! i)" and c': "backed (sb_map s1) c'"
  shows "backed (sb_map s1) (BNode a bs (cs[i := c']))"
proof -
  note out = outside_child [OF l d]
  have "lbs bs \<subseteq> ids (BNode a bs cs)" by (auto simp: set_weave)
  from disjoint_outside [OF mv(2) this out(1)] have "own (sb_map s1) a bs" by (rule own_moved [OF own mv(1)])
  moreover have o: "ids c \<inter> X = {}" if c: "c \<in> set (take i cs @ drop (Suc i) cs)" for c
  proof -
    have "ids c \<subseteq> ids (BNode a bs cs)" using c by (auto simp: set_weave dest: in_set_takeD in_set_dropD)
    from disjoint_outside [OF mv(2) this out(2) [OF c]] show ?thesis .
  qed
  have "i < length cs" using l by simp
  from kids_backed [OF this kids mv(1) _ c'] o have "\<forall>c \<in> set (cs[i := c']). backed (sb_map s1) c" by blast
  ultimately show ?thesis by simp
qed

lemma addrs_update:
  assumes "i < length cs" "mset (addrs c') \<subseteq># mset (addrs (cs ! i))"
  shows "mset (addrs (BNode a bs' (cs[i := c']))) \<subseteq># mset (addrs (BNode a bs cs))"
  using concat_map_at [of i cs addrs] concat_map_at [of i "cs[i := c']" addrs] assms by (simp add: subset_mset.add_left_mono subset_mset.add_right_mono)

section \<open>Taking the first block\<close>

lemma delete_first_ok:
  assumes "bt_ok m h t" "1 \<le> m" "backed (sb_map ss) t" "dis (inorder t)" "listblock sb \<notin> ids t"
    and l: "lists_ok ss B" "B (listblock sb) = Some (bin_of (nslots sb))" "size_ok (nslots sb)"
  shows "\<exists>ss' t' b. btree_delete_int ss t s (Some (sb, loc)) = Some (ss', t', Some b) \<and> inorder t = b # inorder t' \<and> bt_ok (m - 1) h t'
    \<and> backed (sb_map ss') t' \<and> sb_map ss' (listblock b) = Some loc \<and> shrinks ss ss' sb
    \<and> moved (insert (listblock sb) (ids t)) ss ss' \<and> mset (addrs t') \<subseteq># mset (addrs t)"
  using assms(1-5)
proof (induction h arbitrary: m t)
  case 0
  obtain a b bs where t: "t = BNode a (b # bs) []"
    using 0(1,2) by (cases t; cases "blocks t") auto
  have own: "own (sb_map ss) a (b # bs)" and d: "dis (b # bs)" and nin: "listblock sb \<notin> lbs (b # bs)" using 0 t by simp_all
  obtain s1 where s1: "list_delete ss sb = Some s1" "shrinks ss s1 sb" "moved {listblock sb} ss s1" by (rule list_delete_shrinks [OF l])
  have dm: "lbs (b # bs) \<subseteq> dom (sb_map s1)" using own_dom [OF own] s1(2) nin unfolding shrinks_def by (simp only: subset_Diff_insert) blast
  then have "listblock b \<in> dom (sb_map s1)" by simp
  then obtain s2 where s2: "set_sb (listblock b) loc s1 = Some s2" "same_lists s1 s2" "moved {listblock b} s1 s2" "sb_map s2 (listblock b) = Some loc"
    by (rule set_sb_moved)
  have "lbs bs \<subseteq> dom (sb_map s2)" using dm s2(2) by (simp add: same_lists_def)
  with drop_block_ok [of s2 a "[]" bs b "[]"] d obtain s3 where
    s3: "drop_block s2 (BNode a (b # bs) []) 0 = Some (s3, BNode a bs [])" "keeps s2 s3" "moved (lbs bs) s2 s3" "own (sb_map s3) a bs"
    by (auto simp: own_def)
  have "btree_delete_int ss t s (Some (sb, loc)) = Some (s3, BNode a bs [], Some b)"
    using s1(1) s2(1) s3(1) by (simp add: t arr_get_def)
  moreover have "sb_map s3 (listblock b) = Some loc" using s2(4) s3(3) d by (simp add: moved_def)
  moreover have "shrinks ss s3 sb" by (rule shrinks_keeps [OF s1(2) keeps_trans [OF same_keeps [OF s2(2)] s3(2)]])
  moreover have "moved (insert (listblock sb) (ids t)) ss s3"
    by (rule moved_mono [OF moved_trans [OF moved_trans [OF s1(3) s2(3)] s3(3)]]) (auto simp: t)
  ultimately show ?case using 0(1) s3(4) t by auto
next
  case (Suc h)
  obtain a bs cs where t: "t = BNode a bs cs" by (cases t)
  have lc: "length cs = Suc (length bs)" and kc: "\<forall>c \<in> set cs. bt_ok TREE_NODE_MID h c"
    and bs: "0 < length bs" "m \<le> length bs" "length bs < TREE_NODE_SIZE" using Suc.prems(1,2) t by auto
  have d: "dis (inorder (BNode a bs cs))" and bk: "own (sb_map ss) a bs" "\<forall>c \<in> set cs. backed (sb_map ss) c" using Suc.prems t by simp_all
  have nin: "listblock sb \<notin> ids (BNode a bs cs)" using Suc.prems(5) t by simp
  have z: "0 \<le> length bs" by simp
  note out = outside_child [OF lc z d] and io = inorder_at [OF lc z, of a]
  have ci: "cs ! 0 \<in> set cs" using lc by simp
  have "listblock sb \<notin> ids (cs ! 0)" using nin unfolding io by (simp add: image_Un)
  with Suc.IH [of TREE_NODE_MID "cs ! 0"] kc bk(2) ci out(3) obtain s1 c' b where
    c': "btree_delete_int ss (cs ! 0) s (Some (sb, loc)) = Some (s1, c', Some b)" "inorder (cs ! 0) = b # inorder c'" "bt_ok (TREE_NODE_MID - 1) h c'"
      "backed (sb_map s1) c'" "sb_map s1 (listblock b) = Some loc" "shrinks ss s1 sb" "moved (insert (listblock sb) (ids (cs ! 0))) ss s1"
      "mset (addrs c') \<subseteq># mset (addrs (cs ! 0))" by (auto simp: TREE_NODE_MID_def)
  let ?n = "BNode a bs (cs[0 := c'])"
  have x: "insert (listblock sb) (ids (cs ! 0)) \<inter> ids (BNode a bs cs) \<subseteq> ids (cs ! 0)" using nin by (simp add: Int_insert_left del: inorder.simps)
  have bn: "backed (sb_map s1) ?n" by (rule child_backed [OF lc z d bk c'(7) x c'(4)])
  have it: "inorder t = b # inorder ?n"
    using inorder_update [OF lc z, of a c'] io c'(2) unfolding t by (simp add: left_of_def del: inorder.simps)
  have dn: "dis (inorder ?n)" "listblock b \<notin> ids ?n" using Suc.prems(4) unfolding it by simp_all
  have "bt_ok TREE_NODE_MID h (cs[0 := c'] ! i)" if "i \<le> length bs" "i \<noteq> 0" for i using that kc lc by simp
  from fix_child_ok [of "cs[0 := c']" bs 0 0 h s1 a] this lc bs c'(3) bn dn(1) obtain s2 t' where
    f: "fix_child s1 ?n 0 = Some (s2, t')" "reordered s1 s2 ?n t'" "bt_ok (length bs - 1) (Suc h) t'" by (auto simp del: inorder.simps)
  have "btree_delete_int ss t s (Some (sb, loc)) = Some (s2, t', Some b)" using c'(1) f(1) lc by (simp add: t)
  moreover have "inorder t = b # inorder t'" using it f(2) by (simp add: reordered_def)
  moreover have "bt_ok (m - 1) (Suc h) t'" using f(3) bs(2) by (auto simp del: bt_ok.simps(1))
  moreover have "sb_map s2 (listblock b) = Some loc" using f(2) dn(2) c'(5) unfolding reordered_def moved_def by metis
  moreover have "shrinks ss s2 sb" using shrinks_keeps [OF c'(6)] f(2) by (simp add: reordered_def)
  moreover have "moved (insert (listblock sb) (ids t)) ss s2"
  proof (rule moved_mono [OF moved_trans [OF c'(7)]])
    show "moved (ids ?n) s1 s2" using f(2) by (simp add: reordered_def)
    have "ids ?n \<subseteq> ids t" unfolding it by auto
    moreover have "ids (cs ! 0) \<subseteq> ids t" unfolding t io by (auto simp: image_Un)
    ultimately show "insert (listblock sb) (ids (cs ! 0)) \<union> ids ?n \<subseteq> insert (listblock sb) (ids t)" by blast
  qed
  moreover have "mset (addrs t') \<subseteq># mset (addrs t)"
    using f(2) addrs_update [of 0 cs c' a bs bs] c'(8) lc unfolding reordered_def t by (auto intro: subset_mset.order_trans)
  ultimately show ?case using f(2) unfolding reordered_def by blast
qed

section \<open>Deleting a block\<close>

definition del_ok :: "slotset \<Rightarrow> nat \<Rightarrow> nat \<Rightarrow> btreenode \<Rightarrow> slotblock \<Rightarrow> slotset \<Rightarrow> btreenode \<Rightarrow> bool" where
  "del_ok ss m h t b ss' t' \<longleftrightarrow> inorder t' = filter (\<lambda>x. startslot x \<noteq> startslot b) (inorder t) \<and> bt_ok (m - 1) h t'
    \<and> backed (sb_map ss') t' \<and> shrinks ss ss' b \<and> moved (ids t) ss ss' \<and> mset (addrs t') \<subseteq># mset (addrs t)"

lemma filter_start: "starts_up (xs @ b # ys) \<Longrightarrow> filter (\<lambda>x. startslot x \<noteq> startslot b) (xs @ b # ys) = xs @ ys"
proof -
  assume "starts_up (xs @ b # ys)"
  then have "filter (\<lambda>x. startslot x \<noteq> startslot b) xs = xs" "filter (\<lambda>x. startslot x \<noteq> startslot b) ys = ys"
    by (auto simp: starts_append filter_id_conv)
  then show ?thesis by simp
qed

lemma filter_outside:
  assumes "\<And>x. x \<in> set ls \<Longrightarrow> startslot x < s" "\<And>x. x \<in> set rs \<Longrightarrow> s < startslot x"
  shows "filter (\<lambda>x. startslot x \<noteq> s) (ls @ xs @ rs) = ls @ filter (\<lambda>x. startslot x \<noteq> s) xs @ rs"
proof -
  have "filter (\<lambda>x. startslot x \<noteq> s) ls = ls" "filter (\<lambda>x. startslot x \<noteq> s) rs = rs"
    using assms by (auto simp: filter_id_conv dest: less_imp_neq)
  then show ?thesis by simp
qed

lemma starts_unique: "starts_up bs \<Longrightarrow> x \<in> set bs \<Longrightarrow> y \<in> set bs \<Longrightarrow> startslot x = startslot y \<Longrightarrow> x = y"
  by (induction bs) auto

lemma gap_notin: "gap bs s i \<Longrightarrow> x \<in> set bs \<Longrightarrow> startslot x \<noteq> s"
  unfolding gap_def by (metis Un_iff append_take_drop_id less_irrefl set_append)

lemma reordered_del:
  assumes "reordered s1 s2 n t'" "bt_ok (length bs - 1) (Suc h) t'" "m \<le> length bs" "shrinks ss s1 b" "moved X ss s1" "X \<subseteq> ids t"
    and io: "inorder n = filter (\<lambda>x. startslot x \<noteq> startslot b) (inorder t)" and "mset (addrs n) \<subseteq># mset (addrs t)"
  shows "del_ok ss m (Suc h) t b s2 t'"
proof -
  have "ids n \<subseteq> ids t" unfolding io by auto
  then have "X \<union> ids n \<subseteq> ids t" using assms(6) by blast
  moreover have "moved (X \<union> ids n) ss s2" using moved_trans [OF assms(5)] assms(1) by (simp add: reordered_def)
  ultimately have "moved (ids t) ss s2" by (rule moved_mono [rotated])
  moreover have "bt_ok (m - 1) (Suc h) t'" using assms(2,3) by auto
  ultimately show ?thesis using assms shrinks_keeps [OF assms(4)] by (auto simp: reordered_def del_ok_def intro: subset_mset.order_trans)
qed

lemma delete_leaf_ok:
  assumes own: "own (sb_map ss) a (xs @ b # ys)" and d: "dis (xs @ b # ys)" and up: "starts_up (xs @ b # ys)"
    and m: "m \<le> length (xs @ b # ys)" "length (xs @ b # ys) < TREE_NODE_SIZE"
    and l: "lists_ok ss B" "B (listblock b) = Some (bin_of (nslots b))" "size_ok (nslots b)"
  shows "\<exists>s1 s2 t'. list_delete ss b = Some s1 \<and> drop_block s1 (BNode a (xs @ b # ys) []) (length xs) = Some (s2, t')
    \<and> del_ok ss m 0 (BNode a (xs @ b # ys) []) b s2 t'"
proof -
  obtain s1 where s1: "list_delete ss b = Some s1" "shrinks ss s1 b" "moved {listblock b} ss s1" by (rule list_delete_shrinks [OF l])
  have nb: "listblock b \<notin> lbs xs" "listblock b \<notin> lbs ys" using d by simp_all
  have ox: "own (sb_map s1) a xs" using own_moved [OF _ s1(3), of a xs] own nb by (simp add: own_append)
  have "lbs ys \<subseteq> dom (sb_map ss)" using own_dom [OF own] by (simp add: image_Un)
  then have dm: "lbs ys \<subseteq> dom (sb_map s1)" using s1(2) nb unfolding shrinks_def by (simp only: subset_Diff_insert) blast
  have "dis (xs @ ys)" using d by simp
  from drop_block_ok [OF ox this dm] obtain s2 where
    s2: "drop_block s1 (BNode a (xs @ b # ys) []) (length xs) = Some (s2, BNode a (xs @ ys) [])" "keeps s1 s2"
      "moved (lbs ys) s1 s2" "own (sb_map s2) a (xs @ ys)" by blast
  have "moved (lbs (xs @ b # ys)) ss s2" by (rule moved_mono [OF moved_trans [OF s1(3) s2(3)]]) auto
  then have "del_ok ss m 0 (BNode a (xs @ b # ys) []) b s2 (BNode a (xs @ ys) [])"
    using m s2(4) shrinks_keeps [OF s1(2) s2(2)] filter_start [OF up] by (auto simp: del_ok_def)
  then show ?thesis using s1(1) s2(1) by blast
qed

lemma left_of_update:
  assumes "i < length bs" "length cs = Suc (length bs)"
  shows "left_of (bs[i := x]) cs (Suc i) = left_of bs cs i @ inorder (cs ! i) @ [x]" "right_of (bs[i := x]) cs (Suc i) = right_of bs cs (Suc i)"
proof -
  have "take (Suc i) (bs[i := x]) = take i bs @ [x]" "take (Suc i) cs = take i cs @ [cs ! i]"
    using assms by (simp_all add: take_Suc_conv_app_nth)
  then show "left_of (bs[i := x]) cs (Suc i) = left_of bs cs i @ inorder (cs ! i) @ [x]"
    using weave_snocs [of "map inorder (take i cs)" "take i bs"] assms by (simp add: left_of_def del: take_Suc)
  show "right_of (bs[i := x]) cs (Suc i) = right_of bs cs (Suc i)" by (simp add: right_of_def)
qed

lemma delete_inner_ok:
  assumes l: "length cs = Suc (length bs)" "i < length bs" "m \<le> length bs" "length bs < TREE_NODE_SIZE" and k: "\<forall>c \<in> set cs. bt_ok TREE_NODE_MID h c"
    and bk: "own (sb_map ss) a bs" "\<forall>c \<in> set cs. backed (sb_map ss) c" and d: "dis (inorder (BNode a bs cs))"
    and up: "starts_up (inorder (BNode a bs cs))"
    and ls: "lists_ok ss B" "B (listblock (bs ! i)) = Some (bin_of (nslots (bs ! i)))" "size_ok (nslots (bs ! i))"
  shows "\<exists>s1 c' b s2 t'. btree_delete_int ss (cs ! Suc i) s (Some (bs ! i, (a, i))) = Some (s1, c', Some b)
    \<and> fix_child s1 (BNode a (bs[i := b]) (cs[Suc i := c'])) i = Some (s2, t') \<and> del_ok ss m (Suc h) (BNode a bs cs) (bs ! i) s2 t'"
proof -
  let ?t = "BNode a bs cs" and ?p = "bs ! i"
  have si: "Suc i \<le> length bs" "Suc i < length cs" using l by simp_all
  note out = outside_child [OF l(1) si(1) d] and io = inorder_at [OF l(1) si(1), of a]
  have bs: "bs = take i bs @ ?p # drop (Suc i) bs" using l by (simp add: id_take_nth_drop)
  have pin: "listblock ?p \<in> lbs bs" using l by simp
  have np: "listblock ?p \<notin> ids c" if "c \<in> set cs" for c using distinct_node(2) [OF d that] pin by blast
  have ci: "cs ! Suc i \<in> set cs" using si by simp
  from delete_first_ok [of TREE_NODE_MID h "cs ! Suc i" ss ?p B s "(a, i)"] k bk(2) ci out(3) ls np [OF ci] obtain s1 c' b where
    c': "btree_delete_int ss (cs ! Suc i) s (Some (?p, (a, i))) = Some (s1, c', Some b)" "inorder (cs ! Suc i) = b # inorder c'"
      "bt_ok (TREE_NODE_MID - 1) h c'" "backed (sb_map s1) c'" "sb_map s1 (listblock b) = Some (a, i)" "shrinks ss s1 ?p"
      "moved (insert (listblock ?p) (ids (cs ! Suc i))) ss s1" "mset (addrs c') \<subseteq># mset (addrs (cs ! Suc i))"
    by (auto simp: TREE_NODE_MID_def)
  let ?n = "BNode a (bs[i := b]) (cs[Suc i := c'])"
  have it: "inorder ?t = (left_of bs cs i @ inorder (cs ! i)) @ ?p # (b # inorder c' @ right_of bs cs (Suc i))"
    using io left_of_update(1) [OF l(2,1), of ?p] c'(2) by simp
  have "inorder ?n = left_of bs cs i @ inorder (cs ! i) @ b # inorder c' @ right_of bs cs (Suc i)"
    using inorder_update [of cs "bs[i := b]" "Suc i" a c'] left_of_update [OF l(2,1), of b] l si by simp
  then have fl: "inorder ?n = filter (\<lambda>x. startslot x \<noteq> startslot ?p) (inorder ?t)" using filter_start [OF up [unfolded it]] it by simp
  have "dis (inorder ?n)" unfolding fl using d by (rule distinct_map_filter)
  moreover have "backed (sb_map s1) ?n"
  proof -
    have o: "lbs bs \<inter> ids (cs ! Suc i) = {}" by (rule out(1))
    have "dis bs" using distinct_node(1) [OF d] .
    then have pp: "listblock ?p \<notin> lbs (take i bs)" "listblock ?p \<notin> lbs (drop (Suc i) bs)" by (subst (asm) bs, simp)+
    have "own (sb_map s1) a (take i bs @ b # drop (Suc i) bs)"
    proof (rule own_update [OF bk(1) [unfolded arg_cong [OF bs, of "own (sb_map ss) a"]] c'(7)])
      show "lbs (take i bs) \<inter> insert (listblock ?p) (ids (cs ! Suc i)) = {}"
        by (rule disjoint_insertI [OF pp(1) disjoint_mono [OF _ order.refl o]]) (auto dest: in_set_takeD)
      show "lbs (drop (Suc i) bs) \<inter> insert (listblock ?p) (ids (cs ! Suc i)) = {}"
        by (rule disjoint_insertI [OF pp(2) disjoint_mono [OF _ order.refl o]]) (auto dest: in_set_dropD)
    qed (use c'(5) l(2) in simp)
    then have "own (sb_map s1) a (bs[i := b])" using l(2) by (simp add: upd_conv_take_nth_drop)
    moreover have "\<forall>c \<in> set (cs[Suc i := c']). backed (sb_map s1) c"
      by (rule kids_backed [OF si(2) bk(2) c'(7) disjoint_insertI [OF np out(2)] c'(4)]) (auto dest: in_set_takeD in_set_dropD)
    ultimately show ?thesis by simp
  qed
  moreover have "bt_ok TREE_NODE_MID h (cs[Suc i := c'] ! j)" if "j \<le> length (bs[i := b])" "j \<noteq> Suc i" for j using that k l by simp
  moreover have "length (cs[Suc i := c']) = Suc (length (bs[i := b]))" "i < length (bs[i := b])" "length (bs[i := b]) < TREE_NODE_SIZE"
    "bt_ok (TREE_NODE_MID - 1) h (cs[Suc i := c'] ! Suc i)" using l si c'(3) by simp_all
  ultimately obtain s2 t' where f: "fix_child s1 ?n i = Some (s2, t')" "reordered s1 s2 ?n t'" "bt_ok (length (bs[i := b]) - 1) (Suc h) t'"
    using fix_child_ok [of "cs[Suc i := c']" "bs[i := b]" i "Suc i" h s1 a] by blast
  have "insert (listblock ?p) (ids (cs ! Suc i)) \<subseteq> ids ?t" unfolding it unfolding c'(2) by auto
  from reordered_del [OF f(2,3) _ c'(6,7) this fl addrs_update [OF si(2) c'(8)], of m] l(3) have "del_ok ss m (Suc h) ?t ?p s2 t'" by simp
  then show ?thesis using c'(1) f(1) by blast
qed

lemma delete_below_ok:
  assumes l: "length cs = Suc (length bs)" "index < length bs" "i = index \<or> i = Suc index" and g: "gap bs (startslot b) i"
    and m: "m \<le> length bs" "length bs < TREE_NODE_SIZE" and k: "\<forall>c \<in> set cs. bt_ok TREE_NODE_MID h c"
    and bk: "own (sb_map ss) a bs" "\<forall>c \<in> set cs. backed (sb_map ss) c" and d: "dis (inorder (BNode a bs cs))"
    and up: "starts_up (inorder (BNode a bs cs))" and c': "del_ok ss TREE_NODE_MID h (cs ! i) b s1 c'"
  shows "\<exists>s2 t'. fix_child s1 (BNode a bs (cs[i := c'])) index = Some (s2, t') \<and> del_ok ss m (Suc h) (BNode a bs cs) b s2 t'"
proof -
  let ?t = "BNode a bs cs" and ?n = "BNode a bs (cs[i := c'])"
  have i: "i \<le> length bs" "i < length cs" using l by auto
  have c: "inorder c' = filter (\<lambda>x. startslot x \<noteq> startslot b) (inorder (cs ! i))" "bt_ok (TREE_NODE_MID - 1) h c'" "backed (sb_map s1) c'"
    "shrinks ss s1 b" "moved (ids (cs ! i)) ss s1" "mset (addrs c') \<subseteq># mset (addrs (cs ! i))" using c' by (simp_all add: del_ok_def)
  have fl: "inorder ?n = filter (\<lambda>x. startslot x \<noteq> startslot b) (inorder ?t)"
    unfolding inorder_update [OF l(1) i(1)] inorder_at [OF l(1) i(1)] c(1)
    using filter_outside [of "left_of bs cs i" "startslot b" "right_of bs cs i"] left_less [OF up l(1) g] right_greater [OF up l(1) g] by simp
  have "dis (inorder ?n)" unfolding fl using d by (rule distinct_map_filter)
  moreover have "backed (sb_map s1) ?n" by (rule child_backed [OF l(1) i(1) d bk c(5) Int_lower1 c(3)])
  moreover have "bt_ok TREE_NODE_MID h (cs[i := c'] ! j)" if "j \<le> length bs" "j \<noteq> i" for j using that k l by simp
  moreover have "length (cs[i := c']) = Suc (length bs)" "bt_ok (TREE_NODE_MID - 1) h (cs[i := c'] ! i)" using l i c(2) by simp_all
  ultimately obtain s2 t' where f: "fix_child s1 ?n index = Some (s2, t')" "reordered s1 s2 ?n t'" "bt_ok (length bs - 1) (Suc h) t'"
    using fix_child_ok [of "cs[i := c']" bs index i h s1 a] l(2,3) m(2) by blast
  have "ids (cs ! i) \<subseteq> ids ?t" unfolding inorder_at [OF l(1) i(1)] by (auto simp: image_Un)
  from reordered_del [OF f(2,3) m(1) c(4,5) this fl addrs_update [OF i(2) c(6)]] show ?thesis using f(1) by blast
qed

lemma delete_int_ok:
  assumes "bt_ok m h t" "1 \<le> m" "backed (sb_map ss) t" "dis (inorder t)" "starts_up (inorder t)" "b \<in> set (inorder t)"
    and ls: "lists_ok ss B" "B (listblock b) = Some (bin_of (nslots b))" "size_ok (nslots b)"
  shows "\<exists>ss' t'. btree_delete_int ss t (startslot b) None = Some (ss', t', None) \<and> del_ok ss m h t b ss' t'"
  using assms(1-6)
proof (induction h arbitrary: m t)
  case 0
  obtain a bs where t: "t = BNode a bs []" using 0(1) by (cases t) simp
  have bs: "own (sb_map ss) a bs" "dis bs" "starts_up bs" "m \<le> length bs" "length bs < TREE_NODE_SIZE" "b \<in> set bs" using 0 t by simp_all
  have "0 < length bs" using bs(6) by auto
  from delete_search [OF bs(3) this, of "startslot b"] obtain r where
    r: "bsearch (delete_probe bs (startslot b)) (mid_index (length bs)) (mid_inc (length bs)) = Some r"
      "case r of Hit i \<Rightarrow> i < length bs \<and> startslot (bs ! i) = startslot b
        | Into index i \<Rightarrow> index < length bs \<and> (i = index \<or> i = index + 1) \<and> gap bs (startslot b) i" by blast
  show ?case
  proof (cases r)
    case (Hit i)
    then have i: "i < length bs" "bs ! i = b" using r(2) starts_unique [OF bs(3) _ bs(6)] by simp_all
    then have e: "bs = take i bs @ b # drop (Suc i) bs" "length (take i bs) = i" using id_take_nth_drop [of i bs] by auto
    from delete_leaf_ok [of ss a "take i bs" b "drop (Suc i) bs" m B] bs ls
    have "\<exists>s1 s2 t'. list_delete ss b = Some s1 \<and> drop_block s1 (BNode a bs []) i = Some (s2, t') \<and> del_ok ss m 0 (BNode a bs []) b s2 t'"
      unfolding e(1) [symmetric] e(2) by blast
    then show ?thesis using r(1) Hit i by (auto simp: t)
  next
    case (Into index i)
    then have "gap bs (startslot b) i" using r(2) by simp
    from gap_notin [OF this bs(6)] show ?thesis by simp
  qed
next
  case (Suc h)
  obtain a bs cs where t: "t = BNode a bs cs" by (cases t)
  have lc: "length cs = Suc (length bs)" and kc: "\<forall>c \<in> set cs. bt_ok TREE_NODE_MID h c"
    and bs: "0 < length bs" "m \<le> length bs" "length bs < TREE_NODE_SIZE" using Suc.prems(1,2) t by auto
  have d: "dis (inorder (BNode a bs cs))" and up: "starts_up (inorder (BNode a bs cs))" and bi: "b \<in> set (inorder (BNode a bs cs))"
    and bk: "own (sb_map ss) a bs" "\<forall>c \<in> set cs. backed (sb_map ss) c" using Suc.prems t by simp_all
  from delete_search [OF starts_node [OF up] bs(1), of "startslot b"] obtain r where
    r: "bsearch (delete_probe bs (startslot b)) (mid_index (length bs)) (mid_inc (length bs)) = Some r"
      "case r of Hit i \<Rightarrow> i < length bs \<and> startslot (bs ! i) = startslot b
        | Into index i \<Rightarrow> index < length bs \<and> (i = index \<or> i = index + 1) \<and> gap bs (startslot b) i" by blast
  show ?case
  proof (cases r)
    case (Hit i)
    have "bs ! i \<in> set (inorder (BNode a bs cs))" if "i < length bs" using that by (simp add: set_weave)
    then have i: "i < length bs" "bs ! i = b" using r(2) Hit starts_unique [OF up _ bi] by (simp_all del: inorder.simps)
    from delete_inner_ok [OF lc i(1) bs(2,3) kc bk d up ls(1) ls(2,3) [folded i(2)], of "startslot b"]
    show ?thesis using r(1) Hit i lc by (auto simp: t simp del: inorder.simps)
  next
    case (Into index i)
    then have i: "index < length bs" "i = index \<or> i = Suc index" "gap bs (startslot b) i" "i \<le> length bs" "i < length cs" using r(2) lc by auto
    have io: "inorder (BNode a bs cs) = left_of bs cs i @ inorder (cs ! i) @ right_of bs cs i" by (rule inorder_at [OF lc i(4)])
    have "b \<notin> set (left_of bs cs i)" "b \<notin> set (right_of bs cs i)" using left_less [OF up lc i(3)] right_greater [OF up lc i(3)] by blast+
    then have bc: "b \<in> set (inorder (cs ! i))" using bi unfolding io by simp
    have uc: "starts_up (inorder (cs ! i))" using up unfolding io by (simp add: starts_append)
    have ci: "cs ! i \<in> set cs" using i by simp
    from Suc.IH [of TREE_NODE_MID "cs ! i"] kc bk(2) ci outside_child(3) [OF lc i(4) d] uc bc obtain s1 c' where
      c': "btree_delete_int ss (cs ! i) (startslot b) None = Some (s1, c', None)" "del_ok ss TREE_NODE_MID h (cs ! i) b s1 c'"
      by (auto simp: TREE_NODE_MID_def)
    let ?n = "BNode a bs (cs[i := c'])"
    from delete_below_ok [OF lc i(1,2,3) bs(2,3) kc bk d up c'(2)] obtain s2 t' where
      "fix_child s1 ?n index = Some (s2, t')" "del_ok ss m (Suc h) (BNode a bs cs) b s2 t'" by blast
    then show ?thesis using r(1) Into c'(1) i by (auto simp: t simp del: inorder.simps)
  qed
qed

definition root_ok :: "btreenode \<Rightarrow> bool" where
  "root_ok t \<longleftrightarrow> (\<exists>h. bt_ok (if h = 0 then 0 else 1) h t)"

lemma root_okI: "bt_ok 1 h t \<Longrightarrow> root_ok t"
  unfolding root_ok_def by (rule exI [of _ h], cases h) auto

lemma root_block: "root_ok t \<Longrightarrow> b \<in> set (inorder t) \<Longrightarrow> \<exists>h. bt_ok 1 h t"
proof -
  assume "root_ok t" "b \<in> set (inorder t)"
  then obtain h where "bt_ok (if h = 0 then 0 else 1) h t" by (auto simp: root_ok_def)
  with \<open>b \<in> set (inorder t)\<close> have "bt_ok 1 h t" by (cases t; cases h) (auto simp: Suc_le_eq)
  then show ?thesis ..
qed

lemma btree_delete_ok:
  assumes r: "root_ok t" and b: "backed (sb_map ss) t" "dis (inorder t)" "starts_up (inorder t)" and i: "b \<in> set (inorder t)"
    and ls: "lists_ok ss B" "B (listblock b) = Some (bin_of (nslots b))" "size_ok (nslots b)"
  shows "\<exists>ss' t'. btree_delete ss t (startslot b) = Some (ss', t') \<and> root_ok t' \<and> inorder t' = filter (\<lambda>x. startslot x \<noteq> startslot b) (inorder t)
    \<and> backed (sb_map ss') t' \<and> shrinks ss ss' b \<and> mset (addrs t') \<subseteq># mset (addrs t)"
proof -
  from root_block [OF r i] obtain h where h: "bt_ok 1 h t" by blast
  from delete_int_ok [OF h order.refl b i ls] obtain ss' t' where
    d: "btree_delete_int ss t (startslot b) None = Some (ss', t', None)" "del_ok ss 1 h t b ss' t'" by blast
  obtain a bs cs where t': "t' = BNode a bs cs" by (cases t')
  show ?thesis
  proof (cases "bs = [] \<and> cs \<noteq> []")
    case True
    then obtain c h' where c: "cs = [c]" "h = Suc h'" "bt_ok TREE_NODE_MID h' c"
      using d(2) t' by (cases h; cases cs) (auto simp: del_ok_def)
    have "root_ok c" by (rule root_okI [OF bt_ok_mono [OF c(3)]]) (use c(3) in \<open>cases h'; simp add: TREE_NODE_MID_def\<close>)
    moreover have "mset (addrs c) \<subseteq># mset (addrs t')" by (simp add: t' c(1))
    from subset_mset.order_trans [OF this] d(2) have "mset (addrs c) \<subseteq># mset (addrs t)" unfolding del_ok_def by blast
    ultimately show ?thesis using d True c(1) by (auto simp: btree_delete_def del_ok_def t')
  next
    case False
    then have "root_ok t'" using d(2) unfolding root_ok_def by (intro exI [of _ h]) (cases h; auto simp: del_ok_def t' Suc_le_eq)
    then show ?thesis using d False by (auto simp: btree_delete_def del_ok_def t')
  qed
qed

end
