(* ===== verification/Iso_Inv.thy ===== *)
theory Iso_Inv
  imports Iso_Delete
begin

text \<open>
  The representation invariant of a slot set -- a balanced tree in order, one list node per block,
  each in the list of its size -- and its preservation by the three ways in which
  \<open>grab_slots\<close> and \<open>free_slots\<close> change a set: inserting, deleting and resizing a block.
\<close>

abbreviation free_list :: "slotset \<Rightarrow> slotblock list" where
  "free_list ss \<equiv> inorder (btree_root ss)"

definition binned :: "slotset \<Rightarrow> slotblock list \<Rightarrow> bool" where
  "binned ss bs \<longleftrightarrow> (\<exists>B. lists_ok ss B \<and> dom B = lbs bs \<and> (\<forall>b \<in> set bs. B (listblock b) = Some (bin_of (nslots b))))"

definition tree_inv :: "slotset \<Rightarrow> bool" where
  "tree_inv ss \<longleftrightarrow> root_ok (btree_root ss) \<and> backed (sb_map ss) (btree_root ss) \<and> dis (free_list ss)
    \<and> distinct (addrs (btree_root ss)) \<and> set (addrs (btree_root ss)) \<subseteq> {..<brk ss}
    \<and> starts_up (free_list ss) \<and> (\<forall>b \<in> set (free_list ss). size_ok (nslots b)) \<and> binned ss (free_list ss)"

lemma set_root [simp]: "sb_map (ss\<lparr>btree_root := t\<rparr>) = sb_map ss" "lists_ok (ss\<lparr>btree_root := t\<rparr>) B = lists_ok ss B"
  "binned (ss\<lparr>btree_root := t\<rparr>) bs = binned ss bs"
  by (auto simp: fun_eq_iff sb_map_def lists_ok_def binned_def)

section \<open>Insertion and deletion\<close>

lemma binned_grows:
  assumes "binned ss bs" "grows ss ss' (listblock b) (bin_of (nslots b))" "listblock b \<notin> lbs bs" "set cs = insert b (set bs)"
  shows "binned ss' cs"
proof -
  obtain B where B: "lists_ok ss B" "dom B = lbs bs" "\<forall>b \<in> set bs. B (listblock b) = Some (bin_of (nslots b))"
    using assms(1) by (auto simp: binned_def)
  let ?B = "B(listblock b \<mapsto> bin_of (nslots b))"
  have "lists_ok ss' ?B" using assms(2) B(1) by (simp add: grows_def)
  moreover have "dom ?B = lbs cs" using B(2) assms(4) by simp
  moreover have "?B (listblock x) = Some (bin_of (nslots x))" if "x \<in> set cs" for x
    using that assms(3,4) B(3) by (cases "x = b") (auto simp: image_iff)
  ultimately show ?thesis unfolding binned_def by blast
qed

lemma ins_up: "starts_up xs \<Longrightarrow> startslot b \<notin> startslot ` set xs \<Longrightarrow> starts_up (ins b xs)"
  unfolding ins_def starts_append by (auto simp: starts_up_def sorted_wrt_filter not_less image_iff order.order_iff_strict)

lemma btree_insert_root:
  assumes "root_ok t" "backed (sb_map ss) t" "dis (inorder t)" "starts_up (inorder t)" "s \<notin> startslot ` set (inorder t)" "lists_ok ss B" "size_ok n"
  shows "\<exists>ss' t' b h'. btree_insert ss t s n = Some (ss', t') \<and> startslot b = s \<and> nslots b = n \<and> listblock b \<notin> dom (sb_map ss)
    \<and> bt_ok 1 h' t' \<and> inorder t' = ins b (inorder t) \<and> backed (sb_map ss') t' \<and> grows ss ss' (listblock b) (bin_of n)
    \<and> fresh_addrs ss ss' (addrs t) (addrs t')"
proof -
  obtain h where "bt_ok (if h = 0 then 0 else 1) h t" using assms(1) by (auto simp: root_ok_def)
  then show ?thesis by (rule btree_insert_ok [OF _ _ assms(2-)]) (simp split: if_splits)
qed

lemma root_insert_ok:
  assumes i: "tree_inv ss" and s: "s \<notin> startslot ` set (free_list ss)" "size_ok n"
  shows "\<exists>ss' b. root_insert ss s n = Some ss' \<and> tree_inv ss' \<and> startslot b = s \<and> nslots b = n \<and> free_list ss' = ins b (free_list ss)"
proof -
  note I = i [unfolded tree_inv_def]
  obtain B where B: "lists_ok ss B" using I by (auto simp: binned_def)
  have t: "root_ok (btree_root ss)" "backed (sb_map ss) (btree_root ss)" "dis (free_list ss)" "starts_up (free_list ss)" using I by simp_all
  from btree_insert_root [OF t s(1) B s(2)] obtain s1 t' b h' where
    b: "btree_insert ss (btree_root ss) s n = Some (s1, t')" "startslot b = s" "nslots b = n" "listblock b \<notin> dom (sb_map ss)"
      "bt_ok 1 h' t'" "inorder t' = ins b (free_list ss)" "backed (sb_map s1) t'" "grows ss s1 (listblock b) (bin_of n)"
      "fresh_addrs ss s1 (addrs (btree_root ss)) (addrs t')"
    by (elim exE conjE) (rule that)
  have nb: "listblock b \<notin> lbs (free_list ss)" using backed_ids [OF t(2)] b(4) by blast
  have "brk ss \<le> brk s1" using b(8) by (simp add: grows_def)
  with fresh_distinct [OF b(9)] i have "distinct (addrs t')" "set (addrs t') \<subseteq> {..<brk s1}" by (simp_all add: tree_inv_def)
  moreover have "dis (ins b (free_list ss))" by (rule distinct_ins [OF t(3) nb])
  moreover have "starts_up (ins b (free_list ss))" by (rule ins_up [OF t(4) s(1) [folded b(2)]])
  moreover have "binned s1 (ins b (free_list ss))"
    by (rule binned_grows [OF _ b(8) [folded b(3)] nb]) (use i in \<open>simp_all add: tree_inv_def set_ins\<close>)
  ultimately have "tree_inv (s1\<lparr>btree_root := t'\<rparr>)" using i b s(2) root_okI [OF b(5)] by (auto simp: tree_inv_def set_ins)
  then show ?thesis using b by (auto simp: root_insert_def)
qed

lemma binned_shrinks:
  assumes "binned ss (xs @ b # ys)" "shrinks ss ss' b" "dis (xs @ b # ys)"
  shows "binned ss' (xs @ ys)"
proof -
  obtain B where B: "lists_ok ss B" "dom B = lbs (xs @ b # ys)" "\<forall>b \<in> set (xs @ b # ys). B (listblock b) = Some (bin_of (nslots b))"
    using assms(1) by (auto simp: binned_def)
  let ?B = "B(listblock b := None)"
  have nb: "listblock b \<notin> lbs (xs @ ys)" using assms(3) by (simp add: image_Un)
  have "lists_ok ss' ?B" using assms(2) B(1,3) by (simp add: shrinks_def)
  moreover have "dom ?B = lbs (xs @ ys)" using B(2) nb by (simp add: image_Un insert_Diff_if)
  moreover have "?B (listblock x) = Some (bin_of (nslots x))" if "x \<in> set (xs @ ys)" for x
  proof -
    have "listblock x \<noteq> listblock b" using imageI [OF that, of listblock] nb by metis
    then show ?thesis using that B(3) by auto
  qed
  ultimately show ?thesis unfolding binned_def by blast
qed

lemma distinct_sub: "mset ys \<subseteq># mset xs \<Longrightarrow> distinct xs \<Longrightarrow> distinct ys"
proof -
  assume s: "mset ys \<subseteq># mset xs" "distinct xs"
  then obtain M where "mset xs = mset ys + M" by (auto simp: mset_subset_eq_exists_conv)
  moreover obtain zs where "mset zs = M" using ex_mset by blast
  ultimately have "mset xs = mset (ys @ zs)" by simp
  then have "distinct (ys @ zs)" using s(2) mset_eq_imp_distinct_iff by blast
  then show "distinct ys" by simp
qed

lemma root_delete_ok:
  assumes i: "tree_inv ss" and l: "free_list ss = xs @ b # ys"
  shows "\<exists>ss'. root_delete ss (startslot b) = Some ss' \<and> tree_inv ss' \<and> free_list ss' = xs @ ys"
proof -
  obtain B where B: "lists_ok ss B" "\<forall>b \<in> set (free_list ss). B (listblock b) = Some (bin_of (nslots b))"
    using i by (auto simp: tree_inv_def binned_def)
  have bi: "b \<in> set (free_list ss)" using l by simp
  have t: "root_ok (btree_root ss)" "backed (sb_map ss) (btree_root ss)" "dis (free_list ss)" "starts_up (free_list ss)"
    and z: "size_ok (nslots b)" using i bi by (simp_all add: tree_inv_def)
  from btree_delete_ok [OF t bi B(1) _ z] B(2) bi obtain s1 t' where
    b: "btree_delete ss (btree_root ss) (startslot b) = Some (s1, t')" "root_ok t'" "inorder t' = filter (\<lambda>x. startslot x \<noteq> startslot b) (free_list ss)"
      "backed (sb_map s1) t'" "shrinks ss s1 b" "mset (addrs t') \<subseteq># mset (addrs (btree_root ss))"
    by blast
  have io: "inorder t' = xs @ ys" using b(3) filter_start [of xs b ys] i l by (simp add: tree_inv_def)
  have "brk ss \<le> brk s1" using b(5) by (simp add: shrinks_def)
  moreover have "set (addrs t') \<subseteq> set (addrs (btree_root ss))" using set_mset_mono [OF b(6)] by simp
  ultimately have "set (addrs t') \<subseteq> {..<brk s1}" using i by (auto simp: tree_inv_def)
  moreover have "distinct (addrs t')" using distinct_sub [OF b(6)] i by (simp add: tree_inv_def)
  moreover have "binned s1 (xs @ ys)" using binned_shrinks [OF _ b(5)] i l by (simp add: tree_inv_def)
  ultimately have "tree_inv (s1\<lparr>btree_root := t'\<rparr>)" using i l b(2,4) io by (auto simp: tree_inv_def starts_append)
  then show ?thesis using b(1) io by (auto simp: root_delete_def)
qed

section \<open>Writing through a pointer\<close>

lemma map_weave: "map f (weave cs xs) = weave (map (map f) cs) (map f xs)"
  by (induction cs xs rule: weave.induct) (auto simp: map_concat)

lemma store_blocks:
  assumes "own M a bs"
  shows "(if a = fst p then bs[snd p := b'] else bs) = map (\<lambda>x. if M (listblock x) = Some p then b' else x) bs"
  using assms by (cases p) (auto simp: own_def list_eq_iff_nth_eq nth_list_update)

lemma store_inorder: "backed M t \<Longrightarrow> inorder (sb_store t p b') = map (\<lambda>x. if M (listblock x) = Some p then b' else x) (inorder t)"
proof (induction t)
  case (BNode a bs cs)
  have "map (inorder \<circ> (\<lambda>c. sb_store c p b')) cs = map (map (\<lambda>x. if M (listblock x) = Some p then b' else x)) (map inorder cs)"
    using BNode by simp
  moreover have "own M a bs" using BNode.prems by simp
  ultimately show ?case by (simp only: sb_store.simps inorder.simps store_blocks map_map map_weave)
qed

lemma own_store: "own M a bs \<Longrightarrow> M (listblock b') = Some (a, i) \<Longrightarrow> own M a (bs[i := b'])"
  by (cases "i < length bs") (simp_all add: own_def nth_list_update)

lemma store_backed: "backed M t \<Longrightarrow> M (listblock b') = Some p \<Longrightarrow> backed M (sb_store t p b')"
  by (induction t; cases p) (auto intro: own_store)

lemma store_addrs: "addrs (sb_store t p b') = addrs t"
  by (induction t) (simp add: comp_def cong: map_cong)

lemma store_bt_ok: "bt_ok m h t \<Longrightarrow> bt_ok m h (sb_store t p b')"
proof (induction h arbitrary: m t)
  case 0
  then show ?case by (cases t) auto
next
  case (Suc h)
  then show ?case by (cases t) auto
qed

lemma block_at_iff:
  assumes "backed M t" "distinct (addrs t)" "block_at t p b" "x \<in> set (inorder t)"
  shows "M (listblock x) = Some p \<longleftrightarrow> x = b"
proof
  assume m: "M (listblock x) = Some p"
  obtain q where q: "block_at t q x" using block_at_ex [OF assms(4)] by blast
  then have "q = p" using backed_at [OF assms(1) q] m by simp
  then show "x = b" using block_at_load [OF assms(2) q] block_at_load [OF assms(2,3)] by simp
qed (use backed_at [OF assms(1,3)] in simp)

lemma map_at: "b \<notin> set xs \<Longrightarrow> b \<notin> set ys \<Longrightarrow> map (\<lambda>x. if x = b then b' else x) (xs @ b # ys) = xs @ b' # ys"
  by (auto intro!: map_idI)

lemma binned_resized:
  assumes "lists_ok ss' (B(listblock b \<mapsto> bin_of (nslots b')))" "dom B = lbs (xs @ b # ys)"
    and B: "\<forall>b \<in> set (xs @ b # ys). B (listblock b) = Some (bin_of (nslots b))" and d: "dis (xs @ b # ys)" "listblock b' = listblock b"
  shows "binned ss' (xs @ b' # ys)"
proof -
  let ?B = "B(listblock b \<mapsto> bin_of (nslots b'))"
  have nb: "listblock b \<notin> lbs (xs @ ys)" using d(1) by (simp add: image_Un)
  have "dom ?B = lbs (xs @ b' # ys)" using assms(2) d(2) by (auto simp: image_Un)
  moreover have "?B (listblock x) = Some (bin_of (nslots x))" if "x \<in> set (xs @ b' # ys)" for x
  proof (cases "x = b'")
    case False
    then have x: "x \<in> set (xs @ ys)" using that by auto
    have "listblock x \<noteq> listblock b" using imageI [OF x, of listblock] nb by metis
    then show ?thesis using x B by auto
  qed (use d(2) in simp)
  ultimately show ?thesis using assms(1) unfolding binned_def by blast
qed

lemma resize_ok:
  assumes i: "tree_inv ss" and l: "free_list ss = xs @ b # ys" and p: "block_at (btree_root ss) p b"
    and f: "listblock (f b) = listblock b" "size_ok (nslots (f b))" "starts_up (xs @ f b # ys)"
  shows "\<exists>ss'. resize_block ss p f = Some ss' \<and> tree_inv ss' \<and> free_list ss' = xs @ f b # ys
    \<and> (\<forall>c q. c \<in> set (xs @ ys) \<longrightarrow> block_at (btree_root ss) q c \<longrightarrow> block_at (btree_root ss') q c)"
proof -
  let ?t = "btree_root ss" and ?t' = "sb_store (btree_root ss) p (f b)"
  let ?s1 = "ss\<lparr>btree_root := ?t'\<rparr>"
  note I = i [unfolded tree_inv_def]
  have t: "root_ok ?t" "backed (sb_map ss) ?t" "distinct (addrs ?t)" "dis (xs @ b # ys)" using I l by simp_all
  obtain B where B: "lists_ok ss B" "dom B = lbs (xs @ b # ys)" "\<forall>b \<in> set (xs @ b # ys). B (listblock b) = Some (bin_of (nslots b))"
    using I unfolding binned_def l by blast
  have ld: "sb_load ?t p = Some b" by (rule block_at_load [OF t(3) p])
  have m: "sb_map ss (listblock b) = Some p" by (rule backed_at [OF t(2) p])
  have nb: "b \<notin> set xs" "b \<notin> set ys" using t(4) by auto
  have "inorder ?t' = map (\<lambda>x. if x = b then f b else x) (inorder ?t)"
    unfolding store_inorder [OF t(2)] by (rule map_cong [OF refl]) (simp add: block_at_iff [OF t(2,3) p])
  then have io: "inorder ?t' = xs @ f b # ys" using l map_at [OF nb] by simp
  have bk: "backed (sb_map ss) ?t'" by (rule store_backed [OF t(2)]) (use m f(1) in simp)
  have loc: "block_at ?t' q c" if c: "c \<in> set (xs @ f b # ys)" "sb_map ss (listblock c) = Some q" for c q
  proof -
    obtain r where r: "block_at ?t' r c" using block_at_ex c(1) io by metis
    then show ?thesis using backed_at [OF bk r] c(2) by simp
  qed
  have "distinct (addrs ?t')" using t(3) by (simp add: store_addrs)
  from block_at_load [OF this loc] m f(1) have ld': "sb_load ?t' p = Some (f b)" by simp
  have so: "size_ok (nslots b)" using I l by simp
  from list_move_ok [of ?s1 B "listblock b" "nslots b" p "f b"] B m ld' so f(2) obtain s2 where
    s2: "list_move ?s1 (listblock b) (nslots b) = Some s2" "lists_ok s2 (B(listblock b \<mapsto> bin_of (nslots (f b))))"
      "sb_map s2 = sb_map ss" "brk s2 = brk ss" "btree_root s2 = ?t'" by auto
  have "resize_block ss p f = Some s2" using ld s2(1) by (simp add: resize_block_def)
  moreover have "root_ok ?t'" using t(1) store_bt_ok unfolding root_ok_def by blast
  moreover have "dis (xs @ f b # ys)" using t(4) f(1) by simp
  ultimately show ?thesis using I l io bk s2 f binned_resized [OF s2(2) B(2,3) t(4) f(1)] loc backed_at [OF t(2)]
    by (intro exI [of _ s2]) (auto simp: tree_inv_def store_addrs)
qed

end
