(* ===== verification/Iso_Set.thy ===== *)
theory Iso_Set
  imports Iso_Inv
begin

text \<open>
  A slot set as a set of slots: taking slots removes exactly them, returning slots adds exactly
  them, a search for consecutive free slots fails only when there are none, and giving slots back
  restores the set of free blocks.
\<close>

abbreviation extent :: "slotblock \<Rightarrow> int set" where
  "extent b \<equiv> {startslot b..<startslot b + nslots b}"

definition slots_of :: "slotblock list \<Rightarrow> int set" where
  "slots_of bs = (\<Union>b \<in> set bs. extent b)"

text \<open>Free blocks do not touch, and stay in the range for which the bins are defined.\<close>

definition separated :: "slotblock list \<Rightarrow> bool" where
  "separated bs \<longleftrightarrow> sorted_wrt (\<lambda>x y. startslot x + nslots x < startslot y) bs"

definition bounded :: "slotblock list \<Rightarrow> bool" where
  "bounded bs \<longleftrightarrow> (\<forall>b \<in> set bs. 0 \<le> startslot b \<and> 0 < nslots b \<and> startslot b + nslots b \<le> 2 ^ 62)"

definition iso_inv :: "slotset \<Rightarrow> bool" where
  "iso_inv ss \<longleftrightarrow> tree_inv ss \<and> separated (free_list ss) \<and> bounded (free_list ss)"

abbreviation free_set :: "slotset \<Rightarrow> int set" where
  "free_set ss \<equiv> slots_of (free_list ss)"

lemma slots_simps [simp]: "slots_of [] = {}" "slots_of (b # bs) = extent b \<union> slots_of bs" "slots_of (xs @ ys) = slots_of xs \<union> slots_of ys"
  by (auto simp: slots_of_def)

lemma separated_simps [simp]: "separated []" "separated (b # bs) \<longleftrightarrow> (\<forall>x \<in> set bs. startslot b + nslots b < startslot x) \<and> separated bs"
  "separated (xs @ ys) \<longleftrightarrow> separated xs \<and> separated ys \<and> (\<forall>x \<in> set xs. \<forall>y \<in> set ys. startslot x + nslots x < startslot y)"
  by (auto simp: separated_def sorted_wrt_append)

lemma bounded_simps [simp]: "bounded []" "bounded (b # bs) \<longleftrightarrow> 0 \<le> startslot b \<and> 0 < nslots b \<and> startslot b + nslots b \<le> 2 ^ 62 \<and> bounded bs"
  "bounded (xs @ ys) \<longleftrightarrow> bounded xs \<and> bounded ys"
  by (auto simp: bounded_def)

lemma contains_span: "contains b s \<longleftrightarrow> s \<in> extent b"
  by (simp add: contains_def)

lemma in_slots: "s \<in> slots_of bs \<longleftrightarrow> (\<exists>b \<in> set bs. contains b s)"
  by (auto simp: slots_of_def contains_def)

lemma separated_up: "separated bs \<Longrightarrow> bounded bs \<Longrightarrow> disjoint_up bs"
  by (induction bs) (auto intro: less_imp_le)

lemma find_root:
  assumes "disjoint_up (inorder t)" "root_ok t" "0 \<le> s"
  shows "\<exists>r. find_btree_slotblock t s = Some r \<and> (case r of
      None \<Rightarrow> \<forall>b \<in> set (inorder t). \<not> contains b s
    | Some p \<Rightarrow> \<exists>b \<in> set (inorder t). contains b s \<and> block_at t p b)"
proof -
  obtain h where "bt_ok (if h = 0 then 0 else 1) h t" using assms(2) by (auto simp: root_ok_def)
  then show ?thesis by (rule find_ok [OF _ _ assms(1,3)]) (simp split: if_splits)
qed

lemma find_slot:
  assumes "iso_inv ss"
  shows "\<exists>r. find_btree_slotblock (btree_root ss) s = Some r \<and> (case r of
      None \<Rightarrow> s \<notin> free_set ss | Some p \<Rightarrow> \<exists>b \<in> set (free_list ss). s \<in> extent b \<and> block_at (btree_root ss) p b)"
proof (cases "0 \<le> s")
  case True
  have "disjoint_up (free_list ss)" "root_ok (btree_root ss)" using assms separated_up by (simp_all add: iso_inv_def tree_inv_def)
  from find_root [OF this True] show ?thesis by (simp only: in_slots contains_span bex_simps not_not ball_simps)
next
  case False
  have "s \<notin> free_set ss" using assms False by (auto simp: iso_inv_def bounded_def slots_of_def)
  moreover have "find_btree_slotblock (btree_root ss) s = Some None" using False by (cases "btree_root ss") simp
  ultimately show ?thesis by simp
qed

lemma find_slot_cases [consumes 1]:
  assumes "iso_inv ss"
  obtains (free) p xs b ys where "find_btree_slotblock (btree_root ss) s = Some (Some p)" "free_list ss = xs @ b # ys" "s \<in> extent b"
      "block_at (btree_root ss) p b"
  | (taken) "find_btree_slotblock (btree_root ss) s = Some None" "s \<notin> free_set ss"
proof -
  from find_slot [OF assms, of s] obtain r where r: "find_btree_slotblock (btree_root ss) s = Some r"
    "case r of None \<Rightarrow> s \<notin> free_set ss | Some p \<Rightarrow> \<exists>b \<in> set (free_list ss). s \<in> extent b \<and> block_at (btree_root ss) p b" by blast
  show thesis
  proof (cases r)
    case None
    then show thesis using r by (intro taken) simp_all
  next
    case (Some p)
    then obtain b where b: "b \<in> set (free_list ss)" "s \<in> extent b" "block_at (btree_root ss) p b" using r(2) by auto
    obtain xs ys where "free_list ss = xs @ b # ys" using split_list [OF b(1)] by blast
    then show thesis using free r(1) Some b(2,3) by blast
  qed
qed

lemma bounded_size: "bounded bs \<Longrightarrow> b \<in> set bs \<Longrightarrow> size_ok (nslots b)"
  by (auto simp: bounded_def size_ok_def)

lemma separated_starts: "separated bs \<Longrightarrow> bounded bs \<Longrightarrow> starts_up bs"
  by (rule disjoint_starts [OF separated_up])

text \<open>The slots of a block are not in the blocks around it.\<close>

lemma span_apart:
  assumes "separated (xs @ b # ys)" "bounded (xs @ b # ys)"
  shows "slots_of xs \<subseteq> {..<startslot b - 1}" "slots_of ys \<subseteq> {startslot b + nslots b + 1..}"
    "startslot b - 1 \<notin> slots_of (xs @ b # ys)" "startslot b + nslots b \<notin> slots_of (xs @ b # ys)"
proof -
  show x: "slots_of xs \<subseteq> {..<startslot b - 1}" using assms by (fastforce simp: slots_of_def)
  show y: "slots_of ys \<subseteq> {startslot b + nslots b + 1..}" using assms by (fastforce simp: slots_of_def)
  have "0 < nslots b" using assms(2) by simp
  then show "startslot b - 1 \<notin> slots_of (xs @ b # ys)" "startslot b + nslots b \<notin> slots_of (xs @ b # ys)" using x y by fastforce+
qed

text \<open>Consecutive free slots lie in one block.\<close>

lemma range_in_block:
  assumes s: "separated (xs @ b # ys)" "bounded (xs @ b # ys)" and "a \<in> extent b" "{a..<a + n} \<subseteq> slots_of (xs @ b # ys)"
  shows "a + n \<le> startslot b + nslots b"
proof (rule ccontr)
  assume "\<not> ?thesis"
  then have "startslot b + nslots b \<in> {a..<a + n}" using assms(3) by simp
  then show False using assms(4) span_apart(4) [OF s] by blast
qed

section \<open>Taking slots\<close>

lemma grab_cut:
  assumes s: "separated (xs @ b # ys)" "bounded (xs @ b # ys)" and r: "{a..<a + n} \<subseteq> extent b" "0 < n" and c: "slots_of cs = extent b - {a..<a + n}"
  shows "slots_of (xs @ cs @ ys) = slots_of (xs @ b # ys) - {a..<a + n}"
proof -
  have "slots_of xs \<inter> {a..<a + n} = {}" "slots_of ys \<inter> {a..<a + n} = {}" using span_apart(1,2) [OF s] r(1) by fastforce+
  then show ?thesis using c by auto
qed

definition cut_ok :: "slotset \<Rightarrow> slotset \<Rightarrow> int set \<Rightarrow> bool" where
  "cut_ok ss ss' r \<longleftrightarrow> iso_inv ss' \<and> free_set ss' = free_set ss - r"

lemma cut_okI:
  assumes i: "iso_inv ss" and l: "free_list ss = xs @ b # ys" and r: "{a..<a + n} \<subseteq> extent b" "0 < n"
    and t: "tree_inv ss'" "free_list ss' = xs @ cs @ ys"
    and c: "slots_of cs = extent b - {a..<a + n}" "separated cs" "bounded cs" "\<forall>x \<in> set cs. startslot b \<le> startslot x \<and> startslot x + nslots x \<le> startslot b + nslots b"
  shows "cut_ok ss ss' {a..<a + n}"
proof -
  have s: "separated (xs @ b # ys)" "bounded (xs @ b # ys)" using i l by (simp_all add: iso_inv_def)
  have "separated (xs @ cs @ ys)" using s c(2,4) by fastforce
  moreover have "bounded (xs @ cs @ ys)" using s c(3) by simp
  ultimately show ?thesis using grab_cut [OF s r c(1)] t l by (simp add: cut_ok_def iso_inv_def)
qed

lemma grab_block:
  assumes i: "iso_inv ss" and l: "free_list ss = xs @ b # ys" and p: "block_at (btree_root ss) p b" and r: "{a..<a + n} \<subseteq> extent b" "0 < n"
    and f: "find_btree_slotblock (btree_root ss) a = Some (Some p)"
  shows "\<exists>ss'. grab_slots ss a n = Some (Inr ss') \<and> cut_ok ss ss' {a..<a + n}"
proof -
  have t: "tree_inv ss" "distinct (addrs (btree_root ss))" using i by (simp_all add: iso_inv_def tree_inv_def)
  have s: "separated (xs @ b # ys)" "bounded (xs @ b # ys)" using i l by (simp_all add: iso_inv_def)
  have ld: "sb_load (btree_root ss) p = Some b" by (rule block_at_load [OF t(2) p])
  have up: "starts_up (xs @ b # ys)" using separated_starts [OF s] .
  have le: "startslot b \<le> a" "a + n \<le> startslot b + nslots b" using r by auto
  have b: "0 \<le> startslot b" "0 < nslots b" "startslot b + nslots b \<le> 2 ^ 62" using s(2) by simp_all
  note g = grab_slots_def f ld
  consider "startslot b = a" "nslots b = n" | "startslot b = a" "n < nslots b" | "startslot b < a" "a + n = startslot b + nslots b"
    | "startslot b < a" "a + n < startslot b + nslots b" using le r by linarith
  then show ?thesis
  proof cases
    case 1
    from root_delete_ok [OF t(1) l] obtain ss' where ss': "root_delete ss (startslot b) = Some ss'" "tree_inv ss'" "free_list ss' = xs @ [] @ ys" by auto
    have "cut_ok ss ss' {a..<a + n}" by (rule cut_okI [OF i l r ss'(2,3)]) (use 1 in auto)
    then show ?thesis using 1 ss'(1) by (simp add: g)
  next
    case 2
    let ?f = "\<lambda>b. b\<lparr>startslot := startslot b + n, nslots := nslots b - n\<rparr>"
    have "starts_up (xs @ ?f b # ys)" using up s r(2) 2 by (fastforce simp: starts_append)
    with resize_ok [OF t(1) l p, of ?f] b 2 r(2) obtain ss' where
      ss': "resize_block ss p ?f = Some ss'" "tree_inv ss'" "free_list ss' = xs @ [?f b] @ ys" by (auto simp: size_ok_def)
    have "cut_ok ss ss' {a..<a + n}" by (rule cut_okI [OF i l r ss'(2,3)]) (use 2 b r(2) in auto)
    then show ?thesis using 2 ss'(1) by (simp add: g)
  next
    case 3
    let ?f = "\<lambda>b. b\<lparr>nslots := nslots b - n\<rparr>"
    have "starts_up (xs @ ?f b # ys)" using up by (simp add: starts_append)
    with resize_ok [OF t(1) l p, of ?f] b 3 r(2) obtain ss' where
      ss': "resize_block ss p ?f = Some ss'" "tree_inv ss'" "free_list ss' = xs @ [?f b] @ ys" by (auto simp: size_ok_def)
    have "cut_ok ss ss' {a..<a + n}" by (rule cut_okI [OF i l r ss'(2,3)]) (use 3 b r(2) in auto)
    then show ?thesis using 3 ss'(1) by (simp add: g)
  next
    case 4
    let ?f = "\<lambda>b. b\<lparr>nslots := a - startslot b\<rparr>" and ?n = "startslot b + nslots b - 1 - (a + n) + 1"
    have "starts_up (xs @ ?f b # ys)" using up by (simp add: starts_append)
    with resize_ok [OF t(1) l p, of ?f] b 4 r(2) obtain s1 where
      s1: "resize_block ss p ?f = Some s1" "tree_inv s1" "free_list s1 = xs @ ?f b # ys" by (auto simp: size_ok_def)
    have "startslot x < startslot b" if "x \<in> set xs" for x using up that by (simp add: starts_append)
    then have lt: "startslot x < a + n" if "x \<in> set (xs @ [?f b])" for x using that 4(1) r(2) by (cases "x = ?f b") fastforce+
    have gt: "a + n < startslot x" if "x \<in> set ys" for x using s(1) 4(2) that by (auto dest!: bspec)
    have "a + n \<notin> startslot ` set (free_list s1)" unfolding s1(3) using lt gt by fastforce
    moreover have "size_ok ?n" using 4 b r(2) by (simp add: size_ok_def)
    ultimately obtain ss' c where
      ss': "root_insert s1 (a + n) ?n = Some ss'" "tree_inv ss'" "startslot c = a + n" "nslots c = ?n" "free_list ss' = ins c (free_list s1)"
      using root_insert_ok [OF s1(2)] by blast
    have e: "free_list ss' = xs @ [?f b, c] @ ys"
      using ins_between [of "xs @ [?f b]" c ys "[]"] lt gt ss'(3,5) by (simp add: s1(3) ins_def [of c "[]"])
    have "cut_ok ss ss' {a..<a + n}" by (rule cut_okI [OF i l r ss'(2) e]) (use 4 b r(2) ss'(3,4) in auto)
    then show ?thesis using 4 s1(1) ss'(1) by (simp add: g)
  qed
qed

lemma grab_ok:
  assumes i: "iso_inv ss" and n: "0 < n" and r: "{a..<a + n} \<subseteq> free_set ss"
  shows "\<exists>ss'. grab_slots ss a n = Some (Inr ss') \<and> cut_ok ss ss' {a..<a + n}"
proof -
  have "a \<in> {a..<a + n}" using n by simp
  then have "a \<in> free_set ss" using r by blast
  then obtain p xs b ys where
    b: "find_btree_slotblock (btree_root ss) a = Some (Some p)" and l: "free_list ss = xs @ b # ys" and
      a: "a \<in> extent b" "block_at (btree_root ss) p b"
    by (auto intro: find_slot_cases [OF i, of a])
  have "a + n \<le> startslot b + nslots b" by (rule range_in_block [of xs b ys]) (use i r l a(1) in \<open>simp_all add: iso_inv_def\<close>)
  then have "{a..<a + n} \<subseteq> extent b" using a(1) by auto
  then show ?thesis by (rule grab_block [OF i l a(2) _ n b])
qed

section \<open>Returning slots\<close>

definition join_ok :: "slotset \<Rightarrow> slotset \<Rightarrow> int set \<Rightarrow> bool" where
  "join_ok ss ss' r \<longleftrightarrow> iso_inv ss' \<and> free_set ss' = free_set ss \<union> r"

lemma apart:
  assumes "bounded bs" "x \<in> set bs" "{a..<a + n} \<inter> slots_of bs = {}" "0 < (n :: int)"
  shows "startslot x + nslots x \<le> a \<or> a + n \<le> startslot x"
proof (rule ccontr)
  assume c: "\<not> ?thesis"
  have "0 < nslots x" using assms(1,2) by (auto simp: bounded_def)
  then have "max a (startslot x) \<in> extent x" "max a (startslot x) \<in> {a..<a + n}" using c assms(4) by auto
  then show False using assms(2,3) unfolding slots_of_def by blast
qed

lemma apart_low:
  assumes "bounded bs" "x \<in> set bs" "{a..<a + n} \<inter> slots_of bs = {}" "0 < (n :: int)" "a - 1 \<notin> slots_of bs" "startslot x < a + n"
  shows "startslot x + nslots x < a"
proof -
  have "startslot x + nslots x \<le> a" "0 < nslots x" using apart [OF assms(1-4)] assms(1,2,6) by (auto simp: bounded_def)
  moreover have "a - 1 \<notin> extent x" using assms(2,5) by (auto simp: slots_of_def)
  ultimately show ?thesis by auto
qed

lemma apart_high:
  assumes "bounded bs" "x \<in> set bs" "{a..<a + n} \<inter> slots_of bs = {}" "0 < (n :: int)" "a + n \<notin> slots_of bs" "a \<le> startslot x"
  shows "a + n < startslot x"
proof -
  have "a + n \<le> startslot x" "0 < nslots x" using apart [OF assms(1-4)] assms(1,2,6) by (auto simp: bounded_def)
  moreover have "a + n \<notin> extent x" using assms(2,5) by (auto simp: slots_of_def)
  ultimately show ?thesis by auto
qed

lemma split_starts: "starts_up bs \<Longrightarrow> \<exists>xs ys. bs = xs @ ys \<and> (\<forall>x \<in> set xs. startslot x < a) \<and> (\<forall>y \<in> set ys. a \<le> startslot y)"
proof (induction bs)
  case (Cons b bs)
  then obtain xs ys where xy: "bs = xs @ ys" "\<forall>x \<in> set xs. startslot x < a" "\<forall>y \<in> set ys. a \<le> startslot y" by auto
  show ?case
  proof (cases "startslot b < a")
    case True
    then show ?thesis using xy by (intro exI [of _ "b # xs"] exI [of _ ys]) simp
  next
    case False
    have "a \<le> startslot y" if "y \<in> set (b # bs)" for y using that Cons.prems False by fastforce
    then show ?thesis by (intro exI [of _ "[]"] exI [of _ "b # bs"]) simp
  qed
qed simp

lemma free_none:
  assumes i: "iso_inv ss" and r: "{a..<a + n} \<inter> free_set ss = {}" "0 < n" "0 \<le> a" "a + n \<le> 2 ^ 62"
    and o: "a - 1 \<notin> free_set ss" "a + n \<notin> free_set ss"
  shows "\<exists>ss'. root_insert ss a n = Some ss' \<and> join_ok ss ss' {a..<a + n}"
proof -
  have I: "tree_inv ss" "separated (free_list ss)" "bounded (free_list ss)" using i by (simp_all add: iso_inv_def)
  obtain xs ys where l: "free_list ss = xs @ ys" "\<forall>x \<in> set xs. startslot x < a" "\<forall>y \<in> set ys. a \<le> startslot y"
    using split_starts [OF separated_starts [OF I(2,3)]] by blast
  have lo: "startslot x + nslots x < a" if "x \<in> set xs" for x
    by (rule apart_low [OF I(3) _ r(1,2) o(1)]) (use that l r(2) in fastforce)+
  have hi: "a + n < startslot y" if "y \<in> set ys" for y
    by (rule apart_high [OF I(3) _ r(1,2) o(2)]) (use that l in fastforce)+
  have "a \<notin> startslot ` set (free_list ss)" using l(1,2) hi r(2) by fastforce
  moreover have "size_ok n" using r by (simp add: size_ok_def)
  ultimately obtain ss' b where
    ss': "root_insert ss a n = Some ss'" "tree_inv ss'" "startslot b = a" "nslots b = n" "free_list ss' = ins b (free_list ss)"
    using root_insert_ok [OF I(1)] by blast
  have gt: "startslot b < startslot y" if "y \<in> set ys" for y using hi [OF that] r(2) ss'(3) by simp
  have e: "free_list ss' = xs @ b # ys"
    using ins_between [of xs b ys "[]"] l gt ss'(3,5) by (simp add: ins_def [of b "[]"])
  have "join_ok ss ss' {a..<a + n}" using ss'(2) I l(1) lo hi r ss'(3,4) unfolding join_ok_def iso_inv_def e by (fastforce simp del: Un_iff)
  then show ?thesis using ss'(1) by blast
qed

lemma free_low:
  assumes i: "iso_inv ss" and r: "{a..<a + n} \<inter> free_set ss = {}" "0 < n" "0 \<le> a" "a + n \<le> 2 ^ 62"
    and l: "free_list ss = xs @ b # ys" "a - 1 \<in> extent b" "block_at (btree_root ss) p b" and o: "a + n \<notin> free_set ss"
  shows "\<exists>ss'. resize_block ss p (\<lambda>b. b\<lparr>nslots := nslots b + n\<rparr>) = Some ss' \<and> join_ok ss ss' {a..<a + n}"
proof -
  let ?f = "\<lambda>b. b\<lparr>nslots := nslots b + n\<rparr>"
  have I: "tree_inv ss" "separated (xs @ b # ys)" "bounded (xs @ b # ys)" using i l(1) by (simp_all add: iso_inv_def)
  have d: "{a..<a + n} \<inter> slots_of (xs @ b # ys) = {}" using r(1) l(1) by simp
  have e: "startslot b + nslots b = a" using apart [OF I(3) _ d r(2), of b] l(2) r(2) by auto
  have hi: "a + n < startslot y" if "y \<in> set ys" for y
    by (rule apart_high [OF I(3) _ d r(2)]) (use that l(1) o e I(2) in fastforce)+
  have "starts_up (xs @ ?f b # ys)" using separated_starts [OF I(2,3)] by (simp add: starts_append)
  with resize_ok [OF I(1) l(1,3), of ?f] I(3) e r obtain ss' where
    ss': "resize_block ss p ?f = Some ss'" "tree_inv ss'" "free_list ss' = xs @ ?f b # ys" by (auto simp: size_ok_def)
  have "extent (?f b) = extent b \<union> {a..<a + n}" using e r(2) I(3) by auto
  moreover have "separated (xs @ ?f b # ys)" "bounded (xs @ ?f b # ys)" using I(2,3) e hi r by (auto simp: add.assoc [symmetric])
  ultimately have "join_ok ss ss' {a..<a + n}" using ss'(2) l(1) unfolding join_ok_def iso_inv_def ss'(3) by auto
  then show ?thesis using ss'(1) by blast
qed

lemma free_high:
  assumes i: "iso_inv ss" and r: "{a..<a + n} \<inter> free_set ss = {}" "0 < n" "0 \<le> a" "a + n \<le> 2 ^ 62"
    and l: "free_list ss = xs @ b # ys" "a + n \<in> extent b" "block_at (btree_root ss) p b" and o: "a - 1 \<notin> free_set ss"
  shows "\<exists>ss'. resize_block ss p (\<lambda>b. b\<lparr>startslot := a, nslots := nslots b + n\<rparr>) = Some ss' \<and> join_ok ss ss' {a..<a + n}"
proof -
  let ?f = "\<lambda>b. b\<lparr>startslot := a, nslots := nslots b + n\<rparr>"
  have I: "tree_inv ss" "separated (xs @ b # ys)" "bounded (xs @ b # ys)" using i l(1) by (simp_all add: iso_inv_def)
  have d: "{a..<a + n} \<inter> slots_of (xs @ b # ys) = {}" using r(1) l(1) by simp
  have e: "startslot b = a + n" using apart [OF I(3) _ d r(2), of b] l(2) r(2) by auto
  have lo: "startslot x + nslots x < a" if "x \<in> set xs" for x
    by (rule apart_low [OF I(3) _ d r(2)]) (use that l(1) o e separated_starts [OF I(2,3)] in \<open>auto simp: starts_append\<close>)
  have "separated (xs @ ?f b # ys)" "bounded (xs @ ?f b # ys)" using I(2,3) e lo r by (auto simp: add.commute)
  note sb = this
  with resize_ok [OF I(1) l(1,3), of ?f] separated_starts [OF sb] I(3) e r obtain ss' where
    ss': "resize_block ss p ?f = Some ss'" "tree_inv ss'" "free_list ss' = xs @ ?f b # ys" by (auto simp: size_ok_def)
  have "extent (?f b) = extent b \<union> {a..<a + n}" using e r(2) I(3) by auto
  then have "join_ok ss ss' {a..<a + n}" using ss'(2) sb l(1) unfolding join_ok_def iso_inv_def ss'(3) by auto
  then show ?thesis using ss'(1) by blast
qed

lemma free_both:
  assumes i: "iso_inv ss" and r: "{a..<a + n} \<inter> free_set ss = {}" "0 < n" "0 \<le> a" "a + n \<le> 2 ^ 62"
    and l: "free_list ss = xs @ b # zs" "a - 1 \<in> extent b" "block_at (btree_root ss) p b"
    and h: "c \<in> set (free_list ss)" "a + n \<in> extent c" "block_at (btree_root ss) q c"
  shows "\<exists>s1 ss'. resize_block ss p (\<lambda>b. b\<lparr>nslots := nslots b + n + nslots c\<rparr>) = Some s1 \<and> sb_load (btree_root s1) q = Some c
    \<and> root_delete s1 (startslot c) = Some ss' \<and> join_ok ss ss' {a..<a + n}"
proof -
  let ?f = "\<lambda>b. b\<lparr>nslots := nslots b + n + nslots c\<rparr>"
  have I: "tree_inv ss" "separated (free_list ss)" "bounded (free_list ss)" using i by (simp_all add: iso_inv_def)
  have eb: "startslot b + nslots b = a" using apart [OF I(3) _ r(1,2), of b] l(1,2) r(2) by auto
  have ec: "startslot c = a + n" using apart [OF I(3) h(1) r(1,2)] h(2) r(2) by auto
  have up: "starts_up (xs @ b # zs)" using separated_starts [OF I(2,3)] l(1) by simp
  have "startslot b < startslot c" using ec eb r(2) I(3) l(1) by simp
  then have "c \<noteq> b" "c \<notin> set xs" using up by (auto simp: starts_append)
  then have cz: "c \<in> set zs" using h(1) l(1) by auto
  obtain ys where zs: "zs = c # ys"
  proof (cases zs)
    case (Cons z ys)
    have zin: "z \<in> set (free_list ss)" using l(1) Cons by simp
    have z: "startslot b + nslots b < startslot z" "0 < nslots z" using I(2,3) l(1) Cons by simp_all
    then have "a + n \<le> startslot z" using apart [OF I(3) zin r(1,2)] eb by auto
    moreover have "startslot z < startslot c" if "c \<noteq> z" using that cz Cons up by (simp add: starts_append)
    ultimately have "c = z" using ec by auto
    then show ?thesis using Cons that by blast
  qed (use cz in simp)
  have L: "free_list ss = xs @ b # c # ys" using l(1) zs by simp
  have pos: "0 < nslots b" "0 < nslots c" "startslot c + nslots c \<le> 2 ^ 62" "0 \<le> startslot b" using I(3) L by simp_all
  have lb: "listblock (?f b) = listblock b" by simp
  have su: "starts_up (xs @ ?f b # c # ys)" using up zs by (simp add: starts_append)
  have sz: "size_ok (nslots (?f b))" using pos eb ec r by (simp add: size_ok_def)
  from resize_ok [where f = ?f, OF I(1) L l(3) lb sz su] obtain s1 where
    s1: "resize_block ss p ?f = Some s1" "tree_inv s1" "free_list s1 = xs @ ?f b # c # ys"
      "\<forall>d q. d \<in> set (xs @ c # ys) \<longrightarrow> block_at (btree_root ss) q d \<longrightarrow> block_at (btree_root s1) q d" by blast
  have bq: "block_at (btree_root s1) q c" using s1(4) [rule_format, OF _ h(3)] by simp
  have L1: "free_list s1 = (xs @ [?f b]) @ c # ys" using s1(3) by simp
  from root_delete_ok [OF s1(2) L1] obtain ss' where
    ss': "root_delete s1 (startslot c) = Some ss'" "tree_inv ss'" "free_list ss' = xs @ ?f b # ys" by auto
  have "sb_load (btree_root s1) q = Some c" by (rule block_at_load [OF _ bq]) (use s1(2) in \<open>simp add: tree_inv_def\<close>)
  moreover have "extent (?f b) = extent b \<union> {a..<a + n} \<union> extent c" using eb ec pos r(2) by auto
  moreover have "separated (xs @ ?f b # ys)" "bounded (xs @ ?f b # ys)" using I(2,3) L eb ec r by (auto simp: add.assoc [symmetric])
  ultimately have "join_ok ss ss' {a..<a + n}" using ss'(2) L unfolding join_ok_def iso_inv_def ss'(3) by auto
  then show ?thesis using s1(1) \<open>sb_load (btree_root s1) q = Some c\<close> ss'(1) by blast
qed

lemma free_ok:
  assumes i: "iso_inv ss" and r: "{a..<a + n} \<inter> free_set ss = {}" "0 < n" "0 \<le> a" "a + n \<le> 2 ^ 62"
  shows "\<exists>ss'. free_slots ss a n = Some ss' \<and> join_ok ss ss' {a..<a + n}"
  using i
proof (cases rule: find_slot_cases [where s = "a - 1"])
  case lo: taken
  show ?thesis using i
  proof (cases rule: find_slot_cases [where s = "a + n"])
    case taken
    then show ?thesis using free_none [OF i r lo(2)] lo(1) by (simp add: free_slots_def)
  next
    case (free p xs b ys)
    then show ?thesis using free_high [OF i r free(2,3,4) lo(2)] lo(1) by (simp add: free_slots_def)
  qed
next
  case lo: (free p xs b ys)
  show ?thesis using i
  proof (cases rule: find_slot_cases [where s = "a + n"])
    case taken
    then show ?thesis using free_low [OF i r lo(2,3,4) taken(2)] lo(1) by (simp add: free_slots_def)
  next
    case (free q us c vs)
    have ld: "sb_load (btree_root ss) q = Some c" by (rule block_at_load [OF _ free(4)]) (use i in \<open>simp add: iso_inv_def tree_inv_def\<close>)
    have "c \<in> set (free_list ss)" using free(2) by simp
    from free_both [OF i r lo(2,3,4) this free(3,4)] show ?thesis using lo(1) free(1) ld by (auto simp: free_slots_def)
  qed
qed

end
