(* ===== verification/Iso_Props.thy ===== *)
theory Iso_Props
  imports Iso_Set
begin

text \<open>
  The contract of slot sets: a new set is well formed, a search for consecutive free slots fails
  only when there are none, allocations never overlap, and freeing undoes an allocation.
\<close>

section \<open>A new set\<close>

lemma bins_single:
  assumes "k < LIST_ARRAY_SIZE"
  shows "bins_ok [d \<mapsto> \<lparr>dprevious = None, dsb = p, dnext = None\<rparr>] ((replicate LIST_ARRAY_SIZE None)[k := Some d]) [d \<mapsto> k]"
proof -
  have "\<exists>xs. dseg [d \<mapsto> \<lparr>dprevious = None, dsb = p, dnext = None\<rparr>] None xs None \<and> (replicate LIST_ARRAY_SIZE None)[k := Some d] ! j = hd_opt xs None
    \<and> distinct xs \<and> set xs = {e. [d \<mapsto> k] e = Some j}" if "j < LIST_ARRAY_SIZE" for j
    by (rule exI [of _ "if j = k then [d] else []"]) (use that in \<open>auto simp: nth_list_update split: if_splits\<close>)
  then show ?thesis using assms by (simp add: bins_ok_def)
qed

lemma new_slotset_ok:
  assumes "0 \<le> s" "0 < n" "s + n \<le> 2 ^ 62"
  shows "\<exists>ss. new_slotset s n = Some ss \<and> iso_inv ss \<and> free_set ss = {s..<s + n}"
proof -
  have z: "size_ok n" using assms by (simp add: size_ok_def)
  let ?D = "[1 \<mapsto> \<lparr>dprevious = None, dsb = (0, 0), dnext = None\<rparr>] :: iso_addr \<Rightarrow> dllnode option"
  let ?b = "\<lparr>startslot = s, nslots = n, listblock = 1\<rparr>"
  let ?ss = "\<lparr>btree_root = BNode 0 [?b] [], list_array = (replicate LIST_ARRAY_SIZE None)[bin_of n := Some 1], dlls = ?D, brk = 2\<rparr>"
  have "new_slotset s n = Some ?ss" using size_ok_bin [OF z] by (simp add: new_slotset_def)
  moreover have "lists_ok ?ss [1 \<mapsto> bin_of n]" using bins_single [OF size_ok_bin(2) [OF z]] by (simp add: lists_ok_def)
  then have "binned ?ss [?b]" unfolding binned_def by (intro exI [of _ "[1 \<mapsto> bin_of n]"]) simp
  moreover have "root_ok (BNode 0 [?b] [])" unfolding root_ok_def by (rule exI [of _ 0]) (simp add: TREE_NODE_SIZE_def)
  moreover have "own (sb_map ?ss) 0 [?b]" by (simp add: own_def sb_map_def)
  ultimately show ?thesis using assms z by (intro exI [of _ ?ss]) (simp add: iso_inv_def tree_inv_def)
qed

section \<open>Searching\<close>

lemma bin_walk_ok:
  assumes "dseg (dlls ss) pr ds None" and "\<And>d. d \<in> set ds \<Longrightarrow> \<exists>b \<in> set (free_list ss). listblock b = d"
    and "backed (sb_map ss) (btree_root ss)" "distinct (addrs (btree_root ss))"
  shows "\<exists>r. bin_walk ss n (hd_opt ds None) = Some r \<and> (case r of
      Some s \<Rightarrow> \<exists>b \<in> set (free_list ss). n \<le> nslots b \<and> s = startslot b
    | None \<Rightarrow> \<forall>b \<in> set (free_list ss). listblock b \<in> set ds \<longrightarrow> nslots b < n)"
  using assms(1,2)
proof (induction ds arbitrary: pr)
  case Nil
  then show ?case by (subst bin_walk.simps) simp
next
  case (Cons d ds)
  obtain x where x: "dlls ss d = Some x" "dnext x = hd_opt ds None" "dseg (dlls ss) (Some d) ds None" using Cons.prems(1) by auto
  obtain b where b: "b \<in> set (free_list ss)" "listblock b = d" using Cons.prems(2) by auto
  obtain p where p: "block_at (btree_root ss) p b" using block_at_ex [OF b(1)] by blast
  have "dsb x = p" using backed_at [OF assms(3) p] x(1) b(2) by (simp add: sb_map_def)
  then have ld: "sb_load (btree_root ss) (dsb x) = Some b" using block_at_load [OF assms(4) p] by simp
  have uniq: "c = b" if "c \<in> set (free_list ss)" "listblock c = d" for c
    using block_at_iff [OF assms(3,4) p that(1)] backed_at [OF assms(3) p] that(2) b(2) by simp
  from Cons.IH [OF x(3)] Cons.prems(2) obtain r where r: "bin_walk ss n (hd_opt ds None) = Some r" "case r of
      Some s \<Rightarrow> \<exists>b \<in> set (free_list ss). n \<le> nslots b \<and> s = startslot b
    | None \<Rightarrow> \<forall>b \<in> set (free_list ss). listblock b \<in> set ds \<longrightarrow> nslots b < n" by auto
  show ?case
  proof (cases "n \<le> nslots b")
    case True
    then show ?thesis using x ld b by (subst bin_walk.simps) auto
  next
    case False
    then have "bin_walk ss n (hd_opt (d # ds) None) = Some r" using x ld r(1) by (subst bin_walk.simps) simp
    then show ?thesis using r(2) False uniq by (auto split: option.splits)
  qed
qed

lemma bins_walk_ok:
  assumes i: "tree_inv ss" and k: "k \<le> LIST_ARRAY_SIZE"
  shows "\<exists>r. bins_walk ss n [k..<LIST_ARRAY_SIZE] = Some r \<and> ((\<exists>b \<in> set (free_list ss). n \<le> nslots b \<and> r = startslot b)
    \<or> r = - 1 \<and> (\<forall>b \<in> set (free_list ss). k \<le> bin_of (nslots b) \<longrightarrow> nslots b < n))"
  using k
proof (induction "LIST_ARRAY_SIZE - k" arbitrary: k)
  case 0
  have "bin_of (nslots b) < LIST_ARRAY_SIZE" if "b \<in> set (free_list ss)" for b using i that size_ok_bin(2) by (auto simp: tree_inv_def)
  then show ?case using 0 by fastforce
next
  case (Suc m)
  then have k: "k < LIST_ARRAY_SIZE" by simp
  obtain B where B: "lists_ok ss B" "dom B = lbs (free_list ss)" "\<forall>b \<in> set (free_list ss). B (listblock b) = Some (bin_of (nslots b))"
    using i by (auto simp: tree_inv_def binned_def)
  have bo: "bins_ok (dlls ss) (list_array ss) B" "length (list_array ss) = LIST_ARRAY_SIZE" using B(1) by (simp_all add: lists_ok_def bins_ok_def)
  obtain ds where ds: "dseg (dlls ss) None ds None" "list_array ss ! k = hd_opt ds None" "set ds = {d. B d = Some k}" by (rule bins_list [OF bo(1) k])
  have "\<exists>b \<in> set (free_list ss). listblock b = d" if "d \<in> set ds" for d
  proof -
    have "d \<in> dom B" using that ds(3) by auto
    then show ?thesis unfolding B(2) by auto
  qed
  from bin_walk_ok [OF ds(1) this] i obtain r where r: "bin_walk ss n (hd_opt ds None) = Some r" "case r of
      Some s \<Rightarrow> \<exists>b \<in> set (free_list ss). n \<le> nslots b \<and> s = startslot b
    | None \<Rightarrow> \<forall>b \<in> set (free_list ss). listblock b \<in> set ds \<longrightarrow> nslots b < n" unfolding tree_inv_def by blast
  have g: "arr_get (list_array ss) (int k) = Some (hd_opt ds None)" using k bo(2) ds(2) by (simp add: arr_get_def)
  have up: "[k..<LIST_ARRAY_SIZE] = k # [Suc k..<LIST_ARRAY_SIZE]" using k by (simp add: upt_conv_Cons)
  show ?case
  proof (cases r)
    case (Some s)
    then show ?thesis using g r up by auto
  next
    case None
    have here: "nslots b < n" if "b \<in> set (free_list ss)" "bin_of (nslots b) = k" for b using r(2) None that B(3) ds(3) by auto
    have "m = LIST_ARRAY_SIZE - Suc k" "Suc k \<le> LIST_ARRAY_SIZE" using Suc.hyps(2) k by auto
    from Suc.hyps(1) [OF this] obtain q where q: "bins_walk ss n [Suc k..<LIST_ARRAY_SIZE] = Some q" "(\<exists>b \<in> set (free_list ss). n \<le> nslots b \<and> q = startslot b)
      \<or> q = - 1 \<and> (\<forall>b \<in> set (free_list ss). Suc k \<le> bin_of (nslots b) \<longrightarrow> nslots b < n)" by blast
    have "bins_walk ss n [k..<LIST_ARRAY_SIZE] = Some q" using g r(1) None q(1) up by simp
    moreover have "nslots b < n" if "b \<in> set (free_list ss)" "k \<le> bin_of (nslots b)" "\<forall>b \<in> set (free_list ss). Suc k \<le> bin_of (nslots b) \<longrightarrow> nslots b < n" for b
      using that here [OF that(1)] by (cases "bin_of (nslots b) = k") auto
    ultimately show ?thesis using q(2) by blast
  qed
qed

lemma get_slots_ok:
  assumes i: "iso_inv ss" and n: "0 < n" "n \<le> 2 ^ 62"
  shows "\<exists>r. get_slots ss n = Some r \<and> (r \<noteq> - 1 \<and> {r..<r + n} \<subseteq> free_set ss \<or> r = - 1 \<and> (\<nexists>a. {a..<a + n} \<subseteq> free_set ss))"
proof -
  have t: "tree_inv ss" "separated (free_list ss)" "bounded (free_list ss)" using i by (simp_all add: iso_inv_def)
  have z: "size_ok n" using n by (simp add: size_ok_def)
  from bins_walk_ok [OF t(1) less_imp_le [OF size_ok_bin(2) [OF z]], of n] obtain r where r: "get_slots ss n = Some r"
    "(\<exists>b \<in> set (free_list ss). n \<le> nslots b \<and> r = startslot b) \<or> r = - 1 \<and> (\<forall>b \<in> set (free_list ss). bin_of n \<le> bin_of (nslots b) \<longrightarrow> nslots b < n)"
    using size_ok_bin(1) [OF z] by (auto simp: get_slots_def)
  show ?thesis
  proof (cases "\<exists>b \<in> set (free_list ss). n \<le> nslots b \<and> r = startslot b")
    case True
    then obtain b where b: "b \<in> set (free_list ss)" "n \<le> nslots b" "r = startslot b" by blast
    have "0 \<le> startslot b" using t(3) b(1) by (simp add: bounded_def)
    moreover have "{r..<r + n} \<subseteq> extent b" using b by simp
    moreover have "extent b \<subseteq> free_set ss" using b(1) unfolding slots_of_def by blast
    ultimately have "r \<noteq> - 1 \<and> {r..<r + n} \<subseteq> free_set ss" using b(3) by (metis neg_0_le_iff_le not_one_le_zero order_trans)
    then show ?thesis using r(1) by blast
  next
    case False
    then have r1: "r = - 1" "\<forall>b \<in> set (free_list ss). bin_of n \<le> bin_of (nslots b) \<longrightarrow> nslots b < n" using r(2) by blast+
    have small: "nslots b < n" if "b \<in> set (free_list ss)" for b using r1(2) that bin_of_mono [of n "nslots b"] by (cases "nslots b < n") auto
    have no: False if a: "{a..<a + n} \<subseteq> free_set ss" for a
    proof -
      have "a \<in> free_set ss" using a n by auto
      then obtain b where b: "b \<in> set (free_list ss)" "a \<in> extent b" by (auto simp: slots_of_def)
      obtain xs ys where "free_list ss = xs @ b # ys" using split_list [OF b(1)] by blast
      with range_in_block [of xs b ys a n] t a b(2) have "a + n \<le> startslot b + nslots b" by simp
      then show False using small [OF b(1)] b(2) by simp
    qed
    then show ?thesis using r(1) r1(1) by blast
  qed
qed

section \<open>The blocks are determined by the set\<close>

abbreviation extents :: "slotset \<Rightarrow> (int \<times> int) list" where
  "extents ss \<equiv> map (\<lambda>b. (startslot b, nslots b)) (free_list ss)"

lemma first_least: "separated (y # ys) \<Longrightarrow> bounded (y # ys) \<Longrightarrow> s \<in> slots_of (y # ys) \<Longrightarrow> startslot y \<le> s"
  using span_apart(2) [of "[]" y ys] by fastforce

lemma extents_unique:
  assumes "separated xs" "bounded xs" "separated ys" "bounded ys" "slots_of xs = slots_of ys"
  shows "map (\<lambda>b. (startslot b, nslots b)) xs = map (\<lambda>b. (startslot b, nslots b)) ys"
  using assms
proof (induction xs arbitrary: ys)
  case Nil
  then show ?case by (cases ys) auto
next
  case (Cons x xs)
  obtain y ys' where ys: "ys = y # ys'" using Cons.prems by (cases ys) auto
  note X = Cons.prems(1,2) and Y = Cons.prems(3,4) [unfolded ys] and E = Cons.prems(5) [unfolded ys]
  have px: "0 < nslots x" "0 < nslots y" using X(2) Y(2) by simp_all
  have "startslot x \<in> slots_of (y # ys')" "startslot y \<in> slots_of (x # xs)" unfolding E [symmetric] using px E by auto
  then have st: "startslot x = startslot y" using first_least [OF X] first_least [OF Y] by (simp only: order.antisym)
  have "startslot x + nslots x \<notin> slots_of (y # ys')" "startslot y + nslots y \<notin> slots_of (x # xs)"
    using span_apart(4) [of "[]" x xs] span_apart(4) [of "[]" y ys'] X Y unfolding E append_Nil by blast+
  then have "\<not> nslots x < nslots y" "\<not> nslots y < nslots x" using st px by auto
  then have nn: "nslots x = nslots y" by simp
  have "slots_of xs = slots_of (x # xs) - extent x" "slots_of ys' = slots_of (y # ys') - extent y"
    using span_apart(2) [of "[]" x xs] span_apart(2) [of "[]" y ys'] X Y by fastforce+
  then have "slots_of xs = slots_of ys'" using E st nn by simp
  then show ?case using Cons.IH [of ys'] X Y st nn ys by simp
qed

section \<open>Clients\<close>

text \<open>A client takes runs of slots that the search offers, and gives back runs that it holds.\<close>

inductive slot_run :: "int \<Rightarrow> int \<Rightarrow> slotset \<Rightarrow> (int \<times> int) list \<Rightarrow> bool" for s n where
  new: "new_slotset s n = Some ss \<Longrightarrow> slot_run s n ss []"
| take: "slot_run s n ss rs \<Longrightarrow> 0 < m \<Longrightarrow> m \<le> 2 ^ 62 \<Longrightarrow> get_slots ss m = Some a \<Longrightarrow> a \<noteq> - 1 \<Longrightarrow> grab_slots ss a m = Some (Inr ss')
    \<Longrightarrow> slot_run s n ss' ((a, m) # rs)"
| give: "slot_run s n ss (xs @ (a, m) # ys) \<Longrightarrow> free_slots ss a m = Some ss' \<Longrightarrow> slot_run s n ss' (xs @ ys)"

definition held :: "(int \<times> int) list \<Rightarrow> int set" where
  "held rs = (\<Union>(a, m) \<in> set rs. {a..<a + m})"

fun no_overlap :: "(int \<times> int) list \<Rightarrow> bool" where
  "no_overlap [] = True"
| "no_overlap ((a, m) # rs) \<longleftrightarrow> 0 < m \<and> {a..<a + m} \<inter> held rs = {} \<and> no_overlap rs"

lemma held_simps [simp]: "held [] = {}" "held ((a, m) # rs) = {a..<a + m} \<union> held rs" "held (xs @ ys) = held xs \<union> held ys"
  by (auto simp: held_def)

lemma no_overlap_middle:
  "no_overlap (xs @ (a, m) # ys) \<Longrightarrow> no_overlap (xs @ ys) \<and> 0 < m \<and> {a..<a + m} \<inter> held (xs @ ys) = {}"
  by (induction xs rule: no_overlap.induct) auto

lemma slot_run_inv:
  assumes "slot_run s n ss rs" "0 \<le> s" "0 < n" "s + n \<le> 2 ^ 62"
  shows "iso_inv ss \<and> no_overlap rs \<and> free_set ss \<inter> held rs = {} \<and> free_set ss \<union> held rs = {s..<s + n}"
  using assms(1)
proof induction
  case (new ss)
  then show ?case using new_slotset_ok [OF assms(2-4)] by auto
next
  case (take ss rs m a ss')
  from get_slots_ok [of ss m] take have "{a..<a + m} \<subseteq> free_set ss" by auto
  with grab_ok [of ss m a] take have "iso_inv ss'" "free_set ss' = free_set ss - {a..<a + m}" by (auto simp: cut_ok_def)
  then show ?case using take \<open>{a..<a + m} \<subseteq> free_set ss\<close> by auto
next
  case (give ss xs a m ys ss')
  note o = no_overlap_middle [of xs a m ys]
  have h: "held (xs @ (a, m) # ys) = {a..<a + m} \<union> held (xs @ ys)" by auto
  have d: "{a..<a + m} \<inter> free_set ss = {}" "{a..<a + m} \<subseteq> {s..<s + n}" "0 < m" using give.IH o unfolding h by blast+
  have "a \<in> {s..<s + n}" "a + m - 1 \<in> {s..<s + n}" using d(2,3) by auto
  then have "0 \<le> a" "a + m \<le> 2 ^ 62" using assms(2-4) by auto
  with free_ok [of ss a m] give d have "iso_inv ss'" "free_set ss' = free_set ss \<union> {a..<a + m}" by (auto simp: join_ok_def)
  then show ?case using give.IH o unfolding h by blast
qed

text \<open>A run: of eight slots, three and then two are taken and the three are given back.\<close>

definition demo0 :: slotset where "demo0 = the (new_slotset 0 8)"
definition demo1 :: slotset where "demo1 = projr (the (grab_slots demo0 0 3))"
definition demo2 :: slotset where "demo2 = projr (the (grab_slots demo1 3 2))"
definition demo3 :: slotset where "demo3 = the (free_slots demo2 0 3)"

lemma the_some: "\<not> Option.is_none x \<Longrightarrow> x = Some (the x)"
  by (cases x) auto

lemma the_inr: "\<not> Option.is_none x \<Longrightarrow> \<not> isl (the x) \<Longrightarrow> x = Some (Inr (projr (the x)))"
  by (cases x) auto

lemma demo_run: "slot_run 0 8 demo3 [(3, 2)]"
proof -
  have "\<not> Option.is_none (new_slotset 0 8)" by code_simp
  then have r0: "slot_run 0 8 demo0 []" unfolding demo0_def by (intro slot_run.new the_some)
  have g0: "get_slots demo0 3 = Some 0" by code_simp
  have "\<not> Option.is_none (grab_slots demo0 0 3)" "\<not> isl (the (grab_slots demo0 0 3))" by code_simp+
  then have "grab_slots demo0 0 3 = Some (Inr demo1)" unfolding demo1_def by (rule the_inr)
  from slot_run.take [OF r0 _ _ g0 _ this] have r1: "slot_run 0 8 demo1 [(0, 3)]" by simp
  have g1: "get_slots demo1 2 = Some 3" by code_simp
  have "\<not> Option.is_none (grab_slots demo1 3 2)" "\<not> isl (the (grab_slots demo1 3 2))" by code_simp+
  then have "grab_slots demo1 3 2 = Some (Inr demo2)" unfolding demo2_def by (rule the_inr)
  from slot_run.take [OF r1 _ _ g1 _ this] have r2: "slot_run 0 8 demo2 ([(3, 2)] @ (0, 3) # [])" by simp
  have "\<not> Option.is_none (free_slots demo2 0 3)" by code_simp
  then have "free_slots demo2 0 3 = Some demo3" unfolding demo3_def by (rule the_some)
  from slot_run.give [OF r2 this] show ?thesis by simp
qed

lemma demo3_extents: "extents demo3 = [(0, 3), (5, 3)]"
  by code_simp

lemma demo3_free: "free_set demo3 = {0..<3} \<union> {5..<8}"
proof -
  obtain b c where "free_list demo3 = [b, c]" "startslot b = 0" "nslots b = 3" "startslot c = 5" "nslots c = 3"
    using demo3_extents by (auto simp: map_eq_Cons_conv)
  then show ?thesis by simp
qed

section \<open>Properties\<close>

lemmas iso_effects = cut_ok_def join_ok_def

text \<open>
  C7. Slot allocation is safe. Whatever a client takes with \<open>get_slots\<close> and \<open>grab_slots\<close> and gives back
  with \<open>free_slots\<close>, in any order, the runs of slots it holds never overlap, none of their slots
  counts as free, and the free slots together with the held ones are the slots the set started with.
\<close>

theorem iso_no_overlap:
  assumes "0 \<le> s" "0 < n" "s + n \<le> 2 ^ 62" "slot_run s n ss rs"
  shows "no_overlap rs \<and> free_set ss \<inter> held rs = {} \<and> free_set ss \<union> held rs = {s..<s + n}"
  using slot_run_inv [OF assms(4,1-3)] by blast

theorem iso_no_overlap_witness: "slot_run 0 8 demo3 [(3, 2)] \<and> no_overlap [(3, 2)] \<and> free_set demo3 \<inter> {3..<5} = {} \<and> free_set demo3 \<union> {3..<5} = {0..<8}"
  using iso_no_overlap [of 0 8 demo3 "[(3, 2)]"] demo_run by simp

text \<open>
  C8. A request succeeds whenever it can: in every state that a client reaches, if some \<open>m\<close> consecutive
  slots are free then \<open>get_slots\<close> returns the start of such a run and \<open>grab_slots\<close> takes it, and
  otherwise \<open>get_slots\<close> returns -1.
\<close>

theorem iso_alloc_complete:
  assumes "0 \<le> s" "0 < n" "s + n \<le> 2 ^ 62" "slot_run s n ss rs" "0 < m" "m \<le> 2 ^ 62"
  shows "if \<exists>a. {a..<a + m} \<subseteq> free_set ss
    then \<exists>a ss'. get_slots ss m = Some a \<and> a \<noteq> - 1 \<and> {a..<a + m} \<subseteq> free_set ss \<and> grab_slots ss a m = Some (Inr ss')
      \<and> slot_run s n ss' ((a, m) # rs)
    else get_slots ss m = Some (- 1)"
proof -
  have i: "iso_inv ss" using slot_run_inv [OF assms(4,1-3)] by blast
  from get_slots_ok [OF i assms(5,6)] obtain r where r: "get_slots ss m = Some r"
    "r \<noteq> - 1 \<and> {r..<r + m} \<subseteq> free_set ss \<or> r = - 1 \<and> (\<nexists>a. {a..<a + m} \<subseteq> free_set ss)" by blast
  then show ?thesis using grab_ok [OF i assms(5), of r] slot_run.take [OF assms(4-6) r(1)] by fastforce
qed

theorem iso_alloc_complete_witness: "\<exists>a ss'. get_slots demo3 3 = Some a \<and> a \<noteq> - 1 \<and> grab_slots demo3 a 3 = Some (Inr ss')"
proof -
  have "{5..<5 + 3} \<subseteq> free_set demo3" by (subst demo3_free) auto
  then have "\<exists>a. {a..<a + 3} \<subseteq> free_set demo3" by (rule exI)
  then show ?thesis using iso_alloc_complete [OF _ _ _ demo_run, of 3] by auto
qed

text \<open>
  C9. Freeing undoes taking: after \<open>grab_slots\<close> takes free slots and \<open>free_slots\<close> returns them, the tree
  holds the same free blocks as before, coalesced with their neighbours again.
\<close>

theorem iso_grab_free:
  assumes "iso_inv ss" "0 < n" "{a..<a + n} \<subseteq> free_set ss"
  shows "\<exists>ss1 ss2. grab_slots ss a n = Some (Inr ss1) \<and> free_slots ss1 a n = Some ss2 \<and> iso_inv ss2 \<and> extents ss2 = extents ss"
proof -
  from grab_ok [OF assms] obtain ss1 where s1: "grab_slots ss a n = Some (Inr ss1)" "iso_inv ss1" "free_set ss1 = free_set ss - {a..<a + n}"
    by (auto simp: iso_effects)
  have b: "free_set ss \<subseteq> {0..<2 ^ 62}" using assms(1) by (auto simp: iso_inv_def bounded_def slots_of_def)
  have "a \<in> {a..<a + n}" "a + n - 1 \<in> {a..<a + n}" using assms(2) by simp_all
  then have "0 \<le> a" "a + n \<le> 2 ^ 62" using b assms(3) by (meson atLeastLessThan_iff subsetD, fastforce)
  moreover have "{a..<a + n} \<inter> free_set ss1 = {}" using s1(3) by blast
  ultimately obtain ss2 where s2: "free_slots ss1 a n = Some ss2" "iso_inv ss2" "free_set ss2 = free_set ss1 \<union> {a..<a + n}"
    using free_ok [OF s1(2) _ assms(2)] unfolding join_ok_def by blast
  have "free_set ss2 = free_set ss" using s2(3) s1(3) assms(3) by blast
  then have "extents ss2 = extents ss" using extents_unique s2(2) assms(1) by (simp add: iso_inv_def)
  then show ?thesis using s1(1) s2(1,2) by blast
qed

theorem iso_grab_free_witness: "\<exists>ss1 ss2. grab_slots demo3 6 1 = Some (Inr ss1) \<and> free_slots ss1 6 1 = Some ss2 \<and> extents ss2 = [(0, 3), (5, 3)]"
proof -
  have "iso_inv demo3" using slot_run_inv [OF demo_run] by simp
  moreover have "{6..<6 + 1} \<subseteq> free_set demo3" by (subst demo3_free) auto
  ultimately show ?thesis using iso_grab_free [of demo3 1 6] by (subst (asm) demo3_extents) auto
qed

text \<open>
  C10. The type invariant of slot sets -- a balanced tree whose blocks are in order, apart and in
  range, with one list node per block in the list of its size -- holds for a new set, and taking or
  returning slots preserves it and changes the free slots by exactly the given run.
\<close>

theorem iso_slotset_type:
  "(\<forall>s n. 0 \<le> s \<longrightarrow> 0 < n \<longrightarrow> s + n \<le> 2 ^ 62 \<longrightarrow> (\<exists>ss. new_slotset s n = Some ss \<and> iso_inv ss \<and> free_set ss = {s..<s + n}))
    \<and> (\<forall>ss a n. iso_inv ss \<longrightarrow> 0 < n \<longrightarrow> {a..<a + n} \<subseteq> free_set ss \<longrightarrow>
          (\<exists>ss'. grab_slots ss a n = Some (Inr ss') \<and> iso_inv ss' \<and> free_set ss' = free_set ss - {a..<a + n}))
    \<and> (\<forall>ss a n. iso_inv ss \<longrightarrow> 0 < n \<longrightarrow> 0 \<le> a \<longrightarrow> a + n \<le> 2 ^ 62 \<longrightarrow> {a..<a + n} \<inter> free_set ss = {} \<longrightarrow>
          (\<exists>ss'. free_slots ss a n = Some ss' \<and> iso_inv ss' \<and> free_set ss' = free_set ss \<union> {a..<a + n}))"
  using new_slotset_ok grab_ok free_ok unfolding iso_effects by blast

theorem iso_slotset_type_witness:
  "\<exists>ss ss1 ss2. new_slotset 0 8 = Some ss \<and> grab_slots ss 2 3 = Some (Inr ss1) \<and> free_slots ss1 2 3 = Some ss2 \<and> iso_inv ss2 \<and> free_set ss2 = {0..<8}"
proof -
  note type = iso_slotset_type
  from type [THEN conjunct1, rule_format, of 0 8] obtain ss where 0: "new_slotset 0 8 = Some ss" "iso_inv ss" "free_set ss = {0..<8}" by auto
  have "{2..<2 + 3} \<subseteq> free_set ss" unfolding 0(3) by auto
  from type [THEN conjunct2, THEN conjunct1, rule_format, OF 0(2) _ this] obtain ss1 where
    1: "grab_slots ss 2 3 = Some (Inr ss1)" "iso_inv ss1" "free_set ss1 = free_set ss - {2..<2 + 3}" by auto
  have "{2..<2 + 3} \<inter> free_set ss1 = {}" unfolding 1(3) by auto
  from type [THEN conjunct2, THEN conjunct2, rule_format, OF 1(2) _ _ _ this] obtain ss2 where
    2: "free_slots ss1 2 3 = Some ss2" "iso_inv ss2" "free_set ss2 = free_set ss1 \<union> {2..<2 + 3}" by auto
  have "free_set ss2 = {0..<8}" unfolding 2(3) 1(3) 0(3) by auto
  then show ?thesis using 0(1) 1(1) 2(1,2) by blast
qed

text \<open>
  C38. The search for the bin of a size ends for every size from 1 to 2 to the 62 and gives the bin
  \<open>b\<close> with \<open>2^(b-1) < n \<le> 2^b\<close> that the comment describes; for a size that is not positive the loop
  never ends.
\<close>

theorem iso_bin_terminates:
  "(0 < n \<and> n \<le> 2 ^ 62 \<longrightarrow> (\<exists>b < LIST_ARRAY_SIZE. find_list_bin n = Some b \<and> n \<le> 2 ^ b \<and> (0 < b \<longrightarrow> 2 ^ (b - 1) < n)))
    \<and> (n \<le> 0 \<longrightarrow> find_list_bin n = None)"
proof -
  have "2 ^ (bin_of n - 1) < n" if "0 < bin_of n" using bin_of_greater [of "bin_of n - 1" n] that by simp
  then show ?thesis
    by (intro conjI impI exI [of _ "bin_of n"]) (simp_all add: find_list_bin_ok bin_of_bound bin_of_le find_list_bin_stuck)
qed

theorem iso_bin_terminates_witness: "find_list_bin 5 = Some 3 \<and> find_list_bin 0 = None"
proof -
  obtain b where b: "find_list_bin 5 = Some b" "b < LIST_ARRAY_SIZE" using iso_bin_terminates [of 5] by auto
  moreover have "find_list_bin 5 = Some 3" by code_simp
  ultimately show ?thesis using iso_bin_terminates [of 0] by simp
qed

text \<open>
  C39. \<open>grab_slots\<close> checks only the first slot: asked for more slots than the free block at that place
  has, it does not report the error but subtracts past zero and loops in \<open>find_list_bin\<close> forever.
\<close>

theorem iso_grab_unchecked:
  assumes "iso_inv ss" "b \<in> set (free_list ss)" "nslots b < n"
  shows "grab_slots ss (startslot b) n = None"
proof -
  have t: "distinct (addrs (btree_root ss))" "backed (sb_map ss) (btree_root ss)" "disjoint_up (free_list ss)"
    using assms(1) separated_up by (simp_all add: iso_inv_def tree_inv_def)
  have z: "size_ok (nslots b)" "0 < nslots b" using assms(1,2) bounded_size by (auto simp: iso_inv_def bounded_def)
  from assms(1) obtain p where p: "find_btree_slotblock (btree_root ss) (startslot b) = Some (Some p)" "block_at (btree_root ss) p b"
  proof (cases rule: find_slot_cases [where s = "startslot b"])
    case (free p xs c ys)
    have "c = b"
    proof (rule ccontr)
      assume "c \<noteq> b"
      then have "b \<in> set xs \<or> b \<in> set ys" using assms(2) free(2) by auto
      then show False using span_apart(1,2) [of xs c ys] assms(1) free(2,3) z(2) by (auto simp: iso_inv_def)
    qed
    then show ?thesis using free that by blast
  next
    case taken
    then show ?thesis using assms(2) z(2) by (auto simp: slots_of_def)
  qed
  let ?b = "b\<lparr>startslot := startslot b + n, nslots := nslots b - n\<rparr>"
  let ?t = "sb_store (btree_root ss) p ?b"
  have ld: "sb_load (btree_root ss) p = Some b" by (rule block_at_load [OF t(1) p(2)])
  have m: "sb_map ss (listblock b) = Some p" by (rule backed_at [OF t(2) p(2)])
  have bk: "backed (sb_map ss) ?t" by (rule store_backed [OF t(2)]) (simp add: m)
  have "?b \<in> set (inorder ?t)" unfolding store_inorder [OF t(2)] using assms(2) m by auto
  then obtain q where q: "block_at ?t q ?b" using block_at_ex by blast
  then have "q = p" using backed_at [OF bk q] m by simp
  then have "sb_load ?t p = Some ?b" using block_at_load [OF _ q] t(1) by (simp add: store_addrs)
  moreover obtain x where "dlls ss (listblock b) = Some x" "dsb x = p" using m by (auto simp: sb_map_def)
  ultimately have "list_move (ss\<lparr>btree_root := ?t\<rparr>) (listblock b) (nslots b) = None"
    using size_ok_bin(1) [OF z(1)] find_list_bin_stuck [of "nslots b - n"] assms(3) by (simp add: list_move_def)
  then show ?thesis using p(1) ld assms(3) by (simp add: grab_slots_def resize_block_def)
qed

theorem iso_grab_unchecked_witness: "grab_slots demo3 0 4 = None"
proof -
  have "iso_inv demo3" using slot_run_inv [OF demo_run] by simp
  moreover obtain b bs where "free_list demo3 = b # bs" "startslot b = 0" "nslots b = 3" using demo3_extents by (auto simp: map_eq_Cons_conv)
  ultimately show ?thesis using iso_grab_unchecked [of demo3 b 4] by simp
qed

end
