(* ===== verification/Crc32.thy ===== *)
theory Crc32
  imports Charm_Prelude
begin

unbundle bit_operations_syntax

text \<open>
  The checksums of \<open>util/crc32.c\<close>. Data is the list of its bytes. The table driven CRC is proved
  equal to polynomial division bit by bit, and a change of one byte is proved to change the CRC.
\<close>

type_synonym byte = "8 word"

definition QUOTIENT :: u32 where
  "QUOTIENT = 0x04c11db7"

definition crctab :: "u32 list" where
  "crctab = [
    0x00000000, 0x04c11db7, 0x09823b6e, 0x0d4326d9, 0x130476dc, 0x17c56b6b, 0x1a864db2, 0x1e475005,
    0x2608edb8, 0x22c9f00f, 0x2f8ad6d6, 0x2b4bcb61, 0x350c9b64, 0x31cd86d3, 0x3c8ea00a, 0x384fbdbd,
    0x4c11db70, 0x48d0c6c7, 0x4593e01e, 0x4152fda9, 0x5f15adac, 0x5bd4b01b, 0x569796c2, 0x52568b75,
    0x6a1936c8, 0x6ed82b7f, 0x639b0da6, 0x675a1011, 0x791d4014, 0x7ddc5da3, 0x709f7b7a, 0x745e66cd,
    0x9823b6e0, 0x9ce2ab57, 0x91a18d8e, 0x95609039, 0x8b27c03c, 0x8fe6dd8b, 0x82a5fb52, 0x8664e6e5,
    0xbe2b5b58, 0xbaea46ef, 0xb7a96036, 0xb3687d81, 0xad2f2d84, 0xa9ee3033, 0xa4ad16ea, 0xa06c0b5d,
    0xd4326d90, 0xd0f37027, 0xddb056fe, 0xd9714b49, 0xc7361b4c, 0xc3f706fb, 0xceb42022, 0xca753d95,
    0xf23a8028, 0xf6fb9d9f, 0xfbb8bb46, 0xff79a6f1, 0xe13ef6f4, 0xe5ffeb43, 0xe8bccd9a, 0xec7dd02d,
    0x34867077, 0x30476dc0, 0x3d044b19, 0x39c556ae, 0x278206ab, 0x23431b1c, 0x2e003dc5, 0x2ac12072,
    0x128e9dcf, 0x164f8078, 0x1b0ca6a1, 0x1fcdbb16, 0x018aeb13, 0x054bf6a4, 0x0808d07d, 0x0cc9cdca,
    0x7897ab07, 0x7c56b6b0, 0x71159069, 0x75d48dde, 0x6b93dddb, 0x6f52c06c, 0x6211e6b5, 0x66d0fb02,
    0x5e9f46bf, 0x5a5e5b08, 0x571d7dd1, 0x53dc6066, 0x4d9b3063, 0x495a2dd4, 0x44190b0d, 0x40d816ba,
    0xaca5c697, 0xa864db20, 0xa527fdf9, 0xa1e6e04e, 0xbfa1b04b, 0xbb60adfc, 0xb6238b25, 0xb2e29692,
    0x8aad2b2f, 0x8e6c3698, 0x832f1041, 0x87ee0df6, 0x99a95df3, 0x9d684044, 0x902b669d, 0x94ea7b2a,
    0xe0b41de7, 0xe4750050, 0xe9362689, 0xedf73b3e, 0xf3b06b3b, 0xf771768c, 0xfa325055, 0xfef34de2,
    0xc6bcf05f, 0xc27dede8, 0xcf3ecb31, 0xcbffd686, 0xd5b88683, 0xd1799b34, 0xdc3abded, 0xd8fba05a,
    0x690ce0ee, 0x6dcdfd59, 0x608edb80, 0x644fc637, 0x7a089632, 0x7ec98b85, 0x738aad5c, 0x774bb0eb,
    0x4f040d56, 0x4bc510e1, 0x46863638, 0x42472b8f, 0x5c007b8a, 0x58c1663d, 0x558240e4, 0x51435d53,
    0x251d3b9e, 0x21dc2629, 0x2c9f00f0, 0x285e1d47, 0x36194d42, 0x32d850f5, 0x3f9b762c, 0x3b5a6b9b,
    0x0315d626, 0x07d4cb91, 0x0a97ed48, 0x0e56f0ff, 0x1011a0fa, 0x14d0bd4d, 0x19939b94, 0x1d528623,
    0xf12f560e, 0xf5ee4bb9, 0xf8ad6d60, 0xfc6c70d7, 0xe22b20d2, 0xe6ea3d65, 0xeba91bbc, 0xef68060b,
    0xd727bbb6, 0xd3e6a601, 0xdea580d8, 0xda649d6f, 0xc423cd6a, 0xc0e2d0dd, 0xcda1f604, 0xc960ebb3,
    0xbd3e8d7e, 0xb9ff90c9, 0xb4bcb610, 0xb07daba7, 0xae3afba2, 0xaafbe615, 0xa7b8c0cc, 0xa379dd7b,
    0x9b3660c6, 0x9ff77d71, 0x92b45ba8, 0x9675461f, 0x8832161a, 0x8cf30bad, 0x81b02d74, 0x857130c3,
    0x5d8a9099, 0x594b8d2e, 0x5408abf7, 0x50c9b640, 0x4e8ee645, 0x4a4ffbf2, 0x470cdd2b, 0x43cdc09c,
    0x7b827d21, 0x7f436096, 0x7200464f, 0x76c15bf8, 0x68860bfd, 0x6c47164a, 0x61043093, 0x65c52d24,
    0x119b4be9, 0x155a565e, 0x18197087, 0x1cd86d30, 0x029f3d35, 0x065e2082, 0x0b1d065b, 0x0fdc1bec,
    0x3793a651, 0x3352bbe6, 0x3e119d3f, 0x3ad08088, 0x2497d08d, 0x2056cd3a, 0x2d15ebe3, 0x29d4f654,
    0xc5a92679, 0xc1683bce, 0xcc2b1d17, 0xc8ea00a0, 0xd6ad50a5, 0xd26c4d12, 0xdf2f6bcb, 0xdbee767c,
    0xe3a1cbc1, 0xe760d676, 0xea23f0af, 0xeee2ed18, 0xf0a5bd1d, 0xf464a0aa, 0xf9278673, 0xfde69bc4,
    0x89b8fd09, 0x8d79e0be, 0x803ac667, 0x84fbdbd0, 0x9abc8bd5, 0x9e7d9662, 0x933eb0bb, 0x97ffad0c,
    0xafb010b1, 0xab710d06, 0xa6322bdf, 0xa2f33668, 0xbcb4666d, 0xb8757bda, 0xb5365d03, 0xb1f740b4]"

definition crc_step :: "u32 \<Rightarrow> byte \<Rightarrow> u32" where
  "crc_step result b = (push_bit 8 result OR ucast b) XOR crctab ! unat (drop_bit 24 result)"

text \<open>Fewer than four bytes are returned as they are; the cases of the switch fall through.\<close>

definition crc32_initial :: "byte list \<Rightarrow> u32" where
  "crc32_initial data =
    (case data of
       b0 # b1 # b2 # b3 # rest \<Rightarrow>
         let result = push_bit 24 (ucast b0);
             result = result OR push_bit 16 (ucast b1);
             result = result OR push_bit 8 (ucast b2);
             result = result OR ucast b3;
             result = NOT result
         in NOT (foldl crc_step result rest)
     | _ \<Rightarrow> foldl (\<lambda>result b. push_bit 8 result OR ucast b) 0 data)"

definition crc32_update :: "byte list \<Rightarrow> u32 \<Rightarrow> u32" where
  "crc32_update data previous = NOT (foldl crc_step (NOT previous) data)"

text \<open>
  The other checksum reads the data as words; \<open>mem\<close> is the memory from the start of the data to the
  end of its buffer, and a load that crosses this end is \<open>None\<close>. The mask keeps the bytes of the
  last, incomplete word. \<open>le\<close> is the byte order of the machine.
\<close>

definition load_word :: "bool \<Rightarrow> byte list \<Rightarrow> nat \<Rightarrow> u32 option" where
  "load_word le mem i =
    (case drop i mem of
       b0 # b1 # b2 # b3 # _ \<Rightarrow>
         Some (foldl (\<lambda>w b. push_bit 8 w OR ucast b) 0 (if le then [b3, b2, b1, b0] else [b0, b1, b2, b3]))
     | _ \<Rightarrow> None)"

definition checksum_array :: "byte list" where
  "checksum_array = [0xFF, 0xFF, 0xFF, 0, 0, 0, 0]"

fun checksum_words :: "bool \<Rightarrow> byte list \<Rightarrow> nat \<Rightarrow> nat \<Rightarrow> u32 \<Rightarrow> u32 option" where
  "checksum_words le mem i 0 result = Some result"
| "checksum_words le mem i (Suc n) result =
    (case load_word le mem i of None \<Rightarrow> None | Some w \<Rightarrow> checksum_words le mem (i + 4) n (result XOR w))"

definition checksum_update :: "bool \<Rightarrow> byte list \<Rightarrow> nat \<Rightarrow> u32 \<Rightarrow> u32 option" where
  "checksum_update le mem len previous =
    (let n = len div 4 in
     case checksum_words le mem 0 n previous of
       None \<Rightarrow> None
     | Some result \<Rightarrow>
         (case (load_word le mem (4 * n), load_word le checksum_array (3 - len mod 4)) of
            (Some w, Some m) \<Rightarrow> Some (result XOR (w AND m))
          | _ \<Rightarrow> None))"

definition checksum_initial :: "bool \<Rightarrow> byte list \<Rightarrow> nat \<Rightarrow> u32 option" where
  "checksum_initial le mem len = checksum_update le mem len 0"

section \<open>Division bit by bit\<close>

definition crc_bit :: "u32 \<Rightarrow> bool \<Rightarrow> u32" where
  "crc_bit r b = (push_bit 1 r OR of_bool b) XOR (if bit r 31 then QUOTIENT else 0)"

definition bits_of :: "byte \<Rightarrow> bool list" where
  "bits_of b = map (bit b) [7, 6, 5, 4, 3, 2, 1, 0]"

definition shift_bit :: "u32 \<Rightarrow> bool \<Rightarrow> u32" where
  "shift_bit r b = push_bit 1 r OR of_bool b"

lemma bit_shift: "bit (shift_bit r b) n \<longleftrightarrow> n < 32 \<and> (if n = 0 then b else bit r (n - 1))"
  unfolding shift_bit_def by (simp only: bit_or_iff bit_push_bit_iff bit_of_bool_iff) auto

lemma crc_bit_shift: "crc_bit r b = shift_bit r b XOR (if bit r 31 then QUOTIENT else 0)"
  by (simp only: crc_bit_def shift_bit_def)

lemma bit_crc: "n < 32 \<Longrightarrow> bit (crc_bit r b) n \<longleftrightarrow> (if n = 0 then b else bit r (n - 1)) \<noteq> (bit r 31 \<and> bit QUOTIENT n)"
  by (auto simp: crc_bit_shift bit_shift bit_xor_iff)

lemma crc_bit_linear: "crc_bit (x XOR y) (p \<noteq> q) = crc_bit x p XOR crc_bit y q"
  by (rule bit_word_eqI) (auto simp: bit_crc bit_xor_iff)

lemma crc_bits_linear: "foldl crc_bit (x XOR y) bs = foldl crc_bit x (map (\<lambda>_. False) bs) XOR foldl crc_bit y bs"
proof (induction bs arbitrary: x y)
  case (Cons b bs)
  then show ?case using crc_bit_linear [of x y False b] by simp
qed simp

lemma crc_bits_low: "length bs \<le> 32 \<Longrightarrow> (\<And>i. bit r i \<Longrightarrow> i + length bs < 32) \<Longrightarrow> foldl crc_bit r bs = foldl shift_bit r bs"
proof (induction bs arbitrary: r)
  case (Cons b bs)
  have "\<not> bit r 31" using Cons.prems(2) [of 31] by auto
  then have "crc_bit r b = shift_bit r b" by (simp add: crc_bit_shift)
  moreover have "i + length bs < 32" if "bit (shift_bit r b) i" for i
    using that Cons.prems(1) Cons.prems(2) [of "i - 1"] by (cases i) (auto simp: bit_shift)
  ultimately show ?case using Cons.IH Cons.prems(1) by simp
qed simp

lemma shift_byte: "foldl shift_bit r (bits_of b) = push_bit 8 r OR ucast b"
proof (rule bit_word_eqI)
  fix n assume "n < LENGTH(32)"
  have e: "n < 8 \<Longrightarrow> n = 0 \<or> n = 1 \<or> n = 2 \<or> n = 3 \<or> n = 4 \<or> n = 5 \<or> n = 6 \<or> n = 7" by linarith
  have "bit (foldl shift_bit r (bits_of b)) n \<longleftrightarrow> n < 32 \<and> (if n < 8 then bit b n else bit r (n - 8))"
  proof (cases "n < 8")
    case False
    then obtain m where "n = m + 8" by (metis le_add_diff_inverse2 not_less)
    then show ?thesis by (auto simp: bits_of_def bit_shift)
  qed (use e in \<open>auto simp: bits_of_def bit_shift\<close>)
  then show "bit (foldl shift_bit r (bits_of b)) n = bit (push_bit 8 r OR ucast b) n"
    by (auto simp: bit_or_iff bit_push_bit_iff bit_ucast_iff dest: bit_imp_le_length)
qed

section \<open>The table\<close>

lemma crctab_doubles: "concat (map (\<lambda>t. [crc_bit t False, crc_bit t False XOR QUOTIENT]) (take 128 crctab)) = crctab"
  by (simp add: crctab_def crc_bit_def QUOTIENT_def)

lemma crctab_length: "length crctab = 256"
  by (simp add: crctab_def)

lemma nth_concat_pairs:
  "i < length xs \<Longrightarrow> concat (map (\<lambda>t. [f t, g t]) xs) ! (2 * i) = f (xs ! i) \<and> concat (map (\<lambda>t. [f t, g t]) xs) ! Suc (2 * i) = g (xs ! i)"
proof (induction xs arbitrary: i)
  case (Cons x xs)
  then show ?case by (cases i) auto
qed simp

lemma crctab_nth:
  assumes "i < 128"
  shows "crctab ! (2 * i) = crc_bit (crctab ! i) False" "crctab ! Suc (2 * i) = crc_bit (crctab ! i) False XOR QUOTIENT"
  using nth_concat_pairs [of i "take 128 crctab" "\<lambda>t. crc_bit t False" "\<lambda>t. crc_bit t False XOR QUOTIENT"] assms
  unfolding crctab_doubles by (simp_all add: crctab_length)

definition divide_byte :: "u32 \<Rightarrow> u32" where
  "divide_byte r = foldl crc_bit r (replicate 8 False)"

lemma divide_byte_xor: "divide_byte (x XOR y) = divide_byte x XOR divide_byte y"
  unfolding divide_byte_def by (simp add: crc_bits_linear [of x y])

lemma divide_byte_shift: "divide_byte (crc_bit x False) = crc_bit (divide_byte x) False"
  by (simp add: divide_byte_def eval_nat_numeral)

lemma top_byte_double: "i < 128 \<Longrightarrow> push_bit 24 (of_nat (2 * i)) = crc_bit (push_bit 24 (of_nat i)) False"
proof -
  assume i: "i < 128"
  have "\<not> bit i 7" using i by (simp add: bit_iff_odd)
  moreover have "bit (of_nat i :: u32) 7 \<longleftrightarrow> bit i 7" by transfer (simp add: bit_of_nat_iff_bit)
  ultimately have "\<not> bit (push_bit 24 (of_nat i) :: u32) 31" by (simp add: bit_push_bit_iff)
  then have "crc_bit (push_bit 24 (of_nat i)) False = push_bit 1 (push_bit 24 (of_nat i))" by (simp add: crc_bit_def)
  then show ?thesis by (simp add: push_bit_eq_mult)
qed

lemma divide_byte_entry: "i < 256 \<Longrightarrow> divide_byte (push_bit 24 (of_nat i)) = crctab ! i"
proof (induction i rule: less_induct)
  case (less i)
  show ?case
  proof (cases "i = 0")
    case True
    then show ?thesis by (simp add: divide_byte_def crc_bit_def crctab_def eval_nat_numeral)
  next
    case False
    define k where "k = i div 2"
    have k: "k < i" "k < 128" using False less.prems by (auto simp: k_def)
    then have IH: "divide_byte (push_bit 24 (of_nat k)) = crctab ! k" using less.IH by simp
    have ev: "divide_byte (push_bit 24 (of_nat (2 * k))) = crctab ! (2 * k)"
      unfolding top_byte_double [OF k(2)] divide_byte_shift IH crctab_nth(1) [OF k(2)] ..
    show ?thesis
    proof (cases "even i")
      case True
      then show ?thesis using ev by (simp add: k_def)
    next
      case odd: False
      then have i: "i = Suc (2 * k)" by (simp add: k_def)
      have "(of_nat i :: u32) = of_nat (2 * k) XOR 1" unfolding i by (simp add: xor_one_eq)
      then have "push_bit 24 (of_nat i :: u32) = push_bit 24 (of_nat (2 * k)) XOR push_bit 24 1" by (simp only: push_bit_xor)
      moreover have "divide_byte (push_bit 24 1) = QUOTIENT" by code_simp
      ultimately show ?thesis using ev crctab_nth [OF k(2)] i by (simp only: divide_byte_xor)
    qed
  qed
qed

lemma crc_step_bits: "crc_step r b = foldl crc_bit r (bits_of b)"
proof -
  let ?hi = "push_bit 24 (drop_bit 24 r)" and ?lo = "take_bit 24 r"
  have r: "r = ?hi XOR ?lo" by (rule bit_word_eqI) (auto simp: bit_simps)
  have "unat (drop_bit 24 r) = unat r div 2 ^ 24" by (subst unat_drop_bit_eq) (rule drop_bit_eq_div)
  moreover have "unat r < 2 ^ 32" by (rule order.strict_trans2 [OF unsigned_less]) simp
  ultimately have t: "unat (drop_bit 24 r) < 256" by simp
  have "foldl crc_bit r (bits_of b) = divide_byte ?hi XOR foldl crc_bit ?lo (bits_of b)"
    by (subst r, subst crc_bits_linear) (simp add: divide_byte_def bits_of_def eval_nat_numeral)
  also have "divide_byte ?hi = crctab ! unat (drop_bit 24 r)" using divide_byte_entry [OF t] by simp
  also have "foldl crc_bit ?lo (bits_of b) = push_bit 8 ?lo OR ucast b"
    unfolding shift_byte [symmetric] by (rule crc_bits_low) (auto simp: bits_of_def bit_simps)
  also have "push_bit 8 ?lo = push_bit 8 r" by (rule bit_word_eqI) (auto simp: bit_simps)
  finally show ?thesis by (simp add: crc_step_def xor.commute)
qed

section \<open>The CRC of a message\<close>

definition message_bits :: "byte list \<Rightarrow> bool list" where
  "message_bits data = concat (map bits_of data)"

text \<open>The remainder of the message polynomial modulo the generator, one message bit at a time.\<close>

definition crc_remainder :: "bool list \<Rightarrow> u32" where
  "crc_remainder bs = foldl crc_bit 0 bs"

text \<open>The effect of complementing the first word, which depends on the length only.\<close>

definition crc_offset :: "nat \<Rightarrow> u32" where
  "crc_offset n = foldl crc_bit (NOT 0) (replicate n False)"

lemma crc_steps_bits: "foldl crc_step r data = foldl crc_bit r (message_bits data)"
  by (induction data arbitrary: r) (simp_all add: message_bits_def crc_step_bits)

lemma length_message_bits: "length (message_bits data) = 8 * length data"
  by (induction data) (simp_all add: message_bits_def bits_of_def)

lemma first_word:
  "NOT (((push_bit 24 (ucast b0) OR push_bit 16 (ucast b1)) OR push_bit 8 (ucast b2)) OR ucast b3) = NOT 0 XOR crc_remainder (message_bits [b0, b1, b2, b3])"
    (is "NOT ?w = _")
proof -
  have "crc_remainder (message_bits [b0, b1, b2, b3]) = foldl shift_bit 0 (message_bits [b0, b1, b2, b3])"
    unfolding crc_remainder_def by (rule crc_bits_low) (simp_all add: length_message_bits)
  also have "\<dots> = ?w" by (simp add: message_bits_def shift_byte push_bit_or or.assoc)
  finally show ?thesis by simp
qed

lemma crc32_formula:
  assumes "4 \<le> length data"
  shows "crc32_initial data = NOT (crc_offset (8 * (length data - 4)) XOR crc_remainder (message_bits data))"
    "crc32_update more (crc32_initial data) = crc32_initial (data @ more)"
proof -
  obtain b0 b1 b2 b3 rest where d: "data = b0 # b1 # b2 # b3 # rest"
    using assms by (auto simp: Suc_le_length_iff eval_nat_numeral)
  let ?r = "crc_remainder (message_bits [b0, b1, b2, b3])"
  have "foldl crc_bit (NOT 0 XOR ?r) (message_bits rest) = crc_offset (8 * length rest) XOR foldl crc_bit ?r (message_bits rest)"
    by (subst crc_bits_linear) (simp add: crc_offset_def map_replicate_const length_message_bits)
  also have "foldl crc_bit ?r (message_bits rest) = crc_remainder (message_bits data)"
    by (simp add: d crc_remainder_def message_bits_def)
  finally have f: "foldl crc_step (NOT 0 XOR ?r) rest = crc_offset (8 * length rest) XOR crc_remainder (message_bits data)"
    unfolding crc_steps_bits .
  have "crc32_initial data = NOT (foldl crc_step (NOT 0 XOR ?r) rest)"
    unfolding d crc32_initial_def first_word [symmetric] by (simp only: list.case Let_def)
  moreover have "length rest = length data - 4" by (simp add: d)
  ultimately show "crc32_initial data = NOT (crc_offset (8 * (length data - 4)) XOR crc_remainder (message_bits data))"
    using f by (simp only:)
  show "crc32_update more (crc32_initial data) = crc32_initial (data @ more)"
    by (simp add: d crc32_initial_def crc32_update_def Let_def)
qed

text \<open>
  C22. The table driven loops compute polynomial division: for a message of at least four bytes,
  \<open>crc32_initial\<close> is the complement of the remainder that dividing bit by bit by \<open>QUOTIENT\<close> gives, up
  to an offset that depends on the length only; and \<open>crc32_update\<close> extends the checksum of a message
  to the checksum of the message followed by more data.
\<close>

theorem crc32_is_remainder:
  assumes "4 \<le> length data"
  shows "crc32_initial data = NOT (crc_offset (8 * (length data - 4)) XOR crc_remainder (message_bits data))
    \<and> crc32_update more (crc32_initial data) = crc32_initial (data @ more)"
  using crc32_formula [OF assms] by simp

theorem crc32_is_remainder_witness:
  "crc32_update [5, 6] (crc32_initial [1, 2, 3, 4, 0xFF]) = crc32_initial [1, 2, 3, 4, 0xFF, 5, 6]"
  using crc32_is_remainder [of "[1, 2, 3, 4, 0xFF]" "[5, 6]", THEN conjunct2] by simp

section \<open>Error detection\<close>

lemma crc_bit_inj: "crc_bit r b = crc_bit r' b \<Longrightarrow> r = r'"
proof -
  assume e: "crc_bit r b = crc_bit r' b"
  have q: "bit QUOTIENT 0" by (simp add: QUOTIENT_def)
  have top: "bit r 31 = bit r' 31" using arg_cong [OF e, of "\<lambda>w. bit w 0"] q by (auto simp: bit_crc)
  show "r = r'"
  proof (rule bit_word_eqI)
    fix n assume "n < LENGTH(32)"
    then consider "n = 31" | "Suc n < 32" by fastforce
    then show "bit r n = bit r' n"
    proof cases
      case 2
      then show ?thesis using arg_cong [OF e, of "\<lambda>w. bit w (Suc n)"] top by (auto simp: bit_crc)
    qed (use top in simp)
  qed
qed

lemma crc_bits_inj: "foldl crc_bit r bs = foldl crc_bit r' bs \<Longrightarrow> r = r'"
  by (induction bs arbitrary: r r') (auto dest: crc_bit_inj)

lemma crc_bits_xor:
  "length bs = length cs \<Longrightarrow> foldl crc_bit x bs XOR foldl crc_bit y cs = foldl crc_bit (x XOR y) (map2 (\<noteq>) bs cs)"
proof (induction bs cs arbitrary: x y rule: list_induct2)
  case (Cons b bs c cs)
  then show ?case using crc_bit_linear [of x y b c] by simp
qed simp

lemma bit_shifts: "bit (foldl shift_bit r bs) n \<longleftrightarrow> n < 32 \<and> (if n < length bs then rev bs ! n else bit r (n - length bs))"
proof (induction bs arbitrary: n rule: rev_induct)
  case Nil
  show ?case using bit_imp_le_length [of r n] by auto
next
  case (snoc b bs)
  show ?case by (cases n) (auto simp: bit_shift snoc)
qed

lemma short_burst: "length ds \<le> 32 \<Longrightarrow> True \<in> set ds \<Longrightarrow> foldl crc_bit 0 ds \<noteq> 0"
proof -
  assume l: "length ds \<le> 32" and t: "True \<in> set ds"
  obtain n where n: "n < length ds" "rev ds ! n" using t by (metis in_set_conv_nth length_rev set_rev)
  have "bit (foldl shift_bit 0 ds) n" using n l by (simp add: bit_shifts)
  moreover have "foldl crc_bit 0 ds = foldl shift_bit 0 ds" using l by (intro crc_bits_low) simp_all
  ultimately show ?thesis by auto
qed

lemma complement_xor_inj: "NOT (c XOR a) = NOT (c XOR b) \<Longrightarrow> a = b" for a b c :: u32
proof -
  assume "NOT (c XOR a) = NOT (c XOR b)"
  then have "c XOR (c XOR a) = c XOR (c XOR b)" by simp
  then show "a = b" by (simp add: xor.assoc [symmetric])
qed

text \<open>
  C21. Every error burst of at most 32 bits is detected: two messages of the same length, at least four
  bytes long, that differ but agree outside of 32 consecutive bits have different checksums.
\<close>

theorem crc32_detects_bursts:
  assumes "length data = length data'" "4 \<le> length data"
    and "message_bits data = us @ ws @ vs" "message_bits data' = us @ ws' @ vs" "length ws = length ws'" "length ws \<le> 32" "ws \<noteq> ws'"
  shows "crc32_initial data \<noteq> crc32_initial data'"
proof
  assume e: "crc32_initial data = crc32_initial data'"
  have "crc_remainder (message_bits data) = crc_remainder (message_bits data')"
    by (rule complement_xor_inj [of "crc_offset (8 * (length data - 4))"])
      (use e assms(1,2) crc32_formula(1) [of data] crc32_formula(1) [of data'] in \<open>simp only:\<close>)
  then have "foldl crc_bit (foldl crc_bit 0 us) ws = foldl crc_bit (foldl crc_bit 0 us) ws'"
    using crc_bits_inj by (auto simp: crc_remainder_def assms(3,4))
  then have "foldl crc_bit 0 (map2 (\<noteq>) ws ws') = 0"
    using crc_bits_xor [OF assms(5), of "foldl crc_bit 0 us" "foldl crc_bit 0 us"] by simp
  moreover have "length (map2 (\<noteq>) ws ws') \<le> 32" using assms(5,6) by simp
  moreover have "True \<in> set (map2 (\<noteq>) ws ws')"
  proof -
    obtain i where i: "i < length ws" "ws ! i \<noteq> ws' ! i" using assms(5,7) by (auto simp: list_eq_iff_nth_eq)
    then have "map2 (\<noteq>) ws ws' ! i \<in> set (map2 (\<noteq>) ws ws')" using assms(5) by (intro nth_mem) simp
    moreover have "map2 (\<noteq>) ws ws' ! i = True" using i assms(5) by simp
    ultimately show ?thesis by (simp only:)
  qed
  ultimately show False using short_burst by blast
qed

theorem crc32_detects_bursts_witness: "crc32_initial [1, 2, 3, 4, 5] \<noteq> crc32_initial [1, 2, 3, 4, 7]"
  by (rule crc32_detects_bursts [of _ _ "message_bits [1, 2, 3, 4]" "bits_of 5" "[]" "bits_of 7"])
    (simp_all add: message_bits_def, code_simp+)

section \<open>The word checksum\<close>

lemma load_word_short: "length mem < i + 4 \<Longrightarrow> load_word le mem i = None"
proof -
  assume "length mem < i + 4"
  then have "length (drop i mem) < 4" by simp
  then show ?thesis unfolding load_word_def by (cases "drop i mem" rule: list.exhaust) (auto split: list.splits)
qed

text \<open>The last load goes past the data even when the length is a multiple of four.\<close>

lemma checksum_overrun: "checksum_update le data (length data) previous = None"
proof -
  have "length data < 4 * (length data div 4) + 4" by simp
  then show ?thesis by (simp add: checksum_update_def Let_def load_word_short split: option.splits)
qed

end
