(* ===== verification/Ck_Heap.thy ===== *)
theory Ck_Heap
  imports Array_Heap "HOL-Library.Monad_Syntax"
begin

text \<open>
  The heaps that the load balancers keep processors and objects in (\<open>ck-ldb/ckheap.C\<close>). An entry
  points to a record; the load of a record is read through \<open>load\<close>, because balancers change it
  while the record is in the heap and then call \<open>update\<close>. \<open>minHeap\<close> and \<open>maxHeap\<close> differ only in
  the comparison, which is the first argument of the loops.
\<close>

type_synonym info_ptr = nat

record heapRecord =
  deleted :: int
  info :: info_ptr

record ckheap =
  harr :: "heapRecord list"
  hcount :: nat
  hsize :: nat

type_synonym before = "info_ptr \<Rightarrow> info_ptr \<Rightarrow> bool"

section \<open>Operations\<close>

text \<open>The fresh array is not initialised; an entry is written before it is read.\<close>

definition new_heap :: "nat \<Rightarrow> ckheap" where
  "new_heap nsize = \<lparr>harr = replicate nsize \<lparr>deleted = 0, info = 0\<rparr>, hcount = 0, hsize = nsize\<rparr>"

fun insert_loop :: "before \<Rightarrow> heapRecord list \<Rightarrow> nat \<Rightarrow> heapRecord list" where
  "insert_loop before hs current =
    (if current \<noteq> 0 then
       let parent = (current - 1) div 2 in
       if before (info (hs ! current)) (info (hs ! parent)) then insert_loop before (swap hs current parent) parent
       else hs
     else hs)"

declare insert_loop.simps [simp del]

text \<open>The result is 0, or -1 when the heap is full.\<close>

definition heap_insert :: "before \<Rightarrow> ckheap \<Rightarrow> info_ptr \<Rightarrow> int \<times> ckheap" where
  "heap_insert before hp x =
    (if hcount hp < hsize hp then
       let current = hcount hp;
           hs = (harr hp)[current := \<lparr>deleted = 0, info = x\<rparr>]
       in (0, hp\<lparr>harr := insert_loop before hs current, hcount := hcount hp + 1\<rparr>)
     else (- 1, hp))"

function delete_loop :: "before \<Rightarrow> heapRecord list \<Rightarrow> nat \<Rightarrow> nat \<Rightarrow> heapRecord list" where
  "delete_loop before hs n current =
    (let c1 = 2 * current + 1; c2 = c1 + 1 in
     if c1 < n then
       let best = (if c2 \<ge> n then c1 else if before (info (hs ! c1)) (info (hs ! c2)) then c1 else c2) in
       if before (info (hs ! best)) (info (hs ! current)) then delete_loop before (swap hs best current) n best
       else hs
     else hs)"
  by pat_completeness auto
termination
  by (relation "measure (\<lambda>(before, hs, n, current). n - current)") (auto simp: Let_def split: if_splits)

declare delete_loop.simps [simp del]

definition heap_delete :: "before \<Rightarrow> ckheap \<Rightarrow> info_ptr option \<times> ckheap" where
  "heap_delete before hp =
    (if hcount hp = 0 then (None, hp)
     else let tmp = info (harr hp ! 0);
              hs = (harr hp)[0 := harr hp ! (hcount hp - 1)];
              n = hcount hp - 1
          in (Some tmp, hp\<lparr>harr := delete_loop before hs n 0, hcount := n\<rparr>))"

definition numElements :: "ckheap \<Rightarrow> nat" where
  "numElements hp = hcount hp"

definition heap_iterator :: "ckheap \<Rightarrow> info_ptr option \<times> nat" where
  "heap_iterator hp = (if hcount hp = 0 then None else Some (info (harr hp ! 0)), 1)"

definition heap_next :: "ckheap \<Rightarrow> nat \<Rightarrow> info_ptr option \<times> nat" where
  "heap_next hp nxt = (if nxt \<ge> hcount hp then (None, nxt) else (Some (info (harr hp ! nxt)), nxt + 1))"

definition minHeap :: "nat \<Rightarrow> ckheap" where
  "minHeap nsize = new_heap nsize"

definition minHeap_insert :: "(info_ptr \<Rightarrow> real) \<Rightarrow> ckheap \<Rightarrow> info_ptr \<Rightarrow> int \<times> ckheap" where
  "minHeap_insert load = heap_insert (\<lambda>x y. load x < load y)"

definition deleteMin :: "(info_ptr \<Rightarrow> real) \<Rightarrow> ckheap \<Rightarrow> info_ptr option \<times> ckheap" where
  "deleteMin load = heap_delete (\<lambda>x y. load x < load y)"

definition minHeap_iterator :: "ckheap \<Rightarrow> info_ptr option \<times> nat" where
  "minHeap_iterator = heap_iterator"

definition minHeap_next :: "ckheap \<Rightarrow> nat \<Rightarrow> info_ptr option \<times> nat" where
  "minHeap_next = heap_next"

definition maxHeap :: "nat \<Rightarrow> ckheap" where
  "maxHeap nsize = new_heap nsize"

definition maxHeap_insert :: "(info_ptr \<Rightarrow> real) \<Rightarrow> ckheap \<Rightarrow> info_ptr \<Rightarrow> int \<times> ckheap" where
  "maxHeap_insert load = heap_insert (\<lambda>x y. load x > load y)"

definition deleteMax :: "(info_ptr \<Rightarrow> real) \<Rightarrow> ckheap \<Rightarrow> info_ptr option \<times> ckheap" where
  "deleteMax load = heap_delete (\<lambda>x y. load x > load y)"

definition maxHeap_iterator :: "ckheap \<Rightarrow> info_ptr option \<times> nat" where
  "maxHeap_iterator = heap_iterator"

definition maxHeap_next :: "ckheap \<Rightarrow> nat \<Rightarrow> info_ptr option \<times> nat" where
  "maxHeap_next = heap_next"

section \<open>Updating an entry\<close>

definition least :: "(info_ptr \<Rightarrow> real) \<Rightarrow> heapRecord list \<Rightarrow> nat \<Rightarrow> nat \<Rightarrow> nat \<Rightarrow> nat" where
  "least load hs a b c =
    (let smaller = (if load (info (hs ! a)) < load (info (hs ! b)) then a else b)
     in if load (info (hs ! smaller)) < load (info (hs ! c)) then smaller else c)"

text \<open>The two recursive calls may in principle chase each other, so that returning is a claim.\<close>

partial_function (option) update_index :: "(info_ptr \<Rightarrow> real) \<Rightarrow> nat \<Rightarrow> heapRecord list \<Rightarrow> nat \<Rightarrow> heapRecord list option" where
  "update_index load n hs index =
    (let parent = (index - 1) div 2 in do {
     hs \<leftarrow> (if index \<noteq> 0 \<and> load (info (hs ! index)) < load (info (hs ! parent)) then update_index load n (swap hs parent index) parent
           else Some hs);
     let c1 = 2 * index + 1;
     let c2 = 2 * index + 2;
     let smaller = least load hs index c1 c2;
     (if c2 < n \<and> smaller \<noteq> index then update_index load n (swap hs smaller index) smaller
      else if c1 < n \<and> load (info (hs ! c1)) < load (info (hs ! index)) then update_index load n (swap hs c1 index) c1
      else Some hs) })"

declare update_index.simps [code]

function find_index :: "heapRecord list \<Rightarrow> nat \<Rightarrow> nat \<Rightarrow> info_ptr \<Rightarrow> nat" where
  "find_index hs n index x = (if index < n \<and> x \<noteq> info (hs ! index) then find_index hs n (index + 1) x else index)"
  by pat_completeness auto
termination
  by (relation "measure (\<lambda>(hs, n, index, x). n - index)") auto

declare find_index.simps [simp del]

text \<open>\<open>Inl ()\<close> is the call of \<open>CmiAbort\<close>.\<close>

definition minHeap_update :: "(info_ptr \<Rightarrow> real) \<Rightarrow> ckheap \<Rightarrow> info_ptr \<Rightarrow> (unit + ckheap) option" where
  "minHeap_update load hp x =
    (let index = find_index (harr hp) (numElements hp) 0 x in
     if index = numElements hp then Some (Inl ())
     else do { hs \<leftarrow> update_index load (numElements hp) (harr hp) index; Some (Inr (hp\<lparr>harr := hs\<rparr>)) })"

section \<open>Heap order\<close>

interpretation mnh: array_heap 0 "\<lambda>i. (i - Suc 0) div 2" "\<lambda>x y. load (info x) \<le> load (info y)" for load :: "info_ptr \<Rightarrow> real"
  by unfold_locales auto

text \<open>The maximum heap orders by the negated load.\<close>

lemma maxHeap_neg: "maxHeap_insert load = minHeap_insert (\<lambda>x. - load x)" "deleteMax load = deleteMin (\<lambda>x. - load x)"
  by (simp_all add: maxHeap_insert_def minHeap_insert_def deleteMax_def deleteMin_def)

abbreviation less_load :: "(info_ptr \<Rightarrow> real) \<Rightarrow> before" where
  "less_load load \<equiv> \<lambda>x y. load x < load y"

definition sifted :: "(info_ptr \<Rightarrow> real) \<Rightarrow> nat \<Rightarrow> heapRecord list \<Rightarrow> heapRecord list \<Rightarrow> bool" where
  "sifted load n hs hs' \<longleftrightarrow> mnh.heap_ok load hs' n \<and> length hs' = length hs \<and> mset (slice 0 n hs') = mset (slice 0 n hs)"

lemma sifted_trans: "length hs1 = length hs \<Longrightarrow> mset (slice 0 n hs1) = mset (slice 0 n hs) \<Longrightarrow> sifted load n hs1 hs2 \<Longrightarrow> sifted load n hs hs2"
  by (simp add: sifted_def)

lemma sifted_swap:
  assumes "i < n" "j < n" "n \<le> length hs" "sifted load n (swap hs i j) hs'"
  shows "sifted load n hs hs'"
  by (rule sifted_trans [OF _ mset_slice_swap assms(4)]) (use assms in simp_all)

lemma swap_commute: "i \<noteq> j \<Longrightarrow> swap hs i j = swap hs j i"
  unfolding swap_def by (rule list_update_swap)

lemma insert_loop_ok:
  assumes "p < n" "n \<le> length hs" "mnh.up_ok load hs n p"
  shows "sifted load n hs (insert_loop (less_load load) hs p)"
  using assms
proof (induction p arbitrary: hs rule: less_induct)
  case (less p)
  let ?q = "(p - Suc 0) div 2"
  show ?case
  proof (cases "p \<noteq> 0 \<and> load (info (hs ! p)) < load (info (hs ! ?q))")
    case True
    then have q: "?q < p" by auto
    have up: "mnh.up_ok load (swap hs p ?q) n ?q" using mnh.up_step [OF less.prems(3)] True less.prems by simp
    have "sifted load n (swap hs p ?q) (insert_loop (less_load load) (swap hs p ?q) ?q)"
      by (rule less.IH [OF q]) (use q less.prems up in simp_all)
    then have "sifted load n hs (insert_loop (less_load load) (swap hs p ?q) ?q)"
      by (rule sifted_swap [rotated 3]) (use less.prems q in simp_all)
    then show ?thesis using True by (subst insert_loop.simps) (simp add: Let_def)
  next
    case False
    then have "p = 0 \<or> load (info (hs ! ?q)) \<le> load (info (hs ! p))" by auto
    then have "mnh.heap_ok load hs n" by (rule mnh.up_done [OF less.prems(3)])
    then show ?thesis using False by (subst insert_loop.simps) (auto simp: Let_def sifted_def)
  qed
qed

lemma delete_loop_ok:
  assumes "p \<le> n" "n \<le> length hs" "mnh.down_ok load hs n p"
  shows "sifted load n hs (delete_loop (less_load load) hs n p)"
  using assms
proof (induction "n - p" arbitrary: p hs rule: less_induct)
  case less
  note prems = less.prems
  have children: "c = 2 * p + 1 \<or> c = 2 * p + 2" if "0 < c" "(c - Suc 0) div 2 = p" for c using that by auto
  show ?case
  proof (cases "2 * p + 1 < n")
    case False
    then have "mnh.heap_ok load hs n" using mnh.down_done [OF prems(3)] children by fastforce
    then show ?thesis using False by (subst delete_loop.simps) (simp add: Let_def sifted_def)
  next
    case True
    define c where "c = (if 2 * p + 2 \<ge> n then 2 * p + 1 else if load (info (hs ! (2 * p + 1))) < load (info (hs ! (2 * p + 2))) then 2 * p + 1 else 2 * p + 2)"
    have c: "p < c" "c < n" "0 < c" "(c - Suc 0) div 2 = p" using True by (auto simp: c_def)
    have min: "load (info (hs ! c)) \<le> load (info (hs ! d))" if "0 < d" "d < n" "(d - Suc 0) div 2 = p" for d
      using children [OF that(1,3)] that(2) True by (auto simp: c_def)
    have unfold: "delete_loop (less_load load) hs n p =
        (if load (info (hs ! c)) < load (info (hs ! p)) then delete_loop (less_load load) (swap hs c p) n c else hs)"
      using True by (subst delete_loop.simps) (simp add: Let_def c_def)
    show ?thesis
    proof (cases "load (info (hs ! c)) < load (info (hs ! p))")
      case gt: True
      have "swap hs c p = swap hs p c" by (rule swap_commute) (use c(1) in simp)
      moreover have "mnh.down_ok load (swap hs p c) n c" by (rule mnh.down_step [OF prems(3) _ prems(2) c(3,2,4)]) (use gt min in auto)
      ultimately have "sifted load n (swap hs c p) (delete_loop (less_load load) (swap hs c p) n c)"
        using c(1,2) prems(2) by (intro less.hyps) simp_all
      then have "sifted load n hs (delete_loop (less_load load) (swap hs c p) n c)"
        by (rule sifted_swap [rotated 3]) (use c(1,2) prems(2) in simp_all)
      then show ?thesis using gt unfold by simp
    next
      case False
      have "load (info (hs ! p)) \<le> load (info (hs ! d))" if "0 < d" "d < n" "(d - Suc 0) div 2 = p" for d using min [OF that] False by simp
      then have "mnh.heap_ok load hs n" by (rule mnh.down_done [OF prems(3)])
      then show ?thesis using False unfold by (simp add: sifted_def)
    qed
  qed
qed

section \<open>Insertion and deletion\<close>

definition ckheap_ok :: "(info_ptr \<Rightarrow> real) \<Rightarrow> ckheap \<Rightarrow> bool" where
  "ckheap_ok load hp \<longleftrightarrow> hcount hp \<le> hsize hp \<and> length (harr hp) = hsize hp \<and> mnh.heap_ok load (harr hp) (hcount hp)"

definition infos :: "ckheap \<Rightarrow> info_ptr list" where
  "infos hp = map info (take (hcount hp) (harr hp))"

lemma slice_take: "slice 0 n hs = take n hs"
  by (simp add: slice_def)

lemma sifted_infos: "sifted load n hs hs' \<Longrightarrow> mset (map info (take n hs')) = mset (map info (take n hs))"
  by (simp add: sifted_def slice_take)

lemma new_heap_ok: "ckheap_ok load (new_heap n)" "infos (new_heap n) = []"
  by (simp_all add: ckheap_ok_def new_heap_def infos_def mnh.heap_ok_def)

lemma minHeap_insert_ok:
  assumes i: "ckheap_ok load hp" and r: "hcount hp < hsize hp"
  shows "\<exists>hp'. minHeap_insert load hp x = (0, hp') \<and> ckheap_ok load hp' \<and> mset (infos hp') = add_mset x (mset (infos hp))
    \<and> hsize hp' = hsize hp \<and> hcount hp' = hcount hp + 1"
proof -
  let ?n = "hcount hp"
  let ?hs = "(harr hp)[?n := \<lparr>deleted = 0, info = x\<rparr>]"
  let ?r = "insert_loop (less_load load) ?hs ?n"
  have n: "?n < length (harr hp)" using i r by (simp add: ckheap_ok_def)
  have "mnh.up_ok load ?hs (Suc ?n) ?n" by (rule mnh.up_ok_append) (use i n in \<open>simp_all add: ckheap_ok_def\<close>)
  then have s: "sifted load (Suc ?n) ?hs ?r" by (intro insert_loop_ok) (use n in simp_all)
  have "mset (map info (take (Suc ?n) ?r)) = mset (map info (take (Suc ?n) ?hs))" by (rule sifted_infos [OF s])
  also have "take (Suc ?n) ?hs = take ?n (harr hp) @ [\<lparr>deleted = 0, info = x\<rparr>]" using n by (simp add: take_Suc_snoc)
  finally show ?thesis using i r s by (auto simp: minHeap_insert_def heap_insert_def Let_def ckheap_ok_def infos_def sifted_def)
qed

lemma heap_least:
  assumes "ckheap_ok load hp" "x \<in> set (infos hp)"
  shows "load (info (harr hp ! 0)) \<le> load x"
proof -
  obtain i where "i < hcount hp" "x = info (harr hp ! i)" using assms by (auto simp: infos_def ckheap_ok_def in_set_conv_nth)
  then show ?thesis using mnh.heap_root_le [of load "harr hp" "hcount hp" i] assms(1) by (simp add: ckheap_ok_def)
qed

lemma deleteMin_ok:
  assumes i: "ckheap_ok load hp" and r: "0 < hcount hp"
  shows "\<exists>x hp'. deleteMin load hp = (Some x, hp') \<and> ckheap_ok load hp' \<and> mset (infos hp) = add_mset x (mset (infos hp'))
    \<and> (\<forall>y \<in> set (infos hp). load x \<le> load y) \<and> hsize hp' = hsize hp \<and> hcount hp' = hcount hp - 1"
proof -
  obtain n where n: "hcount hp = Suc n" using r by (cases "hcount hp") auto
  let ?hs = "(harr hp)[0 := harr hp ! n]"
  let ?r = "delete_loop (less_load load) ?hs n 0"
  have l: "Suc n \<le> length (harr hp)" using i n by (simp add: ckheap_ok_def)
  have "mnh.down_ok load ?hs n 0"
    by (rule mnh.down_ok_root) (use i n l mnh.heap_ok_shrink [of load "harr hp" "Suc n" n] in \<open>auto simp: ckheap_ok_def\<close>)
  then have s: "sifted load n ?hs ?r" by (intro delete_loop_ok) (use l in simp_all)
  have "mset (take (Suc n) (harr hp)) = add_mset (harr hp ! 0) (mset (take n ?hs))"
  proof (cases n)
    case 0
    then show ?thesis using l by (cases "harr hp") auto
  next
    case (Suc m)
    obtain a hs where a: "harr hp = a # hs" using l by (cases "harr hp") auto
    have "m < length hs" using l Suc a by simp
    then show ?thesis by (simp add: a Suc take_Suc_snoc)
  qed
  then have "mset (infos hp) = add_mset (info (harr hp ! 0)) (mset (map info (take n ?hs)))" unfolding infos_def n mset_map by simp
  then have "mset (infos hp) = add_mset (info (harr hp ! 0)) (mset (map info (take n ?r)))" using sifted_infos [OF s] by simp
  then show ?thesis using i n s heap_least [OF i] by (auto simp: deleteMin_def heap_delete_def Let_def ckheap_ok_def infos_def sifted_def)
qed

section \<open>Update\<close>

text \<open>What follows the move towards the root, and the call as a whole.\<close>

definition update_rest :: "(info_ptr \<Rightarrow> real) \<Rightarrow> nat \<Rightarrow> heapRecord list \<Rightarrow> nat \<Rightarrow> heapRecord list option" where
  "update_rest load n hs index =
    (let c1 = 2 * index + 1; c2 = 2 * index + 2; smaller = least load hs index c1 c2 in
     if c2 < n \<and> smaller \<noteq> index then update_index load n (swap hs smaller index) smaller
     else if c1 < n \<and> load (info (hs ! c1)) < load (info (hs ! index)) then update_index load n (swap hs c1 index) c1
     else Some hs)"

lemma update_index_eq:
  "update_index load n hs index =
    (if index \<noteq> 0 \<and> load (info (hs ! index)) < load (info (hs ! ((index - Suc 0) div 2)))
     then update_index load n (swap hs ((index - Suc 0) div 2) index) ((index - Suc 0) div 2) \<bind> (\<lambda>hs. update_rest load n hs index)
     else update_rest load n hs index)"
  by (subst update_index.simps) (simp add: update_rest_def Let_def)

lemma least_cases:
  "least load hs a b c \<in> {a, b, c} \<and> (\<forall>d \<in> {a, b, c}. load (info (hs ! least load hs a b c)) \<le> load (info (hs ! d)))"
  by (auto simp: least_def Let_def)

lemma update_down:
  assumes "p < n" "n \<le> length hs" "mnh.down_ok load hs n p"
  shows "\<exists>hs'. update_rest load n hs p = Some hs' \<and> sifted load n hs hs'"
  using assms
proof (induction "n - p" arbitrary: p hs rule: less_induct)
  case less
  note prems = less.prems
  have children: "c = 2 * p + 1 \<or> c = 2 * p + 2" if "0 < c" "(c - Suc 0) div 2 = p" for c using that by auto
  have move: "\<exists>hs'. update_index load n (swap hs c p) c = Some hs' \<and> sifted load n hs hs'"
    if c: "c = 2 * p + 1 \<or> c = 2 * p + 2" "c < n" "load (info (hs ! c)) \<le> load (info (hs ! p))"
      and min: "\<And>d. 0 < d \<Longrightarrow> d < n \<Longrightarrow> (d - Suc 0) div 2 = p \<Longrightarrow> load (info (hs ! c)) \<le> load (info (hs ! d))" for c
  proof -
    have c': "p < c" "0 < c" "(c - Suc 0) div 2 = p" using c(1) by auto
    have sw: "swap hs c p = swap hs p c" by (rule swap_commute) (use c'(1) in simp)
    have dn: "mnh.down_ok load (swap hs c p) n c" unfolding sw
      by (rule mnh.down_step [OF prems(3) _ prems(2) c'(2) c(2) c'(3) c(3)]) (use min in auto)
    have "n - c < n - p" "n \<le> length (swap hs c p)" using c'(1) c(2) prems(2) by simp_all
    from less.hyps [OF this(1) c(2) this(2) dn] obtain hs' where
      hs': "update_rest load n (swap hs c p) c = Some hs'" "sifted load n (swap hs c p) hs'" by blast
    have "\<not> load (info (swap hs c p ! c)) < load (info (swap hs c p ! ((c - Suc 0) div 2)))"
      unfolding c'(3) using c(2,3) c'(1) prems(2) by (simp add: nth_swap)
    then have "update_index load n (swap hs c p) c = Some hs'" using hs'(1) by (subst update_index_eq) simp
    moreover have "sifted load n hs hs'" by (rule sifted_swap [OF _ _ prems(2) hs'(2)]) (use c(2) c'(1) in simp_all)
    ultimately show ?thesis by blast
  qed
  let ?l = "least load hs p (2 * p + 1) (2 * p + 2)"
  note L = least_cases [of load hs p "2 * p + 1" "2 * p + 2"]
  consider "2 * p + 2 < n" "?l \<noteq> p" | "\<not> (2 * p + 2 < n \<and> ?l \<noteq> p)" "2 * p + 1 < n" "load (info (hs ! (2 * p + 1))) < load (info (hs ! p))"
    | "\<not> (2 * p + 2 < n \<and> ?l \<noteq> p)" "\<not> (2 * p + 1 < n \<and> load (info (hs ! (2 * p + 1))) < load (info (hs ! p)))" by blast
  then show ?case
  proof cases
    case 1
    have "\<exists>hs'. update_index load n (swap hs ?l p) ?l = Some hs' \<and> sifted load n hs hs'"
    proof (rule move)
      show "?l = 2 * p + 1 \<or> ?l = 2 * p + 2" "load (info (hs ! ?l)) \<le> load (info (hs ! p))" using L 1(2) by simp_all
      then show "?l < n" using 1(1) by linarith
      show "load (info (hs ! ?l)) \<le> load (info (hs ! d))" if "0 < d" "d < n" "(d - Suc 0) div 2 = p" for d
        using L children [OF that(1,3)] by (elim disjE) simp_all
    qed
    then show ?thesis using 1 by (simp add: update_rest_def Let_def)
  next
    case 2
    have e: "n = 2 * p + 2"
    proof (rule ccontr)
      assume "n \<noteq> 2 * p + 2"
      then have "?l = p" using 2(1,2) by linarith
      then show False using L 2(3) by simp
    qed
    have "\<exists>hs'. update_index load n (swap hs (2 * p + 1) p) (2 * p + 1) = Some hs' \<and> sifted load n hs hs'"
    proof (rule move)
      show "load (info (hs ! (2 * p + 1))) \<le> load (info (hs ! d))" if "0 < d" "d < n" "(d - Suc 0) div 2 = p" for d
        using children [OF that(1,3)] that(2) e by (elim disjE) simp_all
    qed (use 2 in simp_all)
    then show ?thesis using 2(2,3) e by (simp add: update_rest_def Let_def)
  next
    case 3
    have "load (info (hs ! p)) \<le> load (info (hs ! d))" if "0 < d" "d < n" "(d - Suc 0) div 2 = p" for d
      using children [OF that(1,3)]
    proof (elim disjE)
      assume d: "d = 2 * p + 2"
      then have "?l = p" using 3(1) that(2) by simp
      then show ?thesis using L d by simp
    qed (use 3 that(2) in simp)
    then have "mnh.heap_ok load hs n" by (rule mnh.down_done [OF prems(3)])
    moreover have "update_rest load n hs p = Some hs" using 3 unfolding update_rest_def Let_def by argo
    ultimately show ?thesis by (simp add: sifted_def)
  qed
qed

lemma update_index_down:
  assumes "p < n" "n \<le> length hs" "mnh.down_ok load hs n p" "p = 0 \<or> load (info (hs ! ((p - Suc 0) div 2))) \<le> load (info (hs ! p))"
  shows "\<exists>hs'. update_index load n hs p = Some hs' \<and> sifted load n hs hs'"
  using update_down [OF assms(1-3)] assms(4) by (subst update_index_eq) auto

lemma mnh_down_ok: "mnh.heap_ok load hs n \<Longrightarrow> mnh.down_ok load hs n p"
  unfolding mnh.down_ok_def
proof (intro conjI impI allI)
  fix c assume h: "mnh.heap_ok load hs n" and p: "0 < p" and c: "0 < c \<and> c < n \<and> (c - Suc 0) div 2 = p"
  then have "p < n" by auto
  then have "load (info (hs ! ((p - Suc 0) div 2))) \<le> load (info (hs ! p))" "load (info (hs ! ((c - Suc 0) div 2))) \<le> load (info (hs ! c))"
    using h p c unfolding mnh.heap_ok_def by blast+
  then show "load (info (hs ! ((p - Suc 0) div 2))) \<le> load (info (hs ! c))" using c by simp
qed (simp add: mnh.heap_ok_def)

lemma update_index_up:
  assumes "p < n" "n \<le> length hs" "mnh.up_ok load hs n p"
  shows "\<exists>hs'. update_index load n hs p = Some hs' \<and> sifted load n hs hs'"
  using assms
proof (induction p arbitrary: hs rule: less_induct)
  case (less p)
  let ?q = "(p - Suc 0) div 2"
  show ?case
  proof (cases "p \<noteq> 0 \<and> load (info (hs ! p)) < load (info (hs ! ?q))")
    case True
    then have q: "?q < p" by auto
    have sw: "swap hs ?q p = swap hs p ?q" by (rule swap_commute) (use q in simp)
    have up: "mnh.up_ok load (swap hs ?q p) n ?q" unfolding sw using mnh.up_step [OF less.prems(3)] True less.prems by simp
    from less.IH [OF q _ _ up] q less.prems obtain h1 where
      h1: "update_index load n (swap hs ?q p) ?q = Some h1" "sifted load n (swap hs ?q p) h1" by auto
    have s1: "sifted load n hs h1" by (rule sifted_swap [OF _ _ less.prems(2) h1(2)]) (use q less.prems in simp_all)
    then have "n \<le> length h1" "mnh.heap_ok load h1 n" using less.prems(2) by (simp_all add: sifted_def)
    from update_down [OF less.prems(1) this(1) mnh_down_ok [OF this(2)]] obtain h2 where
      h2: "update_rest load n h1 p = Some h2" "sifted load n h1 h2" by blast
    have "sifted load n hs h2" using s1 h2(2) by (simp add: sifted_def)
    then show ?thesis using h1(1) h2(1) True by (subst update_index_eq) simp
  next
    case False
    then have o: "p = 0 \<or> load (info (hs ! ?q)) \<le> load (info (hs ! p))" by auto
    then have "mnh.heap_ok load hs n" by (rule mnh.up_done [OF less.prems(3)])
    from update_index_down [OF less.prems(1,2) mnh_down_ok [OF this] o] show ?thesis .
  qed
qed

lemma find_index_ok:
  "i \<le> n \<Longrightarrow> find_index hs n i x \<le> n \<and> (find_index hs n i x < n \<longrightarrow> info (hs ! find_index hs n i x) = x)
    \<and> (\<forall>k. i \<le> k \<longrightarrow> k < find_index hs n i x \<longrightarrow> info (hs ! k) \<noteq> x)"
proof (induction "n - i" arbitrary: i rule: less_induct)
  case less
  show ?case
  proof (cases "i < n \<and> x \<noteq> info (hs ! i)")
    case True
    then have "find_index hs n i x = find_index hs n (Suc i) x" by (subst find_index.simps) simp
    moreover have "n - Suc i < n - i" "Suc i \<le> n" using True by auto
    note IH = less.hyps [OF this]
    have "info (hs ! k) \<noteq> x" if "i \<le> k" "k < find_index hs n (Suc i) x" for k
    proof (cases "k = i")
      case False
      then have "Suc i \<le> k" using that(1) by simp
      then show ?thesis using IH that(2) by blast
    qed (use True in simp)
    ultimately show ?thesis using IH by simp
  next
    case False
    then have "find_index hs n i x = i" by (subst find_index.simps) auto
    then show ?thesis using False less.prems by auto
  qed
qed

lemma changed_load:
  assumes ok: "mnh.heap_ok load hs n" and p: "p < n" and v: "\<And>i. i < n \<Longrightarrow> i \<noteq> p \<Longrightarrow> load' (info (hs ! i)) = load (info (hs ! i))"
  shows "load' (info (hs ! p)) \<le> load (info (hs ! p)) \<Longrightarrow> mnh.up_ok load' hs n p"
    and "load (info (hs ! p)) \<le> load' (info (hs ! p)) \<Longrightarrow>
      mnh.down_ok load' hs n p \<and> (p = 0 \<or> load' (info (hs ! ((p - Suc 0) div 2))) \<le> load' (info (hs ! p)))"
proof -
  let ?par = "\<lambda>i. (i - Suc 0) div 2"
  have e: "load (info (hs ! ?par i)) \<le> load (info (hs ! i))" "?par i < n" "?par i \<noteq> i" if "0 < i" "i < n" for i
    using ok that by (auto simp: mnh.heap_ok_def)
  have g: "load' (info (hs ! ?par p)) \<le> load' (info (hs ! c))" if "0 < p" "0 < c" "c < n" "?par c = p" for c
    using e(1) [OF that(1) p] e(1) [OF that(2,3)] e(2,3) [OF that(1) p] e(3) [OF that(2,3)] that v by simp
  show "mnh.up_ok load' hs n p" if le: "load' (info (hs ! p)) \<le> load (info (hs ! p))"
  proof -
    have "load' (info (hs ! ?par i)) \<le> load' (info (hs ! i))" if "0 < i" "i < n" "i \<noteq> p" for i
      using e [OF that(1,2)] v [OF that(2,3)] v [of "?par i"] le by (cases "?par i = p") auto
    then show ?thesis using g unfolding mnh.up_ok_def by blast
  qed
  show "mnh.down_ok load' hs n p \<and> (p = 0 \<or> load' (info (hs ! ?par p)) \<le> load' (info (hs ! p)))" if ge: "load (info (hs ! p)) \<le> load' (info (hs ! p))"
  proof -
    have i: "load' (info (hs ! ?par i)) \<le> load' (info (hs ! i))" if "0 < i" "i < n" "?par i \<noteq> p" for i
      using e [OF that(1,2)] v [of i] v [of "?par i"] that ge by (cases "i = p") auto
    moreover have "load' (info (hs ! ?par p)) \<le> load' (info (hs ! p))" if "0 < p" by (rule i) (use e(3) [OF that p] that p in auto)
    ultimately show ?thesis using g unfolding mnh.down_ok_def by blast
  qed
qed

lemma minHeap_update_ok:
  assumes i: "ckheap_ok load hp" and d: "distinct (infos hp)" and x: "x \<in> set (infos hp)" and v: "\<And>y. y \<noteq> x \<Longrightarrow> load' y = load y"
  shows "\<exists>hp'. minHeap_update load' hp x = Some (Inr hp') \<and> ckheap_ok load' hp' \<and> mset (infos hp') = mset (infos hp)"
proof -
  let ?hs = "harr hp" and ?n = "hcount hp"
  define p where "p = find_index ?hs ?n 0 x"
  note P = find_index_ok [of 0 ?n ?hs x, folded p_def]
  have ok: "?n \<le> length ?hs" "mnh.heap_ok load ?hs ?n" using i by (simp_all add: ckheap_ok_def)
  obtain j where j: "j < ?n" "info (?hs ! j) = x" using x ok(1) by (auto simp: infos_def in_set_conv_nth)
  have pn: "p < ?n"
  proof (rule ccontr)
    assume "\<not> p < ?n"
    then show False using P j by auto
  qed
  then have px: "info (?hs ! p) = x" using P by simp
  have other: "info (?hs ! k) \<noteq> x" if "k < ?n" "k \<noteq> p" for k
  proof -
    have "length (infos hp) = ?n" using ok(1) by (simp add: infos_def)
    then have "infos hp ! k \<noteq> infos hp ! p" using nth_eq_iff_index_eq [OF d, of k p] that pn by simp
    then show ?thesis using that pn px ok(1) by (simp add: infos_def)
  qed
  have same: "load' (info (?hs ! k)) = load (info (?hs ! k))" if "k < ?n" "k \<noteq> p" for k using v other [OF that] by blast
  note C = changed_load [OF ok(2) pn same]
  obtain hs' where hs': "update_index load' ?n ?hs p = Some hs'" "sifted load' ?n ?hs hs'"
  proof (cases "load' (info (?hs ! p)) \<le> load (info (?hs ! p))")
    case True
    from update_index_up [OF pn ok(1) C(1) [OF _ _ True]] that show ?thesis by blast
  next
    case False
    then have "load (info (?hs ! p)) \<le> load' (info (?hs ! p))" by simp
    from C(2) [OF _ _ this] update_index_down [OF pn ok(1)] that show ?thesis by blast
  qed
  have "minHeap_update load' hp x = Some (Inr (hp\<lparr>harr := hs'\<rparr>))"
    using hs'(1) pn by (simp add: minHeap_update_def numElements_def Let_def p_def)
  then show ?thesis using i hs'(2) sifted_infos [OF hs'(2)] by (auto simp: ckheap_ok_def infos_def sifted_def)
qed

section \<open>Properties\<close>

text \<open>A client that inserts records and then takes them out again until the heap is empty.\<close>

definition fillMin :: "(info_ptr \<Rightarrow> real) \<Rightarrow> nat \<Rightarrow> info_ptr list \<Rightarrow> ckheap" where
  "fillMin load n xs = foldl (\<lambda>hp x. snd (minHeap_insert load hp x)) (minHeap n) xs"

primrec drainMin :: "(info_ptr \<Rightarrow> real) \<Rightarrow> nat \<Rightarrow> ckheap \<Rightarrow> info_ptr list" where
  "drainMin load 0 hp = []"
| "drainMin load (Suc k) hp = (case deleteMin load hp of (None, hp') \<Rightarrow> [] | (Some x, hp') \<Rightarrow> x # drainMin load k hp')"

definition fillMax :: "(info_ptr \<Rightarrow> real) \<Rightarrow> nat \<Rightarrow> info_ptr list \<Rightarrow> ckheap" where
  "fillMax load n xs = foldl (\<lambda>hp x. snd (maxHeap_insert load hp x)) (maxHeap n) xs"

primrec drainMax :: "(info_ptr \<Rightarrow> real) \<Rightarrow> nat \<Rightarrow> ckheap \<Rightarrow> info_ptr list" where
  "drainMax load 0 hp = []"
| "drainMax load (Suc k) hp = (case deleteMax load hp of (None, hp') \<Rightarrow> [] | (Some x, hp') \<Rightarrow> x # drainMax load k hp')"

lemma fillMin_ok:
  "length xs \<le> n \<Longrightarrow> ckheap_ok load (fillMin load n xs) \<and> mset (infos (fillMin load n xs)) = mset xs
    \<and> hsize (fillMin load n xs) = n \<and> hcount (fillMin load n xs) = length xs"
proof (induction xs rule: rev_induct)
  case Nil
  then show ?case using new_heap_ok by (simp add: fillMin_def minHeap_def new_heap_def)
next
  case (snoc x xs)
  then have ih: "ckheap_ok load (fillMin load n xs)" "mset (infos (fillMin load n xs)) = mset xs"
    "hsize (fillMin load n xs) = n" "hcount (fillMin load n xs) = length xs" by simp_all
  then have "hcount (fillMin load n xs) < hsize (fillMin load n xs)" using snoc.prems by simp
  from minHeap_insert_ok [OF ih(1) this, of x] ih(2-4) show ?case by (auto simp: fillMin_def)
qed

lemma drainMin_ok:
  "ckheap_ok load hp \<Longrightarrow> hcount hp \<le> k \<Longrightarrow> mset (drainMin load k hp) = mset (infos hp) \<and> sorted (map load (drainMin load k hp))"
proof (induction k arbitrary: hp)
  case 0
  then show ?case by (simp add: infos_def)
next
  case (Suc k)
  show ?case
  proof (cases "hcount hp = 0")
    case True
    then show ?thesis by (simp add: deleteMin_def heap_delete_def infos_def)
  next
    case False
    then obtain x hp' where x: "deleteMin load hp = (Some x, hp')" "ckheap_ok load hp'" "mset (infos hp) = add_mset x (mset (infos hp'))"
      "\<forall>y \<in> set (infos hp). load x \<le> load y" "hcount hp' = hcount hp - 1" using deleteMin_ok [OF Suc.prems(1)] by blast
    have ih: "mset (drainMin load k hp') = mset (infos hp')" "sorted (map load (drainMin load k hp'))"
      using Suc.IH [OF x(2)] Suc.prems(2) x(5) by auto
    have "set (drainMin load k hp') \<subseteq> set (infos hp)" using mset_eq_setD [OF ih(1)] x(3) by (metis order_refl set_mset_add_mset_insert set_mset_mset subset_insertI)
    then show ?thesis using x ih by auto
  qed
qed

lemma max_as_min: "fillMax load n xs = fillMin (\<lambda>x. - load x) n xs" "drainMax load k hp = drainMin (\<lambda>x. - load x) k hp"
  by (simp add: fillMax_def fillMin_def maxHeap_neg maxHeap_def minHeap_def) (induction k arbitrary: hp, simp_all add: maxHeap_neg split: prod.split option.split)

text \<open>
  C23. The heaps of the load balancers sort: records inserted into a heap with room for them come out
  of \<open>deleteMin\<close> in the order of increasing load and out of \<open>deleteMax\<close> in the order of decreasing
  load, each as often as it was inserted.
\<close>

theorem ckheap_sorts:
  assumes "length xs \<le> n"
  shows "mset (drainMin load n (fillMin load n xs)) = mset xs \<and> sorted (map load (drainMin load n (fillMin load n xs)))
    \<and> mset (drainMax load n (fillMax load n xs)) = mset xs \<and> sorted_wrt (\<ge>) (map load (drainMax load n (fillMax load n xs)))"
proof -
  have d: "mset (drainMin l n (fillMin l n xs)) = mset xs \<and> sorted (map l (drainMin l n (fillMin l n xs)))" for l
    using drainMin_ok [of l "fillMin l n xs" n] fillMin_ok [OF assms, of l] assms by simp
  have "sorted_wrt (\<ge>) (map load ys)" if "sorted (map (\<lambda>x. - load x) ys)" for ys using that by (induction ys) auto
  then show ?thesis unfolding max_as_min using d [of load] d [of "\<lambda>x. - load x"] by blast
qed

theorem ckheap_sorts_witness:
  "sorted (map real (drainMin real 3 (fillMin real 3 [5, 2, 9]))) \<and> mset (drainMax real 3 (fillMax real 3 [5, 2, 9])) = mset [5, 2, 9]"
  using ckheap_sorts [of "[5, 2, 9]" 3 real] by simp

text \<open>
  \<open>minHeap::update\<close> returns and restores the order: after the load of one record of the heap has
  changed, whether up or down, the call moves entries until the heap is in order for the new
  loads, and the heap holds the same records; for a record that is not in the heap it aborts.
\<close>

theorem minheap_update:
  assumes "ckheap_ok load hp" "distinct (infos hp)" "\<And>y. y \<noteq> x \<Longrightarrow> load' y = load y"
  shows "if x \<in> set (infos hp) then \<exists>hp'. minHeap_update load' hp x = Some (Inr hp') \<and> ckheap_ok load' hp' \<and> mset (infos hp') = mset (infos hp)
    else minHeap_update load' hp x = Some (Inl ())"
proof (cases "x \<in> set (infos hp)")
  case True
  then show ?thesis using minHeap_update_ok [OF assms(1,2) True assms(3)] by simp
next
  case False
  have "info (harr hp ! i) \<noteq> x" if "i < hcount hp" for i
  proof -
    have e: "i < length (infos hp)" "infos hp ! i = info (harr hp ! i)" using that assms(1) by (simp_all add: infos_def ckheap_ok_def)
    show ?thesis using nth_mem [OF e(1)] e(2) False by metis
  qed
  then have "find_index (harr hp) (hcount hp) 0 x = hcount hp" using find_index_ok [of 0 "hcount hp" "harr hp" x] by (meson le_neq_implies_less zero_le)
  then show ?thesis using False by (simp add: minHeap_update_def numElements_def Let_def)
qed

theorem minheap_update_witness:
  "\<exists>hp'. minHeap_update (real(5 := 0)) (fillMin real 3 [1, 5, 9]) 5 = Some (Inr hp') \<and> mset (infos hp') = {#1, 5, 9#}"
proof -
  have f: "ckheap_ok real (fillMin real 3 [1, 5, 9])" "mset (infos (fillMin real 3 [1, 5, 9])) = mset [1, 5, 9]"
    using fillMin_ok [of "[1, 5, 9]" 3 real] by simp_all
  have d: "distinct (infos (fillMin real 3 [1, 5, 9]))" using mset_eq_imp_distinct_iff [OF f(2)] by simp
  have "5 \<in> set (infos (fillMin real 3 [1, 5, 9]))" unfolding mset_eq_setD [OF f(2)] by simp
  then show ?thesis using minheap_update [OF f(1) d, of 5 "real(5 := 0)"] f(2) by auto
qed

end
