(* ===== verification/Ck_Set.thy ===== *)
theory Ck_Set
  imports Ck_Heap
begin

text \<open>
  The sets of records of \<open>ck-ldb/ckset.C\<close> and the bit vector sets of \<open>ck-ldb/bitvecset.c\<close>. A \<open>Set\<close>
  owns its chain of list nodes, which is modelled as the list of the records in it; an iterator holds
  the rest of the chain.
\<close>

section \<open>Linked sets\<close>

type_synonym ckset = "info_ptr list"

definition Set_new :: ckset where
  "Set_new = []"

fun Set_find :: "ckset \<Rightarrow> info_ptr \<Rightarrow> bool" where
  "Set_find [] r = False"
| "Set_find (i # p) r = (if i = r then True else Set_find p r)"

definition Set_insert :: "ckset \<Rightarrow> info_ptr \<Rightarrow> ckset" where
  "Set_insert head r = (if \<not> Set_find head r then r # head else head)"

text \<open>\<open>remove_loop p q\<close>: the node \<open>p\<close> and the chain \<open>q\<close> after it.\<close>

fun remove_loop :: "info_ptr \<Rightarrow> ckset \<Rightarrow> info_ptr \<Rightarrow> ckset" where
  "remove_loop p [] r = [p]"
| "remove_loop p (i # q) r = (if i = r then p # q else p # remove_loop i q r)"

fun Set_remove :: "ckset \<Rightarrow> info_ptr \<Rightarrow> ckset" where
  "Set_remove [] r = []"
| "Set_remove (p # q) r = (if p = r then q else remove_loop p q r)"

text \<open>\<open>myRemove\<close> dereferences the end of the chain when the record is missing.\<close>

fun Set_myRemove :: "ckset \<Rightarrow> info_ptr \<Rightarrow> ckset option" where
  "Set_myRemove [] r = None"
| "Set_myRemove (i # n) r = (if i = r then Some n else map_option (Cons i) (Set_myRemove n r))"

text \<open>The result and the iterator, which \<open>iterator\<close> leaves as it was for an empty set.\<close>

fun Set_iterator :: "ckset \<Rightarrow> ckset \<Rightarrow> info_ptr option \<times> ckset" where
  "Set_iterator [] iter = (None, iter)"
| "Set_iterator (i # p) iter = (Some i, p)"

fun Set_next :: "ckset \<Rightarrow> info_ptr option \<times> ckset" where
  "Set_next [] = (None, [])"
| "Set_next (i # p) = (Some i, p)"

fun Set_numElements :: "ckset \<Rightarrow> nat" where
  "Set_numElements [] = 0"
| "Set_numElements (i # p) = Set_numElements p + 1"

lemma Set_find_iff [simp]: "Set_find s r \<longleftrightarrow> r \<in> set s"
  by (induction s) auto

lemma Set_insert_ok: "distinct s \<Longrightarrow> distinct (Set_insert s r) \<and> set (Set_insert s r) = insert r (set s)"
  by (auto simp: Set_insert_def)

lemma remove_loop_eq: "remove_loop p q r = p # remove1 r q"
  by (induction q arbitrary: p) auto

lemma Set_remove_eq: "Set_remove s r = remove1 r s"
  by (cases s) (auto simp: remove_loop_eq)

lemma Set_myRemove_eq: "Set_myRemove s r = (if r \<in> set s then Some (remove1 r s) else None)"
  by (induction s) auto

lemma Set_numElements_eq: "Set_numElements s = length s"
  by (induction s) auto

text \<open>All that an iteration returns: \<open>iterator\<close>, then \<open>next\<close> until it returns the null pointer.\<close>

fun iterate_rest :: "nat \<Rightarrow> ckset \<Rightarrow> info_ptr list" where
  "iterate_rest 0 iter = []"
| "iterate_rest (Suc k) iter = (case Set_next iter of (None, _) \<Rightarrow> [] | (Some r, iter') \<Rightarrow> r # iterate_rest k iter')"

definition iterate :: "ckset \<Rightarrow> info_ptr list" where
  "iterate s = (case Set_iterator s [] of (None, _) \<Rightarrow> [] | (Some r, iter) \<Rightarrow> r # iterate_rest (Set_numElements s) iter)"

lemma iterate_rest_eq: "length iter \<le> k \<Longrightarrow> iterate_rest k iter = iter"
proof (induction k arbitrary: iter)
  case (Suc k)
  then show ?case by (cases iter) auto
qed simp

lemma iterate_eq: "iterate s = s"
  by (cases s) (simp_all add: iterate_def iterate_rest_eq Set_numElements_eq del: iterate_rest.simps)

section \<open>Bit vector sets\<close>

text \<open>\<open>vector\<close> has \<open>1 + max\<close> entries; \<open>None\<close> is an access outside of it.\<close>

record BV_Set =
  bvmax :: int
  bvsize :: int
  vector :: "int list"

fun makeSet_loop :: "int list \<Rightarrow> int \<Rightarrow> int list \<Rightarrow> int list" where
  "makeSet_loop vec bmax [] = vec"
| "makeSet_loop vec bmax (v # vs) = makeSet_loop (if v \<le> bmax \<and> 0 \<le> v then vec[nat v := 1] else vec) bmax vs"

definition makeSet :: "int list \<Rightarrow> int \<Rightarrow> BV_Set" where
  "makeSet vs bmax = \<lparr>bvmax = bmax, bvsize = int (length vs), vector = makeSet_loop (replicate (nat (1 + bmax)) 0) bmax vs\<rparr>"

definition makeEmptySet :: "int \<Rightarrow> BV_Set" where
  "makeEmptySet bmax = makeSet [] bmax"

definition bvset_insert :: "BV_Set \<Rightarrow> int \<Rightarrow> BV_Set" where
  "bvset_insert s value =
    (if value > bvmax s \<or> value < 0 then s
     else if vector s ! nat value \<noteq> 0 then s
     else s\<lparr>vector := (vector s)[nat value := 1], bvsize := bvsize s + 1\<rparr>)"

definition bvset_find :: "BV_Set \<Rightarrow> int \<Rightarrow> int" where
  "bvset_find s value = (if value > bvmax s \<or> value < 0 then - 1 else vector s ! nat value)"

definition bvset_size :: "BV_Set \<Rightarrow> int" where
  "bvset_size s = bvsize s"

text \<open>
  The list that \<open>bvset_enumerate\<close> allocates has \<open>bvsize\<close> entries; entries that are not written hold what
  \<open>malloc\<close> left there (\<open>None\<close> here), and a write past the end is \<open>None\<close> as the result.
\<close>

fun enumerate_loop :: "int list \<Rightarrow> nat \<Rightarrow> nat \<Rightarrow> int option list \<Rightarrow> int option list option" where
  "enumerate_loop [] i j out = Some out"
| "enumerate_loop (b # bs) i j out =
    (if b \<noteq> 0 then (if j < length out then enumerate_loop bs (i + 1) (j + 1) (out[j := Some (int i)]) else None)
     else enumerate_loop bs (i + 1) j out)"

definition bvset_enumerate :: "BV_Set \<Rightarrow> (int option list \<times> int) option" where
  "bvset_enumerate s =
    (case enumerate_loop (vector s) 0 0 (replicate (nat (bvsize s)) None) of
       None \<Rightarrow> None
     | Some out \<Rightarrow> Some (out, bvsize s))"

section \<open>Members of a bit vector set\<close>

fun ones :: "int list \<Rightarrow> nat \<Rightarrow> int list" where
  "ones [] i = []"
| "ones (b # bs) i = (if b \<noteq> 0 then [int i] else []) @ ones bs (i + 1)"

lemma enumerate_loop_ok:
  "j + length (ones bs i) \<le> length out \<Longrightarrow>
    enumerate_loop bs i j out = Some (take j out @ map Some (ones bs i) @ drop (j + length (ones bs i)) out)"
proof (induction bs i j out rule: enumerate_loop.induct)
  case (2 b bs i j out)
  then show ?case by (auto simp: take_Suc_snoc split: if_splits)
qed simp

lemma set_ones: "set (ones bs i) = {int (i + k) | k. k < length bs \<and> bs ! k \<noteq> 0}"
proof (induction bs arbitrary: i)
  case (Cons b bs)
  have "{int (i + k) | k. k < length (b # bs) \<and> (b # bs) ! k \<noteq> 0} = (if b \<noteq> 0 then {int i} else {}) \<union> {int (Suc i + k) | k. k < length bs \<and> bs ! k \<noteq> 0}"
    (is "?l = ?r")
  proof (intro set_eqI iffI)
    fix x assume "x \<in> ?l"
    then obtain k where k: "x = int (i + k)" "k < length (b # bs)" "(b # bs) ! k \<noteq> 0" by blast
    then show "x \<in> ?r" by (cases k) auto
  next
    fix x assume "x \<in> ?r"
    then consider "b \<noteq> 0" "x = int i" | k where "x = int (Suc i + k)" "k < length bs" "bs ! k \<noteq> 0" by (auto split: if_splits)
    then show "x \<in> ?l"
    proof cases
      case 1
      then show ?thesis by (intro CollectI exI [of _ 0]) simp
    next
      case 2
      then show ?thesis by (intro CollectI exI [of _ "Suc k"]) simp
    qed
  qed
  then show ?case using Cons.IH [of "Suc i"] by simp
qed simp

lemma ones_sorted: "sorted (ones bs i) \<and> distinct (ones bs i)"
proof (induction bs arbitrary: i)
  case (Cons b bs)
  have "int i < x" if "x \<in> set (ones bs (Suc i))" for x using that unfolding set_ones by auto
  then show ?case using Cons.IH [of "Suc i"] by (auto intro: less_imp_le)
qed simp

lemma ones_update: "k < length bs \<Longrightarrow> bs ! k = 0 \<Longrightarrow> length (ones (bs[k := 1]) i) = Suc (length (ones bs i))"
proof (induction bs arbitrary: k i)
  case (Cons b bs)
  then show ?case by (cases k) auto
qed simp

definition bv_ok :: "BV_Set \<Rightarrow> bool" where
  "bv_ok s \<longleftrightarrow> length (vector s) = nat (1 + bvmax s) \<and> bvsize s = int (length (ones (vector s) 0)) \<and> set (vector s) \<subseteq> {0, 1}"

definition members :: "BV_Set \<Rightarrow> int set" where
  "members s = set (ones (vector s) 0)"

lemma members_iff: "v \<in> members s \<longleftrightarrow> 0 \<le> v \<and> nat v < length (vector s) \<and> vector s ! nat v \<noteq> 0"
  unfolding members_def set_ones by (auto intro!: exI [of _ "nat v"])

lemma bvset_insert_ok:
  assumes "bv_ok s"
  shows "bv_ok (bvset_insert s v)" "members (bvset_insert s v) = members s \<union> (if 0 \<le> v \<and> v \<le> bvmax s then {v} else {})"
    "bvmax (bvset_insert s v) = bvmax s"
proof -
  have len: "nat w < length (vector s) \<longleftrightarrow> w \<le> bvmax s" if "0 \<le> w" for w using assms that by (auto simp: bv_ok_def)
  show "bv_ok (bvset_insert s v)" using assms len [of v] ones_update [of "nat v" "vector s" 0]
    by (auto simp: bvset_insert_def bv_ok_def dest!: subsetD [OF set_update_subset_insert])
  show "members (bvset_insert s v) = members s \<union> (if 0 \<le> v \<and> v \<le> bvmax s then {v} else {})"
    by (intro set_eqI) (auto simp: members_iff bvset_insert_def nth_list_update len not_less not_le eq_nat_nat_iff)
  show "bvmax (bvset_insert s v) = bvmax s" by (simp add: bvset_insert_def)
qed

lemma ones_zeros: "ones (replicate n 0) i = []"
  by (induction n arbitrary: i) simp_all

lemma makeEmptySet_ok: "bv_ok (makeEmptySet m)" "members (makeEmptySet m) = {}" "bvmax (makeEmptySet m) = m"
  by (simp_all add: makeEmptySet_def makeSet_def bv_ok_def members_def ones_zeros set_replicate_conv_if)

lemma inserted:
  "bv_ok (foldl bvset_insert (makeEmptySet m) vs) \<and> members (foldl bvset_insert (makeEmptySet m) vs) = set vs \<inter> {0..m}
    \<and> bvmax (foldl bvset_insert (makeEmptySet m) vs) = m"
proof (induction vs rule: rev_induct)
  case Nil
  then show ?case using makeEmptySet_ok by simp
next
  case (snoc v vs)
  then show ?case using bvset_insert_ok [of "foldl bvset_insert (makeEmptySet m) vs" v] by auto
qed

lemma bvset_enumerate_ok:
  assumes "bv_ok s"
  shows "bvset_enumerate s = Some (map Some (sorted_list_of_set (members s)), int (card (members s)))"
proof -
  have "ones (vector s) 0 = sorted_list_of_set (members s)"
    using ones_sorted [of "vector s" 0] by (simp add: members_def sorted_list_of_set.idem_if_sorted_distinct)
  moreover have "card (members s) = length (ones (vector s) 0)" unfolding members_def by (rule distinct_card) (use ones_sorted in blast)
  moreover have "enumerate_loop (vector s) 0 0 (replicate (nat (bvsize s)) None) = Some (map Some (ones (vector s) 0))"
    using enumerate_loop_ok [of 0 "vector s" 0 "replicate (nat (bvsize s)) None"] assms by (simp add: bv_ok_def)
  ultimately show ?thesis using assms by (simp add: bvset_enumerate_def bv_ok_def)
qed

lemma bvset_find_ok:
  assumes "bv_ok s"
  shows "bvset_find s v = (if v < 0 \<or> v > bvmax s then - 1 else if v \<in> members s then 1 else 0)"
proof (cases "v < 0 \<or> v > bvmax s")
  case False
  then have "nat v < length (vector s)" using assms by (simp add: bv_ok_def)
  then have "vector s ! nat v \<in> {0, 1}" using assms nth_mem unfolding bv_ok_def by blast
  then show ?thesis using False \<open>nat v < length (vector s)\<close> by (auto simp: bvset_find_def members_iff)
qed (auto simp: bvset_find_def)

section \<open>Properties\<close>

text \<open>
  A bit vector set that is filled by \<open>bvset_insert\<close> is the set of the inserted values between 0 and
  its maximum: \<open>bvset_find\<close> tells its members, \<open>bvset_size\<close> is their number, duplicates not counted,
  and \<open>bvset_enumerate\<close> lists them in increasing order and writes every entry of the list.
\<close>

theorem bvset_contract:
  "let s = foldl bvset_insert (makeEmptySet m) vs; M = set vs \<inter> {0..m} in
    bvset_enumerate s = Some (map Some (sorted_list_of_set M), int (card M)) \<and> bvset_size s = int (card M)
    \<and> bvset_find s v = (if v < 0 \<or> v > m then - 1 else if v \<in> M then 1 else 0)"
proof -
  let ?s = "foldl bvset_insert (makeEmptySet m) vs" and ?M = "set vs \<inter> {0..m}"
  have s: "bv_ok ?s" "members ?s = ?M" "bvmax ?s = m" using inserted [of m vs] by simp_all
  have e: "bvset_enumerate ?s = Some (map Some (sorted_list_of_set ?M), int (card ?M))" using bvset_enumerate_ok [OF s(1)] unfolding s(2) .
  then have "int (card ?M) = bvsize ?s" by (auto simp: bvset_enumerate_def split: option.splits)
  then show ?thesis unfolding Let_def using e bvset_find_ok [OF s(1), of v, unfolded s(2,3)] by (simp only: bvset_size_def)
qed

text \<open>\<open>makeSet\<close> counts duplicates and values out of range, so that entries of the list stay unwritten.\<close>

lemma makeSet_miscounts:
  "bvset_size (makeSet [3, 3] 5) = 2" "bvset_enumerate (makeSet [3, 3] 5) = Some ([Some 3, None], 2)"
  "bvset_enumerate (makeSet [9] 5) = Some ([None], 1)"
  by (simp_all add: makeSet_def bvset_size_def bvset_enumerate_def eval_nat_numeral)

end
