(* ===== verification/Msg_Queue.thy ===== *)
theory Msg_Queue
  imports Charm_Prelude
begin

text \<open>
  The templated message queue of \<open>conv-core/msgq.h\<close>: a bucket of messages per priority, and a
  minimum heap of the priorities with messages. The containers are those of the C++ library: a
  \<open>deque\<close> is a list, the \<open>unordered_map\<close> a map that creates an empty bucket on access, and the
  \<open>priority_queue\<close> a collection of priorities whose top is the smallest.
\<close>

section \<open>Priority buckets\<close>

record ('p, 'm) msgQ =
  qSize :: nat
  msgbuckets :: "'p \<Rightarrow> 'm list option"
  prioQ :: "'p list"

definition msgQ_new :: "('p, 'm) msgQ" where
  "msgQ_new = \<lparr>qSize = 0, msgbuckets = Map.empty, prioQ = []\<rparr>"

definition bucket :: "('p \<Rightarrow> 'm list option) \<Rightarrow> 'p \<Rightarrow> 'm list" where
  "bucket B p = (case B p of None \<Rightarrow> [] | Some bkt \<Rightarrow> bkt)"

definition enq :: "('p, 'm) msgQ \<Rightarrow> 'm \<Rightarrow> 'p \<Rightarrow> bool \<Rightarrow> ('p, 'm) msgQ" where
  "enq q msg prio isFifo =
    (let bkt = bucket (msgbuckets q) prio;
         pq = (if bkt = [] then prio # prioQ q else prioQ q);
         bkt = (if isFifo then bkt @ [msg] else msg # bkt)
     in q\<lparr>msgbuckets := (msgbuckets q)(prio \<mapsto> bkt), prioQ := pq, qSize := qSize q + 1\<rparr>)"

definition msgQ_size :: "('p, 'm) msgQ \<Rightarrow> nat" where
  "msgQ_size q = qSize q"

definition msgQ_empty :: "('p, 'm) msgQ \<Rightarrow> bool" where
  "msgQ_empty q \<longleftrightarrow> 0 = qSize q"

definition pq_top :: "'p::linorder list \<Rightarrow> 'p" where
  "pq_top pq = Min (set pq)"

text \<open>The buckets stay when they are empty, as \<open>CMK_ITERATIVE_MSG_PRIOS\<close> is defined.\<close>

definition msgQ_deq :: "('p::linorder, 'm) msgQ \<Rightarrow> 'm option \<times> ('p, 'm) msgQ" where
  "msgQ_deq q =
    (if msgQ_empty q then (None, q)
     else let p = pq_top (prioQ q);
              bkt = bucket (msgbuckets q) p;
              msg = hd bkt;
              bkt = tl bkt;
              pq = (if bkt = [] then remove1 p (prioQ q) else prioQ q)
          in (Some msg, q\<lparr>msgbuckets := (msgbuckets q)(p \<mapsto> bkt), prioQ := pq, qSize := qSize q - 1\<rparr>))"

text \<open>
  The messages written to the \<open>room\<close> places between \<open>first\<close> and \<open>last\<close>, for the order \<open>ps\<close> in which the
  map yields its keys.
\<close>

fun enumerate_buckets :: "('p \<Rightarrow> 'm list option) \<Rightarrow> nat \<Rightarrow> 'p list \<Rightarrow> 'm list" where
  "enumerate_buckets B room [] = []"
| "enumerate_buckets B room (p # ps) =
    (if room = 0 then []
     else let ms = take room (bucket B p) in ms @ enumerate_buckets B (room - length ms) ps)"

definition msgQ_enumerate :: "('p, 'm) msgQ \<Rightarrow> nat \<Rightarrow> 'p list \<Rightarrow> 'm list" where
  "msgQ_enumerate q room ps = enumerate_buckets (msgbuckets q) room ps"

section \<open>Randomized queue\<close>

text \<open>With \<open>CMK_RANDOMIZED_MSGQ\<close>; \<open>rnd\<close> is the random number.\<close>

definition rand_enq :: "'m list \<Rightarrow> 'm \<Rightarrow> 'm list" where
  "rand_enq randQ msg = randQ @ [msg]"

definition rand_deq :: "'m list \<Rightarrow> nat \<Rightarrow> 'm option \<times> 'm list" where
  "rand_deq randQ rnd =
    (if randQ = [] then (None, randQ)
     else let i = rnd mod length randQ;
              msg = randQ ! i
          in (Some msg, butlast (randQ[i := randQ ! (length randQ - 1)])))"

definition rand_enumerate :: "'m list \<Rightarrow> nat \<Rightarrow> 'm list" where
  "rand_enumerate randQ room = take room randQ"

section \<open>Queue without priorities\<close>

text \<open>With \<open>CMK_NO_MSG_PRIOS\<close>.\<close>

definition plain_enq :: "'m list \<Rightarrow> 'm \<Rightarrow> 'p \<Rightarrow> bool \<Rightarrow> 'm list" where
  "plain_enq bkt msg prio isFifo = bkt @ [msg]"

definition plain_deq :: "'m list \<Rightarrow> 'm option \<times> 'm list" where
  "plain_deq bkt = (if bkt = [] then (None, bkt) else (Some (hd bkt), tl bkt))"

section \<open>Invariant and view\<close>

definition msgq_inv :: "('p::linorder, 'm) msgQ \<Rightarrow> bool" where
  "msgq_inv q \<longleftrightarrow> distinct (prioQ q) \<and> set (prioQ q) = {p. bucket (msgbuckets q) p \<noteq> []}
    \<and> qSize q = (\<Sum>p \<in> set (prioQ q). length (bucket (msgbuckets q) p))"

text \<open>The messages with their priorities in the order of service.\<close>

definition view_of :: "('p::linorder \<Rightarrow> 'm list) \<Rightarrow> ('p \<times> 'm) list" where
  "view_of b = concat (map (\<lambda>p. map (Pair p) (b p)) (sorted_list_of_set {p. b p \<noteq> []}))"

definition msgq_view :: "('p::linorder, 'm) msgQ \<Rightarrow> ('p \<times> 'm) list" where
  "msgq_view q = view_of (bucket (msgbuckets q))"

lemma sorted_list_parts:
  assumes "finite S"
  shows "sorted_list_of_set S = sorted_list_of_set {x \<in> S. x < p} @ (if p \<in> S then [p] else []) @ sorted_list_of_set {x \<in> S. p < x}" (is "_ = ?r")
proof (rule sorted_distinct_set_unique)
  have f: "finite {x \<in> S. x < p}" "finite {x \<in> S. p < x}" using assms by auto
  show "sorted ?r" using f by (auto simp: sorted_append intro: less_imp_le order.trans)
  show "distinct ?r" using f by auto
  show "set (sorted_list_of_set S) = set ?r" using f assms by (auto simp: not_less_iff_gr_or_eq)
qed simp_all

definition part :: "('p \<Rightarrow> 'm list) \<Rightarrow> 'p::linorder set \<Rightarrow> ('p \<times> 'm) list" where
  "part b S = concat (map (\<lambda>p. map (Pair p) (b p)) (sorted_list_of_set S))"

lemma set_part: "finite S \<Longrightarrow> x \<in> set (part b S) \<Longrightarrow> fst x \<in> S"
  by (auto simp: part_def)

lemma view_parts:
  assumes "finite {p. b p \<noteq> []}"
  shows "view_of b = part b {x. b x \<noteq> [] \<and> x < p} @ map (Pair p) (b p) @ part b {x. b x \<noteq> [] \<and> p < x}"
  unfolding view_of_def part_def using sorted_list_parts [OF assms, of p] by simp

lemma part_cong: "(\<And>x. x \<in> S \<Longrightarrow> b x = b' x) \<Longrightarrow> finite S \<Longrightarrow> part b S = part b' S"
  unfolding part_def by (intro arg_cong [of _ _ concat] map_cong refl) auto

lemma view_update:
  assumes "finite {p. b p \<noteq> []}"
  shows "view_of (b(p := ms)) = part b {x. b x \<noteq> [] \<and> x < p} @ map (Pair p) ms @ part b {x. b x \<noteq> [] \<and> p < x}"
proof -
  let ?b = "b(p := ms)"
  have "finite {x. ?b x \<noteq> []}" by (rule finite_subset [of _ "insert p {p. b p \<noteq> []}"]) (use assms in auto)
  note view_parts [OF this, of p]
  moreover have "?b p = ms" by simp
  moreover have "{x. ?b x \<noteq> [] \<and> x < p} = {x. b x \<noteq> [] \<and> x < p}" "{x. ?b x \<noteq> [] \<and> p < x} = {x. b x \<noteq> [] \<and> p < x}" by auto
  moreover have "part ?b {x. b x \<noteq> [] \<and> x < p} = part b {x. b x \<noteq> [] \<and> x < p}" "part ?b {x. b x \<noteq> [] \<and> p < x} = part b {x. b x \<noteq> [] \<and> p < x}"
    by (rule part_cong; use assms in \<open>auto intro: finite_subset\<close>)+
  ultimately show ?thesis by (simp only:)
qed

lemma bucket_upd: "bucket (B(p \<mapsto> ms)) = (bucket B)(p := ms)"
  by (auto simp: bucket_def)

lemma sum_change:
  assumes "finite S" "p \<in> S"
  shows "(\<Sum>x \<in> S. length ((f(p := ms)) x)) + length (f p) = (\<Sum>x \<in> S. length (f x)) + length ms"
proof -
  have "(\<Sum>x \<in> S - {p}. length ((f(p := ms)) x)) = (\<Sum>x \<in> S - {p}. length (f x))" by (rule sum.cong) auto
  then show ?thesis using sum.remove [OF assms, of "\<lambda>x. length (f x)"] sum.remove [OF assms, of "\<lambda>x. length ((f(p := ms)) x)"] by simp
qed

lemma msgq_finite: "msgq_inv q \<Longrightarrow> finite {p. bucket (msgbuckets q) p \<noteq> []}"
  unfolding msgq_inv_def by (metis List.finite_set)

lemma new_inv: "msgq_inv msgQ_new" "msgq_view msgQ_new = []"
  by (simp_all add: msgq_inv_def msgQ_new_def bucket_def msgq_view_def view_of_def)

lemma inv_fields: "msgq_inv (q\<lparr>msgbuckets := B, prioQ := pq, qSize := n\<rparr>) \<longleftrightarrow>
    distinct pq \<and> set pq = {p. bucket B p \<noteq> []} \<and> n = (\<Sum>p \<in> set pq. length (bucket B p))"
  by (simp add: msgq_inv_def)

lemma enq_inv:
  assumes "msgq_inv q"
  shows "msgq_inv (enq q msg p isFifo)"
proof -
  let ?b = "bucket (msgbuckets q)"
  let ?ms = "if isFifo then ?b p @ [msg] else msg # ?b p"
  have q: "distinct (prioQ q)" "set (prioQ q) = {p. ?b p \<noteq> []}" "qSize q = (\<Sum>p \<in> set (prioQ q). length (?b p))"
    using assms by (simp_all add: msgq_inv_def)
  let ?pq = "if ?b p = [] then p # prioQ q else prioQ q"
  have e: "enq q msg p isFifo = q\<lparr>msgbuckets := (msgbuckets q)(p \<mapsto> ?ms), prioQ := ?pq, qSize := qSize q + 1\<rparr>" by (simp add: enq_def Let_def)
  have len: "length ?ms = Suc (length (?b p))" by simp
  have "set ?pq = {x. (?b(p := ?ms)) x \<noteq> []}" using q(2) by auto
  moreover have "distinct ?pq" using q(1,2) by simp
  moreover have "qSize q + 1 = (\<Sum>x \<in> set ?pq. length ((?b(p := ?ms)) x))"
  proof (cases "?b p = []")
    case True
    then have n: "p \<notin> set (prioQ q)" using q(2) by simp
    then have "(\<Sum>x \<in> set (prioQ q). length ((?b(p := ?ms)) x)) = (\<Sum>x \<in> set (prioQ q). length (?b x))"
      by (intro sum.cong refl) (metis fun_upd_other)
    then show ?thesis using True n q(3) by simp
  next
    case False
    then have "p \<in> set (prioQ q)" using q(2) by simp
    from sum_change [OF _ this, of ?b ?ms] show ?thesis using False q(3) len by simp
  qed
  ultimately show ?thesis unfolding e inv_fields bucket_upd by blast
qed

lemma msgq_empty_iff:
  assumes "msgq_inv q"
  shows "msgQ_empty q \<longleftrightarrow> prioQ q = []"
proof
  have q: "qSize q = (\<Sum>p \<in> set (prioQ q). length (bucket (msgbuckets q) p))" "set (prioQ q) = {p. bucket (msgbuckets q) p \<noteq> []}"
    using assms unfolding msgq_inv_def by blast+
  assume "msgQ_empty q"
  then have "(\<Sum>p \<in> set (prioQ q). length (bucket (msgbuckets q) p)) = 0" using q(1) by (simp only: msgQ_empty_def)
  then have z: "\<forall>p \<in> set (prioQ q). bucket (msgbuckets q) p = []" by (simp only: sum_eq_0_iff List.finite_set length_0_conv)
  have "set (prioQ q) = {}"
  proof (rule equals0I)
    fix p assume p: "p \<in> set (prioQ q)"
    then have "bucket (msgbuckets q) p \<noteq> []" unfolding q(2) by simp
    with z p show False by simp
  qed
  then show "prioQ q = []" by simp
qed (use assms in \<open>simp add: msgQ_empty_def msgq_inv_def\<close>)

lemma deq_ok:
  assumes i: "msgq_inv q" and ne: "\<not> msgQ_empty q"
  shows "\<exists>p m q'. msgQ_deq q = (Some m, q') \<and> msgq_inv q' \<and> msgq_view q = (p, m) # msgq_view q'"
proof -
  let ?b = "bucket (msgbuckets q)"
  let ?p = "pq_top (prioQ q)"
  have q: "distinct (prioQ q)" "set (prioQ q) = {p. ?b p \<noteq> []}" "qSize q = (\<Sum>p \<in> set (prioQ q). length (?b p))"
    using i by (simp_all add: msgq_inv_def)
  have fin: "finite {p. ?b p \<noteq> []}" by (rule msgq_finite [OF i])
  have ne': "set (prioQ q) \<noteq> {}" using ne msgq_empty_iff [OF i] by simp
  have pin: "?p \<in> set (prioQ q)" unfolding pq_top_def by (rule Min_in) (use ne' in simp_all)
  obtain m ms where b: "?b ?p = m # ms" using pin unfolding q(2) by (cases "?b ?p") auto
  have low: "{x. ?b x \<noteq> [] \<and> x < ?p} = {}"
  proof (rule equals0I)
    fix x assume x: "x \<in> {x. ?b x \<noteq> [] \<and> x < ?p}"
    then have "x \<in> set (prioQ q)" unfolding q(2) by simp
    then have "?p \<le> x" unfolding pq_top_def by (intro Min_le) simp_all
    then show False using x leD by blast
  qed
  let ?q = "q\<lparr>msgbuckets := (msgbuckets q)(?p \<mapsto> ms), prioQ := (if ms = [] then remove1 ?p (prioQ q) else prioQ q), qSize := qSize q - 1\<rparr>"
  have d: "msgQ_deq q = (Some m, ?q)" using ne b by (simp add: msgQ_deq_def Let_def)
  have "msgq_view q = map (Pair ?p) (m # ms) @ part ?b {x. ?b x \<noteq> [] \<and> ?p < x}"
    using view_parts [OF fin, of ?p] by (simp add: msgq_view_def low b part_def)
  moreover have "msgq_view ?q = map (Pair ?p) ms @ part ?b {x. ?b x \<noteq> [] \<and> ?p < x}"
    using view_update [OF fin, of ?p ms] by (simp add: msgq_view_def bucket_upd low part_def)
  moreover have "msgq_inv ?q"
  proof (cases "ms = []")
    case True
    have s: "(\<Sum>x \<in> set (prioQ q) - {?p}. length ((?b(?p := ms)) x)) = (\<Sum>x \<in> set (prioQ q) - {?p}. length (?b x))" by (rule sum.cong) auto
    have "qSize q = Suc (\<Sum>x \<in> set (prioQ q) - {?p}. length (?b x))" using sum.remove [OF _ pin, of "\<lambda>x. length (?b x)"] q(3) b True by simp
    moreover have "set (prioQ q) - {?p} = {x. (?b(?p := ms)) x \<noteq> []}" using True q(2) by auto
    ultimately show ?thesis using True q(1) s by (simp add: msgq_inv_def bucket_upd)
  next
    case False
    have "set (prioQ q) = {x. (?b(?p := ms)) x \<noteq> []}" using False pin q(2) by auto
    moreover have "qSize q - 1 = (\<Sum>x \<in> set (prioQ q). length ((?b(?p := ms)) x))" using sum_change [OF _ pin, of ?b ms] q(3) b by simp
    ultimately show ?thesis using False q(1) by (simp add: msgq_inv_def bucket_upd)
  qed
  ultimately show ?thesis using d by auto
qed

lemma enq_view:
  assumes i: "msgq_inv q"
  shows "\<exists>xs ys. msgq_view q = xs @ ys \<and> msgq_view (enq q msg p isFifo) = xs @ (p, msg) # ys
    \<and> (if isFifo then (\<forall>x \<in> set xs. fst x \<le> p) \<and> (\<forall>y \<in> set ys. p < fst y) else (\<forall>x \<in> set xs. fst x < p) \<and> (\<forall>y \<in> set ys. p \<le> fst y))"
proof -
  let ?b = "bucket (msgbuckets q)"
  let ?lo = "part ?b {x. ?b x \<noteq> [] \<and> x < p}" and ?hi = "part ?b {x. ?b x \<noteq> [] \<and> p < x}" and ?mid = "map (Pair p) (?b p)"
  have fin: "finite {p. ?b p \<noteq> []}" by (rule msgq_finite [OF i])
  have f: "finite {x. ?b x \<noteq> [] \<and> x < p}" "finite {x. ?b x \<noteq> [] \<and> p < x}" by (rule finite_subset [OF _ fin]; auto)+
  have lo: "fst x < p" if "x \<in> set ?lo" for x using set_part [OF f(1) that] by simp
  have hi: "p < fst x" if "x \<in> set ?hi" for x using set_part [OF f(2) that] by simp
  have v: "msgq_view q = ?lo @ ?mid @ ?hi" using view_parts [OF fin, of p] by (simp add: msgq_view_def)
  have b': "bucket (msgbuckets (enq q msg p isFifo)) = ?b(p := if isFifo then ?b p @ [msg] else msg # ?b p)"
    by (simp add: enq_def Let_def bucket_upd)
  have v': "msgq_view (enq q msg p isFifo) = ?lo @ map (Pair p) (if isFifo then ?b p @ [msg] else msg # ?b p) @ ?hi"
    unfolding msgq_view_def b' by (rule view_update [OF fin])
  show ?thesis
  proof (cases isFifo)
    case True
    then show ?thesis using v v' lo hi by (intro exI [of _ "?lo @ ?mid"] exI [of _ ?hi]) (auto intro: less_imp_le)
  next
    case False
    then show ?thesis using v v' lo hi by (intro exI [of _ ?lo] exI [of _ "?mid @ ?hi"]) (auto intro: less_imp_le)
  qed
qed

lemma rand_deq_ok:
  assumes "randQ \<noteq> []"
  shows "\<exists>m r. rand_deq randQ rnd = (Some m, r) \<and> mset randQ = add_mset m (mset r)"
proof -
  obtain xs x where x: "randQ = xs @ [x]" using assms by (cases randQ rule: rev_cases) auto
  define i where "i = rnd mod length randQ"
  have "i < length randQ" using assms by (simp add: i_def)
  then have i: "i < Suc (length xs)" by (simp add: x)
  have d: "rand_deq randQ rnd = (Some (randQ ! i), butlast (randQ[i := randQ ! (length randQ - 1)]))"
    using assms by (simp add: rand_deq_def i_def Let_def)
  show ?thesis
  proof (cases "i = length xs")
    case True
    then show ?thesis unfolding d by (simp add: x)
  next
    case False
    then have j: "i < length xs" using i by simp
    then have "mset (xs[i := x]) = add_mset x (mset xs) - {#xs ! i#}" by (simp add: mset_update)
    then have "mset randQ = add_mset (xs ! i) (mset (xs[i := x]))" using j by (simp add: x)
    then show ?thesis using j unfolding d by (simp add: x nth_append list_update_append)
  qed
qed

section \<open>Properties\<close>

text \<open>
  C24. The message queue implements the abstract queue of messages in the order of service:
  \<open>enq\<close> puts a message behind all messages of its priority and before all of larger values, or for
  \<open>isFifo\<close> false before all of its priority; \<open>deq\<close> takes the first message, and returns the null
  pointer exactly when there is none. A new queue is empty and all operations keep the invariant.
\<close>

theorem msgq_refines:
  assumes "msgq_inv q"
  shows "(\<exists>xs ys. msgq_view q = xs @ ys \<and> msgq_view (enq q msg p isFifo) = xs @ (p, msg) # ys
      \<and> (if isFifo then (\<forall>x \<in> set xs. fst x \<le> p) \<and> (\<forall>y \<in> set ys. p < fst y) else (\<forall>x \<in> set xs. fst x < p) \<and> (\<forall>y \<in> set ys. p \<le> fst y)))
    \<and> msgq_inv (enq q msg p isFifo)
    \<and> (case msgq_view q of [] \<Rightarrow> msgQ_deq q = (None, q)
        | (p', m) # vs \<Rightarrow> \<exists>q'. msgQ_deq q = (Some m, q') \<and> msgq_inv q' \<and> msgq_view q' = vs)"
proof (cases "msgQ_empty q")
  case True
  then have "prioQ q = []" using msgq_empty_iff [OF assms] by simp
  then have "{p. bucket (msgbuckets q) p \<noteq> []} = {}" using assms unfolding msgq_inv_def by (metis list.set(1))
  then have "msgq_view q = []" by (simp add: msgq_view_def view_of_def)
  moreover have "msgQ_deq q = (None, q)" using True by (simp add: msgQ_deq_def)
  ultimately show ?thesis using enq_view [OF assms, of msg p isFifo] enq_inv [OF assms] by simp
next
  case False
  then obtain p' m q' where "msgQ_deq q = (Some m, q')" "msgq_inv q'" "msgq_view q = (p', m) # msgq_view q'" using deq_ok [OF assms] by blast
  then show ?thesis using enq_view [OF assms, of msg p isFifo] enq_inv [OF assms] by simp
qed

theorem msgq_refines_witness:
  "msgq_view (enq (enq msgQ_new ''a'' (2 :: int) True) ''b'' 1 True) = [(1, ''b''), (2, ''a'')]"
proof -
  have n: "msgq_inv (msgQ_new :: (int, string) msgQ)" "msgq_view (msgQ_new :: (int, string) msgQ) = []" using new_inv by auto
  have a: "msgq_view (enq msgQ_new ''a'' (2 :: int) True) = [(2, ''a'')]" "msgq_inv (enq msgQ_new ''a'' (2 :: int) True)"
    using msgq_refines [OF n(1), of "''a''" 2 True] n(2) by auto
  show ?thesis using msgq_refines [OF a(2), of "''b''" 1 True] a(1) by (auto simp: Cons_eq_append_conv)
qed

end
