(* ===== verification/Cmi_Pool.thy ===== *)
theory Cmi_Pool
  imports Charm_Prelude "HOL-Library.Monad_Syntax"
begin

text \<open>
  The pool allocator of \<open>conv-core/cmipool.c\<close>: free blocks are kept in lists by the power of two that
  holds them. A block is known by the pointer that the client gets; the eight bytes before it are
  its \<open>header\<close>, which links a free block to the next one and tells the bin of a block in use.
  \<open>malloc_nomigrate\<close> returns a new address. \<open>stats\<close> stands for \<open>CMK_WITH_STATS\<close>.
\<close>

type_synonym pool_addr = nat

datatype hdr = Bin int | Link "pool_addr option"

record pool =
  bins :: "pool_addr option list"
  binLengths :: "int list"
  maxBin :: int
  numKallocs :: int
  numMallocs :: int
  numOallocs :: int
  numFrees :: int
  numOFrees :: int
  header :: "pool_addr \<Rightarrow> hdr option"
  room :: "pool_addr \<Rightarrow> nat option"
  pbrk :: pool_addr

definition CMI_POOL_HEADER_SIZE :: nat where
  "CMI_POOL_HEADER_SIZE = 8"

section \<open>Operations\<close>

text \<open>
  The first argument of \<open>CmiPoolAllocInit\<close> is the state of an earlier call, if there was one. The function initialises every
  counter but \<open>numOallocs\<close>, a static variable, which is zero at the start of a program without threads.
\<close>

definition CmiPoolAllocInit :: "pool option \<Rightarrow> nat \<Rightarrow> pool" where
  "CmiPoolAllocInit old numBins = (case old of Some P \<Rightarrow> P | None \<Rightarrow>
    \<lparr>bins = replicate numBins None, binLengths = replicate numBins 0, maxBin = int numBins - 1,
     numKallocs = 0, numMallocs = 0, numOallocs = 0, numFrees = 0, numOFrees = 0,
     header = Map.empty, room = Map.empty, pbrk = 0\<rparr>)"

definition malloc_nomigrate :: "nat \<Rightarrow> pool \<Rightarrow> pool_addr \<times> pool" where
  "malloc_nomigrate n P = (pbrk P, P\<lparr>room := (room P)(pbrk P \<mapsto> n), header := (header P)(pbrk P := None), pbrk := pbrk P + 1\<rparr>)"

text \<open>The loop that finds the bin; for a negative number it does not end.\<close>

partial_function (option) bin_loop :: "int \<Rightarrow> nat \<Rightarrow> nat option" where
  "bin_loop n bin = (if n \<noteq> 0 then bin_loop (n div 2) (bin + 1) else Some bin)"

declare bin_loop.simps [code]

definition pool_take :: "bool \<Rightarrow> nat \<Rightarrow> pool_addr \<Rightarrow> pool \<Rightarrow> pool option" where
  "pool_take stats bin p P =
    (if stats then do {
       len \<leftarrow> arr_get (binLengths P) (int bin);
       let P = P\<lparr>numKallocs := numKallocs P + 1, binLengths := (binLengths P)[bin := len - 1]\<rparr>;
       (if len - 1 \<noteq> 0 then
          (case header P p of Some (Link q) \<Rightarrow> Some (P\<lparr>bins := (bins P)[bin := q]\<rparr>) | _ \<Rightarrow> None)
        else Some (P\<lparr>bins := (bins P)[bin := None]\<rparr>)) }
     else (case header P p of Some (Link q) \<Rightarrow> Some (P\<lparr>bins := (bins P)[bin := q]\<rparr>) | _ \<Rightarrow> None))"

text \<open>\<open>None\<close> is an endless loop, a failed assertion, a shift \<open>1 << bin\<close> that leaves the range of \<open>int\<close>, or a read of memory that holds no such value.\<close>

definition CmiPoolAlloc :: "bool \<Rightarrow> u32 \<Rightarrow> pool \<Rightarrow> (pool_addr \<times> pool) option" where
  "CmiPoolAlloc stats numBytes P = do {
     let n = sint (numBytes + of_nat CMI_POOL_HEADER_SIZE);
     let numBytes = numBytes + of_nat CMI_POOL_HEADER_SIZE;
     bin \<leftarrow> bin_loop n 0;
     (p, P, bin) \<leftarrow>
       (if int bin < maxBin P then
          if bin > 0 then do {
            hd \<leftarrow> arr_get (bins P) (int bin);
            (case hd of
               Some p \<Rightarrow> do { P \<leftarrow> pool_take stats bin p P; Some (p, P, bin) }
             | None \<Rightarrow>
                 if 31 \<le> bin then None else
                 let P = (if stats then P\<lparr>numMallocs := numMallocs P + 1\<rparr> else P);
                     (p, P) = malloc_nomigrate (2 ^ bin) P
                 in Some (p, P, bin)) }
          else None
        else
          let P = (if stats then P\<lparr>numOallocs := numOallocs P + 1\<rparr> else P);
              (p, P) = malloc_nomigrate (unat numBytes) P
          in Some (p, P, 0));
     Some (p, P\<lparr>header := (header P)(p \<mapsto> Bin (int bin))\<rparr>) }"

text \<open>\<open>Inl ()\<close> is the call of \<open>CmiAbort\<close>.\<close>

definition CmiPoolFree :: "bool \<Rightarrow> pool_addr \<Rightarrow> pool \<Rightarrow> (unit + pool) option" where
  "CmiPoolFree stats p P =
    (case header P p of
       Some (Bin bin) \<Rightarrow>
         if bin = 0 then
           let P = (if stats then P\<lparr>numOFrees := numOFrees P + 1\<rparr> else P)
           in Some (Inr (P\<lparr>header := (header P)(p := None), room := (room P)(p := None)\<rparr>))
         else if bin < maxBin P then do {
           let P = (if stats then P\<lparr>numFrees := numFrees P + 1\<rparr> else P);
           hd \<leftarrow> arr_get (bins P) bin;
           let P = P\<lparr>header := (header P)(p \<mapsto> Link hd), bins := (bins P)[nat bin := Some p]\<rparr>;
           (if stats then do {
              len \<leftarrow> arr_get (binLengths P) bin;
              Some (Inr (P\<lparr>binLengths := (binLengths P)[nat bin := len + 1]\<rparr>)) }
            else Some (Inr P)) }
         else Some (Inl ())
     | _ \<Rightarrow> None)"

section \<open>Bins\<close>

lemma bin_loop_ok: "0 \<le> n \<Longrightarrow> \<exists>k. bin_loop n b = Some (b + k) \<and> n < 2 ^ k"
proof (induction "nat n" arbitrary: n b rule: less_induct)
  case less
  show ?case
  proof (cases "n = 0")
    case True
    then show ?thesis by (subst bin_loop.simps) (auto intro!: exI [of _ 0])
  next
    case False
    then have n: "nat (n div 2) < nat n" "0 \<le> n div 2" using less.prems by auto
    from less.hyps [OF n, of "b + 1"] obtain k where k: "bin_loop (n div 2) (b + 1) = Some (b + 1 + k)" "n div 2 < 2 ^ k" by blast
    have "bin_loop n b = Some (b + Suc k)" using False k(1) by (subst bin_loop.simps) simp
    moreover have "n < 2 ^ Suc k" using k(2) by simp
    ultimately show ?thesis by blast
  qed
qed

lemma bin_loop_stuck: "bin_loop n b = Some r \<Longrightarrow> 0 \<le> n"
proof -
  assume "bin_loop n b = Some r"
  then show ?thesis
  proof (rule bin_loop.raw_induct [where P = "\<lambda>n b r. 0 \<le> n", rotated])
    fix loop :: "int \<Rightarrow> nat \<Rightarrow> nat option" and n b r
    assume IH: "\<And>n b r. loop n b = Some r \<Longrightarrow> 0 \<le> n" and body: "(if n \<noteq> 0 then loop (n div 2) (b + 1) else Some b) = Some r"
    show "0 \<le> n"
    proof (cases "n = 0")
      case False
      then have "loop (n div 2) (b + 1) = Some r" using body by simp
      from IH [OF this] have "0 \<le> n div 2" .
      then show ?thesis by (simp add: pos_imp_zdiv_nonneg_iff)
    qed simp
  qed
qed

section \<open>Invariant\<close>

definition first :: "pool_addr list \<Rightarrow> pool_addr option" where
  "first xs = (case xs of [] \<Rightarrow> None | x # _ \<Rightarrow> Some x)"

lemma first_simps [simp]: "first [] = None" "first (x # xs) = Some x"
  by (simp_all add: first_def)

fun pchain :: "(pool_addr \<Rightarrow> hdr option) \<Rightarrow> pool_addr list \<Rightarrow> bool" where
  "pchain h [] = True"
| "pchain h (p # xs) \<longleftrightarrow> h p = Some (Link (first xs)) \<and> pchain h xs"

lemma pchain_frame: "pchain h xs \<Longrightarrow> (\<And>p. p \<in> set xs \<Longrightarrow> h' p = h p) \<Longrightarrow> pchain h' xs"
  by (induction xs) auto

text \<open>The free list of a bin, and a block in use.\<close>

definition bin_ok :: "bool \<Rightarrow> pool \<Rightarrow> nat \<Rightarrow> pool_addr list \<Rightarrow> bool" where
  "bin_ok stats P k xs \<longleftrightarrow> pchain (header P) xs \<and> bins P ! k = first xs \<and> distinct xs \<and> set xs \<subseteq> {..<pbrk P}
    \<and> (stats \<longrightarrow> binLengths P ! k = int (length xs)) \<and> (\<forall>p \<in> set xs. room P p = Some (2 ^ k))"

definition used_ok :: "pool \<Rightarrow> pool_addr \<Rightarrow> bool" where
  "used_ok P p \<longleftrightarrow> p < pbrk P \<and> (\<exists>b. header P p = Some (Bin (int b)) \<and> int b < maxBin P \<and> (0 < b \<longrightarrow> room P p = Some (2 ^ b)))"

definition pool_inv :: "bool \<Rightarrow> pool \<Rightarrow> pool_addr set \<Rightarrow> bool" where
  "pool_inv stats P live \<longleftrightarrow> 0 < maxBin P \<and> maxBin P \<le> 31 \<and> length (bins P) = nat (maxBin P + 1) \<and> length (binLengths P) = nat (maxBin P + 1)
    \<and> (\<forall>p \<in> live. used_ok P p)
    \<and> (\<exists>F. (\<forall>k < length (bins P). bin_ok stats P k (F k) \<and> set (F k) \<inter> live = {})
        \<and> (\<forall>j < length (bins P). \<forall>k < length (bins P). j \<noteq> k \<longrightarrow> set (F j) \<inter> set (F k) = {}))"

lemma init_inv: "1 < numBins \<Longrightarrow> numBins \<le> 32 \<Longrightarrow> pool_inv stats (CmiPoolAllocInit None numBins) {}"
  unfolding pool_inv_def by (intro conjI exI [of _ "\<lambda>_. []"]) (auto simp: CmiPoolAllocInit_def bin_ok_def)

lemma bin_ok_frame:
  assumes "bin_ok stats P k xs" "bins P' ! k = bins P ! k" "binLengths P' ! k = binLengths P ! k" "pbrk P \<le> pbrk P'"
    and "\<And>p. p \<in> set xs \<Longrightarrow> header P' p = header P p \<and> room P' p = room P p"
  shows "bin_ok stats P' k xs"
  using assms pchain_frame [of "header P" xs "header P'"] by (auto simp: bin_ok_def)

lemma used_ok_frame:
  "used_ok P p \<Longrightarrow> header P' p = header P p \<Longrightarrow> room P' p = room P p \<Longrightarrow> maxBin P' = maxBin P \<Longrightarrow> pbrk P \<le> pbrk P' \<Longrightarrow> used_ok P' p"
  by (auto simp: used_ok_def)

lemma pool_invE:
  assumes "pool_inv stats P live"
  obtains F where "\<forall>k < length (bins P). bin_ok stats P k (F k)" "\<forall>k < length (bins P). set (F k) \<inter> live = {}"
    "\<forall>j < length (bins P). \<forall>k < length (bins P). j \<noteq> k \<longrightarrow> set (F j) \<inter> set (F k) = {}"
  using assms unfolding pool_inv_def by blast

lemma pool_invI:
  assumes "0 < maxBin P" "maxBin P \<le> 31" "length (bins P) = nat (maxBin P + 1)" "length (binLengths P) = nat (maxBin P + 1)" "\<And>p. p \<in> live \<Longrightarrow> used_ok P p"
    and "\<And>k. k < length (bins P) \<Longrightarrow> bin_ok stats P k (F k)" "\<And>k. k < length (bins P) \<Longrightarrow> set (F k) \<inter> live = {}"
    and "\<And>j k. j < length (bins P) \<Longrightarrow> k < length (bins P) \<Longrightarrow> j \<noteq> k \<Longrightarrow> set (F j) \<inter> set (F k) = {}"
  shows "pool_inv stats P live"
  unfolding pool_inv_def using assms by blast

lemma fresh_not_live: "pool_inv stats P live \<Longrightarrow> pbrk P \<notin> live"
  by (auto simp: pool_inv_def used_ok_def)

lemma fresh_alloc:
  assumes i: "pool_inv stats P live"
    and e: "bins P' = bins P" "binLengths P' = binLengths P" "maxBin P' = maxBin P" "pbrk P' = pbrk P + 1"
      "header P' = (header P)(pbrk P \<mapsto> Bin (int b))" "room P' = (room P)(pbrk P \<mapsto> r)"
    and b: "int b < maxBin P" "0 < b \<Longrightarrow> r = 2 ^ b"
  shows "pool_inv stats P' (insert (pbrk P) live)"
proof -
  obtain F where F0: "\<forall>k < length (bins P). bin_ok stats P k (F k)" "\<forall>k < length (bins P). set (F k) \<inter> live = {}"
    "\<forall>j < length (bins P). \<forall>k < length (bins P). j \<noteq> k \<longrightarrow> set (F j) \<inter> set (F k) = {}" by (rule pool_invE [OF i])
  note F = F0 [rule_format]
  have I: "0 < maxBin P" "length (bins P) = nat (maxBin P + 1)" "length (binLengths P) = nat (maxBin P + 1)" "\<And>p. p \<in> live \<Longrightarrow> used_ok P p"
    "maxBin P \<le> 31"
    using i by (auto simp: pool_inv_def)
  have fresh: "p \<noteq> pbrk P" if "k < length (bins P)" "p \<in> set (F k)" for k p using F(1) [OF that(1)] that(2) by (auto simp: bin_ok_def)
  show "pool_inv stats P' (insert (pbrk P) live)"
  proof (rule pool_invI)
    show "used_ok P' p" if "p \<in> insert (pbrk P) live" for p
    proof (cases "p = pbrk P")
      case True
      then show ?thesis using e b by (auto simp: used_ok_def)
    next
      case False
      then have "used_ok P p" using that I(4) by blast
      then show ?thesis by (rule used_ok_frame) (use False e in simp_all)
    qed
    fix k assume k: "k < length (bins P')"
    then have k': "k < length (bins P)" using e by simp
    show "bin_ok stats P' k (F k)" by (rule bin_ok_frame [OF F(1) [OF k']]) (use e fresh [OF k'] in auto)
    show "set (F k) \<inter> insert (pbrk P) live = {}" using F(2) [OF k'] fresh [OF k'] by auto
  qed (use I e F(3) in auto)
qed

lemma take_alloc:
  assumes i: "pool_inv stats P live" and k: "k < length (bins P)" "int k < maxBin P" "bins P ! k = Some p"
  shows "\<exists>P'. pool_take stats k p P = Some P' \<and> p \<notin> live \<and> room P p = Some (2 ^ k) \<and> room P' = room P
    \<and> pool_inv stats (P'\<lparr>header := (header P')(p \<mapsto> Bin (int k))\<rparr>) (insert p live)"
proof -
  obtain F where F0: "\<forall>k < length (bins P). bin_ok stats P k (F k)" "\<forall>k < length (bins P). set (F k) \<inter> live = {}"
    "\<forall>j < length (bins P). \<forall>k < length (bins P). j \<noteq> k \<longrightarrow> set (F j) \<inter> set (F k) = {}" by (rule pool_invE [OF i])
  note F = F0 [rule_format]
  have I: "0 < maxBin P" "length (bins P) = nat (maxBin P + 1)" "length (binLengths P) = nat (maxBin P + 1)" "\<And>p. p \<in> live \<Longrightarrow> used_ok P p"
    "maxBin P \<le> 31"
    using i by (auto simp: pool_inv_def)
  obtain xs where xs: "F k = p # xs" using F(1) [OF k(1)] k(3) by (cases "F k") (auto simp: bin_ok_def)
  have K: "header P p = Some (Link (first xs))" "pchain (header P) xs" "p \<notin> set xs" "distinct xs" "set xs \<subseteq> {..<pbrk P}" "p < pbrk P"
    "stats \<Longrightarrow> binLengths P ! k = int (length xs) + 1" "\<forall>q \<in> set (p # xs). room P q = Some (2 ^ k)"
    using F(1) [OF k(1)] xs by (auto simp: bin_ok_def)
  have pl: "p \<notin> live" using F(2) [OF k(1)] xs by simp
  let ?bl = "if stats then (binLengths P)[k := int (length xs)] else binLengths P"
  let ?P = "P\<lparr>bins := (bins P)[k := first xs], binLengths := ?bl, numKallocs := numKallocs P + (if stats then 1 else 0)\<rparr>"
  have "arr_get (binLengths P) (int k) = Some (binLengths P ! k)" using k(1) I by (simp add: arr_get_def)
  then have take: "pool_take stats k p P = Some ?P" using K(1,7) by (cases xs) (auto simp: pool_take_def)
  let ?Q = "?P\<lparr>header := (header ?P)(p \<mapsto> Bin (int k))\<rparr>"
  have "pool_inv stats ?Q (insert p live)"
  proof (rule pool_invI [where F = "F(k := xs)"])
    show "used_ok ?Q q" if "q \<in> insert p live" for q
    proof (cases "q = p")
      case True
      then show ?thesis using K k(2) by (auto simp: used_ok_def)
    next
      case False
      then have "used_ok P q" using that I(4) by blast
      then show ?thesis by (rule used_ok_frame) (use False in simp_all)
    qed
    fix j assume j: "j < length (bins ?Q)"
    show "bin_ok stats ?Q j ((F(k := xs)) j)"
    proof (cases "j = k")
      case True
      have "pchain (header ?Q) xs" by (rule pchain_frame [OF K(2)]) (use K(3) in auto)
      then show ?thesis using True K k(1) I by (auto simp: bin_ok_def)
    next
      case False
      have "p \<notin> set (F j)" using F(3) [OF _ k(1) False] j xs by auto
      then have "bin_ok stats ?Q j (F j)" using False j by (intro bin_ok_frame [OF F(1)]) auto
      then show ?thesis using False by simp
    qed
    show "set ((F(k := xs)) j) \<inter> insert p live = {}"
      using F(2) [of j] F(3) [of j k] j k(1) xs K(3) F(2) [OF k(1)] by (cases "j = k") auto
    fix l assume l: "l < length (bins ?Q)" "j \<noteq> l"
    show "set ((F(k := xs)) j) \<inter> set ((F(k := xs)) l) = {}"
      using F(3) [of j l] F(3) [of k l] F(3) [of j k] j l k(1) xs by auto
  qed (use I in auto)
  then show ?thesis using take pl K(8) by auto
qed

lemma free_big:
  "header P p = Some (Bin 0) \<Longrightarrow> CmiPoolFree stats p P =
    Some (Inr (P\<lparr>numOFrees := numOFrees P + (if stats then 1 else 0), header := (header P)(p := None), room := (room P)(p := None)\<rparr>))"
  by (cases stats) (simp_all add: CmiPoolFree_def)

lemma free_small:
  assumes "header P p = Some (Bin (int b))" "b \<noteq> 0" "int b < maxBin P" "b < length (bins P)" "b < length (binLengths P)"
  shows "CmiPoolFree stats p P =
    Some (Inr (P\<lparr>numFrees := numFrees P + (if stats then 1 else 0), header := (header P)(p \<mapsto> Link (bins P ! b)), bins := (bins P)[b := Some p],
      binLengths := (if stats then (binLengths P)[b := binLengths P ! b + 1] else binLengths P)\<rparr>))"
  using assms by (cases stats) (simp_all add: CmiPoolFree_def arr_get_def)

lemma free_block:
  assumes i: "pool_inv stats P live" and p: "p \<in> live"
  shows "\<exists>P'. CmiPoolFree stats p P = Some (Inr P') \<and> pool_inv stats P' (live - {p})"
proof -
  obtain F where F0: "\<forall>k < length (bins P). bin_ok stats P k (F k)" "\<forall>k < length (bins P). set (F k) \<inter> live = {}"
    "\<forall>j < length (bins P). \<forall>k < length (bins P). j \<noteq> k \<longrightarrow> set (F j) \<inter> set (F k) = {}" by (rule pool_invE [OF i])
  note F = F0 [rule_format]
  have I: "0 < maxBin P" "length (bins P) = nat (maxBin P + 1)" "length (binLengths P) = nat (maxBin P + 1)" "\<And>p. p \<in> live \<Longrightarrow> used_ok P p"
    "maxBin P \<le> 31"
    using i by (auto simp: pool_inv_def)
  have out: "p \<notin> set (F k)" if "k < length (bins P)" for k using F(2) [OF that] p by blast
  obtain b where b: "p < pbrk P" "header P p = Some (Bin (int b))" "int b < maxBin P" "0 < b \<Longrightarrow> room P p = Some (2 ^ b)"
    using I(4) [OF p] by (auto simp: used_ok_def)
  show ?thesis
  proof (cases "b = 0")
    case True
    let ?Q = "P\<lparr>numOFrees := numOFrees P + (if stats then 1 else 0), header := (header P)(p := None), room := (room P)(p := None)\<rparr>"
    have "CmiPoolFree stats p P = Some (Inr ?Q)" by (rule free_big) (use True b(2) in simp)
    moreover have "pool_inv stats ?Q (live - {p})"
    proof (rule pool_invI [where F = F])
      show "used_ok ?Q q" if "q \<in> live - {p}" for q by (rule used_ok_frame [of P]) (use I(4) [of q] that in auto)
      fix k assume k: "k < length (bins ?Q)"
      then have k': "k < length (bins P)" by simp
      have "q \<noteq> p" if "q \<in> set (F k)" for q using that out [OF k'] by blast
      then show "bin_ok stats ?Q k (F k)" by (intro bin_ok_frame [OF F(1) [OF k']]) auto
      show "set (F k) \<inter> (live - {p}) = {}" using F(2) [OF k'] by blast
    qed (use I F(3) in auto)
    ultimately show ?thesis by blast
  next
    case False
    have k: "b < length (bins P)" using b(3) I by simp
    let ?bl = "if stats then (binLengths P)[b := binLengths P ! b + 1] else binLengths P"
    let ?Q = "P\<lparr>numFrees := numFrees P + (if stats then 1 else 0), header := (header P)(p \<mapsto> Link (bins P ! b)), bins := (bins P)[b := Some p], binLengths := ?bl\<rparr>"
    have "CmiPoolFree stats p P = Some (Inr ?Q)" by (rule free_small) (use False b k I in auto)
    moreover have "pool_inv stats ?Q (live - {p})"
    proof (rule pool_invI [where F = "F(b := p # F b)"])
      show "used_ok ?Q q" if "q \<in> live - {p}" for q by (rule used_ok_frame [of P]) (use I(4) [of q] that in auto)
      fix j assume j: "j < length (bins ?Q)"
      then have j': "j < length (bins P)" by simp
      show "bin_ok stats ?Q j ((F(b := p # F b)) j)"
      proof (cases "j = b")
        case True
        have "pchain (header ?Q) (F b)" by (rule pchain_frame [of "header P"]) (use F(1) [OF k] out [OF k] in \<open>auto simp: bin_ok_def\<close>)
        then show ?thesis using True F(1) [OF k] out [OF k] k b False I by (auto simp: bin_ok_def)
      next
        case False
        have "q \<noteq> p" if "q \<in> set (F j)" for q using that out [OF j'] by blast
        then have "bin_ok stats ?Q j (F j)" using False by (intro bin_ok_frame [OF F(1) [OF j']]) auto
        then show ?thesis using False by simp
      qed
      show "set ((F(b := p # F b)) j) \<inter> (live - {p}) = {}" using F(2) [OF j'] F(2) [OF k] by (cases "j = b") auto
      fix l assume l: "l < length (bins ?Q)" "j \<noteq> l"
      then have l': "l < length (bins P)" by simp
      show "set ((F(b := p # F b)) j) \<inter> set ((F(b := p # F b)) l) = {}"
        using F(3) [OF j' l' l(2)] out [OF j'] out [OF l'] l(2) by (cases "j = b"; cases "l = b") auto
    qed (use I in auto)
    ultimately show ?thesis by blast
  qed
qed

lemma alloc_block:
  assumes i: "pool_inv stats P live" and n: "unat numBytes + CMI_POOL_HEADER_SIZE < 2 ^ 31"
  shows "\<exists>p P' r. CmiPoolAlloc stats numBytes P = Some (p, P') \<and> p \<notin> live \<and> room P' p = Some r \<and> unat numBytes + CMI_POOL_HEADER_SIZE \<le> r
    \<and> pool_inv stats P' (insert p live)"
proof -
  let ?n = "unat numBytes + CMI_POOL_HEADER_SIZE" and ?w = "numBytes + of_nat CMI_POOL_HEADER_SIZE"
  have u: "unat ?w = ?n" using n by (simp add: unat_word_ariths CMI_POOL_HEADER_SIZE_def)
  have s: "sint ?w = int ?n" using sint_small [of ?w] u n by simp
  from bin_loop_ok [of "int ?n" 0] obtain k where k: "bin_loop (int ?n) 0 = Some k" "int ?n < 2 ^ k" by auto
  have "int ?n < int (2 ^ k)" using k(2) by (simp only: of_nat_power of_nat_numeral)
  then have kn: "?n < 2 ^ k" unfolding of_nat_less_iff .
  then have room: "?n \<le> 2 ^ k" by (rule less_imp_le)
  have k0: "0 < k" using kn by (cases k) (auto simp: CMI_POOL_HEADER_SIZE_def)
  have I: "0 < maxBin P" "length (bins P) = nat (maxBin P + 1)" "maxBin P \<le> 31" using i by (simp_all add: pool_inv_def)
  show ?thesis
  proof (cases "int k < maxBin P")
    case False
    let ?Q = "P\<lparr>numOallocs := numOallocs P + (if stats then 1 else 0), room := (room P)(pbrk P \<mapsto> ?n), header := (header P)(pbrk P \<mapsto> Bin 0), pbrk := pbrk P + 1\<rparr>"
    have "CmiPoolAlloc stats numBytes P = Some (pbrk P, ?Q)" using False k(1) s u by (cases stats) (simp_all add: CmiPoolAlloc_def Let_def malloc_nomigrate_def)
    moreover have "pool_inv stats ?Q (insert (pbrk P) live)" by (rule fresh_alloc [OF i, where b = 0]) (use I in simp_all)
    ultimately show ?thesis using fresh_not_live [OF i] by auto
  next
    case True
    then have kb: "k < length (bins P)" using I by simp
    then have g: "arr_get (bins P) (int k) = Some (bins P ! k)" by (simp add: arr_get_def)
    show ?thesis
    proof (cases "bins P ! k")
      case None
      let ?Q = "P\<lparr>numMallocs := numMallocs P + (if stats then 1 else 0), room := (room P)(pbrk P \<mapsto> 2 ^ k), header := (header P)(pbrk P \<mapsto> Bin (int k)), pbrk := pbrk P + 1\<rparr>"
      have "CmiPoolAlloc stats numBytes P = Some (pbrk P, ?Q)" using True None g k(1) k0 s I(3) by (cases stats) (simp_all add: CmiPoolAlloc_def Let_def malloc_nomigrate_def)
      moreover have "pool_inv stats ?Q (insert (pbrk P) live)" by (rule fresh_alloc [OF i, where b = k]) (use True in simp_all)
      ultimately show ?thesis using room fresh_not_live [OF i] by auto
    next
      case (Some p)
      from take_alloc [OF i kb True Some] obtain P' where
        P': "pool_take stats k p P = Some P'" "p \<notin> live" "room P p = Some (2 ^ k)" "room P' = room P"
          "pool_inv stats (P'\<lparr>header := (header P')(p \<mapsto> Bin (int k))\<rparr>) (insert p live)" by blast
      have "CmiPoolAlloc stats numBytes P = Some (p, P'\<lparr>header := (header P')(p \<mapsto> Bin (int k))\<rparr>)"
        using True Some g k(1) k0 s P'(1) by (simp add: CmiPoolAlloc_def Let_def)
      then show ?thesis using P' room by auto
    qed
  qed
qed

text \<open>A request of two gigabytes or more is a negative \<open>int\<close>, which the shift never brings to zero.\<close>

lemma pool_alloc_stuck:
  assumes "sint (numBytes + of_nat CMI_POOL_HEADER_SIZE) < 0"
  shows "CmiPoolAlloc stats numBytes P = None"
proof -
  have "bin_loop (sint (numBytes + of_nat CMI_POOL_HEADER_SIZE)) 0 = None"
    using bin_loop_stuck [of "sint (numBytes + of_nat CMI_POOL_HEADER_SIZE)" 0] assms by (meson not_le option.exhaust)
  then show ?thesis by (simp add: CmiPoolAlloc_def Let_def)
qed

definition demo_pool :: pool where
  "demo_pool = snd (the (CmiPoolAlloc True 100 (CmiPoolAllocInit None 30)))"

lemma demo_pool_inv: "pool_inv True demo_pool {0}"
proof -
  have "unat (100 :: u32) + CMI_POOL_HEADER_SIZE < 2 ^ 31" by (simp add: CMI_POOL_HEADER_SIZE_def)
  from alloc_block [OF init_inv [of 30 True] this] obtain p P' where
    P': "CmiPoolAlloc True 100 (CmiPoolAllocInit None 30) = Some (p, P')" "pool_inv True P' (insert p {})" by auto
  have "fst (the (CmiPoolAlloc True 100 (CmiPoolAllocInit None 30))) = 0" by code_simp
  then show ?thesis using P' by (simp add: demo_pool_def)
qed

text \<open>
  C14. The pool allocator is safe: in any state that \<open>pool_inv\<close> describes, with the set of the blocks that clients
  hold, an allocation returns, and returns a block that no client holds and that has room for the request and the header,
  provided that the request with its header of 8 bytes is less than \<open>2 ^ 31\<close> bytes (\<open>pool_alloc_stuck\<close> is the other case); a block that a client holds can be freed without an abort; and both keep the invariant.
\<close>

theorem pool_safe:
  assumes "pool_inv stats P live" "unat numBytes + CMI_POOL_HEADER_SIZE < 2 ^ 31"
  shows "(\<exists>p P' r. CmiPoolAlloc stats numBytes P = Some (p, P') \<and> p \<notin> live \<and> room P' p = Some r \<and> unat numBytes + CMI_POOL_HEADER_SIZE \<le> r
      \<and> pool_inv stats P' (insert p live))
    \<and> (\<forall>p \<in> live. \<exists>P'. CmiPoolFree stats p P = Some (Inr P') \<and> pool_inv stats P' (live - {p}))"
  using alloc_block [OF assms] free_block [OF assms(1)] by blast

theorem pool_safe_witness:
  "(\<exists>p P' r. CmiPoolAlloc True 24 demo_pool = Some (p, P') \<and> p \<notin> {0} \<and> room P' p = Some r \<and> 32 \<le> r \<and> pool_inv True P' {p, 0})
    \<and> (\<exists>P'. CmiPoolFree True 0 demo_pool = Some (Inr P') \<and> pool_inv True P' {})"
  using pool_safe [OF demo_pool_inv, of 24] by (simp add: CMI_POOL_HEADER_SIZE_def)

end
