(* ===== verification/Ck_Hash.thy ===== *)
theory Ck_Hash
  imports Charm_Prelude "HOL-Library.Monad_Syntax"
begin

unbundle bit_operations_syntax

text \<open>
  The open addressing hash table of \<open>util/ckhashtable.C\<close> and \<open>util/ckhashtable.h\<close>. An entry is empty or
  holds a key and an object; \<^term>\<open>None\<close> is the content of object storage that nobody has written.
  Of the layout of an entry in bytes the size is kept, because the size of the table and the offsets into it are
  computed as products of type \<open>int\<close>; an entry is copied as a whole, and a pointer into the table is the index of its entry.
  Load factors, of type \<open>float\<close>, are real numbers; half of the length of a table is exact up to \<open>2 ^ 24\<close> entries.
\<close>

datatype ('k, 'o) entry = Empty | Full 'k "'o option"

record ('k, 'o) hashtable =
  len :: nat
  entrySize :: nat
  table :: "('k, 'o) entry list"
  nObj :: int
  resizeAt :: int
  loadFactor :: real

datatype hash_error = NoSpotFound

section \<open>Keys\<close>

text \<open>Byte strings; the loop counter of the code is \<open>i\<close>.\<close>

definition hash_byte :: "u32 \<Rightarrow> nat \<Rightarrow> u32" where
  "hash_byte d i =
    (let shift1 = (5 * i) mod 16 + 0; shift2 = (6 * i) mod 16 + 8
     in push_bit shift2 (0xa5 XOR d) + push_bit shift1 d)"

fun hash_loop :: "nat \<Rightarrow> u32 \<Rightarrow> u32 list \<Rightarrow> u32" where
  "hash_loop i ret [] = ret"
| "hash_loop i ret (d # ds) = hash_loop (i + 1) (ret + hash_byte d i) ds"

definition CkHashFunction_default :: "8 word list \<Rightarrow> u32" where
  "CkHashFunction_default key = hash_loop 0 0 (map ucast key)"

text \<open>The characters of a string are signed; the byte that ends it is not part of the list.\<close>

definition CkHashFunction_string :: "8 word list \<Rightarrow> u32" where
  "CkHashFunction_string key = hash_loop 0 0 (map scast key)"

definition CkHashFunction_int :: "u32 \<Rightarrow> u32" where
  "CkHashFunction_int key = key"

definition CkHashFunction_pointer :: "u64 \<Rightarrow> u32" where
  "CkHashFunction_pointer key = ucast key XOR ucast (drop_bit 32 key)"

fun CkHashCompare_default :: "8 word list \<Rightarrow> 8 word list \<Rightarrow> bool" where
  "CkHashCompare_default (a # as) (b # bs) = (if a \<noteq> b then False else CkHashCompare_default as bs)"
| "CkHashCompare_default _ _ = True"

fun CkHashCompare_string :: "8 word list \<Rightarrow> 8 word list \<Rightarrow> bool" where
  "CkHashCompare_string (a # as) (b # bs) = (if a \<noteq> b then False else CkHashCompare_string as bs)"
| "CkHashCompare_string _ _ = True"

definition CkHashCompare_int :: "u32 \<Rightarrow> u32 \<Rightarrow> bool" where
  "CkHashCompare_int k1 k2 = (k1 = k2)"

definition CkHashCompare_pointer :: "u64 \<Rightarrow> u64 \<Rightarrow> bool" where
  "CkHashCompare_pointer k1 k2 = (k1 = k2)"

definition circleShift :: "u32 \<Rightarrow> nat \<Rightarrow> u32" where
  "circleShift h b = (let b = b mod 32 in if b = 0 then h else push_bit b h OR drop_bit (32 - b) h)"

section \<open>Table\<close>

definition inc :: "nat \<Rightarrow> nat \<Rightarrow> nat" where
  "inc n i = (if i + 1 \<ge> n then 0 else i + 1)"

text \<open>
  \<open>findKey\<close> and \<open>findEntry\<close> walk from the home position of the key until they see an empty entry or
  the key, or are back at the start; they differ in what they return. \<^term>\<open>None\<close> is a read outside of
  the table or the remainder by zero.
\<close>

datatype spot = AtEmpty nat | AtKey nat | NoSpot

partial_function (option) find_loop :: "('k \<Rightarrow> 'k \<Rightarrow> bool) \<Rightarrow> 'k \<Rightarrow> ('k, 'o) entry list \<Rightarrow> nat \<Rightarrow> nat \<Rightarrow> nat \<Rightarrow> spot option" where
  "find_loop compare key t n startSpot i =
    (if length t \<le> i then None else
     (case t ! i of
        Empty \<Rightarrow> Some (AtEmpty i)
      | Full curKey _ \<Rightarrow>
          if compare key curKey then Some (AtKey i)
          else let i = inc n i in if i \<noteq> startSpot then find_loop compare key t n startSpot i else Some NoSpot))"

declare find_loop.simps [code]

definition find_spot :: "('k \<Rightarrow> u32) \<Rightarrow> ('k \<Rightarrow> 'k \<Rightarrow> bool) \<Rightarrow> 'k \<Rightarrow> ('k, 'o) hashtable \<Rightarrow> spot option" where
  "find_spot hash compare key H =
    (if len H = 0 then None else
     let i = unat (hash key) mod len H in find_loop compare key (table H) (len H) i i)"

definition findKey :: "('k \<Rightarrow> u32) \<Rightarrow> ('k \<Rightarrow> 'k \<Rightarrow> bool) \<Rightarrow> 'k \<Rightarrow> ('k, 'o) hashtable \<Rightarrow> nat option option" where
  "findKey hash compare key H =
    map_option (\<lambda>s. case s of AtKey i \<Rightarrow> Some i | _ \<Rightarrow> None) (find_spot hash compare key H)"

definition findEntry :: "('k \<Rightarrow> u32) \<Rightarrow> ('k \<Rightarrow> 'k \<Rightarrow> bool) \<Rightarrow> 'k \<Rightarrow> ('k, 'o) hashtable \<Rightarrow> (hash_error + nat) option" where
  "findEntry hash compare key H =
    map_option (\<lambda>s. case s of AtEmpty i \<Rightarrow> Inr i | AtKey i \<Rightarrow> Inr i | NoSpot \<Rightarrow> Inl NoSpotFound) (find_spot hash compare key H)"

text \<open>
  \<^term>\<open>None\<close> is a table whose size in bytes is not an \<open>int\<close>. The offset of an entry is a smaller product, so that it does not overflow
  when the size does not.
\<close>

definition buildTable :: "nat \<Rightarrow> ('k, 'o) hashtable \<Rightarrow> ('k, 'o) hashtable option" where
  "buildTable newLen H =
    (if 2 ^ 31 \<le> entrySize H * newLen then None
     else Some (H\<lparr>len := newLen, resizeAt := \<lfloor>real newLen * loadFactor H\<rfloor>, table := replicate newLen Empty\<rparr>))"

fun rehash_loop :: "('k \<Rightarrow> u32) \<Rightarrow> ('k \<Rightarrow> 'k \<Rightarrow> bool) \<Rightarrow> ('k, 'o) entry list \<Rightarrow> ('k, 'o) hashtable \<Rightarrow> (hash_error + ('k, 'o) hashtable) option" where
  "rehash_loop hash compare [] H = Some (Inr H)"
| "rehash_loop hash compare (Empty # src) H = rehash_loop hash compare src H"
| "rehash_loop hash compare (Full k v # src) H = do {
     dest \<leftarrow> findEntry hash compare k H;
     (case dest of
        Inl e \<Rightarrow> Some (Inl e)
      | Inr d \<Rightarrow> rehash_loop hash compare src (H\<lparr>table := (table H)[d := Full k v]\<rparr>)) }"

text \<open>A negative length is the failure of \<open>new\<close>.\<close>

definition rehash :: "('k \<Rightarrow> u32) \<Rightarrow> ('k \<Rightarrow> 'k \<Rightarrow> bool) \<Rightarrow> int \<Rightarrow> ('k, 'o) hashtable \<Rightarrow> (hash_error + ('k, 'o) hashtable) option" where
  "rehash hash compare newLen H =
    (if newLen < 0 then None
     else do { B \<leftarrow> buildTable (nat newLen) H; rehash_loop hash compare (table H) B })"

definition doublingPrimes :: "u32 list" where
  "doublingPrimes = [3, 7, 17, 37, 73, 157, 307, 617, 1217, 2417, 4817, 9677, 20117, 40177, 80177, 160117, 320107,
    640007, 1280107, 2560171, 5120117, 10000079, 20000077, 40000217, 80000111, 160000177, 320000171, 640000171,
    1280000017, 2560000217, 4200000071]"

fun prime_loop :: "u32 list \<Rightarrow> u32 \<Rightarrow> u32 option" where
  "prime_loop [] x = None"
| "prime_loop (p # ps) x = (if p \<le> x then prime_loop ps x else Some p)"

definition primeLargerThan :: "u32 \<Rightarrow> u32 option" where
  "primeLargerThan x = prime_loop doublingPrimes x"

definition CkHashtable :: "nat \<Rightarrow> nat \<Rightarrow> real \<Rightarrow> ('k, 'o) hashtable option" where
  "CkHashtable esize initLen NloadFactor =
    buildTable initLen \<lparr>len = 0, entrySize = esize, table = [], nObj = 0, resizeAt = 0, loadFactor = NloadFactor\<rparr>"

definition hash_empty :: "('k, 'o) hashtable \<Rightarrow> ('k, 'o) hashtable" where
  "hash_empty H = H\<lparr>table := replicate (len H) Empty, nObj := 0\<rparr>"

text \<open>The result of \<open>put\<close> is the index of the object storage and \<open>*existing\<close>.\<close>

definition hash_grow :: "('k \<Rightarrow> u32) \<Rightarrow> ('k \<Rightarrow> 'k \<Rightarrow> bool) \<Rightarrow> ('k, 'o) hashtable \<Rightarrow> (hash_error + ('k, 'o) hashtable) option" where
  "hash_grow hash compare H =
    (if nObj H \<ge> resizeAt H then do {
       p \<leftarrow> primeLargerThan (of_nat (len H));
       rehash hash compare (sint p) H }
     else Some (Inr H))"

definition hash_put :: "('k \<Rightarrow> u32) \<Rightarrow> ('k \<Rightarrow> 'k \<Rightarrow> bool) \<Rightarrow> 'k \<Rightarrow> ('k, 'o) hashtable
    \<Rightarrow> (hash_error + (nat \<times> bool \<times> ('k, 'o) hashtable)) option" where
  "hash_put hash compare key H = do {
     g \<leftarrow> hash_grow hash compare H;
     (case g of Inl e \<Rightarrow> Some (Inl e) | Inr H \<Rightarrow> do {
        ent \<leftarrow> findEntry hash compare key H;
        (case ent of Inl e \<Rightarrow> Some (Inl e) | Inr i \<Rightarrow>
           (case table H ! i of
              Empty \<Rightarrow> Some (Inr (i, False, H\<lparr>nObj := nObj H + 1, table := (table H)[i := Full key None]\<rparr>))
            | Full _ _ \<Rightarrow> Some (Inr (i, True, H)))) }) }"

definition hash_get :: "('k \<Rightarrow> u32) \<Rightarrow> ('k \<Rightarrow> 'k \<Rightarrow> bool) \<Rightarrow> 'k \<Rightarrow> ('k, 'o) hashtable \<Rightarrow> nat option option" where
  "hash_get hash compare key H = findKey hash compare key H"

partial_function (option) remove_loop :: "('k \<Rightarrow> u32) \<Rightarrow> ('k \<Rightarrow> 'k \<Rightarrow> bool) \<Rightarrow> nat \<Rightarrow> ('k, 'o) hashtable
    \<Rightarrow> (hash_error + ('k, 'o) hashtable) option" where
  "remove_loop hash compare i H =
    (let i = inc (len H) i in
     if length (table H) \<le> i then None else
     (case table H ! i of
        Empty \<Rightarrow> Some (Inr H)
      | Full k v \<Rightarrow> do {
          dest \<leftarrow> findEntry hash compare k H;
          (case dest of
             Inl e \<Rightarrow> Some (Inl e)
           | Inr d \<Rightarrow>
               if i \<noteq> d then remove_loop hash compare i (H\<lparr>table := (table H)[d := Full k v, i := Empty]\<rparr>)
               else remove_loop hash compare i H) }))"

declare remove_loop.simps [code]

definition hash_remove :: "('k \<Rightarrow> u32) \<Rightarrow> ('k \<Rightarrow> 'k \<Rightarrow> bool) \<Rightarrow> 'k \<Rightarrow> ('k, 'o) hashtable
    \<Rightarrow> (hash_error + (int \<times> ('k, 'o) hashtable)) option" where
  "hash_remove hash compare key H = do {
     doomed \<leftarrow> findKey hash compare key H;
     (case doomed of
        None \<Rightarrow> Some (Inr (0, H))
      | Some i \<Rightarrow> do {
          r \<leftarrow> remove_loop hash compare i (H\<lparr>nObj := nObj H - 1, table := (table H)[i := Empty]\<rparr>);
          (case r of Inl e \<Rightarrow> Some (Inl e) | Inr H \<Rightarrow> Some (Inr (1, H))) }) }"

definition numObjects :: "('k, 'o) hashtable \<Rightarrow> int" where
  "numObjects H = nObj H"

section \<open>Typed tables\<close>

text \<open>\<open>put(key) = obj\<close> and \<open>get(key)\<close> of \<open>CkHashtableTslow\<close>, and the inlined \<open>get\<close> of \<open>CkHashtableT\<close>.\<close>

definition store_obj :: "nat \<Rightarrow> 'o \<Rightarrow> ('k, 'o) hashtable \<Rightarrow> ('k, 'o) hashtable" where
  "store_obj i v H = (case table H ! i of Full k _ \<Rightarrow> H\<lparr>table := (table H)[i := Full k (Some v)]\<rparr> | Empty \<Rightarrow> H)"

definition tslow_put :: "('k \<Rightarrow> u32) \<Rightarrow> ('k \<Rightarrow> 'k \<Rightarrow> bool) \<Rightarrow> 'k \<Rightarrow> 'o \<Rightarrow> ('k, 'o) hashtable \<Rightarrow> (hash_error + ('k, 'o) hashtable) option" where
  "tslow_put hash compare key v H =
    map_option (map_sum id (\<lambda>(i, _, H). store_obj i v H)) (hash_put hash compare key H)"

text \<open>A missing object is the zero of the object type, here \<^term>\<open>None\<close>.\<close>

definition tslow_get :: "('k \<Rightarrow> u32) \<Rightarrow> ('k \<Rightarrow> 'k \<Rightarrow> bool) \<Rightarrow> 'k \<Rightarrow> ('k, 'o) hashtable \<Rightarrow> 'o option option" where
  "tslow_get hash compare key H =
    map_option (\<lambda>r. case r of None \<Rightarrow> None | Some i \<Rightarrow> (case table H ! i of Full _ v \<Rightarrow> v | Empty \<Rightarrow> None)) (hash_get hash compare key H)"

partial_function (option) get_loop :: "('k \<Rightarrow> 'k \<Rightarrow> bool) \<Rightarrow> 'k \<Rightarrow> ('k, 'o) entry list \<Rightarrow> nat \<Rightarrow> nat \<Rightarrow> 'o option option" where
  "get_loop compare key t n i =
    (if length t \<le> i then None else
     (case t ! i of
        Empty \<Rightarrow> Some None
      | Full curKey v \<Rightarrow> if compare key curKey then Some v else get_loop compare key t n (inc n i)))"

declare get_loop.simps [code]

definition t_get :: "('k \<Rightarrow> u32) \<Rightarrow> ('k \<Rightarrow> 'k \<Rightarrow> bool) \<Rightarrow> 'k \<Rightarrow> ('k, 'o) hashtable \<Rightarrow> 'o option option" where
  "t_get hash compare key H =
    (if len H = 0 then None else get_loop compare key (table H) (len H) (unat (hash key) mod len H))"

section \<open>Iterators\<close>

record ('k, 'o) iterator =
  it_len :: nat
  it_table :: "('k, 'o) entry list"
  curNo :: int

definition hash_iterator :: "('k, 'o) hashtable \<Rightarrow> ('k, 'o) iterator" where
  "hash_iterator H = \<lparr>it_len = len H, it_table = table H, curNo = 0\<rparr>"

definition seekStart :: "('k, 'o) iterator \<Rightarrow> ('k, 'o) iterator" where
  "seekStart it = it\<lparr>curNo := 0\<rparr>"

definition seek :: "int \<Rightarrow> ('k, 'o) iterator \<Rightarrow> ('k, 'o) iterator" where
  "seek n it =
    (let c = curNo it + n; c = (if c < 0 then 0 else c); c = (if c > int (it_len it) then int (it_len it) else c)
     in it\<lparr>curNo := c\<rparr>)"

function skip_empty :: "('k, 'o) entry list \<Rightarrow> nat \<Rightarrow> int \<Rightarrow> int" where
  "skip_empty t n c = (if c < int n then if t ! nat c = Empty then skip_empty t n (c + 1) else c else c)"
  by auto
termination by (relation "measure (\<lambda>(t, n, c). nat (int n - c))") auto

declare skip_empty.simps [simp del]

definition hasNext :: "('k, 'o) iterator \<Rightarrow> bool \<times> ('k, 'o) iterator" where
  "hasNext it = (let c = skip_empty (it_table it) (it_len it) (curNo it) in (c < int (it_len it), it\<lparr>curNo := c\<rparr>))"

definition it_next :: "('k, 'o) iterator \<Rightarrow> ('k \<times> 'o option) option \<times> ('k, 'o) iterator" where
  "it_next it =
    (let c = skip_empty (it_table it) (it_len it) (curNo it) in
     if c < int (it_len it) then
       (case it_table it ! nat c of Full k v \<Rightarrow> Some (k, v) | Empty \<Rightarrow> None, it\<lparr>curNo := c + 1\<rparr>)
     else (None, it\<lparr>curNo := c\<rparr>))"

section \<open>Packing\<close>

text \<open>The stream of the pup framework is the sequence of the values that are packed.\<close>

datatype ('k, 'o) pup_value = PInt int | PKey 'k | PObj 'o

fun hash_pack :: "nat \<Rightarrow> ('k, 'o) iterator \<Rightarrow> ('k, 'o) pup_value list option" where
  "hash_pack 0 it = None"
| "hash_pack (Suc fuel) it =
    (case it_next it of
       (None, it) \<Rightarrow> Some [PInt 0]
     | (Some (k, Some v), it) \<Rightarrow> map_option (\<lambda>s. PInt 1 # PKey k # PObj v # s) (hash_pack fuel it)
     | (Some (k, None), it) \<Rightarrow> None)"

fun hash_unpack :: "('k \<Rightarrow> u32) \<Rightarrow> ('k \<Rightarrow> 'k \<Rightarrow> bool) \<Rightarrow> ('k, 'o) pup_value list \<Rightarrow> ('k, 'o) hashtable \<Rightarrow> (hash_error + ('k, 'o) hashtable) option" where
  "hash_unpack hash compare (PInt i # s) H =
    (if i \<noteq> 0 then
       (case s of
          PKey k # PObj v # s \<Rightarrow> do {
            r \<leftarrow> tslow_put hash compare k v H;
            (case r of Inl e \<Rightarrow> Some (Inl e) | Inr H \<Rightarrow> hash_unpack hash compare s H) }
        | _ \<Rightarrow> None)
     else Some (Inr H))"
| "hash_unpack hash compare _ H = None"

section \<open>C interface\<close>

text \<open>An entry holds the key, the byte for empty entries, a gap, and the object.\<close>

definition CkCreateHashtable_int :: "nat \<Rightarrow> nat \<Rightarrow> (u32, 'o) hashtable option" where
  "CkCreateHashtable_int objBytes initSize = (let objStart = 2 * 4 in CkHashtable (objStart + objBytes) initSize (1 / 2))"

definition CkCreateHashtable_pointer :: "nat \<Rightarrow> nat \<Rightarrow> (u64, 'o) hashtable option" where
  "CkCreateHashtable_pointer objBytes initSize = (let objStart = 2 * 8 in CkHashtable (objStart + objBytes) initSize (1 / 2))"

definition CkCreateHashtable_string :: "nat \<Rightarrow> nat \<Rightarrow> (8 word list, 'o) hashtable option" where
  "CkCreateHashtable_string objBytes initSize = (let objStart = 2 * 8 in CkHashtable (objStart + objBytes) initSize (1 / 2))"

end
