(* ===== verification/Ck_Hash_Probe.thy ===== *)
theory Ck_Hash_Probe
  imports Ck_Hash
begin

text \<open>
  Linear probing. The distance from the home position of a key around the table orders the entries
  that a search looks at; a table is well probed when no empty entry lies before an entry on the way from its home.
\<close>

section \<open>Distance around the table\<close>

definition cdist :: "nat \<Rightarrow> nat \<Rightarrow> nat \<Rightarrow> nat" where
  "cdist n s i = nat ((int i - int s) mod int n)"

lemma cdist_less: "0 < n \<Longrightarrow> cdist n s i < n"
  by (simp add: cdist_def nat_less_iff)

lemma cdist_self [simp]: "cdist n s s = 0"
  by (simp add: cdist_def)

lemma cdist_add:
  assumes "0 < n"
  shows "cdist n s x = (cdist n s h + cdist n h x) mod n"
proof -
  have "int (cdist n s x) = (int x - int s) mod int n" using assms by (simp add: cdist_def)
  also have "\<dots> = ((int h - int s) mod int n + (int x - int h) mod int n) mod int n" by (simp add: mod_simps)
  also have "\<dots> = int ((cdist n s h + cdist n h x) mod n)" using assms by (simp add: cdist_def zmod_int)
  finally show ?thesis by (simp only: of_nat_eq_iff)
qed

lemma cdist_inj:
  assumes "i < n" "j < n" "cdist n s i = cdist n s j"
  shows "i = j"
proof -
  have "(int i - int s) mod int n = (int j - int s) mod int n" using assms by (simp add: cdist_def eq_nat_nat_iff)
  then have "((int i - int s) mod int n + int s) mod int n = ((int j - int s) mod int n + int s) mod int n" by simp
  then have "int i mod int n = int j mod int n" by (simp add: mod_simps)
  then show ?thesis using assms(1,2) by (simp add: zmod_int [symmetric])
qed

lemma inc_less: "i < n \<Longrightarrow> inc n i < n"
  by (simp add: inc_def)

lemma cdist_inc_mod: "i < n \<Longrightarrow> cdist n s (inc n i) = (cdist n s i + 1) mod n"
proof -
  assume i: "i < n"
  then have n: "0 < n" by simp
  have "int (inc n i) = (int i + 1) mod int n" using i by (cases "i + 1 = n") (auto simp: inc_def add.commute)
  then have "int (cdist n s (inc n i)) = (int i + 1 - int s) mod int n" using n by (simp add: cdist_def mod_simps)
  also have "\<dots> = ((int i - int s) mod int n + 1) mod int n" by (simp add: mod_simps algebra_simps)
  also have "\<dots> = int ((cdist n s i + 1) mod n)" using n by (simp add: cdist_def zmod_int add.commute)
  finally show ?thesis by (simp only: of_nat_eq_iff)
qed

lemma cdist_inc:
  assumes "i < n" "s < n" "inc n i \<noteq> s"
  shows "cdist n s (inc n i) = Suc (cdist n s i)"
proof -
  have "cdist n s (inc n i) \<noteq> cdist n s s" using cdist_inj [OF inc_less [OF assms(1)] assms(2)] assms(3) by blast
  then have "(cdist n s i + 1) mod n \<noteq> 0" using cdist_inc_mod [OF assms(1)] by simp
  moreover have "cdist n s i < n" using cdist_less assms(1) by simp
  ultimately have "Suc (cdist n s i) < n" by (metis Suc_eq_plus1 Suc_lessI mod_self)
  then show ?thesis using cdist_inc_mod [OF assms(1)] by simp
qed

lemma cdist_wrap:
  assumes "i < n" "inc n i = s"
  shows "Suc (cdist n s i) = n"
proof -
  have "(cdist n s i + 1) mod n = 0" using cdist_inc_mod [OF assms(1), of s] assms(2) by simp
  moreover have "cdist n s i < n" using cdist_less assms(1) by simp
  ultimately show ?thesis by (metis Suc_eq_plus1 Suc_lessI mod_less nat.distinct(1))
qed

lemma cdist_via:
  assumes "0 < n" "cdist n s h + cdist n h x < n"
  shows "cdist n s x = cdist n s h + cdist n h x"
  using cdist_add [OF assms(1), of s x h] assms(2) by simp

lemma cdist_split:
  assumes "0 < n" "cdist n s h \<le> cdist n s q"
  shows "cdist n s q = cdist n s h + cdist n h q"
proof (cases "cdist n s h + cdist n h q < n")
  case True
  then show ?thesis using cdist_via assms(1) by blast
next
  case False
  have "cdist n s h + cdist n h q < 2 * n" using cdist_less [OF assms(1), of s h] cdist_less [OF assms(1), of h q] by simp
  then have "cdist n s q = cdist n s h + cdist n h q - n" using False cdist_add [OF assms(1), of s q h] by (simp add: mod_if)
  then show ?thesis using assms(2) False cdist_less [OF assms(1), of h q] by linarith
qed

section \<open>Tables\<close>

definition hash_entries :: "('k, 'o) entry list \<Rightarrow> ('k \<times> 'o option) list" where
  "hash_entries t = List.map_filter (\<lambda>e. case e of Full k v \<Rightarrow> Some (k, v) | Empty \<Rightarrow> None) t"

lemma hash_entries_simps [simp]:
  "hash_entries [] = []" "hash_entries (Empty # t) = hash_entries t" "hash_entries (Full k v # t) = (k, v) # hash_entries t"
  "hash_entries (t @ t') = hash_entries t @ hash_entries t'"
  by (simp_all add: hash_entries_def List.map_filter_def)

lemma set_hash_entries: "(k, v) \<in> set (hash_entries t) \<longleftrightarrow> Full k v \<in> set t"
  by (induction t rule: list.induct) (auto simp: hash_entries_def List.map_filter_def split: entry.splits)

lemma hash_entries_replicate [simp]: "hash_entries (replicate n Empty) = []"
  by (induction n) simp_all

lemma hash_entries_update:
  assumes "p < length t"
  shows "length (hash_entries (t[p := e])) + (if t ! p = Empty then 0 else 1) = length (hash_entries t) + (if e = Empty then 0 else 1)"
proof -
  have "t = take p t @ t ! p # drop (Suc p) t" "t[p := e] = take p t @ e # drop (Suc p) t"
    using assms by (simp_all add: id_take_nth_drop upd_conv_take_nth_drop)
  then have "length (hash_entries t) = length (hash_entries (take p t @ t ! p # drop (Suc p) t))"
    "length (hash_entries (t[p := e])) = length (hash_entries (take p t @ e # drop (Suc p) t))" by metis+
  then show ?thesis by (cases "t ! p"; cases e) simp_all
qed

lemma hash_entries_le: "length (hash_entries t) \<le> length t"
  by (simp add: hash_entries_def List.map_filter_def)

lemma hash_entries_full: "length (hash_entries t) < length t \<longleftrightarrow> Empty \<in> set t"
proof (induction t)
  case (Cons e t)
  then show ?case using hash_entries_le [of t] by (cases e) auto
qed simp

text \<open>No key is twice in a table.\<close>

definition unique_keys :: "('k, 'o) entry list \<Rightarrow> bool" where
  "unique_keys t \<longleftrightarrow> (\<forall>i j k v w. i < length t \<and> j < length t \<and> t ! i = Full k v \<and> t ! j = Full k w \<longrightarrow> i = j)"

lemma unique_keysD: "unique_keys t \<Longrightarrow> i < length t \<Longrightarrow> j < length t \<Longrightarrow> t ! i = Full k v \<Longrightarrow> t ! j = Full k w \<Longrightarrow> i = j"
  unfolding unique_keys_def by blast

definition keys_of :: "('k, 'o) entry list \<Rightarrow> 'k set" where
  "keys_of t = fst ` set (hash_entries t)"

lemma keys_of_iff: "k \<in> keys_of t \<longleftrightarrow> (\<exists>i < length t. \<exists>v. t ! i = Full k v)"
proof -
  have "k \<in> keys_of t \<longleftrightarrow> (\<exists>v. (k, v) \<in> set (hash_entries t))" by (force simp: keys_of_def)
  also have "\<dots> \<longleftrightarrow> (\<exists>v. Full k v \<in> set t)" by (simp only: set_hash_entries)
  also have "\<dots> \<longleftrightarrow> (\<exists>i < length t. \<exists>v. t ! i = Full k v)" by (auto simp: in_set_conv_nth)
  finally show ?thesis .
qed

definition hview :: "('k, 'o) entry list \<Rightarrow> 'k \<rightharpoonup> 'o option" where
  "hview t = map_of (hash_entries t)"

lemma dom_hview: "dom (hview t) = keys_of t"
  by (simp add: hview_def keys_of_def dom_map_of_conv_image_fst)

lemma hview_iff:
  assumes "unique_keys t"
  shows "hview t k = Some v \<longleftrightarrow> (\<exists>i < length t. t ! i = Full k v)"
proof
  assume "hview t k = Some v"
  then have "(k, v) \<in> set (hash_entries t)" unfolding hview_def by (rule map_of_SomeD)
  then have "Full k v \<in> set t" by (simp only: set_hash_entries)
  then show "\<exists>i < length t. t ! i = Full k v" by (auto simp: in_set_conv_nth)
next
  assume "\<exists>i < length t. t ! i = Full k v"
  then obtain i where i: "i < length t" "t ! i = Full k v" by blast
  then have "k \<in> dom (hview t)" unfolding dom_hview keys_of_iff by blast
  then obtain w where w: "hview t k = Some w" by blast
  then have "(k, w) \<in> set (hash_entries t)" unfolding hview_def by (rule map_of_SomeD)
  then have "Full k w \<in> set t" by (simp only: set_hash_entries)
  then obtain j where "j < length t" "t ! j = Full k w" by (auto simp: in_set_conv_nth)
  then show "hview t k = Some v" using unique_keysD [OF assms i(1) _ i(2)] i(2) w by fastforce
qed

lemma hview_None: "hview t k = None \<longleftrightarrow> k \<notin> keys_of t"
  using dom_hview [of t] by (metis domIff)

lemma hview_unique: "unique_keys t \<Longrightarrow> i < length t \<Longrightarrow> t ! i = Full k v \<Longrightarrow> hview t k = Some v"
  using hview_iff [of t k v] by auto

lemma hview_eqI:
  assumes "unique_keys t" "unique_keys t'"
    and "\<And>k v. (\<exists>i < length t'. t' ! i = Full k v) \<longleftrightarrow> m k = Some v"
  shows "hview t' = m"
proof
  fix k
  show "hview t' k = m k"
  proof (cases "m k")
    case None
    then have "\<nexists>v. hview t' k = Some v" using assms(3) hview_iff [OF assms(2)] by simp
    then show ?thesis using None by auto
  next
    case (Some v)
    then show ?thesis using assms(3) hview_iff [OF assms(2)] by simp
  qed
qed

lemma unique_set:
  assumes "unique_keys t" "p < length t" "k \<notin> keys_of t \<or> (\<exists>w. t ! p = Full k w)"
  shows "unique_keys (t[p := Full k v])"
  unfolding unique_keys_def
proof (intro allI impI, elim conjE)
  fix i j k' v' w'
  assume h: "i < length (t[p := Full k v])" "j < length (t[p := Full k v])" "t[p := Full k v] ! i = Full k' v'" "t[p := Full k v] ! j = Full k' w'"
  have other: "q = p" if q: "q < length t" "t ! q = Full k x" for q x
  proof -
    have "k \<in> keys_of t" unfolding keys_of_iff using q by blast
    then obtain w where "t ! p = Full k w" using assms(3) by blast
    then show ?thesis by (rule unique_keysD [OF assms(1) q(1) assms(2) q(2)])
  qed
  show "i = j"
  proof (rule ccontr)
    assume ij: "i \<noteq> j"
    consider "i = p" | "j = p" | "i \<noteq> p" "j \<noteq> p" by blast
    then show False
    proof cases
      case 1
      then have "k' = k" "t ! j = Full k' w'" using h ij assms(2) by simp_all
      then show False using other [of j w'] h(2) ij 1 by simp
    next
      case 2
      then have "k' = k" "t ! i = Full k' v'" using h ij assms(2) by simp_all
      then show False using other [of i v'] h(1) ij 2 by simp
    next
      case 3
      then show False using unique_keysD [OF assms(1), of i j k' v' w'] h ij by simp
    qed
  qed
qed

lemma hview_set:
  assumes "unique_keys t" "p < length t" "k \<notin> keys_of t \<and> t ! p = Empty \<or> (\<exists>w. t ! p = Full k w)"
  shows "hview (t[p := Full k v]) = (hview t)(k \<mapsto> v)"
proof (rule hview_eqI [OF assms(1)])
  show u: "unique_keys (t[p := Full k v])" using unique_set [OF assms(1,2)] assms(3) by blast
  fix k' v'
  show "(\<exists>i < length (t[p := Full k v]). t[p := Full k v] ! i = Full k' v') \<longleftrightarrow> ((hview t)(k \<mapsto> v)) k' = Some v'"
  proof (cases "k' = k")
    case True
    have "v' = v" if "i < length t" "t[p := Full k v] ! i = Full k v'" for i
      using that unique_keysD [OF u, of i p k v' v] assms(2) by (auto simp: nth_list_update split: if_splits)
    then show ?thesis using True assms(2) by (auto intro!: exI [of _ p])
  next
    case False
    have "(\<exists>i < length t. t[p := Full k v] ! i = Full k' v') \<longleftrightarrow> (\<exists>i < length t. t ! i = Full k' v')"
      using False assms(2,3) by (metis entry.distinct(1) entry.inject nth_list_update_eq nth_list_update_neq)
    then show ?thesis using False hview_iff [OF assms(1)] by simp
  qed
qed

lemma unique_clear: "unique_keys t \<Longrightarrow> unique_keys (t[p := Empty])"
  unfolding unique_keys_def by (metis entry.distinct(1) length_list_update nth_list_update_eq nth_list_update_neq)

lemma hview_clear:
  assumes "unique_keys t" "p < length t" "t ! p = Full k v"
  shows "hview (t[p := Empty]) = (hview t)(k := None)"
proof (rule hview_eqI [OF assms(1) unique_clear [OF assms(1)]])
  fix k' v'
  show "(\<exists>i < length (t[p := Empty]). t[p := Empty] ! i = Full k' v') \<longleftrightarrow> ((hview t)(k := None)) k' = Some v'"
  proof (cases "k' = k")
    case True
    have "t[p := Empty] ! i \<noteq> Full k v'" if "i < length t" for i
      using that assms(2) unique_keysD [OF assms(1) that assms(2) _ assms(3)] by (auto simp: nth_list_update)
    then show ?thesis using True by simp
  next
    case False
    have "(\<exists>i < length t. t[p := Empty] ! i = Full k' v') \<longleftrightarrow> (\<exists>i < length t. t ! i = Full k' v')"
      using False assms(2,3) by (metis entry.distinct(1) entry.inject nth_list_update_eq nth_list_update_neq)
    then show ?thesis using False hview_iff [OF assms(1)] by simp
  qed
qed

end
