(* ===== verification/Ck_Hash_Ops.thy ===== *)
theory Ck_Hash_Ops
  imports Ck_Hash_Probe
begin

text \<open>
  The operations of the hash table keep it well probed and act on the map of its entries, for every hash
  function and every comparison that decides equality on the keys in use.
\<close>

definition home :: "('k \<Rightarrow> u32) \<Rightarrow> nat \<Rightarrow> 'k \<Rightarrow> nat" where
  "home hash n k = unat (hash k) mod n"

lemma home_less: "0 < n \<Longrightarrow> home hash n k < n"
  by (simp add: home_def)

text \<open>The entries before position \<open>i\<close> on the way from the home of \<open>k\<close> are in use.\<close>

definition way :: "('k \<Rightarrow> u32) \<Rightarrow> ('k, 'o) entry list \<Rightarrow> 'k \<Rightarrow> nat \<Rightarrow> bool" where
  "way hash t k i \<longleftrightarrow> (\<forall>p < length t. cdist (length t) (home hash (length t) k) p < cdist (length t) (home hash (length t) k) i \<longrightarrow> t ! p \<noteq> Empty)"

definition probed :: "('k \<Rightarrow> u32) \<Rightarrow> 'k set \<Rightarrow> ('k, 'o) entry list \<Rightarrow> bool" where
  "probed hash K t \<longleftrightarrow> unique_keys t \<and> keys_of t \<subseteq> K \<and> (\<forall>i < length t. \<forall>k v. t ! i = Full k v \<longrightarrow> way hash t k i)"

lemma probed_unique: "probed hash K t \<Longrightarrow> unique_keys t"
  by (simp add: probed_def)

lemma key_in: "keys_of t \<subseteq> K \<Longrightarrow> i < length t \<Longrightarrow> t ! i = Full k v \<Longrightarrow> k \<in> K"
  using keys_of_iff [of k t] by blast

locale hash_keys =
  fixes hash :: "'k \<Rightarrow> u32" and compare :: "'k \<Rightarrow> 'k \<Rightarrow> bool" and K :: "'k set"
  assumes compare_eq: "a \<in> K \<Longrightarrow> b \<in> K \<Longrightarrow> compare a b \<longleftrightarrow> a = b"
begin

text \<open>A search stops at the first empty entry on the way from the home of the key, or at the key.\<close>

lemma find_loop_stop:
  assumes n: "n = length t" "s < n" and j: "j < n" and key: "key \<in> K" "keys_of t \<subseteq> K"
    and before: "\<And>p. p < n \<Longrightarrow> cdist n s p < cdist n s j \<Longrightarrow> \<exists>k v. t ! p = Full k v \<and> k \<noteq> key"
    and stop: "t ! j = Empty \<or> (\<exists>v. t ! j = Full key v)"
    and i: "i < n" "cdist n s i \<le> cdist n s j"
  shows "find_loop compare key t n s i = Some (if t ! j = Empty then AtEmpty j else AtKey j)"
  using i
proof (induction "cdist n s j - cdist n s i" arbitrary: i rule: less_induct)
  case less
  show ?case
  proof (cases "i = j")
    case True
    have "compare key key" using compare_eq [OF key(1) key(1)] by simp
    then show ?thesis using True n j stop by (subst find_loop.simps) auto
  next
    case False
    then have lt: "cdist n s i < cdist n s j" using cdist_inj [OF less.prems(1) j, of s] less.prems(2) by (auto simp: le_less)
    obtain k v where k: "t ! i = Full k v" "k \<noteq> key" using before [OF less.prems(1) lt] by blast
    have "k \<in> K" by (rule key_in [OF key(2) _ k(1)]) (use less.prems(1) n(1) in simp)
    then have c: "\<not> compare key k" using compare_eq [OF key(1)] k(2) by simp
    have ns: "inc n i \<noteq> s"
    proof
      assume "inc n i = s"
      from cdist_wrap [OF less.prems(1) this] show False using lt cdist_less [of n s j] j by linarith
    qed
    from cdist_inc [OF less.prems(1) n(2) ns] have d: "cdist n s (inc n i) = Suc (cdist n s i)" .
    have "find_loop compare key t n s (inc n i) = Some (if t ! j = Empty then AtEmpty j else AtKey j)"
      by (rule less.hyps) (use d lt inc_less less.prems in auto)
    then show ?thesis using k c ns less.prems n by (subst find_loop.simps) (simp add: Let_def)
  qed
qed

lemma find_spot_stop:
  assumes H: "len H = length (table H)" and j: "j < len H" and key: "key \<in> K" "keys_of (table H) \<subseteq> K"
    and before: "\<And>p. p < len H \<Longrightarrow> cdist (len H) (home hash (len H) key) p < cdist (len H) (home hash (len H) key) j
      \<Longrightarrow> \<exists>k v. table H ! p = Full k v \<and> k \<noteq> key"
    and stop: "table H ! j = Empty \<or> (\<exists>v. table H ! j = Full key v)"
  shows "find_spot hash compare key H = Some (if table H ! j = Empty then AtEmpty j else AtKey j)"
proof -
  have h: "home hash (len H) key < len H" using j by (intro home_less) simp
  have "find_loop compare key (table H) (len H) (home hash (len H) key) (home hash (len H) key) = Some (if table H ! j = Empty then AtEmpty j else AtKey j)"
    by (rule find_loop_stop [OF H h j key before stop h]) simp_all
  then show ?thesis using j by (simp add: find_spot_def home_def [symmetric] Let_def)
qed

lemma find_present:
  assumes H: "len H = length (table H)" and t: "unique_keys (table H)" "keys_of (table H) \<subseteq> K"
    and i: "i < len H" "table H ! i = Full k v" "way hash (table H) k i"
  shows "find_spot hash compare k H = Some (AtKey i)"
proof -
  have "find_spot hash compare k H = Some (if table H ! i = Empty then AtEmpty i else AtKey i)"
  proof (rule find_spot_stop [OF H i(1)])
    show "k \<in> K" using key_in [OF t(2)] i H by simp
    fix p assume p: "p < len H" "cdist (len H) (home hash (len H) k) p < cdist (len H) (home hash (len H) k) i"
    then have "table H ! p \<noteq> Empty" using i(3) H by (simp add: way_def)
    then obtain k' v' where k': "table H ! p = Full k' v'" by (cases "table H ! p") auto
    moreover have "k' \<noteq> k"
    proof
      assume "k' = k"
      then have "p = i" using unique_keysD [OF t(1)] p(1) i(1,2) k' H by simp
      then show False using p(2) by simp
    qed
    ultimately show "\<exists>k' v. table H ! p = Full k' v \<and> k' \<noteq> k" by blast
  qed (use t i in auto)
  then show ?thesis using i(2) by simp
qed

lemma find_hole:
  assumes H: "len H = length (table H)" and key: "key \<in> K" "keys_of (table H) \<subseteq> K" and h: "h < len H" "table H ! h = Empty"
    and before: "\<And>p v. p < len H \<Longrightarrow> cdist (len H) (home hash (len H) key) p < cdist (len H) (home hash (len H) key) h
      \<Longrightarrow> table H ! p \<noteq> Empty \<and> table H ! p \<noteq> Full key v"
  shows "find_spot hash compare key H = Some (AtEmpty h)"
proof -
  have "find_spot hash compare key H = Some (if table H ! h = Empty then AtEmpty h else AtKey h)"
  proof (rule find_spot_stop [OF H h(1) key])
    fix p assume p: "p < len H" "cdist (len H) (home hash (len H) key) p < cdist (len H) (home hash (len H) key) h"
    show "\<exists>k v. table H ! p = Full k v \<and> k \<noteq> key" using before [OF p] by (cases "table H ! p") auto
  qed (use h in simp)
  then show ?thesis using h(2) by simp
qed

lemma find_new:
  assumes H: "len H = length (table H)" and t: "probed hash K (table H)" and key: "key \<in> K" "key \<notin> keys_of (table H)" and e: "Empty \<in> set (table H)"
  obtains p where "p < len H" "table H ! p = Empty" "way hash (table H) key p" "find_spot hash compare key H = Some (AtEmpty p)"
proof -
  let ?d = "cdist (len H) (home hash (len H) key)"
  from e obtain q where q: "q < len H \<and> table H ! q = Empty" using H by (auto simp: in_set_conv_nth)
  obtain p where p: "p < len H \<and> table H ! p = Empty" "\<And>y. y < len H \<and> table H ! y = Empty \<Longrightarrow> ?d p \<le> ?d y"
    using ex_has_least_nat [of "\<lambda>p. p < len H \<and> table H ! p = Empty" q ?d] q by blast
  have b: "table H ! y \<noteq> Empty" if "y < len H" "?d y < ?d p" for y
    using p(2) [of y] that by linarith
  have "find_spot hash compare key H = Some (AtEmpty p)"
  proof (rule find_hole [OF H key(1)])
    show "keys_of (table H) \<subseteq> K" using t by (simp add: probed_def)
    fix y v assume y: "y < len H" "?d y < ?d p"
    show "table H ! y \<noteq> Empty \<and> table H ! y \<noteq> Full key v" using b [OF y] key(2) keys_of_iff [of key "table H"] y(1) H by auto
  qed (use p in auto)
  moreover have "way hash (table H) key p" using b H by (auto simp: way_def)
  ultimately show thesis using p(1) that by blast
qed

lemma find_loop_none:
  assumes n: "n = length t" "s < n" and key: "key \<in> K" "keys_of t \<subseteq> K" "key \<notin> keys_of t" and full: "Empty \<notin> set t" and i: "i < n"
  shows "find_loop compare key t n s i = Some NoSpot"
  using i
proof (induction "n - cdist n s i" arbitrary: i rule: less_induct)
  case less
  have "t ! i \<in> set t" using less.prems n by simp
  then have "t ! i \<noteq> Empty" using full by metis
  then obtain k v where k: "t ! i = Full k v" by (cases "t ! i") auto
  then have "k \<noteq> key" using key(3) keys_of_iff [of k t] less.prems n by auto
  moreover have "k \<in> K" using key_in [OF key(2)] k less.prems n by simp
  ultimately have c: "\<not> compare key k" using compare_eq [OF key(1)] by simp
  show ?case
  proof (cases "inc n i = s")
    case True
    then show ?thesis using k c less.prems n by (subst find_loop.simps) (simp add: Let_def)
  next
    case False
    have "find_loop compare key t n s (inc n i) = Some NoSpot"
      by (rule less.hyps) (use cdist_inc [OF less.prems n(2) False] cdist_less [of n s i] inc_less less.prems in auto)
    then show ?thesis using k c False less.prems n by (subst find_loop.simps) (simp add: Let_def)
  qed
qed

lemma find_none:
  assumes H: "len H = length (table H)" "0 < len H" and key: "key \<in> K" "keys_of (table H) \<subseteq> K" "key \<notin> keys_of (table H)" and "Empty \<notin> set (table H)"
  shows "find_spot hash compare key H = Some NoSpot"
  using find_loop_none [OF H(1) home_less [OF H(2)] key assms(6) home_less [OF H(2)]] H
  by (simp add: find_spot_def home_def [symmetric] Let_def)

end

end
