(* ===== verification/Ck_Hash_Remove.thy ===== *)
theory Ck_Hash_Remove
  imports Ck_Hash_Ops
begin

text \<open>
  Removal from the hash table. Emptying an entry leaves a hole; the loop of \<open>remove\<close> walks on from
  it and moves every entry whose way from home leads over the hole into it, which makes a new hole. Each move
  brings an entry nearer to its home, so the loop ends.
\<close>

fun offset :: "('k \<Rightarrow> u32) \<Rightarrow> nat \<Rightarrow> nat \<Rightarrow> ('k, 'o) entry \<Rightarrow> nat" where
  "offset hash n q Empty = 0"
| "offset hash n q (Full k v) = cdist n (home hash n k) q"

definition displacement :: "('k \<Rightarrow> u32) \<Rightarrow> ('k, 'o) entry list \<Rightarrow> nat" where
  "displacement hash t = (\<Sum>q < length t. offset hash (length t) q (t ! q))"

lemma sum_update:
  fixes g :: "nat \<Rightarrow> 'a \<Rightarrow> nat"
  assumes "i < length t"
  shows "(\<Sum>q < length t. g q (t[i := x] ! q)) + g i (t ! i) = (\<Sum>q < length t. g q (t ! q)) + g i x"
proof -
  have "(\<Sum>q < length t. g q (t[i := x] ! q)) = g i x + (\<Sum>q \<in> {..<length t} - {i}. g q (t[i := x] ! q))"
    using assms by (subst sum.remove [of _ i]) auto
  moreover have "(\<Sum>q \<in> {..<length t} - {i}. g q (t[i := x] ! q)) = (\<Sum>q \<in> {..<length t} - {i}. g q (t ! q))"
    by (rule sum.cong) auto
  moreover have "(\<Sum>q < length t. g q (t ! q)) = g i (t ! i) + (\<Sum>q \<in> {..<length t} - {i}. g q (t ! q))"
    using assms by (subst sum.remove [of _ i]) auto
  ultimately show ?thesis by simp
qed

lemma displacement_move:
  assumes "h < length t" "i < length t" "h \<noteq> i" "t ! h = Empty" "t ! i = Full k v"
  shows "displacement hash (t[h := Full k v, i := Empty]) + cdist (length t) (home hash (length t) k) i
    = displacement hash t + cdist (length t) (home hash (length t) k) h"
proof -
  let ?g = "offset hash (length t)"
  have "(\<Sum>q < length t. ?g q (t[h := Full k v, i := Empty] ! q)) + ?g i (t[h := Full k v] ! i)
    = (\<Sum>q < length t. ?g q (t[h := Full k v] ! q)) + ?g i Empty"
    using sum_update [of i "t[h := Full k v]" ?g Empty] assms(2) by simp
  moreover have "(\<Sum>q < length t. ?g q (t[h := Full k v] ! q)) + ?g h (t ! h) = (\<Sum>q < length t. ?g q (t ! q)) + ?g h (Full k v)"
    by (rule sum_update [OF assms(1)])
  ultimately show ?thesis using assms(3-5) by (simp add: displacement_def)
qed

text \<open>The table with a hole at \<open>h\<close> after the scan has come to \<open>j\<close>.\<close>

definition holed :: "('k \<Rightarrow> u32) \<Rightarrow> 'k set \<Rightarrow> ('k, 'o) entry list \<Rightarrow> nat \<Rightarrow> nat \<Rightarrow> bool" where
  "holed hash K t h j \<longleftrightarrow> unique_keys t \<and> keys_of t \<subseteq> K \<and> h < length t \<and> j < length t \<and> t ! h = Empty
    \<and> (\<forall>q < length t. \<forall>k v. t ! q = Full k v \<longrightarrow> way hash (t[h := Full k v]) k q)
    \<and> (\<forall>q < length t. \<forall>k v. t ! q = Full k v \<longrightarrow> cdist (length t) h q \<le> cdist (length t) h j \<longrightarrow> way hash t k q)"

lemma wayD: "way hash t k q \<Longrightarrow> p < length t \<Longrightarrow> cdist (length t) (home hash (length t) k) p < cdist (length t) (home hash (length t) k) q \<Longrightarrow> t ! p \<noteq> Empty"
  by (simp add: way_def)

lemma way_over:
  assumes "way hash (t[h := Full k v]) k q" "\<not> way hash t k q" "h < length t"
  shows "cdist (length t) (home hash (length t) k) h < cdist (length t) (home hash (length t) k) q"
proof -
  from assms(2) obtain p where p: "p < length t" "cdist (length t) (home hash (length t) k) p < cdist (length t) (home hash (length t) k) q" "t ! p = Empty"
    by (auto simp: way_def)
  then have "t[h := Full k v] ! p \<noteq> Empty" using wayD [OF assms(1)] by simp
  then have "p = h" using p(3) by (cases "p = h") auto
  then show ?thesis using p(2) by simp
qed

lemma holed_start:
  assumes "probed hash K t" "i < length t"
  shows "holed hash K (t[i := Empty]) i i"
proof -
  let ?t = "t[i := Empty]"
  have W: "\<And>q k v. q < length t \<Longrightarrow> t ! q = Full k v \<Longrightarrow> way hash t k q" using assms(1) by (simp add: probed_def)
  have q: "q \<noteq> i \<and> t ! q = Full k v" if "q < length t" "?t ! q = Full k v" for q k v using that assms(2) by (cases "q = i") auto
  have "keys_of ?t \<subseteq> keys_of t" using keys_of_iff [of _ ?t] keys_of_iff [of _ t] q by fastforce
  moreover have "way hash (?t[i := Full k v]) k q" if "q < length t" "?t ! q = Full k v" for q k v
    using W [OF that(1)] q [OF that] assms(2) by (fastforce simp: way_def nth_list_update)
  moreover have "way hash ?t k q" if "q < length t" "?t ! q = Full k v" "cdist (length t) i q = 0" for q k v
    using cdist_inj [OF that(1) assms(2), of i] q [OF that(1,2)] that(3) by auto
  ultimately show ?thesis using assms unique_clear [of t i] by (auto simp: holed_def probed_def)
qed

lemma holed_finish:
  assumes h: "holed hash K t h j" and i: "i = inc (length t) j" "t ! i = Empty"
  shows "probed hash K t"
proof -
  let ?n = "length t"
  have H: "h < ?n" "j < ?n" "t ! h = Empty" "unique_keys t" "keys_of t \<subseteq> K" using h by (simp_all add: holed_def)
  have n: "0 < ?n" and iln: "i < ?n" using H i inc_less by auto
  have "way hash t k q" if q: "q < ?n" "t ! q = Full k v" for q k v
  proof (rule ccontr)
    assume nw: "\<not> way hash t k q"
    let ?s = "home hash ?n k"
    have A: "way hash (t[h := Full k v]) k q" using h q by (simp add: holed_def)
    from way_over [OF A nw H(1)] have lt: "cdist ?n ?s h < cdist ?n ?s q" .
    then have eq: "cdist ?n ?s q = cdist ?n ?s h + cdist ?n h q" using cdist_split [OF n] by simp
    have far: "cdist ?n h j < cdist ?n h q" using h q nw by (fastforce simp: holed_def)
    show False
    proof (cases "i = h")
      case True
      then have "Suc (cdist ?n h j) = ?n" using cdist_wrap [OF H(2)] i(1) by simp
      then show False using far cdist_less [OF n, of h q] by simp
    next
      case False
      have ci: "cdist ?n h i = Suc (cdist ?n h j)" using cdist_inc [OF H(2,1)] i(1) False by simp
      have "cdist ?n h i \<noteq> cdist ?n h q" using cdist_inj [OF iln q(1), of h] i(2) q(2) by auto
      then have "cdist ?n h i < cdist ?n h q" using far ci by simp
      then have "cdist ?n ?s i < cdist ?n ?s q" using cdist_via [OF n, of ?s h i] eq cdist_less [OF n, of ?s q] by simp
      then have "t[h := Full k v] ! i \<noteq> Empty" using wayD [OF A] iln by simp
      then show False using False i(2) by simp
    qed
  qed
  then show ?thesis using H by (simp add: probed_def)
qed

lemma holed_stay:
  assumes h: "holed hash K t h j" and i: "i = inc (length t) j" "i \<noteq> h" "t ! i = Full k v" "way hash t k i"
  shows "holed hash K t h i"
proof -
  let ?n = "length t"
  have H: "h < ?n" "j < ?n" using h by (simp_all add: holed_def)
  have iln: "i < ?n" using H i inc_less by simp
  have ci: "cdist ?n h i = Suc (cdist ?n h j)" using cdist_inc [OF H(2,1)] i by simp
  have "way hash t k' q" if q: "q < ?n" "t ! q = Full k' v'" "cdist ?n h q \<le> cdist ?n h i" for q k' v'
  proof (cases "q = i")
    case True
    then show ?thesis using i q by simp
  next
    case False
    then have "cdist ?n h q \<noteq> cdist ?n h i" using cdist_inj [OF q(1) iln, of h] by blast
    then have "cdist ?n h q \<le> cdist ?n h j" using q(3) ci by simp
    then show ?thesis using h q by (simp add: holed_def)
  qed
  then show ?thesis using h iln by (simp add: holed_def)
qed

lemma holed_move:
  assumes h: "holed hash K t h j" and i: "i < length t" "t ! i = Full k v"
    and over: "cdist (length t) (home hash (length t) k) h < cdist (length t) (home hash (length t) k) i"
  shows "holed hash K (t[h := Full k v, i := Empty]) i i" "hview (t[h := Full k v, i := Empty]) = hview t"
    "length (hash_entries (t[h := Full k v, i := Empty])) = length (hash_entries t)"
proof -
  let ?n = "length t" and ?c = "t[i := Empty]" and ?t = "t[h := Full k v, i := Empty]"
  have H: "h < ?n" "t ! h = Empty" "unique_keys t" "keys_of t \<subseteq> K" using h by (simp_all add: holed_def)
  have hi: "h \<noteq> i" using H i by auto
  have eq: "?t = ?c[h := Full k v]" using hi by (simp add: list_update_swap)
  have u: "unique_keys ?c" by (rule unique_clear [OF H(3)])
  have vc: "hview ?c = (hview t)(k := None)" by (rule hview_clear [OF H(3) i])
  then have nk: "k \<notin> keys_of ?c" using hview_None [of ?c k] by simp
  have ut: "unique_keys ?t" unfolding eq by (rule unique_set [OF u]) (use H nk in simp_all)
  have "hview ?t = (hview ?c)(k \<mapsto> v)" unfolding eq by (rule hview_set [OF u]) (use H nk hi in simp_all)
  then show v: "hview ?t = hview t" using vc hview_unique [OF H(3) i] by (simp add: fun_upd_idem)
  show "length (hash_entries ?t) = length (hash_entries t)"
    using hash_entries_update [of i t Empty] hash_entries_update [of h ?c "Full k v"] eq H i hi by simp
  have W: "way hash (t[h := Full k' v']) k' q" if "q < ?n" "t ! q = Full k' v'" for q k' v' using h that by (simp add: holed_def)
  have K: "keys_of ?t \<subseteq> K" using v H(4) dom_hview [of ?t] dom_hview [of t] by simp
  have "way hash (?t[i := Full k' v']) k' q" if q: "q < ?n" "?t ! q = Full k' v'" for q k' v'
    unfolding way_def
  proof (intro allI impI)
    fix p assume p: "p < length (?t[i := Full k' v'])"
      "cdist (length (?t[i := Full k' v'])) (home hash (length (?t[i := Full k' v'])) k') p < cdist (length (?t[i := Full k' v'])) (home hash (length (?t[i := Full k' v'])) k') q"
    have qi: "q \<noteq> i" using q i by auto
    show "?t[i := Full k' v'] ! p \<noteq> Empty"
    proof (cases "p = i \<or> p = h")
      case True
      then show ?thesis using p H i hi by auto
    next
      case False
      have "t ! p \<noteq> Empty"
      proof (cases "q = h")
        case True
        then have "k' = k" using q qi H by simp
        then have "t[h := Full k v] ! p \<noteq> Empty" using wayD [OF W [OF i]] p True over by simp
        then show ?thesis using False by simp
      next
        case q': False
        then have "t ! q = Full k' v'" using q qi by simp
        then have "t[h := Full k' v'] ! p \<noteq> Empty" using wayD [OF W [OF q(1)]] p by simp
        then show ?thesis using False by simp
      qed
      then show ?thesis using False by simp
    qed
  qed
  moreover have "way hash ?t k' q" if "q < ?n" "?t ! q = Full k' v'" "cdist ?n i q = 0" for q k' v'
    using cdist_inj [OF that(1) i(1), of i] that by auto
  ultimately show "holed hash K ?t i i" using ut K i by (simp add: holed_def)
qed

definition same_table :: "('k \<Rightarrow> u32) \<Rightarrow> 'k set \<Rightarrow> ('k, 'o) entry list \<Rightarrow> ('k, 'o) entry list \<Rightarrow> bool" where
  "same_table hash K t t' \<longleftrightarrow> probed hash K t' \<and> length t' = length t \<and> hview t' = hview t \<and> length (hash_entries t') = length (hash_entries t)"

context hash_keys
begin

lemma remove_loop_ok:
  assumes "holed hash K (table H) h j" "len H = length (table H)"
  shows "\<exists>t'. remove_loop hash compare j H = Some (Inr (H\<lparr>table := t'\<rparr>)) \<and> same_table hash K (table H) t'"
  using assms
proof (induction "displacement hash (table H) * length (table H) + (length (table H) - cdist (length (table H)) h j)" arbitrary: H h j rule: less_induct)
  case less
  let ?t = "table H" and ?n = "length (table H)"
  note h = less.prems(1)
  have P: "h < ?n" "j < ?n" "?t ! h = Empty" "unique_keys ?t" "keys_of ?t \<subseteq> K" using h by (simp_all add: holed_def)
  define i where "i = inc ?n j"
  have i: "i < ?n" using P inc_less by (simp add: i_def)
  have n: "0 < ?n" using i by linarith
  show ?case
  proof (cases "?t ! i")
    case Empty
    then have "remove_loop hash compare j H = Some (Inr (H\<lparr>table := ?t\<rparr>))"
      using i less.prems(2) by (subst remove_loop.simps) (simp add: Let_def i_def [symmetric])
    moreover have "probed hash K ?t" by (rule holed_finish [OF h i_def Empty])
    ultimately show ?thesis by (intro exI [of _ ?t]) (simp add: same_table_def)
  next
    case (Full k v)
    then have ih: "i \<noteq> h" using P by auto
    have W: "way hash (?t[h := Full k v]) k i" using h i Full by (simp add: holed_def)
    show ?thesis
    proof (cases "way hash ?t k i")
      case True
      from find_present [OF less.prems(2) P(4,5) _ Full True] i less.prems(2)
      have "findEntry hash compare k H = Some (Inr i)" by (simp add: findEntry_def)
      then have step: "remove_loop hash compare j H = remove_loop hash compare i H"
        using i less.prems(2) Full by (subst remove_loop.simps) (simp add: Let_def i_def [symmetric])
      have "holed hash K ?t h i" by (rule holed_stay [OF h i_def ih Full True])
      moreover have "cdist ?n h i = Suc (cdist ?n h j)" using cdist_inc [OF P(2,1)] ih by (simp add: i_def)
      ultimately show ?thesis unfolding step using cdist_less [OF n, of h i] by (intro less.hyps less.prems(2)) simp_all
    next
      case False
      from way_over [OF W False P(1)] have over: "cdist ?n (home hash ?n k) h < cdist ?n (home hash ?n k) i" .
      have "find_spot hash compare k H = Some (AtEmpty h)"
      proof (rule find_hole [OF less.prems(2) key_in [OF P(5) i Full] P(5)])
        fix p w assume p: "p < len H" "cdist (len H) (home hash (len H) k) p < cdist (len H) (home hash (len H) k) h"
        then have "p \<noteq> i" "p \<noteq> h" using over less.prems(2) by auto
        moreover have "?t[h := Full k v] ! p \<noteq> Empty" using wayD [OF W] p over less.prems(2) by simp
        ultimately show "?t ! p \<noteq> Empty \<and> ?t ! p \<noteq> Full k w" using unique_keysD [OF P(4) _ i _ Full, of p w] p less.prems(2) by auto
      qed (use P less.prems(2) in simp_all)
      then have "findEntry hash compare k H = Some (Inr h)" by (simp add: findEntry_def)
      moreover define H' where "H' = H\<lparr>table := ?t[h := Full k v, i := Empty]\<rparr>"
      ultimately have step: "remove_loop hash compare j H = remove_loop hash compare i H'"
        using i ih less.prems(2) Full by (subst remove_loop.simps) (simp add: Let_def i_def [symmetric])
      note m = holed_move [OF h i Full over]
      have "displacement hash (table H') < displacement hash ?t" using displacement_move [OF P(1) i ih [symmetric] P(3) Full, of hash] over by (simp add: H'_def)
      then have "Suc (displacement hash (table H')) * ?n \<le> displacement hash ?t * ?n" by (intro mult_le_mono1) simp
      then have "displacement hash (table H') * length (table H') + (length (table H') - cdist (length (table H')) i i)
        < displacement hash ?t * ?n + (?n - cdist ?n h j)" using cdist_less [OF n, of h j] by (simp add: H'_def)
      from less.hyps [OF this] m(1) less.prems(2) obtain t' where
        "remove_loop hash compare i H' = Some (Inr (H'\<lparr>table := t'\<rparr>))" "same_table hash K (table H') t'" by (auto simp: H'_def)
      then show ?thesis unfolding step using m(2,3) by (auto simp: H'_def same_table_def)
    qed
  qed
qed

end

end
