(* ===== verification/Ck_Hash_Map.thy ===== *)
theory Ck_Hash_Map
  imports Ck_Hash_Remove
begin

text \<open>
  The operations of the hash table on the map that it holds: the invariant \<open>hash_ok\<close> leaves an entry
  empty, growing moves the entries to a larger table, and every operation returns.
\<close>

definition hash_ok :: "('k \<Rightarrow> u32) \<Rightarrow> 'k set \<Rightarrow> ('k, 'o) hashtable \<Rightarrow> bool" where
  "hash_ok hash K H \<longleftrightarrow> len H = length (table H) \<and> 0 < len H \<and> probed hash K (table H) \<and> nObj H = int (length (hash_entries (table H)))
    \<and> Empty \<in> set (table H) \<and> resizeAt H = \<lfloor>real (len H) * loadFactor H\<rfloor> \<and> 0 \<le> loadFactor H \<and> loadFactor H < 1
    \<and> entrySize H * len H < 2 ^ 31"

lemma unique_Cons:
  assumes "unique_keys (e # t)"
  shows "unique_keys t" "e = Full k v \<Longrightarrow> k \<notin> keys_of t"
proof -
  show "unique_keys t" unfolding unique_keys_def
  proof (intro allI impI, elim conjE)
    fix i j k v w assume "i < length t" "j < length t" "t ! i = Full k v" "t ! j = Full k w"
    then show "i = j" using unique_keysD [OF assms, of "Suc i" "Suc j" k v w] by simp
  qed
  show "k \<notin> keys_of t" if "e = Full k v"
  proof
    assume "k \<in> keys_of t"
    then obtain i w where "i < length t" "t ! i = Full k w" unfolding keys_of_iff by blast
    then show False using unique_keysD [OF assms, of 0 "Suc i" k v w] that by simp
  qed
qed

lemma keys_of_simps [simp]: "keys_of [] = {}" "keys_of (Empty # t) = keys_of t" "keys_of (Full k v # t) = insert k (keys_of t)"
  by (simp_all add: keys_of_def)

lemma unique_distinct: "unique_keys t \<Longrightarrow> distinct (map fst (hash_entries t))"
proof (induction t)
  case (Cons e t)
  then have "distinct (map fst (hash_entries t))" using unique_Cons(1) by blast
  then show ?case using unique_Cons(2) [OF Cons.prems] by (cases e) (auto simp: keys_of_def)
qed simp

lemma set_not_empty: "t ! q \<noteq> Empty \<Longrightarrow> q < length t \<Longrightarrow> t[p := Full k v] ! q \<noteq> Empty"
  by (cases "p = q") simp_all

lemma way_set: "way hash t k i \<Longrightarrow> way hash (t[p := Full k' v]) k i"
  unfolding way_def by (simp add: set_not_empty)

lemma probed_insert:
  assumes "probed hash K t" "p < length t" "way hash t key p" "key \<in> K" "key \<notin> keys_of t \<and> t ! p = Empty \<or> (\<exists>w. t ! p = Full key w)"
  shows "probed hash K (t[p := Full key v])"
proof -
  let ?t = "t[p := Full key v]"
  have u: "unique_keys t" using assms(1) by (simp add: probed_def)
  have "unique_keys ?t" using unique_set [OF u assms(2)] assms(5) by blast
  moreover have "keys_of ?t = insert key (keys_of t)" using hview_set [OF u assms(2,5)] dom_hview by (metis dom_fun_upd option.distinct(1))
  moreover have "way hash ?t k i" if i: "i < length t" "?t ! i = Full k w" for i k w
  proof (cases "i = p")
    case True
    then show ?thesis using i assms(2,3) by (simp add: way_set)
  next
    case False
    then show ?thesis using i assms(1) by (simp add: way_set probed_def)
  qed
  ultimately show ?thesis using assms(1,4) by (simp add: probed_def)
qed

lemma probed_empty: "probed hash K (replicate n Empty)"
  by (auto simp: probed_def unique_keys_def keys_of_def)

section \<open>Prime lengths\<close>

lemma prime_loop_Some: "prime_loop ps x = Some p \<Longrightarrow> p \<in> set ps \<and> x < p"
  by (induction ps) (auto split: if_splits)

lemma prime_loop_found: "q \<in> set ps \<Longrightarrow> x < q \<Longrightarrow> \<exists>p. prime_loop (ps @ qs) x = Some p \<and> p \<in> set ps"
  by (induction ps) auto

text \<open>Each prime is at most three times the one before.\<close>

fun close_gaps :: "nat \<Rightarrow> u32 list \<Rightarrow> bool" where
  "close_gaps a [] = True"
| "close_gaps a (b # ps) = (unat b \<le> 3 * a + 3 \<and> close_gaps (unat b) ps)"

lemma prime_loop_gap: "close_gaps a ps \<Longrightarrow> a \<le> unat x \<Longrightarrow> prime_loop ps x = Some p \<Longrightarrow> unat p \<le> 3 * unat x + 3"
  by (induction ps arbitrary: a) (auto simp: word_le_nat_alt split: if_splits)

lemma primeLargerThan_ok:
  assumes "unat x < 1280000017"
  shows "\<exists>p. primeLargerThan x = Some p \<and> unat x < unat p \<and> unat p \<le> 1280000017 \<and> unat p \<le> 3 * unat x + 3"
proof -
  define ps where "ps = ([3, 7, 17, 37, 73, 157, 307, 617, 1217, 2417, 4817, 9677, 20117, 40177, 80177, 160117, 320107,
    640007, 1280107, 2560171, 5120117, 10000079, 20000077, 40000217, 80000111, 160000177, 320000171, 640000171, 1280000017] :: u32 list)"
  have x: "x < 1280000017" using assms by (simp add: word_less_nat_alt)
  have dp: "doublingPrimes = ps @ [2560000217, 4200000071]" by (simp add: doublingPrimes_def ps_def)
  have "1280000017 \<in> set ps" by (simp add: ps_def)
  from prime_loop_found [OF this x] obtain p where p: "primeLargerThan x = Some p" "p \<in> set ps" unfolding primeLargerThan_def dp by blast
  then have "x < p" using prime_loop_Some unfolding primeLargerThan_def by blast
  moreover have "list_all (\<lambda>p. unat p \<le> 1280000017) ps" unfolding ps_def by simp
  then have "unat p \<le> 1280000017" using p(2) by (simp only: list_all_iff)
  moreover have "close_gaps 0 doublingPrimes" by (simp add: doublingPrimes_def)
  from prime_loop_gap [OF this] have "unat p \<le> 3 * unat x + 3" using p(1) by (simp add: primeLargerThan_def)
  ultimately show ?thesis using p(1) by (auto simp: word_less_nat_alt)
qed

context hash_keys
begin

section \<open>Growing\<close>

lemma rehash_loop_ok:
  assumes "len H = length (table H)" "probed hash K (table H)" "distinct (map fst (hash_entries src))" "keys_of src \<subseteq> K"
    "keys_of src \<inter> keys_of (table H) = {}" "length (hash_entries src) + length (hash_entries (table H)) < len H"
  shows "\<exists>t'. rehash_loop hash compare src H = Some (Inr (H\<lparr>table := t'\<rparr>)) \<and> length t' = len H \<and> probed hash K t'
    \<and> hview t' = hview (table H) ++ hview src \<and> length (hash_entries t') = length (hash_entries src) + length (hash_entries (table H))"
  using assms
proof (induction src arbitrary: H)
  case Nil
  then show ?case by (intro exI [of _ "table H"]) (simp add: hview_def)
next
  case (Cons e src)
  show ?case
  proof (cases e)
    case Empty
    then show ?thesis using Cons.IH [of H] Cons.prems by (simp add: hview_def)
  next
    case (Full k v)
    have k: "k \<in> K" "k \<notin> keys_of (table H)" "k \<notin> keys_of src" using Cons.prems Full by (auto simp: keys_of_def)
    have "Empty \<in> set (table H)" using hash_entries_full [of "table H"] Cons.prems by simp
    from find_new [OF Cons.prems(1,2) k(1,2) this] obtain p where
      p: "p < len H" "table H ! p = Empty" "way hash (table H) k p" "find_spot hash compare k H = Some (AtEmpty p)" .
    let ?H = "H\<lparr>table := (table H)[p := Full k v]\<rparr>"
    have u: "unique_keys (table H)" using Cons.prems(2) by (rule probed_unique)
    have pl: "p < length (table H)" using p Cons.prems(1) by simp
    have v: "hview (table ?H) = (hview (table H))(k \<mapsto> v)" using hview_set [OF u pl, of k v] k p by simp
    then have kt: "keys_of (table ?H) = insert k (keys_of (table H))" using dom_hview by (metis dom_fun_upd option.distinct(1))
    have e: "length (hash_entries (table ?H)) = Suc (length (hash_entries (table H)))" using hash_entries_update [OF pl, of "Full k v"] p by simp
    have "\<exists>t'. rehash_loop hash compare src ?H = Some (Inr (?H\<lparr>table := t'\<rparr>)) \<and> length t' = len ?H \<and> probed hash K t'
      \<and> hview t' = hview (table ?H) ++ hview src \<and> length (hash_entries t') = length (hash_entries src) + length (hash_entries (table ?H))"
    proof (rule Cons.IH)
      show "probed hash K (table ?H)" using probed_insert [OF Cons.prems(2) pl p(3) k(1), of v] k p by simp
    qed (use Cons.prems Full k kt e p in auto)
    then obtain t' where t': "rehash_loop hash compare src ?H = Some (Inr (?H\<lparr>table := t'\<rparr>))" "length t' = len H" "probed hash K t'"
      "hview t' = (hview (table H))(k \<mapsto> v) ++ hview src" "length (hash_entries t') = length (hash_entries src) + Suc (length (hash_entries (table H)))"
      unfolding v e by auto
    have "(hview (table H))(k \<mapsto> v) ++ hview src = hview (table H) ++ hview (e # src)"
      using k(3) hview_None [of src k] Full by (auto simp: hview_def map_add_def fun_eq_iff split: option.splits)
    moreover have "rehash_loop hash compare (e # src) H = rehash_loop hash compare src ?H" using Full p(4) by (simp add: findEntry_def)
    ultimately show ?thesis using t' Full by auto
  qed
qed

lemma rehash_table_ok:
  assumes H: "hash_ok hash K H" and n: "length (hash_entries (table H)) < n" and size: "entrySize H * n < 2 ^ 31"
  shows "\<exists>t'. rehash hash compare (int n) H = Some (Inr (H\<lparr>len := n, resizeAt := \<lfloor>real n * loadFactor H\<rfloor>, table := t'\<rparr>))
    \<and> length t' = n \<and> probed hash K t' \<and> hview t' = hview (table H) \<and> length (hash_entries t') = length (hash_entries (table H))"
proof -
  have t: "probed hash K (table H)" using H by (simp add: hash_ok_def)
  have k: "keys_of (replicate n Empty) = {}" by (simp add: keys_of_def)
  let ?B = "H\<lparr>len := n, resizeAt := \<lfloor>real n * loadFactor H\<rfloor>, table := replicate n Empty\<rparr>"
  have B: "table ?B = replicate n Empty" "len ?B = n" "buildTable n H = Some ?B" using size by (simp_all add: buildTable_def)
  have "\<exists>t'. rehash_loop hash compare (table H) ?B = Some (Inr (?B\<lparr>table := t'\<rparr>)) \<and> length t' = len ?B \<and> probed hash K t'
    \<and> hview t' = hview (table ?B) ++ hview (table H) \<and> length (hash_entries t') = length (hash_entries (table H)) + length (hash_entries (table ?B))"
    by (rule rehash_loop_ok) (use B(1,2) t n k unique_distinct [OF probed_unique [OF t]] probed_empty [of hash K n] in \<open>auto simp: probed_def\<close>)
  then show ?thesis by (auto simp: B(3) rehash_def hview_def)
qed

lemma hash_grow_ok:
  assumes H: "hash_ok hash K H" and room: "nObj H < resizeAt H \<or> len H < 1280000017 \<and> entrySize H * (3 * len H + 3) < 2 ^ 31"
  shows "\<exists>H'. hash_grow hash compare H = Some (Inr H') \<and> hash_ok hash K H' \<and> hview (table H') = hview (table H) \<and> nObj H' = nObj H
    \<and> loadFactor H' = loadFactor H \<and> nObj H' + 1 < int (len H') \<and> entrySize H' = entrySize H
    \<and> (len H' = len H \<or> resizeAt H \<le> nObj H \<and> len H' \<le> 3 * len H + 3)"
proof (cases "nObj H \<ge> resizeAt H")
  case False
  have "0 < real (len H)" "loadFactor H < 1" "resizeAt H = \<lfloor>real (len H) * loadFactor H\<rfloor>" using H unfolding hash_ok_def by auto
  then have "resizeAt H < int (len H)" by (simp add: floor_less_iff)
  then show ?thesis using False H by (simp add: hash_grow_def)
next
  case True
  then have l: "len H < 1280000017" and sz: "entrySize H * (3 * len H + 3) < 2 ^ 31" using room by simp_all
  then have u: "unat (of_nat (len H) :: u32) = len H" by (simp add: unat_of_nat)
  from primeLargerThan_ok [of "of_nat (len H)"] l u obtain p where
    p: "primeLargerThan (of_nat (len H)) = Some p" "len H < unat p" "unat p \<le> 1280000017" "unat p \<le> 3 * len H + 3" by auto
  have size: "entrySize H * unat p < 2 ^ 31" by (rule order_le_less_trans [OF mult_le_mono2 [OF p(4)] sz])
  have sp: "sint p = int (unat p)" by (rule sint_small) (use p(3) in simp)
  have e: "length (hash_entries (table H)) < length (table H)" using H hash_entries_full [of "table H"] by (simp add: hash_ok_def)
  have n: "length (hash_entries (table H)) < unat p" using e p(2) H by (simp add: hash_ok_def)
  from rehash_table_ok [OF H n size] obtain t' where t': "rehash hash compare (int (unat p)) H =
      Some (Inr (H\<lparr>len := unat p, resizeAt := \<lfloor>real (unat p) * loadFactor H\<rfloor>, table := t'\<rparr>))"
    "length t' = unat p" "probed hash K t'" "hview t' = hview (table H)" "length (hash_entries t') = length (hash_entries (table H))" by blast
  let ?H = "H\<lparr>len := unat p, resizeAt := \<lfloor>real (unat p) * loadFactor H\<rfloor>, table := t'\<rparr>"
  have "hash_grow hash compare H = Some (Inr ?H)" using True p(1) t'(1) sp by (simp add: hash_grow_def)
  moreover have "Empty \<in> set t'" using hash_entries_full [of t'] t' n by simp
  then have "hash_ok hash K ?H" using H t' p(2) size by (simp add: hash_ok_def)
  moreover have "nObj H = int (length (hash_entries (table H)))" "len H = length (table H)" using H unfolding hash_ok_def by blast+
  then have "nObj H + 1 < int (unat p)" using e p(2) by linarith
  ultimately show ?thesis using t'(4) p(4) True by (intro exI [of _ ?H]) simp
qed

text \<open>The result of a search by the map.\<close>

lemma find_cases:
  assumes H: "hash_ok hash K H" and key: "key \<in> K"
  obtains p v where "p < len H" "table H ! p = Full key v" "way hash (table H) key p" "hview (table H) key = Some v" "find_spot hash compare key H = Some (AtKey p)"
  | p where "p < len H" "table H ! p = Empty" "way hash (table H) key p" "hview (table H) key = None" "find_spot hash compare key H = Some (AtEmpty p)"
proof -
  have h: "len H = length (table H)" "probed hash K (table H)" "Empty \<in> set (table H)" using H by (simp_all add: hash_ok_def)
  have u: "unique_keys (table H)" "keys_of (table H) \<subseteq> K" using h(2) by (simp_all add: probed_def)
  show thesis
  proof (cases "key \<in> keys_of (table H)")
    case True
    then obtain p v where p: "p < len H" "table H ! p = Full key v" unfolding keys_of_iff h(1) by blast
    moreover have "way hash (table H) key p" using h p by (simp add: probed_def)
    moreover have "hview (table H) key = Some v" by (rule hview_unique [OF u(1)]) (use p h in simp_all)
    moreover have "find_spot hash compare key H = Some (AtKey p)" by (rule find_present [OF h(1) u]) (use calculation in simp_all)
    ultimately show thesis by (rule that(1))
  next
    case False
    then have v: "hview (table H) key = None" by (simp add: hview_None)
    show thesis by (rule find_new [OF h(1,2) key False h(3)]) (rule that(2), use v in simp_all)
  qed
qed

lemma hash_get_ok:
  assumes "hash_ok hash K H" "key \<in> K"
  shows "tslow_get hash compare key H = Some (case hview (table H) key of None \<Rightarrow> None | Some v \<Rightarrow> v)"
  using assms by (cases rule: find_cases) (simp_all add: tslow_get_def hash_get_def findKey_def)

lemma hash_put_ok:
  assumes H: "hash_ok hash K H" and key: "key \<in> K" and room: "nObj H < resizeAt H \<or> len H < 1280000017 \<and> entrySize H * (3 * len H + 3) < 2 ^ 31"
  obtains i H' where "hash_put hash compare key H = Some (Inr (i, key \<in> keys_of (table H), H'))" "i < len H'" "hash_ok hash K H'"
    "table H' ! i = Full key (case hview (table H) key of None \<Rightarrow> None | Some v \<Rightarrow> v)" "way hash (table H') key i"
    "hview (table H') = (hview (table H))(key \<mapsto> case hview (table H) key of None \<Rightarrow> None | Some v \<Rightarrow> v)"
    "loadFactor H' = loadFactor H" "nObj H' = (if key \<in> keys_of (table H) then nObj H else nObj H + 1)"
    "entrySize H' = entrySize H" "len H' = len H \<or> resizeAt H \<le> nObj H \<and> len H' \<le> 3 * len H + 3"
proof -
  from hash_grow_ok [OF H room] obtain G where G: "hash_grow hash compare H = Some (Inr G)" "hash_ok hash K G" "hview (table G) = hview (table H)"
    "nObj G = nObj H" "loadFactor G = loadFactor H" "nObj G + 1 < int (len G)"
    "entrySize G = entrySize H" "len G = len H \<or> resizeAt H \<le> nObj H \<and> len G \<le> 3 * len H + 3" by blast
  have kk: "keys_of (table G) = keys_of (table H)" using G(3) dom_hview by metis
  from G(2) key show thesis
  proof (cases rule: find_cases)
    case (1 p v)
    then have "key \<in> keys_of (table H)" using kk hview_None [of "table G" key] by simp
    moreover have "(hview (table H))(key \<mapsto> v) = hview (table H)" using 1 G(3) by (simp add: fun_upd_idem)
    ultimately show thesis using 1 G by (intro that [of p G]) (simp_all add: hash_put_def findEntry_def)
  next
    case (2 p)
    then have k: "key \<notin> keys_of (table H)" using kk hview_None [of "table G" key] by simp
    let ?H = "G\<lparr>nObj := nObj G + 1, table := (table G)[p := Full key None]\<rparr>"
    have g: "probed hash K (table G)" "len G = length (table G)" using G(2) by (simp_all add: hash_ok_def)
    have pl: "p < length (table G)" using 2 g by simp
    have "probed hash K (table ?H)" using probed_insert [OF g(1) pl 2(3) key, of None] k kk 2(2) by simp
    moreover have e: "length (hash_entries (table ?H)) = Suc (length (hash_entries (table G)))" using hash_entries_update [OF pl, of "Full key None"] 2 by simp
    moreover have "Empty \<in> set (table ?H)" using hash_entries_full [of "table ?H"] e G(2,6) by (simp add: hash_ok_def)
    ultimately have "hash_ok hash K ?H" using G(2) unfolding hash_ok_def by auto
    moreover have "hview (table ?H) = (hview (table H))(key \<mapsto> None)" using hview_set [OF probed_unique [OF g(1)] pl, of key None] k kk 2(2) G(3) by simp
    moreover have "hash_put hash compare key H = Some (Inr (p, False, ?H))" using G(1) 2 by (simp add: hash_put_def findEntry_def)
    moreover have "way hash (table ?H) key p" using way_set [OF 2(3)] by simp
    ultimately show thesis using 2 G k pl by (intro that [of p ?H]) simp_all
  qed
qed

lemma tslow_put_ok:
  assumes H: "hash_ok hash K H" and key: "key \<in> K" and room: "nObj H < resizeAt H \<or> len H < 1280000017 \<and> entrySize H * (3 * len H + 3) < 2 ^ 31"
  shows "\<exists>H'. tslow_put hash compare key v H = Some (Inr H') \<and> hash_ok hash K H' \<and> hview (table H') = (hview (table H))(key \<mapsto> Some v)
    \<and> loadFactor H' = loadFactor H \<and> nObj H' \<le> nObj H + 1 \<and> entrySize H' = entrySize H
    \<and> (len H' = len H \<or> resizeAt H \<le> nObj H \<and> len H' \<le> 3 * len H + 3)"
proof (rule hash_put_ok [OF H key room])
  fix i G
  assume p: "hash_put hash compare key H = Some (Inr (i, key \<in> keys_of (table H), G))" "i < len G" "hash_ok hash K G"
    "table G ! i = Full key (case hview (table H) key of None \<Rightarrow> None | Some v \<Rightarrow> v)" "way hash (table G) key i"
    "hview (table G) = (hview (table H))(key \<mapsto> case hview (table H) key of None \<Rightarrow> None | Some v \<Rightarrow> v)"
    "loadFactor G = loadFactor H" "nObj G = (if key \<in> keys_of (table H) then nObj H else nObj H + 1)"
    "entrySize G = entrySize H" "len G = len H \<or> resizeAt H \<le> nObj H \<and> len G \<le> 3 * len H + 3"
  let ?H = "G\<lparr>table := (table G)[i := Full key (Some v)]\<rparr>"
  have g: "probed hash K (table G)" "len G = length (table G)" using p(3) by (simp_all add: hash_ok_def)
  have il: "i < length (table G)" using p g by simp
  have "probed hash K (table ?H)" using probed_insert [OF g(1) il p(5) key, of "Some v"] p(4) by simp
  moreover have e: "length (hash_entries (table ?H)) = length (hash_entries (table G))" using hash_entries_update [OF il, of "Full key (Some v)"] p(4) by simp
  moreover have "Empty \<in> set (table ?H)" using hash_entries_full [of "table ?H"] hash_entries_full [of "table G"] e p(3) by (simp add: hash_ok_def)
  ultimately have "hash_ok hash K ?H" using p(3) unfolding hash_ok_def by auto
  moreover have "hview (table ?H) = (hview (table H))(key \<mapsto> Some v)" using hview_set [OF probed_unique [OF g(1)] il, of key "Some v"] p(4,6) by simp
  moreover have "tslow_put hash compare key v H = Some (Inr ?H)" using p(1,4) by (simp add: tslow_put_def store_obj_def)
  ultimately show ?thesis using p(7,8,9,10) by (intro exI [of _ ?H]) simp
qed

lemma hash_remove_ok:
  assumes H: "hash_ok hash K H" and key: "key \<in> K"
  shows "\<exists>H'. hash_remove hash compare key H = Some (Inr (if key \<in> keys_of (table H) then 1 else 0, H')) \<and> hash_ok hash K H'
    \<and> hview (table H') = (hview (table H))(key := None) \<and> loadFactor H' = loadFactor H \<and> nObj H' \<le> nObj H
    \<and> entrySize H' = entrySize H \<and> len H' = len H"
  using assms
proof (cases rule: find_cases)
  case (2 p)
  then have "key \<notin> keys_of (table H)" using hview_None [of "table H" key] by simp
  then show ?thesis using 2 H by (intro exI [of _ H]) (simp add: hash_remove_def findKey_def fun_upd_idem)
next
  case (1 p v)
  then have k: "key \<in> keys_of (table H)" using hview_None [of "table H" key] by simp
  have h: "probed hash K (table H)" "len H = length (table H)" using H by (simp_all add: hash_ok_def)
  have pl: "p < length (table H)" using 1 h by simp
  let ?D = "H\<lparr>nObj := nObj H - 1, table := (table H)[p := Empty]\<rparr>"
  have "holed hash K (table ?D) p p" using holed_start [OF h(1) pl] by simp
  from remove_loop_ok [OF this] h(2) obtain t' where
    t': "remove_loop hash compare p ?D = Some (Inr (?D\<lparr>table := t'\<rparr>))" "same_table hash K (table ?D) t'" by auto
  let ?H = "?D\<lparr>table := t'\<rparr>"
  have l: "Suc (length (hash_entries (table ?D))) = length (hash_entries (table H))" using hash_entries_update [OF pl, of Empty] 1 by simp
  have "Empty \<in> set t'" using hash_entries_full [of t'] l hash_entries_le [of "table H"] t'(2) by (simp add: same_table_def)
  then have "hash_ok hash K ?H" using H t'(2) l unfolding hash_ok_def same_table_def by auto
  moreover have "hview t' = (hview (table H))(key := None)" using hview_clear [OF probed_unique [OF h(1)] pl 1(2)] t'(2) by (simp add: same_table_def)
  moreover have "hash_remove hash compare key H = Some (Inr (1, ?H))" using 1 t'(1) by (simp add: hash_remove_def findKey_def)
  ultimately show ?thesis using k by (intro exI [of _ ?H]) simp
qed

end

end
