(* ===== verification/Ck_Hash_Props.thy ===== *)
theory Ck_Hash_Props
  imports Ck_Hash_Map
begin

text \<open>
  The properties of the hash table: runs of operations against a map, the iterator, the searches and the comparison of strings.
\<close>

section \<open>Inlined search\<close>

lemma get_loop_find:
  assumes "find_loop compare key t n s i = Some r"
  shows "r \<noteq> NoSpot \<longrightarrow> get_loop compare key t n i = Some (case r of AtKey j \<Rightarrow> (case t ! j of Full _ v \<Rightarrow> v | Empty \<Rightarrow> None) | _ \<Rightarrow> None)"
proof (rule find_loop.raw_induct [OF _ assms, where P = "\<lambda>compare key t n s i r. r \<noteq> NoSpot \<longrightarrow>
    get_loop compare key t n i = Some (case r of AtKey j \<Rightarrow> (case t ! j of Full _ v \<Rightarrow> v | Empty \<Rightarrow> None) | _ \<Rightarrow> None)"])
  fix loop :: "('a \<Rightarrow> 'a \<Rightarrow> bool) \<Rightarrow> 'a \<Rightarrow> ('a, 'b) entry list \<Rightarrow> nat \<Rightarrow> nat \<Rightarrow> nat \<Rightarrow> spot option"
    and compare :: "'a \<Rightarrow> 'a \<Rightarrow> bool" and key :: 'a and t :: "('a, 'b) entry list" and n s i :: nat and r
  assume IH: "\<And>compare key t n s i r. loop compare key t n s i = Some r \<Longrightarrow> r \<noteq> NoSpot \<longrightarrow>
      get_loop compare key t n i = Some (case r of AtKey j \<Rightarrow> (case t ! j of Full _ v \<Rightarrow> v | Empty \<Rightarrow> None) | _ \<Rightarrow> None)"
    and body: "(if length t \<le> i then None else case t ! i of Empty \<Rightarrow> Some (AtEmpty i)
      | Full curKey _ \<Rightarrow> if compare key curKey then Some (AtKey i) else let i = inc n i in if i \<noteq> s then loop compare key t n s i else Some NoSpot) = Some r"
  show "r \<noteq> NoSpot \<longrightarrow> get_loop compare key t n i = Some (case r of AtKey j \<Rightarrow> (case t ! j of Full _ v \<Rightarrow> v | Empty \<Rightarrow> None) | _ \<Rightarrow> None)"
  proof
    assume r: "r \<noteq> NoSpot"
    show "get_loop compare key t n i = Some (case r of AtKey j \<Rightarrow> (case t ! j of Full _ v \<Rightarrow> v | Empty \<Rightarrow> None) | _ \<Rightarrow> None)"
    proof (cases "t ! i")
      case Empty
      then show ?thesis using body by (subst get_loop.simps) (auto split: if_splits)
    next
      case (Full k v)
      show ?thesis
      proof (cases "compare key k")
        case True
        then show ?thesis using body Full by (subst get_loop.simps) (auto split: if_splits)
      next
        case False
        then have "loop compare key t n s (inc n i) = Some r" "i < length t" using body Full r by (auto simp: Let_def split: if_splits)
        then show ?thesis using IH r Full False by (subst get_loop.simps) simp
      qed
    qed
  qed
qed

lemma card_keys: "unique_keys t \<Longrightarrow> card (keys_of t) = length (hash_entries t)"
  using distinct_card [OF unique_distinct, of t] by (simp add: keys_of_def)

lemma hash_ok_new:
  assumes "0 < n" "0 \<le> f" "f < 1" "es * n < 2 ^ 31"
  shows "\<exists>H. CkHashtable es n f = Some H \<and> hash_ok hash K H \<and> loadFactor H = f \<and> nObj H = 0 \<and> hview (table H) = Map.empty
    \<and> entrySize H = es \<and> len H = n"
  using assms by (auto simp: hash_ok_def CkHashtable_def buildTable_def probed_empty hview_def)

lemma hash_ok_empty: "hash_ok hash K H \<Longrightarrow> hash_ok hash K (hash_empty H) \<and> hview (table (hash_empty H)) = Map.empty"
  by (auto simp: hash_ok_def hash_empty_def probed_empty hview_def)

section \<open>Runs\<close>

datatype ('k, 'o) hash_op = Put 'k 'o | Get 'k | Remove 'k | Size
datatype 'o hash_res = Done | Got "'o option" | Removed int | Count int

definition hash_step :: "('k \<Rightarrow> u32) \<Rightarrow> ('k \<Rightarrow> 'k \<Rightarrow> bool) \<Rightarrow> ('k, 'o) hash_op \<Rightarrow> ('k, 'o) hashtable
    \<Rightarrow> (hash_error + ('o hash_res \<times> ('k, 'o) hashtable)) option" where
  "hash_step hash compare c H =
    (case c of
       Put k v \<Rightarrow> map_option (map_sum id (Pair Done)) (tslow_put hash compare k v H)
     | Get k \<Rightarrow> map_option (\<lambda>r. Inr (Got r, H)) (t_get hash compare k H)
     | Remove k \<Rightarrow> map_option (map_sum id (map_prod Removed id)) (hash_remove hash compare k H)
     | Size \<Rightarrow> Some (Inr (Count (numObjects H), H)))"

fun hash_run :: "('k \<Rightarrow> u32) \<Rightarrow> ('k \<Rightarrow> 'k \<Rightarrow> bool) \<Rightarrow> ('k, 'o) hash_op list \<Rightarrow> ('k, 'o) hashtable \<Rightarrow> (hash_error + 'o hash_res list) option" where
  "hash_run hash compare [] H = Some (Inr [])"
| "hash_run hash compare (c # cs) H = do {
     s \<leftarrow> hash_step hash compare c H;
     (case s of Inl e \<Rightarrow> Some (Inl e) | Inr (r, H) \<Rightarrow> map_option (map_sum id (Cons r)) (hash_run hash compare cs H)) }"

fun map_step :: "('k, 'o) hash_op \<Rightarrow> ('k \<rightharpoonup> 'o) \<Rightarrow> 'o hash_res \<times> ('k \<rightharpoonup> 'o)" where
  "map_step (Put k v) m = (Done, m(k \<mapsto> v))"
| "map_step (Get k) m = (Got (m k), m)"
| "map_step (Remove k) m = (Removed (if k \<in> dom m then 1 else 0), m(k := None))"
| "map_step Size m = (Count (int (card (dom m))), m)"

fun map_run :: "('k, 'o) hash_op list \<Rightarrow> ('k \<rightharpoonup> 'o) \<Rightarrow> 'o hash_res list" where
  "map_run [] m = []"
| "map_run (c # cs) m = (case map_step c m of (r, m) \<Rightarrow> r # map_run cs m)"

fun op_key :: "('k, 'o) hash_op \<Rightarrow> 'k set" where
  "op_key (Put k v) = {k}" | "op_key (Get k) = {k}" | "op_key (Remove k) = {k}" | "op_key Size = {}"

text \<open>
  A table that holds the map \<open>m\<close>, with a bound \<open>L\<close> for its length that \<open>n\<close> more operations do not exceed: a table with \<open>k\<close> objects
  is enlarged to at most \<open>6 k + 6\<close> entries. Up to this length the number of bytes is in the range of \<open>int\<close>.
\<close>

definition holds :: "('k \<Rightarrow> u32) \<Rightarrow> 'k set \<Rightarrow> nat \<Rightarrow> ('k, 'o) hashtable \<Rightarrow> ('k \<rightharpoonup> 'o) \<Rightarrow> nat \<Rightarrow> bool" where
  "holds hash K L H m n \<longleftrightarrow> hash_ok hash K H \<and> loadFactor H = 1 / 2 \<and> hview (table H) = map_option Some \<circ> m
    \<and> 6 * (nObj H + int n) + 6 \<le> int L \<and> len H \<le> L \<and> L \<le> 2 ^ 24 \<and> entrySize H * L < 2 ^ 31"

lemma holds_len:
  assumes "holds hash K L H m n" "resizeAt H \<le> nObj H"
  shows "3 * len H + 3 \<le> L"
proof -
  have f: "loadFactor H = 1 / 2" "resizeAt H = \<lfloor>real (len H) * loadFactor H\<rfloor>" "6 * (nObj H + int n) + 6 \<le> int L"
    using assms(1) unfolding holds_def hash_ok_def by linarith+
  have "resizeAt H = \<lfloor>real (len H) / 2\<rfloor>" unfolding f by simp
  then have "resizeAt H = int (len H) div 2" by (simp add: floor_divide_of_int_eq [of "int (len H)" 2, simplified])
  then have "int (len H) \<le> 2 * nObj H + 1" using assms(2) by linarith
  then have "3 * int (len H) + 3 \<le> 6 * nObj H + 6" by linarith
  then have "3 * int (len H) + 3 \<le> int L" using f(3) by (simp add: distrib_left)
  then show ?thesis by linarith
qed

lemma holds_room:
  assumes "holds hash K L H m n"
  shows "nObj H < resizeAt H \<or> len H < 1280000017 \<and> entrySize H * (3 * len H + 3) < 2 ^ 31"
proof (cases "resizeAt H \<le> nObj H")
  case True
  note l = holds_len [OF assms True]
  have L: "L \<le> 2 ^ 24" "entrySize H * L < 2 ^ 31" using assms unfolding holds_def by blast+
  have "entrySize H * (3 * len H + 3) < 2 ^ 31" by (rule order_le_less_trans [OF mult_le_mono2 [OF l] L(2)])
  then show ?thesis using l L(1) by simp
qed simp

context hash_keys
begin

lemma t_get_ok:
  assumes "hash_ok hash K H" "key \<in> K"
  shows "t_get hash compare key H = Some (case hview (table H) key of None \<Rightarrow> None | Some v \<Rightarrow> v)"
proof -
  have "0 < len H" using assms(1) unfolding hash_ok_def by blast
  then have s: "find_spot hash compare key H = find_loop compare key (table H) (len H) (unat (hash key) mod len H) (unat (hash key) mod len H)"
    "t_get hash compare key H = get_loop compare key (table H) (len H) (unat (hash key) mod len H)"
    by (simp_all add: find_spot_def t_get_def Let_def)
  from assms show ?thesis
  proof (cases rule: find_cases)
    case (1 p v)
    then show ?thesis using get_loop_find [of compare key "table H" "len H" _ _ "AtKey p"] s by simp
  next
    case (2 p)
    then show ?thesis using get_loop_find [of compare key "table H" "len H" _ _ "AtEmpty p"] s by simp
  qed
qed

lemma step_ok:
  assumes h: "holds hash K L H m (Suc n)" and k: "op_key c \<subseteq> K"
  shows "\<exists>H'. hash_step hash compare c H = Some (Inr (fst (map_step c m), H')) \<and> holds hash K L H' (snd (map_step c m)) n"
proof -
  have H: "hash_ok hash K H" "loadFactor H = 1 / 2" "hview (table H) = map_option Some \<circ> m" "6 * (nObj H + 1 + int n) + 6 \<le> int L"
    "len H \<le> L" "L \<le> 2 ^ 24" "entrySize H * L < 2 ^ 31" using h by (auto simp: holds_def)
  have d: "keys_of (table H) = dom m" using dom_hview [of "table H"] H(3) by (auto simp: dom_def)
  show ?thesis
  proof (cases c)
    case (Put key v)
    from tslow_put_ok [OF H(1) _ holds_room [OF h], of key v] k Put obtain H' where
      "tslow_put hash compare key v H = Some (Inr H')" "hash_ok hash K H'" "hview (table H') = (hview (table H))(key \<mapsto> Some v)"
      "loadFactor H' = loadFactor H" "nObj H' \<le> nObj H + 1" "entrySize H' = entrySize H"
      "len H' = len H \<or> resizeAt H \<le> nObj H \<and> len H' \<le> 3 * len H + 3" by auto
    moreover from this(7) have "len H' \<le> L" using H(5) holds_len [OF h] by linarith
    ultimately show ?thesis using Put H by (intro exI [of _ H']) (auto simp: hash_step_def holds_def fun_eq_iff)
  next
    case (Get key)
    then show ?thesis using t_get_ok [OF H(1), of key] k H by (intro exI [of _ H]) (auto simp: hash_step_def holds_def split: option.split)
  next
    case (Remove key)
    from hash_remove_ok [OF H(1), of key] k Remove obtain H' where
      "hash_remove hash compare key H = Some (Inr (if key \<in> keys_of (table H) then 1 else 0, H'))" "hash_ok hash K H'"
      "hview (table H') = (hview (table H))(key := None)" "loadFactor H' = loadFactor H" "nObj H' \<le> nObj H"
      "entrySize H' = entrySize H" "len H' = len H" by auto
    then show ?thesis using Remove H d by (intro exI [of _ H']) (auto simp: hash_step_def holds_def fun_eq_iff)
  next
    case Size
    have "nObj H = int (card (dom m))" using H(1) card_keys [of "table H"] d by (simp add: hash_ok_def probed_def)
    then show ?thesis using Size H by (intro exI [of _ H]) (simp add: hash_step_def numObjects_def holds_def)
  qed
qed

lemma hash_run_ok:
  "holds hash K L H m (length cs) \<Longrightarrow> \<forall>c \<in> set cs. op_key c \<subseteq> K \<Longrightarrow> hash_run hash compare cs H = Some (Inr (map_run cs m))"
proof (induction cs arbitrary: H m)
  case (Cons c cs)
  from step_ok [of L H m "length cs" c] Cons.prems obtain H' where
    H': "hash_step hash compare c H = Some (Inr (fst (map_step c m), H'))" "holds hash K L H' (snd (map_step c m)) (length cs)" by auto
  have "hash_run hash compare cs H' = Some (Inr (map_run cs (snd (map_step c m))))" using Cons.IH [OF H'(2)] Cons.prems by simp
  then show ?case using H'(1) by (simp add: case_prod_unfold)
qed simp

end

interpretation int_keys: hash_keys CkHashFunction_int CkHashCompare_int UNIV
  by unfold_locales (simp add: CkHashCompare_int_def)

interpretation pointer_keys: hash_keys CkHashFunction_pointer CkHashCompare_pointer UNIV
  by unfold_locales (simp add: CkHashCompare_pointer_def)

lemma compare_default_eq: "length a = length b \<Longrightarrow> CkHashCompare_default a b \<longleftrightarrow> a = b"
  by (induction a b rule: CkHashCompare_default.induct) auto

interpretation byte_keys: hash_keys CkHashFunction_default CkHashCompare_default "{k. length k = n}" for n
  by unfold_locales (simp add: compare_default_eq)

section \<open>Iteration\<close>

lemma skip_empty_ok:
  "0 \<le> c \<Longrightarrow> n = length t \<Longrightarrow> c \<le> int n \<Longrightarrow>
    (case hash_entries (drop (nat c) t) of
       [] \<Rightarrow> skip_empty t n c = int n
     | (k, v) # es \<Rightarrow> \<exists>d. skip_empty t n c = int d \<and> d < n \<and> nat c \<le> d \<and> t ! d = Full k v \<and> hash_entries (drop (Suc d) t) = es)"
proof (induction t n c rule: skip_empty.induct)
  case (1 t n c)
  show ?case
  proof (cases "c < int n")
    case False
    then show ?thesis using 1 by (subst skip_empty.simps) simp
  next
    case True
    then have d: "drop (nat c) t = t ! nat c # drop (nat (c + 1)) t" using 1 by (simp add: nat_add_distrib drop_nth_Cons)
    show ?thesis
    proof (cases "t ! nat c")
      case Empty
      then have s: "skip_empty t n c = skip_empty t n (c + 1)" using True by (subst skip_empty.simps) simp
      have e: "hash_entries (drop (nat c) t) = hash_entries (drop (nat (c + 1)) t)" using d Empty by simp
      have le: "nat c \<le> nat (c + 1)" using 1(2) by simp
      have ih: "case hash_entries (drop (nat (c + 1)) t) of [] \<Rightarrow> skip_empty t n (c + 1) = int n
        | (k, v) # es \<Rightarrow> \<exists>d. skip_empty t n (c + 1) = int d \<and> d < n \<and> nat (c + 1) \<le> d \<and> t ! d = Full k v \<and> hash_entries (drop (Suc d) t) = es"
        by (rule 1(1) [OF True Empty]) (use 1 True in simp_all)
      show ?thesis unfolding s e
      proof (cases "hash_entries (drop (nat (c + 1)) t)")
        case (Cons a es)
        obtain k v where "a = (k, v)" by (cases a)
        then show "case hash_entries (drop (nat (c + 1)) t) of [] \<Rightarrow> skip_empty t n (c + 1) = int n
          | (k, v) # es \<Rightarrow> \<exists>d. skip_empty t n (c + 1) = int d \<and> d < n \<and> nat c \<le> d \<and> t ! d = Full k v \<and> hash_entries (drop (Suc d) t) = es"
          using ih Cons le by (auto intro: le_trans)
      qed (use ih in simp)
    next
      case (Full k v)
      then have "skip_empty t n c = c" using True by (subst skip_empty.simps) simp
      then show ?thesis using d Full True 1 by (auto simp: nat_add_distrib intro!: exI [of _ "nat c"])
    qed
  qed
qed

fun it_rest :: "nat \<Rightarrow> ('k, 'o) iterator \<Rightarrow> ('k \<times> 'o option) list" where
  "it_rest 0 it = []"
| "it_rest (Suc n) it = (case it_next it of (None, _) \<Rightarrow> [] | (Some e, it) \<Rightarrow> e # it_rest n it)"

lemma it_rest_ok:
  assumes "it_len it = length (it_table it)" "0 \<le> curNo it" "curNo it \<le> int (it_len it)" "it_len it - nat (curNo it) < m"
  shows "it_rest m it = hash_entries (drop (nat (curNo it)) (it_table it))"
  using assms
proof (induction m arbitrary: it)
  case (Suc m)
  note s = skip_empty_ok [OF Suc.prems(2,1,3)]
  show ?case
  proof (cases "hash_entries (drop (nat (curNo it)) (it_table it))")
    case Nil
    then show ?thesis using s by (simp add: it_next_def)
  next
    case (Cons e es)
    obtain k v where e: "e = (k, v)" by (cases e)
    from s Cons e obtain d where d: "skip_empty (it_table it) (it_len it) (curNo it) = int d" "d < it_len it" "nat (curNo it) \<le> d"
      "it_table it ! d = Full k v" "hash_entries (drop (Suc d) (it_table it)) = es" by auto
    then have "it_next it = (Some e, it\<lparr>curNo := int d + 1\<rparr>)" using e by (simp add: it_next_def)
    moreover have "it_rest m (it\<lparr>curNo := int d + 1\<rparr>) = es"
      using Suc.IH [of "it\<lparr>curNo := int d + 1\<rparr>"] Suc.prems d by (auto simp: nat_add_distrib)
    ultimately show ?thesis using Cons by simp
  qed
qed simp

text \<open>The iterator of a table lists its entries, each one once.\<close>

lemma hash_iterates:
  assumes "hash_ok hash K H"
  shows "it_rest (Suc (len H)) (hash_iterator H) = hash_entries (table H)"
    "distinct (map fst (it_rest (Suc (len H)) (hash_iterator H)))" "map_of (it_rest (Suc (len H)) (hash_iterator H)) = hview (table H)"
proof -
  have H: "len H = length (table H)" "unique_keys (table H)" using assms unfolding hash_ok_def probed_def by blast+
  show e: "it_rest (Suc (len H)) (hash_iterator H) = hash_entries (table H)"
    using it_rest_ok [of "hash_iterator H" "Suc (len H)"] H by (simp add: hash_iterator_def)
  show "distinct (map fst (it_rest (Suc (len H)) (hash_iterator H)))" unfolding e by (rule unique_distinct [OF H(2)])
  show "map_of (it_rest (Suc (len H)) (hash_iterator H)) = hview (table H)" unfolding e by (simp add: hview_def)
qed

section \<open>Packing\<close>

fun packed :: "('k \<times> 'o option) list \<Rightarrow> ('k, 'o) pup_value list option" where
  "packed [] = Some [PInt 0]"
| "packed ((k, Some v) # es) = map_option (\<lambda>s. PInt 1 # PKey k # PObj v # s) (packed es)"
| "packed ((k, None) # es) = None"

lemma map_sum_Inr_conv: "map_sum f g x = Inr y \<longleftrightarrow> (\<exists>z. x = Inr z \<and> g z = y)"
  by (cases x) auto

lemma step_put_result: "hash_step hash compare (Put k v) H = Some (Inr (r, H')) \<Longrightarrow> tslow_put hash compare k v H = Some (Inr H')"
  by (auto simp: hash_step_def map_sum_Inr_conv)

lemma hash_pack_rest: "length (it_rest m it) < m \<Longrightarrow> hash_pack m it = packed (it_rest m it)"
proof (induction m it rule: it_rest.induct)
  case (2 n it)
  show ?case
  proof (cases "it_next it")
    case (Pair e it')
    show ?thesis
    proof (cases e)
      case (Some a)
      obtain k v where "a = (k, v)" by (cases a)
      then show ?thesis using 2 Pair Some by (cases v) auto
    qed (use Pair in simp)
  qed
qed simp

lemma hash_pack_ok:
  assumes "hash_ok hash K H"
  shows "hash_pack (Suc (len H)) (hash_iterator H) = packed (hash_entries (table H))"
proof -
  have e: "it_rest (Suc (len H)) (hash_iterator H) = hash_entries (table H)" by (rule hash_iterates(1) [OF assms])
  have "len H = length (table H)" using assms unfolding hash_ok_def by blast
  then have "length (hash_entries (table H)) < Suc (len H)" using hash_entries_le [of "table H"] by simp
  then show ?thesis using hash_pack_rest [of "Suc (len H)" "hash_iterator H"] unfolding e by blast
qed

context hash_keys
begin

lemma hash_unpack_ok:
  assumes "holds hash K L H m (length es)" "packed es = Some s" "fst ` set es \<subseteq> K"
  shows "\<exists>H'. hash_unpack hash compare s H = Some (Inr H') \<and> hash_ok hash K H' \<and> hview (table H') = (\<lambda>k. map_option Some (m k)) ++ map_of (rev es)"
  using assms
proof (induction es arbitrary: H m s)
  case Nil
  then show ?case by (auto simp: holds_def fun_eq_iff)
next
  case (Cons e es)
  obtain k v where e: "e = (k, Some v)" using Cons.prems(2) by (cases e; cases "snd e") auto
  then obtain s' where s': "packed es = Some s'" "s = PInt 1 # PKey k # PObj v # s'" using Cons.prems(2) by auto
  from step_ok [of L H m "length es" "Put k v"] Cons.prems e obtain H' where
    H': "tslow_put hash compare k v H = Some (Inr H')" "holds hash K L H' (m(k \<mapsto> v)) (length es)"
    by (auto dest: step_put_result)
  from Cons.IH [OF H'(2) s'(1)] Cons.prems(3) obtain H'' where
    "hash_unpack hash compare s' H' = Some (Inr H'')" "hash_ok hash K H''"
    "hview (table H'') = (\<lambda>x. map_option Some ((m(k \<mapsto> v)) x)) ++ map_of (rev es)" by auto
  moreover have "(\<lambda>x. map_option Some ((m(k \<mapsto> v)) x)) ++ map_of (rev es) = (\<lambda>x. map_option Some (m x)) ++ map_of (rev (e # es))"
    using e by (auto simp: map_add_def fun_eq_iff split: option.splits)
  ultimately show ?case using s'(2) H'(1) by simp
qed

end

section \<open>Defects\<close>

text \<open>A string is equal to each of its prefixes, although they hash to different codes.\<close>

lemma compare_string_prefix: "CkHashCompare_string a (a @ b) \<and> CkHashCompare_string (a @ b) a"
  by (induction a) (cases b; simp)+

lemma hash_string_prefix: "CkHashCompare_string [97] [97, 98] \<and> CkHashFunction_string [97] \<noteq> CkHashFunction_string [97, 98]"
  by (simp add: CkHashFunction_string_def hash_byte_def)

text \<open>From a table of 1280000017 entries on the next prime is negative as an \<open>int\<close>.\<close>

lemma hash_grow_fails:
  assumes "1280000017 \<le> len H" "len H < 2560000217" "resizeAt H \<le> nObj H"
  shows "hash_put hash compare key H = None"
proof -
  have "unat (of_nat (len H) :: u32) = len H" using assms(2) by (simp add: unat_of_nat)
  then have "primeLargerThan (of_nat (len H)) = Some 2560000217" using assms(1,2)
    by (simp add: primeLargerThan_def doublingPrimes_def word_le_nat_alt)
  moreover have "sint (2560000217 :: u32) < 0" by simp
  ultimately show ?thesis using assms(3) by (simp add: hash_put_def hash_grow_def rehash_def)
qed

text \<open>With entries of 32 bytes the table of 80000111 entries, which follows the one of 40000217, has more bytes than an \<open>int\<close> counts.\<close>

lemma hash_bytes_overflow:
  assumes "len H = 40000217" "entrySize H = 32" "resizeAt H \<le> nObj H"
  shows "hash_put hash compare key H = None"
proof -
  have "primeLargerThan (of_nat (len H)) = Some 80000111" using assms(1) by (simp add: primeLargerThan_def doublingPrimes_def)
  then show ?thesis using assms(2,3) by (simp add: hash_put_def hash_grow_def rehash_def buildTable_def)
qed

section \<open>Properties\<close>

lemma new_holds:
  fixes hash :: "'k \<Rightarrow> u32" and K :: "'k set"
  assumes "0 < initLen" "max initLen (6 * n + 6) \<le> 2 ^ 24" "es * max initLen (6 * n + 6) < 2 ^ 31"
  obtains H :: "('k, 'o) hashtable" where "CkHashtable es initLen (1 / 2) = Some H" "holds hash K (max initLen (6 * n + 6)) H Map.empty n"
proof -
  have "es * initLen \<le> es * max initLen (6 * n + 6)" by (rule mult_le_mono2) simp
  then have "es * initLen < 2 ^ 31" using assms(3) by linarith
  from hash_ok_new [OF assms(1) _ _ this, of "1 / 2" hash K] obtain H :: "('k, 'o) hashtable" where
    H: "CkHashtable es initLen (1 / 2) = Some H" "hash_ok hash K H" "loadFactor H = 1 / 2" "nObj H = 0" "hview (table H) = Map.empty"
      "entrySize H = es" "len H = initLen" by auto
  have "holds hash K (max initLen (6 * n + 6)) H Map.empty n"
    using H assms(2,3) unfolding holds_def by (simp add: fun_eq_iff)
  then show ?thesis by (rule that [OF H(1)])
qed

text \<open>
  C6. The hash table implements a map. Every sequence of \<open>put\<close>, \<open>get\<close>, \<open>remove\<close> and \<open>numObjects\<close> on a new table with the load
  factor 0.5 returns, without an abort, and gives the results of the same operations on a map, through all collisions, rehashing and
  moves of entries by \<open>remove\<close>. The hash function is arbitrary; the comparison must decide equality of the keys that are used. The bound
  on the number \<open>n\<close> of operations is that a table of \<open>6 n + 6\<close> entries, and the one at the start, has at most \<open>2 ^ 24\<close>
  entries and fewer than \<open>2 ^ 31\<close> bytes: the code counts the bytes in an \<open>int\<close>, and larger tables overflow.
\<close>

theorem hash_run_refines:
  fixes hash :: "'k \<Rightarrow> u32" and cs :: "('k, 'o) hash_op list"
  assumes "\<forall>a \<in> K. \<forall>b \<in> K. compare a b \<longleftrightarrow> a = b" "\<forall>c \<in> set cs. op_key c \<subseteq> K" "0 < initLen"
    and "max initLen (6 * length cs + 6) \<le> 2 ^ 24" "es * max initLen (6 * length cs + 6) < 2 ^ 31"
  shows "Option.bind (CkHashtable es initLen (1 / 2)) (hash_run hash compare cs) = Some (Inr (map_run cs Map.empty))"
proof -
  have k: "hash_keys compare K" using assms(1) by unfold_locales blast
  obtain H :: "('k, 'o) hashtable" where H: "CkHashtable es initLen (1 / 2) = Some H" "holds hash K (max initLen (6 * length cs + 6)) H Map.empty (length cs)"
    by (rule new_holds [OF assms(3-5)])
  from hash_keys.hash_run_ok [OF k H(2) assms(2)] show ?thesis using H(1) by simp
qed

theorem hash_run_refines_witness:
  "Option.bind (CkCreateHashtable_int 1 5)
      (hash_run CkHashFunction_int CkHashCompare_int [Put 3 True, Put 8 False, Remove 3, Get 8, Put 13 True, Get 3, Size])
    = Some (Inr [Done, Done, Removed 1, Got (Some False), Done, Got None, Count 2])"
  using hash_run_refines [of UNIV CkHashCompare_int "[Put 3 True, Put 8 False, Remove 3, Get 8, Put 13 True, Get 3, Size]" 5 9 CkHashFunction_int]
  by (simp add: CkHashCompare_int_def CkCreateHashtable_int_def)

text \<open>
  C18. Packing a hash table and unpacking the stream into a new table gives a table with the same map, provided that every
  object has been written. The new table has any length; as for the runs of operations, a table of \<open>6 n + 6\<close> entries for
  \<open>n\<close> objects, and the one at the start, must have at most \<open>2 ^ 24\<close> entries and fewer than \<open>2 ^ 31\<close> bytes.
\<close>

theorem hash_pup_roundtrip:
  fixes H :: "('k, 'o) hashtable"
  assumes "\<forall>a \<in> K. \<forall>b \<in> K. compare a b \<longleftrightarrow> a = b" "hash_ok hash K H" "\<forall>k v. hview (table H) k = Some v \<longrightarrow> v \<noteq> None"
    and "0 < initLen" "max initLen (6 * nat (nObj H) + 6) \<le> 2 ^ 24" "es * max initLen (6 * nat (nObj H) + 6) < 2 ^ 31"
  shows "\<exists>s N H'. hash_pack (Suc (len H)) (hash_iterator H) = Some s \<and> CkHashtable es initLen (1 / 2) = Some N
    \<and> hash_unpack hash compare s N = Some (Inr H') \<and> hash_ok hash K H' \<and> hview (table H') = hview (table H)"
proof -
  let ?es = "hash_entries (table H)"
  have k: "hash_keys compare K" using assms(1) by unfold_locales blast
  have H: "unique_keys (table H)" "keys_of (table H) \<subseteq> K" "nObj H = int (length ?es)" using assms(2) unfolding hash_ok_def probed_def by blast+
  have d: "distinct (map fst ?es)" by (rule unique_distinct [OF H(1)])
  have "\<forall>(k, v) \<in> set es. v \<noteq> None \<Longrightarrow> \<exists>s. packed es = Some s" for es :: "('k \<times> 'o option) list" by (induction es rule: packed.induct) auto
  moreover have "\<forall>(k, v) \<in> set ?es. v \<noteq> None" using assms(3) d map_of_is_SomeI unfolding hview_def by fastforce
  ultimately obtain s where s: "packed ?es = Some s" by blast
  have l: "nat (nObj H) = length ?es" using H(3) by simp
  obtain N :: "('k, 'o) hashtable" where N: "CkHashtable es initLen (1 / 2) = Some N" "holds hash K (max initLen (6 * length ?es + 6)) N Map.empty (length ?es)"
    by (rule new_holds [OF assms(4-6) [unfolded l]])
  from hash_keys.hash_unpack_ok [OF k N(2) s] H(2) obtain H' where H': "hash_unpack hash compare s N = Some (Inr H')"
    "hash_ok hash K H'" "hview (table H') = (\<lambda>k. map_option Some (Map.empty k)) ++ map_of (rev ?es)" by (auto simp: keys_of_def)
  have "map_of (rev ?es) = map_of ?es" using d by (intro map_of_inject_set [THEN iffD2]) (auto simp: rev_map [symmetric])
  then have "hview (table H') = hview (table H)" using H'(3) by (simp add: hview_def map_add_def)
  then show ?thesis using H'(1,2) N(1) s hash_pack_ok [OF assms(2)] by auto
qed

text \<open>A table with one object.\<close>

lemma demo_hash:
  obtains N H where "CkCreateHashtable_int 1 5 = Some N" "tslow_put CkHashFunction_int CkHashCompare_int 3 True N = Some (Inr H)"
    "hash_ok CkHashFunction_int UNIV H" "hview (table H) = [3 \<mapsto> Some True]" "nObj H \<le> 1"
proof -
  from hash_ok_new [of 5 "1 / 2" 9 CkHashFunction_int UNIV] obtain N :: "(u32, bool) hashtable" where
    N: "CkCreateHashtable_int 1 5 = Some N" "hash_ok CkHashFunction_int UNIV N" "nObj N = 0" "hview (table N) = Map.empty" "entrySize N = 9" "len N = 5"
    by (auto simp: CkCreateHashtable_int_def)
  from int_keys.tslow_put_ok [OF N(2), of 3 True] N obtain H where "tslow_put CkHashFunction_int CkHashCompare_int 3 True N = Some (Inr H)"
    "hash_ok CkHashFunction_int UNIV H" "hview (table H) = [3 \<mapsto> Some True]" "nObj H \<le> 1" by auto
  then show ?thesis by (rule that [OF N(1)])
qed

theorem hash_pup_roundtrip_witness:
  "\<exists>N H s N' H'. CkCreateHashtable_int 1 5 = Some N \<and> tslow_put CkHashFunction_int CkHashCompare_int 3 True N = Some (Inr H)
    \<and> hash_pack (Suc (len H)) (hash_iterator H) = Some s \<and> CkHashtable 9 7 (1 / 2) = Some N'
    \<and> hash_unpack CkHashFunction_int CkHashCompare_int s N' = Some (Inr H') \<and> hview (table H') = [3 \<mapsto> Some True]"
proof -
  obtain N H where H: "CkCreateHashtable_int 1 5 = Some N" "tslow_put CkHashFunction_int CkHashCompare_int 3 True N = Some (Inr H)"
    "hash_ok CkHashFunction_int UNIV H" "hview (table H) = [3 \<mapsto> Some True]" "nObj H \<le> 1" by (rule demo_hash)
  have n: "nat (nObj H) \<le> 1" using H(5) by simp
  have "\<forall>k v. hview (table H) k = Some v \<longrightarrow> v \<noteq> None" using H(4) by (auto split: if_splits)
  moreover have "max 7 (6 * k + 6) \<le> 2 ^ 24 \<and> 9 * max 7 (6 * k + 6) < 2 ^ 31" if "k \<le> 1" for k :: nat using that by (cases k) simp_all
  ultimately show ?thesis
    using hash_pup_roundtrip [of UNIV CkHashCompare_int CkHashFunction_int H 7 9] H n by (auto simp: CkHashCompare_int_def)
qed

end
