(* ===== verification/Ck_Q.thy ===== *)
theory Ck_Q
  imports Cqs_Deq "HOL-Library.Monad_Syntax"
begin

unbundle bit_operations_syntax

text \<open>
  The queue \<open>CkQ\<close> of \<open>util/cklists.h\<close>: a circular buffer whose length is a power of two, with the
  bits of the position cut off by a mask. The parameter \<open>z\<close> is the default value \<open>T()\<close> of the element type.
  Moving an element copies it. Lengths and positions are of type \<open>int\<close>: doubling a block of \<open>2 ^ 30\<close> elements overflows.
\<close>

record 'a ckq =
  block :: "'a list"
  first :: nat
  qlen :: nat
  qmask :: nat

text \<open>\<open>std::move\<close> of the range from \<open>a\<close> to \<open>b\<close> to the position \<open>d\<close>.\<close>

definition move_range :: "nat \<Rightarrow> nat \<Rightarrow> nat \<Rightarrow> 'a list \<Rightarrow> 'a list" where
  "move_range a b d xs = fold (\<lambda>i xs. xs[d + i := xs ! (a + i)]) [0..<b - a] xs"

text \<open>\<^term>\<open>None\<close> is the exception of \<open>resize\<close> for a length that is negative as an \<open>int\<close>.\<close>

definition q_expand :: "'a \<Rightarrow> 'a ckq \<Rightarrow> 'a ckq option" where
  "q_expand z q =
    (let blklen = length (block q);
         newlen = c_int (push_bit 1 (int blklen));
         m = qmask q OR blklen;
         (newlen, m) = (if blklen = 0 then (16, 0x0f) else (newlen, m))
     in if newlen < 0 then None
        else
          let q = q\<lparr>qmask := m, block := block q @ replicate (nat newlen - blklen) z\<rparr>
          in Some (if first q \<noteq> 0 then
               let b = move_range 0 (first q) blklen (block q);
                   b = move_range (first q) blklen 0 b;
                   b = move_range blklen (blklen + first q) (blklen - first q) b
               in q\<lparr>block := b, first := 0\<rparr>
             else q))"

lemma length_move_range [simp]: "length (move_range a b d xs) = length xs"
proof -
  have "length (fold (\<lambda>i xs. xs[d + i := xs ! (a + i)]) is xs) = length xs" for "is" by (induction "is" arbitrary: xs) simp_all
  then show ?thesis by (simp add: move_range_def)
qed

definition CkQ :: "'a ckq" where
  "CkQ = \<lparr>block = [], first = 0, qlen = 0, qmask = 0\<rparr>"

text \<open>A shift by 32 or more bits is undefined.\<close>

function size_loop :: "int \<Rightarrow> nat \<Rightarrow> nat \<Rightarrow> (nat \<times> nat) option" where
  "size_loop sz k m =
    (if 32 \<le> k then None
     else if c_int (push_bit k 1) < sz then size_loop sz (k + 1) (m OR push_bit k 1)
     else Some (k, m))"
  by auto
termination by (relation "measure (\<lambda>(sz, k, m). 32 - k)") auto

declare size_loop.simps [simp del]

definition CkQ_sized :: "'a \<Rightarrow> int \<Rightarrow> 'a ckq option" where
  "CkQ_sized z sz =
    map_option (\<lambda>(k, m). \<lparr>block = replicate (push_bit k 1) z, first = 0, qlen = 0, qmask = m\<rparr>) (size_loop sz 2 0x03)"

definition q_length :: "'a ckq \<Rightarrow> nat" where
  "q_length q = qlen q"

definition q_isEmpty :: "'a ckq \<Rightarrow> bool" where
  "q_isEmpty q = (qlen q = 0)"

definition q_deq :: "'a \<Rightarrow> 'a ckq \<Rightarrow> 'a \<times> 'a ckq" where
  "q_deq z q =
    (if qlen q > 0 then (block q ! first q, q\<lparr>first := (first q + 1) AND qmask q, qlen := qlen q - 1\<rparr>) else (z, q))"

definition q_enq :: "'a \<Rightarrow> 'a ckq \<Rightarrow> 'a \<Rightarrow> 'a ckq option" where
  "q_enq z q x = do {
     q \<leftarrow> (if qlen q = length (block q) then q_expand z q else Some q);
     Some (q\<lparr>block := (block q)[(first q + qlen q) AND qmask q := x], qlen := qlen q + 1\<rparr>)
   }"

definition q_push :: "'a \<Rightarrow> 'a ckq \<Rightarrow> 'a \<Rightarrow> 'a ckq option" where
  "q_push z q x = do {
     q \<leftarrow> (if qlen q = length (block q) then q_expand z q else Some q);
     let f = (first q + length (block q) - 1) AND qmask q;
     Some (q\<lparr>first := f, block := (block q)[f := x], qlen := qlen q + 1\<rparr>)
   }"

definition q_peek :: "'a ckq \<Rightarrow> 'a" where
  "q_peek q = block q ! first q"

partial_function (option) grow_loop :: "'a \<Rightarrow> nat \<Rightarrow> 'a ckq \<Rightarrow> 'a ckq option" where
  "grow_loop z pos q =
    (if qlen q = length (block q) \<or> pos \<ge> length (block q) then do { q \<leftarrow> q_expand z q; grow_loop z pos q } else Some q)"

declare grow_loop.simps [code]

fun shift_up :: "nat \<Rightarrow> nat \<Rightarrow> 'a ckq \<Rightarrow> 'a ckq" where
  "shift_up pos 0 q = q"
| "shift_up pos (Suc i) q =
    (if Suc i > pos then
       shift_up pos i (q\<lparr>block := (block q)[(Suc i + first q) AND qmask q := block q ! ((Suc i - 1 + first q) AND qmask q)]\<rparr>)
     else q)"

definition q_insert :: "'a \<Rightarrow> nat \<Rightarrow> 'a \<Rightarrow> 'a ckq \<Rightarrow> 'a ckq option" where
  "q_insert z pos x q = do {
     q \<leftarrow> grow_loop z pos q;
     let q = shift_up pos (qlen q) q;
     let q = q\<lparr>block := (block q)[(pos + first q) AND qmask q := x]\<rparr>;
     Some (if pos > qlen q then q\<lparr>qlen := pos + 1\<rparr> else q\<lparr>qlen := qlen q + 1\<rparr>)
   }"

function shift_down :: "nat \<Rightarrow> 'a ckq \<Rightarrow> 'a ckq" where
  "shift_down i q =
    (if i < qlen q - 1 then
       shift_down (i + 1) (q\<lparr>block := (block q)[(i + first q) AND qmask q := block q ! ((i + 1 + first q) AND qmask q)]\<rparr>)
     else q)"
  by auto
termination by (relation "measure (\<lambda>(i, q). qlen q - i)") auto

declare shift_down.simps [simp del]

definition q_remove :: "'a \<Rightarrow> nat \<Rightarrow> 'a ckq \<Rightarrow> 'a \<times> 'a ckq" where
  "q_remove z pos q =
    (if pos \<ge> qlen q then (z, q)
     else (block q ! ((pos + first q) AND qmask q), let q = shift_down pos q in q\<lparr>qlen := qlen q - 1\<rparr>))"

text \<open>\<^term>\<open>None\<close> is the failed assertion.\<close>

definition q_removeFrom :: "int \<Rightarrow> 'a ckq \<Rightarrow> 'a ckq option" where
  "q_removeFrom pos q = (if pos < int (qlen q) \<and> pos \<ge> 0 then Some (q\<lparr>qlen := nat pos\<rparr>) else None)"

definition q_nth :: "'a ckq \<Rightarrow> nat \<Rightarrow> 'a" where
  "q_nth q n = block q ! ((n + first q) AND qmask q)"

fun array_loop :: "nat \<Rightarrow> nat \<Rightarrow> 'a ckq \<Rightarrow> 'a list" where
  "array_loop 0 j q = []"
| "array_loop (Suc n) j q = block q ! j # array_loop n ((j + 1) AND qmask q) q"

definition q_getArray :: "'a ckq \<Rightarrow> 'a list" where
  "q_getArray q = array_loop (qlen q) (first q) q"

text \<open>
  Packing writes the length and the elements. Unpacking reads the length into the queue and then enqueues
  the elements that it reads; \<^term>\<open>None\<close> is a read past the end of the stream, a write outside of the block, or the exception.
\<close>

datatype 'a q_value = QLen nat | QElt 'a

definition q_pack :: "'a ckq \<Rightarrow> 'a q_value list" where
  "q_pack q = QLen (qlen q) # map (\<lambda>i. QElt (block q ! ((i + first q) AND qmask q))) [0..<qlen q]"

fun unpack_loop :: "'a \<Rightarrow> nat \<Rightarrow> 'a q_value list \<Rightarrow> 'a ckq \<Rightarrow> ('a ckq \<times> 'a q_value list) option" where
  "unpack_loop z i s q =
    (if i < qlen q then
       (case s of
          QElt t # s \<Rightarrow>
            (case (if qlen q = length (block q) then q_expand z q else Some q) of
               None \<Rightarrow> None
             | Some e \<Rightarrow>
                 if (first e + qlen e) AND qmask e < length (block e)
                 then (case q_enq z q t of None \<Rightarrow> None | Some q \<Rightarrow> unpack_loop z (i + 1) s q)
                 else None)
        | _ \<Rightarrow> None)
     else Some (q, s))"

definition q_unpack :: "'a \<Rightarrow> 'a q_value list \<Rightarrow> 'a ckq \<Rightarrow> ('a ckq \<times> 'a q_value list) option" where
  "q_unpack z s q = (case s of QLen n # s \<Rightarrow> unpack_loop z 0 s (q\<lparr>qlen := n\<rparr>) | _ \<Rightarrow> None)"

section \<open>Positions\<close>

lemma mod_pos_inj:
  fixes f n i j :: nat
  assumes "i < n" "j < n" "(f + i) mod n = (f + j) mod n"
  shows "i = j"
proof -
  have "int ((f + i) mod n) = int ((f + j) mod n)" using assms(3) by simp
  then have "((int f + int i) mod int n - int f) mod int n = ((int f + int j) mod int n - int f) mod int n" by (simp add: zmod_int)
  then have "int i mod int n = int j mod int n" by (simp add: mod_simps)
  then show ?thesis using assms(1,2) by (simp add: zmod_int [symmetric])
qed

definition ckq_ok :: "'a ckq \<Rightarrow> bool" where
  "ckq_ok q \<longleftrightarrow> block q = [] \<and> first q = 0 \<and> qlen q = 0 \<and> qmask q = 0
    \<or> (\<exists>k. length (block q) = 2 ^ k \<and> qmask q = mask k \<and> first q < 2 ^ k \<and> qlen q \<le> 2 ^ k \<and> k \<le> 30)"

definition qat :: "'a ckq \<Rightarrow> nat \<Rightarrow> 'a" where
  "qat q i = block q ! ((first q + i) mod length (block q))"

definition q_list :: "'a ckq \<Rightarrow> 'a list" where
  "q_list q = map (qat q) [0..<qlen q]"

lemma length_q_list [simp]: "length (q_list q) = qlen q"
  by (simp add: q_list_def)

lemma nth_q_list: "i < qlen q \<Longrightarrow> q_list q ! i = qat q i"
  by (simp add: q_list_def)

lemma q_listI: "length xs = qlen q \<Longrightarrow> (\<And>i. i < qlen q \<Longrightarrow> qat q i = xs ! i) \<Longrightarrow> q_list q = xs"
  by (rule nth_equalityI) (simp_all add: nth_q_list)

lemma ckq_okE:
  assumes "ckq_ok q" "block q \<noteq> []"
  obtains k where "length (block q) = 2 ^ k" "qmask q = mask k" "first q < 2 ^ k" "qlen q \<le> 2 ^ k" "k \<le> 30"
  using assms by (auto simp: ckq_ok_def)

lemma and_mask_mod: "(x :: nat) AND mask k = x mod 2 ^ k"
  by (simp add: take_bit_eq_mask [symmetric] take_bit_eq_mod)

lemma and_qmask:
  assumes "ckq_ok q" "block q \<noteq> []"
  shows "x AND qmask q = x mod length (block q)"
proof (rule ckq_okE [OF assms])
  fix k assume "length (block q) = 2 ^ k" "qmask q = mask k"
  then show ?thesis by (simp only: and_mask_mod)
qed

lemma nth_update_pos:
  assumes "i < length b" "j < length b"
  shows "b[(f + j) mod length b := x] ! ((f + i) mod length b) = (if i = j then x else b ! ((f + i) mod length b))"
proof (cases "i = j")
  case True
  have "(f + j) mod length b < length b" by (rule mod_less_divisor) (use assms in linarith)
  then show ?thesis using True by simp
next
  case False
  then have "(f + j) mod length b \<noteq> (f + i) mod length b" using mod_pos_inj assms by metis
  then show ?thesis using False by simp
qed

section \<open>Growing\<close>

lemma move_range_nth:
  assumes "d \<le> a \<or> b \<le> d" "d + (b - a) \<le> length xs" "b \<le> length xs"
  shows "move_range a b d xs ! j = (if d \<le> j \<and> j < d + (b - a) then xs ! (a + (j - d)) else xs ! j)"
proof -
  have "m \<le> b - a \<Longrightarrow> length (fold (\<lambda>i xs. xs[d + i := xs ! (a + i)]) [0..<m] xs) = length xs \<and>
    (\<forall>j. fold (\<lambda>i xs. xs[d + i := xs ! (a + i)]) [0..<m] xs ! j = (if d \<le> j \<and> j < d + m then xs ! (a + (j - d)) else xs ! j))" for m
  proof (induction m)
    case (Suc m)
    let ?ys = "fold (\<lambda>i xs. xs[d + i := xs ! (a + i)]) [0..<m] xs"
    have ys: "length ?ys = length xs" "\<And>j. ?ys ! j = (if d \<le> j \<and> j < d + m then xs ! (a + (j - d)) else xs ! j)" using Suc by auto
    have "\<not> (d \<le> a + m \<and> a + m < d + m)" using assms(1) Suc.prems by linarith
    then have am: "?ys ! (a + m) = xs ! (a + m)" unfolding ys(2) by (rule if_not_P)
    have dm: "d + m < length xs" using assms(2) Suc.prems by linarith
    have "fold (\<lambda>i xs. xs[d + i := xs ! (a + i)]) [0..<Suc m] xs = ?ys[d + m := ?ys ! (a + m)]" by simp
    moreover have "?ys[d + m := ?ys ! (a + m)] ! j = (if d \<le> j \<and> j < d + Suc m then xs ! (a + (j - d)) else xs ! j)" for j
    proof (cases "j = d + m")
      case True
      then show ?thesis using am dm ys(1) by simp
    next
      case False
      then show ?thesis using ys(2) [of j] by auto
    qed
    ultimately show ?case using ys(1) by simp
  qed auto
  then show ?thesis unfolding move_range_def by blast
qed

lemma expand_moves:
  assumes "0 < f" "f < n" "length b = n" "i < n"
  shows "move_range n (n + f) (n - f) (move_range f n 0 (move_range 0 f n (b @ replicate n z))) ! i = b ! ((f + i) mod n)"
proof -
  let ?b1 = "move_range 0 f n (b @ replicate n z)" and ?b2 = "move_range f n 0 (move_range 0 f n (b @ replicate n z))"
  have 1: "?b1 ! j = (if n \<le> j \<and> j < n + f then b ! (j - n) else (b @ replicate n z) ! j)" for j
    using assms by (subst move_range_nth) (auto simp: nth_append)
  have 2: "?b2 ! j = (if j < n - f then b ! (f + j) else ?b1 ! j)" for j
    using assms by (subst move_range_nth) (auto simp: 1 nth_append)
  have 3: "move_range n (n + f) (n - f) ?b2 ! i = (if n - f \<le> i then ?b2 ! (n + (i - (n - f))) else ?b2 ! i)"
    using assms by (subst move_range_nth) auto
  show ?thesis
  proof (cases "n - f \<le> i")
    case True
    then have "f + i = i - (n - f) + n" using assms(1,2) by linarith
    then have "(f + i) mod n = (i - (n - f)) mod n" by (metis mod_add_self2)
    then have m: "(f + i) mod n = i - (n - f)" using assms by simp
    have "n + (i - (n - f)) < n + f" "\<not> n + (i - (n - f)) < n - f" using assms True by linarith+
    then have "?b2 ! (n + (i - (n - f))) = b ! (i - (n - f))" unfolding 2 1 by simp
    then show ?thesis unfolding 3 m using True by simp
  next
    case False
    then show ?thesis using assms by (simp add: 3 2)
  qed
qed

lemma small_power: "k < 30 \<Longrightarrow> c_int (push_bit 1 (int (2 ^ k))) = 2 * 2 ^ k"
  using power_increasing [of k 29 "2 :: int"] order_trans [of "- 2147483648" 0 "2 * 2 ^ k :: int"] by (simp add: push_bit_eq_mult)

text \<open>A block of \<open>2 ^ 30\<close> elements cannot grow.\<close>

lemma expand_overflow: "length (block q) = 2 ^ 30 \<Longrightarrow> q_expand z q = None"
  by (simp add: q_expand_def Let_def c_int_def push_bit_eq_mult)

lemma q_expand_block:
  assumes "length (block q) = 2 ^ k" "k < 30" "first q < 2 ^ k"
  shows "\<exists>b. q_expand z q = Some \<lparr>block = b, first = 0, qlen = qlen q, qmask = qmask q OR 2 ^ k\<rparr>
    \<and> length b = 2 * 2 ^ k \<and> (\<forall>i < 2 ^ k. b ! i = qat q i)"
proof -
  let ?q = "q\<lparr>qmask := qmask q OR 2 ^ k, block := block q @ replicate (2 ^ k) z\<rparr>"
  let ?b = "move_range (2 ^ k) (2 ^ k + first q) (2 ^ k - first q) (move_range (first q) (2 ^ k) 0 (move_range 0 (first q) (2 ^ k) (block ?q)))"
  have n: "nat (2 * 2 ^ k) - 2 ^ k = (2 ^ k :: nat)" by (simp add: nat_mult_distrib nat_power_eq)
  have e: "q_expand z q = Some (if first q \<noteq> 0 then ?q\<lparr>block := ?b, first := 0\<rparr> else ?q)"
    unfolding q_expand_def Let_def assms(1) small_power [OF assms(2)] by (simp add: n)
  show ?thesis
  proof (cases "first q = 0")
    case True
    then show ?thesis using assms(1) by (intro exI [of _ "block ?q"]) (simp add: e qat_def nth_append)
  next
    case False
    then show ?thesis using assms expand_moves [of "first q" "2 ^ k" "block q" _ z]
      by (intro exI [of _ ?b]) (simp add: e qat_def)
  qed
qed

lemma expand_ok:
  assumes "ckq_ok q" "length (block q) < 2 ^ 30"
  obtains q' where "q_expand z q = Some q'" "ckq_ok q'" "q_list q' = q_list q" "qlen q' = qlen q" "length (block q) < length (block q')"
proof (cases "block q = []")
  case True
  let ?q = "\<lparr>block = replicate 16 z, first = 0, qlen = 0, qmask = 0x0f\<rparr>"
  have "ckq_ok ?q" unfolding ckq_ok_def by (intro disjI2 exI [of _ 4]) (simp add: mask_eq_exp_minus_1)
  moreover have "q_expand z q = Some ?q" "qlen q = 0" using True assms(1) by (simp_all add: q_expand_def Let_def ckq_ok_def)
  ultimately show ?thesis using that [of ?q] True by (simp add: q_list_def)
next
  case False
  from ckq_okE [OF assms(1) False] obtain k where k: "length (block q) = 2 ^ k" "qmask q = mask k" "first q < 2 ^ k" "qlen q \<le> 2 ^ k" "k \<le> 30" .
  then have "k < 30" using assms(2) by (cases "k = 30") simp_all
  then obtain b where
    b: "q_expand z q = Some \<lparr>block = b, first = 0, qlen = qlen q, qmask = qmask q OR 2 ^ k\<rparr>"
      "length b = 2 * 2 ^ k" "\<forall>i < 2 ^ k. b ! i = qat q i" using q_expand_block [OF k(1) _ k(3)] by blast
  let ?q = "\<lparr>block = b, first = 0, qlen = qlen q, qmask = qmask q OR 2 ^ k\<rparr>"
  have "ckq_ok ?q" unfolding ckq_ok_def
    by (intro disjI2 exI [of _ "Suc k"]) (use k b(2) \<open>k < 30\<close> in \<open>simp add: mask_Suc_exp or.commute\<close>)
  moreover have "q_list ?q = q_list q"
    by (rule q_listI) (use k(4) b(2,3) in \<open>simp_all add: nth_q_list qat_def [of ?q]\<close>)
  ultimately show ?thesis using that [of ?q] b k(1) by simp
qed

end
