(* ===== verification/Ck_Q_Props.thy ===== *)
theory Ck_Q_Props
  imports Ck_Q
begin

text \<open>
  The circular queue \<open>CkQ\<close> implements a list of up to \<open>2 ^ 30\<close> elements: it meets the contract of a double ended queue of
  bounded length, and insertion and removal at a position do what they do on the list.
\<close>

section \<open>Queues of bounded length\<close>

locale bounded_deque =
  fixes enq_back :: "'q \<Rightarrow> 'a \<Rightarrow> 'q option"
    and enq_front :: "'q \<Rightarrow> 'a \<Rightarrow> 'q option"
    and deq_front :: "'q \<Rightarrow> 'a \<times> 'q"
    and contents :: "'q \<Rightarrow> 'a list"
    and invar :: "'q \<Rightarrow> bool"
    and limit :: nat
  assumes back_law: "invar q \<Longrightarrow> length (contents q) < limit \<Longrightarrow>
      \<exists>q'. enq_back q x = Some q' \<and> invar q' \<and> contents q' = contents q @ [x]"
    and front_law: "invar q \<Longrightarrow> length (contents q) < limit \<Longrightarrow>
      \<exists>q'. enq_front q x = Some q' \<and> invar q' \<and> contents q' = x # contents q"
    and deq_law: "invar q \<Longrightarrow> contents q = x # xs \<Longrightarrow>
      fst (deq_front q) = x \<and> invar (snd (deq_front q)) \<and> contents (snd (deq_front q)) = xs"
begin

primrec enq_all :: "'a list \<Rightarrow> 'q \<Rightarrow> 'q option" where
  "enq_all [] q = Some q"
| "enq_all (x # xs) q = Option.bind (enq_back q x) (enq_all xs)"

primrec deq_all :: "nat \<Rightarrow> 'q \<Rightarrow> 'a list" where
  "deq_all 0 q = []"
| "deq_all (Suc n) q = fst (deq_front q) # deq_all n (snd (deq_front q))"

lemma enq_all_ok:
  "invar q \<Longrightarrow> length (contents q) + length xs \<le> limit \<Longrightarrow>
    \<exists>q'. enq_all xs q = Some q' \<and> invar q' \<and> contents q' = contents q @ xs"
proof (induction xs arbitrary: q)
  case (Cons x xs)
  then obtain q' where q': "enq_back q x = Some q'" "invar q'" "contents q' = contents q @ [x]" using back_law [of q x] by auto
  then show ?case using Cons.IH [of q'] Cons.prems by auto
qed simp

lemma deq_all_ok: "invar q \<Longrightarrow> contents q = xs @ ys \<Longrightarrow> deq_all (length xs) q = xs"
proof (induction xs arbitrary: q)
  case (Cons x xs)
  then show ?case using deq_law [of q x "xs @ ys"] by simp
qed simp

lemma first_in_first_out:
  assumes "invar q" "contents q = []" "length xs \<le> limit"
  shows "\<exists>q'. enq_all xs q = Some q' \<and> deq_all (length xs) q' = xs"
  using enq_all_ok [OF assms(1), of xs] deq_all_ok [of _ xs "[]"] assms(2,3) by auto

end

section \<open>Queue operations\<close>

lemma ckq_pos: "ckq_ok q \<Longrightarrow> block q \<noteq> [] \<Longrightarrow> first q < length (block q) \<and> qlen q \<le> length (block q)"
  by (erule (1) ckq_okE) simp

lemma ckq_okI:
  assumes "ckq_ok q" "block q \<noteq> []" "length (block q') = length (block q)" "qmask q' = qmask q" "first q' < length (block q)" "qlen q' \<le> length (block q)"
  shows "ckq_ok q'"
proof (rule ckq_okE [OF assms(1,2)])
  fix k assume "length (block q) = 2 ^ k" "qmask q = mask k" "k \<le> 30"
  then show ?thesis using assms(3-6) unfolding ckq_ok_def by (intro disjI2 exI [of _ k]) simp
qed

lemma qat_set:
  "i < length (block q) \<Longrightarrow> j < length (block q) \<Longrightarrow>
    qat (q\<lparr>block := (block q)[(first q + j) mod length (block q) := x]\<rparr>) i = (if i = j then x else qat q i)"
  by (simp add: qat_def nth_update_pos)

lemma ckq_new: "ckq_ok CkQ" "q_list CkQ = []"
  by (simp_all add: ckq_ok_def CkQ_def q_list_def)

lemma c_int_power: "k \<le> 30 \<Longrightarrow> c_int (push_bit k 1) = 2 ^ k"
  using power_increasing [of k 30 "2 :: int"] order_trans [of "- 2147483648" 0 "2 ^ k :: int"] by (simp add: push_bit_eq_mult)

lemma size_loop_ok:
  "sz \<le> 2 ^ 30 \<Longrightarrow> k \<le> 30 \<Longrightarrow> m = mask k \<Longrightarrow> \<exists>k'. size_loop sz k m = Some (k', mask k') \<and> k' \<le> 30 \<and> sz \<le> 2 ^ k'"
proof (induction sz k m rule: size_loop.induct)
  case (1 sz k m)
  have k: "\<not> 32 \<le> k" "c_int (push_bit k 1) = 2 ^ k" using "1.prems"(2) by (simp, rule c_int_power)
  show ?case
  proof (cases "2 ^ k < sz")
    case True
    then have "k + 1 \<le> 30" using "1.prems"(1,2) by (cases "k = 30") auto
    moreover have "m OR push_bit k 1 = mask (k + 1)" using "1.prems"(3) by (simp add: mask_Suc_exp push_bit_eq_mult or.commute)
    ultimately show ?thesis using "1.IH" [OF k(1)] True "1.prems"(1) unfolding k(2) by (subst size_loop.simps) (simp add: k del: push_bit_of_1)
  next
    case False
    then show ?thesis using "1.prems" k by (subst size_loop.simps) (simp add: k del: push_bit_of_1)
  qed
qed

text \<open>A queue that is created for more than \<open>2 ^ 30\<close> elements: the loop shifts by 32 bits.\<close>

lemma size_loop_undefined: "2 ^ 30 < sz \<Longrightarrow> size_loop sz k m = None"
proof (induction sz k m rule: size_loop.induct)
  case (1 sz k m)
  have "c_int (push_bit k 1) < sz" if "k < 32"
  proof (cases "k \<le> 30")
    case True
    then show ?thesis using "1.prems" power_increasing [of k 30 "2 :: int"] by (simp add: c_int_power del: push_bit_of_1)
  next
    case False
    then have "k = 31" using that by simp
    then show ?thesis using "1.prems" by (simp add: c_int_def)
  qed
  then show ?case using "1.IH" "1.prems" by (subst size_loop.simps) (simp del: push_bit_of_1)
qed

lemma ckq_sized_undefined: "2 ^ 30 < sz \<Longrightarrow> CkQ_sized z sz = None"
  by (simp add: CkQ_sized_def size_loop_undefined)

lemma ckq_sized:
  assumes "sz \<le> 2 ^ 30"
  obtains q where "CkQ_sized z sz = Some q" "ckq_ok q" "q_list q = []"
proof -
  have "(2 :: nat) \<le> 30" "(3 :: nat) = mask 2" by (simp_all add: mask_eq_exp_minus_1)
  from size_loop_ok [OF assms this] obtain k where k: "size_loop sz 2 3 = Some (k, mask k)" "k \<le> 30" by blast
  let ?q = "\<lparr>block = replicate (2 ^ k) z, first = 0, qlen = 0, qmask = mask k\<rparr>"
  have "ckq_ok ?q" "q_list ?q = []" using k(2) by (auto simp: ckq_ok_def q_list_def intro!: exI [of _ k])
  moreover have "CkQ_sized z sz = Some ?q" using k(1) by (simp add: CkQ_sized_def push_bit_eq_mult)
  ultimately show ?thesis using that by blast
qed

lemma enq_room:
  assumes "ckq_ok q" "qlen q < length (block q)"
  shows "ckq_ok (q\<lparr>block := (block q)[(first q + qlen q) AND qmask q := x], qlen := qlen q + 1\<rparr>)"
    "q_list (q\<lparr>block := (block q)[(first q + qlen q) AND qmask q := x], qlen := qlen q + 1\<rparr>) = q_list q @ [x]"
proof -
  have b: "block q \<noteq> []" using assms(2) by auto
  let ?q = "q\<lparr>block := (block q)[(first q + qlen q) mod length (block q) := x]\<rparr>"
  have m: "(first q + qlen q) AND qmask q = (first q + qlen q) mod length (block q)" by (rule and_qmask [OF assms(1) b])
  show "ckq_ok (q\<lparr>block := (block q)[(first q + qlen q) AND qmask q := x], qlen := qlen q + 1\<rparr>)"
    by (rule ckq_okI [OF assms(1) b]) (use ckq_pos [OF assms(1) b] assms(2) in auto)
  have "qat (q\<lparr>block := (block q)[(first q + qlen q) mod length (block q) := x], qlen := qlen q + 1\<rparr>) i = qat ?q i" for i by (simp add: qat_def)
  then show "q_list (q\<lparr>block := (block q)[(first q + qlen q) AND qmask q := x], qlen := qlen q + 1\<rparr>) = q_list q @ [x]"
    unfolding m by (intro q_listI) (use assms(2) in \<open>auto simp: qat_set nth_append nth_q_list less_Suc_eq\<close>)
qed

lemma made_room:
  assumes "ckq_ok q" "qlen q < 2 ^ 30"
  obtains q' where "(if qlen q = length (block q) then q_expand z q else Some q) = Some q'" "ckq_ok q'" "q_list q' = q_list q"
    "qlen q' = qlen q" "qlen q' < length (block q')"
proof (cases "qlen q = length (block q)")
  case True
  then have "length (block q) < 2 ^ 30" using assms(2) by simp
  from expand_ok [OF assms(1) this] obtain q' where "q_expand z q = Some q'" "ckq_ok q'" "q_list q' = q_list q" "qlen q' = qlen q"
    "length (block q) < length (block q')" .
  then show ?thesis using that True by simp
next
  case False
  moreover have "qlen q \<le> length (block q)" using assms(1) ckq_pos by (cases "block q = []") (auto simp: ckq_ok_def)
  ultimately show ?thesis using that assms(1) by simp
qed

lemma q_enq_ok:
  assumes "ckq_ok q" "qlen q < 2 ^ 30"
  shows "\<exists>q'. q_enq z q x = Some q' \<and> ckq_ok q' \<and> q_list q' = q_list q @ [x]"
proof -
  from made_room [OF assms] obtain r where r: "(if qlen q = length (block q) then q_expand z q else Some q) = Some r" "ckq_ok r" "q_list r = q_list q"
    "qlen r = qlen q" "qlen r < length (block r)" .
  show ?thesis using enq_room [OF r(2,5), of x] r(3) by (simp add: q_enq_def r(1))
qed

lemma push_room:
  assumes "ckq_ok q" "qlen q < length (block q)"
  shows "ckq_ok (q\<lparr>first := (first q + length (block q) - 1) AND qmask q, block := (block q)[(first q + length (block q) - 1) AND qmask q := x], qlen := qlen q + 1\<rparr>)"
    "q_list (q\<lparr>first := (first q + length (block q) - 1) AND qmask q, block := (block q)[(first q + length (block q) - 1) AND qmask q := x], qlen := qlen q + 1\<rparr>) = x # q_list q"
proof -
  have b: "block q \<noteq> []" using assms(2) by auto
  let ?n = "length (block q)"
  have n: "0 < ?n" using b by simp
  have e: "first q + ?n - 1 = first q + (?n - 1)" using n by linarith
  have m: "(first q + (?n - 1)) AND qmask q = (first q + (?n - 1)) mod ?n" by (rule and_qmask [OF assms(1) b])
  let ?q = "q\<lparr>first := (first q + (?n - 1)) mod ?n, block := (block q)[(first q + (?n - 1)) mod ?n := x], qlen := qlen q + 1\<rparr>"
  have "ckq_ok ?q" by (rule ckq_okI [OF assms(1) b]) (use n assms(2) in auto)
  then show "ckq_ok (q\<lparr>first := (first q + length (block q) - 1) AND qmask q, block := (block q)[(first q + length (block q) - 1) AND qmask q := x], qlen := qlen q + 1\<rparr>)"
    unfolding e m .
  have "qat ?q i = (x # q_list q) ! i" if i: "i < qlen q + 1" for i
  proof (cases i)
    case 0
    then show ?thesis using n by (simp add: qat_def)
  next
    case (Suc j)
    have "first q + (?n - 1) + i = first q + j + ?n" using Suc n by linarith
    then have "((first q + (?n - 1)) mod ?n + i) mod ?n = (first q + j + ?n) mod ?n" by (simp only: mod_add_left_eq)
    then have p: "((first q + (?n - 1)) mod ?n + i) mod ?n = (first q + j) mod ?n" by simp
    have "j \<noteq> ?n - 1" "j < ?n" using i Suc assms(2) by simp_all
    then have "(block q)[(first q + (?n - 1)) mod ?n := x] ! ((first q + j) mod ?n) = block q ! ((first q + j) mod ?n)"
      using nth_update_pos [of j "block q" "?n - 1" "first q" x] n by simp
    then show ?thesis using Suc i p by (simp add: qat_def nth_q_list)
  qed
  then have "q_list ?q = x # q_list q" by (intro q_listI) simp_all
  then show "q_list (q\<lparr>first := (first q + length (block q) - 1) AND qmask q, block := (block q)[(first q + length (block q) - 1) AND qmask q := x], qlen := qlen q + 1\<rparr>) = x # q_list q"
    unfolding e m .
qed

lemma q_push_ok:
  assumes "ckq_ok q" "qlen q < 2 ^ 30"
  shows "\<exists>q'. q_push z q x = Some q' \<and> ckq_ok q' \<and> q_list q' = x # q_list q"
proof -
  from made_room [OF assms] obtain r where r: "(if qlen q = length (block q) then q_expand z q else Some q) = Some r" "ckq_ok r" "q_list r = q_list q"
    "qlen r = qlen q" "qlen r < length (block r)" .
  show ?thesis using push_room [OF r(2,5), of x] r(3) by (simp add: q_push_def r(1) Let_def)
qed

lemma deq_empty: "qlen q = 0 \<Longrightarrow> q_deq z q = (z, q)"
  by (simp add: q_deq_def)

lemma q_deq_ok:
  assumes "ckq_ok q"
  shows "ckq_ok (snd (q_deq z q))" "q_list q = x # xs \<Longrightarrow> fst (q_deq z q) = x \<and> q_list (snd (q_deq z q)) = xs"
proof -
  have *: "ckq_ok (snd (q_deq z q)) \<and> (q_list q = x # xs \<longrightarrow> fst (q_deq z q) = x \<and> q_list (snd (q_deq z q)) = xs)"
  proof (cases "qlen q = 0")
    case True
    then show ?thesis using assms by (auto simp: deq_empty q_list_def)
  next
    case False
    then have b: "block q \<noteq> []" using assms by (auto simp: ckq_ok_def)
    let ?n = "length (block q)" and ?q = "q\<lparr>first := (first q + 1) mod length (block q), qlen := qlen q - 1\<rparr>"
    have d: "q_deq z q = (block q ! first q, ?q)" using False and_qmask [OF assms b, of "first q + 1"] by (simp add: q_deq_def)
    have p: "first q < ?n" "qlen q \<le> ?n" using ckq_pos [OF assms b] by auto
    have "(first q + 1) mod ?n < ?n" by (rule mod_less_divisor) (use p in linarith)
    then have "ckq_ok ?q" by (intro ckq_okI [OF assms b]) (use p in auto)
    moreover have "qat ?q i = qat q (Suc i)" for i by (simp add: qat_def mod_simps)
    then have "q_list ?q = tl (q_list q)" by (intro q_listI) (simp_all add: nth_tl nth_q_list)
    moreover have "block q ! first q = hd (q_list q)" using False p by (simp add: q_list_def upt_rec qat_def)
    ultimately show ?thesis using d by auto
  qed
  then show "ckq_ok (snd (q_deq z q))" "q_list q = x # xs \<Longrightarrow> fst (q_deq z q) = x \<and> q_list (snd (q_deq z q)) = xs" by blast+
qed

lemma isEmpty_iff: "q_isEmpty q \<longleftrightarrow> q_list q = []"
  by (simp add: q_isEmpty_def q_list_def)

interpretation ckq_deq: bounded_deque "q_enq z" "q_push z" "q_deq z" q_list ckq_ok "2 ^ 30" for z
  by unfold_locales (simp_all add: q_enq_ok q_push_ok q_deq_ok)

text \<open>What is enqueued in a new queue is dequeued in the same order.\<close>

lemmas ckq_fifo = ckq_deq.first_in_first_out [OF ckq_new]

section \<open>Positions\<close>

text \<open>A queue with other elements in the same block.\<close>

definition reblock :: "'a ckq \<Rightarrow> 'a ckq \<Rightarrow> bool" where
  "reblock q q' \<longleftrightarrow> (\<exists>b. q' = q\<lparr>block := b\<rparr> \<and> length b = length (block q))"

lemma reblock_refl [simp]: "reblock q q"
  unfolding reblock_def by (intro exI [of _ "block q"]) simp

lemma reblock_trans: "reblock q q' \<Longrightarrow> reblock q' q'' \<Longrightarrow> reblock q q''"
  unfolding reblock_def by force

lemma reblock_fields: "reblock q q' \<Longrightarrow> qlen q' = qlen q \<and> first q' = first q \<and> qmask q' = qmask q \<and> length (block q') = length (block q)"
  unfolding reblock_def by auto

lemma reblock_ok: "ckq_ok q \<Longrightarrow> block q \<noteq> [] \<Longrightarrow> reblock q q' \<Longrightarrow> ckq_ok q'"
  by (rule ckq_okI [of q]) (use reblock_fields [of q q'] ckq_pos [of q] in auto)

lemma reblock_set: "reblock q (q\<lparr>block := (block q)[i := x]\<rparr>)"
  unfolding reblock_def by (intro exI [of _ "(block q)[i := x]"]) simp

lemma set_pos:
  assumes "ckq_ok q" "block q \<noteq> []" "j < length (block q)"
  shows "reblock q (q\<lparr>block := (block q)[(j + first q) AND qmask q := x]\<rparr>)"
    "i < length (block q) \<Longrightarrow> qat (q\<lparr>block := (block q)[(j + first q) AND qmask q := x]\<rparr>) i = (if i = j then x else qat q i)"
  using and_qmask [OF assms(1,2), of "j + first q"] assms(3) qat_set [of i q j x] reblock_set by (simp_all add: add.commute)

lemma get_pos: "ckq_ok q \<Longrightarrow> block q \<noteq> [] \<Longrightarrow> block q ! ((i + first q) AND qmask q) = qat q i"
  by (simp add: and_qmask qat_def add.commute)

lemma shift_up_ok:
  "ckq_ok q \<Longrightarrow> m < length (block q) \<Longrightarrow> reblock q (shift_up pos m q)
    \<and> (\<forall>i < length (block q). qat (shift_up pos m q) i = (if pos < i \<and> i \<le> m then qat q (i - 1) else qat q i))"
proof (induction m arbitrary: q)
  case (Suc m)
  show ?case
  proof (cases "pos < Suc m")
    case True
    have b: "block q \<noteq> []" using Suc.prems(2) by auto
    let ?q = "q\<lparr>block := (block q)[(Suc m + first q) AND qmask q := qat q m]\<rparr>"
    have s: "shift_up pos (Suc m) q = shift_up pos m ?q" using True get_pos [OF Suc.prems(1) b, of m] by simp
    have r: "reblock q ?q" and q: "\<And>i. i < length (block q) \<Longrightarrow> qat ?q i = (if i = Suc m then qat q m else qat q i)"
      using set_pos [OF Suc.prems(1) b Suc.prems(2)] by auto
    have ok: "ckq_ok ?q" by (rule reblock_ok [OF Suc.prems(1) b r])
    have "reblock ?q (shift_up pos m ?q) \<and> (\<forall>i < length (block ?q). qat (shift_up pos m ?q) i = (if pos < i \<and> i \<le> m then qat ?q (i - 1) else qat ?q i))"
      by (rule Suc.IH [OF ok]) (use Suc.prems in simp)
    then have a: "reblock ?q (shift_up pos m ?q)" and "\<And>i. i < length (block q) \<Longrightarrow> qat (shift_up pos m ?q) i = (if pos < i \<and> i \<le> m then qat ?q (i - 1) else qat ?q i)"
      by simp_all
    then have "qat (shift_up pos m ?q) i = (if pos < i \<and> i \<le> Suc m then qat q (i - 1) else qat q i)" if "i < length (block q)" for i
      using that q [of i] q [of "i - 1"] True by (cases "i = Suc m") auto
    then show ?thesis unfolding s using reblock_trans [OF r a] by blast
  qed auto
qed auto

lemma shift_down_ok:
  "ckq_ok q \<Longrightarrow> reblock q (shift_down p q)
    \<and> (\<forall>i < length (block q). qat (shift_down p q) i = (if p \<le> i \<and> i < qlen q - 1 then qat q (i + 1) else qat q i))"
proof (induction p q rule: shift_down.induct)
  case (1 p q)
  show ?case
  proof (cases "p < qlen q - 1")
    case False
    then show ?thesis by (subst (1 2) shift_down.simps) auto
  next
    case True
    then have b: "block q \<noteq> []" using 1(2) by (auto simp: ckq_ok_def)
    have l: "qlen q \<le> length (block q)" using ckq_pos [OF 1(2) b] by blast
    let ?q = "q\<lparr>block := (block q)[(p + first q) AND qmask q := qat q (p + 1)]\<rparr>"
    have g: "block q ! ((p + 1 + first q) AND qmask q) = qat q (p + 1)" by (rule get_pos [OF 1(2) b])
    have s: "shift_down p q = shift_down (p + 1) ?q" using True by (subst shift_down.simps) (simp only: g if_True)
    have r: "reblock q ?q" and q: "\<And>i. i < length (block q) \<Longrightarrow> qat ?q i = (if i = p then qat q (p + 1) else qat q i)"
      using set_pos [OF 1(2) b, of p] True l by auto
    have "reblock ?q (shift_down (p + 1) ?q) \<and> (\<forall>i < length (block ?q). qat (shift_down (p + 1) ?q) i = (if p + 1 \<le> i \<and> i < qlen ?q - 1 then qat ?q (i + 1) else qat ?q i))"
      using 1(1) [OF True] reblock_ok [OF 1(2) b r] unfolding g by blast
    then have a: "reblock ?q (shift_down (p + 1) ?q)" and d: "\<And>i. i < length (block q) \<Longrightarrow> qat (shift_down (p + 1) ?q) i = (if p + 1 \<le> i \<and> i < qlen q - 1 then qat ?q (i + 1) else qat ?q i)"
      by simp_all
    have "qat (shift_down (p + 1) ?q) i = (if p \<le> i \<and> i < qlen q - 1 then qat q (i + 1) else qat q i)" if "i < length (block q)" for i
      using d [OF that] q [of i] q [of "i + 1"] that l True by (cases "i = p") auto
    then show ?thesis unfolding s using reblock_trans [OF r a] by blast
  qed
qed

lemma grow_loop_ok:
  assumes "ckq_ok q" "qlen q < 2 ^ 30" "pos < 2 ^ 30"
  shows "\<exists>q'. grow_loop z pos q = Some q' \<and> ckq_ok q' \<and> q_list q' = q_list q \<and> qlen q' = qlen q
    \<and> qlen q < length (block q') \<and> pos < length (block q')"
  using assms(1,2)
proof (induction "2 ^ 30 - length (block q)" arbitrary: q rule: less_induct)
  case less
  show ?case
  proof (cases "qlen q = length (block q) \<or> pos \<ge> length (block q)")
    case True
    then have l: "length (block q) < 2 ^ 30" using less.prems(2) assms(3) by linarith
    from expand_ok [OF less.prems(1) l] obtain q' where q': "q_expand z q = Some q'" "ckq_ok q'" "q_list q' = q_list q"
      "qlen q' = qlen q" "length (block q) < length (block q')" .
    have s: "grow_loop z pos q = grow_loop z pos q'" using True q'(1) by (subst grow_loop.simps) simp
    have "2 ^ 30 - length (block q') < 2 ^ 30 - length (block q)" using q'(5) l by linarith
    from less.hyps [OF this q'(2)] show ?thesis unfolding s using q' less.prems(2) by simp
  next
    case False
    then have s: "grow_loop z pos q = Some q" by (subst grow_loop.simps) simp
    have "block q \<noteq> []" using False by auto
    then show ?thesis unfolding s using less.prems(1) ckq_pos [of q] False by auto
  qed
qed

lemma q_insert_ok:
  assumes "ckq_ok q" "pos \<le> qlen q" "qlen q < 2 ^ 30"
  shows "\<exists>q'. q_insert z pos x q = Some q' \<and> ckq_ok q' \<and> q_list q' = take pos (q_list q) @ x # drop pos (q_list q)"
proof -
  have "pos < 2 ^ 30" using assms(2,3) by linarith
  from grow_loop_ok [OF assms(1,3) this] obtain g where g: "grow_loop z pos q = Some g" "ckq_ok g" "q_list g = q_list q" "qlen g = qlen q"
    "qlen q < length (block g)" "pos < length (block g)" by blast
  have b: "block g \<noteq> []" using g(6) by auto
  let ?s = "shift_up pos (qlen q) g"
  have s: "reblock g ?s" "\<And>i. i < length (block g) \<Longrightarrow> qat ?s i = (if pos < i \<and> i \<le> qlen q then qat g (i - 1) else qat g i)"
    using shift_up_ok [OF g(2,5)] by auto
  note f = reblock_fields [OF s(1)]
  have bs: "block ?s \<noteq> []" "ckq_ok ?s" using f b reblock_ok [OF g(2) b s(1)] by auto
  let ?t = "?s\<lparr>block := (block ?s)[(pos + first ?s) AND qmask ?s := x]\<rparr>"
  have t: "reblock ?s ?t" "\<And>i. i < length (block g) \<Longrightarrow> qat ?t i = (if i = pos then x else qat ?s i)"
    using set_pos [OF bs(2,1), where j = pos and x = x] f g(6) by auto
  have e: "q_insert z pos x q = Some (?t\<lparr>qlen := qlen q + 1\<rparr>)" using assms(2) f g(4) by (simp add: q_insert_def g(1) Let_def)
  have ft: "length (block ?t) = length (block g)" "qmask ?t = qmask g" "first ?t = first g" using f by simp_all
  have ok: "ckq_ok (?t\<lparr>qlen := qlen q + 1\<rparr>)" by (rule ckq_okI [OF g(2) b]) (use ft ckq_pos [OF g(2) b] g(5) in auto)
  have l: "q_list q ! i = qat g i" if "i < qlen q" for i using that g(3,4) nth_q_list [of i g] by simp
  have "qat (?t\<lparr>qlen := qlen q + 1\<rparr>) i = qat ?t i" for i by (simp add: qat_def)
  moreover have "qat ?t i = (take pos (q_list q) @ x # drop pos (q_list q)) ! i" if i: "i < qlen q + 1" for i
  proof -
    have il: "i < length (block g)" using i g(5) by linarith
    consider "i < pos" | "i = pos" | "pos < i" by linarith
    then show ?thesis
    proof cases
      case 1
      then show ?thesis using t(2) [OF il] s(2) [OF il] l [of i] assms(2) by (simp add: nth_append)
    next
      case 2
      then show ?thesis using t(2) [OF il] assms(2) by (simp add: nth_append)
    next
      case 3
      then show ?thesis using t(2) [OF il] s(2) [OF il] l [of "i - 1"] i assms(2) by (simp add: nth_append nth_Cons')
    qed
  qed
  ultimately have "q_list (?t\<lparr>qlen := qlen q + 1\<rparr>) = take pos (q_list q) @ x # drop pos (q_list q)"
    by (intro q_listI) (use assms(2) in simp_all)
  then show ?thesis using e ok by blast
qed

lemma q_remove_ok:
  assumes "ckq_ok q"
  shows "ckq_ok (snd (q_remove z pos q))"
    "pos \<ge> qlen q \<Longrightarrow> q_remove z pos q = (z, q)"
    "pos < qlen q \<Longrightarrow> fst (q_remove z pos q) = q_list q ! pos \<and> q_list (snd (q_remove z pos q)) = take pos (q_list q) @ drop (Suc pos) (q_list q)"
proof -
  show out: "q_remove z pos q = (z, q)" if "pos \<ge> qlen q" using that by (simp add: q_remove_def)
  have r: "ckq_ok (snd (q_remove z pos q)) \<and> fst (q_remove z pos q) = q_list q ! pos \<and> q_list (snd (q_remove z pos q)) = take pos (q_list q) @ drop (Suc pos) (q_list q)"
    if p: "pos < qlen q"
  proof -
    have b: "block q \<noteq> []" using p assms by (auto simp: ckq_ok_def)
    have ql: "qlen q \<le> length (block q)" using ckq_pos [OF assms b] by blast
    let ?s = "shift_down pos q"
    have s: "reblock q ?s" "\<And>i. i < length (block q) \<Longrightarrow> qat ?s i = (if pos \<le> i \<and> i < qlen q - 1 then qat q (i + 1) else qat q i)"
      using shift_down_ok [OF assms, of pos] by auto
    note f = reblock_fields [OF s(1)]
    have e: "q_remove z pos q = (qat q pos, ?s\<lparr>qlen := qlen q - 1\<rparr>)" using p f get_pos [OF assms b, of pos] by (simp add: q_remove_def Let_def)
    have "ckq_ok (?s\<lparr>qlen := qlen q - 1\<rparr>)" by (rule ckq_okI [OF assms b]) (use f ckq_pos [OF assms b] in auto)
    moreover have "qat (?s\<lparr>qlen := qlen q - 1\<rparr>) i = (take pos (q_list q) @ drop (Suc pos) (q_list q)) ! i" if i: "i < qlen q - 1" for i
    proof -
      have "qat (?s\<lparr>qlen := qlen q - 1\<rparr>) i = qat ?s i" by (simp add: qat_def)
      then show ?thesis using s(2) [of i] i ql p by (cases "i < pos") (auto simp: nth_append nth_q_list)
    qed
    then have "q_list (?s\<lparr>qlen := qlen q - 1\<rparr>) = take pos (q_list q) @ drop (Suc pos) (q_list q)" by (intro q_listI) (use p in auto)
    ultimately show ?thesis using e p by (simp add: nth_q_list)
  qed
  then show "ckq_ok (snd (q_remove z pos q))" using out assms by (cases "pos < qlen q") auto
  show "pos < qlen q \<Longrightarrow> fst (q_remove z pos q) = q_list q ! pos \<and> q_list (snd (q_remove z pos q)) = take pos (q_list q) @ drop (Suc pos) (q_list q)" using r by blast
qed

lemma array_loop_ok:
  assumes "ckq_ok q" "block q \<noteq> []"
  shows "array_loop n ((first q + i) mod length (block q)) q = map (qat q) [i..<i + n]"
proof (induction n arbitrary: i)
  case (Suc n)
  have "((first q + i) mod length (block q) + 1) AND qmask q = (first q + Suc i) mod length (block q)" by (simp add: and_qmask [OF assms] mod_simps)
  then show ?case using Suc.IH [of "Suc i"] by (simp add: upt_rec qat_def)
qed simp

text \<open>\<open>getArray\<close> copies the elements in order, and \<open>removeFrom\<close> keeps a prefix.\<close>

lemma getArray_ok:
  assumes "ckq_ok q"
  shows "q_getArray q = q_list q"
proof (cases "block q = []")
  case True
  then show ?thesis using assms by (simp add: q_getArray_def ckq_ok_def q_list_def)
next
  case False
  then show ?thesis using array_loop_ok [OF assms False, of "qlen q" 0] ckq_pos [OF assms False] by (simp add: q_getArray_def q_list_def)
qed

lemma removeFrom_ok:
  assumes "ckq_ok q" "pos < qlen q"
  shows "\<exists>q'. q_removeFrom (int pos) q = Some q' \<and> ckq_ok q' \<and> q_list q' = take pos (q_list q)"
proof -
  have b: "block q \<noteq> []" using assms by (auto simp: ckq_ok_def)
  have "ckq_ok (q\<lparr>qlen := pos\<rparr>)" by (rule ckq_okI [OF assms(1) b]) (use ckq_pos [OF assms(1) b] assms(2) in auto)
  moreover have "qat (q\<lparr>qlen := pos\<rparr>) = qat q" by (simp add: qat_def fun_eq_iff)
  then have "q_list (q\<lparr>qlen := pos\<rparr>) = take pos (q_list q)" using assms(2) by (simp add: q_list_def take_map)
  ultimately show ?thesis using assms(2) by (simp add: q_removeFrom_def)
qed

section \<open>Runs\<close>

datatype 'a q_op = Enq 'a | Push 'a | Deq | InsertAt nat 'a | RemoveAt nat | Length
datatype 'a q_res = Unit | Elt 'a | Num nat

fun q_step :: "'a \<Rightarrow> 'a q_op \<Rightarrow> 'a ckq \<Rightarrow> ('a q_res \<times> 'a ckq) option" where
  "q_step z (Enq x) q = map_option (Pair Unit) (q_enq z q x)"
| "q_step z (Push x) q = map_option (Pair Unit) (q_push z q x)"
| "q_step z Deq q = (case q_deq z q of (x, q) \<Rightarrow> Some (Elt x, q))"
| "q_step z (InsertAt n x) q = map_option (Pair Unit) (q_insert z n x q)"
| "q_step z (RemoveAt n) q = (case q_remove z n q of (x, q) \<Rightarrow> Some (Elt x, q))"
| "q_step z Length q = Some (Num (q_length q), q)"

fun q_run :: "'a \<Rightarrow> 'a q_op list \<Rightarrow> 'a ckq \<Rightarrow> ('a q_res list \<times> 'a list) option" where
  "q_run z [] q = Some ([], q_getArray q)"
| "q_run z (c # cs) q = do { (r, q) \<leftarrow> q_step z c q; (rs, xs) \<leftarrow> q_run z cs q; Some (r # rs, xs) }"

fun list_step :: "'a \<Rightarrow> 'a q_op \<Rightarrow> 'a list \<Rightarrow> 'a q_res \<times> 'a list" where
  "list_step z (Enq x) xs = (Unit, xs @ [x])"
| "list_step z (Push x) xs = (Unit, x # xs)"
| "list_step z Deq xs = (case xs of [] \<Rightarrow> (Elt z, []) | x # xs \<Rightarrow> (Elt x, xs))"
| "list_step z (InsertAt n x) xs = (Unit, take n xs @ x # drop n xs)"
| "list_step z (RemoveAt n) xs = (if n < length xs then (Elt (xs ! n), take n xs @ drop (Suc n) xs) else (Elt z, xs))"
| "list_step z Length xs = (Num (length xs), xs)"

fun list_run :: "'a \<Rightarrow> 'a q_op list \<Rightarrow> 'a list \<Rightarrow> 'a q_res list \<times> 'a list" where
  "list_run z [] xs = ([], xs)"
| "list_run z (c # cs) xs = (case list_step z c xs of (r, xs) \<Rightarrow> case list_run z cs xs of (rs, ys) \<Rightarrow> (r # rs, ys))"

text \<open>Insertion only within the queue or at its end.\<close>

fun inserts_inside :: "'a \<Rightarrow> 'a q_op list \<Rightarrow> 'a list \<Rightarrow> bool" where
  "inserts_inside z [] xs = True"
| "inserts_inside z (c # cs) xs = ((case c of InsertAt n _ \<Rightarrow> n \<le> length xs | _ \<Rightarrow> True) \<and> inserts_inside z cs (snd (list_step z c xs)))"

lemma list_step_length: "length (snd (list_step z c xs)) \<le> Suc (length xs)"
  by (cases c) (auto split: list.split)

lemma q_step_ok:
  assumes "ckq_ok q" "length (q_list q) < 2 ^ 30" "case c of InsertAt n _ \<Rightarrow> n \<le> length (q_list q) | _ \<Rightarrow> True"
  shows "\<exists>r q'. q_step z c q = Some (r, q') \<and> ckq_ok q' \<and> list_step z c (q_list q) = (r, q_list q')"
proof (cases c)
  case (Enq x)
  then show ?thesis using ckq_deq.back_law [OF assms(1,2), of z x] by auto
next
  case (Push x)
  then show ?thesis using ckq_deq.front_law [OF assms(1,2), of z x] by auto
next
  case Deq
  then show ?thesis using ckq_deq.deq_law [OF assms(1), where z = z] deq_empty [of q z] length_q_list [of q] assms(1)
    by (cases "q_list q") (auto simp: case_prod_unfold simp del: length_q_list)
next
  case (InsertAt n x)
  then show ?thesis using q_insert_ok [OF assms(1), of n z x] assms(2,3) by auto
next
  case (RemoveAt n)
  then show ?thesis using q_remove_ok [OF assms(1), where z = z and pos = n] by (auto simp: case_prod_unfold not_less)
qed (use assms(1) in \<open>simp add: q_length_def\<close>)

lemma q_run_ok:
  "ckq_ok q \<Longrightarrow> inserts_inside z cs (q_list q) \<Longrightarrow> length (q_list q) + length cs \<le> 2 ^ 30 \<Longrightarrow> q_run z cs q = Some (list_run z cs (q_list q))"
proof (induction cs arbitrary: q)
  case Nil
  then show ?case by (simp add: getArray_ok)
next
  case (Cons c cs)
  have "length (q_list q) < 2 ^ 30" using Cons.prems(3) by simp
  moreover have "case c of InsertAt n _ \<Rightarrow> n \<le> length (q_list q) | _ \<Rightarrow> True" using Cons.prems(2) by simp
  ultimately obtain r q' where s: "q_step z c q = Some (r, q')" "ckq_ok q'" "list_step z c (q_list q) = (r, q_list q')"
    using q_step_ok [OF Cons.prems(1), where z = z] by blast
  have "q_run z cs q' = Some (list_run z cs (q_list q'))"
    by (rule Cons.IH [OF s(2)]) (use list_step_length [of z c "q_list q"] s(3) Cons.prems(2,3) in auto)
  then show ?case using s by (simp add: case_prod_unfold)
qed

lemma unpack_loop_stuck: "i < qlen q \<Longrightarrow> unpack_loop z i s q = None"
proof (induction s arbitrary: i q)
  case Nil
  then show ?case by simp
next
  case (Cons v s)
  have e: "qlen q' = qlen q" if "q_expand z q = Some q'" for q'
    using that by (auto simp: q_expand_def Let_def split: if_splits)
  have "i + 1 < qlen q'" if "q_enq z q t = Some q'" for t q'
    using that e Cons.prems by (auto simp: q_enq_def split: Option.bind_splits if_splits)
  then have "\<And>t q'. q_enq z q t = Some q' \<Longrightarrow> unpack_loop z (i + 1) s q' = None" using Cons.IH by blast
  then show ?case using Cons.prems
    by (subst unpack_loop.simps, cases v) (simp_all del: unpack_loop.simps split: option.split)
qed

section \<open>Properties\<close>

text \<open>
  C19. The circular queue implements a list: every sequence of at most \<open>2 ^ 30\<close> operations \<open>enq\<close>, \<open>push\<close>, \<open>deq\<close>, \<open>insert\<close>,
  \<open>remove\<close> and \<open>length\<close> on a new queue, created without a size or with one of at most \<open>2 ^ 30\<close>, returns the results of the
  same operations on a list, and \<open>getArray\<close> returns the elements that are left in order. The operations include growing a block that
  has wrapped around. An insertion must not be behind the end of the queue. The bounds are those of \<open>int\<close>: a block of \<open>2 ^ 30\<close> elements cannot be
  doubled.
\<close>

theorem ckq_run_refines:
  assumes "inserts_inside z cs []" "length cs \<le> 2 ^ 30" "sz \<le> 2 ^ 30"
  shows "q_run z cs CkQ = Some (list_run z cs []) \<and> Option.bind (CkQ_sized z sz) (q_run z cs) = Some (list_run z cs [])"
proof -
  obtain q where q: "CkQ_sized z sz = Some q" "ckq_ok q" "q_list q = []" using ckq_sized [OF assms(3)] .
  have "length (q_list CkQ) + length cs \<le> 2 ^ 30" "length (q_list q) + length cs \<le> 2 ^ 30"
    using assms(2) unfolding q(3) ckq_new(2) by simp_all
  then show ?thesis using q_run_ok [OF ckq_new(1), of z cs] q_run_ok [OF q(2), of z cs] q(1) assms(1) unfolding q(3) ckq_new(2) by simp
qed

theorem ckq_run_refines_witness:
  "q_run 0 [Enq 1, Push 2, InsertAt 1 3, Enq (4 :: nat), RemoveAt 2, Deq, Length] CkQ = Some ([Unit, Unit, Unit, Unit, Elt 1, Elt 2, Num 2], [3, 4])"
  using ckq_run_refines [of 0 "[Enq 1, Push 2, InsertAt 1 3, Enq (4 :: nat), RemoveAt 2, Deq, Length]" 5] by simp

text \<open>
  C40. \<open>CkQ::pup\<close> cannot unpack a queue that is not empty: it reads the length into the queue before it enqueues
  the elements, each of which makes the queue longer, so that the loop runs until it writes outside of the block or reads past
  the end of the stream. This holds for every stream with a positive length and every queue.
\<close>

theorem ckq_unpack_fails:
  assumes "0 < n"
  shows "q_unpack z (QLen n # s) q = None"
  using unpack_loop_stuck [of 0 "q\<lparr>qlen := n\<rparr>" z s] assms by (simp add: q_unpack_def)

theorem ckq_unpack_fails_witness:
  "\<exists>q. q_enq 0 CkQ (7 :: nat) = Some q \<and> q_unpack 0 (q_pack q) CkQ = None"
  using ckq_unpack_fails [of 1 0 "[QElt 7]" CkQ]
  by (simp add: q_pack_def q_enq_def CkQ_def q_expand_def)

end
