(* ===== verification/Ck_Vec.thy ===== *)
theory Ck_Vec
  imports Charm_Prelude "HOL-Library.Monad_Syntax"
begin

text \<open>
  The growing array \<open>CkVec\<close> of \<open>util/cklists.h\<close> with its sorting. The parameter \<open>z\<close> is the
  value that \<open>new\<close> gives to an element. Allocation does not fail.
\<close>

record 'a ckvec =
  vblock :: "'a list"
  blklen :: nat
  vlen :: nat

definition makeBlock :: "'a \<Rightarrow> nat \<Rightarrow> nat \<Rightarrow> 'a ckvec" where
  "makeBlock z n used = \<lparr>vblock = replicate n z, blklen = n, vlen = used\<rparr>"

definition freeBlock :: "'a ckvec" where
  "freeBlock = \<lparr>vblock = [], blklen = 0, vlen = 0\<rparr>"

fun elementCopy :: "'a list \<Rightarrow> 'a list \<Rightarrow> nat \<Rightarrow> 'a list" where
  "elementCopy dest src 0 = dest"
| "elementCopy dest src (Suc n) = (elementCopy dest src n)[n := src ! n]"

definition copyFrom :: "'a \<Rightarrow> 'a ckvec \<Rightarrow> 'a ckvec" where
  "copyFrom z src =
    (let v = makeBlock z (blklen src) (vlen src) in v\<lparr>vblock := elementCopy (vblock v) (vblock src) (blklen v)\<rparr>)"

definition CkVec :: "'a ckvec" where
  "CkVec = \<lparr>vblock = [], blklen = 0, vlen = 0\<rparr>"

definition vec_nth :: "'a ckvec \<Rightarrow> nat \<Rightarrow> 'a option" where
  "vec_nth v n = (if n < vlen v then Some (vblock v ! n) else None)"

definition reserve :: "'a \<Rightarrow> nat \<Rightarrow> 'a ckvec \<Rightarrow> 'a ckvec" where
  "reserve z newcapacity v =
    (if newcapacity \<le> blklen v then v
     else let w = makeBlock z newcapacity (vlen v) in w\<lparr>vblock := elementCopy (vblock w) (vblock v) (vlen v)\<rparr>)"

definition resize :: "'a \<Rightarrow> nat \<Rightarrow> 'a ckvec \<Rightarrow> 'a ckvec" where
  "resize z newsize v = (reserve z newsize v)\<lparr>vlen := newsize\<rparr>"

definition growAtLeast :: "'a \<Rightarrow> nat \<Rightarrow> 'a ckvec \<Rightarrow> 'a ckvec" where
  "growAtLeast z pos v = (if pos \<ge> blklen v then reserve z (pos * 2 + 16) v else v)"

definition vec_insert :: "'a \<Rightarrow> nat \<Rightarrow> 'a \<Rightarrow> 'a ckvec \<Rightarrow> 'a ckvec" where
  "vec_insert z pos x v =
    (let v = (if pos \<ge> vlen v then (growAtLeast z pos v)\<lparr>vlen := pos + 1\<rparr> else v)
     in v\<lparr>vblock := (vblock v)[pos := x]\<rparr>)"

fun remove_shift :: "nat \<Rightarrow> nat \<Rightarrow> 'a list \<Rightarrow> 'a list" where
  "remove_shift i 0 b = b"
| "remove_shift i (Suc n) b = remove_shift (i + 1) n (b[i := b ! (i + 1)])"

text \<open>\<^term>\<open>None\<close> is the call of \<open>CmiAbort\<close>.\<close>

definition vec_remove :: "nat \<Rightarrow> 'a ckvec \<Rightarrow> 'a ckvec option" where
  "vec_remove pos v =
    (if pos \<ge> vlen v then None
     else Some (v\<lparr>vblock := remove_shift pos (vlen v - 1 - pos) (vblock v), vlen := vlen v - 1\<rparr>))"

definition removeAll :: "'a ckvec \<Rightarrow> 'a ckvec" where
  "removeAll v = v\<lparr>vlen := 0\<rparr>"

definition push_back :: "'a \<Rightarrow> 'a \<Rightarrow> 'a ckvec \<Rightarrow> 'a ckvec" where
  "push_back z x v = vec_insert z (vlen v) x v"

definition push_back_v :: "'a \<Rightarrow> 'a \<Rightarrow> 'a ckvec \<Rightarrow> nat \<times> 'a ckvec" where
  "push_back_v z x v = (let v = vec_insert z (vlen v) x v in (vlen v - 1, v))"

section \<open>Sorting\<close>

text \<open>The elements between two positions of the block, with the loops as recursions.\<close>

definition vswap :: "nat \<Rightarrow> nat \<Rightarrow> 'a list \<Rightarrow> 'a list" where
  "vswap i j b = b[i := b ! j, j := b ! i]"

function bubble_inner :: "nat \<Rightarrow> nat \<Rightarrow> nat \<Rightarrow> 'a :: linorder list \<Rightarrow> 'a list" where
  "bubble_inner i j right b =
    (if j \<le> right then bubble_inner i (j + 1) right (if b ! i \<ge> b ! j then vswap i j b else b) else b)"
  by auto
termination by (relation "measure (\<lambda>(i, j, right, b). Suc right - j)") auto

declare bubble_inner.simps [simp del]

function bubbleSort :: "nat \<Rightarrow> nat \<Rightarrow> 'a :: linorder list \<Rightarrow> 'a list" where
  "bubbleSort i right b = (if i \<le> right then bubbleSort (i + 1) right (bubble_inner i (i + 1) right b) else b)"
  by auto
termination by (relation "measure (\<lambda>(i, right, b). Suc right - i)") auto

declare bubbleSort.simps [simp del]

fun scan_right :: "'a :: linorder list \<Rightarrow> nat \<Rightarrow> nat \<Rightarrow> nat \<Rightarrow> nat" where
  "scan_right b pivot left 0 = 0"
| "scan_right b pivot left (Suc right) =
    (if b ! Suc right \<ge> b ! pivot \<and> left < Suc right then scan_right b pivot left right else Suc right)"

function scan_left :: "'a :: linorder list \<Rightarrow> nat \<Rightarrow> nat \<Rightarrow> nat \<Rightarrow> nat" where
  "scan_left b pivot left right =
    (if b ! left \<le> b ! pivot \<and> left < right then scan_left b pivot (left + 1) right else left)"
  by auto
termination by (relation "measure (\<lambda>(b, pivot, left, right). right - left)") auto

declare scan_left.simps [simp del]

partial_function (option) partition_loop :: "nat \<Rightarrow> nat \<Rightarrow> nat \<Rightarrow> 'a :: linorder list \<Rightarrow> (nat \<times> 'a list) option" where
  "partition_loop pivot left right b =
    (if left < right then
       let right = scan_right b pivot left right; left = scan_left b pivot left right
       in partition_loop pivot left right (if left < right then vswap left right b else b)
     else Some (left, b))"

declare partition_loop.simps [code]

text \<open>
  All accesses are between \<open>left\<close> and \<open>right\<close>; \<^term>\<open>None\<close> is one outside of the block, or a loop that does not end.
  The sum of the two bounds, which is an \<open>int\<close>, has to fit as well: otherwise the middle is a negative index.
\<close>

partial_function (option) q_sort :: "nat \<Rightarrow> nat \<Rightarrow> nat \<Rightarrow> 'a :: linorder list \<Rightarrow> 'a list option" where
  "q_sort left right changeOverSize b =
    (if left \<ge> right then Some b
     else if length b \<le> right \<or> 2 ^ 31 \<le> left + right then None
     else let b = vswap ((left + right) div 2) left b in
          if right - left \<le> changeOverSize then Some (bubbleSort left right b)
          else do {
            (m, b) \<leftarrow> partition_loop left left right b;
            let b = vswap m left b;
            b \<leftarrow> (if left < m then q_sort left (m - 1) changeOverSize b else Some b);
            (if right > m then q_sort (m + 1) right changeOverSize b else Some b) })"

declare q_sort.simps [code]

definition quickSort :: "nat \<Rightarrow> 'a :: linorder ckvec \<Rightarrow> 'a ckvec option" where
  "quickSort changeOverSize v = map_option (\<lambda>b. v\<lparr>vblock := b\<rparr>) (q_sort 0 (vlen v - 1) changeOverSize (vblock v))"

end
