(* ===== verification/Ck_Vec_Props.thy ===== *)
theory Ck_Vec_Props
  imports Ck_Vec
begin

text \<open>
  The growing array \<open>CkVec\<close> implements a list, and \<open>quickSort\<close> sorts it, whatever the size at
  which it changes over to exchange sort.
\<close>

section \<open>Rearrangements\<close>

lemma length_vswap [simp]: "length (vswap i j b) = length b"
  by (simp add: vswap_def)

lemma nth_vswap: "i < length b \<Longrightarrow> j < length b \<Longrightarrow> vswap i j b ! k = (if k = i then b ! j else if k = j then b ! i else b ! k)"
  by (auto simp: vswap_def nth_list_update)

text \<open>A block that results from exchanges between two positions.\<close>

inductive rearr :: "nat \<Rightarrow> nat \<Rightarrow> 'a list \<Rightarrow> 'a list \<Rightarrow> bool" where
  rearr_refl: "rearr l r b b"
| rearr_swap: "rearr l r b b' \<Longrightarrow> l \<le> i \<Longrightarrow> i \<le> r \<Longrightarrow> l \<le> j \<Longrightarrow> j \<le> r \<Longrightarrow> rearr l r b (vswap i j b')"

lemma rearr_length: "rearr l r b b' \<Longrightarrow> length b' = length b"
  by (induction rule: rearr.induct) simp_all

lemma rearr_one: "l \<le> i \<Longrightarrow> i \<le> r \<Longrightarrow> l \<le> j \<Longrightarrow> j \<le> r \<Longrightarrow> rearr l r b (vswap i j b)"
  by (rule rearr_swap [OF rearr_refl])

lemma rearr_trans:
  assumes "rearr l r b b'" "rearr l r b' b''"
  shows "rearr l r b b''"
  using assms(2,1) by (induction rule: rearr.induct) (auto intro: rearr_swap)

lemma rearr_mono: "rearr l r b b' \<Longrightarrow> l' \<le> l \<Longrightarrow> r \<le> r' \<Longrightarrow> rearr l' r' b b'"
  by (induction rule: rearr.induct) (auto intro: rearr.intros)

lemma rearr_outside: "rearr l r b b' \<Longrightarrow> r < length b \<Longrightarrow> k < l \<or> r < k \<Longrightarrow> b' ! k = b ! k"
proof (induction rule: rearr.induct)
  case (rearr_swap l r b b' i j)
  then show ?case using rearr_length [OF rearr_swap.hyps(1)] by (auto simp: nth_vswap)
qed simp

lemma rearr_all:
  "rearr l r b b' \<Longrightarrow> r < length b \<Longrightarrow> (\<And>k. l \<le> k \<Longrightarrow> k \<le> r \<Longrightarrow> P (b ! k)) \<Longrightarrow> l \<le> k \<Longrightarrow> k \<le> r \<Longrightarrow> P (b' ! k)"
proof (induction arbitrary: k rule: rearr.induct)
  case (rearr_swap l r b b' i j)
  then show ?case using rearr_length [OF rearr_swap.hyps(1)] by (auto simp: nth_vswap)
qed simp

lemma rearr_take:
  "rearr l r b b' \<Longrightarrow> r < n \<Longrightarrow> n \<le> length b \<Longrightarrow> mset (take n b') = mset (take n b)"
proof (induction rule: rearr.induct)
  case (rearr_swap l r b b' i j)
  have "take n (vswap i j b') = vswap i j (take n b')" using rearr_swap by (simp add: vswap_def take_update_swap)
  moreover have "mset (vswap i j (take n b')) = mset (take n b')"
    using rearr_swap rearr_length [OF rearr_swap.hyps(1)] unfolding vswap_def by (intro mset_swap) auto
  ultimately show ?case using rearr_swap by simp
qed simp

definition sorted_seg :: "nat \<Rightarrow> nat \<Rightarrow> 'a :: linorder list \<Rightarrow> bool" where
  "sorted_seg l r b \<longleftrightarrow> (\<forall>i j. l \<le> i \<and> i \<le> j \<and> j \<le> r \<longrightarrow> b ! i \<le> b ! j)"

section \<open>Exchange sort\<close>

lemma bubble_inner_ok:
  "i < j \<Longrightarrow> j \<le> Suc right \<Longrightarrow> right < length b \<Longrightarrow> (\<forall>k. i < k \<and> k < j \<longrightarrow> b ! i \<le> b ! k) \<Longrightarrow>
    rearr i right b (bubble_inner i j right b) \<and> (\<forall>k. i < k \<and> k \<le> right \<longrightarrow> bubble_inner i j right b ! i \<le> bubble_inner i j right b ! k)"
proof (induction i j right b rule: bubble_inner.induct)
  case (1 i j right b)
  show ?case
  proof (cases "j \<le> right")
    case True
    let ?b = "if b ! i \<ge> b ! j then vswap i j b else b"
    have s: "bubble_inner i j right b = bubble_inner i (j + 1) right ?b" using True by (subst bubble_inner.simps) simp
    have r: "rearr i right b ?b" using True 1(2) by (auto intro: rearr_refl rearr_one)
    have "?b ! i \<le> ?b ! k" if "i < k" "k < j + 1" for k
      using that 1 True by (auto simp: nth_vswap less_Suc_eq)
    then have "rearr i right ?b (bubble_inner i (j + 1) right ?b) \<and> (\<forall>k. i < k \<and> k \<le> right \<longrightarrow> bubble_inner i (j + 1) right ?b ! i \<le> bubble_inner i (j + 1) right ?b ! k)"
      using 1 True by (intro 1(1)) auto
    then show ?thesis unfolding s using rearr_trans [OF r] by blast
  next
    case False
    then have "bubble_inner i j right b = b" by (subst bubble_inner.simps) simp
    then show ?thesis using 1 False rearr_refl by (metis less_Suc_eq_le not_le order_less_le_trans)
  qed
qed

lemma bubbleSort_ok:
  "l \<le> i \<Longrightarrow> right < length b \<Longrightarrow> (\<forall>x y. l \<le> x \<and> x < i \<and> x \<le> y \<and> y \<le> right \<longrightarrow> b ! x \<le> b ! y) \<Longrightarrow>
    rearr l right b (bubbleSort i right b) \<and> sorted_seg l right (bubbleSort i right b)"
proof (induction i right b rule: bubbleSort.induct)
  case (1 i right b)
  show ?case
  proof (cases "i \<le> right")
    case False
    then have "bubbleSort i right b = b" by (subst bubbleSort.simps) simp
    then show ?thesis using 1 False rearr_refl by (auto simp: sorted_seg_def)
  next
    case True
    let ?b = "bubble_inner i (i + 1) right b"
    have s: "bubbleSort i right b = bubbleSort (i + 1) right ?b" using True by (subst bubbleSort.simps) simp
    have "\<forall>k. i < k \<and> k < i + 1 \<longrightarrow> b ! i \<le> b ! k" by linarith
    from bubble_inner_ok [OF _ _ 1(3) this] True
    have in1: "rearr i right b ?b" and in2: "\<And>k. i < k \<Longrightarrow> k \<le> right \<Longrightarrow> ?b ! i \<le> ?b ! k" by auto
    have "?b ! x \<le> ?b ! y" if xy: "l \<le> x" "x < i + 1" "x \<le> y" "y \<le> right" for x y
    proof (cases "x = i")
      case True
      then show ?thesis using in2 xy by (cases "y = i") auto
    next
      case False
      then have x: "x < i" "?b ! x = b ! x" using xy rearr_outside [OF in1 1(3)] by auto
      show ?thesis
      proof (cases "y < i")
        case True
        then have "?b ! y = b ! y" using rearr_outside [OF in1 1(3)] by simp
        then show ?thesis using x 1(4) xy by simp
      next
        case False
        have "b ! x \<le> ?b ! y" by (rule rearr_all [OF in1 1(3)]) (use x 1(4) xy False in auto)
        then show ?thesis using x by simp
      qed
    qed
    then have "rearr l right ?b (bubbleSort (i + 1) right ?b) \<and> sorted_seg l right (bubbleSort (i + 1) right ?b)"
      using 1 True rearr_length [OF in1] by (intro 1(1)) auto
    then show ?thesis unfolding s using rearr_trans [OF rearr_mono [OF in1 1(2) order_refl]] by blast
  qed
qed

section \<open>Quicksort\<close>

lemma scan_right_ok:
  "left \<le> right \<Longrightarrow> left \<le> scan_right b p left right \<and> scan_right b p left right \<le> right
    \<and> (\<forall>k. scan_right b p left right < k \<and> k \<le> right \<longrightarrow> b ! p \<le> b ! k) \<and> (scan_right b p left right = left \<or> b ! scan_right b p left right < b ! p)"
proof (induction right)
  case (Suc right)
  show ?case
  proof (cases "b ! p \<le> b ! Suc right \<and> left < Suc right")
    case True
    then have "scan_right b p left (Suc right) = scan_right b p left right" by simp
    then show ?thesis using Suc.IH True by (auto simp: le_Suc_eq)
  next
    case False
    then have "scan_right b p left (Suc right) = Suc right" by auto
    then show ?thesis using False Suc.prems by auto
  qed
qed simp

lemma scan_left_ok:
  "left \<le> right \<Longrightarrow> left \<le> scan_left b p left right \<and> scan_left b p left right \<le> right
    \<and> (\<forall>k. left \<le> k \<and> k < scan_left b p left right \<longrightarrow> b ! k \<le> b ! p) \<and> (scan_left b p left right = right \<or> b ! p < b ! scan_left b p left right)"
proof (induction b p left right rule: scan_left.induct)
  case (1 b p left right)
  show ?case
  proof (cases "b ! left \<le> b ! p \<and> left < right")
    case True
    then have s: "scan_left b p left right = scan_left b p (left + 1) right" by (subst scan_left.simps) simp
    from 1(1) [OF True] True have ih: "left + 1 \<le> scan_left b p (left + 1) right \<and> scan_left b p (left + 1) right \<le> right
      \<and> (\<forall>k. left + 1 \<le> k \<and> k < scan_left b p (left + 1) right \<longrightarrow> b ! k \<le> b ! p) \<and> (scan_left b p (left + 1) right = right \<or> b ! p < b ! scan_left b p (left + 1) right)" by simp
    moreover have "b ! k \<le> b ! p" if "left \<le> k" "k < scan_left b p (left + 1) right" for k using that ih True by (cases "k = left") auto
    ultimately show ?thesis unfolding s by auto
  next
    case False
    then have "scan_left b p left right = left" by (subst scan_left.simps) (rule if_not_P)
    then show ?thesis using False 1 by auto
  qed
qed

lemma partition_loop_ok:
  assumes "l \<le> left" "left \<le> right" "right \<le> r" "r < length b" "b ! left \<le> b ! l"
    "\<forall>k. l \<le> k \<and> k < left \<longrightarrow> b ! k \<le> b ! l" "\<forall>k. right < k \<and> k \<le> r \<longrightarrow> b ! l \<le> b ! k"
  shows "\<exists>m b'. partition_loop l left right b = Some (m, b') \<and> l \<le> m \<and> m \<le> r \<and> rearr l r b b'
    \<and> (\<forall>k. l \<le> k \<and> k \<le> m \<longrightarrow> b' ! k \<le> b' ! l) \<and> (\<forall>k. m < k \<and> k \<le> r \<longrightarrow> b' ! l \<le> b' ! k)"
  using assms
proof (induction "right - left" arbitrary: left right b rule: less_induct)
  case less
  show ?case
  proof (cases "left < right")
    case False
    then have "partition_loop l left right b = Some (left, b)" by (subst partition_loop.simps) simp
    moreover have "b ! k \<le> b ! l" if "l \<le> k" "k \<le> left" for k using that less.prems by (cases "k = left") auto
    ultimately show ?thesis using less.prems False rearr_refl by (intro exI [of _ left] exI [of _ b]) auto
  next
    case True
    define r' where "r' = scan_right b l left right"
    define l' where "l' = scan_left b l left r'"
    have r': "left \<le> r'" "r' \<le> right" "\<And>k. r' < k \<Longrightarrow> k \<le> right \<Longrightarrow> b ! l \<le> b ! k" "r' = left \<or> b ! r' < b ! l"
      using scan_right_ok [OF less.prems(2), of b l] by (auto simp: r'_def)
    have l': "left \<le> l'" "l' \<le> r'" "\<And>k. left \<le> k \<Longrightarrow> k < l' \<Longrightarrow> b ! k \<le> b ! l" "l' = r' \<or> b ! l < b ! l'"
      using scan_left_ok [OF r'(1), of b l] by (auto simp: l'_def)
    have low: "b ! k \<le> b ! l" if "l \<le> k" "k < l'" for k using that less.prems(6) l'(3) by (cases "k < left") auto
    have high: "b ! l \<le> b ! k" if "r' < k" "k \<le> r" for k using that less.prems(7) r'(3) by (cases "right < k") auto
    define b2 where "b2 = (if l' < r' then vswap l' r' b else b)"
    have s: "partition_loop l left right b = partition_loop l l' r' b2" using True
      by (subst partition_loop.simps) (simp add: Let_def r'_def l'_def b2_def)
    have adv: "left < l'" if "l' < r'" using that l'(1,4) less.prems(5) by (cases "l' = left") auto
    have rr: "rearr l r b b2" unfolding b2_def using adv less.prems r' l' by (auto intro!: rearr_refl rearr_one)
    have inl: "l' < length b" "r' < length b" using r' l' less.prems by auto
    have nth: "b2 ! k = (if l' < r' then if k = l' then b ! r' else if k = r' then b ! l' else b ! k else b ! k)" for k
      unfolding b2_def using nth_vswap [OF inl] by simp
    have p: "b2 ! l = b ! l" unfolding nth using adv less.prems(1) by auto
    have "\<exists>m b'. partition_loop l l' r' b2 = Some (m, b') \<and> l \<le> m \<and> m \<le> r \<and> rearr l r b2 b'
      \<and> (\<forall>k. l \<le> k \<and> k \<le> m \<longrightarrow> b' ! k \<le> b' ! l) \<and> (\<forall>k. m < k \<and> k \<le> r \<longrightarrow> b' ! l \<le> b' ! k)"
    proof (rule less.hyps)
      show "r' - l' < right - left" using True r' l' adv by (cases "l' < r'") auto
      show "b2 ! l' \<le> b2 ! l" unfolding p using r'(4) l' less.prems(5) by (auto simp: nth)
      show "\<forall>k. l \<le> k \<and> k < l' \<longrightarrow> b2 ! k \<le> b2 ! l" unfolding p using low l'(2) by (auto simp: nth)
      show "\<forall>k. r' < k \<and> k \<le> r \<longrightarrow> b2 ! l \<le> b2 ! k" unfolding p using high l'(2) by (auto simp: nth)
    qed (use less.prems r' l' rearr_length [OF rr] in auto)
    then show ?thesis unfolding s using rearr_trans [OF rr] by blast
  qed
qed

lemma sorted_seg_join:
  assumes "sorted_seg l (m - 1) b" "sorted_seg (m + 1) r b" "\<And>k. l \<le> k \<Longrightarrow> k < m \<Longrightarrow> b ! k \<le> b ! m" "\<And>k. m < k \<Longrightarrow> k \<le> r \<Longrightarrow> b ! m \<le> b ! k"
  shows "sorted_seg l r b"
  unfolding sorted_seg_def
proof (intro allI impI)
  fix i j assume ij: "l \<le> i \<and> i \<le> j \<and> j \<le> r"
  consider "j < m" | "i < m" "j = m" | "i < m" "m < j" | "i = m" "j = m" | "i = m" "m < j" | "m < i" using ij by linarith
  then show "b ! i \<le> b ! j"
  proof cases
    case 1
    then show ?thesis using assms(1) ij unfolding sorted_seg_def by auto
  next
    case 3
    then show ?thesis using assms(3) [of i] assms(4) [of j] ij by (meson order_trans)
  next
    case 6
    then show ?thesis using assms(2) ij unfolding sorted_seg_def by auto
  qed (use assms ij in auto)
qed

lemma sorted_seg_trivial: "right \<le> left \<Longrightarrow> sorted_seg left right b"
  by (auto simp: sorted_seg_def dest: order_antisym)

lemma sorted_seg_cong: "sorted_seg l r b \<Longrightarrow> (\<And>k. l \<le> k \<Longrightarrow> k \<le> r \<Longrightarrow> b' ! k = b ! k) \<Longrightarrow> sorted_seg l r b'"
  by (simp add: sorted_seg_def)

lemma sort_below:
  assumes "left \<le> m" "m \<le> right" "right < length b" "\<And>k. left \<le> k \<Longrightarrow> k < m \<Longrightarrow> b ! k \<le> p"
    and ih: "left < m \<Longrightarrow> \<exists>b'. q_sort left (m - 1) c b = Some b' \<and> rearr left (m - 1) b b' \<and> sorted_seg left (m - 1) b'"
  shows "\<exists>b'. (if left < m then q_sort left (m - 1) c b else Some b) = Some b' \<and> rearr left right b b' \<and> sorted_seg left (m - 1) b'
    \<and> (\<forall>k. m \<le> k \<longrightarrow> b' ! k = b ! k) \<and> (\<forall>k. left \<le> k \<and> k < m \<longrightarrow> b' ! k \<le> p)"
proof (cases "left < m")
  case True
  from ih [OF True] obtain b' where b': "q_sort left (m - 1) c b = Some b'" "rearr left (m - 1) b b'" "sorted_seg left (m - 1) b'" by blast
  have "b' ! k = b ! k" if "m \<le> k" for k by (rule rearr_outside [OF b'(2)]) (use that True assms in auto)
  moreover have "b' ! k \<le> p" if "left \<le> k" "k < m" for k by (rule rearr_all [OF b'(2), where P = "\<lambda>x. x \<le> p"]) (use that assms in auto)
  moreover have "rearr left right b b'" by (rule rearr_mono [OF b'(2)]) (use assms in auto)
  ultimately show ?thesis using True b' by auto
next
  case False
  then show ?thesis using assms rearr_refl sorted_seg_trivial [of "m - 1" left b] by auto
qed

lemma sort_above:
  assumes "left \<le> m" "m \<le> right" "right < length b" "\<And>k. m < k \<Longrightarrow> k \<le> right \<Longrightarrow> p \<le> b ! k"
    and ih: "m < right \<Longrightarrow> \<exists>b'. q_sort (m + 1) right c b = Some b' \<and> rearr (m + 1) right b b' \<and> sorted_seg (m + 1) right b'"
  shows "\<exists>b'. (if m < right then q_sort (m + 1) right c b else Some b) = Some b' \<and> rearr left right b b' \<and> sorted_seg (m + 1) right b'
    \<and> (\<forall>k. k \<le> m \<longrightarrow> b' ! k = b ! k) \<and> (\<forall>k. m < k \<and> k \<le> right \<longrightarrow> p \<le> b' ! k)"
proof (cases "m < right")
  case True
  from ih [OF True] obtain b' where b': "q_sort (m + 1) right c b = Some b'" "rearr (m + 1) right b b'" "sorted_seg (m + 1) right b'" by blast
  have "b' ! k = b ! k" if "k \<le> m" for k by (rule rearr_outside [OF b'(2)]) (use that True assms in auto)
  moreover have "p \<le> b' ! k" if "m < k" "k \<le> right" for k by (rule rearr_all [OF b'(2), where P = "\<lambda>x. p \<le> x"]) (use that assms in auto)
  moreover have "rearr left right b b'" by (rule rearr_mono [OF b'(2)]) (use assms in auto)
  ultimately show ?thesis using True b' by auto
next
  case False
  then show ?thesis using assms rearr_refl sorted_seg_trivial [of right "m + 1" b] by auto
qed

lemma q_sort_ok:
  assumes "left < right \<Longrightarrow> right < length b \<and> right \<le> 2 ^ 30"
  shows "\<exists>b'. q_sort left right c b = Some b' \<and> rearr left right b b' \<and> sorted_seg left right b'"
  using assms
proof (induction "right - left" arbitrary: left right b rule: less_induct)
  case less
  show ?case
  proof (cases "left < right")
    case False
    then have "q_sort left right c b = Some b" by (subst q_sort.simps) simp
    then show ?thesis using False rearr_refl sorted_seg_trivial [of right left b] by auto
  next
    case True
    have rl: "right < length b" "\<not> (length b \<le> right \<or> 2 ^ 31 \<le> left + right)" and rm: "right \<le> 2 ^ 30" using less.prems True by simp_all
    define b1 where "b1 = vswap ((left + right) div 2) left b"
    have r1: "rearr left right b b1" unfolding b1_def using True by (intro rearr_one) auto
    have l1: "right < length b1" using rl(1) by (simp add: b1_def)
    show ?thesis
    proof (cases "right - left \<le> c")
      case small: True
      then have "q_sort left right c b = Some (bubbleSort left right b1)" using True rl(2) by (subst q_sort.simps) (simp add: b1_def)
      moreover have "rearr left right b1 (bubbleSort left right b1) \<and> sorted_seg left right (bubbleSort left right b1)"
        by (rule bubbleSort_ok) (use l1 in auto)
      ultimately show ?thesis using rearr_trans [OF r1] by blast
    next
      case big: False
      have "\<forall>k. left \<le> k \<and> k < left \<longrightarrow> b1 ! k \<le> b1 ! left" "\<forall>k. right < k \<and> k \<le> right \<longrightarrow> b1 ! left \<le> b1 ! k" by linarith+
      from partition_loop_ok [OF order_refl _ order_refl l1 order_refl this] True obtain m b2 where
        m: "partition_loop left left right b1 = Some (m, b2)" "left \<le> m" "m \<le> right" "rearr left right b1 b2"
          "\<forall>k. left \<le> k \<and> k \<le> m \<longrightarrow> b2 ! k \<le> b2 ! left" "\<forall>k. m < k \<and> k \<le> right \<longrightarrow> b2 ! left \<le> b2 ! k" by auto
      have l2: "right < length b2" using rearr_length [OF m(4)] l1 by simp
      define b3 where "b3 = vswap m left b2"
      have r3: "rearr left right b2 b3" unfolding b3_def using m True by (intro rearr_one) auto
      have n3: "b3 ! k = (if k = m then b2 ! left else if k = left then b2 ! m else b2 ! k)" for k
        unfolding b3_def by (rule nth_vswap) (use m l2 True in auto)
      have l3: "right < length b3" using l2 by (simp add: b3_def)
      let ?p = "b3 ! m"
      have "\<exists>b4. (if left < m then q_sort left (m - 1) c b3 else Some b3) = Some b4 \<and> rearr left right b3 b4 \<and> sorted_seg left (m - 1) b4
        \<and> (\<forall>k. m \<le> k \<longrightarrow> b4 ! k = b3 ! k) \<and> (\<forall>k. left \<le> k \<and> k < m \<longrightarrow> b4 ! k \<le> ?p)"
      proof (rule sort_below [OF m(2,3) l3])
        show "b3 ! k \<le> ?p" if "left \<le> k" "k < m" for k using that m by (auto simp: n3)
        show "\<exists>b'. q_sort left (m - 1) c b3 = Some b' \<and> rearr left (m - 1) b3 b' \<and> sorted_seg left (m - 1) b'" if "left < m"
          by (rule less.hyps) (use that m l3 rm in auto)
      qed
      then obtain b4 where b4: "(if left < m then q_sort left (m - 1) c b3 else Some b3) = Some b4" "rearr left right b3 b4" "sorted_seg left (m - 1) b4"
        "\<forall>k. m \<le> k \<longrightarrow> b4 ! k = b3 ! k" "\<forall>k. left \<le> k \<and> k < m \<longrightarrow> b4 ! k \<le> ?p" by blast
      have l4: "right < length b4" using rearr_length [OF b4(2)] l3 by simp
      have "\<exists>b5. (if m < right then q_sort (m + 1) right c b4 else Some b4) = Some b5 \<and> rearr left right b4 b5 \<and> sorted_seg (m + 1) right b5
        \<and> (\<forall>k. k \<le> m \<longrightarrow> b5 ! k = b4 ! k) \<and> (\<forall>k. m < k \<and> k \<le> right \<longrightarrow> ?p \<le> b5 ! k)"
      proof (rule sort_above [OF m(2,3) l4])
        show "?p \<le> b4 ! k" if "m < k" "k \<le> right" for k using that m b4(4) by (auto simp: n3)
        show "\<exists>b'. q_sort (m + 1) right c b4 = Some b' \<and> rearr (m + 1) right b4 b' \<and> sorted_seg (m + 1) right b'" if "m < right"
          by (rule less.hyps) (use that m l4 rm True in auto)
      qed
      then obtain b5 where b5: "(if m < right then q_sort (m + 1) right c b4 else Some b4) = Some b5" "rearr left right b4 b5" "sorted_seg (m + 1) right b5"
        "\<forall>k. k \<le> m \<longrightarrow> b5 ! k = b4 ! k" "\<forall>k. m < k \<and> k \<le> right \<longrightarrow> ?p \<le> b5 ! k" by blast
      have "q_sort left right c b = Some b5" using True rl(2) big m(1) b4(1) b5(1)
        by (subst q_sort.simps) (simp add: b1_def [symmetric] b3_def [symmetric] del: if_split_asm)
      moreover have "sorted_seg left right b5"
      proof (rule sorted_seg_join [OF _ b5(3)])
        show "sorted_seg left (m - 1) b5"
        proof (cases "m = 0")
          case True
          then show ?thesis by (intro sorted_seg_trivial) simp
        next
          case False
          then show ?thesis by (intro sorted_seg_cong [OF b4(3)]) (use b5(4) in auto)
        qed
      qed (use b4(4,5) b5(4,5) in auto)
      moreover have "rearr left right b b5" by (rule rearr_trans [OF r1 rearr_trans [OF m(4) rearr_trans [OF r3 rearr_trans [OF b4(2) b5(2)]]]])
      ultimately show ?thesis by blast
    qed
  qed
qed

section \<open>Vectors\<close>

definition vec_ok :: "'a ckvec \<Rightarrow> bool" where
  "vec_ok v \<longleftrightarrow> length (vblock v) = blklen v \<and> vlen v \<le> blklen v"

definition vec_list :: "'a ckvec \<Rightarrow> 'a list" where
  "vec_list v = take (vlen v) (vblock v)"

lemma elementCopy_ok: "n \<le> length dest \<Longrightarrow> n \<le> length src \<Longrightarrow> elementCopy dest src n = take n src @ drop n dest"
proof (induction n)
  case (Suc n)
  have d: "drop n dest = dest ! n # drop (Suc n) dest" using Suc.prems by (simp add: drop_nth_Cons)
  have "(take n src @ drop n dest)[n := src ! n] = take n src @ src ! n # drop (Suc n) dest" unfolding d using Suc.prems by (simp add: list_update_append)
  then show ?case using Suc by (simp add: take_Suc_snoc)
qed simp

lemma reserve_ok:
  assumes "vec_ok v"
  shows "vec_ok (reserve z n v)" "vec_list (reserve z n v) = vec_list v" "n \<le> blklen (reserve z n v)" "vlen (reserve z n v) = vlen v"
    "n \<le> blklen v \<Longrightarrow> reserve z n v = v"
  using assms by (auto simp: reserve_def makeBlock_def Let_def vec_ok_def vec_list_def elementCopy_ok)

lemma copyFrom_ok:
  assumes "vec_ok v"
  shows "vec_ok (copyFrom z v)" "vec_list (copyFrom z v) = vec_list v"
  using assms by (auto simp: copyFrom_def makeBlock_def Let_def vec_ok_def vec_list_def elementCopy_ok)

lemma growAtLeast_ok:
  assumes "vec_ok v"
  shows "vec_ok (growAtLeast z p v)" "vec_list (growAtLeast z p v) = vec_list v" "p < blklen (growAtLeast z p v)" "vlen (growAtLeast z p v) = vlen v"
  using reserve_ok [OF assms, where z = z and n = "p * 2 + 16"] assms by (auto simp: growAtLeast_def)

lemma vec_push_back_ok:
  assumes "vec_ok v"
  shows "vec_ok (push_back z x v)" "vec_list (push_back z x v) = vec_list v @ [x]"
proof -
  let ?g = "growAtLeast z (vlen v) v"
  note g = growAtLeast_ok [OF assms, where z = z and p = "vlen v"]
  have e: "push_back z x v = ?g\<lparr>vlen := vlen v + 1, vblock := (vblock ?g)[vlen v := x]\<rparr>" by (simp add: push_back_def vec_insert_def Let_def)
  show "vec_ok (push_back z x v)" unfolding e using g by (simp add: vec_ok_def)
  have "vlen v < length (vblock ?g)" using g(1,3) by (simp add: vec_ok_def)
  then show "vec_list (push_back z x v) = vec_list v @ [x]" unfolding e using g(2,4) by (simp add: vec_list_def take_Suc_snoc)
qed

lemma vec_insert_inside:
  assumes "vec_ok v" "p < vlen v"
  shows "vec_ok (vec_insert z p x v)" "vec_list (vec_insert z p x v) = (vec_list v)[p := x]"
  using assms by (auto simp: vec_insert_def vec_ok_def vec_list_def take_update_swap)

lemma remove_shift_ok:
  "i + n < length b \<Longrightarrow> length (remove_shift i n b) = length b
    \<and> (\<forall>k. remove_shift i n b ! k = (if i \<le> k \<and> k < i + n then b ! (k + 1) else b ! k))"
proof (induction n arbitrary: i b)
  case (Suc n)
  let ?b = "b[i := b ! (i + 1)]"
  have ih: "length (remove_shift (i + 1) n ?b) = length ?b \<and> (\<forall>k. remove_shift (i + 1) n ?b ! k = (if i + 1 \<le> k \<and> k < i + 1 + n then ?b ! (k + 1) else ?b ! k))"
    using Suc.prems by (intro Suc.IH) simp
  have "remove_shift i (Suc n) b ! k = (if i \<le> k \<and> k < i + Suc n then b ! (k + 1) else b ! k)" for k
    using ih Suc.prems by (cases "k = i") auto
  then show ?case using ih by simp
qed auto

lemma vec_remove_ok:
  assumes "vec_ok v"
  shows "p \<ge> vlen v \<Longrightarrow> vec_remove p v = None"
    "p < vlen v \<Longrightarrow> \<exists>w. vec_remove p v = Some w \<and> vec_ok w \<and> vec_list w = take p (vec_list v) @ drop (Suc p) (vec_list v)"
proof -
  show "p \<ge> vlen v \<Longrightarrow> vec_remove p v = None" by (simp add: vec_remove_def)
  assume p: "p < vlen v"
  let ?b = "remove_shift p (vlen v - 1 - p) (vblock v)"
  have r: "length ?b = length (vblock v)" "\<And>k. ?b ! k = (if p \<le> k \<and> k < vlen v - 1 then vblock v ! (k + 1) else vblock v ! k)"
    using remove_shift_ok [of p "vlen v - 1 - p" "vblock v"] p assms by (auto simp: vec_ok_def)
  have "take (vlen v - 1) ?b = take p (vec_list v) @ drop (Suc p) (vec_list v)"
    by (rule nth_equalityI) (use p assms r in \<open>auto simp: vec_ok_def vec_list_def nth_append\<close>)
  then show "\<exists>w. vec_remove p v = Some w \<and> vec_ok w \<and> vec_list w = take p (vec_list v) @ drop (Suc p) (vec_list v)"
    using p r(1) assms by (auto simp: vec_remove_def vec_ok_def vec_list_def)
qed

section \<open>Properties\<close>

text \<open>
  C20. \<open>CkVec::quickSort\<close> returns for every vector of at most \<open>2 ^ 30\<close> elements and every size at which it changes
  over to exchange sort, and the elements of the vector are then those of before in increasing order; the space behind
  them is not touched. Beyond \<open>2 ^ 30\<close> elements the sum of two indices can exceed the range of \<open>int\<close>.
\<close>

theorem ckvec_sorts:
  assumes "vec_ok v" "vlen v \<le> 2 ^ 30"
  shows "\<exists>w. quickSort changeOverSize v = Some w \<and> vec_ok w \<and> vec_list w = sort (vec_list v) \<and> drop (vlen v) (vblock w) = drop (vlen v) (vblock v)"
proof (cases "vlen v = 0")
  case True
  then have "q_sort 0 (vlen v - 1) changeOverSize (vblock v) = Some (vblock v)" by (subst q_sort.simps) simp
  then show ?thesis using True assms(1) by (simp add: quickSort_def vec_list_def)
next
  case False
  have l: "vlen v - 1 < length (vblock v)" using False assms(1) unfolding vec_ok_def by linarith
  have "vlen v - 1 < length (vblock v) \<and> vlen v - 1 \<le> 2 ^ 30" using l assms(2) by linarith
  from q_sort_ok [OF this, of 0 changeOverSize] obtain b where
    b: "q_sort 0 (vlen v - 1) changeOverSize (vblock v) = Some b" "rearr 0 (vlen v - 1) (vblock v) b" "sorted_seg 0 (vlen v - 1) b" by auto
  have lb: "length b = length (vblock v)" by (rule rearr_length [OF b(2)])
  have "mset (take (vlen v) b) = mset (take (vlen v) (vblock v))" by (rule rearr_take [OF b(2)]) (use False assms(1) in \<open>auto simp: vec_ok_def\<close>)
  moreover have "sorted (take (vlen v) b)" using b(3) lb assms(1) False by (auto simp: sorted_iff_nth_mono sorted_seg_def vec_ok_def)
  ultimately have "take (vlen v) b = sort (take (vlen v) (vblock v))" by (metis properties_for_sort)
  moreover have "drop (vlen v) b = drop (vlen v) (vblock v)"
    by (rule nth_equalityI) (use lb rearr_outside [OF b(2) l] False in auto)
  ultimately show ?thesis using b(1) lb assms(1) by (simp add: quickSort_def vec_list_def vec_ok_def)
qed

theorem ckvec_sorts_witness:
  "\<exists>w. quickSort 1 \<lparr>vblock = [3, 1, 2, 3, 0 :: nat, 9], blklen = 6, vlen = 5\<rparr> = Some w \<and> vec_list w = [0, 1, 2, 3, 3]"
  using ckvec_sorts [of "\<lparr>vblock = [3, 1, 2, 3, 0 :: nat, 9], blklen = 6, vlen = 5\<rparr>" 1] by (auto simp: vec_ok_def vec_list_def)

end
