(* ===== verification/Task_Queue.thy ===== *)
theory Task_Queue
  imports Charm_Prelude "HOL-Library.Signed_Division" "HOL-Library.Monad_Syntax"
begin

text \<open>
  The work stealing queue of \<open>conv-core/taskqueue.h\<close>. One worker pushes and pops tasks at the tail, and other
  threads steal them at the head, without locks. Every access to the shared fields \<open>head\<close> and \<open>tail\<close> is a step
  of its own, and the steps of all threads interleave in any order on a memory that is sequentially
  consistent. The indices \<open>head\<close> and \<open>tail\<close> are of type \<open>int\<close>: the head only grows, and the tail with it; they wrap
  around after the largest value, and the remainder of a negative index is negative. An access outside of the array is \<^term>\<open>None\<close>.
\<close>

definition TaskQueueSize :: nat where "TaskQueueSize = 1024"

record 'a tq =
  qhead :: int
  qtail :: int
  qdata :: "'a list"

text \<open>The argument is the content of the memory that \<open>malloc\<close> returns.\<close>

definition TaskQueueCreate :: "'a list \<Rightarrow> 'a tq" where
  "TaskQueueCreate d = \<lparr>qhead = 0, qtail = 0, qdata = d\<rparr>"

definition tq_get :: "'a tq \<Rightarrow> int \<Rightarrow> 'a option" where
  "tq_get Q i = arr_get (qdata Q) (i smod int TaskQueueSize)"

section \<open>Steps of the threads\<close>

text \<open>What a step shows outside: a task that is now in the queue, a task that is returned, \<open>NULL\<close> that is returned, or nothing.\<close>

datatype 'a event = Pushed 'a | Got 'a | Null | Silent

datatype 'a owner = OIdle | OPush 'a | OPopHead int | OPopEmpty int | OPopOne int int | OPopCas int int

definition push_begin :: "'a \<Rightarrow> 'a tq \<Rightarrow> ('a tq \<times> 'a owner) option" where
  "push_begin x Q = do {
     d \<leftarrow> arr_upd (qdata Q) (qtail Q smod int TaskQueueSize) (\<lambda>_. x);
     Some (Q\<lparr>qdata := d\<rparr>, OPush x)
   }"

definition pop_begin :: "'a tq \<Rightarrow> 'a tq \<times> 'a owner" where
  "pop_begin Q = (let t = c_int (qtail Q - 1) in (Q\<lparr>qtail := t\<rparr>, OPopHead t))"

fun owner_next :: "'a tq \<Rightarrow> 'a owner \<Rightarrow> ('a tq \<times> 'a owner \<times> 'a event) option" where
  "owner_next Q OIdle = Some (Q, OIdle, Silent)"
| "owner_next Q (OPush x) = Some (Q\<lparr>qtail := c_int (qtail Q + 1)\<rparr>, OIdle, Pushed x)"
| "owner_next Q (OPopHead t) =
    (let h = qhead Q in
     if t > h then do { x \<leftarrow> tq_get Q t; Some (Q, OIdle, Got x) }
     else if t < h then Some (Q, OPopEmpty h, Silent)
     else Some (Q, OPopOne t h, Silent))"
| "owner_next Q (OPopEmpty h) = Some (Q\<lparr>qtail := h\<rparr>, OIdle, Null)"
| "owner_next Q (OPopOne t h) = Some (Q\<lparr>qtail := c_int (h + 1)\<rparr>, OPopCas t h, Silent)"
| "owner_next Q (OPopCas t h) =
    (if qhead Q = h then do { x \<leftarrow> tq_get Q t; Some (Q\<lparr>qhead := c_int (h + 1)\<rparr>, OIdle, Got x) } else Some (Q, OIdle, Null))"

datatype thief = TIdle | TLoop | TTail int | TCas int | TTake int

fun thief_next :: "'a tq \<Rightarrow> thief \<Rightarrow> ('a tq \<times> thief \<times> 'a event) option" where
  "thief_next Q TIdle = Some (Q, TLoop, Silent)"
| "thief_next Q TLoop = Some (Q, TTail (qhead Q), Silent)"
| "thief_next Q (TTail h) = Some (if h \<ge> qtail Q then (Q, TIdle, Null) else (Q, TCas h, Silent))"
| "thief_next Q (TCas h) = Some (if qhead Q = h then (Q\<lparr>qhead := c_int (h + 1)\<rparr>, TTake h, Silent) else (Q, TLoop, Silent))"
| "thief_next Q (TTake h) = do { x \<leftarrow> tq_get Q h; Some (Q, TIdle, Got x) }"

section \<open>Calls without interruption\<close>

definition TaskQueuePush :: "'a tq \<Rightarrow> 'a \<Rightarrow> 'a tq option" where
  "TaskQueuePush Q x = do { (Q, pc) \<leftarrow> push_begin x Q; (Q, pc, e) \<leftarrow> owner_next Q pc; Some Q }"

fun owner_run :: "nat \<Rightarrow> 'a tq \<Rightarrow> 'a owner \<Rightarrow> ('a option \<times> 'a tq) option" where
  "owner_run 0 Q pc = None"
| "owner_run (Suc n) Q pc =
    (case owner_next Q pc of
       None \<Rightarrow> None
     | Some (Q, pc, Got x) \<Rightarrow> Some (Some x, Q) | Some (Q, pc, Null) \<Rightarrow> Some (None, Q) | Some (Q, pc, _) \<Rightarrow> owner_run n Q pc)"

text \<open>A pop takes at most three steps after its first one.\<close>

definition TaskQueuePop :: "'a tq \<Rightarrow> ('a option \<times> 'a tq) option" where
  "TaskQueuePop Q = (case pop_begin Q of (Q, pc) \<Rightarrow> owner_run 3 Q pc)"

fun thief_run :: "nat \<Rightarrow> 'a tq \<Rightarrow> thief \<Rightarrow> ('a option \<times> 'a tq) option" where
  "thief_run 0 Q pc = None"
| "thief_run (Suc n) Q pc =
    (case thief_next Q pc of
       None \<Rightarrow> None
     | Some (Q, pc, Got x) \<Rightarrow> Some (Some x, Q) | Some (Q, pc, Null) \<Rightarrow> Some (None, Q) | Some (Q, pc, _) \<Rightarrow> thief_run n Q pc)"

definition TaskQueueSteal :: "'a tq \<Rightarrow> ('a option \<times> 'a tq) option" where
  "TaskQueueSteal Q = thief_run 4 Q TLoop"

section \<open>Interleavings\<close>

record 'a tq_net =
  tqueue :: "'a tq"
  worker :: "'a owner"
  thieves :: "thief list"
  pushed :: "'a list"
  got :: "'a list"

fun tq_log :: "'a event \<Rightarrow> 'a tq_net \<Rightarrow> 'a tq_net" where
  "tq_log (Pushed x) c = c\<lparr>pushed := x # pushed c\<rparr>"
| "tq_log (Got x) c = c\<lparr>got := x # got c\<rparr>"
| "tq_log Null c = c"
| "tq_log Silent c = c"

text \<open>The code does not test for a full queue; \<open>G\<close> is the condition under which the program pushes.\<close>

inductive tq_step :: "('a tq_net \<Rightarrow> bool) \<Rightarrow> 'a tq_net \<Rightarrow> 'a tq_net \<Rightarrow> bool" for G where
  push: "worker c = OIdle \<Longrightarrow> G c \<Longrightarrow> push_begin x (tqueue c) = Some (Q, pc) \<Longrightarrow> tq_step G c (c\<lparr>tqueue := Q, worker := pc\<rparr>)"
| pop: "worker c = OIdle \<Longrightarrow> pop_begin (tqueue c) = (Q, pc) \<Longrightarrow> tq_step G c (c\<lparr>tqueue := Q, worker := pc\<rparr>)"
| own: "worker c \<noteq> OIdle \<Longrightarrow> owner_next (tqueue c) (worker c) = Some (Q, pc, e) \<Longrightarrow> tq_step G c (tq_log e (c\<lparr>tqueue := Q, worker := pc\<rparr>))"
| thief: "i < length (thieves c) \<Longrightarrow> thief_next (tqueue c) (thieves c ! i) = Some (Q, pc, e) \<Longrightarrow>
    tq_step G c (tq_log e (c\<lparr>tqueue := Q, thieves := (thieves c)[i := pc]\<rparr>))"

definition tq_init :: "'a list \<Rightarrow> nat \<Rightarrow> 'a tq_net" where
  "tq_init d n = \<lparr>tqueue = TaskQueueCreate d, worker = OIdle, thieves = replicate n TIdle, pushed = [], got = []\<rparr>"

inductive tq_reach :: "('a tq_net \<Rightarrow> bool) \<Rightarrow> 'a tq_net \<Rightarrow> 'a tq_net \<Rightarrow> bool" for G c where
  reach_refl: "tq_reach G c c"
| reach_step: "tq_reach G c c' \<Longrightarrow> tq_step G c' c'' \<Longrightarrow> tq_reach G c c''"

text \<open>
  The queue has room when its tasks do not fill it, no thief has still to read the slot behind the tail, and the tail is not at
  the largest value of an \<open>int\<close>.
\<close>

definition tq_room :: "'a tq_net \<Rightarrow> bool" where
  "tq_room c \<longleftrightarrow> qtail (tqueue c) - qhead (tqueue c) < int TaskQueueSize \<and> qtail (tqueue c) < 2 ^ 31 - 1
    \<and> (\<forall>t \<in> set (thieves c). case t of TTake h \<Rightarrow> h mod int TaskQueueSize \<noteq> qtail (tqueue c) mod int TaskQueueSize | _ \<Rightarrow> True)"

text \<open>No thread can access the array outside of its bounds with its next step.\<close>

definition tq_safe :: "('a tq_net \<Rightarrow> bool) \<Rightarrow> 'a tq_net \<Rightarrow> bool" where
  "tq_safe G c \<longleftrightarrow> (worker c = OIdle \<and> G c \<longrightarrow> (\<forall>x. push_begin x (tqueue c) \<noteq> None))
    \<and> owner_next (tqueue c) (worker c) \<noteq> None \<and> (\<forall>t \<in> set (thieves c). thief_next (tqueue c) t \<noteq> None)"

definition tq_not_full :: "'a tq_net \<Rightarrow> bool" where
  "tq_not_full c \<longleftrightarrow> qtail (tqueue c) - qhead (tqueue c) < int TaskQueueSize"

section \<open>Invariant\<close>

text \<open>The task in the slot of an index that is not negative.\<close>

definition tq_at :: "'a tq \<Rightarrow> int \<Rightarrow> 'a" where
  "tq_at Q i = qdata Q ! nat (i mod int TaskQueueSize)"

text \<open>The end of the tasks in the queue, while the worker moves the tail.\<close>

fun logical_tail :: "'a tq \<Rightarrow> 'a owner \<Rightarrow> int" where
  "logical_tail Q OIdle = qtail Q"
| "logical_tail Q (OPush x) = qtail Q"
| "logical_tail Q (OPopHead t) = t + 1"
| "logical_tail Q (OPopEmpty h) = h"
| "logical_tail Q (OPopOne t h) = t + 1"
| "logical_tail Q (OPopCas t h) = h + 1"

fun worker_ok :: "'a tq \<Rightarrow> 'a owner \<Rightarrow> bool" where
  "worker_ok Q OIdle \<longleftrightarrow> True"
| "worker_ok Q (OPush x) \<longleftrightarrow> tq_at Q (qtail Q) = x \<and> qtail Q < 2 ^ 31 - 1"
| "worker_ok Q (OPopHead t) \<longleftrightarrow> qtail Q = t"
| "worker_ok Q (OPopEmpty h) \<longleftrightarrow> qhead Q = h \<and> qtail Q \<le> h"
| "worker_ok Q (OPopOne t h) \<longleftrightarrow> 0 \<le> h \<and> t = h \<and> qtail Q = t \<and> h \<le> qhead Q"
| "worker_ok Q (OPopCas t h) \<longleftrightarrow> 0 \<le> h \<and> t = h \<and> qtail Q = h + 1 \<and> h \<le> qhead Q"

fun thief_ok :: "int \<Rightarrow> int \<Rightarrow> thief \<Rightarrow> bool" where
  "thief_ok s T (TTail h) \<longleftrightarrow> h \<le> s"
| "thief_ok s T (TCas h) \<longleftrightarrow> h \<le> s \<and> (h = s \<longrightarrow> h < T)"
| "thief_ok s T (TTake h) \<longleftrightarrow> 0 \<le> h \<and> h < s"
| "thief_ok s T _ \<longleftrightarrow> True"

fun in_hand :: "'a tq \<Rightarrow> thief \<Rightarrow> 'a list" where
  "in_hand Q (TTake h) = [tq_at Q h]"
| "in_hand Q _ = []"

text \<open>The tasks that are in the queue or that a thief has taken and not yet read.\<close>

definition tq_live :: "'a tq_net \<Rightarrow> 'a multiset" where
  "tq_live c = mset (map (tq_at (tqueue c)) [qhead (tqueue c)..logical_tail (tqueue c) (worker c) - 1])
    + mset (concat (map (in_hand (tqueue c)) (thieves c)))"

definition tq_inv :: "'a tq_net \<Rightarrow> bool" where
  "tq_inv c \<longleftrightarrow> length (qdata (tqueue c)) = TaskQueueSize \<and> 0 \<le> qhead (tqueue c)
    \<and> qhead (tqueue c) \<le> logical_tail (tqueue c) (worker c) \<and> logical_tail (tqueue c) (worker c) < 2 ^ 31
    \<and> worker_ok (tqueue c) (worker c) \<and> (\<forall>t \<in> set (thieves c). thief_ok (qhead (tqueue c)) (logical_tail (tqueue c) (worker c)) t)
    \<and> mset (pushed c) = mset (got c) + tq_live c"

section \<open>Preservation\<close>

lemma slot_less: "nat (i mod int TaskQueueSize) < TaskQueueSize"
  by (simp add: TaskQueueSize_def nat_less_iff)

lemma get_at: "length (qdata Q) = TaskQueueSize \<Longrightarrow> 0 \<le> i \<Longrightarrow> tq_get Q i = Some (tq_at Q i)"
  using slot_less [of i] by (simp add: tq_get_def tq_at_def arr_get_def smod_mod_positive)

lemma push_begin_at:
  assumes "length (qdata Q) = TaskQueueSize" "0 \<le> qtail Q"
  shows "push_begin x Q = Some (Q\<lparr>qdata := (qdata Q)[nat (qtail Q mod int TaskQueueSize) := x]\<rparr>, OPush x)"
  using assms slot_less [of "qtail Q"] by (simp add: push_begin_def arr_upd_def smod_mod_positive)

lemma slot_neq:
  assumes "i mod int TaskQueueSize \<noteq> j mod int TaskQueueSize"
  shows "nat (i mod int TaskQueueSize) \<noteq> nat (j mod int TaskQueueSize)"
  using assms by (simp add: TaskQueueSize_def eq_nat_nat_iff)

lemma slots_differ:
  assumes "i < t" "t - i < int TaskQueueSize"
  shows "i mod int TaskQueueSize \<noteq> t mod int TaskQueueSize"
proof
  assume "i mod int TaskQueueSize = t mod int TaskQueueSize"
  then have "int TaskQueueSize dvd t - i" by (metis mod_eq_dvd_iff)
  then show False using assms zdvd_not_zless [of "t - i" "int TaskQueueSize"] by simp
qed

lemma at_fields [simp]: "tq_at (Q\<lparr>qtail := t\<rparr>) = tq_at Q" "tq_at (Q\<lparr>qhead := h\<rparr>) = tq_at Q"
  by (simp_all add: tq_at_def fun_eq_iff)

lemma in_hand_fields [simp]: "in_hand (Q\<lparr>qtail := t\<rparr>) = in_hand Q" "in_hand (Q\<lparr>qhead := h\<rparr>) = in_hand Q"
proof -
  have "in_hand (Q\<lparr>qtail := t\<rparr>) p = in_hand Q p" "in_hand (Q\<lparr>qhead := h\<rparr>) p = in_hand Q p" for p by (cases p; simp)+
  then show "in_hand (Q\<lparr>qtail := t\<rparr>) = in_hand Q" "in_hand (Q\<lparr>qhead := h\<rparr>) = in_hand Q" by (simp_all add: fun_eq_iff)
qed

lemma at_write:
  "length (qdata Q) = TaskQueueSize \<Longrightarrow> tq_at (Q\<lparr>qdata := (qdata Q)[nat (t mod int TaskQueueSize) := x]\<rparr>) i
    = (if i mod int TaskQueueSize = t mod int TaskQueueSize then x else tq_at Q i)"
  using slot_less [of i] slot_neq [of t i] by (auto simp: tq_at_def)

lemma upto_cons: "(i :: int) \<le> j \<Longrightarrow> mset (map f [i..j]) = add_mset (f i) (mset (map f [i + 1..j]))"
  by (simp add: upto_rec1)

lemma upto_snoc: "(i :: int) \<le> j \<Longrightarrow> mset (map f [i..j]) = add_mset (f j) (mset (map f [i..j - 1]))"
  by (simp add: upto_rec2)

lemma hands_update:
  assumes "i < length ts"
  shows "mset (concat (map f (ts[i := p]))) + mset (f (ts ! i)) = mset (concat (map f ts)) + mset (f p)"
proof -
  have "ts = take i ts @ ts ! i # drop (Suc i) ts" "ts[i := p] = take i ts @ p # drop (Suc i) ts"
    using assms by (simp_all add: id_take_nth_drop upd_conv_take_nth_drop)
  then have "concat (map f ts) = concat (map f (take i ts @ ts ! i # drop (Suc i) ts))" "concat (map f (ts[i := p])) = concat (map f (take i ts @ p # drop (Suc i) ts))" by metis+
  then show ?thesis by simp
qed

lemma thief_ok_mono: "thief_ok s T t \<Longrightarrow> s \<le> s' \<Longrightarrow> (s = s' \<Longrightarrow> T \<le> T' \<or> s < T') \<Longrightarrow> thief_ok s' T' t"
  by (cases t) auto

lemma inv_push:
  assumes "tq_inv c" "worker c = OIdle" "tq_room c" "push_begin x (tqueue c) = Some (Q, pc)"
  shows "tq_inv (c\<lparr>tqueue := Q, worker := pc\<rparr>)"
proof -
  let ?q = "tqueue c"
  have I: "length (qdata ?q) = TaskQueueSize" "0 \<le> qtail ?q" "mset (pushed c) = mset (got c) + tq_live c" using assms(1,2) by (auto simp: tq_inv_def)
  have Q: "Q = ?q\<lparr>qdata := (qdata ?q)[nat (qtail ?q mod int TaskQueueSize) := x]\<rparr>" "pc = OPush x"
    using assms(4) push_begin_at [OF I(1,2)] by simp_all
  note w = at_write [OF I(1), of "qtail ?q" x, folded Q(1)]
  have 1: "map (tq_at Q) [qhead ?q..qtail ?q - 1] = map (tq_at ?q) [qhead ?q..qtail ?q - 1]"
    using slots_differ [of _ "qtail ?q"] assms(3) by (auto simp: w tq_room_def)
  have "in_hand Q t = in_hand ?q t" if "t \<in> set (thieves c)" for t
    by (cases t) (use that assms(3) in \<open>auto simp: w tq_room_def\<close>)
  then have 2: "map (in_hand Q) (thieves c) = map (in_hand ?q) (thieves c)" by simp
  have "tq_live (c\<lparr>tqueue := Q, worker := pc\<rparr>) = mset (map (tq_at Q) [qhead ?q..qtail ?q - 1]) + mset (concat (map (in_hand Q) (thieves c)))"
    using Q by (simp add: tq_live_def)
  also have "\<dots> = tq_live c" unfolding 1 2 using assms(2) by (simp add: tq_live_def)
  finally have "tq_live (c\<lparr>tqueue := Q, worker := pc\<rparr>) = tq_live c" .
  then show ?thesis using assms(1,2,3) Q w [of "qtail ?q"] I(3) by (auto simp: tq_inv_def tq_room_def)
qed

lemma inv_pop:
  assumes "tq_inv c" "worker c = OIdle" "pop_begin (tqueue c) = (Q, pc)"
  shows "tq_inv (c\<lparr>tqueue := Q, worker := pc\<rparr>)"
proof -
  have "c_int (qtail (tqueue c) - 1) = qtail (tqueue c) - 1" using assms(1,2) by (simp add: tq_inv_def)
  then have "Q = tqueue c\<lparr>qtail := qtail (tqueue c) - 1\<rparr>" "pc = OPopHead (qtail (tqueue c) - 1)" using assms(3) by (auto simp: pop_begin_def Let_def)
  then show ?thesis using assms(1,2) by (auto simp: tq_inv_def tq_live_def)
qed

lemma inv_own:
  assumes "tq_inv c" "owner_next (tqueue c) (worker c) = Some (Q, pc, e)"
  shows "tq_inv (tq_log e (c\<lparr>tqueue := Q, worker := pc\<rparr>))"
proof -
  note g = get_at [of "tqueue c"]
  have I: "length (qdata (tqueue c)) = TaskQueueSize" "0 \<le> qhead (tqueue c)" using assms(1) by (auto simp: tq_inv_def)
  show ?thesis
  proof (cases "worker c")
    case OIdle
    then show ?thesis using assms by (auto simp: tq_inv_def tq_live_def)
  next
    case (OPush x)
    then have "c_int (qtail (tqueue c) + 1) = qtail (tqueue c) + 1" using assms(1) by (simp add: tq_inv_def)
    with OPush show ?thesis using assms upto_snoc [of "qhead (tqueue c)" "qtail (tqueue c)" "tq_at (tqueue c)"]
        thief_ok_mono [where s = "qhead (tqueue c)" and s' = "qhead (tqueue c)" and T = "qtail (tqueue c)" and T' = "qtail (tqueue c) + 1"]
      by (auto simp: tq_inv_def tq_live_def)
  next
    case (OPopHead t)
    show ?thesis
    proof (cases "t < qhead (tqueue c)")
      case True
      then have "t + 1 = qhead (tqueue c)" using OPopHead assms(1) by (simp add: tq_inv_def)
      with True OPopHead show ?thesis using assms by (simp add: tq_inv_def tq_live_def Let_def) auto
    next
      case False
      then have "tq_get (tqueue c) t = Some (tq_at (tqueue c) t)" using g [of t] I by simp
      with False OPopHead show ?thesis using assms upto_snoc [of "qhead (tqueue c)" t "tq_at (tqueue c)"]
          thief_ok_mono [where s = "qhead (tqueue c)" and s' = "qhead (tqueue c)" and T = "t + 1" and T' = t]
        by (auto simp: tq_inv_def tq_live_def Let_def split: if_splits)
    qed
  next
    case (OPopEmpty h)
    then show ?thesis using assms by (auto simp: tq_inv_def tq_live_def)
  next
    case (OPopOne t h)
    then have "c_int (h + 1) = h + 1" using assms(1) by (simp add: tq_inv_def)
    with OPopOne show ?thesis using assms by (auto simp: tq_inv_def tq_live_def)
  next
    case (OPopCas t h)
    then have "tq_get (tqueue c) t = Some (tq_at (tqueue c) t)" "c_int (h + 1) = h + 1" using g [of t] assms(1) by (simp_all add: tq_inv_def)
    with OPopCas show ?thesis using assms upto_snoc [of h h "tq_at (tqueue c)"]
        thief_ok_mono [where s = h and s' = "h + 1" and T = "h + 1" and T' = "h + 1"]
      by (auto simp: tq_inv_def tq_live_def split: if_splits)
  qed
qed

lemma logical_tail_ge: "worker_ok Q w \<Longrightarrow> qtail Q \<le> logical_tail Q w"
  by (cases w) auto

lemma logical_tail_head [simp]: "logical_tail (Q\<lparr>qhead := h\<rparr>) w = logical_tail Q w"
  by (cases w) auto

lemma worker_ok_head:
  "worker_ok Q w \<Longrightarrow> qhead Q = h \<Longrightarrow> h < logical_tail Q w \<Longrightarrow> worker_ok (Q\<lparr>qhead := h + 1\<rparr>) w"
  by (cases w) auto

lemma inv_quiet:
  assumes "tq_inv c" "i < length (thieves c)" "thief_ok (qhead (tqueue c)) (logical_tail (tqueue c) (worker c)) pc"
    "in_hand (tqueue c) pc = []" "in_hand (tqueue c) (thieves c ! i) = []"
  shows "tq_inv (c\<lparr>thieves := (thieves c)[i := pc]\<rparr>)"
  using assms hands_update [of i "thieves c" "in_hand (tqueue c)" pc] set_update_subset_insert [of "thieves c" i pc]
  by (auto simp: tq_inv_def tq_live_def)

lemma inv_taken:
  assumes "tq_inv c" "i < length (thieves c)" "thieves c ! i = TCas h" "qhead (tqueue c) = h"
  shows "tq_inv (c\<lparr>tqueue := tqueue c\<lparr>qhead := h + 1\<rparr>, thieves := (thieves c)[i := TTake h]\<rparr>)"
proof -
  let ?q = "tqueue c" and ?T = "logical_tail (tqueue c) (worker c)"
  have I: "worker_ok ?q (worker c)" "\<forall>t \<in> set (thieves c). thief_ok h ?T t" "0 \<le> h" using assms by (auto simp: tq_inv_def)
  then have h: "h < ?T" using assms(2,3) nth_mem by fastforce
  have "\<forall>t \<in> set ((thieves c)[i := TTake h]). thief_ok (h + 1) ?T t"
    using I(2,3) thief_ok_mono [where s = h and s' = "h + 1" and T = ?T and T' = ?T] set_update_subset_insert [of "thieves c" i "TTake h"] by fastforce
  moreover have "mset (pushed c) = mset (got c) + tq_live c" using assms(1) by (simp add: tq_inv_def)
  moreover have "tq_live (c\<lparr>tqueue := ?q\<lparr>qhead := h + 1\<rparr>, thieves := (thieves c)[i := TTake h]\<rparr>) = tq_live c"
    using assms h hands_update [of i "thieves c" "in_hand ?q" "TTake h"] upto_cons [of h "?T - 1" "tq_at ?q"]
    by (simp add: tq_live_def)
  ultimately show ?thesis using assms(1) h I(3) worker_ok_head [OF I(1) assms(4) h] by (simp add: tq_inv_def)
qed

lemma inv_took:
  assumes "tq_inv c" "i < length (thieves c)" "thieves c ! i = TTake h"
  shows "tq_inv (c\<lparr>thieves := (thieves c)[i := TIdle], got := tq_at (tqueue c) h # got c\<rparr>)"
  using assms hands_update [of i "thieves c" "in_hand (tqueue c)" TIdle] set_update_subset_insert [of "thieves c" i TIdle]
  by (auto simp: tq_inv_def tq_live_def)

lemma inv_thief:
  assumes "tq_inv c" "i < length (thieves c)" "thief_next (tqueue c) (thieves c ! i) = Some (Q, pc, e)"
  shows "tq_inv (tq_log e (c\<lparr>tqueue := Q, thieves := (thieves c)[i := pc]\<rparr>))"
proof -
  have t: "thief_ok (qhead (tqueue c)) (logical_tail (tqueue c) (worker c)) (thieves c ! i)" using assms(1,2) by (simp add: tq_inv_def)
  have w: "qtail (tqueue c) \<le> logical_tail (tqueue c) (worker c)" using assms(1) logical_tail_ge by (auto simp: tq_inv_def)
  show ?thesis
  proof (cases "thieves c ! i")
    case (TCas h)
    then have "c_int (h + 1) = h + 1" if "qhead (tqueue c) = h" using that assms(1) t by (simp add: tq_inv_def)
    with TCas show ?thesis using assms inv_taken [OF assms(1,2) TCas] inv_quiet [OF assms(1,2), of TLoop] by (auto split: if_splits)
  next
    case (TTake h)
    then have "tq_get (tqueue c) h = Some (tq_at (tqueue c) h)" using get_at [of "tqueue c" h] assms(1) t by (simp add: tq_inv_def)
    with TTake show ?thesis using assms inv_took [OF assms(1,2) TTake] by auto
  qed (use assms t w inv_quiet [OF assms(1,2), of pc] in \<open>auto split: if_splits\<close>)
qed

lemma inv_step: "tq_step tq_room c c' \<Longrightarrow> tq_inv c \<Longrightarrow> tq_inv c'"
  by (induction rule: tq_step.induct) (auto intro: inv_push inv_pop inv_own inv_thief)

lemma inv_reach: "tq_reach tq_room c c' \<Longrightarrow> tq_inv c \<Longrightarrow> tq_inv c'"
  by (induction rule: tq_reach.induct) (auto intro: inv_step)

lemma inv_init: "length d = TaskQueueSize \<Longrightarrow> tq_inv (tq_init d n)"
  by (simp add: tq_inv_def tq_init_def TaskQueueCreate_def tq_live_def)

text \<open>The invariant keeps every access inside of the array.\<close>

lemma inv_safe:
  assumes "tq_inv c"
  shows "tq_safe tq_room c"
proof -
  note I = assms [unfolded tq_inv_def]
  have l: "length (qdata (tqueue c)) = TaskQueueSize" using I by blast
  have "push_begin x (tqueue c) \<noteq> None" if "worker c = OIdle" for x
    using push_begin_at [OF l, of x] I that by simp
  moreover have "owner_next (tqueue c) (worker c) \<noteq> None"
    using I get_at [OF l] by (cases "worker c") (auto simp: Let_def)
  moreover have "thief_next (tqueue c) t \<noteq> None" if "t \<in> set (thieves c)" for t
  proof -
    have "thief_ok (qhead (tqueue c)) (logical_tail (tqueue c) (worker c)) t" using I that by blast
    then show ?thesis using get_at [OF l] by (cases t) auto
  qed
  ultimately show ?thesis by (simp add: tq_safe_def)
qed

section \<open>Calls that are not interrupted\<close>

definition tq_list :: "'a tq \<Rightarrow> 'a list" where
  "tq_list Q = map (tq_at Q) [qhead Q..qtail Q - 1]"

definition tq_ok :: "'a tq \<Rightarrow> bool" where
  "tq_ok Q \<longleftrightarrow> length (qdata Q) = TaskQueueSize \<and> 0 \<le> qhead Q \<and> qhead Q \<le> qtail Q \<and> qtail Q < 2 ^ 31"

lemma push_list:
  assumes "tq_ok Q" "qtail Q - qhead Q < int TaskQueueSize" "qtail Q < 2 ^ 31 - 1"
  shows "\<exists>Q'. TaskQueuePush Q x = Some Q' \<and> tq_list Q' = tq_list Q @ [x] \<and> tq_ok Q'"
proof -
  have l: "length (qdata Q) = TaskQueueSize" "0 \<le> qhead Q" "qhead Q \<le> qtail Q" "0 \<le> qtail Q" using assms by (auto simp: tq_ok_def)
  note w = at_write [OF l(1), of "qtail Q" x]
  let ?Q = "Q\<lparr>qdata := (qdata Q)[nat (qtail Q mod int TaskQueueSize) := x], qtail := qtail Q + 1\<rparr>"
  have "c_int (qtail Q + 1) = qtail Q + 1" using l assms(3) by simp
  then have "TaskQueuePush Q x = Some ?Q" by (simp add: TaskQueuePush_def push_begin_at [OF l(1,4)])
  moreover have "tq_list ?Q = tq_list Q @ [x]"
    using l assms(2) slots_differ [of _ "qtail Q"] upto_rec2 [of "qhead Q" "qtail Q"] by (auto simp: tq_list_def w)
  moreover have "tq_ok ?Q" using l assms(3) by (simp add: tq_ok_def)
  ultimately show ?thesis by blast
qed

lemma pop_empty: "tq_ok Q \<Longrightarrow> tq_list Q = [] \<Longrightarrow> TaskQueuePop Q = Some (None, Q)"
  by (cases Q) (simp add: tq_ok_def tq_list_def TaskQueuePop_def pop_begin_def Let_def eval_nat_numeral)

lemma pop_last:
  assumes "tq_ok Q" "tq_list Q = xs @ [x]"
  shows "\<exists>Q'. TaskQueuePop Q = Some (Some x, Q') \<and> tq_list Q' = xs \<and> tq_ok Q'"
proof -
  have h: "qhead Q < qtail Q" using assms by (cases "qhead Q < qtail Q") (auto simp: tq_list_def)
  have c: "c_int (qtail Q - 1) = qtail Q - 1" "c_int (qhead Q + 1) = qhead Q + 1"
    "tq_get (Q\<lparr>qtail := t\<rparr>) (qtail Q - 1) = Some (tq_at Q (qtail Q - 1))" for t
    using assms(1) h get_at [of "Q\<lparr>qtail := t\<rparr>" "qtail Q - 1"] by (simp_all add: tq_ok_def)
  have "tq_list Q = map (tq_at Q) [qhead Q..qtail Q - 2] @ [tq_at Q (qtail Q - 1)]" using h by (simp add: tq_list_def upto_rec2)
  then show ?thesis using assms h c
    by (auto simp: tq_ok_def tq_list_def TaskQueuePop_def pop_begin_def Let_def eval_nat_numeral)
qed

lemma steal_empty: "tq_ok Q \<Longrightarrow> tq_list Q = [] \<Longrightarrow> TaskQueueSteal Q = Some (None, Q)"
  by (simp add: tq_ok_def tq_list_def TaskQueueSteal_def eval_nat_numeral)

lemma steal_first:
  assumes "tq_ok Q" "tq_list Q = x # xs"
  shows "\<exists>Q'. TaskQueueSteal Q = Some (Some x, Q') \<and> tq_list Q' = xs \<and> tq_ok Q'"
proof -
  have h: "qhead Q < qtail Q" using assms by (cases "qhead Q < qtail Q") (auto simp: tq_list_def)
  have c: "c_int (qhead Q + 1) = qhead Q + 1" "tq_get (Q\<lparr>qhead := t\<rparr>) (qhead Q) = Some (tq_at Q (qhead Q))" for t
    using assms(1) h get_at [of "Q\<lparr>qhead := t\<rparr>" "qhead Q"] by (simp_all add: tq_ok_def)
  have "tq_list Q = tq_at Q (qhead Q) # map (tq_at Q) [qhead Q + 1..qtail Q - 1]" using h by (simp add: tq_list_def upto_rec1)
  then show ?thesis using assms h c by (auto simp: tq_ok_def tq_list_def TaskQueueSteal_def eval_nat_numeral)
qed

text \<open>
  Nothing sets the head back. When so many tasks have been taken at it that the tail is the largest \<open>int\<close>, the tail wraps around
  with the next push, and the second push after that writes in front of the array.
\<close>

lemma push_overflow:
  assumes "length (qdata Q) = TaskQueueSize" "qtail Q = 2 ^ 31 - 1"
  shows "\<exists>Q1 Q2. TaskQueuePush Q x = Some Q1 \<and> TaskQueuePush Q1 x = Some Q2 \<and> TaskQueuePush Q2 x = None"
  using assms
  by (simp add: TaskQueuePush_def push_begin_def arr_upd_def TaskQueueSize_def c_int_def smod_int_alt_def)

section \<open>No task is lost\<close>

lemma reach_push:
  "tq_reach G c0 c \<Longrightarrow> worker c = OIdle \<Longrightarrow> G c \<Longrightarrow> push_begin x (tqueue c) = Some (Q, pc) \<Longrightarrow>
    tq_reach G c0 (c\<lparr>tqueue := Q, worker := pc\<rparr>)"
  by (rule reach_step [OF _ tq_step.push])

lemma reach_pop:
  "tq_reach G c0 c \<Longrightarrow> worker c = OIdle \<Longrightarrow> pop_begin (tqueue c) = (Q, pc) \<Longrightarrow> tq_reach G c0 (c\<lparr>tqueue := Q, worker := pc\<rparr>)"
  by (rule reach_step [OF _ tq_step.pop])

lemma reach_own:
  "tq_reach G c0 c \<Longrightarrow> worker c \<noteq> OIdle \<Longrightarrow> owner_next (tqueue c) (worker c) = Some (Q, pc, e) \<Longrightarrow>
    tq_reach G c0 (tq_log e (c\<lparr>tqueue := Q, worker := pc\<rparr>))"
  by (rule reach_step [OF _ tq_step.own])

lemma reach_thief:
  "tq_reach G c0 c \<Longrightarrow> i < length (thieves c) \<Longrightarrow> thief_next (tqueue c) (thieves c ! i) = Some (Q, pc, e) \<Longrightarrow>
    tq_reach G c0 (tq_log e (c\<lparr>tqueue := Q, thieves := (thieves c)[i := pc]\<rparr>))"
  by (rule reach_step [OF _ tq_step.thief])

text \<open>
  C5. However the worker and any number of thieves interleave their steps on the queue, every task that was pushed is returned by
  exactly one call, or is in the queue, or is about to be read by the thief that took it: no task is lost and none
  is returned twice, and no access is outside of the array. This needs a condition that the code does not test: the worker pushes only
  when the slot behind the tail is free, that is, when neither a task nor a thief that has still to read it uses it, and when the tail has
  not reached the largest value of an \<open>int\<close>. The memory is sequentially consistent.
\<close>

theorem tq_conserves:
  assumes "length d = TaskQueueSize" "tq_reach tq_room (tq_init d n) c"
  shows "mset (pushed c) = mset (got c) + tq_live c \<and> tq_safe tq_room c"
  using inv_reach [OF assms(2) inv_init [OF assms(1)]] inv_safe [of c] by (simp add: tq_inv_def)

theorem tq_conserves_witness:
  "\<exists>c. tq_reach tq_room (tq_init (replicate TaskQueueSize (0 :: nat)) 1) c \<and> worker c = OPopHead 0 \<and> thieves c = [TIdle]
    \<and> got c = [7] \<and> mset (pushed c) = mset (got c) + tq_live c \<and> tq_safe tq_room c"
proof -
  let ?d = "replicate TaskQueueSize (0 :: nat)"
  let ?c = "\<lambda>h t w ts p g. \<lparr>tqueue = \<lparr>qhead = h, qtail = t, qdata = ?d[0 := 7]\<rparr>, worker = w, thieves = [ts], pushed = p, got = g\<rparr>"
  let ?R = "tq_reach tq_room (tq_init ?d 1)"
  have z: "0 < TaskQueueSize" by (simp add: TaskQueueSize_def)
  have "?R (?c 0 0 (OPush 7) TIdle [] [])"
    using reach_push [OF reach_refl, of "tq_init ?d 1" tq_room 7] z push_begin_at [of "TaskQueueCreate ?d" 7]
    by (simp add: tq_init_def TaskQueueCreate_def tq_room_def)
  from reach_own [OF this] have "?R (?c 0 1 OIdle TIdle [7] [])" by simp
  from reach_thief [OF this, of 0] have "?R (?c 0 1 OIdle TLoop [7] [])" by simp
  from reach_thief [OF this, of 0] have "?R (?c 0 1 OIdle (TTail 0) [7] [])" by simp
  from reach_thief [OF this, of 0] have "?R (?c 0 1 OIdle (TCas 0) [7] [])" by simp
  from reach_pop [OF this] have "?R (?c 0 0 (OPopHead 0) (TCas 0) [7] [])" by (simp add: pop_begin_def)
  from reach_thief [OF this, of 0] have "?R (?c 1 0 (OPopHead 0) (TTake 0) [7] [])" by simp
  from reach_thief [OF this, of 0] have "?R (?c 1 0 (OPopHead 0) TIdle [7] [7])" using z by (simp add: tq_get_def arr_get_def)
  then show ?thesis using tq_conserves [of ?d 1 "?c 1 0 (OPopHead 0) TIdle [7] [7]"] by (intro exI [of _ "?c 1 0 (OPopHead 0) TIdle [7] [7]"]) simp
qed

section \<open>A slot that is reused too early\<close>

text \<open>
  A test for a full queue alone would not be enough, because \<open>TaskQueueSteal\<close> moves the head before it reads the slot. In the
  state below a thief has moved the head past the only task \<open>x\<close>; then the worker pushes 1024 other tasks \<open>y\<close>.
\<close>

definition reused :: "'a \<Rightarrow> 'a \<Rightarrow> nat \<Rightarrow> 'a tq_net \<Rightarrow> bool" where
  "reused x y k c \<longleftrightarrow> qhead (tqueue c) = 1 \<and> qtail (tqueue c) = 1 + int k \<and> length (qdata (tqueue c)) = TaskQueueSize
    \<and> worker c = OIdle \<and> thieves c = [TTake 0] \<and> pushed c = replicate k y @ [x] \<and> got c = []
    \<and> (\<forall>i. 1 \<le> i \<and> i \<le> int k \<longrightarrow> tq_at (tqueue c) i = y)"

lemma reused_push:
  assumes "reused x y k c" "tq_reach tq_not_full c0 c" "k < TaskQueueSize"
  shows "\<exists>c'. tq_reach tq_not_full c0 c' \<and> reused x y (Suc k) c'"
proof -
  let ?Q = "(tqueue c)\<lparr>qdata := (qdata (tqueue c))[nat (qtail (tqueue c) mod int TaskQueueSize) := y]\<rparr>"
  note r = assms(1) [unfolded reused_def]
  have "tq_reach tq_not_full c0 (c\<lparr>tqueue := ?Q, worker := OPush y\<rparr>)"
    using reach_push [OF assms(2) _ _ push_begin_at] r assms(3) by (simp add: tq_not_full_def)
  moreover have "c_int (2 + int k) = 2 + int k" using assms(3) by (simp add: TaskQueueSize_def)
  ultimately have "tq_reach tq_not_full c0 (c\<lparr>tqueue := ?Q\<lparr>qtail := qtail (tqueue c) + 1\<rparr>, worker := OIdle, pushed := y # pushed c\<rparr>)"
    using reach_own [of tq_not_full c0 "c\<lparr>tqueue := ?Q, worker := OPush y\<rparr>"] r by simp
  moreover have y: "tq_at ?Q i = y" if "1 \<le> i" "i \<le> 1 + int k" for i
    using that r at_write [of "tqueue c" "qtail (tqueue c)" y i] by (cases "i = 1 + int k") auto
  moreover have "reused x y (Suc k) (c\<lparr>tqueue := ?Q\<lparr>qtail := qtail (tqueue c) + 1\<rparr>, worker := OIdle, pushed := y # pushed c\<rparr>)"
    using r y unfolding reused_def by auto
  ultimately show ?thesis by blast
qed

lemma reused_reach:
  assumes "length d = TaskQueueSize" "k \<le> TaskQueueSize"
  shows "\<exists>c. tq_reach tq_not_full (tq_init d 1) c \<and> reused x y k c"
  using assms(2)
proof (induction k)
  case 0
  let ?c = "\<lambda>h t w ts p. \<lparr>tqueue = \<lparr>qhead = h, qtail = t, qdata = d[0 := x]\<rparr>, worker = w, thieves = [ts], pushed = p, got = []\<rparr>"
  let ?R = "tq_reach tq_not_full (tq_init d 1)"
  have "?R (?c 0 0 (OPush x) TIdle [])"
    using reach_push [OF reach_refl, of "tq_init d 1" tq_not_full x] push_begin_at [of "TaskQueueCreate d" x] assms(1)
    by (simp add: tq_init_def TaskQueueCreate_def tq_not_full_def TaskQueueSize_def)
  from reach_own [OF this] have "?R (?c 0 1 OIdle TIdle [x])" by simp
  from reach_thief [OF this, of 0] have "?R (?c 0 1 OIdle TLoop [x])" by simp
  from reach_thief [OF this, of 0] have "?R (?c 0 1 OIdle (TTail 0) [x])" by simp
  from reach_thief [OF this, of 0] have "?R (?c 0 1 OIdle (TCas 0) [x])" by simp
  from reach_thief [OF this, of 0] have "?R (?c 1 1 OIdle (TTake 0) [x])" by simp
  moreover have "reused x y 0 (?c 1 1 OIdle (TTake 0) [x])" using assms(1) by (auto simp: reused_def)
  ultimately show ?case by blast
next
  case (Suc k)
  then show ?case using reused_push [of x y k] by (meson Suc_leD Suc_le_lessD)
qed

lemma steal_reads_late:
  assumes "length d = TaskQueueSize"
  shows "\<exists>c. tq_reach tq_not_full (tq_init d 1) c \<and> pushed c = replicate TaskQueueSize y @ [x] \<and> got c = [y]
    \<and> tq_live c = replicate_mset TaskQueueSize y"
proof -
  obtain c where c: "tq_reach tq_not_full (tq_init d 1) c" "reused x y TaskQueueSize c" using reused_reach [OF assms order_refl] by blast
  note r = c(2) [unfolded reused_def]
  have "tq_at (tqueue c) (int TaskQueueSize) = y" using r by (simp add: TaskQueueSize_def)
  then have "tq_at (tqueue c) 0 = y" by (simp add: tq_at_def)
  then have "tq_get (tqueue c) 0 = Some y" using r get_at [of "tqueue c" 0] by simp
  with reach_thief [OF c(1), of 0] r have "tq_reach tq_not_full (tq_init d 1) (c\<lparr>thieves := [TIdle], got := [y]\<rparr>)" by simp
  moreover have "map (tq_at (tqueue c)) [1..int TaskQueueSize] = replicate TaskQueueSize y"
    using r by (intro replicate_eqI) auto
  then have "tq_live (c\<lparr>thieves := [TIdle], got := [y]\<rparr>) = replicate_mset TaskQueueSize y" using r by (simp add: tq_live_def)
  ultimately show ?thesis using r by (intro exI [of _ "c\<lparr>thieves := [TIdle], got := [y]\<rparr>"]) simp
qed

section \<open>Stealing between the workers of a node\<close>

text \<open>\<open>StealTask\<close> of \<open>conv-taskQ.C\<close>, for the queues of all ranks of a node: \<open>r\<close> is the random number and \<open>me\<close> the rank that runs it.\<close>

definition random_rank :: "int \<Rightarrow> nat \<Rightarrow> nat \<Rightarrow> nat" where
  "random_rank r me n = (let k = nat (r mod (int n - 1)) in if k \<ge> me then k + 1 else k)"

definition StealTask :: "int \<Rightarrow> nat \<Rightarrow> 'a tq list \<Rightarrow> 'a tq list option" where
  "StealTask r me qs = (let v = random_rank r me (length qs) in
     case TaskQueueSteal (qs ! v) of
       None \<Rightarrow> None
     | Some (None, Q) \<Rightarrow> Some (qs[v := Q])
     | Some (Some msg, Q) \<Rightarrow> map_option (\<lambda>P. qs[v := Q, me := P]) (TaskQueuePush (qs ! me) msg))"

definition TaskStealBeginIdle :: "bool \<Rightarrow> int \<Rightarrow> nat \<Rightarrow> 'a tq list \<Rightarrow> 'a tq list option" where
  "TaskStealBeginIdle helper r me qs = (if length qs > 1 \<and> helper then StealTask r me qs else Some qs)"

lemma random_rank_other:
  assumes "1 < n" "me < n"
  shows "random_rank r me n < n" "random_rank r me n \<noteq> me"
proof -
  have "0 \<le> r mod (int n - 1)" "r mod (int n - 1) < int n - 1" using assms by simp_all
  then have "nat (r mod (int n - 1)) + 1 < n" by linarith
  then show "random_rank r me n < n" "random_rank r me n \<noteq> me" using assms by (auto simp: random_rank_def Let_def)
qed

lemma steal_task_moves:
  fixes r :: int
  assumes "1 < length qs" "me < length qs" "\<forall>Q \<in> set qs. tq_ok Q" "qtail (qs ! me) - qhead (qs ! me) < int TaskQueueSize"
    "qtail (qs ! me) < 2 ^ 31 - 1"
  defines "v \<equiv> random_rank r me (length qs)"
  shows "\<exists>qs'. StealTask r me qs = Some qs' \<and> length qs' = length qs \<and> (\<forall>Q \<in> set qs'. tq_ok Q)
    \<and> tq_list (qs' ! me) = tq_list (qs ! me) @ take 1 (tq_list (qs ! v)) \<and> tq_list (qs' ! v) = drop 1 (tq_list (qs ! v))"
proof -
  have v: "v < length qs" "v \<noteq> me" using random_rank_other [OF assms(1,2)] by (simp_all add: v_def)
  have ok: "tq_ok (qs ! v)" "tq_ok (qs ! me)" using assms v by simp_all
  show ?thesis
  proof (cases "tq_list (qs ! v)")
    case Nil
    then show ?thesis using steal_empty [OF ok(1)] assms(3) v by (simp add: StealTask_def v_def [symmetric] Let_def)
  next
    case (Cons x xs)
    then obtain Q where Q: "TaskQueueSteal (qs ! v) = Some (Some x, Q)" "tq_list Q = xs" "tq_ok Q" using steal_first [OF ok(1)] by blast
    obtain P where P: "TaskQueuePush (qs ! me) x = Some P" "tq_list P = tq_list (qs ! me) @ [x]" "tq_ok P" using push_list [OF ok(2) assms(4,5)] by blast
    have "set (qs[v := Q, me := P]) \<subseteq> insert P (insert Q (set qs))"
      using set_update_subset_insert [of "qs[v := Q]" me] set_update_subset_insert [of qs v Q] by blast
    then have "\<forall>Q' \<in> set (qs[v := Q, me := P]). tq_ok Q'" using Q(3) P(3) assms(3) by blast
    then show ?thesis using Q Cons P v assms(2) by (simp add: StealTask_def v_def [symmetric] Let_def nth_list_update)
  qed
qed

end
