(* ===== verification/Hilbert.thy ===== *)
theory Hilbert
  imports Charm_Prelude "HOL-Library.Signed_Division" "HOL-Library.Monad_Syntax"
begin

text \<open>
  The Hilbert curve of \<open>util/hilbert.C\<close>, in any number of dimensions: the conversion of a position on the curve to the
  coordinates of a point and back. The bits of a position are cut into chunks of \<open>ndim\<close> bits; each chunk chooses one of the
  \<open>2 ^ ndim\<close> cells of the current cube, in the order of a Gray code that is rotated and reflected such that it leads
  from the corner \<open>start\<close> to the corner \<open>stop\<close>.

  Two parameters stand for floating point arithmetic. \<open>clog p i\<close> is the value of \<open>ceil(log((double)i + 1) / log((double)p))\<close>, where
  both logarithms are of type \<open>double\<close>; \<open>flog i\<close> is that of \<open>ceil(log((double)i + 1) / log(2.0f))\<close>, where the divisor is a \<open>float\<close>.
  They should be so large that so many digits are enough for \<open>i\<close>. The float for the logarithm of 2 is too large by three parts in \<open>10 ^ 9\<close>,
  so that the second one is only for numbers below \<open>2 ^ 25\<close>. Powers of two are exact.

  The products of the Gray codes are those of \<open>int\<close>; they overflow from 16 dimensions on. The other numbers stay in the range of \<open>int\<close> as long as
  the position and the coordinates do. Numbers in the vectors are not negative, so that the division of C is that of HOL.
\<close>

unbundle bit_operations_syntax

section \<open>Gray codes\<close>

definition gray_encode :: "int \<Rightarrow> int" where
  "gray_encode i = i XOR (i div 2)"

text \<open>A shift by 32 or more bits is undefined.\<close>

partial_function (option) gray_decode_loop :: "int \<Rightarrow> nat \<Rightarrow> int option" where
  "gray_decode_loop n sh =
    (if sh \<ge> 32 then None
     else let dv = drop_bit sh n;
              n = n XOR dv
       in if dv \<le> 1 then Some n else gray_decode_loop n (2 * sh))"

declare gray_decode_loop.simps [code]

definition gray_decode :: "int \<Rightarrow> int option" where
  "gray_decode n = gray_decode_loop n 1"

section \<open>Chunks of bits\<close>

definition initial_start_end :: "nat \<Rightarrow> nat \<Rightarrow> int \<times> int" where
  "initial_start_end nChunks ndim =
    (let mod_val = (- int nChunks - 1) smod int ndim;
         mod_val = (if mod_val < 0 then mod_val + int ndim else mod_val)
     in (0, 2 ^ nat mod_val))"

definition pack_index :: "int list \<Rightarrow> nat \<Rightarrow> int" where
  "pack_index chunks ndim = (let p = 2 ^ ndim in foldl (\<lambda>val c. val * p + c) 0 chunks)"

fun transpose_inner :: "int \<Rightarrow> int list \<Rightarrow> int \<times> int list" where
  "transpose_inner dest [] = (dest, [])"
| "transpose_inner dest (s # srcs) = (let (dest, srcs) = transpose_inner (dest * 2 + s mod 2) srcs in (dest, s div 2 # srcs))"

fun transpose_loop :: "nat \<Rightarrow> int list \<Rightarrow> int list \<Rightarrow> int list" where
  "transpose_loop 0 srcs dests = dests"
| "transpose_loop (Suc j) srcs dests = (let (dest, srcs) = transpose_inner 0 srcs in transpose_loop j srcs (dests[j := dest]))"

definition transpose_bits :: "int list \<Rightarrow> nat \<Rightarrow> int list" where
  "transpose_bits srcs nDests = transpose_loop nDests srcs (replicate nDests 0)"

definition pack_coords :: "int list \<Rightarrow> nat \<Rightarrow> int list" where
  "pack_coords coord_chunks ndim = transpose_bits coord_chunks ndim"

definition unpack_coords :: "(int \<Rightarrow> nat) \<Rightarrow> int list \<Rightarrow> nat \<Rightarrow> int list" where
  "unpack_coords flog coords ndim =
    (let biggest = foldl (\<lambda>biggest c. if c > biggest then c else biggest) 0 coords;
         nChunks = max 1 (flog biggest)
     in transpose_bits coords nChunks)"

fun index_loop :: "nat \<Rightarrow> int \<Rightarrow> int \<Rightarrow> int list \<Rightarrow> int list" where
  "index_loop 0 p i chunks = chunks"
| "index_loop (Suc j) p i chunks = index_loop j p (i div p) (chunks[j := i mod p])"

definition unpack_index :: "(int \<Rightarrow> int \<Rightarrow> nat) \<Rightarrow> int \<Rightarrow> nat \<Rightarrow> int list" where
  "unpack_index clog i ndim =
    (let p = 2 ^ ndim;
         nChunks = max 1 (clog p i)
     in index_loop nChunks p i (replicate nChunks 0))"

section \<open>Cells of a cube\<close>

definition gray_encode_travel :: "int \<Rightarrow> int \<Rightarrow> int \<Rightarrow> int \<Rightarrow> int" where
  "gray_encode_travel start stop msk i =
    (let travel_bit = start XOR stop;
         modulus = msk + 1;
         g = c_int (gray_encode i * c_int (travel_bit * 2))
     in ((g OR (g sdiv modulus)) AND msk) XOR start)"

definition gray_decode_travel :: "int \<Rightarrow> int \<Rightarrow> int \<Rightarrow> int \<Rightarrow> int option" where
  "gray_decode_travel start stop msk i =
    (let travel_bit = start XOR stop;
         modulus = msk + 1;
         rg = c_int ((i XOR start) * (modulus sdiv c_int (travel_bit * 2)))
     in gray_decode ((rg OR (rg sdiv modulus)) AND msk))"

definition child_start_end :: "int \<Rightarrow> int \<Rightarrow> int \<Rightarrow> int \<Rightarrow> int \<times> int" where
  "child_start_end parent_start parent_stop msk i =
    (let start_i = max 0 ((i - 1) AND NOT 1);
         end_i = min msk ((i + 1) OR 1)
     in (gray_encode_travel parent_start parent_stop msk start_i, gray_encode_travel parent_start parent_stop msk end_i))"

section \<open>Positions and coordinates\<close>

fun encode_loop :: "int \<Rightarrow> int \<Rightarrow> int \<Rightarrow> int list \<Rightarrow> int list" where
  "encode_loop msk start stop [] = []"
| "encode_loop msk start stop (i # index_chunks) =
    gray_encode_travel start stop msk i #
    (let (start, stop) = child_start_end start stop msk i in encode_loop msk start stop index_chunks)"

definition int_to_Hilbert :: "(int \<Rightarrow> int \<Rightarrow> nat) \<Rightarrow> int \<Rightarrow> nat \<Rightarrow> int list" where
  "int_to_Hilbert clog i ndim =
    (let index_chunks = unpack_index clog i ndim;
         nChunks = length index_chunks;
         msk = 2 ^ ndim - 1;
         (start, stop) = initial_start_end nChunks ndim
     in pack_coords (encode_loop msk start stop index_chunks) ndim)"

fun decode_loop :: "int \<Rightarrow> int \<Rightarrow> int \<Rightarrow> int list \<Rightarrow> int list option" where
  "decode_loop msk start stop [] = Some []"
| "decode_loop msk start stop (c # coord_chunks) =
    do {
      i \<leftarrow> gray_decode_travel start stop msk c;
      let (start, stop) = child_start_end start stop msk i;
      index_chunks \<leftarrow> decode_loop msk start stop coord_chunks;
      Some (i # index_chunks)
    }"

definition Hilbert_to_int :: "(int \<Rightarrow> nat) \<Rightarrow> int list \<Rightarrow> nat \<Rightarrow> int option" where
  "Hilbert_to_int flog coords ndim =
    (let coord_chunks = unpack_coords flog coords ndim;
         nChunks = length coord_chunks;
         msk = 2 ^ ndim - 1;
         (start, stop) = initial_start_end nChunks ndim
     in map_option (\<lambda>index_chunks. pack_index index_chunks ndim) (decode_loop msk start stop coord_chunks))"

end
