(* ===== verification/Hilbert_Curve.thy ===== *)
theory Hilbert_Curve
  imports Hilbert
begin

text \<open>
  The Hilbert curve: Gray codes and their rotations, the corners of the cells, and the chunks of positions and coordinates.
\<close>

unbundle bit_operations_syntax

section \<open>Gray codes\<close>

lemma small_bit: "take_bit d (x :: int) = x \<Longrightarrow> bit x n \<Longrightarrow> n < d"
  by (metis bit_take_bit_iff)

lemma take_bit_XOR: "take_bit d (x :: int) = x \<Longrightarrow> take_bit d y = y \<Longrightarrow> take_bit d (x XOR y) = x XOR y"
  by simp

lemma gray_alt: "gray_encode i = i XOR drop_bit 1 i"
  by (simp add: gray_encode_def drop_bit_eq_div)

lemma bit_gray: "bit (gray_encode i) n \<longleftrightarrow> bit i n \<noteq> bit i (Suc n)"
  by (simp add: gray_alt bit_xor_iff bit_drop_bit_eq)

lemma gray_XOR: "gray_encode (x XOR y) = gray_encode x XOR gray_encode y"
  by (rule bit_eqI) (auto simp: bit_gray bit_xor_iff)

lemma gray_small: "take_bit d i = i \<Longrightarrow> take_bit d (gray_encode i) = gray_encode i"
  by (rule bit_eqI) (auto simp: bit_gray bit_take_bit_iff dest: small_bit Suc_lessD)

lemma gray_mask: "gray_encode (mask (Suc t)) = 2 ^ t"
  by (rule bit_eqI) (auto simp: bit_gray bit_mask_iff bit_exp_iff)

lemma drop_1_small: "0 \<le> x \<Longrightarrow> x \<le> 1 \<Longrightarrow> drop_bit 1 (x :: int) = 0"
  by (simp add: drop_bit_eq_div)

lemma XOR_0_eq: "x XOR y = (0 :: int) \<Longrightarrow> x = y"
  by (metis xor.assoc xor.left_neutral xor.right_neutral xor_self_eq)

lemma XOR_drop_le_1:
  assumes "0 \<le> v" "0 < sh"
  shows "v XOR drop_bit sh v \<le> (1 :: int) \<longleftrightarrow> v \<le> 1"
proof
  assume le: "v XOR drop_bit sh v \<le> 1"
  let ?w = "drop_bit 1 v"
  have "drop_bit 1 (v XOR drop_bit sh v) = 0" using le assms by (intro drop_1_small) simp_all
  then have "?w XOR drop_bit sh ?w = 0" by (simp add: ac_simps)
  then have "?w = drop_bit sh ?w" by (rule XOR_0_eq)
  moreover have "drop_bit sh ?w < ?w" if "0 < ?w" using that assms(2) by (simp add: drop_bit_eq_div int_div_less_self)
  ultimately have "?w = 0" using assms(1) by (metis drop_bit_nonnegative_int_iff order_le_less order_less_irrefl)
  then show "v \<le> 1" using assms(1) by (simp add: drop_bit_eq_div)
next
  assume "v \<le> 1"
  then have "v = 0 \<or> v = 1" using assms(1) by auto
  then show "v XOR drop_bit sh v \<le> 1" using assms(2) by (auto simp: drop_bit_eq_div)
qed

lemma gray_decode_step:
  assumes "0 \<le> i" "0 < sh" "sh < 32"
  shows "gray_decode_loop (i XOR drop_bit sh i) sh
    = (if drop_bit sh i \<le> 1 then Some i else gray_decode_loop (i XOR drop_bit (2 * sh) i) (2 * sh))"
proof -
  have dd: "drop_bit sh (drop_bit sh i) = drop_bit (2 * sh) i" by (simp add: mult_2)
  have d: "drop_bit sh (i XOR drop_bit sh i) = drop_bit sh i XOR drop_bit (2 * sh) i" by (simp add: mult_2)
  have n: "(i XOR drop_bit sh i) XOR (drop_bit sh i XOR drop_bit (2 * sh) i) = i XOR drop_bit (2 * sh) i"
    by (rule bit_eqI) (auto simp: bit_simps)
  have le: "drop_bit sh i XOR drop_bit (2 * sh) i \<le> 1 \<longleftrightarrow> drop_bit sh i \<le> 1"
    using XOR_drop_le_1 [of "drop_bit sh i" sh, unfolded dd] assms by simp
  have z: "i XOR drop_bit (2 * sh) i = i" if "drop_bit sh i \<le> 1"
  proof -
    have "0 \<le> drop_bit sh i" using assms(1) by simp
    with that have "drop_bit sh i = 0 \<or> drop_bit sh i = 1" by linarith
    then have "drop_bit (2 * sh) i = 0" unfolding dd [symmetric] using assms(2) by (auto simp: drop_bit_eq_div)
    then show ?thesis by simp
  qed
  have "\<not> 32 \<le> sh" using assms(3) by simp
  then show ?thesis by (subst gray_decode_loop.simps) (simp only: Let_def d n le z if_False cong: if_cong)
qed

lemma gray_decode_encode:
  assumes "take_bit d i = i" "d \<le> 17"
  shows "gray_decode (gray_encode i) = Some i"
proof -
  have i: "0 \<le> i" "i < 2 ^ 17" using assms take_bit_int_eq_self_iff [of d i] power_increasing [of d 17 "2 :: int"] by auto
  then have "drop_bit 16 i \<le> 1" by (simp add: drop_bit_eq_div)
  then have "gray_decode_loop (i XOR drop_bit 16 i) 16 = Some i" using gray_decode_step [of i 16] i by simp
  then have "gray_decode_loop (i XOR drop_bit 8 i) 8 = Some i" using gray_decode_step [of i 8] i by simp
  then have "gray_decode_loop (i XOR drop_bit 4 i) 4 = Some i" using gray_decode_step [of i 4] i by simp
  then have "gray_decode_loop (i XOR drop_bit 2 i) 2 = Some i" using gray_decode_step [of i 2] i by simp
  then have "gray_decode_loop (i XOR drop_bit 1 i) 1 = Some i" using gray_decode_step [of i 1] i by simp
  then show ?thesis by (simp only: gray_decode_def gray_alt)
qed

section \<open>Rotations\<close>

definition rot :: "nat \<Rightarrow> nat \<Rightarrow> int \<Rightarrow> int" where
  "rot d a x = ((x * 2 ^ a) OR ((x * 2 ^ a) div 2 ^ d)) AND (2 ^ d - 1)"

lemma bit_rot:
  assumes "take_bit d x = x" "a \<le> d"
  shows "bit (rot d a x) j \<longleftrightarrow> j < d \<and> bit x (if a \<le> j then j - a else j + d - a)"
proof -
  have "rot d a x = take_bit d (push_bit a x OR drop_bit d (push_bit a x))"
    by (simp add: rot_def push_bit_eq_mult drop_bit_eq_div take_bit_eq_mask mask_eq_exp_minus_1)
  then show ?thesis using assms small_bit [OF assms(1), of "j + d - a"] by (auto simp: bit_simps ac_simps)
qed

lemma rot_small: "take_bit d (rot d a x) = rot d a x"
  by (simp add: rot_def take_bit_eq_mask mask_eq_exp_minus_1 ac_simps)

lemma rot_back: "take_bit d x = x \<Longrightarrow> a \<le> d \<Longrightarrow> rot d (d - a) (rot d a x) = x"
  by (rule bit_eqI) (auto simp: bit_rot rot_small dest: small_bit)

lemma rot_XOR: "take_bit d x = x \<Longrightarrow> take_bit d y = y \<Longrightarrow> a \<le> d \<Longrightarrow> rot d a (x XOR y) = rot d a x XOR rot d a y"
  by (rule bit_eqI) (auto simp: bit_rot bit_xor_iff)

lemma exp_small: "t < d \<Longrightarrow> take_bit d (2 ^ t) = (2 ^ t :: int)"
  by (rule bit_eqI) (auto simp: bit_take_bit_iff bit_exp_iff)

lemma rot_exp: "t < d \<Longrightarrow> a \<le> d \<Longrightarrow> rot d a (2 ^ t) = 2 ^ (if t + a < d then t + a else t + a - d)"
  by (rule bit_eqI) (auto simp: bit_rot exp_small bit_exp_iff)

section \<open>Corners of cells\<close>

text \<open>
  A cell is crossed from the corner \<open>s\<close> to a neighbouring corner \<open>e\<close>. In up to 15 dimensions the products that the
  conversions compute are in the range of \<open>int\<close>.
\<close>

definition corners :: "nat \<Rightarrow> int \<Rightarrow> int \<Rightarrow> nat \<Rightarrow> bool" where
  "corners d s e k \<longleftrightarrow> take_bit d s = s \<and> k < d \<and> s XOR e = 2 ^ k \<and> d \<le> 15"

lemma corners_end: "corners d s e k \<Longrightarrow> s XOR 2 ^ k = e"
  unfolding corners_def by (metis xor.assoc xor.left_neutral xor_self_eq)

lemma sdiv_div: "0 \<le> k \<Longrightarrow> 0 < l \<Longrightarrow> k sdiv l = k div (l :: int)"
  by (cases "k = 0") (simp_all add: signed_divide_int_def)

lemma small_product:
  assumes "take_bit d (x :: int) = x" "a \<le> 15" "d \<le> 15"
  shows "0 \<le> x * 2 ^ a" "c_int (x * 2 ^ a) = x * 2 ^ a" "(x * 2 ^ a) sdiv 2 ^ d = (x * 2 ^ a) div 2 ^ d"
proof -
  have x: "0 \<le> x" "x < 2 ^ d" using assms(1) take_bit_int_eq_self_iff by blast+
  then have "x * 2 ^ a \<le> 2 ^ d * 2 ^ a" by (intro mult_right_mono) auto
  also have "\<dots> \<le> 2 ^ 15 * 2 ^ 15" using assms(2,3) by (intro mult_mono power_increasing) auto
  finally have "x * 2 ^ a < 2 ^ 31" by simp
  moreover show n: "0 \<le> x * 2 ^ a" using x by simp
  ultimately show "c_int (x * 2 ^ a) = x * 2 ^ a" by simp
  show "(x * 2 ^ a) sdiv 2 ^ d = (x * 2 ^ a) div 2 ^ d" using n by (simp add: sdiv_div)
qed

lemma small_exp: "k < 15 \<Longrightarrow> c_int (2 ^ k * 2) = 2 ^ Suc k"
  using power_increasing [of "Suc k" 15 "2 :: int"] by (simp add: order_trans [of "- 2147483648 :: int" 0])

lemma travel_rot:
  assumes "corners d s e k" "take_bit d i = i"
  shows "gray_encode_travel s e (2 ^ d - 1) i = rot d (Suc k) (gray_encode i) XOR s"
proof -
  have c: "s XOR e = 2 ^ k" "k < 15" "Suc k \<le> 15" "d \<le> 15" using assms(1) by (auto simp: corners_def)
  show ?thesis using small_product [OF gray_small [OF assms(2)] c(3,4)] small_exp [OF c(2)] c(1)
    by (simp add: gray_encode_travel_def rot_def Let_def)
qed

lemma travel_small:
  assumes "corners d s e k" "take_bit d i = i"
  shows "take_bit d (gray_encode_travel s e (2 ^ d - 1) i) = gray_encode_travel s e (2 ^ d - 1) i"
  unfolding travel_rot [OF assms] using assms by (simp add: rot_small corners_def)

lemma travel_XOR:
  assumes "corners d s e k" "take_bit d i = i" "take_bit d j = j"
  shows "gray_encode_travel s e (2 ^ d - 1) i XOR gray_encode_travel s e (2 ^ d - 1) j = rot d (Suc k) (gray_encode (i XOR j))"
proof -
  have "Suc k \<le> d" using assms(1) by (simp add: corners_def)
  then have "rot d (Suc k) (gray_encode (i XOR j)) = rot d (Suc k) (gray_encode i) XOR rot d (Suc k) (gray_encode j)"
    using assms by (simp add: gray_XOR rot_XOR gray_small)
  then show ?thesis unfolding travel_rot [OF assms(1,2)] travel_rot [OF assms(1,3)] by (metis xor.assoc xor.commute xor.left_neutral xor_self_eq)
qed

lemma decode_travel:
  assumes "corners d s e k" "take_bit d i = i"
  shows "gray_decode_travel s e (2 ^ d - 1) (gray_encode_travel s e (2 ^ d - 1) i) = Some i"
proof -
  have k: "Suc k \<le> d" "s XOR e = 2 ^ k" "k < 15" "d - Suc k \<le> 15" "d \<le> 15" using assms(1) by (auto simp: corners_def)
  let ?r = "rot d (Suc k) (gray_encode i)"
  have "(?r XOR s) XOR s = ?r" by (simp add: xor.assoc)
  moreover have "(2 :: int) ^ d sdiv 2 ^ Suc k = 2 ^ d div 2 ^ Suc k" by (simp add: sdiv_div)
  then have "(2 :: int) ^ d sdiv 2 ^ Suc k = 2 ^ (d - Suc k)" using k power_diff [of "2 :: int" "Suc k" d] by simp
  ultimately have "gray_decode_travel s e (2 ^ d - 1) (gray_encode_travel s e (2 ^ d - 1) i) = gray_decode (rot d (d - Suc k) ?r)"
    using small_product [OF rot_small k(4,5), of "Suc k" "gray_encode i"] small_exp [OF k(3)] k(2)
    by (simp add: gray_decode_travel_def travel_rot [OF assms] Let_def rot_def [of d "d - Suc k"] del: power_Suc)
  also have "\<dots> = Some i" using rot_back [OF gray_small [OF assms(2)] k(1)] gray_decode_encode [OF assms(2)] k(5) by simp
  finally show ?thesis .
qed

lemma XOR_double:
  "(2 * x) XOR (2 * y) = 2 * (x XOR y :: int)" "(2 * x) XOR (2 * y + 1) = 2 * (x XOR y :: int) + 1" "(2 * x + 1) XOR (2 * y) = 2 * (x XOR y :: int) + 1"
  by (subst xor_rec; simp)+

lemma mask_twice: "mask (Suc t) = 2 * mask t + (1 :: int)"
  by (simp add: mask_eq_exp_minus_1)

lemma XOR_succ: "0 \<le> m \<Longrightarrow> \<exists>t. m XOR (m + 1) = (mask (Suc t) :: int)"
proof (induction "nat m" arbitrary: m rule: less_induct)
  case less
  show ?case
  proof (cases "even m")
    case True
    then have "m XOR (m + 1) = mask (Suc 0)" by (auto simp: XOR_double elim!: evenE)
    then show ?thesis by blast
  next
    case False
    then obtain n where n: "m = 2 * n + 1" by (auto elim!: oddE)
    then obtain t where "n XOR (n + 1) = mask (Suc t)" using less by force
    moreover have e: "m + 1 = 2 * (n + 1)" using n by simp
    have "m XOR (m + 1) = 2 * (n XOR (n + 1)) + 1" using XOR_double(3) [of n "n + 1"] e n by metis
    ultimately have "m XOR (m + 1) = mask (Suc (Suc t))" by (simp only: mask_twice [of "Suc t"])
    then show ?thesis by blast
  qed
qed

lemma clear_low: "x AND NOT 1 = 2 * (x div 2 :: int)"
  by (subst and_rec) simp

lemma set_low: "x OR 1 = 2 * (x div 2 :: int) + 1"
  by (subst or_rec) simp

definition first_cell :: "int \<Rightarrow> int" where
  "first_cell i = max 0 ((i - 1) AND NOT 1)"

definition last_cell :: "nat \<Rightarrow> int \<Rightarrow> int" where
  "last_cell d i = min (2 ^ d - 1) ((i + 1) OR 1)"

text \<open>The two cells are the same for the two positions \<open>2 m + 1\<close> and \<open>2 m + 2\<close>.\<close>

lemma cell_cases:
  assumes "take_bit d i = i" "0 < d"
  obtains "i = 0" "first_cell i = 0" "last_cell d i = 1"
  | m where "0 \<le> m" "i = 2 * m + 1" "2 * m + 2 = 2 ^ d" "first_cell i = 2 * m" "last_cell d i = 2 * m + 1"
  | m where "0 \<le> m" "i = 2 * m + 1 \<or> i = 2 * m + 2" "2 * m + 3 < 2 ^ d" "first_cell i = 2 * m" "last_cell d i = 2 * m + 3"
proof -
  have i: "0 \<le> i" "i < 2 ^ d" using assms(1) take_bit_int_eq_self_iff by blast+
  obtain n where n: "d = Suc n" using assms(2) by (cases d) auto
  let ?m = "(i - 1) div 2"
  show thesis
  proof (cases "i = 0")
    case True
    moreover have "min (2 * 2 ^ n - 1) 1 = (1 :: int)" using one_le_power [of "2 :: int" n] by linarith
    ultimately show thesis using n by (intro that(1)) (auto simp: first_cell_def last_cell_def clear_low set_low)
  next
    case False
    have e: "i = 2 * ?m + 1 \<or> i = 2 * ?m + 2" "0 \<le> ?m" using False i by auto
    moreover have "first_cell i = 2 * ?m" unfolding first_cell_def clear_low using e by simp
    moreover have "(i + 1) OR 1 = 2 * ?m + 3" unfolding set_low by presburger
    moreover have "2 * ?m + 2 \<le> 2 ^ d" using e i n by auto
    ultimately show thesis using i n that(2) [of ?m] that(3) [of ?m] by (cases "?m + 1 = 2 ^ n") (auto simp: last_cell_def)
  qed
qed

lemma small_iff: "take_bit d (x :: int) = x \<longleftrightarrow> 0 \<le> x \<and> x < 2 ^ d"
  by (rule take_bit_int_eq_self_iff)

lemma cell_corners:
  assumes "take_bit d i = i" "0 < d"
  shows "take_bit d (first_cell i) = first_cell i" "take_bit d (last_cell d i) = last_cell d i"
    "\<exists>t < d. gray_encode (first_cell i XOR last_cell d i) = 2 ^ t"
proof -
  have "take_bit d (first_cell i) = first_cell i \<and> take_bit d (last_cell d i) = last_cell d i
    \<and> (\<exists>t. first_cell i XOR last_cell d i = mask (Suc t))"
    using assms
  proof (cases rule: cell_cases)
    case 1
    moreover have "(1 :: int) < 2 ^ d" using assms(2) by (rule one_less_power [rotated]) simp
    ultimately show ?thesis using assms(2) by (auto simp: small_iff intro: exI [of _ 0])
  next
    case (2 m)
    then show ?thesis using XOR_double(2) [of m m] by (auto simp: small_iff intro: exI [of _ 0])
  next
    case (3 m)
    then obtain t where "m XOR (m + 1) = mask (Suc t)" using XOR_succ by blast
    then have "(2 * m) XOR (2 * m + 3) = mask (Suc (Suc t))" using XOR_double(2) [of m "m + 1"] mask_twice [of "Suc t"] by (simp add: algebra_simps)
    then show ?thesis using 3 by (auto simp: small_iff)
  qed
  then obtain t where t: "take_bit d (first_cell i) = first_cell i" "take_bit d (last_cell d i) = last_cell d i" "first_cell i XOR last_cell d i = mask (Suc t)" by blast
  then have "take_bit d (mask (Suc t)) = (mask (Suc t) :: int)" by (metis take_bit_XOR)
  then have "t < d" using small_bit [of d "mask (Suc t)" t] by (simp add: bit_mask_iff)
  with t show "take_bit d (first_cell i) = first_cell i" "take_bit d (last_cell d i) = last_cell d i"
    "\<exists>t < d. gray_encode (first_cell i XOR last_cell d i) = 2 ^ t" by (auto simp: gray_mask)
qed

lemma child_corners:
  assumes "corners d s e k" "take_bit d i = i"
  shows "\<exists>s' e' k'. child_start_end s e (2 ^ d - 1) i = (s', e') \<and> corners d s' e' k'"
proof -
  have d: "0 < d" "Suc k \<le> d" using assms(1) by (auto simp: corners_def)
  note c = cell_corners [OF assms(2) d(1)]
  let ?s = "gray_encode_travel s e (2 ^ d - 1) (first_cell i)" and ?e = "gray_encode_travel s e (2 ^ d - 1) (last_cell d i)"
  have ch: "child_start_end s e (2 ^ d - 1) i = (?s, ?e)" by (simp add: child_start_end_def first_cell_def last_cell_def Let_def)
  obtain t where t: "t < d" "gray_encode (first_cell i XOR last_cell d i) = 2 ^ t" using c(3) by blast
  have "?s XOR ?e = 2 ^ (if t + Suc k < d then t + Suc k else t + Suc k - d)"
    using travel_XOR [OF assms(1) c(1,2)] rot_exp [OF t(1) d(2)] t(2) by simp
  then have "corners d ?s ?e (if t + Suc k < d then t + Suc k else t + Suc k - d)" using travel_small [OF assms(1) c(1)] t(1) d assms(1) by (auto simp: corners_def)
  then show ?thesis using ch by blast
qed

lemma decode_encode_loop:
  assumes "corners d s e k" "\<forall>i \<in> set is. take_bit d i = i"
  shows "decode_loop (2 ^ d - 1) s e (encode_loop (2 ^ d - 1) s e is) = Some is"
  using assms
proof (induction "is" arbitrary: s e k)
  case (Cons i "is")
  have "take_bit d i = i" using Cons.prems(2) by simp
  then obtain s' e' k' where c: "child_start_end s e (2 ^ d - 1) i = (s', e')" "corners d s' e' k'"
    using child_corners [OF Cons.prems(1)] by blast
  then show ?case using Cons.IH [OF c(2)] Cons.prems decode_travel [OF Cons.prems(1)] by simp
qed simp

lemma encode_small:
  assumes "corners d s e k" "\<forall>i \<in> set is. take_bit d i = i" "c \<in> set (encode_loop (2 ^ d - 1) s e is)"
  shows "take_bit d c = c"
  using assms
proof (induction "is" arbitrary: s e k)
  case (Cons i "is")
  have "take_bit d i = i" using Cons.prems(2) by simp
  then obtain s' e' k' where c: "child_start_end s e (2 ^ d - 1) i = (s', e')" "corners d s' e' k'"
    using child_corners [OF Cons.prems(1)] by blast
  then show ?case using Cons.IH [OF c(2)] Cons.prems travel_small [OF Cons.prems(1)] by auto
qed simp

end
