(* ===== verification/Hilbert_Props.thy ===== *)
theory Hilbert_Props
  imports Hilbert_Curve
begin

text \<open>
  The properties of the Hilbert curve: positions and coordinates determine each other, and positions that follow
  each other are neighbouring points.
\<close>

unbundle bit_operations_syntax

section \<open>Transposition of bits\<close>

definition column :: "int list \<Rightarrow> nat \<Rightarrow> int" where
  "column srcs r = foldl (\<lambda>d s. d * 2 + of_bool (bit s r)) 0 srcs"

lemma transpose_inner_alt:
  "transpose_inner d srcs = (foldl (\<lambda>d s. d * 2 + of_bool (bit s 0)) d srcs, map (\<lambda>s. s div 2) srcs)"
  by (induction srcs arbitrary: d) (simp_all add: mod2_eq_if bit_0)

lemma column_half: "column (map (\<lambda>s. s div 2) srcs) r = column srcs (Suc r)"
  by (simp add: column_def foldl_map bit_Suc)

lemma transpose_loop_alt:
  "j \<le> length dests \<Longrightarrow> transpose_loop j srcs dests = map (\<lambda>i. column srcs (j - 1 - i)) [0..<j] @ drop j dests"
proof (induction j arbitrary: srcs dests)
  case (Suc j)
  have "map (\<lambda>i. column srcs (Suc (j - 1 - i))) [0..<j] = map (\<lambda>i. column srcs (j - i)) [0..<j]" by (auto simp: Suc_diff_Suc)
  then show ?case using Suc
    by (simp add: transpose_inner_alt column_half drop_update_at column_def [of srcs 0, symmetric])
qed simp

lemma transpose_alt: "transpose_bits srcs n = map (\<lambda>i. column srcs (n - 1 - i)) [0..<n]"
  by (simp add: transpose_bits_def transpose_loop_alt)

lemma column_snoc: "column (xs @ [x]) r = column xs r * 2 + of_bool (bit x r)"
  by (simp add: column_def)

lemma bit_column: "bit (column srcs r) b \<longleftrightarrow> b < length srcs \<and> bit (srcs ! (length srcs - 1 - b)) r"
proof (induction srcs arbitrary: b rule: rev_induct)
  case Nil
  then show ?case by (simp add: column_def)
next
  case (snoc x xs)
  show ?case
  proof (cases b)
    case 0
    then show ?thesis by (simp add: column_snoc bit_0)
  next
    case (Suc c)
    then have "bit (column (xs @ [x]) r) b \<longleftrightarrow> bit (column xs r) c" by (simp add: column_snoc bit_Suc)
    also have "\<dots> \<longleftrightarrow> c < length xs \<and> bit (xs ! (length xs - 1 - c)) r" by (rule snoc)
    also have "\<dots> \<longleftrightarrow> b < length (xs @ [x]) \<and> bit ((xs @ [x]) ! (length (xs @ [x]) - 1 - b)) r" using Suc by (auto simp: nth_append)
    finally show ?thesis .
  qed
qed

lemma column_small: "take_bit (length srcs) (column srcs r) = column srcs r"
  by (rule bit_eqI) (auto simp: bit_take_bit_iff bit_column)

lemma column_pad: "column (replicate k 0 @ cs) r = column cs r"
proof -
  have "foldl (\<lambda>d s. d * 2 + of_bool (bit s r)) 0 (replicate k (0 :: int)) = (0 :: int)" by (induction k) auto
  then show ?thesis by (simp add: column_def)
qed

lemma transpose_pad: "transpose_bits (replicate k 0 @ cs) d = transpose_bits cs d"
  by (simp add: transpose_alt column_pad)

lemma transpose_twice:
  assumes "\<forall>c \<in> set cs. take_bit d c = c"
  shows "transpose_bits (transpose_bits cs d) (length cs) = cs"
proof (rule nth_equalityI)
  fix j assume "j < length (transpose_bits (transpose_bits cs d) (length cs))"
  then have j: "j < length cs" by (simp add: transpose_alt)
  then have s: "take_bit d (cs ! j) = cs ! j" using assms by simp
  show "transpose_bits (transpose_bits cs d) (length cs) ! j = cs ! j"
  proof (rule bit_eqI)
    fix b show "bit (transpose_bits (transpose_bits cs d) (length cs) ! j) b = bit (cs ! j) b"
      using j small_bit [OF s, of b] by (cases "b < d") (auto simp: transpose_alt bit_column)
  qed
qed (simp add: transpose_alt)

lemma transpose_zeros:
  assumes "\<forall>c \<in> set cs. take_bit d c = c" "\<forall>x \<in> set (transpose_bits cs d). take_bit m x = x" "m \<le> length cs"
  shows "cs = replicate (length cs - m) 0 @ drop (length cs - m) cs"
proof -
  have "cs ! j = 0" if j: "j < length cs - m" for j
  proof (rule bit_eqI)
    fix b
    have s: "take_bit d (cs ! j) = cs ! j" using assms(1) j by simp
    have False if "bit (cs ! j) b"
    proof -
      have b: "b < d" using small_bit [OF s that] .
      then have "bit (column cs b) (length cs - 1 - j)" using j that by (simp add: bit_column)
      moreover have "transpose_bits cs d ! (d - 1 - b) = column cs b" "d - 1 - b < length (transpose_bits cs d)"
        using b by (auto simp: transpose_alt)
      then have "column cs b \<in> set (transpose_bits cs d)" by (metis nth_mem)
      ultimately show False using assms(2) small_bit [of m "column cs b"] j by fastforce
    qed
    then show "bit (cs ! j) b = bit 0 b" by auto
  qed
  then have "take (length cs - m) cs = replicate (length cs - m) 0" by (intro replicate_eqI) (auto simp: in_set_conv_nth)
  then show ?thesis by (metis append_take_drop_id)
qed

section \<open>Digits of a position\<close>

fun digits :: "int \<Rightarrow> nat \<Rightarrow> int \<Rightarrow> int list" where
  "digits p 0 i = []"
| "digits p (Suc n) i = digits p n (i div p) @ [i mod p]"

lemma length_digits [simp]: "length (digits p n i) = n"
  by (induction n arbitrary: i) auto

lemma unpack_digits: "j \<le> length chunks \<Longrightarrow> index_loop j p i chunks = digits p j i @ drop j chunks"
  by (induction j arbitrary: i chunks) (simp_all add: drop_update_at)

lemma div_less_power:
  assumes "(0 :: int) < p" "i < p ^ Suc n"
  shows "i div p < p ^ n"
proof (rule ccontr)
  assume "\<not> i div p < p ^ n"
  then have "p ^ n * p \<le> i div p * p" using assms(1) by simp
  also have "\<dots> \<le> i" using assms(1) by (metis add_le_same_cancel1 div_mult_mod_eq le_add_same_cancel1 pos_mod_sign)
  finally show False using assms(2) by (simp add: mult.commute)
qed

lemma pack_digits: "0 \<le> i \<Longrightarrow> i < (2 ^ d) ^ n \<Longrightarrow> pack_index (digits (2 ^ d) n i) d = i"
proof (induction n arbitrary: i)
  case (Suc n)
  then have "pack_index (digits (2 ^ d) n (i div 2 ^ d)) d = i div 2 ^ d" using div_less_power [of "2 ^ d" i n] by (simp add: pos_imp_zdiv_nonneg_iff)
  then show ?case using div_mult_mod_eq [of i "2 ^ d"] by (simp add: pack_index_def Let_def)
qed (simp add: pack_index_def)

lemma digits_pad: "0 < p \<Longrightarrow> 0 \<le> i \<Longrightarrow> i < p ^ m \<Longrightarrow> digits p (m + k) i = replicate k 0 @ digits p m i"
proof (induction m arbitrary: i)
  case 0
  then have "i = 0" by simp
  moreover have "digits p k 0 = replicate k 0" by (induction k) (auto simp: replicate_append_same)
  ultimately show ?case by simp
next
  case (Suc m)
  then show ?case using div_less_power [of p i m] by (simp add: pos_imp_zdiv_nonneg_iff)
qed

lemma digits_small: "c \<in> set (digits (2 ^ d) n i) \<Longrightarrow> take_bit d c = c"
proof (induction n arbitrary: i)
  case (Suc n)
  have "take_bit d (i mod 2 ^ d) = i mod 2 ^ d" by (simp only: take_bit_eq_mod mod_mod_trivial)
  with Suc show ?case by auto
qed simp

lemma pack_pad: "pack_index (replicate k 0 @ cs) d = pack_index cs d"
proof -
  have "foldl (\<lambda>val c. val * 2 ^ d + c) 0 (replicate k (0 :: int)) = (0 :: int)" by (induction k) auto
  then show ?thesis by (simp add: pack_index_def Let_def)
qed

section \<open>Leading zeros\<close>

definition init_bit :: "nat \<Rightarrow> nat \<Rightarrow> nat" where
  "init_bit n d = nat ((- int n - 1) mod int d)"

lemma initial_alt:
  assumes "0 < d"
  shows "initial_start_end n d = (0, 2 ^ init_bit n d)"
proof -
  define m where "m = 1 + int n"
  have e: "- int n - 1 = - m" and m: "0 < m" by (simp_all add: m_def)
  have "(- m) smod int d = - (m mod int d)" using m assms by (simp add: smod_int_alt_def)
  moreover have "(- m) mod int d = (if m mod int d = 0 then 0 else int d - m mod int d)" by (rule zmod_zminus1_eq_if)
  moreover have "0 \<le> m mod int d" using assms by simp
  ultimately show ?thesis unfolding initial_start_end_def init_bit_def e Let_def by auto
qed

lemma init_corners: "0 < d \<Longrightarrow> d \<le> 15 \<Longrightarrow> corners d 0 (2 ^ init_bit n d) (init_bit n d)"
  by (simp add: corners_def init_bit_def nat_less_iff)

lemma init_bit_Suc:
  assumes "0 < d"
  shows "init_bit n d = (if Suc (init_bit (Suc n) d) < d then Suc (init_bit (Suc n) d) else 0)"
proof -
  define x where "x = (- int (Suc n) - 1) mod int d"
  have x: "0 \<le> x" "x + 1 \<le> int d" 
    using assms pos_mod_sign [of "int d" "- int (Suc n) - 1"] pos_mod_bound [of "int d" "- int (Suc n) - 1"] unfolding x_def by linarith+
  have "- int n - 1 = (- int (Suc n) - 1) + 1" by simp
  then have "(- int n - 1) mod int d = (x + 1) mod int d" by (simp only: mod_add_left_eq x_def)
  also have "\<dots> = (if x + 1 < int d then x + 1 else 0)" using x by (cases "x + 1 = int d") auto
  finally show ?thesis using x unfolding init_bit_def x_def [symmetric] by auto
qed

lemma gray_0 [simp]: "gray_encode 0 = 0" and gray_1 [simp]: "gray_encode 1 = 1"
  by (simp_all add: gray_encode_def)

lemma rot_0 [simp]: "rot d a 0 = 0"
  by (simp add: rot_def)

lemma travel_0: "corners d s e k \<Longrightarrow> gray_encode_travel s e (2 ^ d - 1) 0 = s"
  by (simp add: travel_rot [where k = k])

lemma child_alt:
  "child_start_end s e (2 ^ d - 1) i = (gray_encode_travel s e (2 ^ d - 1) (first_cell i), gray_encode_travel s e (2 ^ d - 1) (last_cell d i))"
  by (simp add: child_start_end_def first_cell_def last_cell_def Let_def)

lemma cells_0: "0 < d \<Longrightarrow> first_cell 0 = 0" "0 < d \<Longrightarrow> last_cell d 0 = 1"
  using cell_cases [of d 0] by fastforce+

lemma child_init:
  assumes "0 < d" "d \<le> 15"
  shows "child_start_end 0 (2 ^ init_bit (Suc n) d) (2 ^ d - 1) 0 = (0, 2 ^ init_bit n d)"
proof -
  let ?k = "init_bit (Suc n) d"
  note c = init_corners [OF assms, of "Suc n"]
  have k: "Suc ?k \<le> d" using c by (simp add: corners_def)
  have "gray_encode_travel 0 (2 ^ ?k) (2 ^ d - 1) 1 = rot d (Suc ?k) (2 ^ 0)" using travel_rot [OF c, of 1] exp_small [of 0 d] assms(1) by simp
  also have "\<dots> = 2 ^ init_bit n d" using rot_exp [of 0 d "Suc ?k"] assms k init_bit_Suc [OF assms(1), of n] by auto
  finally show ?thesis using travel_0 [OF c] by (simp add: child_alt cells_0 [OF assms(1)])
qed

text \<open>The conversions of lists of chunks, for a curve that fills a cube of their depth.\<close>

definition encode :: "nat \<Rightarrow> int list \<Rightarrow> int list" where
  "encode d is = encode_loop (2 ^ d - 1) 0 (2 ^ init_bit (length is) d) is"

definition decode :: "nat \<Rightarrow> int list \<Rightarrow> int list option" where
  "decode d cs = decode_loop (2 ^ d - 1) 0 (2 ^ init_bit (length cs) d) cs"

lemma length_encode_loop [simp]: "length (encode_loop msk s e is) = length is"
  by (induction "is" arbitrary: s e) (auto split: prod.split)

lemma length_encode [simp]: "length (encode d is) = length is"
  by (simp add: encode_def)

lemma encode_pad: "0 < d \<Longrightarrow> d \<le> 15 \<Longrightarrow> encode d (replicate k 0 @ is) = replicate k 0 @ encode d is"
proof (induction k)
  case (Suc k)
  then show ?case using travel_0 [OF init_corners] child_init [of d "k + length is"] by (simp add: encode_def)
qed simp

lemma decode_pad: "0 < d \<Longrightarrow> d \<le> 15 \<Longrightarrow> decode d (replicate k 0 @ cs) = map_option ((@) (replicate k 0)) (decode d cs)"
proof (induction k)
  case 0
  then show ?case by (simp add: option.map_ident)
next
  case (Suc k)
  have "gray_decode_travel 0 (2 ^ init_bit n d) (2 ^ d - 1) 0 = Some 0" for n
    using decode_travel [OF init_corners [OF Suc.prems], of 0 n] Suc.prems travel_0 [OF init_corners [OF Suc.prems]] by simp
  then have "decode d (0 # replicate k 0 @ cs) = map_option (Cons 0) (decode d (replicate k 0 @ cs))"
    using child_init [OF Suc.prems, of "k + length cs"] by (cases "decode d (replicate k 0 @ cs)") (simp_all add: decode_def)
  then show ?case using Suc by (simp add: option.map_comp o_def)
qed

lemma decode_encode:
  "0 < d \<Longrightarrow> d \<le> 15 \<Longrightarrow> \<forall>i \<in> set is. take_bit d i = i \<Longrightarrow> decode d (encode d is) = Some is"
  using decode_encode_loop [OF init_corners] by (simp add: decode_def encode_def)

lemma encoded_small: "0 < d \<Longrightarrow> d \<le> 15 \<Longrightarrow> \<forall>i \<in> set is. take_bit d i = i \<Longrightarrow> c \<in> set (encode d is) \<Longrightarrow> take_bit d c = c"
  unfolding encode_def by (rule encode_small [OF init_corners])

section \<open>Points\<close>

definition point :: "nat \<Rightarrow> nat \<Rightarrow> int \<Rightarrow> int list" where
  "point d n i = transpose_bits (encode d (digits (2 ^ d) n i)) d"

lemma int_to_Hilbert_point: "0 < d \<Longrightarrow> int_to_Hilbert clog i d = point d (max 1 (clog (2 ^ d) i)) i"
  by (simp add: int_to_Hilbert_def unpack_index_def unpack_digits initial_alt pack_coords_def point_def encode_def Let_def)

lemma point_pad:
  assumes "0 < d" "d \<le> 15" "0 \<le> i" "i < (2 ^ d) ^ m" "m \<le> n"
  shows "point d n i = point d m i"
  using digits_pad [of "2 ^ d" i m "n - m"] assms by (simp add: point_def encode_pad transpose_pad)

lemma point_small: "x \<in> set (point d n i) \<Longrightarrow> take_bit n x = x"
  using column_small [of "encode d (digits (2 ^ d) n i)"] by (auto simp: point_def transpose_alt)

lemma point_any:
  assumes "0 < d" "d \<le> 15" "0 \<le> i" "i < (2 ^ d) ^ m" "i < (2 ^ d) ^ n"
  shows "point d n i = point d m i"
  using assms point_pad [of d i m n] point_pad [of d i n m] by (cases "m \<le> n") auto

lemma decode_point:
  assumes "0 < d" "d \<le> 15" "0 \<le> i" "i < (2 ^ d) ^ n" "\<forall>x \<in> set (point d n i). take_bit m x = x"
  shows "\<exists>is. decode d (transpose_bits (point d n i) m) = Some is \<and> pack_index is d = i"
proof -
  let ?K = "max m n" and ?is = "digits (2 ^ d) (max m n) i"
  let ?cs = "encode d ?is"
  have "i < (2 ^ d) ^ ?K" using assms(4) power_increasing [of n ?K "2 ^ d :: int"] by auto
  then have K: "pack_index ?is d = i" "point d n i = transpose_bits ?cs d"
    using pack_digits [of i d ?K] point_any [of d i n ?K] assms by (auto simp: point_def)
  have s: "\<forall>c \<in> set ?cs. take_bit d c = c" using encoded_small [OF assms(1,2)] digits_small by blast
  obtain cs where cs: "?cs = replicate (?K - m) 0 @ cs" "length cs = m"
    using transpose_zeros [OF s, of m] assms(5) K(2) by (metis length_digits length_drop length_encode max.cobounded1 diff_diff_cancel)
  then have "transpose_bits (point d n i) m = cs" using K(2) transpose_twice [of cs d] s by (simp add: transpose_pad)
  moreover have "map_option ((@) (replicate (?K - m) 0)) (decode d cs) = Some ?is"
    using decode_pad [OF assms(1,2), of "?K - m" cs] decode_encode [OF assms(1,2)] digits_small cs(1) by metis
  then obtain "is" where "decode d cs = Some is" "?is = replicate (?K - m) 0 @ is" by auto
  ultimately show ?thesis using K(1) pack_pad [of "?K - m" "is" d] by auto
qed

section \<open>Neighbours\<close>

lemma digits_succ:
  assumes "1 < p" "0 \<le> i" "i + 1 < p ^ n"
  shows "\<exists>P x r. digits p n i = P @ x # replicate r (p - 1) \<and> digits p n (i + 1) = P @ (x + 1) # replicate r 0 \<and> 0 \<le> x \<and> x + 1 < p
    \<and> set P \<subseteq> set (digits p n i)"
  using assms(2,3)
proof (induction n arbitrary: i)
  case (Suc n)
  have p: "0 \<le> i mod p" "i mod p < p" using assms(1) by simp_all
  have i: "i = i div p * p + i mod p" by simp
  show ?case
  proof (cases "i mod p + 1 < p")
    case True
    then have "(i + 1) div p = i div p" "(i + 1) mod p = i mod p + 1"
      using assms(1) p i int_div_pos_eq [of "i + 1" p "i div p" "i mod p + 1"] int_mod_pos_eq [of "i + 1" p "i div p" "i mod p + 1"] by (auto simp: algebra_simps)
    then show ?thesis using p True by (intro exI [of _ "digits p n (i div p)"] exI [of _ "i mod p"] exI [of _ 0]) auto
  next
    case False
    then have m: "i mod p = p - 1" using p by simp
    then have "i + 1 = (i div p + 1) * p" unfolding distrib_right using div_mult_mod_eq [of i p] by linarith
    then have s: "(i + 1) div p = i div p + 1" "(i + 1) mod p = 0"
      using assms(1) by (metis nonzero_mult_div_cancel_right not_one_less_zero, metis mod_mult_self2_is_0)
    have "i div p + 1 < p ^ n" using div_less_power [of p "i + 1" n] Suc.prems assms(1) s by simp
    moreover have "0 \<le> i div p" using Suc.prems(1) assms(1) by (simp add: pos_imp_zdiv_nonneg_iff)
    ultimately obtain P x r where P: "digits p n (i div p) = P @ x # replicate r (p - 1)" "digits p n (i div p + 1) = P @ (x + 1) # replicate r 0"
      "0 \<le> x" "x + 1 < p" "set P \<subseteq> set (digits p n (i div p))" using Suc.IH by blast
    then show ?thesis using m s by (intro exI [of _ P] exI [of _ x] exI [of _ "Suc r"]) (auto simp: replicate_append_same [symmetric])
  qed
qed simp

lemma encode_split:
  assumes "corners d s e k" "\<forall>i \<in> set P. take_bit d i = i"
  shows "\<exists>A s' e' k'. corners d s' e' k' \<and> (\<forall>is. encode_loop (2 ^ d - 1) s e (P @ is) = A @ encode_loop (2 ^ d - 1) s' e' is)"
  using assms
proof (induction P arbitrary: s e k)
  case Nil
  then show ?case by (metis append_Nil)
next
  case (Cons i P)
  have "take_bit d i = i" using Cons.prems(2) by simp
  then obtain s' e' k' where c: "child_start_end s e (2 ^ d - 1) i = (s', e')" "corners d s' e' k'"
    using child_corners [OF Cons.prems(1)] by blast
  then obtain A t f l where "corners d t f l" "\<forall>is. encode_loop (2 ^ d - 1) s' e' (P @ is) = A @ encode_loop (2 ^ d - 1) t f is"
    using Cons.IH [OF c(2)] Cons.prems(2) by auto
  then show ?case using c(1) by (intro exI [of _ "gray_encode_travel s e (2 ^ d - 1) i # A"] exI [of _ t] exI [of _ f] exI [of _ l]) simp
qed

lemma encode_first: "corners d s e k \<Longrightarrow> encode_loop (2 ^ d - 1) s e (replicate r 0) = replicate r s"
proof (induction r arbitrary: e k)
  case (Suc r)
  have d: "0 < d" using Suc.prems by (auto simp: corners_def)
  obtain s' e' k' where c: "child_start_end s e (2 ^ d - 1) 0 = (s', e')" "corners d s' e' k'"
    using child_corners [OF Suc.prems, of 0] by auto
  moreover have "s' = s" using c(1) travel_0 [OF Suc.prems] by (simp add: child_alt cells_0 [OF d])
  ultimately show ?case using Suc.IH [of e' k'] travel_0 [OF Suc.prems] by simp
qed simp

lemma travel_last:
  assumes "corners d s e k"
  shows "gray_encode_travel s e (2 ^ d - 1) (2 ^ d - 1) = e"
proof -
  obtain t where d: "d = Suc t" using assms by (cases d) (auto simp: corners_def)
  have "rot d (Suc k) (gray_encode (2 ^ d - 1)) = rot d (Suc k) (2 ^ t)" unfolding d mask_eq_exp_minus_1 [symmetric] gray_mask ..
  also have "\<dots> = 2 ^ k" using rot_exp [of t d "Suc k"] assms d by (auto simp: corners_def)
  finally show ?thesis using corners_end [OF assms] travel_rot [OF assms, of "2 ^ d - 1"] by (simp add: xor.commute small_iff)
qed

lemma last_cell_last: "last_cell d (2 ^ d - 1) = 2 ^ d - 1"
  by (simp add: last_cell_def set_low)

lemma encode_last: "corners d s e k \<Longrightarrow> encode_loop (2 ^ d - 1) s e (replicate r (2 ^ d - 1)) = replicate r e"
proof (induction r arbitrary: s k)
  case (Suc r)
  have "take_bit d (2 ^ d - 1) = (2 ^ d - 1 :: int)" by (simp add: small_iff)
  then obtain s' e' k' where c: "child_start_end s e (2 ^ d - 1) (2 ^ d - 1) = (s', e')" "corners d s' e' k'"
    using child_corners [OF Suc.prems] by blast
  moreover have "e' = e" using c(1) travel_last [OF Suc.prems] by (simp add: child_alt last_cell_last)
  ultimately show ?case using Suc.IH [of s' k'] travel_last [OF Suc.prems] by simp
qed simp

text \<open>Where the curve leaves the cell \<open>i\<close> and enters the next one, only the coordinate in which these cells differ changes.\<close>

definition crossing :: "nat \<Rightarrow> int \<Rightarrow> int \<Rightarrow> int \<Rightarrow> int \<Rightarrow> nat \<Rightarrow> bool" where
  "crossing d c c' u v t \<longleftrightarrow> t < d \<and> c XOR c' = 2 ^ t \<and> u XOR v = 2 ^ t \<and> bit u t = bit c' t"

lemma XOR_exp_bits: "x XOR y = (2 ^ t :: int) \<Longrightarrow> bit x b = bit y b \<longleftrightarrow> b \<noteq> t"
  by (metis bit_exp_iff bit_xor_iff possible_bit_int)

lemma travel_crossing_even:
  assumes "corners d s e k" "0 \<le> m" "2 * m + 1 < 2 ^ d"
  defines "T \<equiv> gray_encode_travel s e (2 ^ d - 1)"
  shows "\<exists>t. crossing d (T (2 * m)) (T (2 * m + 1)) (T (last_cell d (2 * m))) (T (first_cell (2 * m + 1))) t"
proof -
  have k: "0 < d" "Suc k \<le> d" using assms(1) by (auto simp: corners_def)
  have cells: "last_cell d (2 * m) = 2 * m + 1" "first_cell (2 * m + 1) = 2 * m"
    unfolding last_cell_def first_cell_def set_low clear_low using assms(2,3) by auto
  have "(2 * m) XOR (2 * m + 1) = 1" using XOR_double(2) [of m m] by simp
  then have "T (2 * m) XOR T (2 * m + 1) = rot d (Suc k) (2 ^ 0)"
    using travel_XOR [OF assms(1), of "2 * m" "2 * m + 1"] assms(2,3) by (simp add: T_def small_iff)
  then have "T (2 * m) XOR T (2 * m + 1) = 2 ^ (if Suc k < d then Suc k else Suc k - d)" using rot_exp [of 0 d "Suc k"] k by simp
  then show ?thesis using k unfolding crossing_def cells
    by (intro exI [of _ "if Suc k < d then Suc k else Suc k - d"]) (auto simp: xor.commute)
qed

lemma travel_crossing_odd:
  assumes "corners d s e k" "0 \<le> m" "2 * m + 3 < 2 ^ d"
  defines "T \<equiv> gray_encode_travel s e (2 ^ d - 1)"
  shows "\<exists>t. crossing d (T (2 * m + 1)) (T (2 * m + 2)) (T (last_cell d (2 * m + 1))) (T (first_cell (2 * m + 2))) t"
proof -
  have k: "0 < d" "Suc k \<le> d" using assms(1) by (auto simp: corners_def)
  have cells: "last_cell d (2 * m + 1) = 2 * m + 3" "first_cell (2 * m + 2) = 2 * m"
    unfolding last_cell_def first_cell_def set_low clear_low using assms(2,3) by auto
  obtain t where t: "m XOR (m + 1) = mask (Suc t)" using XOR_succ [OF assms(2)] by blast
  have x: "(2 * m + 1) XOR (2 * m + 2) = mask (Suc (Suc t))" "(2 * m + 3) XOR (2 * m) = mask (Suc (Suc t))" "(2 * m + 3) XOR (2 * m + 2) = 1"
    using XOR_double(3) [of m "m + 1"] XOR_double(3) [of "m + 1" m] XOR_double(3) [of "m + 1" "m + 1"] t mask_twice [of "Suc t"]
    by (simp_all add: algebra_simps xor.commute)
  note X = travel_XOR [OF assms(1), folded T_def]
  have s: "take_bit d (2 * m + 3) = 2 * m + 3" "take_bit d (2 * m + 2) = 2 * m + 2" "take_bit d (2 * m + 1) = 2 * m + 1" "take_bit d (2 * m) = 2 * m"
    using assms(2,3) unfolding small_iff by auto
  have "take_bit d (mask (Suc (Suc t))) = (mask (Suc (Suc t)) :: int)" using take_bit_XOR [OF s(3,2)] unfolding x(1) .
  then have td: "Suc t < d" using small_bit [of d "mask (Suc (Suc t))" "Suc t"] by (simp add: bit_mask_iff)
  let ?t = "if Suc t + Suc k < d then Suc t + Suc k else Suc t + Suc k - d" and ?z = "if Suc k < d then Suc k else Suc k - d"
  have "T (2 * m + 1) XOR T (2 * m + 2) = 2 ^ ?t" "T (2 * m + 3) XOR T (2 * m) = 2 ^ ?t" "T (2 * m + 3) XOR T (2 * m + 2) = 2 ^ ?z"
    using X [OF s(3,2)] X [OF s(1,4)] X [OF s(1,2)] rot_exp [OF td k(2)] rot_exp [OF k] unfolding x gray_mask gray_1 by (simp_all only: power_0 add_0)
  moreover have "?t < d" "?t \<noteq> ?z" using td k by auto
  ultimately show ?thesis unfolding crossing_def cells using XOR_exp_bits by blast
qed

lemma travel_crossing:
  assumes "corners d s e k" "0 \<le> i" "i + 1 < 2 ^ d"
  defines "T \<equiv> gray_encode_travel s e (2 ^ d - 1)"
  shows "\<exists>t. crossing d (T i) (T (i + 1)) (T (last_cell d i)) (T (first_cell (i + 1))) t"
proof (cases "even i")
  case True
  then obtain m where "i = 2 * m" by auto
  then show ?thesis using travel_crossing_even [OF assms(1), of m] assms(2,3) by (simp add: T_def)
next
  case False
  then obtain m where m: "i = 2 * m + 1" by (auto elim: oddE)
  obtain n where "d = Suc n" using assms(1) by (cases d) (auto simp: corners_def)
  then obtain q :: int where "2 ^ d = 2 * q" by auto
  then have "2 * m + 3 < 2 ^ d" using assms(3) m by presburger
  moreover have "0 \<le> m" using assms(2) m by simp
  moreover have "i + 1 = 2 * m + 2" using m by simp
  ultimately show ?thesis using travel_crossing_odd [OF assms(1), of m] m unfolding T_def by metis
qed

lemma column_append: "column (xs @ ys) b = column xs b * 2 ^ length ys + column ys b"
  by (induction ys rule: rev_induct) (simp_all add: column_snoc append_assoc [symmetric] algebra_simps del: append_assoc, simp add: column_def)

lemma column_replicate: "column (replicate r u) b = (if bit u b then 2 ^ r - 1 else 0)"
proof (induction r)
  case (Suc r)
  have "replicate (Suc r) u = replicate r u @ [u]" by (simp add: replicate_append_same)
  then show ?case using Suc by (simp only: column_snoc) simp
qed (simp add: column_def)

lemma crossing_column:
  assumes "crossing d c c' u v t"
  shows "b \<noteq> t \<Longrightarrow> column (A @ c' # replicate r v) b = column (A @ c # replicate r u) b"
    and "\<bar>column (A @ c' # replicate r v) t - column (A @ c # replicate r u) t\<bar> = 1"
proof -
  have x: "bit c b = bit c' b \<longleftrightarrow> b \<noteq> t" "bit u b = bit v b \<longleftrightarrow> b \<noteq> t" for b
    using assms XOR_exp_bits by (auto simp: crossing_def)
  have a: "column (A @ c # replicate r u) b = column A b * 2 ^ Suc r + of_bool (bit c b) * 2 ^ r + (if bit u b then 2 ^ r - 1 else 0)" for A c r u b
    using column_append [of A "[c] @ replicate r u" b] column_append [of "[c]" "replicate r u" b] by (simp add: column_replicate) (simp add: column_def)
  show "b \<noteq> t \<Longrightarrow> column (A @ c' # replicate r v) b = column (A @ c # replicate r u) b" using x [of b] by (simp only: a) simp
  show "\<bar>column (A @ c' # replicate r v) t - column (A @ c # replicate r u) t\<bar> = 1"
    using x [of t] assms by (cases "bit c t") (auto simp: a crossing_def)
qed

lemma encode_succ:
  assumes "0 < d" "d \<le> 15" "0 \<le> i" "i + 1 < (2 ^ d) ^ n"
  shows "\<exists>A r c c' u v t. crossing d c c' u v t \<and> encode d (digits (2 ^ d) n i) = A @ c # replicate r u
    \<and> encode d (digits (2 ^ d) n (i + 1)) = A @ c' # replicate r v"
proof -
  have "(1 :: int) < 2 ^ d" using assms(1) by (rule one_less_power [rotated]) simp
  then obtain P x r where P: "digits (2 ^ d) n i = P @ x # replicate r (2 ^ d - 1)" "digits (2 ^ d) n (i + 1) = P @ (x + 1) # replicate r 0"
    "0 \<le> x" "x + 1 < 2 ^ d" "set P \<subseteq> set (digits (2 ^ d) n i)" using digits_succ [OF _ assms(3,4)] by blast
  have "\<forall>i \<in> set P. take_bit d i = i" using P(5) digits_small by blast
  then obtain A s e k where A: "corners d s e k" "\<forall>is. encode_loop (2 ^ d - 1) 0 (2 ^ init_bit n d) (P @ is) = A @ encode_loop (2 ^ d - 1) s e is"
    using encode_split [OF init_corners [OF assms(1,2)]] by blast
  let ?T = "gray_encode_travel s e (2 ^ d - 1)"
  have x: "take_bit d x = x" "take_bit d (x + 1) = x + 1" using P(3,4) by (auto simp: small_iff)
  obtain t where t: "crossing d (?T x) (?T (x + 1)) (?T (last_cell d x)) (?T (first_cell (x + 1))) t"
    using travel_crossing [OF A(1) P(3,4)] by blast
  obtain k1 k2 where "corners d (?T (first_cell x)) (?T (last_cell d x)) k1" "corners d (?T (first_cell (x + 1))) (?T (last_cell d (x + 1))) k2"
    using child_corners [OF A(1) x(1)] child_corners [OF A(1) x(2)] by (auto simp: child_alt)
  then have "encode d (digits (2 ^ d) n i) = A @ ?T x # replicate r (?T (last_cell d x))"
    "encode d (digits (2 ^ d) n (i + 1)) = A @ ?T (x + 1) # replicate r (?T (first_cell (x + 1)))"
    using A(2) unfolding encode_def length_digits unfolding P(1,2) by (simp_all add: child_alt encode_first encode_last)
  then show ?thesis using t by blast
qed

lemma point_succ:
  assumes "0 < d" "d \<le> 15" "0 \<le> i" "i + 1 < (2 ^ d) ^ n"
  shows "\<exists>j < d. \<exists>v. point d n (i + 1) = (point d n i)[j := v] \<and> \<bar>v - point d n i ! j\<bar> = 1"
proof -
  obtain A r c c' u v t where e: "crossing d c c' u v t" "encode d (digits (2 ^ d) n i) = A @ c # replicate r u"
    "encode d (digits (2 ^ d) n (i + 1)) = A @ c' # replicate r v" using encode_succ [OF assms] by blast
  have t: "t < d" using e(1) by (simp add: crossing_def)
  let ?x = "column (A @ c # replicate r u)" and ?y = "column (A @ c' # replicate r v)"
  have "map (\<lambda>i. ?y (d - 1 - i)) [0..<d] = (map (\<lambda>i. ?x (d - 1 - i)) [0..<d])[d - 1 - t := ?y t]"
    using t crossing_column(1) [OF e(1)] by (intro nth_equalityI) (auto simp: nth_list_update)
  moreover have "\<bar>?y t - map (\<lambda>i. ?x (d - 1 - i)) [0..<d] ! (d - 1 - t)\<bar> = 1" using crossing_column(2) [OF e(1)] t by simp
  ultimately show ?thesis using t by (intro exI [of _ "d - 1 - t"]) (auto simp: point_def transpose_alt e)
qed

section \<open>Positions and coordinates\<close>

lemma biggest_Max: "foldl (\<lambda>b c. if c > b then c else b) (b :: int) cs = Max (set (b # cs))"
proof -
  have "(\<lambda>c b. if c > b then c else b) = (max :: int \<Rightarrow> int \<Rightarrow> int)" by (auto simp: fun_eq_iff)
  then show ?thesis unfolding Max.set_eq_fold foldl_conv_fold by simp
qed

lemma biggest_bounds:
  "b \<le> foldl (\<lambda>b c. if c > b then c else b) b cs" "c \<in> set cs \<Longrightarrow> c \<le> foldl (\<lambda>b c. if c > b then c else b) (b :: int) cs"
  "foldl (\<lambda>b c. if c > b then c else b) b cs \<in> insert b (set cs)"
  unfolding biggest_Max using Max_in [of "set (b # cs)"] by simp_all

lemma Hilbert_to_int_decode:
  "0 < d \<Longrightarrow> Hilbert_to_int flog coords d = map_option (\<lambda>is. pack_index is d)
    (decode d (transpose_bits coords (max 1 (flog (foldl (\<lambda>b c. if c > b then c else b) 0 coords)))))"
  by (simp add: Hilbert_to_int_def unpack_coords_def decode_def initial_alt transpose_alt Let_def)

lemma power_max: "1 < (p :: int) \<Longrightarrow> x < p ^ n \<Longrightarrow> x < p ^ max m n"
  by (rule order_less_le_trans) (auto intro: power_increasing)

lemma one_less_exp: "0 < d \<Longrightarrow> (1 :: int) < 2 ^ d"
  by (rule one_less_power) simp_all

lemma less_exp_31: "0 < d \<Longrightarrow> x < 2 ^ 31 \<Longrightarrow> (x :: int) < (2 ^ d) ^ 31"
  using power_mono [of 2 "2 ^ d :: int" 31] power_increasing [of 1 d "2 :: int"] by simp

lemma less_exp_25: "0 < d \<Longrightarrow> x < 2 ^ 31 \<Longrightarrow> 2 \<le> d \<or> x < 2 ^ 25 \<Longrightarrow> (x :: int) < (2 ^ d) ^ 25"
  using power_mono [of 2 "2 ^ d :: int" 25] power_mono [of 4 "2 ^ d :: int" 25] power_increasing [of 1 d "2 :: int"]
    power_increasing [of 2 d "2 :: int"] by auto

lemma coords_small:
  fixes coords :: "int list"
  assumes "\<forall>x \<in> set coords. take_bit 25 x = x" "\<And>j. 0 \<le> j \<Longrightarrow> j < 2 ^ 25 \<Longrightarrow> j < 2 ^ flog j"
  shows "\<forall>x \<in> set coords. take_bit (max 1 (flog (foldl (\<lambda>b c. if c > b then c else b) 0 coords))) x = x"
proof -
  let ?b = "foldl (\<lambda>b c. if c > b then c else b) 0 coords"
  have "0 \<le> ?b" "?b < 2 ^ 25" using biggest_bounds(1) [of 0 coords] biggest_bounds(3) [of 0 coords] assms(1) by (auto simp: small_iff)
  then have "?b < 2 ^ max 1 (flog ?b)" using assms(2) power_max [of 2] by simp
  then show ?thesis using assms(1) biggest_bounds(2) [of _ coords 0] unfolding small_iff by (meson order_le_less_trans)
qed

text \<open>
  C15. A position on the Hilbert curve is found again from the coordinates of its point: \<open>Hilbert_to_int\<close> inverts \<open>int_to_Hilbert\<close>,
  also where rounding in a logarithm adds a digit. This holds in up to 15 dimensions, for every position that is an \<open>int\<close>; in one
  dimension, where the coordinate is the position, for positions below \<open>2 ^ 25\<close>. The number of digits from the logarithm has to be large enough in base
  \<open>2 ^ ndim\<close> for positions below \<open>2 ^ 31\<close>, and in base 2, where the divisor is a \<open>float\<close>, only for coordinates below \<open>2 ^ 25\<close>.
\<close>

theorem hilbert_roundtrip:
  assumes "0 < ndim" "ndim \<le> 15" "0 \<le> i" "i < 2 ^ 31" "2 \<le> ndim \<or> i < 2 ^ 25"
    and "\<And>j. 0 \<le> j \<Longrightarrow> j < 2 ^ 31 \<Longrightarrow> j < (2 ^ ndim) ^ clog (2 ^ ndim) j"
    and "\<And>j. 0 \<le> j \<Longrightarrow> j < 2 ^ 25 \<Longrightarrow> j < 2 ^ flog j"
  shows "Hilbert_to_int flog (int_to_Hilbert clog i ndim) ndim = Some i"
proof -
  let ?n = "max 1 (clog (2 ^ ndim) i)"
  have n: "i < (2 ^ ndim) ^ ?n" using assms(6) [of i] one_less_exp [OF assms(1)] assms(3,4) by (intro power_max)
  then have "\<forall>x \<in> set (point ndim ?n i). take_bit 25 x = x"
    using point_any [OF assms(1,2,3) less_exp_25 [OF assms(1,4,5)]] point_small [where n = 25] by metis
  then have "\<forall>x \<in> set (point ndim ?n i). take_bit (max 1 (flog (foldl (\<lambda>b c. if c > b then c else b) 0 (point ndim ?n i)))) x = x"
    by (rule coords_small) (rule assms(7))
  then show ?thesis using decode_point [OF assms(1,2,3) n] assms(1) by (fastforce simp: int_to_Hilbert_point Hilbert_to_int_decode)
qed

text \<open>The number of digits of a number, for numbers of less than 32 digits.\<close>

fun count_digits :: "nat \<Rightarrow> int \<Rightarrow> int \<Rightarrow> nat" where
  "count_digits 0 p i = 0"
| "count_digits (Suc n) p i = (if i \<le> 0 then 0 else Suc (count_digits n p (i div p)))"

lemma count_digits_ok: "1 < p \<Longrightarrow> i < p ^ n \<Longrightarrow> i < p ^ count_digits n p i"
proof (induction n arbitrary: i)
  case (Suc n)
  then have "i div p < p ^ count_digits n p (i div p)" using div_less_power [of p i n] by simp
  then have "(i div p + 1) * p \<le> p ^ count_digits n p (i div p) * p" using Suc.prems by (intro mult_right_mono) auto
  moreover have "i < (i div p + 1) * p" unfolding distrib_right using div_mult_mod_eq [of i p] pos_mod_bound [of p i] Suc.prems(1) by linarith
  ultimately show ?case by (auto simp: mult.commute)
qed simp

lemma count_digits_31: "1 < p \<Longrightarrow> 0 \<le> j \<Longrightarrow> j < 2 ^ 31 \<Longrightarrow> j < p ^ count_digits 31 p j"
  using count_digits_ok [of p j 31] power_mono [of 2 p 31] by simp

theorem hilbert_roundtrip_witness:
  "int_to_Hilbert (count_digits 31) 11 2 = [3, 2] \<and> Hilbert_to_int (count_digits 31 2) (int_to_Hilbert (count_digits 31) 11 2) 2 = Some 11"
proof -
  have "int_to_Hilbert (count_digits 31) 11 2 = [3, 2]" by code_simp
  then show ?thesis using hilbert_roundtrip [of 2 11 "count_digits 31" "count_digits 31 2"] count_digits_31 by simp
qed

text \<open>
  C16. Positions that follow each other on the curve are neighbouring points: exactly one coordinate changes, by one. This is for up to
  15 dimensions, where the products of the Gray codes are in the range of \<open>int\<close>.
\<close>

theorem hilbert_neighbours:
  assumes "0 < ndim" "ndim \<le> 15" "0 \<le> i" "i + 1 < 2 ^ 31" "\<And>j. 0 \<le> j \<Longrightarrow> j < 2 ^ 31 \<Longrightarrow> j < (2 ^ ndim) ^ clog (2 ^ ndim) j"
  shows "\<exists>j < ndim. \<exists>v. int_to_Hilbert clog (i + 1) ndim = (int_to_Hilbert clog i ndim)[j := v]
    \<and> \<bar>v - int_to_Hilbert clog i ndim ! j\<bar> = 1"
proof -
  have "int_to_Hilbert clog j ndim = point ndim 31 j" if "0 \<le> j" "j < 2 ^ 31" for j
    using point_any [OF assms(1,2) that(1) less_exp_31 [OF assms(1) that(2)] power_max [OF one_less_exp [OF assms(1)] assms(5) [OF that]]]
      int_to_Hilbert_point [OF assms(1)] by metis
  then show ?thesis using point_succ [OF assms(1,2,3) less_exp_31 [OF assms(1,4)]] assms(3,4) by simp
qed

theorem hilbert_neighbours_witness:
  "\<exists>j < 3. \<exists>v. int_to_Hilbert (count_digits 31) (63 + 1) 3 = (int_to_Hilbert (count_digits 31) 63 3)[j := v]
    \<and> \<bar>v - int_to_Hilbert (count_digits 31) 63 3 ! j\<bar> = 1"
  using hilbert_neighbours [of 3 63 "count_digits 31"] count_digits_31 by simp

text \<open>The curve visits every point of a cube once.\<close>

lemma point_bij:
  assumes "0 < d" "d \<le> 15"
  shows "bij_betw (point d n) {0..<(2 ^ d) ^ n} {xs. set xs \<subseteq> {0..<2 ^ n} \<and> length xs = d}"
proof -
  let ?I = "{0..<(2 ^ d) ^ n :: int}" and ?C = "{xs. set xs \<subseteq> {0..<2 ^ n :: int} \<and> length xs = d}"
  have inj: "inj_on (point d n) ?I"
  proof (rule inj_onI)
    fix i j assume ij: "i \<in> ?I" "j \<in> ?I" and eq: "point d n i = point d n j"
    have "\<exists>is. decode d (transpose_bits (point d n k) n) = Some is \<and> pack_index is d = k" if "k \<in> ?I" for k
      using that point_small by (intro decode_point [OF assms]) auto
    from this [OF ij(1)] this [OF ij(2)] show "i = j" unfolding eq by force
  qed
  then have "card (point d n ` ?I) = (2 ^ d) ^ n" by (simp add: card_image nat_power_eq)
  moreover have "card ?C = (2 ^ n) ^ d" by (simp add: card_lists_length_eq nat_power_eq)
  moreover have "point d n ` ?I \<subseteq> ?C" using point_small [of _ d n] by (auto simp: small_iff point_def transpose_alt)
  moreover have "finite ?C" by (simp add: finite_lists_length_eq)
  ultimately have "point d n ` ?I = ?C" by (intro card_subset_eq) (simp_all only: power_mult [symmetric] mult.commute)
  with inj show ?thesis by (simp only: bij_betw_def)
qed

lemma point_onto:
  assumes "0 < d" "d \<le> 15" "length coords = d" "\<forall>x \<in> set coords. take_bit n x = x"
  shows "\<exists>i. 0 \<le> i \<and> i < (2 ^ d) ^ n \<and> point d n i = coords"
proof -
  have "coords \<in> {xs. set xs \<subseteq> {0..<2 ^ n} \<and> length xs = d}" using assms(3,4) by (auto simp: small_iff)
  then obtain i where "i \<in> {0..<(2 ^ d) ^ n}" "coords = point d n i" unfolding bij_betw_imp_surj_on [OF point_bij [OF assms(1,2)], symmetric] by (rule imageE)
  then show ?thesis by (intro exI [of _ i]) simp
qed

text \<open>
  C17. Every point of a cube with at most \<open>2 ^ 31\<close> points and an edge of at most \<open>2 ^ 25\<close> has a position on the curve, below the number of the
  points, and \<open>int_to_Hilbert\<close> returns the point for that position; in up to 15 dimensions. The hypotheses on the logarithms are those of the round trip.
\<close>

theorem hilbert_fills_cube:
  assumes "0 < ndim" "ndim \<le> 15" "ndim * n \<le> 31" "n \<le> 25" "length coords = ndim" "\<forall>x \<in> set coords. 0 \<le> x \<and> x < 2 ^ n"
    and "\<And>j. 0 \<le> j \<Longrightarrow> j < 2 ^ 31 \<Longrightarrow> j < (2 ^ ndim) ^ clog (2 ^ ndim) j"
    and "\<And>j. 0 \<le> j \<Longrightarrow> j < 2 ^ 25 \<Longrightarrow> j < 2 ^ flog j"
  shows "\<exists>i. Hilbert_to_int flog coords ndim = Some i \<and> 0 \<le> i \<and> i < 2 ^ (ndim * n) \<and> int_to_Hilbert clog i ndim = coords"
proof -
  obtain i where i: "0 \<le> i" "i < (2 ^ ndim) ^ n" "point ndim n i = coords"
    using point_onto [OF assms(1,2,5), of n] assms(6) by (auto simp: small_iff)
  have l: "i < 2 ^ 31" using i(2) power_increasing [OF assms(3), of "2 :: int"] by (simp add: power_mult)
  then have "i < (2 ^ ndim) ^ max 1 (clog (2 ^ ndim) i)" using i assms(7) one_less_exp [OF assms(1)] by (intro power_max) simp_all
  then have p: "int_to_Hilbert clog i ndim = coords" using point_any [OF assms(1,2) i(1,2)] i(3) by (simp add: int_to_Hilbert_point [OF assms(1)])
  have "\<exists>is. decode ndim (transpose_bits coords m) = Some is \<and> pack_index is ndim = i" if "\<forall>x \<in> set coords. take_bit m x = x" for m
    using decode_point [OF assms(1,2) i(1,2), of m] that i(3) by simp
  moreover have "\<forall>x \<in> set coords. take_bit 25 x = x" using assms(4,6) power_increasing [of n 25 "2 :: int"] by (force simp: small_iff)
  then have "\<forall>x \<in> set coords. take_bit (max 1 (flog (foldl (\<lambda>b c. if c > b then c else b) 0 coords))) x = x"
    by (rule coords_small) (rule assms(8))
  ultimately obtain "is" where "decode ndim (transpose_bits coords (max 1 (flog (foldl (\<lambda>b c. if c > b then c else b) 0 coords)))) = Some is" "pack_index is ndim = i"
    by blast
  then have "Hilbert_to_int flog coords ndim = Some i" unfolding Hilbert_to_int_decode [OF assms(1)] by simp
  then show ?thesis using p i(1,2) by (intro exI [of _ i]) (simp add: power_mult)
qed

theorem hilbert_fills_cube_witness:
  "\<exists>i. Hilbert_to_int (count_digits 31 2) [2, 0, 3] 3 = Some i \<and> 0 \<le> i \<and> i < 2 ^ (3 * 2) \<and> int_to_Hilbert (count_digits 31) i 3 = [2, 0, 3]"
  using hilbert_fills_cube [of 3 2 "[2, 0, 3]" "count_digits 31" "count_digits 31 2"] count_digits_31 by simp

section \<open>Outside of the bounds\<close>

text \<open>
  \<open>log(2.0f)\<close> is larger than the logarithm of 2, so that \<open>ceil(log(2 ^ 25 + 1) / log(2.0f))\<close> is 25: the coordinate \<open>2 ^ 25\<close> loses its
  highest bit and is read as the position 0.
\<close>

lemma hilbert_float_log: "flog (2 ^ 25) = 25 \<Longrightarrow> Hilbert_to_int flog [2 ^ 25] 1 = Some 0"
proof -
  assume f: "flog (2 ^ 25) = 25"
  have "column [2 ^ 25] r = 0" if "r < 25" for r
    using that bit_exp_iff [where ?'a = int, of 25 r] by (simp add: column_def del: power_numeral)
  then have "transpose_bits [2 ^ 25] 25 = map (\<lambda>i. 0) [0..<25]" unfolding transpose_alt by (intro map_cong) simp_all
  then have t: "transpose_bits [2 ^ 25] 25 = replicate 25 0 @ []" by (simp only: map_replicate_const) simp
  have "decode 1 (replicate 25 0 @ []) = Some (replicate 25 0 @ [])" using decode_pad [of 1 25 "[]"] by (simp add: decode_def [of _ "[]"])
  then show ?thesis using f t pack_pad [of 25 "[]" 1] by (simp add: Hilbert_to_int_decode pack_index_def)
qed

text \<open>In 17 dimensions the product of the Gray code overflows and two positions have the same point.\<close>

lemma hilbert_travel_overflow:
  "gray_encode_travel 0 (2 ^ 15) (2 ^ 17 - 1) 65535 = gray_encode_travel 0 (2 ^ 15) (2 ^ 17 - 1) 65536"
  by code_simp

lemma hilbert_17_collide:
  "clog (2 ^ 17) 65535 = 1 \<Longrightarrow> clog (2 ^ 17) 65536 = 1 \<Longrightarrow> int_to_Hilbert clog 65535 17 = int_to_Hilbert clog 65536 17"
  using hilbert_travel_overflow
  by (simp add: int_to_Hilbert_point point_def encode_def init_bit_def)

end
