(* ===== verification/Spec2Isabelle.thy ===== *)
theory Spec2Isabelle
  imports Cqs_Queue_Props Cmm Qd_Props Ccd_Props Iso_Props Crc32 Ck_Set Msg_Queue Cmi_Pool Ck_Hash_Props Ck_Q_Props Ck_Vec_Props Task_Queue Hilbert_Props
begin

text \<open>
  A verification library for parts of the Charm++ runtime system. The file names below are relative to
  \<open>src/src\<close> of the repository.

  \<^bold>\<open>The program.\<close> Converse, the lower layer (\<open>conv-core\<close>), runs a scheduler on every processor. Messages
  that arrive or that a processor sends to itself wait in the scheduler queue (\<open>queueing.C\<close>, or the templated queue
  of \<open>msgq.h\<close>); workers of a node that are idle steal tasks from one another (\<open>taskqueue.h\<close>, \<open>conv-taskQ.C\<close>). Between
  messages the scheduler raises conditions and runs timers (\<open>conv-conds.c\<close>). Messages that a thread receives by tag
  wait in message tables (\<open>msgmgr.c\<close>). Broadcasts, reductions and quiescence detection (\<open>quiescence.c\<close>) run over the
  spanning tree of \<open>converse.h\<close>. Memory comes from a pool of freed blocks (\<open>cmipool.c\<close>), and the memory of
  migratable threads from address ranges that are unique on the whole machine (\<open>isomalloc.c\<close>). The upper layers
  use the containers of \<open>util\<close> and \<open>ck-ldb\<close>, the checksums of \<open>util/crc32.c\<close> and the Hilbert curves of \<open>util/hilbert.C\<close>.

  \<^bold>\<open>Conventions.\<close> A C structure is a record and its functions are HOL functions that return the new structure,
  under the name that they have in the source or with a prefix for the class. \<open>Charm_Prelude\<close> has the machine words \<open>u16\<close> to
  \<open>u64\<close>, the function \<open>c_int\<close> that wraps a number to the range of a C \<open>int\<close>, \<open>'m ptr\<close> for a pointer that is only stored and compared, and \<open>arr_get\<close> and \<open>arr_upd\<close> for accesses that may be out of
  range. The value \<^term>\<open>None\<close> of an operation stands for undefined behaviour of the source or for a loop that does not end;
  errors that the source raises (\<open>CmiAbort\<close>, \<open>CmiAssert\<close>) are values of a sum type. Linked structures that share
  nodes (hash chains of priorities, message tables, the lists of free blocks, the pool) are stores from addresses to nodes.

  \<^bold>\<open>Scheduler queue\<close> (\<open>conv-core/queueing.C\<close>, \<open>queueing.h\<close>).
    \<^item> \<open>Cqs_Deq\<close>: the circular buffer \<open>deq_struct\<close>. The locale \<open>deque\<close> is the contract of a double ended queue; it is
      interpreted here. The allocator ends the program when an expansion would have \<open>2 ^ 31\<close> bytes.
    \<^item> \<open>Cqs_Prio\<close>, \<open>Cqs_Hash\<close>, \<open>Cqs_Prioq\<close>: priorities as bit vectors and their comparison; the table of buckets; the priority queue, one
      bucket per priority in a hash chain and in a heap. \<open>Array_Heap\<close> is the locale of heaps in an array (sift up, sift down),
      interpreted here, for the timers and for the heaps of the load balancers.
    \<^item> \<open>Cqs_Prioq_Inv\<close>, \<open>Cqs_Prioq_Ops\<close>: the invariant of heap, chains and buckets, and what enqueue and dequeue do to the bag of
      messages.
    \<^item> \<open>Cqs_Queue\<close>, \<open>Cqs_Queue_Order\<close>, \<open>Cqs_Queue_Thms\<close>, \<open>Cqs_Queue_Props\<close>: \<open>CqsEnqueueGeneral\<close> with all strategies and both byte orders,
      \<open>CqsDequeue\<close> and the readers; the specification as a bag of ranked messages; the proof that the queue implements
      it, keeps FIFO and LIFO order in a priority and loses nothing, and how integer and long priorities are ordered.

  \<^bold>\<open>Other queues.\<close> \<open>Msg_Queue\<close>: \<open>msgQ\<close> of \<open>conv-core/msgq.h\<close> refines a stable priority queue in its build variants.
  \<open>Task_Queue\<close>: the work stealing queue of \<open>conv-core/taskqueue.h\<close>, with one step for each access to \<open>head\<close> and \<open>tail\<close>; in every
  interleaving of the worker and the thieves each task is returned once, under two conditions that the code does not test: a slot is not
  reused before its thief has read it, and the tail does not overflow. A run shows that a test for a full queue would not ensure the
  first one, and a lemma what a push does after an overflow; \<open>StealTask\<close> of \<open>conv-taskQ.C\<close> moves a task between two queues.
  \<open>Ck_Q\<close>, \<open>Ck_Q_Props\<close>: \<open>CkQ\<close> of \<open>util/cklists.h\<close> refines a list of up to \<open>2 ^ 30\<close> elements; it is an instance of the locale
  \<open>bounded_deque\<close>, a double ended queue whose insertions can fail above a limit.

  \<^bold>\<open>Message tables\<close> (\<open>conv-core/msgmgr.c\<close>). \<open>Cmm\<close>: the list with its tail pointer; searches with wild cards return the first entry
  that matches, and packing and unpacking a table restores it. The pup stream is a parameter.

  \<^bold>\<open>Spanning tree and quiescence detection\<close> (\<open>conv-core/converse.h\<close>, \<open>arch/util/machine-common-core.C\<close>,
  \<open>arch/util/machine-broadcast.c\<close>, \<open>conv-core/quiescence.c\<close>).
    \<^item> \<open>Span_Tree\<close>: the parent and children of a processor; the locale \<open>pe_tree\<close> is what the users of the tree need.
    \<^item> \<open>Qd\<close>: the handlers of a processor. \<open>Qd_Net\<close>: the step relation of all processors with their channels, and the invariant.
      \<open>Qd_Inv\<close>: every step keeps it. \<open>Qd_Props\<close>: the first announcement is sound, no handler fails, a detection makes progress,
      and why a second announcement can come too early.

  \<^bold>\<open>Conditional callbacks\<close> (\<open>conv-core/conv-conds.c\<close>). \<open>Ccd_List\<close>: callback lists in an array with a list of free elements.
  \<open>Ccd_Heap\<close>: the timer heap. \<open>Ccd\<close>: registration, raising and polling; callbacks are a parameter that maps a state to a state.
  \<open>Ccd_Props\<close>: a raised condition calls the callbacks that were registered once and in order, timers are called when they are due, and what
  happens to a full heap. Callbacks may register callbacks and schedule timers; they must not cancel callbacks, and the heap must have room
  for the timers that they schedule, because an expansion frees the array that the poll still reads.

  \<^bold>\<open>Slot sets of isomalloc\<close> (\<open>conv-core/isomalloc.c\<close>). \<open>Iso_Lists\<close>, \<open>Iso_Btree\<close>, \<open>Iso_Slots\<close>: the data, the lists of free blocks by size, the
  B-tree of free blocks, and \<open>get_slots\<close>, \<open>grab_slots\<close>, \<open>free_slots\<close>. \<open>Iso_Search\<close>: the halving search. \<open>Iso_Bins\<close>, \<open>Iso_Tree\<close>,
  \<open>Iso_Insert\<close>, \<open>Iso_Balance\<close>, \<open>Iso_Delete\<close>: lists and tree are correct. \<open>Iso_Inv\<close>, \<open>Iso_Set\<close>, \<open>Iso_Props\<close>: the representation
  invariant, a slot set as a set of slots, and the contract: allocations never overlap, a search fails only
  when there is no room, and freeing undoes an allocation.

  \<^bold>\<open>Pool allocator\<close> (\<open>conv-core/cmipool.c\<close>). \<open>Cmi_Pool\<close>: blocks in use are disjoint and large enough, and the loop that never ends
  for sizes of two gigabytes.

  \<^bold>\<open>Containers.\<close>
    \<^item> \<open>Ck_Hash\<close>: the hash table of \<open>util/ckhashtable.C\<close>; \<open>Ck_Hash_Probe\<close>, \<open>Ck_Hash_Ops\<close>, \<open>Ck_Hash_Remove\<close>, \<open>Ck_Hash_Map\<close>: linear
      probing, the locale \<open>hash_keys\<close> of a hash function with a comparison that decides equality (interpreted for integers, pointers and
      byte strings), removal with displacement, and the operations on the map; \<open>Ck_Hash_Props\<close>: runs refine a map, packing and unpacking
      restores it.
    \<^item> \<open>Ck_Vec\<close>, \<open>Ck_Vec_Props\<close>: \<open>CkVec\<close> of \<open>util/cklists.h\<close> as a list, and its sorting.
    \<^item> \<open>Ck_Heap\<close>, \<open>Ck_Set\<close>: the heaps and sets of the load balancers (\<open>ck-ldb/ckheap.C\<close>, \<open>ckset.C\<close>, \<open>bitvecset.c\<close>).
    \<^item> \<open>Hilbert\<close>: positions on Hilbert curves and coordinates, \<open>util/hilbert.C\<close>; floating point logarithms are parameters.
      \<open>Hilbert_Curve\<close>: Gray codes, their rotations, and the corners of cells. \<open>Hilbert_Props\<close>: the two conversions are inverse,
      consecutive positions are neighbours, and the curve fills a cube; in up to 15 dimensions.
    \<^item> \<open>Crc32\<close>: \<open>util/crc32.c\<close>; the table driven routine is the remainder of a division of polynomials and detects bursts of up to 32 bits.

  \<^bold>\<open>Bounds and fuel.\<close> Loops that always end are functions with a termination proof. \<open>partial_function (option)\<close> is used where the
  source may loop forever or where termination rests on an invariant; the properties then state that a result is
  returned (allocation, \<open>quickSort\<close>, insertion and removal of the hash table). The calls of \<open>Task_Queue\<close> that are not interrupted take 3 and 4 steps, which are
  all the steps on their longest path; lemmas show that they return. Machine integers keep their width
  where a counter, hash code or size can wrap around. Where the source computes an index or a length in an \<open>int\<close> that can overflow before the memory
  ends, the definition wraps around or has no result there, and the property states the bound: fewer than \<open>2 ^ 31\<close> bytes in a table of \<open>Ck_Hash\<close>, \<open>2 ^ 30\<close>
  elements in \<open>CkQ\<close> and in a sorted \<open>CkVec\<close>, a tail below \<open>2 ^ 31 - 1\<close> in the work stealing queue, 15 dimensions and coordinates below \<open>2 ^ 25\<close> for Hilbert curves,
  and requests of less than \<open>2 ^ 31\<close> bytes to the pool. Other indices are mathematical integers. Times, loads and load factors are real numbers.

  \<^bold>\<open>Not modelled.\<close>
    \<^item> The machine layers (\<open>arch\<close>), sockets, threads, signals and the launcher: system calls, assembly and vendor libraries.
    \<^item> The rest of \<open>conv-core\<close>: \<open>convcore.c\<close> and \<open>converse.h\<close> connect the parts above with the machine layer; the allocators
      derived from other projects (\<open>memory-gnu*.c\<close>) and their debugging variants work on raw memory; \<open>random.c\<close> is mostly tables of a
      generator; in \<open>isomalloc.c\<close> the probing and mapping of the address space is left out.
    \<^item> The chare layer (\<open>ck-core\<close>), its load balancing framework and strategies (\<open>ck-ldb\<close>, \<open>conv-ldb\<close>), tracing and steering (\<open>ck-perf\<close>, \<open>conv-perf\<close>,
      \<open>ck-cp\<close>, \<open>ck-pics\<close>) and the server interface (\<open>conv-ccs\<close>): they are written against code that the translator of
      \<open>xlat-i\<close> generates at build time, and against virtual methods of the application.
    \<^item> The pup framework (\<open>util/pup*\<close>): templates over the byte layout of arbitrary C++ types. A stream is a list of values where
      a component packs itself.
    \<^item> The translators (\<open>xlat-i\<close>, \<open>xlatcpm\<close>), the languages and libraries (\<open>langs\<close>, \<open>libs\<close>) and the scripts: separate programs on top of the runtime.
    \<^item> Weak memory: interleavings are sequentially consistent.
\<close>

end
